(* ===== verification/C_Prelude.thy ===== *)
theory C_Prelude
  imports Main "HOL-Library.Word" "HOL-Library.Monad_Syntax"
begin

text \<open>
  The part of C and of its standard library that the monitor's sources use, and the lemmas on
  lists, characters and numerals that the component theories share.

  \<^item> A byte is a \<^typ>\<open>char\<close> (HOL's characters are exactly the 256 bytes). A pointer into an
    object is modelled by the bytes from the pointed-to byte to the end of the object, so
    \<open>*p\<close> is the head of the list, \<open>p + n\<close> is \<^const>\<open>drop\<close>, and reading the empty list is reading
    outside the object. Such a read is undefined behaviour in C and is the value \<^const>\<open>None\<close> here.
  \<^item> The value of a local \<open>char\<close> array that holds a C string is the list of its bytes up to
    (without) the terminating NUL.
  \<^item> \<open>unsigned int\<close> values on which the code relies on wrap-around are \<open>32 word\<close>; \<open>size_t\<close>
    subtraction is written out modulo \<open>2 ^ 64\<close>; incrementing an \<open>int\<close> past \<open>INT_MAX\<close> is undefined
    behaviour, so \<open>cinc\<close> is partial.
\<close>

unbundle bit_operations_syntax

named_theorems ctype_defs \<open>definitions of the character classes\<close>
named_theorems render_len \<open>upper bounds on the length of rendered fields\<close>
named_theorems rets \<open>rules for what holds of a result whenever a partial operation returns\<close>
named_theorems safe_chars \<open>rendered fields hold neither white space nor control characters\<close>

type_synonym byte = char
type_synonym cptr = "byte list"
type_synonym kv = "string \<times> string"

abbreviation NUL :: byte where "NUL \<equiv> CHR 0x00"
abbreviation CR :: byte where "CR \<equiv> CHR 0x0D"
abbreviation LF :: byte where "LF \<equiv> CHR 0x0A"

section \<open>Bytes and character classes\<close>

definition bval :: "byte \<Rightarrow> nat" where
  "bval c = of_char c"

definition isdigit :: "byte \<Rightarrow> bool" where [ctype_defs]:
  "isdigit c \<longleftrightarrow> 48 \<le> bval c \<and> bval c \<le> 57"

definition isspace :: "byte \<Rightarrow> bool" where [ctype_defs]:
  "isspace c \<longleftrightarrow> bval c = 32 \<or> 9 \<le> bval c \<and> bval c \<le> 13"

definition isupper :: "byte \<Rightarrow> bool" where [ctype_defs]:
  "isupper c \<longleftrightarrow> 65 \<le> bval c \<and> bval c \<le> 90"

definition islower :: "byte \<Rightarrow> bool" where [ctype_defs]:
  "islower c \<longleftrightarrow> 97 \<le> bval c \<and> bval c \<le> 122"

definition isalpha :: "byte \<Rightarrow> bool" where [ctype_defs]:
  "isalpha c \<longleftrightarrow> isupper c \<or> islower c"

definition toupper :: "byte \<Rightarrow> byte" where
  "toupper c = (if islower c then char_of (bval c - 32) else c)"

definition tolower :: "byte \<Rightarrow> byte" where
  "tolower c = (if isupper c then char_of (bval c + 32) else c)"


lemma bval_less [simp]: "bval c < 256"
  unfolding bval_def using of_char_mod_256 [of c, where 'a = nat]
  by (metis mod_less_divisor zero_less_numeral)

lemma bval_inject [simp]: "bval c = bval d \<longleftrightarrow> c = d"
  by (simp add: bval_def)

lemma bval_char_of [simp]: "bval (char_of n) = n mod 256"
  by (simp add: bval_def)

lemma char_of_bval [simp]: "char_of (bval c) = c"
  by (simp add: bval_def)

lemma bval_eqI: "bval c = n \<Longrightarrow> c = char_of n"
  by (metis char_of_bval)

lemma isdigit_not_space: "isdigit c \<Longrightarrow> \<not> isspace c"
  by (auto simp: ctype_defs)

lemma NUL_not_class [simp]:
  "\<not> isdigit NUL" "\<not> isspace NUL" "\<not> isupper NUL" "\<not> islower NUL" "\<not> isalpha NUL"
  by (simp_all add: ctype_defs bval_def)

section \<open>Reading memory\<close>

text \<open>\<open>p[i]\<close>: undefined (\<^const>\<open>None\<close>) outside the object.\<close>

definition rd :: "cptr \<Rightarrow> nat \<Rightarrow> byte option" where
  "rd p i = (if i < length p then Some (p ! i) else None)"

lemma rd_Some [simp]: "i < length p \<Longrightarrow> rd p i = Some (p ! i)"
  by (simp add: rd_def)

lemma rd_None_iff [simp]: "rd p i = None \<longleftrightarrow> length p \<le> i"
  by (auto simp: rd_def)

lemma rd_eq_Some_iff: "rd p i = Some c \<longleftrightarrow> i < length p \<and> p ! i = c"
  by (auto simp: rd_def)

lemma rd_Cons [simp]: "rd (c # p) 0 = Some c" "rd (c # p) (Suc i) = rd p i"
  by (simp_all add: rd_def)

text \<open>The C string an array holds: its bytes up to the first NUL.\<close>

definition cstr_of :: "byte list \<Rightarrow> string" where
  "cstr_of xs = takeWhile (\<lambda>c. c \<noteq> NUL) xs"

text \<open>The C string at a pointer: undefined when the object holds no NUL from there on.\<close>

definition cstr :: "cptr \<Rightarrow> string option" where
  "cstr p = (if NUL \<in> set p then Some (cstr_of p) else None)"

lemma cstr_of_no_NUL [simp]: "NUL \<notin> set (cstr_of xs)"
  by (auto simp: cstr_of_def dest: set_takeWhileD)

lemma length_cstr_of [simp]: "length (cstr_of xs) \<le> length xs"
  by (simp add: cstr_of_def length_takeWhile_le)

lemma cstr_of_terminated [simp]: "NUL \<notin> set s \<Longrightarrow> cstr_of (s @ NUL # t) = s"
  by (induction s) (auto simp: cstr_of_def)

lemma cstr_of_id: "NUL \<notin> set s \<Longrightarrow> cstr_of s = s"
  by (auto simp: cstr_of_def takeWhile_eq_all_conv)

lemma set_cstr_of: "set (cstr_of xs) \<subseteq> set xs"
  by (auto simp: cstr_of_def dest: set_takeWhileD)

text \<open>\<open>memcmp(buf, s, strlen(s)) == 0\<close>: all bytes of both objects may be read.\<close>

definition memcmp_eq :: "cptr \<Rightarrow> string \<Rightarrow> bool option" where
  "memcmp_eq p s = (if length s \<le> length p then Some (take (length s) p = s) else None)"

text \<open>\<open>strstr\<close> and \<open>memmem\<close> on the bytes they search: does \<open>s\<close> occur?\<close>

fun contains :: "byte list \<Rightarrow> string \<Rightarrow> bool" where
  "contains [] s \<longleftrightarrow> s = []"
| "contains (c # p) s \<longleftrightarrow> take (length s) (c # p) = s \<or> contains p s"

text \<open>\<open>strncasecmp(str, prefix, strlen(prefix)) == 0\<close>.\<close>

definition starts_with :: "string \<Rightarrow> string \<Rightarrow> bool" where
  "starts_with str prefix \<longleftrightarrow> map tolower (take (length prefix) str) = map tolower prefix"

text \<open>\<open>while (**p && isspace(**p)) (*p)++;\<close>\<close>

fun skip_ws :: "cptr \<Rightarrow> cptr option" where
  "skip_ws [] = None"
| "skip_ws (c # p) = (if c \<noteq> NUL \<and> isspace c then skip_ws p else Some (c # p))"

lemma skip_ws_terminated: "NUL \<in> set p \<Longrightarrow> \<exists>q. skip_ws p = Some q \<and> NUL \<in> set q"
  by (induction p) (auto split: if_splits)

lemma skip_ws_suffix: "skip_ws p = Some q \<Longrightarrow> \<exists>w. p = w @ q \<and> (\<forall>c \<in> set w. isspace c)"
proof (induction p)
  case (Cons c p)
  show ?case
  proof (cases "c \<noteq> NUL \<and> isspace c")
    case True
    with Cons obtain w where "p = w @ q" "\<forall>c \<in> set w. isspace c" by auto
    with True show ?thesis by (intro exI [of _ "c # w"]) auto
  next
    case False
    with Cons.prems show ?thesis by (intro exI [of _ "[]"]) auto
  qed
qed simp

section \<open>Integers\<close>

text \<open>\<open>x++\<close> on an \<open>int\<close>.\<close>

definition cinc :: "int \<Rightarrow> int option" where
  "cinc x = (if x < 2 ^ 31 - 1 then Some (x + 1) else None)"

lemma cinc_eq_Some [simp]: "cinc x = Some y \<longleftrightarrow> x < 2147483647 \<and> y = x + 1"
  by (auto simp: cinc_def)

lemma cinc_eq_None [simp]: "cinc x = None \<longleftrightarrow> 2147483647 \<le> x"
  by (auto simp: cinc_def)

lemma unat32_less [simp]: "unat (w :: 32 word) < 4294967296"
  by (rule order_less_le_trans [OF unsigned_less]) simp

lemma unat32_of_nat: "n < 4294967296 \<Longrightarrow> unat (word_of_nat n :: 32 word) = n"
  by (simp add: unsigned_of_nat take_bit_nat_eq_self)

lemma unat32_add: "unat (a :: 32 word) + unat b < 4294967296 \<Longrightarrow> unat (a + b) = unat a + unat b"
  by (simp add: unat_word_ariths take_bit_nat_eq_self)

text \<open>\<open>a - b\<close> on \<open>size_t\<close>.\<close>

definition size_sub :: "nat \<Rightarrow> nat \<Rightarrow> nat" where
  "size_sub a b = (if b \<le> a then a - b else 2 ^ 64 + a - b)"

text \<open>Conversion of an \<open>unsigned int\<close> or of a wider value to \<open>int\<close>.\<close>

definition to_int32 :: "int \<Rightarrow> int" where
  "to_int32 x = (x + 2 ^ 31) mod 2 ^ 32 - 2 ^ 31"

lemma to_int32_id [simp]: "- 2147483648 \<le> x \<Longrightarrow> x < 2147483648 \<Longrightarrow> to_int32 x = x"
  by (simp add: to_int32_def)

lemma to_int32_wrap:
  assumes "2147483648 \<le> x" and "x < 4294967296"
  shows "to_int32 x = x - 4294967296"
proof -
  have "(x + 2147483648) mod 4294967296 = x - 2147483648"
    using assms by (intro int_mod_pos_eq [where q = 1]) auto
  then show ?thesis by (simp add: to_int32_def)
qed

lemma to_int32_bounds: "- 2147483648 \<le> to_int32 x \<and> to_int32 x < 2147483648"
proof -
  have "0 \<le> (x + 2 ^ 31) mod 2 ^ 32" and "(x + 2 ^ 31) mod 2 ^ 32 < (2 ^ 32 :: int)"
    by simp_all
  then show ?thesis by (simp add: to_int32_def)
qed

text \<open>
  \<open>atoi\<close> from the white space on: the C library reads an optional sign and the digits with
  \<open>strtol\<close>, whose result saturates at the bounds of \<open>long\<close>, and converts that to \<open>int\<close>.
\<close>

fun scan_digits :: "int \<Rightarrow> cptr \<Rightarrow> int option" where
  "scan_digits acc [] = None"
| "scan_digits acc (c # p) =
     (if isdigit c then scan_digits (10 * acc + (int (bval c) - 48)) p else Some acc)"

definition clamp_long :: "int \<Rightarrow> int" where
  "clamp_long x = max (- (2 ^ 63)) (min (2 ^ 63 - 1) x)"

definition atoi :: "cptr \<Rightarrow> int option" where
  "atoi p = do {
     q \<leftarrow> skip_ws p;
     c \<leftarrow> rd q 0;
     (if c = CHR ''-'' then map_option (\<lambda>v. to_int32 (clamp_long (- v))) (scan_digits 0 (drop 1 q))
      else if c = CHR ''+'' then map_option (\<lambda>v. to_int32 (clamp_long v)) (scan_digits 0 (drop 1 q))
      else map_option (\<lambda>v. to_int32 (clamp_long v)) (scan_digits 0 q))
   }"

text \<open>\<open>atoi\<close> of a C string held in an array.\<close>

definition atoi_str :: "string \<Rightarrow> int" where
  "atoi_str s = (case atoi (s @ [NUL]) of Some v \<Rightarrow> v | None \<Rightarrow> 0)"

text \<open>A byte that ends every scan of \<open>skip_ws\<close> and \<open>atoi\<close>; a NUL is one, and so is the canary.\<close>

definition stop_byte :: "byte \<Rightarrow> bool" where
  "stop_byte c \<longleftrightarrow> \<not> isspace c \<and> \<not> isdigit c \<and> c \<noteq> CHR ''-'' \<and> c \<noteq> CHR ''+''"

lemma stop_byte_NUL [simp]: "stop_byte NUL"
  by (simp add: stop_byte_def ctype_defs bval_def)

lemma skip_ws_stops: "c \<in> set p \<Longrightarrow> stop_byte c \<Longrightarrow> \<exists>q. skip_ws p = Some q \<and> c \<in> set q"
  by (induction p) (auto simp: stop_byte_def)

lemma scan_digits_stops: "c \<in> set p \<Longrightarrow> stop_byte c \<Longrightarrow> \<exists>v. scan_digits acc p = Some v"
  by (induction p arbitrary: acc) (auto simp: stop_byte_def)

lemma atoi_stops:
  assumes "c \<in> set p" and "stop_byte c"
  shows "\<exists>v. atoi p = Some v"
proof -
  from skip_ws_stops [OF assms] obtain q where q: "skip_ws p = Some q" "c \<in> set q" by blast
  from q(2) obtain d q' where dq: "q = d # q'" by (cases q) auto
  show ?thesis
  proof (cases "d = CHR ''-'' \<or> d = CHR ''+''")
    case True
    with assms(2) q(2) dq have "c \<in> set q'" by (auto simp: stop_byte_def)
    from scan_digits_stops [OF this assms(2), of 0] True q dq show ?thesis
      by (auto simp: atoi_def)
  next
    case False
    with scan_digits_stops [OF q(2) assms(2), of 0] q dq show ?thesis by (auto simp: atoi_def)
  qed
qed

lemma atoi_terminated: "NUL \<in> set p \<Longrightarrow> \<exists>v. atoi p = Some v"
  by (rule atoi_stops [OF _ stop_byte_NUL])

lemma atoi_bounds: "atoi p = Some v \<Longrightarrow> - 2147483648 \<le> v \<and> v < 2147483648"
  using to_int32_bounds
  by (fastforce simp: atoi_def split: Option.bind_splits if_splits option.splits)

lemma atoi_str_bounds: "- 2147483648 \<le> atoi_str s" "atoi_str s < 2147483648"
proof -
  obtain v where v: "atoi (s @ [NUL]) = Some v" using atoi_terminated [of "s @ [NUL]"] by auto
  with atoi_bounds [OF v] show "- 2147483648 \<le> atoi_str s" "atoi_str s < 2147483648"
    by (simp_all add: atoi_str_def)
qed

section \<open>Big-endian fields\<close>

text \<open>\<open>(p[0] << 8) | p[1]\<close> and its longer forms.\<close>

definition be16 :: "byte \<Rightarrow> byte \<Rightarrow> nat" where
  "be16 a b = push_bit 8 (bval a) OR bval b"

definition be24 :: "byte \<Rightarrow> byte \<Rightarrow> byte \<Rightarrow> nat" where
  "be24 a b c = push_bit 16 (bval a) OR (push_bit 8 (bval b) OR bval c)"

definition be32 :: "byte \<Rightarrow> byte \<Rightarrow> byte \<Rightarrow> byte \<Rightarrow> nat" where
  "be32 a b c d = push_bit 24 (bval a) OR (push_bit 16 (bval b) OR (push_bit 8 (bval c) OR bval d))"

lemma and_low:
  assumes "b < 2 ^ n"
  shows "push_bit n a AND b = (0 :: nat)"
proof -
  have "take_bit n b = b" using assms by (simp add: take_bit_nat_eq_self_iff)
  then have "bit b m \<Longrightarrow> m < n" for m by (metis bit_take_bit_iff)
  then show ?thesis by (intro bit_eqI) (auto simp: bit_simps not_le dest: leD)
qed

lemma or_low:
  assumes "b < 2 ^ n"
  shows "push_bit n a OR b = a * 2 ^ n + (b :: nat)"
proof -
  have "push_bit n a + b = push_bit n a OR b" by (rule disjunctive_add_eq_or [OF and_low [OF assms]])
  then show ?thesis by (simp add: push_bit_eq_mult)
qed

lemma be16_eq: "be16 a b = 256 * bval a + bval b"
  using or_low [of "bval b" 8 "bval a"] by (simp add: be16_def)

lemma be24_eq: "be24 a b c = 65536 * bval a + 256 * bval b + bval c"
proof -
  have "256 * bval b + bval c < 2 ^ 16" using bval_less [of b] bval_less [of c] by (simp del: bval_less)
  from or_low [OF this, of "bval a"] be16_eq [of b c] show ?thesis by (simp add: be24_def be16_def)
qed

lemma be32_eq: "be32 a b c d = 16777216 * bval a + 65536 * bval b + 256 * bval c + bval d"
proof -
  have "65536 * bval b + 256 * bval c + bval d < 2 ^ 24"
    using bval_less [of b] bval_less [of c] bval_less [of d] by (simp del: bval_less)
  from or_low [OF this, of "bval a"] be24_eq [of b c d] show ?thesis by (simp add: be32_def be24_def)
qed

lemma be_bounds [simp]: "be16 a b < 65536" "be24 a b c < 16777216" "be32 a b c d < 4294967296"
  using bval_less [of a] bval_less [of b] bval_less [of c] bval_less [of d]
  by (simp_all add: be16_eq be24_eq be32_eq del: bval_less)

section \<open>Partial operations\<close>

text \<open>
  \<open>rets P m\<close>: if \<open>m\<close> is defined, its value satisfies \<open>P\<close>. The rules in the collection take an
  operation apart along its conditionals and binds, one goal per path.
\<close>

definition rets :: "('a \<Rightarrow> bool) \<Rightarrow> 'a option \<Rightarrow> bool" where
  "rets P m \<longleftrightarrow> (\<forall>x. m = Some x \<longrightarrow> P x)"

lemma rets_Some [rets]: "P x \<Longrightarrow> rets P (Some x)"
  by (simp add: rets_def)

lemma rets_if [rets]: "(b \<Longrightarrow> rets P x) \<Longrightarrow> (\<not> b \<Longrightarrow> rets P y) \<Longrightarrow> rets P (if b then x else y)"
  by simp

lemma rets_bind [rets]: "(\<And>y. m = Some y \<Longrightarrow> rets P (f y)) \<Longrightarrow> rets P (m \<bind> f)"
  by (cases m) (simp_all add: rets_def)

lemma rets_prod [rets]: "(\<And>a b. x = (a, b) \<Longrightarrow> rets P (f a b)) \<Longrightarrow> rets P (case x of (a, b) \<Rightarrow> f a b)"
  by (cases x) simp

lemma rets_D: "rets P m \<Longrightarrow> m = Some x \<Longrightarrow> P x"
  by (simp add: rets_def)

lemma if_cases: "(b \<Longrightarrow> P x) \<Longrightarrow> (\<not> b \<Longrightarrow> P y) \<Longrightarrow> P (if b then x else y)"
  by simp

end
