(* ===== verification/Pred_Line.thy ===== *)
theory Pred_Line
  imports C_Prelude
begin

text \<open>
  Predicate lines: how an adapter prints them and how the evaluator reads them back.

  Every adapter prints one line of space separated \<open>key=value\<close> pairs with \<open>snprintf\<close> and then
  appends \<open>msg_id\<close>, \<open>dir\<close> and the hexadecimal bytes of the packet with its own copy of
  \<open>append_packet_trace\<close> (the copies in the FTP, SSH, RTSP and DTLS adapters are identical).
  The format strings are literally \<open>k1=%.. k2=%.. ...\<close>, so a line is modelled as the list of its
  pairs, printed by \<open>render_kvs\<close>; \<open>parse_kv_line\<close> is the evaluator's reader (\<open>main.cpp\<close>).
  The lemmas show that the writer stays inside the buffer and what it appends, that printed
  fields are printable and bounded, and that the reader inverts the printer.
\<close>

section \<open>Printing numbers\<close>

text \<open>\<open>%u\<close>, \<open>%d\<close> and \<open>%02x\<close>.\<close>

fun udec :: "nat \<Rightarrow> string" where
  "udec n = (if n < 10 then [char_of (48 + n)] else udec (n div 10) @ [char_of (48 + n mod 10)])"

declare udec.simps [simp del]

definition sdec :: "int \<Rightarrow> string" where
  "sdec x = (if x < 0 then CHR ''-'' # udec (nat (- x)) else udec (nat x))"

definition hexdigit :: "nat \<Rightarrow> byte" where
  "hexdigit n = (if n < 10 then char_of (48 + n) else char_of (87 + n))"

definition hex2 :: "byte \<Rightarrow> string" where
  "hex2 c = [hexdigit (bval c div 16), hexdigit (bval c mod 16)]"

definition bool_str :: "bool \<Rightarrow> string" where
  "bool_str b = (if b then ''true'' else ''false'')"

text \<open>Printable, non-blank characters.\<close>

definition plain :: "byte \<Rightarrow> bool" where
  "plain c \<longleftrightarrow> 33 \<le> bval c \<and> bval c \<le> 126"

lemma plain_not_space: "plain c \<Longrightarrow> \<not> isspace c"
  by (auto simp: plain_def isspace_def)

lemma udec_nonempty [simp]: "udec n \<noteq> []"
  by (subst udec.simps) simp

lemma udec_digits: "c \<in> set (udec n) \<Longrightarrow> isdigit c"
proof (induction n rule: udec.induct)
  case (1 n)
  show ?case
  proof (cases "n < 10")
    case True
    with "1.prems" show ?thesis by (subst (asm) udec.simps) (simp add: isdigit_def)
  next
    case False
    with "1.prems" have "c \<in> set (udec (n div 10)) \<or> c = char_of (48 + n mod 10)"
      by (subst (asm) udec.simps) auto
    then show ?thesis
    proof
      assume "c \<in> set (udec (n div 10))"
      with False show ?thesis by (rule "1.IH")
    next
      assume "c = char_of (48 + n mod 10)"
      moreover have "n mod 10 < 10" by simp
      ultimately show ?thesis by (simp add: isdigit_def)
    qed
  qed
qed

lemma digits_udec:
  "takeWhile isdigit (udec n) = udec n" "fold (\<lambda>c v. 10 * v + (int (bval c) - 48)) (udec n) 0 = int n"
proof -
  show "takeWhile isdigit (udec n) = udec n" using udec_digits by (simp only: takeWhile_eq_all_conv) blast
  have b: "bval (char_of (48 + k)) = 48 + k" if "k < 10" for k using that by (simp add: bval_def)
  show "fold (\<lambda>c v. 10 * v + (int (bval c) - 48)) (udec n) 0 = int n"
  proof (induction n rule: udec.induct)
    case (1 n)
    show ?case
    proof (cases "n < 10")
      case True
      then show ?thesis by (subst udec.simps) (simp add: b)
    next
      case False
      with 1 have "fold (\<lambda>c v. 10 * v + (int (bval c) - 48)) (udec (n div 10)) 0 = int (n div 10)" by blast
      with False show ?thesis by (subst udec.simps) (simp add: b zdiv_int zmod_int)
    qed
  qed
qed

lemma isdigit_plain: "isdigit c \<Longrightarrow> plain c"
  by (auto simp: isdigit_def plain_def)

lemma udec_plain [safe_chars]: "\<forall>c \<in> set (udec n). plain c"
  using udec_digits isdigit_plain by blast

lemma sdec_plain [safe_chars]: "\<forall>c \<in> set (sdec x). plain c"
  using udec_plain by (auto simp: sdec_def plain_def bval_def)

lemma sdec_nonempty [simp]: "sdec x \<noteq> []"
  by (simp add: sdec_def)

lemma hexdigit_plain: "n < 16 \<Longrightarrow> plain (hexdigit n)"
  by (simp add: hexdigit_def plain_def)

lemma hex2_plain [safe_chars]: "\<forall>c \<in> set (hex2 b). plain c"
  by (simp add: hex2_def hexdigit_plain less_mult_imp_div_less)

lemma length_hex2 [simp]: "length (hex2 c) = 2"
  by (simp add: hex2_def)

lemma bool_str_plain [safe_chars]: "\<forall>c \<in> set (bool_str b). plain c"
  by (simp add: bool_str_def plain_def bval_def)

lemma bool_str_nonempty [simp]: "bool_str b \<noteq> []"
  by (simp add: bool_str_def)

lemma length_bool_str [render_len]: "length (bool_str b) \<le> 5"
  by (simp add: bool_str_def)

lemma length_udec_pow: "n < 10 ^ Suc k \<Longrightarrow> length (udec n) \<le> Suc k"
proof (induction k arbitrary: n)
  case 0
  then show ?case by (subst udec.simps) simp
next
  case (Suc k)
  show ?case
  proof (cases "n < 10")
    case True
    then show ?thesis by (subst udec.simps) simp
  next
    case False
    from Suc.prems have "n div 10 < 10 ^ Suc k" by (simp add: less_mult_imp_div_less)
    then have "length (udec (n div 10)) \<le> Suc k" by (rule Suc.IH)
    with False show ?thesis by (subst udec.simps) simp
  qed
qed

lemma length_udec32 [render_len]: "n < 2 ^ 32 \<Longrightarrow> length (udec n) \<le> 10"
  using length_udec_pow [of n 9] by simp

lemma length_udec64 [render_len]: "n < 2 ^ 64 \<Longrightarrow> length (udec n) \<le> 20"
  using length_udec_pow [of n 19] by simp

lemma length_sdec32 [render_len]:
  assumes "- 2147483648 \<le> x" and "x < 2147483648"
  shows "length (sdec x) \<le> 11"
proof (cases "x < 0")
  case True
  with assms have "nat (- x) < 10 ^ Suc 9" by simp
  from length_udec_pow [OF this] True show ?thesis by (simp add: sdec_def)
next
  case False
  with assms have "nat x < 10 ^ Suc 9" by simp
  from length_udec_pow [OF this] False show ?thesis by (simp add: sdec_def)
qed

section \<open>Lines of pairs\<close>

fun render_kvs :: "kv list \<Rightarrow> string" where
  "render_kvs [] = []"
| "render_kvs [(k, v)] = k @ ''='' @ v"
| "render_kvs ((k, v) # kvs) = k @ ''='' @ v @ '' '' @ render_kvs kvs"

text \<open>
  \<open>snprintf(out, sz, ...)\<close>: the C string in \<open>out\<close> afterwards, when the full text is \<open>s\<close>. Nothing
  is written when \<open>sz\<close> is 0.
\<close>

definition snprintf :: "string \<Rightarrow> nat \<Rightarrow> string \<Rightarrow> string" where
  "snprintf out sz s = (if sz = 0 then out else take (sz - 1) s)"

lemma length_snprintf [simp]: "0 < sz \<Longrightarrow> length (snprintf out sz s) < sz"
  by (simp add: snprintf_def)

lemma snprintf_fits: "length s < sz \<Longrightarrow> snprintf out sz s = s"
  by (simp add: snprintf_def)

lemma set_snprintf: "0 < sz \<Longrightarrow> set (snprintf out sz s) \<subseteq> set s"
  by (auto simp: snprintf_def dest: in_set_takeD)

text \<open>The evaluator's reader: \<open>iss >> tok\<close> and \<open>tok.find('=')\<close>.\<close>

fun split_ws :: "string \<Rightarrow> string \<Rightarrow> string list" where
  "split_ws acc [] = (if acc = [] then [] else [rev acc])"
| "split_ws acc (c # cs) =
     (if isspace c then (if acc = [] then split_ws [] cs else rev acc # split_ws [] cs)
      else split_ws (c # acc) cs)"

definition kv_of_token :: "string \<Rightarrow> kv option" where
  "kv_of_token tok = (if CHR ''='' \<in> set tok
     then Some (takeWhile (\<lambda>c. c \<noteq> CHR ''='') tok, tl (dropWhile (\<lambda>c. c \<noteq> CHR ''='') tok))
     else None)"

definition parse_kv_line :: "string \<Rightarrow> (string \<rightharpoonup> string)" where
  "parse_kv_line line =
     fold (\<lambda>tok m. case kv_of_token tok of None \<Rightarrow> m | Some (k, v) \<Rightarrow> m(k \<mapsto> v))
       (split_ws [] line) Map.empty"

definition wf_kv :: "kv \<Rightarrow> bool" where
  "wf_kv p \<longleftrightarrow> fst p \<noteq> [] \<and> CHR ''='' \<notin> set (fst p)
     \<and> (\<forall>c \<in> set (fst p). plain c) \<and> (\<forall>c \<in> set (snd p). plain c)"

lemma wf_kv_Pair [simp]:
  "wf_kv (k, v) \<longleftrightarrow> k \<noteq> [] \<and> CHR ''='' \<notin> set k
     \<and> (\<forall>c \<in> set k. plain c) \<and> (\<forall>c \<in> set v. plain c)"
  by (simp add: wf_kv_def)

text \<open>The same, split into a condition on the keys, which are literals, and one on the values.\<close>

definition wf_key :: "string \<Rightarrow> bool" where
  "wf_key k \<longleftrightarrow> k \<noteq> [] \<and> list_all (\<lambda>c. plain c \<and> c \<noteq> CHR ''='') k"

definition plain_str :: "string \<Rightarrow> bool" where
  "plain_str v \<longleftrightarrow> list_all plain v"

lemma wf_kvs_split:
  "(\<forall>p \<in> set kvs. wf_kv p) \<longleftrightarrow> list_all wf_key (map fst kvs) \<and> list_all plain_str (map snd kvs)"
  by (auto simp: list_all_iff wf_kv_def wf_key_def plain_str_def)

lemma plain_str_values [simp]:
  "plain_str (udec n)" "plain_str (sdec i)" "plain_str (bool_str b)"
  using udec_plain sdec_plain bool_str_plain by (simp_all add: plain_str_def list_all_iff)

lemma plain_eq [simp]: "plain (CHR ''='')"
  by (simp add: plain_def bval_def)

lemma split_ws_word:
  "\<forall>c \<in> set w. plain c \<Longrightarrow> split_ws acc (w @ cs) = split_ws (rev w @ acc) cs"
  by (induction w arbitrary: acc) (auto simp: plain_not_space)

lemma kv_of_token_pair: "CHR ''='' \<notin> set k \<Longrightarrow> kv_of_token (k @ ''='' @ v) = Some (k, v)"
  by (simp add: kv_of_token_def) (induction k; auto)

lemma split_ws_render:
  "\<forall>p \<in> set kvs. wf_kv p \<Longrightarrow> split_ws [] (render_kvs kvs) = map (\<lambda>(k, v). k @ ''='' @ v) kvs"
proof (induction kvs rule: render_kvs.induct)
  case (2 k v)
  then have "\<forall>c \<in> set (k @ ''='' @ v). plain c" by auto
  from split_ws_word [OF this, of "[]" "[]"] show ?case by simp
next
  case (3 k v q kvs)
  then have pl: "\<forall>c \<in> set (k @ ''='' @ v). plain c" by auto
  have "isspace CHR '' ''" by (simp add: isspace_def bval_def)
  with split_ws_word [OF pl, of "[]" "'' '' @ render_kvs (q # kvs)"] 3 show ?case
    by simp
qed simp

lemma fold_pairs:
  "\<forall>p \<in> set kvs. wf_kv p \<Longrightarrow>
   fold (\<lambda>tok m. case kv_of_token tok of None \<Rightarrow> m | Some (k, v) \<Rightarrow> m(k \<mapsto> v))
     (map (\<lambda>(k, v). k @ ''='' @ v) kvs) m = m ++ map_of (rev kvs)"
proof (induction kvs arbitrary: m)
  case (Cons p kvs)
  obtain k v where p: "p = (k, v)" by (cases p)
  with Cons.prems have "kv_of_token (k @ ''='' @ v) = Some (k, v)"
    by (intro kv_of_token_pair) simp
  with p Cons show ?case by (simp add: map_add_assoc [symmetric] map_add_upd_left)
qed simp

text \<open>The reader inverts the printer: a later pair wins, as with the writer's order.\<close>

lemma parse_render:
  "\<forall>p \<in> set kvs. wf_kv p \<Longrightarrow> parse_kv_line (render_kvs kvs) = map_of (rev kvs)"
  using fold_pairs [of kvs Map.empty] by (simp add: parse_kv_line_def split_ws_render)

lemma map_of_rev_distinct: "distinct (map fst kvs) \<Longrightarrow> map_of (rev kvs) = map_of kvs"
  by (rule map_of_eqI) (auto simp: rev_map [symmetric])

lemma render_kvs_snoc:
  "kvs \<noteq> [] \<Longrightarrow> render_kvs (kvs @ [(k, v)]) = render_kvs kvs @ '' '' @ k @ ''='' @ v"
  by (induction kvs rule: render_kvs.induct) (auto simp: neq_Nil_conv)

lemma render_kvs_nonempty: "kvs \<noteq> [] \<Longrightarrow> render_kvs kvs \<noteq> []"
  by (induction kvs rule: render_kvs.induct) auto

lemma length_render_kvs:
  "kvs \<noteq> [] \<Longrightarrow> length (render_kvs kvs) + 1 = sum_list (map (\<lambda>(k, v). length k + length v + 2) kvs)"
  by (induction kvs rule: render_kvs.induct) auto

lemma length_render_kvs_le:
  assumes "list_all (\<lambda>v. length v \<le> b) (map snd kvs)"
  shows "length (render_kvs kvs) \<le> sum_list (map length (map fst kvs)) + length kvs * (b + 2)"
  using assms
proof (induction kvs rule: render_kvs.induct)
  case (3 k v p kvs)
  then show ?case by (simp add: algebra_simps)
qed auto

text \<open>A line never holds a line break: one adapter call is one event of the evaluator.\<close>

definition line_char :: "byte \<Rightarrow> bool" where
  "line_char c \<longleftrightarrow> 32 \<le> bval c \<and> bval c \<le> 126"

lemma plain_line_char: "plain c \<Longrightarrow> line_char c"
  by (simp add: plain_def line_char_def)

lemma render_line_chars:
  "\<forall>p \<in> set kvs. wf_kv p \<Longrightarrow> \<forall>c \<in> set (render_kvs kvs). line_char c"
  by (induction kvs rule: render_kvs.induct)
    (auto simp: plain_line_char line_char_def plain_def bval_def)

section \<open>Appending the packet trace\<close>

text \<open>
  \<open>snprintf(out + pos, rem, ...)\<close> on a buffer of \<open>cap\<close> bytes that holds the C string \<open>out\<close>:
  writing beyond the buffer is undefined.
\<close>

definition put_at :: "nat \<Rightarrow> string \<Rightarrow> nat \<Rightarrow> nat \<Rightarrow> string \<Rightarrow> string option" where
  "put_at cap out pos rem s =
     (if rem = 0 then Some out
      else if pos + min (rem - 1) (length s) < cap then Some (take pos out @ take (rem - 1) s)
      else None)"

text \<open>The hexadecimal loop: \<open>k\<close> bytes are left, \<open>p\<close> is \<open>buf + i\<close>.\<close>

fun trace_loop :: "nat \<Rightarrow> cptr \<Rightarrow> nat \<Rightarrow> string \<Rightarrow> nat \<Rightarrow> nat \<Rightarrow> string option" where
  "trace_loop 0 p cap out current_len remaining = Some out"
| "trace_loop (Suc k) p cap out current_len remaining =
     (if remaining > 2 then do {
        c \<leftarrow> rd p 0;
        out' \<leftarrow> put_at cap out current_len remaining (hex2 c);
        trace_loop k (drop 1 p) cap out' (current_len + 2) (remaining - 2)
      } else Some out)"

definition trace_header :: "32 word \<Rightarrow> string \<Rightarrow> string" where
  "trace_header msg_id dir = '' msg_id='' @ udec (unat msg_id) @ '' dir='' @ dir @ '' trace=''"

definition append_packet_trace ::
  "32 word \<Rightarrow> string \<Rightarrow> nat \<Rightarrow> cptr \<Rightarrow> nat \<Rightarrow> string \<Rightarrow> (32 word \<times> string) option" where
  "append_packet_trace g_msg_id out out_sz buf len direction = (
     let g_msg_id = g_msg_id + 1;
         current_len = length out;
         remaining = size_sub out_sz current_len in
     if remaining < 50 then Some (g_msg_id, out)
     else
       let hdr = trace_header g_msg_id direction; written = length hdr in do {
         out' \<leftarrow> put_at out_sz out current_len remaining hdr;
         if written \<ge> remaining then Some (g_msg_id, out')
         else do {
           out'' \<leftarrow> trace_loop (min len 256) buf out_sz out' (current_len + written) (remaining - written);
           Some (g_msg_id, out'')
         }
       })"

text \<open>How many bytes the loop prints.\<close>

definition trace_bytes :: "nat \<Rightarrow> nat \<Rightarrow> nat" where
  "trace_bytes len remaining = min (min len 256) ((remaining - 1) div 2)"

lemma put_at_end:
  "length s < rem \<Longrightarrow> length out + rem \<le> cap \<Longrightarrow> put_at cap out (length out) rem s = Some (out @ s)"
  by (auto simp: put_at_def)

lemma trace_loop_spec:
  assumes "length out + remaining \<le> cap" and "k \<le> length p"
  shows "trace_loop k p cap out (length out) remaining
    = Some (out @ concat (map hex2 (take (min k ((remaining - 1) div 2)) p)))"
  using assms
proof (induction k arbitrary: p out remaining)
  case (Suc k)
  show ?case
  proof (cases "remaining > 2")
    case True
    from Suc.prems obtain c p' where p: "p = c # p'" by (cases p) auto
    have put: "put_at cap out (length out) remaining (hex2 c) = Some (out @ hex2 c)"
      using True Suc.prems by (intro put_at_end) auto
    have half: "(remaining - 1) div 2 = Suc ((remaining - 2 - 1) div 2)"
      using True by arith
    have "trace_loop k p' cap (out @ hex2 c) (length (out @ hex2 c)) (remaining - 2)
      = Some ((out @ hex2 c) @ concat (map hex2 (take (min k ((remaining - 2 - 1) div 2)) p')))"
      using True p Suc.prems by (intro Suc.IH) auto
    with True put p half show ?thesis by simp
  next
    case False
    then show ?thesis by simp
  qed
qed simp

lemma trace_header_length:
  "length dir \<le> 3 \<Longrightarrow> length (trace_header m dir) < 50"
  using length_udec32 [of "unat m"]
  by (simp add: trace_header_def)

lemma append_packet_trace_spec:
  fixes m :: "32 word" and out dir :: string
  assumes "length out < out_sz" and "min len 256 \<le> length buf" and "length dir \<le> 3"
  defines "remaining \<equiv> out_sz - length out"
  defines "hdr \<equiv> trace_header (m + 1) dir"
  shows "append_packet_trace m out out_sz buf len dir = Some (m + 1,
    if remaining < 50 then out
    else out @ hdr @ concat (map hex2 (take (trace_bytes len (remaining - length hdr)) buf)))"
proof (cases "remaining < 50")
  case True
  with assms(1) show ?thesis
    by (simp add: append_packet_trace_def Let_def size_sub_def remaining_def)
next
  case False
  have hdr: "length hdr < 50" unfolding hdr_def by (rule trace_header_length [OF assms(3)])
  with False have lt: "length hdr < remaining" by simp
  have put: "put_at out_sz out (length out) remaining hdr = Some (out @ hdr)"
    using lt assms(1) by (intro put_at_end) (auto simp: remaining_def)
  have loop: "trace_loop (min len 256) buf out_sz (out @ hdr) (length out + length hdr) (remaining - length hdr)
    = Some ((out @ hdr) @ concat (map hex2 (take (trace_bytes len (remaining - length hdr)) buf)))"
    using trace_loop_spec [of "out @ hdr" "remaining - length hdr" out_sz "min len 256" buf]
      lt assms(1,2) by (simp add: trace_bytes_def remaining_def)
  have sub: "size_sub out_sz (length out) = remaining"
    using assms(1) by (simp add: size_sub_def remaining_def)
  show ?thesis
    using False lt put loop
    by (simp add: append_packet_trace_def Let_def sub flip: hdr_def)
qed

lemma append_packet_trace_fits:
  assumes "append_packet_trace m out out_sz buf len dir = Some (m', out')"
    and "length out < out_sz" and "min len 256 \<le> length buf" and "length dir \<le> 3"
  shows "length out' < out_sz"
proof -
  let ?rem = "out_sz - length out" and ?hdr = "trace_header (m + 1) dir"
  have conc: "length (concat (map hex2 xs)) = 2 * length xs" for xs
    by (induction xs) auto
  have n: "2 * trace_bytes len (?rem - length ?hdr) \<le> ?rem - length ?hdr - 1"
    by (simp add: trace_bytes_def)
  show ?thesis
    using append_packet_trace_spec [OF assms(2,3,4), of m] assms(1,2) n
      trace_header_length [OF assms(4), of "m + 1"]
    by (auto simp: conc split: if_splits)
qed

lemma line_char_lits:
  "line_char CHR '' ''" "line_char CHR ''='' " "line_char CHR ''_''"
  "islower c \<Longrightarrow> line_char c"
  by (simp_all add: line_char_def bval_def islower_def)

lemma append_packet_trace_chars:
  assumes "append_packet_trace m out out_sz buf len dir = Some (m', out')"
    and "length out < out_sz" and "min len 256 \<le> length buf" and "length dir \<le> 3"
    and "\<forall>c \<in> set out. line_char c" and "\<forall>c \<in> set dir. plain c"
  shows "\<forall>c \<in> set out'. line_char c"
proof -
  have hdr: "\<forall>c \<in> set (trace_header (m + 1) dir). line_char c"
    using udec_plain [of "unat (m + 1)"] assms(6)
    by (simp add: trace_header_def plain_line_char ball_Un line_char_lits islower_def bval_def)
  show ?thesis
    using append_packet_trace_spec [OF assms(2,3,4), of m] assms(1,5) hdr hex2_plain
    by (auto simp: plain_line_char split: if_splits dest!: in_set_takeD)
qed

text \<open>
  With room for the whole trace (at most 256 bytes, two digits each, after a header of less than
  50 characters) the line is one list of pairs, and the evaluator reads all of them.
\<close>

definition trace_kvs :: "32 word \<Rightarrow> string \<Rightarrow> cptr \<Rightarrow> nat \<Rightarrow> kv list" where
  "trace_kvs m dir buf len = [(''msg_id'', udec (unat m)), (''dir'', dir),
     (''trace'', concat (map hex2 (take (min len 256) buf)))]"

lemma render_kvs_trace:
  "kvs \<noteq> [] \<Longrightarrow> render_kvs (kvs @ trace_kvs m dir buf len)
   = render_kvs kvs @ trace_header m dir @ concat (map hex2 (take (min len 256) buf))"
  using render_kvs_snoc [of kvs] render_kvs_snoc [of "kvs @ [p]" for p]
    render_kvs_snoc [of "kvs @ [p, q]" for p q]
  by (simp add: trace_kvs_def trace_header_def)

lemma append_packet_trace_kvs:
  assumes "kvs \<noteq> []" and "length (render_kvs kvs) + 563 \<le> out_sz"
    and "min len 256 \<le> length buf" and "length dir \<le> 3"
  shows "append_packet_trace m (snprintf out out_sz (render_kvs kvs)) out_sz buf len dir
    = Some (m + 1, render_kvs (kvs @ trace_kvs (m + 1) dir buf len))"
proof -
  let ?hdr = "trace_header (m + 1) dir" and ?r = "render_kvs kvs"
  have "length ?hdr < 50" by (rule trace_header_length [OF assms(4)])
  then have "trace_bytes len (out_sz - length ?r - length ?hdr) = min len 256"
    using assms(2) by (simp add: trace_bytes_def)
  moreover have "\<not> out_sz - length ?r < 50" using assms(2) by simp
  ultimately show ?thesis
    using append_packet_trace_spec [of ?r out_sz len buf dir m] assms
    by (simp add: snprintf_fits render_kvs_trace)
qed

lemma trace_kvs_wf:
  "\<forall>c \<in> set dir. plain c \<Longrightarrow> \<forall>p \<in> set (trace_kvs m dir buf len). wf_kv p"
  using udec_plain hex2_plain by (simp add: trace_kvs_def) (simp add: plain_def bval_def)

end
