(* ===== verification/Adapter.thy ===== *)
theory Adapter
  imports Pred_Line
begin

text \<open>
  The interface between the fuzzer and a predicate adapter. \<open>afl-fuzz.c\<close> holds three function
  pointers, \<open>build_request_pred_line\<close>, \<open>build_response_pred_line\<close> and \<open>predicate_reset_session\<close>;
  every protocol plugs its own functions in. The locale \<open>pred_adapter\<close> states what the fuzzer and
  the evaluator rely on: with a session state that satisfies the adapter's invariant and a buffer
  of at least \<open>len\<close> bytes the builders return, keep the invariant, stay inside the output buffer
  and print exactly one data line. Each adapter theory interprets the locale on its own functions.
\<close>

section \<open>Data lines\<close>

text \<open>
  A line the evaluator takes as an event: it is not empty, starts with a lower-case letter (the
  control lines of the evaluator start with an underscore) and holds printable characters only.
\<close>

definition data_line :: "string \<Rightarrow> bool" where
  "data_line l \<longleftrightarrow> l \<noteq> [] \<and> islower (hd l) \<and> (\<forall>c \<in> set l. line_char c)"

lemma render_kvs_hd: "k \<noteq> [] \<Longrightarrow> hd (render_kvs ((k, v) # kvs)) = hd k"
  by (cases kvs) auto

lemma snprintf_data_line:
  assumes "\<forall>p \<in> set ((k, v) # kvs). wf_kv p" and "islower (hd k)" and "1 < sz"
  shows "data_line (snprintf out sz (render_kvs ((k, v) # kvs)))"
    and "length (snprintf out sz (render_kvs ((k, v) # kvs))) < sz"
proof -
  let ?r = "render_kvs ((k, v) # kvs)"
  have ne: "?r \<noteq> []" by (rule render_kvs_nonempty) simp
  have hd: "hd ?r = hd k" using assms(1) by (intro render_kvs_hd) simp
  have eq: "snprintf out sz ?r = take (sz - 1) ?r" using assms(3) by (simp add: snprintf_def)
  have "hd (take (sz - 1) ?r) = hd ?r" using assms(3) by (simp add: hd_take)
  moreover have "take (sz - 1) ?r \<noteq> []" using ne assms(3) by simp
  ultimately show "data_line (snprintf out sz ?r)"
    using assms(2) hd render_line_chars [OF assms(1)]
    by (auto simp: data_line_def eq dest: in_set_takeD)
  show "length (snprintf out sz ?r) < sz" using assms(3) by simp
qed

lemma append_packet_trace_data_line:
  assumes "append_packet_trace m out out_sz buf len dir = Some (m', out')"
    and "length out < out_sz" and "min len 256 \<le> length buf" and "length dir \<le> 3"
    and "data_line out" and "\<forall>c \<in> set dir. plain c"
  shows "data_line out'" and "length out' < out_sz" and "m' = m + 1"
proof -
  have chars: "\<forall>c \<in> set out'. line_char c"
    using append_packet_trace_chars [OF assms(1-4) _ assms(6)] assms(5) by (simp add: data_line_def)
  from append_packet_trace_spec [OF assms(2-4), of m] assms(1)
  have "m' = m + 1" and "\<exists>t. out' = out @ t" by (auto split: if_splits)
  then show "data_line out'" and "m' = m + 1" using assms(5) chars by (auto simp: data_line_def)
  show "length out' < out_sz" by (rule append_packet_trace_fits [OF assms(1-4)])
qed

lemma append_packet_trace_total:
  "length out < out_sz \<Longrightarrow> min len 256 \<le> length buf \<Longrightarrow> length dir \<le> 3 \<Longrightarrow>
   \<exists>m' out'. append_packet_trace m out out_sz buf len dir = Some (m', out')"
  using append_packet_trace_spec [of out out_sz len buf dir m] by auto

lemma dir_plain [simp]: "\<forall>c \<in> set ''C2S''. plain c" "\<forall>c \<in> set ''S2C''. plain c"
  by (simp_all add: plain_def bval_def)

section \<open>The interface\<close>

text \<open>
  \<open>inv\<close> is the adapter's invariant, \<open>room n s\<close> says that \<open>n\<close> more events do not overflow its
  counters, and \<open>fence c\<close> that a byte \<open>c\<close> after the message stops every scan the request builder
  makes beyond \<open>len\<close>. Responses are read from a NUL terminated buffer.
\<close>

locale pred_lines =
  fixes reset :: "'s \<Rightarrow> 's"
    and build_req :: "'s \<Rightarrow> cptr \<Rightarrow> nat \<Rightarrow> string \<Rightarrow> nat \<Rightarrow> ('s \<times> string) option"
    and build_resp :: "'s \<Rightarrow> cptr \<Rightarrow> nat \<Rightarrow> string \<Rightarrow> nat \<Rightarrow> ('s \<times> string) option"
    and inv :: "'s \<Rightarrow> bool"
  assumes reset_inv: "inv s \<Longrightarrow> inv (reset s)"
    and req_keeps: "inv s \<Longrightarrow> len \<le> length buf \<Longrightarrow> 1 < out_sz \<Longrightarrow>
          build_req s buf len out out_sz = Some (s', line) \<Longrightarrow>
          inv s' \<and> length line < out_sz \<and> data_line line"
    and resp_keeps: "inv s \<Longrightarrow> len \<le> length buf \<Longrightarrow> 1 < out_sz \<Longrightarrow>
          build_resp s buf len out out_sz = Some (s', line) \<Longrightarrow>
          inv s' \<and> length line < out_sz \<and> data_line line"

text \<open>An adapter that moreover returns on every buffer.\<close>

locale pred_adapter = pred_lines +
  fixes room :: "nat \<Rightarrow> 'a \<Rightarrow> bool"
    and fence :: "byte \<Rightarrow> bool"
  assumes reset_room: "n < 2 ^ 31 \<Longrightarrow> room n (reset s)"
    and room_weaken: "room (Suc n) s \<Longrightarrow> room n s"
    and req_total: "inv s \<Longrightarrow> room (Suc n) s \<Longrightarrow> len < 2 ^ 31 \<Longrightarrow> len \<le> length buf \<Longrightarrow> 1 < out_sz \<Longrightarrow>
          c \<in> set (drop len buf) \<Longrightarrow> fence c \<Longrightarrow>
          \<exists>s' line. build_req s buf len out out_sz = Some (s', line) \<and> room n s'"
    and resp_total: "inv s \<Longrightarrow> room (Suc n) s \<Longrightarrow> len < 2 ^ 31 \<Longrightarrow> len \<le> length buf \<Longrightarrow> 1 < out_sz \<Longrightarrow>
          NUL \<in> set (drop len buf) \<Longrightarrow>
          \<exists>s' line. build_resp s buf len out out_sz = Some (s', line) \<and> room n s'"

text \<open>
  All adapters share the shape of their builders: a step that reads the buffer and changes the
  session state, whose pairs are printed; on the paths \<open>traced\<close> describes the packet trace follows.
  The locale states the laws of the steps and derives those of the builders.
\<close>

definition line_kvs :: "kv list \<Rightarrow> bool" where
  "line_kvs kvs \<longleftrightarrow> kvs \<noteq> [] \<and> (\<forall>p \<in> set kvs. wf_kv p) \<and> islower (hd (fst (hd kvs)))"

lemma traced_line:
  assumes "line_kvs kvs" and "len \<le> length buf" and "1 < out_sz"
    and "\<forall>c \<in> set dir. plain c" and "length dir \<le> 3"
  shows "\<exists>line. append_packet_trace m (snprintf out out_sz (render_kvs kvs)) out_sz buf len dir
      = Some (m + 1, line) \<and> length line < out_sz \<and> data_line line"
proof -
  obtain k v kvs' where kvs: "kvs = (k, v) # kvs'"
    using assms(1) by (cases kvs) (auto simp: line_kvs_def)
  have sn: "data_line (snprintf out out_sz (render_kvs kvs))"
      "length (snprintf out out_sz (render_kvs kvs)) < out_sz"
    using snprintf_data_line [of k v kvs' out_sz out] assms(1,3) by (simp_all add: kvs line_kvs_def)
  have len: "min len 256 \<le> length buf" using assms(2) by simp
  from append_packet_trace_total [OF sn(2) len assms(5), of m] obtain m' line
    where a: "append_packet_trace m (snprintf out out_sz (render_kvs kvs)) out_sz buf len dir = Some (m', line)"
    by blast
  with append_packet_trace_data_line [OF a sn(2) len assms(5) sn(1) assms(4)] show ?thesis by auto
qed

lemma untraced_line:
  assumes "line_kvs kvs" and "1 < out_sz"
  shows "length (snprintf out out_sz (render_kvs kvs)) < out_sz"
    and "data_line (snprintf out out_sz (render_kvs kvs))"
proof -
  obtain k v kvs' where kvs: "kvs = (k, v) # kvs'"
    using assms(1) by (cases kvs) (auto simp: line_kvs_def)
  then show "length (snprintf out out_sz (render_kvs kvs)) < out_sz"
    and "data_line (snprintf out out_sz (render_kvs kvs))"
    using snprintf_data_line [of k v kvs' out_sz out] assms by (simp_all add: line_kvs_def)
qed

locale traced_adapter =
  fixes reset :: "'s \<Rightarrow> 's"
    and req_step resp_step :: "'s \<Rightarrow> cptr \<Rightarrow> nat \<Rightarrow> ('s \<times> kv list) option"
    and build_req build_resp :: "'s \<Rightarrow> cptr \<Rightarrow> nat \<Rightarrow> string \<Rightarrow> nat \<Rightarrow> ('s \<times> string) option"
    and traced :: "cptr \<Rightarrow> nat \<Rightarrow> bool"
    and msg_id :: "'s \<Rightarrow> 32 word"
    and set_msg_id :: "32 word \<Rightarrow> 's \<Rightarrow> 's"
    and inv :: "'s \<Rightarrow> bool"
    and room :: "nat \<Rightarrow> 's \<Rightarrow> bool"
    and fence :: "byte \<Rightarrow> bool"
  assumes build_req: "0 < out_sz \<Longrightarrow> build_req s buf len out out_sz = do {
          (s1, kvs) \<leftarrow> req_step s buf len;
          let line0 = snprintf out out_sz (render_kvs kvs);
          (if traced buf len then do {
             (m, line) \<leftarrow> append_packet_trace (msg_id s1) line0 out_sz buf len ''C2S'';
             Some (set_msg_id m s1, line)
           } else Some (s1, line0))
        }"
    and build_resp: "0 < out_sz \<Longrightarrow> build_resp s buf len out out_sz = do {
          (s1, kvs) \<leftarrow> resp_step s buf len;
          let line0 = snprintf out out_sz (render_kvs kvs);
          (if traced buf len then do {
             (m, line) \<leftarrow> append_packet_trace (msg_id s1) line0 out_sz buf len ''S2C'';
             Some (set_msg_id m s1, line)
           } else Some (s1, line0))
        }"
    and inv_msg_id: "inv s \<Longrightarrow> inv (set_msg_id m s)"
    and room_msg_id: "room n s \<Longrightarrow> room n (set_msg_id m s)"
    and step_reset_inv: "inv s \<Longrightarrow> inv (reset s)"
    and step_reset_room: "n < 2 ^ 31 \<Longrightarrow> room n (reset s)"
    and step_room_weaken: "room (Suc n) s \<Longrightarrow> room n s"
    and req_step_keeps: "inv s \<Longrightarrow> req_step s buf len = Some (s', kvs) \<Longrightarrow> inv s' \<and> line_kvs kvs"
    and resp_step_keeps: "inv s \<Longrightarrow> resp_step s buf len = Some (s', kvs) \<Longrightarrow> inv s' \<and> line_kvs kvs"
    and req_step_total: "inv s \<Longrightarrow> room (Suc n) s \<Longrightarrow> len < 2 ^ 31 \<Longrightarrow> len \<le> length buf \<Longrightarrow>
          c \<in> set (drop len buf) \<Longrightarrow> fence c \<Longrightarrow>
          \<exists>s' kvs. req_step s buf len = Some (s', kvs) \<and> room n s'"
    and resp_step_total: "inv s \<Longrightarrow> room (Suc n) s \<Longrightarrow> len < 2 ^ 31 \<Longrightarrow> len \<le> length buf \<Longrightarrow>
          NUL \<in> set (drop len buf) \<Longrightarrow>
          \<exists>s' kvs. resp_step s buf len = Some (s', kvs) \<and> room n s'"
begin

text \<open>The state after the line and the pairs on it.\<close>

definition after :: "'s \<Rightarrow> cptr \<Rightarrow> nat \<Rightarrow> 's" where
  "after s1 buf len = (if traced buf len then set_msg_id (msg_id s1 + 1) s1 else s1)"

definition all_kvs :: "'s \<Rightarrow> kv list \<Rightarrow> string \<Rightarrow> cptr \<Rightarrow> nat \<Rightarrow> kv list" where
  "all_kvs s1 kvs dir buf len =
     (if traced buf len then kvs @ trace_kvs (msg_id s1 + 1) dir buf len else kvs)"

lemma build_req_line:
  assumes "inv s" and "len \<le> length buf" and "1 < out_sz" and "req_step s buf len = Some (s1, kvs)"
  shows "\<exists>line. build_req s buf len out out_sz = Some (after s1 buf len, line)
    \<and> length line < out_sz \<and> data_line line"
  using traced_line [OF _ assms(2,3) dir_plain(1), of kvs "msg_id s1" out] assms(3,4)
    untraced_line [of kvs out_sz out] req_step_keeps [OF assms(1,4)]
  by (auto simp: build_req after_def Let_def)

lemma build_resp_line:
  assumes "inv s" and "len \<le> length buf" and "1 < out_sz" and "resp_step s buf len = Some (s1, kvs)"
  shows "\<exists>line. build_resp s buf len out out_sz = Some (after s1 buf len, line)
    \<and> length line < out_sz \<and> data_line line"
  using traced_line [OF _ assms(2,3) dir_plain(2), of kvs "msg_id s1" out] assms(3,4)
    untraced_line [of kvs out_sz out] resp_step_keeps [OF assms(1,4)]
  by (auto simp: build_resp after_def Let_def)

text \<open>With a buffer that is large enough the evaluator reads back every pair of the step.\<close>

lemma all_kvs_wf:
  "line_kvs kvs \<Longrightarrow> \<forall>c \<in> set dir. plain c \<Longrightarrow> \<forall>p \<in> set (all_kvs s1 kvs dir buf len). wf_kv p"
  using trace_kvs_wf [of dir "msg_id s1 + 1" buf len]
  by (simp add: line_kvs_def all_kvs_def ball_Un del: wf_kv_Pair)

lemma build_req_parse:
  assumes "inv s" and "len \<le> length buf" and "req_step s buf len = Some (s1, kvs)"
    and "length (render_kvs kvs) + 563 \<le> out_sz"
  shows "\<exists>line. build_req s buf len out out_sz = Some (after s1 buf len, line)
    \<and> parse_kv_line line = map_of (rev (all_kvs s1 kvs ''C2S'' buf len))"
proof -
  have k: "line_kvs kvs" using req_step_keeps [OF assms(1,3)] by simp
  have "build_req s buf len out out_sz = Some (after s1 buf len, render_kvs (all_kvs s1 kvs ''C2S'' buf len))"
    using append_packet_trace_kvs [of kvs out_sz len buf "''C2S''" "msg_id s1" out] k assms
    by (simp add: build_req line_kvs_def all_kvs_def after_def snprintf_fits)
  then show ?thesis using parse_render [OF all_kvs_wf [OF k dir_plain(1)]] by blast
qed

lemma build_resp_parse:
  assumes "inv s" and "len \<le> length buf" and "resp_step s buf len = Some (s1, kvs)"
    and "length (render_kvs kvs) + 563 \<le> out_sz"
  shows "\<exists>line. build_resp s buf len out out_sz = Some (after s1 buf len, line)
    \<and> parse_kv_line line = map_of (rev (all_kvs s1 kvs ''S2C'' buf len))"
proof -
  have k: "line_kvs kvs" using resp_step_keeps [OF assms(1,3)] by simp
  have "build_resp s buf len out out_sz = Some (after s1 buf len, render_kvs (all_kvs s1 kvs ''S2C'' buf len))"
    using append_packet_trace_kvs [of kvs out_sz len buf "''S2C''" "msg_id s1" out] k assms
    by (simp add: build_resp line_kvs_def all_kvs_def after_def snprintf_fits)
  then show ?thesis using parse_render [OF all_kvs_wf [OF k dir_plain(2)]] by blast
qed

lemma inv_after: "inv s \<Longrightarrow> inv (after s buf len)"
  by (simp add: after_def inv_msg_id)

lemma room_after: "room n s \<Longrightarrow> room n (after s buf len)"
  by (simp add: after_def room_msg_id)

lemma build_req_step:
  "0 < out_sz \<Longrightarrow> build_req s buf len out out_sz = Some (s', line) \<Longrightarrow> \<exists>s1 kvs. req_step s buf len = Some (s1, kvs)"
  by (auto simp: build_req bind_eq_Some_conv)

lemma build_resp_step:
  "0 < out_sz \<Longrightarrow> build_resp s buf len out out_sz = Some (s', line) \<Longrightarrow> \<exists>s1 kvs. resp_step s buf len = Some (s1, kvs)"
  by (auto simp: build_resp bind_eq_Some_conv)

end

sublocale traced_adapter \<subseteq> pred_adapter reset build_req build_resp inv room fence
proof unfold_locales
  show "inv s' \<and> length line < out_sz \<and> data_line line"
    if "inv s" "len \<le> length buf" "1 < out_sz" "build_req s buf len out out_sz = Some (s', line)"
    for s buf len out out_sz s' line
  proof -
    from build_req_step [OF _ that(4)] that(3) obtain s1 kvs where st: "req_step s buf len = Some (s1, kvs)" by auto
    from build_req_line [OF that(1-3) st, of out] req_step_keeps [OF that(1) st] that(4)
    show ?thesis by (auto simp: inv_after)
  qed
  show "inv s' \<and> length line < out_sz \<and> data_line line"
    if "inv s" "len \<le> length buf" "1 < out_sz" "build_resp s buf len out out_sz = Some (s', line)"
    for s buf len out out_sz s' line
  proof -
    from build_resp_step [OF _ that(4)] that(3) obtain s1 kvs where st: "resp_step s buf len = Some (s1, kvs)" by auto
    from build_resp_line [OF that(1-3) st, of out] resp_step_keeps [OF that(1) st] that(4)
    show ?thesis by (auto simp: inv_after)
  qed
  show "\<exists>s' line. build_req s buf len out out_sz = Some (s', line) \<and> room n s'"
    if "inv s" "room (Suc n) s" "len < 2 ^ 31" "len \<le> length buf" "1 < out_sz"
      "c \<in> set (drop len buf)" "fence c"
    for s n buf len out out_sz c
    using req_step_total [OF that(1-4,6,7)] build_req_line [OF that(1,4,5)] room_after by blast
  show "\<exists>s' line. build_resp s buf len out out_sz = Some (s', line) \<and> room n s'"
    if "inv s" "room (Suc n) s" "len < 2 ^ 31" "len \<le> length buf" "1 < out_sz"
      "NUL \<in> set (drop len buf)"
    for s n buf len out out_sz
    using resp_step_total [OF that(1-4,6)] build_resp_line [OF that(1,4,5)] room_after by blast
qed (auto intro: step_reset_inv step_reset_room step_room_weaken)

section \<open>The fuzzer's side\<close>

text \<open>
  One test sequence as \<open>send_over_network_m1\<close> drives it: a message is announced with the request
  builder, sent, and what came back, if anything, is announced with the response builder. The
  network is the list of what happened to each message: whether \<open>net_send\<close> wrote all of it, and
  the bytes \<open>net_recv\<close> appended (\<^const>\<open>None\<close> for a receive error). Both failures leave the loop.
  A message lives in a block of \<open>ck_alloc\<close>, which ends in the canary byte \<open>0xF0\<close>; the response
  buffer is NUL terminated.
\<close>

record exchange =
  mdata :: "byte list"
  sent_all :: bool
  received :: "byte list option"

text \<open>Sizes are \<open>int\<close>s: no message and no response is as long as 2 GiB.\<close>

definition sized :: "exchange \<Rightarrow> bool" where
  "sized x \<longleftrightarrow> length (mdata x) < 2 ^ 31 \<and> (\<forall>r. received x = Some r \<longrightarrow> length r < 2 ^ 31)"

abbreviation ALLOC_MAGIC_C2 :: byte where "ALLOC_MAGIC_C2 \<equiv> CHR 0xF0"

definition emit_response ::
  "('s \<Rightarrow> cptr \<Rightarrow> nat \<Rightarrow> string \<Rightarrow> nat \<Rightarrow> ('s \<times> string) option) \<Rightarrow> 's \<Rightarrow> byte list \<Rightarrow>
   ('s \<times> string list) option" where
  "emit_response build_response_pred_line s r =
     (if length r > 0 then do {
        (s', line) \<leftarrow> build_response_pred_line s (r @ [NUL]) (length r) [] 2048;
        Some (s', [line])
      } else Some (s, []))"

fun send_messages ::
  "('s \<Rightarrow> cptr \<Rightarrow> nat \<Rightarrow> string \<Rightarrow> nat \<Rightarrow> ('s \<times> string) option) \<Rightarrow>
   ('s \<Rightarrow> cptr \<Rightarrow> nat \<Rightarrow> string \<Rightarrow> nat \<Rightarrow> ('s \<times> string) option) \<Rightarrow>
   's \<Rightarrow> exchange list \<Rightarrow> ('s \<times> string list) option" where
  "send_messages build_request_pred_line build_response_pred_line s [] = Some (s, [])"
| "send_messages build_request_pred_line build_response_pred_line s (x # xs) = do {
     (s1, l1) \<leftarrow> build_request_pred_line s (mdata x @ [ALLOC_MAGIC_C2]) (length (mdata x)) [] 2048;
     if \<not> sent_all x then Some (s1, [l1])
     else (case received x of
       None \<Rightarrow> Some (s1, [l1])
     | Some r \<Rightarrow> do {
         (s2, l2) \<leftarrow> emit_response build_response_pred_line s1 r;
         (s3, ls) \<leftarrow> send_messages build_request_pred_line build_response_pred_line s2 xs;
         Some (s3, l1 # l2 @ ls)
       })
   }"

text \<open>The banner the server sends first, then the messages.\<close>

definition send_over_network_m1 ::
  "('s \<Rightarrow> cptr \<Rightarrow> nat \<Rightarrow> string \<Rightarrow> nat \<Rightarrow> ('s \<times> string) option) \<Rightarrow>
   ('s \<Rightarrow> cptr \<Rightarrow> nat \<Rightarrow> string \<Rightarrow> nat \<Rightarrow> ('s \<times> string) option) \<Rightarrow>
   's \<Rightarrow> byte list \<Rightarrow> exchange list \<Rightarrow> ('s \<times> string list) option" where
  "send_over_network_m1 build_request_pred_line build_response_pred_line s banner xs = do {
     (s1, l1) \<leftarrow> emit_response build_response_pred_line s banner;
     (s2, ls) \<leftarrow> send_messages build_request_pred_line build_response_pred_line s1 xs;
     Some (s2, l1 @ ls)
   }"

text \<open>Whatever returns keeps the invariant and hands over data lines only.\<close>

context pred_lines
begin

lemma emit_response_lines:
  "inv s \<Longrightarrow> emit_response build_resp s r = Some (s', ls) \<Longrightarrow> inv s' \<and> list_all data_line ls"
  using resp_keeps [of s "length r" "r @ [NUL]" 2048 "[]"]
  by (auto simp: emit_response_def bind_eq_Some_conv split: if_splits)

lemma send_messages_lines:
  "inv s \<Longrightarrow> send_messages build_req build_resp s xs = Some (s', ls) \<Longrightarrow> inv s' \<and> list_all data_line ls"
proof (induction xs arbitrary: s s' ls)
  case (Cons x xs)
  from Cons.prems(2) obtain s1 l1 where
    q: "build_req s (mdata x @ [ALLOC_MAGIC_C2]) (length (mdata x)) [] 2048 = Some (s1, l1)"
    by (auto simp: bind_eq_Some_conv)
  have k: "inv s1" "data_line l1" using req_keeps [OF Cons.prems(1) _ _ q] by simp_all
  show ?case
  proof (cases "sent_all x \<and> received x \<noteq> None")
    case True
    then obtain rcv where rcv: "sent_all x" "received x = Some rcv" by auto
    with Cons.prems(2) q obtain s2 l2 s3 ls3 where
      e: "emit_response build_resp s1 rcv = Some (s2, l2)"
      and m: "send_messages build_req build_resp s2 xs = Some (s3, ls3)" and r: "s' = s3" "ls = l1 # l2 @ ls3"
      by (auto simp: bind_eq_Some_conv)
    have "inv s2" "list_all data_line l2" using emit_response_lines [OF k(1) e] by simp_all
    with Cons.IH [OF _ m] k(2) r show ?thesis by simp
  next
    case False
    with Cons.prems(2) q k show ?thesis by (cases "sent_all x"; cases "received x") auto
  qed
qed simp

end

context pred_adapter
begin

lemma emit_response_ok:
  assumes "inv s" and "room (Suc n) s" and "length r < 2 ^ 31"
  shows "\<exists>s' ls. emit_response build_resp s r = Some (s', ls) \<and> inv s' \<and> room n s'
    \<and> (\<forall>l \<in> set ls. data_line l)"
proof (cases "r = []")
  case True
  then show ?thesis using assms by (simp add: emit_response_def room_weaken)
next
  case False
  obtain s' line where st: "build_resp s (r @ [NUL]) (length r) [] 2048 = Some (s', line)" "room n s'"
    using resp_total [OF assms, of "r @ [NUL]" 2048 "[]"] by auto
  then have "inv s' \<and> data_line line" using resp_keeps [OF assms(1) _ _ st(1)] by simp
  with st False show ?thesis by (simp add: emit_response_def)
qed

lemma send_messages_ok:
  assumes "fence ALLOC_MAGIC_C2" and "inv s" and "room (2 * length xs) s" and "list_all sized xs"
  shows "\<exists>s' ls. send_messages build_req build_resp s xs = Some (s', ls) \<and> inv s'
    \<and> (\<forall>l \<in> set ls. data_line l)"
  using assms(2,3,4)
proof (induction xs arbitrary: s)
  case (Cons x xs)
  have r: "room (Suc (Suc (2 * length xs))) s" using Cons.prems by simp
  obtain s1 l1 where
    q: "build_req s (mdata x @ [ALLOC_MAGIC_C2]) (length (mdata x)) [] 2048 = Some (s1, l1)"
      "room (Suc (2 * length xs)) s1"
    using req_total [OF Cons.prems(1) r, of "length (mdata x)" "mdata x @ [ALLOC_MAGIC_C2]" 2048
        ALLOC_MAGIC_C2 "[]"] assms(1) Cons.prems(3) by (auto simp: sized_def)
  have k: "inv s1" "data_line l1" using req_keeps [OF Cons.prems(1) _ _ q(1)] by simp_all
  show ?case
  proof (cases "sent_all x \<and> received x \<noteq> None")
    case True
    then obtain rcv where rcv: "sent_all x" "received x = Some rcv" by auto
    have "length rcv < 2 ^ 31" using rcv Cons.prems(3) by (simp add: sized_def)
    from emit_response_ok [OF k(1) q(2) this] obtain s2 l2 where
      e: "emit_response build_resp s1 rcv = Some (s2, l2)" "inv s2" "room (2 * length xs) s2"
        "\<forall>l \<in> set l2. data_line l" by blast
    from Cons.IH [OF e(2,3)] Cons.prems(3) obtain s3 ls where
      "send_messages build_req build_resp s2 xs = Some (s3, ls)" "inv s3" "\<forall>l \<in> set ls. data_line l"
      by auto
    with q e k rcv show ?thesis by auto
  next
    case False
    then show ?thesis using q k by (cases "sent_all x"; cases "received x") auto
  qed
qed simp

lemma send_over_network_ok:
  assumes "fence ALLOC_MAGIC_C2" and "inv s" and "room (Suc (2 * length xs)) s"
    and "list_all sized xs" and "length banner < 2 ^ 31"
  shows "\<exists>s' ls. send_over_network_m1 build_req build_resp s banner xs = Some (s', ls) \<and> inv s'
    \<and> (\<forall>l \<in> set ls. data_line l)"
proof -
  from emit_response_ok [OF assms(2,3,5)] obtain s1 l1 where
    e: "emit_response build_resp s banner = Some (s1, l1)" "inv s1" "room (2 * length xs) s1"
      "\<forall>l \<in> set l1. data_line l" by blast
  from send_messages_ok [OF assms(1) e(2,3) assms(4)] obtain s2 ls where
    "send_messages build_req build_resp s1 xs = Some (s2, ls)" "inv s2" "\<forall>l \<in> set ls. data_line l"
    by blast
  with e show ?thesis by (auto simp: send_over_network_m1_def)
qed

end

end
