(* ===== verification/Ftp_Adapter.thy ===== *)
theory Ftp_Adapter
  imports Adapter
begin

text \<open>
  The FTP predicate adapter (\<open>SNPSFuzzer/monitor-src/ftp_predicate_adapter.c\<close>): the session state
  \<open>g_ftp_state\<close> with the packet counter \<open>g_msg_id\<close>, the helpers that classify commands and replies,
  and the two builders. The first lemmas describe the helpers (what a well-formed reply buffer is,
  which reply codes and classes exist), the last ones the session machine: which states the
  builders can reach, and that they are total on every buffer the caller owns.
\<close>

section \<open>State\<close>

record ftp_state =
  user_logged_in :: bool
  user_sent :: bool
  pass_sent :: bool
  login_successful :: bool
  login_failed :: bool
  port_sent :: bool
  pasv_sent :: bool
  pasv_response_received :: bool
  port_accepted :: bool
  data_connection_open :: bool
  retr_sent :: bool
  stor_sent :: bool
  transfer_started :: bool
  transfer_complete :: bool
  transfer_aborted :: bool
  transfer_in_progress :: bool
  rnfr_sent :: bool
  rnfr_accepted :: bool
  rnto_sent :: bool
  session_initialized :: bool
  quit_sent :: bool
  reinit_sent :: bool
  connection_closed :: bool
  sequence_number :: int
  rest_position :: int
  last_command :: string
  g_msg_id :: "32 word"

text \<open>The static initialiser; \<open>ftp_predicate_reset_session\<close> gives the same values but keeps \<open>g_msg_id\<close>.\<close>

definition ftp_init :: ftp_state where
  "ftp_init = \<lparr>user_logged_in = False, user_sent = False, pass_sent = False,
     login_successful = False, login_failed = False, port_sent = False, pasv_sent = False,
     pasv_response_received = False, port_accepted = False, data_connection_open = False,
     retr_sent = False, stor_sent = False, transfer_started = False, transfer_complete = False,
     transfer_aborted = False, transfer_in_progress = False, rnfr_sent = False,
     rnfr_accepted = False, rnto_sent = False, session_initialized = False, quit_sent = False,
     reinit_sent = False, connection_closed = False, sequence_number = 0, rest_position = 0,
     last_command = ''cmdNotSet'', g_msg_id = 0\<rparr>"

definition ftp_predicate_reset_session :: "ftp_state \<Rightarrow> ftp_state" where
  "ftp_predicate_reset_session s = ftp_init\<lparr>g_msg_id := g_msg_id s\<rparr>"

section \<open>Helpers\<close>

text \<open>\<open>extract_command\<close>: at most \<open>cmd_sz - 1\<close> bytes up to a blank or a line end, in upper case.\<close>

fun extract_command_from :: "nat \<Rightarrow> nat \<Rightarrow> cptr \<Rightarrow> byte list option" where
  "extract_command_from (Suc len) (Suc room) p = do {
     c \<leftarrow> rd p 0;
     if c = CHR '' '' \<or> c = CR \<or> c = LF then Some []
     else do {
       r \<leftarrow> extract_command_from len room (drop 1 p);
       Some (toupper c # r)
     }
   }"
| "extract_command_from _ _ p = Some []"

definition extract_command :: "cptr \<Rightarrow> nat \<Rightarrow> nat \<Rightarrow> string option" where
  "extract_command buf len cmd_sz = do {
     r \<leftarrow> extract_command_from len (cmd_sz - 1) buf;
     Some (cstr_of r)
   }"

definition ftp_command_table :: "(string \<times> string) list" where
  "ftp_command_table = [
     (''USER'', ''cmdUSER''), (''PASS'', ''cmdPASS''), (''ACCT'', ''cmdACCT''), (''CWD'', ''cmdCWD''),
     (''CDUP'', ''cmdCDUP''), (''SMNT'', ''cmdSMNT''), (''QUIT'', ''cmdQUIT''), (''REIN'', ''cmdREIN''),
     (''PORT'', ''cmdPORT''), (''PASV'', ''cmdPASV''), (''TYPE'', ''cmdTYPE''), (''STRU'', ''cmdSTRU''),
     (''MODE'', ''cmdMODE''), (''RETR'', ''cmdRETR''), (''STOR'', ''cmdSTOR''), (''STOU'', ''cmdSTOU''),
     (''APPE'', ''cmdAPPE''), (''ALLO'', ''cmdALLO''), (''REST'', ''cmdREST''), (''RNFR'', ''cmdRNFR''),
     (''RNTO'', ''cmdRNTO''), (''ABOR'', ''cmdABOR''), (''DELE'', ''cmdDELE''), (''RMD'', ''cmdRMD''),
     (''MKD'', ''cmdMKD''), (''PWD'', ''cmdPWD''), (''LIST'', ''cmdLIST''), (''NLST'', ''cmdNLST''),
     (''SITE'', ''cmdSITE''), (''SYST'', ''cmdSYST''), (''STAT'', ''cmdSTAT''), (''HELP'', ''cmdHELP''),
     (''NOOP'', ''cmdNOOP''), (''FEAT'', ''cmdFEAT''), (''OPTS'', ''cmdOPTS''), (''AUTH'', ''cmdAUTH''),
     (''PBSZ'', ''cmdPBSZ''), (''PROT'', ''cmdPROT''), (''EPRT'', ''cmdEPRT''), (''EPSV'', ''cmdEPSV''),
     (''SIZE'', ''cmdSIZE''), (''MLSD'', ''cmdMLSD''), (''MLST'', ''cmdMLST'')]"

definition map_ftp_command :: "string \<Rightarrow> string" where
  "map_ftp_command cmd = (case map_of ftp_command_table cmd of Some e \<Rightarrow> e | None \<Rightarrow> ''cmdNotSet'')"

definition digit_val :: "byte \<Rightarrow> int" where
  "digit_val c = int (bval c) - 48"

definition extract_response_code :: "cptr \<Rightarrow> nat \<Rightarrow> int option" where
  "extract_response_code buf len =
     (if len < 3 then Some 0
      else do {
        a \<leftarrow> rd buf 0;
        if \<not> isdigit a then Some 0 else do {
        b \<leftarrow> rd buf 1;
        if \<not> isdigit b then Some 0 else do {
        c \<leftarrow> rd buf 2;
        if \<not> isdigit c then Some 0
        else Some (digit_val a * 100 + digit_val b * 10 + digit_val c)}}
      })"

definition map_status_class :: "int \<Rightarrow> string" where
  "map_status_class code =
     (if code = 0 then ''scNotSet''
      else if 100 \<le> code \<and> code < 200 then ''scPreliminary''
      else if 200 \<le> code \<and> code < 300 then ''scSuccess''
      else if 300 \<le> code \<and> code < 400 then ''scIntermediate''
      else if 400 \<le> code \<and> code < 500 then ''scTransientError''
      else if 500 \<le> code \<and> code < 600 then ''scPermanentError''
      else ''scNotSet'')"

definition get_auth_state :: "ftp_state \<Rightarrow> string" where
  "get_auth_state s =
     (if user_logged_in s then ''authComplete''
      else if login_failed s then ''authFailed''
      else if pass_sent s then ''authPasswordSent''
      else if user_sent s then ''authUserSent''
      else ''authNone'')"

definition get_data_state :: "ftp_state \<Rightarrow> string" where
  "get_data_state s =
     (if data_connection_open s then ''dataActive''
      else if port_sent s then ''dataPORT''
      else if pasv_sent s then ''dataPASV''
      else ''dataNotSet'')"

text \<open>The loop of \<open>is_cmd_malformed\<close>: is one of the first \<open>n\<close> bytes a NUL?\<close>

fun has_nul :: "nat \<Rightarrow> cptr \<Rightarrow> bool option" where
  "has_nul 0 p = Some False"
| "has_nul (Suc n) p = do {
     c \<leftarrow> rd p 0;
     if c = NUL then Some True else has_nul n (drop 1 p)
   }"

definition is_cmd_malformed :: "cptr \<Rightarrow> nat \<Rightarrow> bool option" where
  "is_cmd_malformed buf len =
     (if len = 0 then Some True
      else if len > 512 then Some True
      else do {
        z \<leftarrow> has_nul (len - 1) buf;
        if z then Some True
        else do {
          cmd \<leftarrow> extract_command buf len 16;
          if length cmd = 0 then Some True else Some False
        }
      })"

text \<open>\<open>while (end < len && buf[end] != '\n') end++;\<close> seen from \<open>start\<close>.\<close>

fun find_lf :: "nat \<Rightarrow> cptr \<Rightarrow> nat option" where
  "find_lf 0 p = Some 0"
| "find_lf (Suc n) p = do {
     c \<leftarrow> rd p 0;
     if c = LF then Some 0 else map_option Suc (find_lf n (drop 1 p))
   }"

text \<open>One reply line of \<open>n\<close> bytes at \<open>p\<close>: \<^const>\<open>True\<close> when the function returns ``malformed'' on it.\<close>

definition resp_line_bad :: "cptr \<Rightarrow> nat \<Rightarrow> bool option" where
  "resp_line_bad p n = do {
     line_len \<leftarrow> (if n > 0 then do { c \<leftarrow> rd p (n - 1); Some (if c = CR then n - 1 else n) } else Some n);
     if line_len = 0 then Some True
     else if line_len < 4 then Some True
     else do {
       a \<leftarrow> rd p 0;
       if \<not> isdigit a then Some True else do {
       b \<leftarrow> rd p 1;
       if \<not> isdigit b then Some True else do {
       c \<leftarrow> rd p 2;
       Some (\<not> isdigit c)}}
     }
   }"

text \<open>The outer loop: \<open>p = buf + start\<close>, \<open>n = len - start\<close>.\<close>

function resp_lines_bad :: "cptr \<Rightarrow> nat \<Rightarrow> bool option" where
  "resp_lines_bad p n =
     (if n = 0 then Some False
      else do {
        e \<leftarrow> find_lf n p;
        bad \<leftarrow> resp_line_bad p e;
        if bad then Some True
        else if e < n then resp_lines_bad (drop (e + 1) p) (n - (e + 1))
        else Some False
      })"
  by pat_completeness auto
termination
  by (relation "measure snd") auto

declare resp_lines_bad.simps [simp del]

definition is_resp_malformed :: "cptr \<Rightarrow> nat \<Rightarrow> bool option" where
  "is_resp_malformed buf len = (if len = 0 then Some True else resp_lines_bad buf len)"

definition infer_command_from_response :: "ftp_state \<Rightarrow> int \<Rightarrow> ftp_state" where
  "infer_command_from_response s resp_code =
     (if last_command s \<noteq> ''cmdNotSet'' then s
      else if resp_code = 220 then
        (if sequence_number s = 0 then s
         else if reinit_sent s then s\<lparr>last_command := ''cmdREIN''\<rparr> else s)
      else if resp_code = 331 then (if user_sent s then s\<lparr>last_command := ''cmdUSER''\<rparr> else s)
      else if resp_code = 230 then
        (if sequence_number s = 0 then s
         else if pass_sent s then s\<lparr>last_command := ''cmdPASS''\<rparr> else s)
      else if resp_code = 227 then (if pasv_sent s then s\<lparr>last_command := ''cmdPASV''\<rparr> else s)
      else if resp_code = 350 then (if rnfr_sent s then s\<lparr>last_command := ''cmdRNFR''\<rparr> else s)
      else if resp_code = 221 then (if quit_sent s then s\<lparr>last_command := ''cmdQUIT''\<rparr> else s)
      else if resp_code = 257 then s\<lparr>last_command := ''cmdPWD''\<rparr>
      else if resp_code = 215 then s\<lparr>last_command := ''cmdSYST''\<rparr>
      else if resp_code = 211 then s\<lparr>last_command := ''cmdFEAT''\<rparr>
      else s)"

section \<open>Builders\<close>

text \<open>
  The state change of a command. \<open>strncpy(last_command, cmd_enum, 15)\<close> copies the whole name, the
  longest of which has nine characters. For \<open>REST\<close> the argument is read from \<open>buf + strlen(cmd_str)\<close>.
\<close>

definition ftp_command_update :: "ftp_state \<Rightarrow> cptr \<Rightarrow> string \<Rightarrow> string \<Rightarrow> ftp_state option" where
  "ftp_command_update s0 buf cmd_str cmd_enum = (
     let s = s0\<lparr>last_command := take 15 cmd_enum\<rparr> in
     if cmd_enum = ''cmdUSER'' then Some (s\<lparr>user_sent := True\<rparr>)
     else if cmd_enum = ''cmdPASS'' then Some (s\<lparr>pass_sent := True\<rparr>)
     else if cmd_enum = ''cmdPORT'' then Some (s\<lparr>port_sent := True, pasv_sent := False\<rparr>)
     else if cmd_enum = ''cmdPASV'' then Some (s\<lparr>pasv_sent := True, port_sent := False\<rparr>)
     else if cmd_enum = ''cmdRETR'' then Some (s\<lparr>retr_sent := True\<rparr>)
     else if cmd_enum = ''cmdSTOR'' then Some (s\<lparr>stor_sent := True\<rparr>)
     else if cmd_enum = ''cmdRNFR'' then Some (s\<lparr>rnfr_sent := True\<rparr>)
     else if cmd_enum = ''cmdRNTO'' then Some (s\<lparr>rnto_sent := True\<rparr>)
     else if cmd_enum = ''cmdABOR'' then Some (s\<lparr>transfer_aborted := True, transfer_in_progress := False\<rparr>)
     else if cmd_enum = ''cmdQUIT'' then Some (s\<lparr>quit_sent := True\<rparr>)
     else if cmd_enum = ''cmdREIN'' then Some (s\<lparr>reinit_sent := True\<rparr>)
     else if cmd_enum = ''cmdREST'' then do {
       v \<leftarrow> skip_ws (drop (length cmd_str) buf) \<bind> atoi;
       Some (s\<lparr>rest_position := v\<rparr>)
     }
     else Some s)"

text \<open>The pairs both builders print after their first five.\<close>

definition ftp_common_kvs :: "ftp_state \<Rightarrow> bool \<Rightarrow> kv list" where
  "ftp_common_kvs s timeout = [
     (''user_logged_in'', bool_str (user_logged_in s)),
     (''data_connection_open'', bool_str (data_connection_open s)),
     (''transfer_in_progress'', bool_str (transfer_in_progress s)),
     (''timeout'', bool_str timeout),
     (''connection_closed'', bool_str (connection_closed s)),
     (''user_sent'', bool_str (user_sent s)),
     (''pass_sent'', bool_str (pass_sent s)),
     (''login_successful'', bool_str (login_successful s)),
     (''login_failed'', bool_str (login_failed s)),
     (''port_sent'', bool_str (port_sent s)),
     (''pasv_sent'', bool_str (pasv_sent s)),
     (''pasv_response_received'', bool_str (pasv_response_received s)),
     (''port_accepted'', bool_str (port_accepted s)),
     (''retr_sent'', bool_str (retr_sent s)),
     (''stor_sent'', bool_str (stor_sent s)),
     (''transfer_started'', bool_str (transfer_started s)),
     (''transfer_complete'', bool_str (transfer_complete s)),
     (''transfer_aborted'', bool_str (transfer_aborted s)),
     (''rnfr_sent'', bool_str (rnfr_sent s)),
     (''rnfr_accepted'', bool_str (rnfr_accepted s)),
     (''rnto_sent'', bool_str (rnto_sent s)),
     (''session_initialized'', bool_str (session_initialized s)),
     (''quit_sent'', bool_str (quit_sent s)),
     (''reinit_sent'', bool_str (reinit_sent s)),
     (''auth_state'', get_auth_state s),
     (''data_state'', get_data_state s),
     (''transfer_type'', ''typeNotSet'')]"

definition ftp_command_kvs :: "ftp_state \<Rightarrow> string \<Rightarrow> bool \<Rightarrow> kv list" where
  "ftp_command_kvs s cmd_enum cmd_malformed = [
     (''ftp_command'', cmd_enum),
     (''ftp_status_class'', ''scNotSet''),
     (''resp_code'', ''0''),
     (''sequence_number'', sdec (sequence_number s)),
     (''port_number'', ''0''),
     (''file_size'', ''0''),
     (''rest_position'', sdec (rest_position s)),
     (''cmd_malformed'', bool_str cmd_malformed),
     (''resp_malformed'', ''false'')] @ ftp_common_kvs s False"

definition ftp_command_step :: "ftp_state \<Rightarrow> cptr \<Rightarrow> nat \<Rightarrow> (ftp_state \<times> kv list) option" where
  "ftp_command_step s buf len = do {
     cmd_str \<leftarrow> extract_command buf len 16;
     let cmd_enum = map_ftp_command cmd_str;
     s1 \<leftarrow> ftp_command_update s buf cmd_str cmd_enum;
     n \<leftarrow> cinc (sequence_number s1);
     let s2 = s1\<lparr>sequence_number := n\<rparr>;
     cmd_malformed \<leftarrow> is_cmd_malformed buf len;
     Some (s2, ftp_command_kvs s2 cmd_enum cmd_malformed)
   }"

definition ftp_build_command_pred_line ::
  "ftp_state \<Rightarrow> cptr \<Rightarrow> nat \<Rightarrow> string \<Rightarrow> nat \<Rightarrow> (ftp_state \<times> string) option" where
  "ftp_build_command_pred_line s buf len out out_sz = do {
     (s1, kvs) \<leftarrow> ftp_command_step s buf len;
     (m, line) \<leftarrow> append_packet_trace (g_msg_id s1) (snprintf out out_sz (render_kvs kvs)) out_sz buf len ''C2S'';
     Some (s1\<lparr>g_msg_id := m\<rparr>, line)
   }"

definition ftp_response_update :: "ftp_state \<Rightarrow> int \<Rightarrow> ftp_state" where
  "ftp_response_update s resp_code =
     (if resp_code = 220 \<and> sequence_number s = 0 then s\<lparr>session_initialized := True\<rparr>
      else if resp_code = 230 then s\<lparr>user_logged_in := True, login_successful := True\<rparr>
      else if resp_code = 530 then s\<lparr>login_failed := True, user_logged_in := False\<rparr>
      else if resp_code = 200 \<and> last_command s = ''cmdPORT'' then s\<lparr>port_accepted := True\<rparr>
      else if resp_code = 227 then s\<lparr>pasv_response_received := True\<rparr>
      else if resp_code = 150 then
        s\<lparr>transfer_started := True, transfer_in_progress := True, data_connection_open := True\<rparr>
      else if resp_code = 226 then
        s\<lparr>transfer_complete := True, transfer_in_progress := False, data_connection_open := False\<rparr>
      else if resp_code = 350 \<and> last_command s = ''cmdRNFR'' then s\<lparr>rnfr_accepted := True\<rparr>
      else if resp_code = 220 \<and> last_command s = ''cmdREIN'' then
        (ftp_predicate_reset_session s)\<lparr>session_initialized := True\<rparr>
      else if resp_code = 221 then s\<lparr>connection_closed := True\<rparr>
      else s)"

definition ftp_response_kvs :: "ftp_state \<Rightarrow> int \<Rightarrow> bool \<Rightarrow> bool \<Rightarrow> kv list" where
  "ftp_response_kvs s resp_code resp_malformed timeout = [
     (''ftp_command'', last_command s),
     (''ftp_status_class'', map_status_class resp_code),
     (''resp_code'', sdec resp_code),
     (''sequence_number'', sdec (sequence_number s)),
     (''port_number'', ''0''),
     (''file_size'', ''0''),
     (''rest_position'', sdec (rest_position s)),
     (''cmd_malformed'', ''false''),
     (''resp_malformed'', bool_str resp_malformed)] @ ftp_common_kvs s timeout"

definition ftp_response_step :: "ftp_state \<Rightarrow> cptr \<Rightarrow> nat \<Rightarrow> (ftp_state \<times> kv list) option" where
  "ftp_response_step s buf len = do {
     resp_code \<leftarrow> extract_response_code buf len;
     resp_malformed \<leftarrow> is_resp_malformed buf len;
     let timeout = (len = 0 \<or> resp_code = 0);
     let s1 = ftp_response_update (infer_command_from_response s resp_code) resp_code;
     n \<leftarrow> cinc (sequence_number s1);
     let s2 = s1\<lparr>sequence_number := n\<rparr>;
     Some (s2, ftp_response_kvs s2 resp_code resp_malformed timeout)
   }"

definition ftp_build_response_pred_line ::
  "ftp_state \<Rightarrow> cptr \<Rightarrow> nat \<Rightarrow> string \<Rightarrow> nat \<Rightarrow> (ftp_state \<times> string) option" where
  "ftp_build_response_pred_line s buf len out out_sz = do {
     (s1, kvs) \<leftarrow> ftp_response_step s buf len;
     (m, line) \<leftarrow> append_packet_trace (g_msg_id s1) (snprintf out out_sz (render_kvs kvs)) out_sz buf len ''S2C'';
     Some (s1\<lparr>g_msg_id := m\<rparr>, line)
   }"

section \<open>The helpers on buffers the caller owns\<close>

definition command_byte :: "byte \<Rightarrow> bool" where
  "command_byte c \<longleftrightarrow> c \<noteq> CHR '' '' \<and> c \<noteq> CR \<and> c \<noteq> LF"

lemma extract_command_from_eq:
  "len \<le> length p \<Longrightarrow>
   extract_command_from len room p = Some (map toupper (take room (takeWhile command_byte (take len p))))"
proof (induction len room p rule: extract_command_from.induct)
  case (1 len room p)
  then obtain c p' where p: "p = c # p'" by (cases p) auto
  with 1 show ?case by (auto simp: command_byte_def)
qed auto

lemma extract_command_total:
  assumes "len \<le> length buf"
  shows "\<exists>cmd. extract_command buf len sz = Some cmd \<and> length cmd \<le> len \<and> length cmd \<le> sz - 1"
proof -
  define r where "r = map toupper (take (sz - 1) (takeWhile command_byte (take len buf)))"
  have "length r \<le> len" "length r \<le> sz - 1"
    using length_takeWhile_le [of command_byte "take len buf"] by (auto simp: r_def)
  then have "length (cstr_of r) \<le> len" "length (cstr_of r) \<le> sz - 1"
    using length_cstr_of [of r] by linarith+
  then show ?thesis
    using assms by (simp add: extract_command_def extract_command_from_eq r_def)
qed

lemma has_nul_eq: "n \<le> length p \<Longrightarrow> has_nul n p = Some (NUL \<in> set (take n p))"
proof (induction n p rule: has_nul.induct)
  case (2 n p)
  then obtain c p' where "p = c # p'" by (cases p) auto
  with 2 show ?case by auto
qed simp

lemma find_lf_eq: "n \<le> length p \<Longrightarrow> find_lf n p = Some (length (takeWhile (\<lambda>c. c \<noteq> LF) (take n p)))"
proof (induction n p rule: find_lf.induct)
  case (2 n p)
  then obtain c p' where "p = c # p'" by (cases p) auto
  with 2 show ?case by auto
qed simp

lemma is_cmd_malformed_total: "len \<le> length buf \<Longrightarrow> \<exists>b. is_cmd_malformed buf len = Some b"
  using extract_command_total [of len buf 16]
  by (auto simp: is_cmd_malformed_def has_nul_eq)

lemma digit_val_bounds: "isdigit c \<Longrightarrow> 0 \<le> digit_val c \<and> digit_val c \<le> 9"
  by (auto simp: digit_val_def isdigit_def)

lemma extract_response_code_total:
  assumes "len \<le> length buf"
  shows "\<exists>v. extract_response_code buf len = Some v \<and> 0 \<le> v \<and> v \<le> 999"
proof (cases "len < 3")
  case False
  with assms have "0 < length buf" "1 < length buf" "2 < length buf" by auto
  then show ?thesis
    using False digit_val_bounds [of "buf ! 0"] digit_val_bounds [of "buf ! 1"]
      digit_val_bounds [of "buf ! 2"]
    by (auto simp: extract_response_code_def)
qed (simp add: extract_response_code_def)

lemma extract_response_code_range:
  "extract_response_code buf len = Some v \<Longrightarrow> 0 \<le> v \<and> v \<le> 999"
  by (auto simp: extract_response_code_def bind_eq_Some_conv split: if_splits dest!: digit_val_bounds)

text \<open>What a reply buffer looks like: its lines, and when one of them is well-formed.\<close>

function reply_lines :: "string \<Rightarrow> string list" where
  "reply_lines xs =
     (if xs = [] then []
      else takeWhile (\<lambda>c. c \<noteq> LF) xs # reply_lines (drop (length (takeWhile (\<lambda>c. c \<noteq> LF) xs) + 1) xs))"
  by pat_completeness auto
termination
  by (relation "measure length") auto

declare reply_lines.simps [simp del]

definition strip_cr :: "string \<Rightarrow> string" where
  "strip_cr l = (if l \<noteq> [] \<and> last l = CR then butlast l else l)"

definition wf_reply_line :: "string \<Rightarrow> bool" where
  "wf_reply_line l \<longleftrightarrow> 4 \<le> length (strip_cr l) \<and> isdigit (l ! 0) \<and> isdigit (l ! 1) \<and> isdigit (l ! 2)"

lemma length_strip_cr: "length (strip_cr l) = (if l \<noteq> [] \<and> last l = CR then length l - 1 else length l)"
  by (simp add: strip_cr_def)

lemma resp_line_bad_eq: "n \<le> length p \<Longrightarrow> resp_line_bad p n = Some (\<not> wf_reply_line (take n p))"
proof -
  assume n: "n \<le> length p"
  show ?thesis
  proof (cases "n = 0")
    case True
    then show ?thesis by (simp add: resp_line_bad_def wf_reply_line_def strip_cr_def)
  next
    case False
    with n have ne: "take n p \<noteq> []" by auto
    with n have "last (take n p) = p ! (n - 1)" by (simp add: last_conv_nth min_absorb2)
    with n False ne show ?thesis
      by (auto simp: resp_line_bad_def wf_reply_line_def length_strip_cr)
  qed
qed

lemma resp_lines_bad_eq:
  "n \<le> length p \<Longrightarrow> resp_lines_bad p n = Some (\<exists>l \<in> set (reply_lines (take n p)). \<not> wf_reply_line l)"
proof (induction p n rule: resp_lines_bad.induct)
  case (1 p n)
  show ?case
  proof (cases "n = 0")
    case True
    then show ?thesis by (simp add: resp_lines_bad.simps reply_lines.simps [of "[]"])
  next
    case False
    let ?e = "length (takeWhile (\<lambda>c. c \<noteq> LF) (take n p))"
    have e: "find_lf n p = Some ?e" using "1.prems" by (rule find_lf_eq)
    have le: "?e \<le> n" using length_takeWhile_le [of "\<lambda>c. c \<noteq> LF" "take n p"] by simp
    have line: "take ?e p = takeWhile (\<lambda>c. c \<noteq> LF) (take n p)"
      using le by (metis min_absorb1 take_take takeWhile_eq_take)
    have bad: "resp_line_bad p ?e = Some (\<not> wf_reply_line (takeWhile (\<lambda>c. c \<noteq> LF) (take n p)))"
      using resp_line_bad_eq [of ?e p] le "1.prems" line by simp
    have ne: "take n p \<noteq> []" using False "1.prems" by auto
    have rest: "drop (?e + 1) (take n p) = take (n - (?e + 1)) (drop (?e + 1) p)"
      by (simp add: drop_take)
    show ?thesis
    proof (cases "wf_reply_line (takeWhile (\<lambda>c. c \<noteq> LF) (take n p)) \<and> ?e < n")
      case True
      have "resp_lines_bad (drop (?e + 1) p) (n - (?e + 1))
        = Some (\<exists>l \<in> set (reply_lines (take (n - (?e + 1)) (drop (?e + 1) p))). \<not> wf_reply_line l)"
        using "1.IH" [OF False e bad] True "1.prems" by simp
      with True False e bad ne rest show ?thesis
        by (simp add: resp_lines_bad.simps [of p n] reply_lines.simps [of "take n p"])
    next
      case False2: False
      have nil: "?e = n \<Longrightarrow> drop (?e + 1) (take n p) = []" by simp
      show ?thesis
        using False2 False e bad ne nil le
        by (auto simp: resp_lines_bad.simps [of p n] reply_lines.simps [of "take n p"]
            reply_lines.simps [of "[]"])
    qed
  qed
qed

lemma is_resp_malformed_total: "len \<le> length buf \<Longrightarrow> \<exists>b. is_resp_malformed buf len = Some b"
  by (auto simp: is_resp_malformed_def resp_lines_bad_eq)

section \<open>The session machine\<close>

text \<open>
  The invariant of the session state: the flags the specification reads together agree, and a
  remembered command is one whose ``sent'' flag is set.
\<close>

definition ftp_enums :: "string list" where
  "ftp_enums = ''cmdNotSet'' # map snd ftp_command_table"

text \<open>The flag that goes with a remembered command.\<close>

definition cmd_evidence :: "ftp_state \<Rightarrow> string \<Rightarrow> bool" where
  "cmd_evidence s e =
     (if e = ''cmdUSER'' then user_sent s
      else if e = ''cmdPASS'' then pass_sent s
      else if e = ''cmdRNFR'' then rnfr_sent s
      else if e = ''cmdPORT'' then port_sent s
      else if e = ''cmdPASV'' then pasv_sent s
      else if e = ''cmdQUIT'' then quit_sent s
      else if e = ''cmdREIN'' then reinit_sent s
      else True)"

definition ftp_flags :: "ftp_state \<Rightarrow> bool" where
  "ftp_flags s \<longleftrightarrow>
     (user_logged_in s \<longrightarrow> login_successful s)
   \<and> (transfer_in_progress s \<longrightarrow> data_connection_open s)
   \<and> (data_connection_open s \<longrightarrow> transfer_started s)
   \<and> \<not> (port_sent s \<and> pasv_sent s)
   \<and> (rnfr_accepted s \<longrightarrow> rnfr_sent s)"

definition ftp_ranges :: "ftp_state \<Rightarrow> bool" where
  "ftp_ranges s \<longleftrightarrow>
     last_command s \<in> set ftp_enums
   \<and> 0 \<le> sequence_number s \<and> sequence_number s < 2 ^ 31
   \<and> - (2 ^ 31) \<le> rest_position s \<and> rest_position s < 2 ^ 31"

definition ftp_inv :: "ftp_state \<Rightarrow> bool" where
  "ftp_inv s \<longleftrightarrow> ftp_ranges s \<and> ftp_flags s \<and> cmd_evidence s (last_command s)"

lemma map_ftp_command_enum: "map_ftp_command cmd \<in> set ftp_enums"
  by (auto simp: map_ftp_command_def ftp_enums_def split: option.split dest!: map_of_SomeD
      intro: rev_image_eqI)

lemma ftp_enums_wf: "e \<in> set ftp_enums \<Longrightarrow> e \<noteq> [] \<and> length e \<le> 9 \<and> (\<forall>c \<in> set e. plain c)"
proof -
  have "list_all (\<lambda>e. e \<noteq> [] \<and> length e \<le> 9 \<and> list_all plain e) ftp_enums"
    by code_simp
  then show "e \<in> set ftp_enums \<Longrightarrow> e \<noteq> [] \<and> length e \<le> 9 \<and> (\<forall>c \<in> set e. plain c)"
    by (auto simp: list_all_iff)
qed

lemma ftp_enum_members [simp]:
  "''cmdNotSet'' \<in> set ftp_enums" "''cmdUSER'' \<in> set ftp_enums" "''cmdPASS'' \<in> set ftp_enums"
  "''cmdPASV'' \<in> set ftp_enums" "''cmdRNFR'' \<in> set ftp_enums" "''cmdQUIT'' \<in> set ftp_enums"
  "''cmdREIN'' \<in> set ftp_enums" "''cmdPWD'' \<in> set ftp_enums" "''cmdSYST'' \<in> set ftp_enums"
  "''cmdFEAT'' \<in> set ftp_enums"
  by (simp_all add: ftp_enums_def ftp_command_table_def)

lemma take_ftp_enum: "e \<in> set ftp_enums \<Longrightarrow> take 15 e = e"
  using ftp_enums_wf [of e] by simp

lemma ftp_inv_init: "ftp_inv (ftp_init\<lparr>g_msg_id := m\<rparr>)"
  by (simp add: ftp_inv_def ftp_ranges_def ftp_flags_def cmd_evidence_def ftp_init_def)

lemma ftp_inv_reset: "ftp_inv (ftp_predicate_reset_session s)"
  by (simp add: ftp_predicate_reset_session_def ftp_inv_init)

text \<open>Which updates the three parts of the invariant do not see.\<close>

lemma ftp_inv_msg_id [simp]: "ftp_inv (s\<lparr>g_msg_id := m\<rparr>) = ftp_inv s"
  by (simp add: ftp_inv_def ftp_ranges_def ftp_flags_def cmd_evidence_def)

lemma ftp_inv_session [simp]: "ftp_inv (s\<lparr>session_initialized := b\<rparr>) = ftp_inv s"
  by (simp add: ftp_inv_def ftp_ranges_def ftp_flags_def cmd_evidence_def)

lemma ftp_inv_seq: "ftp_inv s \<Longrightarrow> 0 \<le> n \<Longrightarrow> n < 2 ^ 31 \<Longrightarrow> ftp_inv (s\<lparr>sequence_number := n\<rparr>)"
  by (simp add: ftp_inv_def ftp_ranges_def ftp_flags_def cmd_evidence_def)

lemma cmd_evidence_last [simp]: "cmd_evidence (s\<lparr>last_command := e\<rparr>) e' = cmd_evidence s e'"
  by (simp add: cmd_evidence_def)

lemma ftp_flags_last [simp]: "ftp_flags (s\<lparr>last_command := e\<rparr>) = ftp_flags s"
  by (simp add: ftp_flags_def)

lemma ftp_inv_last:
  "ftp_ranges s \<Longrightarrow> ftp_flags s \<Longrightarrow> e \<in> set ftp_enums \<Longrightarrow> cmd_evidence s e \<Longrightarrow>
   ftp_inv (s\<lparr>last_command := e\<rparr>)"
  by (simp add: ftp_inv_def ftp_ranges_def)

text \<open>Each part of the invariant, for every command and every reply.\<close>

lemma ftp_command_update_ranges:
  "ftp_ranges s \<Longrightarrow> e \<in> set ftp_enums \<Longrightarrow>
   rets (\<lambda>s'. ftp_ranges s' \<and> last_command s' = e \<and> sequence_number s' = sequence_number s)
     (ftp_command_update s buf cmd e)"
  unfolding ftp_command_update_def Let_def
  by (intro rets; simp add: ftp_ranges_def take_ftp_enum atoi_bounds bind_eq_Some_conv)
    (metis atoi_bounds)

lemma ftp_command_update_flags:
  "ftp_flags s \<Longrightarrow> rets ftp_flags (ftp_command_update s buf cmd e)"
  unfolding ftp_command_update_def Let_def
  by (intro rets; simp add: ftp_flags_def)

lemma ftp_command_update_evidence: "rets (\<lambda>s'. cmd_evidence s' e) (ftp_command_update s buf cmd e)"
  unfolding ftp_command_update_def Let_def
  by (intro rets; simp add: cmd_evidence_def)

lemma ftp_command_update_inv:
  assumes "ftp_inv s" and "ftp_command_update s buf cmd e = Some s'" and "e \<in> set ftp_enums"
  shows "ftp_inv s' \<and> sequence_number s' = sequence_number s"
  using rets_D [OF ftp_command_update_ranges [OF _ assms(3)] assms(2)]
    rets_D [OF ftp_command_update_flags assms(2)]
    rets_D [OF ftp_command_update_evidence assms(2)] assms(1)
  by (simp add: ftp_inv_def)

lemma infer_command_seq [simp]:
  "sequence_number (infer_command_from_response s code) = sequence_number s"
  unfolding infer_command_from_response_def
  by (intro if_cases [where P = "\<lambda>x. sequence_number x = sequence_number s"]; simp)

lemma infer_command_inv:
  assumes "ftp_inv s"
  shows "ftp_inv (infer_command_from_response s code)"
proof -
  have i: "cmd_evidence s e \<Longrightarrow> e \<in> set ftp_enums \<Longrightarrow> ftp_inv (s\<lparr>last_command := e\<rparr>)" for e
    using assms by (simp add: ftp_inv_last ftp_inv_def [of s])
  show ?thesis
    unfolding infer_command_from_response_def
    using assms by (intro if_cases [where P = ftp_inv] i; simp add: cmd_evidence_def)
qed

lemma ftp_response_update_inv:
  assumes "ftp_inv s"
  shows "ftp_inv (ftp_response_update s code)"
proof -
  have "ftp_flags s" "ftp_ranges s" "cmd_evidence s (last_command s)"
    using assms by (simp_all add: ftp_inv_def)
  then show ?thesis
    unfolding ftp_response_update_def
    by (intro if_cases [where P = ftp_inv];
      simp add: assms ftp_inv_def ftp_ranges_def ftp_flags_def cmd_evidence_def
        ftp_predicate_reset_session_def ftp_init_def)
qed

lemma ftp_response_update_seq:
  "sequence_number (ftp_response_update s code) = sequence_number s
   \<or> sequence_number (ftp_response_update s code) = 0"
  unfolding ftp_response_update_def
  by (intro if_cases [where P = "\<lambda>x. sequence_number x = sequence_number s \<or> sequence_number x = 0"];
    simp add: ftp_predicate_reset_session_def ftp_init_def)

section \<open>The lines\<close>

definition ftp_keys :: "string list" where
  "ftp_keys = [''ftp_command'', ''ftp_status_class'', ''resp_code'', ''sequence_number'',
     ''port_number'', ''file_size'', ''rest_position'', ''cmd_malformed'', ''resp_malformed'',
     ''user_logged_in'', ''data_connection_open'', ''transfer_in_progress'', ''timeout'',
     ''connection_closed'', ''user_sent'', ''pass_sent'', ''login_successful'', ''login_failed'',
     ''port_sent'', ''pasv_sent'', ''pasv_response_received'', ''port_accepted'', ''retr_sent'',
     ''stor_sent'', ''transfer_started'', ''transfer_complete'', ''transfer_aborted'', ''rnfr_sent'',
     ''rnfr_accepted'', ''rnto_sent'', ''session_initialized'', ''quit_sent'', ''reinit_sent'',
     ''auth_state'', ''data_state'', ''transfer_type'']"

lemma ftp_kvs_keys [simp]:
  "map fst (ftp_command_kvs s e b) = ftp_keys" "map fst (ftp_response_kvs s code b t) = ftp_keys"
  by (simp_all add: ftp_command_kvs_def ftp_response_kvs_def ftp_common_kvs_def ftp_keys_def)

lemma ftp_keys_wf: "list_all wf_key ftp_keys"
  by code_simp

lemma ftp_keys_length: "sum_list (map length ftp_keys) = 458" "length ftp_keys = 36"
  by code_simp+

definition ftp_value :: "string \<Rightarrow> bool" where
  "ftp_value v \<longleftrightarrow> plain_str v \<and> length v \<le> 16"

lemma ftp_value_lits [simp]:
  "ftp_value ''0''" "ftp_value ''false''" "ftp_value ''scNotSet''" "ftp_value ''typeNotSet''"
  "ftp_value (bool_str b)" "ftp_value (map_status_class code)" "ftp_value (get_auth_state s)"
  "ftp_value (get_data_state s)"
  by (simp_all add: ftp_value_def plain_str_def plain_def bval_def bool_str_def map_status_class_def
      get_auth_state_def get_data_state_def)

lemma ftp_value_sdec: "- 2147483648 \<le> x \<Longrightarrow> x < 2147483648 \<Longrightarrow> ftp_value (sdec x)"
  using length_sdec32 [of x] by (simp add: ftp_value_def)

lemma ftp_value_enum: "e \<in> set ftp_enums \<Longrightarrow> ftp_value e"
  using ftp_enums_wf [of e] by (auto simp: ftp_value_def plain_str_def list_all_iff)

lemma ftp_kvs_values:
  assumes "ftp_inv s"
  shows "e \<in> set ftp_enums \<Longrightarrow> list_all ftp_value (map snd (ftp_command_kvs s e b))"
    and "0 \<le> code \<Longrightarrow> code \<le> 999 \<Longrightarrow> list_all ftp_value (map snd (ftp_response_kvs s code b t))"
  using assms
  by (simp_all add: ftp_command_kvs_def ftp_response_kvs_def ftp_common_kvs_def ftp_inv_def
      ftp_ranges_def ftp_value_sdec ftp_value_enum)

lemma ftp_line_kvs:
  assumes "map fst kvs = ftp_keys" and "list_all ftp_value (map snd kvs)"
  shows "line_kvs kvs" and "length (render_kvs kvs) + 563 \<le> 2048"
proof -
  have "fst (hd kvs) = hd (map fst kvs)" "kvs \<noteq> []"
    using assms(1) by (cases kvs; simp add: ftp_keys_def)+
  then show "line_kvs kvs"
    using assms ftp_keys_wf
    by (auto simp: line_kvs_def wf_kvs_split ftp_value_def list_all_iff)
      (simp add: ftp_keys_def islower_def bval_def)
  have "list_all (\<lambda>v. length v \<le> 16) (map snd kvs)"
    using assms(2) by (auto simp: ftp_value_def list_all_iff)
  from length_render_kvs_le [OF this] have "length (render_kvs kvs) \<le> 458 + length kvs * 18"
    using assms(1) ftp_keys_length by simp
  moreover have "length kvs = 36" using assms(1) ftp_keys_length(2) by (metis length_map)
  ultimately show "length (render_kvs kvs) + 563 \<le> 2048" by simp
qed

section \<open>The steps\<close>

lemma ftp_command_step_ok:
  assumes "ftp_inv s" and "ftp_command_step s buf len = Some (s', kvs)"
  shows "ftp_inv s'" and "map fst kvs = ftp_keys" and "list_all ftp_value (map snd kvs)"
    and "sequence_number s' = sequence_number s + 1"
proof -
  from assms(2) obtain cmd s1 b where st:
    "ftp_command_update s buf cmd (map_ftp_command cmd) = Some s1"
    "sequence_number s1 < 2147483647"
    "s' = s1\<lparr>sequence_number := sequence_number s1 + 1\<rparr>"
    "kvs = ftp_command_kvs s' (map_ftp_command cmd) b"
    by (auto simp: ftp_command_step_def Let_def bind_eq_Some_conv)
  note u = ftp_command_update_inv [OF assms(1) st(1) map_ftp_command_enum]
  then have "0 \<le> sequence_number s1" by (simp add: ftp_inv_def ftp_ranges_def)
  with u st show inv: "ftp_inv s'" by (simp add: ftp_inv_seq)
  show "map fst kvs = ftp_keys" using st by simp
  show "list_all ftp_value (map snd kvs)"
    using ftp_kvs_values(1) [OF inv map_ftp_command_enum] st by simp
  show "sequence_number s' = sequence_number s + 1" using st u by simp
qed

lemma ftp_response_step_ok:
  assumes "ftp_inv s" and "ftp_response_step s buf len = Some (s', kvs)"
  shows "ftp_inv s'" and "map fst kvs = ftp_keys" and "list_all ftp_value (map snd kvs)"
proof -
  from assms(2) obtain code b t s1 where st:
    "extract_response_code buf len = Some code"
    "s1 = ftp_response_update (infer_command_from_response s code) code"
    "sequence_number s1 < 2147483647"
    "s' = s1\<lparr>sequence_number := sequence_number s1 + 1\<rparr>"
    "kvs = ftp_response_kvs s' code b t"
    by (auto simp: ftp_response_step_def Let_def bind_eq_Some_conv)
  have u: "ftp_inv s1"
    unfolding st(2) by (intro ftp_response_update_inv infer_command_inv assms(1))
  then have "0 \<le> sequence_number s1" by (simp add: ftp_inv_def ftp_ranges_def)
  with u st show inv: "ftp_inv s'" by (simp add: ftp_inv_seq)
  show "map fst kvs = ftp_keys" using st by simp
  have "0 \<le> code \<and> code \<le> 999" using st(1) by (rule extract_response_code_range)
  then show "list_all ftp_value (map snd kvs)"
    using ftp_kvs_values(2) [OF inv, of code b t] st by simp
qed

definition ftp_room :: "nat \<Rightarrow> ftp_state \<Rightarrow> bool" where
  "ftp_room n s \<longleftrightarrow> sequence_number s + int n < 2 ^ 31"

lemma ftp_room_laws:
  "n < 2 ^ 31 \<Longrightarrow> ftp_room n (ftp_predicate_reset_session s)" "ftp_room (Suc n) s \<Longrightarrow> ftp_room n s"
  "ftp_room n (s\<lparr>g_msg_id := m\<rparr>) = ftp_room n s"
  by (simp_all add: ftp_room_def ftp_predicate_reset_session_def ftp_init_def)

lemma ftp_command_update_total:
  assumes "length cmd \<le> len" and "c \<in> set (drop len buf)" and "stop_byte c"
  shows "\<exists>s'. ftp_command_update s buf cmd e = Some s'"
proof -
  have "drop len buf = drop (len - length cmd) (drop (length cmd) buf)" using assms(1) by simp
  then have "c \<in> set (drop (length cmd) buf)" using assms(2) by (metis in_set_dropD)
  from skip_ws_stops [OF this assms(3)] obtain q where "skip_ws (drop (length cmd) buf) = Some q" "c \<in> set q"
    by blast
  with atoi_stops [OF _ assms(3)] obtain v where "skip_ws (drop (length cmd) buf) \<bind> atoi = Some v"
    by fastforce
  then show ?thesis by (simp add: ftp_command_update_def Let_def)
qed

lemma ftp_command_step_total:
  assumes "ftp_inv s" and "ftp_room (Suc n) s" and "len \<le> length buf"
    and "c \<in> set (drop len buf)" and "stop_byte c"
  shows "\<exists>s' kvs. ftp_command_step s buf len = Some (s', kvs) \<and> ftp_room n s'"
proof -
  from extract_command_total [OF assms(3), of 16] obtain cmd
    where cmd: "extract_command buf len 16 = Some cmd" "length cmd \<le> len" by blast
  from ftp_command_update_total [OF cmd(2) assms(4,5)] obtain s1
    where s1: "ftp_command_update s buf cmd (map_ftp_command cmd) = Some s1" by blast
  from ftp_command_update_inv [OF assms(1) s1 map_ftp_command_enum]
  have "sequence_number s1 = sequence_number s" by simp
  with cmd s1 is_cmd_malformed_total [OF assms(3)] assms(2) show ?thesis
    by (auto simp: ftp_command_step_def Let_def cinc_def ftp_room_def)
qed

lemma ftp_response_step_total:
  assumes "ftp_inv s" and "ftp_room (Suc n) s" and "len \<le> length buf"
  shows "\<exists>s' kvs. ftp_response_step s buf len = Some (s', kvs) \<and> ftp_room n s'"
proof -
  from extract_response_code_total [OF assms(3)] obtain code
    where code: "extract_response_code buf len = Some code" by blast
  have "0 \<le> sequence_number s" using assms(1) by (simp add: ftp_inv_def ftp_ranges_def)
  then have "sequence_number (ftp_response_update (infer_command_from_response s code) code)
    \<le> sequence_number s"
    using ftp_response_update_seq [of "infer_command_from_response s code" code] by auto
  with code is_resp_malformed_total [OF assms(3)] assms(2) show ?thesis
    by (auto simp: ftp_response_step_def Let_def cinc_def ftp_room_def)
qed

interpretation ftp: traced_adapter ftp_predicate_reset_session ftp_command_step ftp_response_step
  ftp_build_command_pred_line ftp_build_response_pred_line "\<lambda>_ _. True" g_msg_id "\<lambda>m. g_msg_id_update (\<lambda>_. m)"
  ftp_inv ftp_room stop_byte
proof unfold_locales
  show "ftp_inv s' \<and> line_kvs kvs"
    if "ftp_inv s" "ftp_command_step s buf len = Some (s', kvs)" for s buf len s' kvs
    using ftp_command_step_ok [OF that] ftp_line_kvs(1) by blast
  show "ftp_inv s' \<and> line_kvs kvs"
    if "ftp_inv s" "ftp_response_step s buf len = Some (s', kvs)" for s buf len s' kvs
    using ftp_response_step_ok [OF that] ftp_line_kvs(1) by blast
  show "\<exists>s' kvs. ftp_response_step s buf len = Some (s', kvs) \<and> ftp_room n s'"
    if "ftp_inv s" "ftp_room (Suc n) s" "len \<le> length buf" for s n buf and len :: nat
    by (rule ftp_response_step_total [OF that])
  show "\<exists>s' kvs. ftp_command_step s buf len = Some (s', kvs) \<and> ftp_room n s'"
    if "ftp_inv s" "ftp_room (Suc n) s" "len \<le> length buf" "c \<in> set (drop len buf)" "stop_byte c"
    for s n buf len c
    by (rule ftp_command_step_total [OF that])
qed (auto simp: ftp_build_command_pred_line_def ftp_build_response_pred_line_def ftp_inv_reset
    ftp_room_laws)

section \<open>Reachable sessions\<close>

inductive ftp_reach :: "ftp_state \<Rightarrow> bool" where
  ftp_start: "ftp_reach ftp_init"
| ftp_reset: "ftp_reach s \<Longrightarrow> ftp_reach (ftp_predicate_reset_session s)"
| ftp_command: "ftp_reach s \<Longrightarrow> len \<le> length buf \<Longrightarrow> 1 < out_sz \<Longrightarrow>
    ftp_build_command_pred_line s buf len out out_sz = Some (s', line) \<Longrightarrow> ftp_reach s'"
| ftp_response: "ftp_reach s \<Longrightarrow> len \<le> length buf \<Longrightarrow> 1 < out_sz \<Longrightarrow>
    ftp_build_response_pred_line s buf len out out_sz = Some (s', line) \<Longrightarrow> ftp_reach s'"

lemma ftp_reach_inv: "ftp_reach s \<Longrightarrow> ftp_inv s"
proof (induction rule: ftp_reach.induct)
  case ftp_start
  then show ?case using ftp_inv_init [of 0] by (simp add: ftp_init_def)
next
  case (ftp_command s len buf out_sz out s' line)
  then show ?case using ftp.req_keeps by blast
next
  case (ftp_response s len buf out_sz out s' line)
  then show ?case using ftp.resp_keeps by blast
qed (rule ftp_inv_reset)

section \<open>Properties of the FTP adapter\<close>

lemma ftp_login_after:
  "user_logged_in (ftp_response_update s code) \<longleftrightarrow>
     code = 230 \<or> (user_logged_in s \<and> code \<noteq> 530
       \<and> \<not> (code = 220 \<and> sequence_number s \<noteq> 0 \<and> last_command s = ''cmdREIN''))"
  unfolding ftp_response_update_def
  by (simp add: ftp_predicate_reset_session_def ftp_init_def)

lemma infer_command_login [simp]:
  "user_logged_in (infer_command_from_response s code) = user_logged_in s"
  unfolding infer_command_from_response_def
  by (intro if_cases [where P = "\<lambda>x. user_logged_in x = user_logged_in s"]; simp)

lemma ftp_kvs_of_steps:
  assumes "ftp_response_step s buf len = Some (s', kvs)"
  shows "\<exists>code b. extract_response_code buf len = Some code
    \<and> is_resp_malformed buf len = Some b
    \<and> s' = (ftp_response_update (infer_command_from_response s code) code)
        \<lparr>sequence_number := sequence_number (ftp_response_update (infer_command_from_response s code) code) + 1\<rparr>
    \<and> kvs = ftp_response_kvs s' code b (len = 0 \<or> code = 0)"
  using assms by (auto simp: ftp_response_step_def Let_def bind_eq_Some_conv)

lemma stop_byte_canary: "stop_byte ALLOC_MAGIC_C2"
  by (simp add: stop_byte_def ctype_defs bval_def)

text \<open>
  C5 (safety, totality): after a session reset the adapter gets through any banner and any
  sequence of fewer than \<open>2 ^ 30\<close> messages and replies, whatever their bytes: no builder reads
  outside the message or response buffer or overflows its counter, the session invariant holds at
  the end, and everything the fuzzer hands to the evaluator is a data line, never a control line
  or two lines.
\<close>

theorem ftp_session_lines:
  assumes "ftp_reach s" and "length xs < 2 ^ 30" and "list_all sized xs" and "length banner < 2 ^ 31"
  shows "\<exists>s' ls. send_over_network_m1 ftp_build_command_pred_line ftp_build_response_pred_line
      (ftp_predicate_reset_session s) banner xs = Some (s', ls) \<and> ftp_inv s' \<and> list_all data_line ls"
proof -
  have "ftp_room (Suc (2 * length xs)) (ftp_predicate_reset_session s)"
    using assms(2) by (intro ftp_room_laws) simp
  from ftp.send_over_network_ok [OF stop_byte_canary ftp_inv_reset this assms(3,4)] show ?thesis
    by (simp add: list_all_iff)
qed

theorem ftp_session_lines_witness:
  "ftp_reach ftp_init \<and> length [\<lparr>mdata = ''REST 12'', sent_all = True, received = Some ''350 ok''\<rparr>] < 2 ^ 30
   \<and> (\<exists>s' ls. send_over_network_m1 ftp_build_command_pred_line ftp_build_response_pred_line
      (ftp_predicate_reset_session ftp_init) ''220 hi''
      [\<lparr>mdata = ''REST 12'', sent_all = True, received = Some ''350 ok''\<rparr>] = Some (s', ls)
      \<and> ftp_inv s' \<and> list_all data_line ls)"
  using ftp_session_lines [OF ftp_start, of "[\<lparr>mdata = ''REST 12'', sent_all = True, received = Some ''350 ok''\<rparr>]" "''220 hi''"]
  by (simp add: ftp_start sized_def)

text \<open>
  C16 (round trip): the 2048 byte line the fuzzer passes is never truncated. The evaluator's
  \<open>parse_kv_line\<close> finds in it exactly the 36 pairs the reply step computed, then the message
  number, the direction and the hexadecimal form of the first 256 bytes.
\<close>

theorem ftp_response_read_back:
  assumes "ftp_reach s" and "len \<le> length buf"
    and "ftp_response_step s buf len = Some (s1, kvs)"
  shows "\<exists>line. ftp_build_response_pred_line s buf len out 2048 = Some (s1\<lparr>g_msg_id := g_msg_id s1 + 1\<rparr>, line)
    \<and> parse_kv_line line = map_of (rev (kvs @ trace_kvs (g_msg_id s1 + 1) ''S2C'' buf len))
    \<and> map fst kvs = ftp_keys"
proof -
  note k = ftp_response_step_ok [OF ftp_reach_inv [OF assms(1)] assms(3)]
  from ftp.build_resp_parse [OF ftp_reach_inv [OF assms(1)] assms(2,3) ftp_line_kvs(2) [OF k(2,3)]] k(2)
  show ?thesis by (simp add: ftp.after_def ftp.all_kvs_def)
qed

lemma ftp_step_sample:
  "ftp_response_step ftp_init ''220 hi'' 6 = Some (ftp_init\<lparr>session_initialized := True, sequence_number := 1\<rparr>,
     ftp_response_kvs (ftp_init\<lparr>session_initialized := True, sequence_number := 1\<rparr>) 220 False False)"
  by (simp add: ftp_response_step_def ftp_init_def extract_response_code_def rd_def isdigit_def bval_def
      digit_val_def is_resp_malformed_def resp_lines_bad_eq reply_lines.simps wf_reply_line_def strip_cr_def
      infer_command_from_response_def ftp_response_update_def cinc_def Let_def)

theorem ftp_response_read_back_witness:
  "ftp_reach ftp_init \<and> (6 :: nat) \<le> length ''220 hi''
   \<and> (\<exists>s1 line. ftp_build_response_pred_line ftp_init ''220 hi'' 6 [] 2048 = Some (s1, line)
        \<and> parse_kv_line line = map_of (rev (
            ftp_response_kvs (ftp_init\<lparr>session_initialized := True, sequence_number := 1\<rparr>) 220 False False
            @ trace_kvs (g_msg_id s1) ''S2C'' ''220 hi'' 6)))"
  using ftp_response_read_back [OF ftp_start _ ftp_step_sample, of "[]"]
  by (auto simp: ftp_start)

text \<open>
  C15 (invariant): in every state that commands, replies and resets can reach, a logged-in user has
  been accepted, a running transfer has an open data connection that a 150 reply opened, PORT and
  PASV are never pending together, an accepted RNFR was sent, the remembered command is in the
  adapter's table and its ``sent'' flag is set.
\<close>

theorem ftp_reach_consistent:
  "ftp_reach s \<Longrightarrow>
     (user_logged_in s \<longrightarrow> login_successful s)
   \<and> (transfer_in_progress s \<longrightarrow> data_connection_open s)
   \<and> (data_connection_open s \<longrightarrow> transfer_started s)
   \<and> \<not> (port_sent s \<and> pasv_sent s)
   \<and> (rnfr_accepted s \<longrightarrow> rnfr_sent s)
   \<and> last_command s \<in> set ftp_enums \<and> cmd_evidence s (last_command s)"
  using ftp_reach_inv [of s] by (simp add: ftp_inv_def ftp_flags_def ftp_ranges_def)

theorem ftp_reach_consistent_witness:
  "\<not> (port_sent ftp_init \<and> pasv_sent ftp_init) \<and> last_command ftp_init \<in> set ftp_enums"
  using ftp_reach_consistent [OF ftp_start] by blast

text \<open>
  C22 (equivalence): the reply scanner with its index arithmetic accepts a buffer exactly when it is
  not empty and each of its lines, split at line feeds and stripped of a carriage return, has
  three digits and at least one more character.
\<close>

theorem is_resp_malformed_iff:
  assumes "len \<le> length buf"
  shows "is_resp_malformed buf len
    = Some (len = 0 \<or> (\<exists>l \<in> set (reply_lines (take len buf)). \<not> wf_reply_line l))"
  using assms by (simp add: is_resp_malformed_def resp_lines_bad_eq)

theorem is_resp_malformed_iff_witness:
  "is_resp_malformed ''220-a'' 5 = Some ((5 :: nat) = 0 \<or> (\<exists>l \<in> set (reply_lines (take 5 ''220-a'')). \<not> wf_reply_line l))"
  using is_resp_malformed_iff [of 5 "''220-a''"] by simp

text \<open>
  The login flag after a reply step. It is set by 230 alone and cleared by 530 or by
  a 220 that answers REIN later in the session; every other reply keeps it.
\<close>

lemma ftp_response_login:
  assumes "ftp_response_step s buf len = Some (s', kvs)"
    and "extract_response_code buf len = Some code"
  shows "user_logged_in s' \<longleftrightarrow> code = 230 \<or> (user_logged_in s \<and> code \<noteq> 530
    \<and> \<not> (code = 220 \<and> sequence_number s \<noteq> 0
          \<and> last_command (infer_command_from_response s code) = ''cmdREIN''))"
  using ftp_kvs_of_steps [OF assms(1)] assms(2) ftp_login_after by auto

lemma ftp_response_login_sample:
  "\<not> user_logged_in (ftp_init\<lparr>session_initialized := True, sequence_number := 1\<rparr>)"
  using ftp_response_login [OF ftp_step_sample, of 220]
  by (simp add: extract_response_code_def rd_def isdigit_def bval_def digit_val_def ftp_init_def
      infer_command_from_response_def)

text \<open>
  When no command is remembered, which one a reply brings back. Six reply codes
  infer a command only with its ``sent'' flag set (and 220 and 230 only after the first event), but
  257, 215 and 211 infer PWD, SYST and FEAT from the code alone.
\<close>

lemma infer_command_iff:
  assumes "last_command s = ''cmdNotSet''"
  shows "last_command (infer_command_from_response s code) \<noteq> ''cmdNotSet'' \<longleftrightarrow>
     (code = 220 \<and> sequence_number s \<noteq> 0 \<and> reinit_sent s) \<or> (code = 331 \<and> user_sent s)
   \<or> (code = 230 \<and> sequence_number s \<noteq> 0 \<and> pass_sent s) \<or> (code = 227 \<and> pasv_sent s)
   \<or> (code = 350 \<and> rnfr_sent s) \<or> (code = 221 \<and> quit_sent s) \<or> code \<in> {257, 215, 211}"
  using assms by (simp add: infer_command_from_response_def)

lemma infer_command_iff_sample:
  "last_command (infer_command_from_response ftp_init 257) \<noteq> ''cmdNotSet''"
  using infer_command_iff [of ftp_init 257] by (simp add: ftp_init_def)

end
