(* ===== verification/Ssh_Adapter.thy ===== *)
theory Ssh_Adapter
  imports Adapter
begin

text \<open>
  The SSH predicate adapter (\<open>SNPSFuzzer/monitor-src/ssh_predicate_adapter.c\<close>): the per-session
  counters and NEWKEYS flags, the readers of length-prefixed fields with their 32-bit offset
  arithmetic, the message-type tables and the two builders. The lemmas show that the readers stay
  inside the buffer although the offset check can wrap around, what the channel-data reader
  returns, and how the session state summarises the messages seen so far.
\<close>

section \<open>State\<close>

record ssh_state =
  g_auth_attempts :: int
  g_last_auth_method_none :: bool
  g_seen_client_newkeys :: bool
  g_seen_server_newkeys :: bool
  g_session_initialized :: bool
  g_msg_id :: "32 word"

definition ssh_init :: ssh_state where
  "ssh_init = \<lparr>g_auth_attempts = 0, g_last_auth_method_none = False, g_seen_client_newkeys = False,
     g_seen_server_newkeys = False, g_session_initialized = False, g_msg_id = 0\<rparr>"

definition ssh_predicate_reset_session :: "ssh_state \<Rightarrow> ssh_state" where
  "ssh_predicate_reset_session s = s\<lparr>g_auth_attempts := 0, g_last_auth_method_none := False,
     g_seen_client_newkeys := False, g_seen_server_newkeys := False, g_session_initialized := True\<rparr>"

section \<open>Helpers\<close>

text \<open>A buffer that may be \<open>NULL\<close> is an option; reading through \<open>NULL\<close> is outside every object.\<close>

definition get_msg_type :: "cptr option \<Rightarrow> nat \<Rightarrow> nat option" where
  "get_msg_type buf len = (case buf of
     None \<Rightarrow> Some 0
   | Some p \<Rightarrow> if len = 0 then Some 0 else map_option bval (rd p 0))"

definition is_ssh_banner :: "cptr option \<Rightarrow> nat \<Rightarrow> bool option" where
  "is_ssh_banner buf len = (case buf of
     None \<Rightarrow> Some False
   | Some p \<Rightarrow> if len < 4 then Some False else memcmp_eq p ''SSH-'')"

text \<open>
  The readers return \<open>Some None\<close> where the C function returns false, and otherwise the new offset
  with the value. Offsets and lengths are \<open>unsigned int\<close>: the sums in the checks wrap around.
\<close>

definition read_u32_be :: "cptr \<Rightarrow> 32 word \<Rightarrow> 32 word \<Rightarrow> (32 word \<times> 32 word) option option" where
  "read_u32_be buf len off =
     (if off + 4 > len then Some None
      else do {
        a \<leftarrow> rd buf (unat off);
        b \<leftarrow> rd buf (unat off + 1);
        c \<leftarrow> rd buf (unat off + 2);
        d \<leftarrow> rd buf (unat off + 3);
        Some (Some (off + 4, word_of_nat (be32 a b c d)))
      })"

text \<open>The string is given by its start (an offset into the buffer) and its length.\<close>

definition read_ssh_string ::
  "cptr \<Rightarrow> 32 word \<Rightarrow> 32 word \<Rightarrow> (32 word \<times> 32 word \<times> 32 word) option option" where
  "read_ssh_string buf len off = do {
     r \<leftarrow> read_u32_be buf len off;
     (case r of
       None \<Rightarrow> Some None
     | Some (off1, l) \<Rightarrow>
         if off1 + l > len then Some None else Some (Some (off1 + l, off1, l)))
   }"

definition ssh_parse_userauth_method :: "cptr \<Rightarrow> 32 word \<Rightarrow> bool option option" where
  "ssh_parse_userauth_method buf len =
     (if len < 2 then Some None
      else do {
        r1 \<leftarrow> read_ssh_string buf len 1;
        (case r1 of None \<Rightarrow> Some None | Some (off1, s1, slen1) \<Rightarrow> do {
        r2 \<leftarrow> read_ssh_string buf len off1;
        (case r2 of None \<Rightarrow> Some None | Some (off2, s2, slen2) \<Rightarrow> do {
        r3 \<leftarrow> read_ssh_string buf len off2;
        (case r3 of None \<Rightarrow> Some None | Some (off3, s, slen) \<Rightarrow>
          if slen = 4 then map_option Some (memcmp_eq (drop (unat s) buf) ''none'')
          else Some (Some False))})})
      })"

definition ssh_parse_channel_data_len :: "cptr \<Rightarrow> 32 word \<Rightarrow> int option" where
  "ssh_parse_channel_data_len buf len =
     (if len < 1 + 4 + 4 then Some 0
      else do {
        r1 \<leftarrow> read_u32_be buf len 1;
        (case r1 of None \<Rightarrow> Some 0 | Some (off1, tmp) \<Rightarrow> do {
        r2 \<leftarrow> read_u32_be buf len off1;
        (case r2 of None \<Rightarrow> Some 0 | Some (off2, data_len) \<Rightarrow>
          if off2 + data_len > len then Some 0 else Some (sint data_len))})
      })"

definition ssh_encrypted_now :: "ssh_state \<Rightarrow> bool" where
  "ssh_encrypted_now s \<longleftrightarrow> g_seen_client_newkeys s \<and> g_seen_server_newkeys s"

definition ssh_request_table :: "(nat \<times> string) list" where
  "ssh_request_table = [
     (20, ''c2s_kexinit''), (21, ''c2s_newkeys_request''), (30, ''c2s_kexdh_init''),
     (5, ''c2s_service_request_userauth''), (50, ''c2s_userauth_request''), (90, ''c2s_channel_open''),
     (93, ''c2s_channel_window_adjust''), (94, ''c2s_channel_data''), (96, ''c2s_channel_eof''),
     (97, ''c2s_channel_close''), (98, ''c2s_channel_request''), (80, ''c2s_global_request''),
     (1, ''c2s_disconnect''), (3, ''c2s_unimplemented'')]"

definition ssh_request_enum_for_type :: "nat \<Rightarrow> string" where
  "ssh_request_enum_for_type t =
     (case map_of ssh_request_table t of Some e \<Rightarrow> e | None \<Rightarrow> ''requestNotSet'')"

definition ssh_response_table :: "(nat \<times> string) list" where
  "ssh_response_table = [
     (20, ''s2c_kexinit''), (21, ''s2c_newkeys_response''), (31, ''s2c_kexdh_reply''),
     (6, ''s2c_service_accept_userauth''), (51, ''s2c_userauth_failure''), (52, ''s2c_userauth_success''),
     (53, ''s2c_userauth_banner''), (90, ''s2c_channel_open_confirmation''),
     (92, ''s2c_channel_open_failure''), (93, ''s2c_channel_window_adjust''), (94, ''s2c_channel_data''),
     (96, ''s2c_channel_eof''), (97, ''s2c_channel_close''), (81, ''s2c_global_request_response''),
     (82, ''s2c_global_request_response''), (1, ''s2c_disconnect''), (3, ''s2c_unimplemented'')]"

definition ssh_response_enum_for_type :: "nat \<Rightarrow> string" where
  "ssh_response_enum_for_type t =
     (case map_of ssh_response_table t of Some e \<Rightarrow> e | None \<Rightarrow> ''responseNotSet'')"

section \<open>Builders\<close>

text \<open>The one format string all four \<open>snprintf\<close> calls share.\<close>

definition ssh_kvs :: "ssh_state \<Rightarrow> string \<Rightarrow> string \<Rightarrow> bool \<Rightarrow> bool \<Rightarrow> bool \<Rightarrow> nat \<Rightarrow> int \<Rightarrow> kv list" where
  "ssh_kvs s req resp encrypted hostkey_present sig_ok len chan_data_len = [
     (''request'', req),
     (''response'', resp),
     (''encrypted'', bool_str encrypted),
     (''mac_ok'', ''true''),
     (''hostkey_present'', bool_str hostkey_present),
     (''sig_ok'', bool_str sig_ok),
     (''pkt_len'', sdec (to_int32 (int len))),
     (''pad_len'', ''-1''),
     (''chan_data_len'', sdec chan_data_len),
     (''auth_attempts'', sdec (g_auth_attempts s)),
     (''is_auth_method_none'', bool_str (g_last_auth_method_none s))]"

definition ssh_ensure_session :: "ssh_state \<Rightarrow> ssh_state" where
  "ssh_ensure_session s = (if \<not> g_session_initialized s then ssh_predicate_reset_session s else s)"

definition ssh_request_update :: "ssh_state \<Rightarrow> cptr \<Rightarrow> nat \<Rightarrow> nat \<Rightarrow> ssh_state option" where
  "ssh_request_update s buf len t = (
     let s1 = (if t = 21 then s\<lparr>g_seen_client_newkeys := True\<rparr> else s) in
     if t = 50 then do {
       n \<leftarrow> cinc (g_auth_attempts s1);
       r \<leftarrow> ssh_parse_userauth_method buf (word_of_nat len);
       Some (s1\<lparr>g_auth_attempts := n,
               g_last_auth_method_none := (case r of Some is_none \<Rightarrow> is_none | None \<Rightarrow> False)\<rparr>)
     } else Some s1)"

definition ssh_request_step :: "ssh_state \<Rightarrow> cptr \<Rightarrow> nat \<Rightarrow> (ssh_state \<times> kv list) option" where
  "ssh_request_step s0 buf len = do {
     let s = ssh_ensure_session s0;
     banner \<leftarrow> is_ssh_banner (Some buf) len;
     if banner then Some (s, ssh_kvs s ''requestNotSet'' ''responseNotSet'' False False False len 0)
     else do {
       t \<leftarrow> get_msg_type (Some buf) len;
       s1 \<leftarrow> ssh_request_update s buf len t;
       chan_data_len \<leftarrow> (if t = 94 then ssh_parse_channel_data_len buf (word_of_nat len) else Some 0);
       Some (s1, ssh_kvs s1 (ssh_request_enum_for_type t) ''responseNotSet'' (ssh_encrypted_now s1)
         False False len chan_data_len)
     }
   }"

definition ssh_build_request_pred_line ::
  "ssh_state \<Rightarrow> cptr \<Rightarrow> nat \<Rightarrow> string \<Rightarrow> nat \<Rightarrow> (ssh_state \<times> string) option" where
  "ssh_build_request_pred_line s buf len out out_sz = do {
     (s1, kvs) \<leftarrow> ssh_request_step s buf len;
     let line0 = snprintf out out_sz (render_kvs kvs);
     banner \<leftarrow> is_ssh_banner (Some buf) len;
     if banner then Some (s1, line0)
     else do {
       (m, line) \<leftarrow> append_packet_trace (g_msg_id s1) line0 out_sz buf len ''C2S'';
       Some (s1\<lparr>g_msg_id := m\<rparr>, line)
     }
   }"

definition ssh_response_update :: "ssh_state \<Rightarrow> nat \<Rightarrow> ssh_state" where
  "ssh_response_update s t = (if t = 21 then s\<lparr>g_seen_server_newkeys := True\<rparr> else s)"

definition ssh_response_step :: "ssh_state \<Rightarrow> cptr \<Rightarrow> nat \<Rightarrow> (ssh_state \<times> kv list) option" where
  "ssh_response_step s0 buf len = do {
     let s = ssh_ensure_session s0;
     banner \<leftarrow> is_ssh_banner (Some buf) len;
     if banner then Some (s, ssh_kvs s ''requestNotSet'' ''s2c_banner'' False False False len 0)
     else do {
       t \<leftarrow> get_msg_type (Some buf) len;
       let s1 = ssh_response_update s t;
       chan_data_len \<leftarrow> (if t = 94 then ssh_parse_channel_data_len buf (word_of_nat len) else Some 0);
       Some (s1, ssh_kvs s1 ''requestNotSet'' (ssh_response_enum_for_type t) (ssh_encrypted_now s1)
         (t = 31) (t = 31) len chan_data_len)
     }
   }"

definition ssh_build_response_pred_line ::
  "ssh_state \<Rightarrow> cptr \<Rightarrow> nat \<Rightarrow> string \<Rightarrow> nat \<Rightarrow> (ssh_state \<times> string) option" where
  "ssh_build_response_pred_line s buf len out out_sz = do {
     (s1, kvs) \<leftarrow> ssh_response_step s buf len;
     let line0 = snprintf out out_sz (render_kvs kvs);
     banner \<leftarrow> is_ssh_banner (Some buf) len;
     if banner then Some (s1, line0)
     else do {
       (m, line) \<leftarrow> append_packet_trace (g_msg_id s1) line0 out_sz buf len ''S2C'';
       Some (s1\<lparr>g_msg_id := m\<rparr>, line)
     }
   }"

section \<open>The readers\<close>

text \<open>
  An offset is in range when it is at most the length. With a length below \<open>2 ^ 31\<close> the sum
  \<open>off + 4\<close> of such an offset does not wrap, so four bytes can be read; the new offset of a
  string is in range by the very check that may have wrapped.
\<close>

definition buf_ok :: "cptr \<Rightarrow> 32 word \<Rightarrow> bool" where
  "buf_ok buf len \<longleftrightarrow> unat len < 2 ^ 31 \<and> unat len \<le> length buf"

lemma off_plus4:
  assumes "unat (len :: 32 word) < 2 ^ 31" and "off \<le> len" and "\<not> off + 4 > len"
  shows "unat off + 4 \<le> unat len" and "unat (off + 4) = unat off + 4"
proof -
  have le: "unat off \<le> unat len" using assms(2) by (simp add: word_le_nat_alt)
  then have small: "unat off + 4 < 2 ^ 32" using assms(1) by simp
  then show eq: "unat (off + 4) = unat off + 4"
    by (simp add: unat_word_ariths take_bit_nat_eq_self)
  then show "unat off + 4 \<le> unat len" using assms(3) by (simp add: not_less word_le_nat_alt)
qed

lemma read_u32_be_total:
  assumes "buf_ok buf len" and "off \<le> len"
  shows "read_u32_be buf len off = Some (if off + 4 > len then None
    else Some (off + 4, word_of_nat (be32 (buf ! unat off) (buf ! (unat off + 1))
           (buf ! (unat off + 2)) (buf ! (unat off + 3)))))"
  using off_plus4 [OF _ assms(2)] assms(1)
  by (auto simp: read_u32_be_def buf_ok_def)

lemma read_ssh_string_total:
  assumes "buf_ok buf len" and "off \<le> len"
  shows "\<exists>r. read_ssh_string buf len off = Some r
    \<and> (\<forall>off' s l. r = Some (off', s, l) \<longrightarrow> off' \<le> len \<and> s \<le> len \<and> off' = s + l)"
  using read_u32_be_total [OF assms]
  by (auto simp: read_ssh_string_def not_less)

lemma ssh_parse_userauth_method_total:
  assumes "buf_ok buf len"
  shows "\<exists>r. ssh_parse_userauth_method buf len = Some r"
proof (cases "len < 2")
  case False
  then have one: "1 \<le> len" by (simp add: word_le_nat_alt word_less_nat_alt)
  have last: "\<exists>r. map_option Some (memcmp_eq (drop (unat s) buf) ''none'') = Some r"
    if "off' \<le> len" "s \<le> len" "off' = s + 4" for off' s
    using off_plus4 [of len s] that assms by (auto simp: memcmp_eq_def buf_ok_def not_less)
  obtain r1 where r1: "read_ssh_string buf len 1 = Some r1"
    "\<And>off' s l. r1 = Some (off', s, l) \<Longrightarrow> off' \<le> len"
    using read_ssh_string_total [OF assms one] by blast
  have step: "\<exists>r. read_ssh_string buf len off = Some r
      \<and> (\<forall>off' s l. r = Some (off', s, l) \<longrightarrow> off' \<le> len \<and> s \<le> len \<and> off' = s + l)"
    if "off \<le> len" for off
    by (rule read_ssh_string_total [OF assms that])
  show ?thesis
  proof (cases r1)
    case (Some a1)
    obtain o1 s1 l1 where a1: "a1 = (o1, s1, l1)" by (cases a1)
    with r1 Some step [of o1] obtain r2 where r2: "read_ssh_string buf len o1 = Some r2"
      "\<And>off' s l. r2 = Some (off', s, l) \<Longrightarrow> off' \<le> len" by blast
    show ?thesis
    proof (cases r2)
      case (Some a2)
      obtain o2 s2 l2 where a2: "a2 = (o2, s2, l2)" by (cases a2)
      with r2 Some step [of o2] obtain r3 where r3: "read_ssh_string buf len o2 = Some r3"
        "\<And>off' s l. r3 = Some (off', s, l) \<Longrightarrow> off' \<le> len \<and> s \<le> len \<and> off' = s + l" by blast
      with last show ?thesis
        using False r1 r2 Some \<open>r1 = Some a1\<close> a1 a2
        by (cases r3) (auto simp: ssh_parse_userauth_method_def)
    qed (use False r1 r2 Some a1 in \<open>auto simp: ssh_parse_userauth_method_def\<close>)
  qed (use False r1 in \<open>auto simp: ssh_parse_userauth_method_def\<close>)
qed (simp add: ssh_parse_userauth_method_def)

text \<open>
  What the channel-data reader returns, over the nat value \<open>d\<close> of the length field: the length
  when the data fits, 0 when it does not, and a negative number when \<open>9 + d\<close> wraps around.
\<close>

definition data_len_field :: "cptr \<Rightarrow> nat" where
  "data_len_field buf = be32 (buf ! 5) (buf ! 6) (buf ! 7) (buf ! 8)"

lemma sint_of_nat32:
  assumes "d < 4294967296"
  shows "sint (word_of_nat d :: 32 word) = to_int32 (int d)"
  using assms by (simp add: signed_of_nat to_int32_def signed_take_bit_eq_take_bit_shift take_bit_eq_mod)

lemma ssh_channel_len_eq:
  assumes "len < 2 ^ 31" and "len \<le> length buf"
  shows "ssh_parse_channel_data_len buf (word_of_nat len) = Some (
    if len < 9 then 0
    else if 9 + data_len_field buf \<le> len then int (data_len_field buf)
    else if 2 ^ 32 \<le> 9 + data_len_field buf then int (data_len_field buf) - 2 ^ 32
    else 0)"
proof -
  let ?l = "word_of_nat len :: 32 word" and ?d = "data_len_field buf"
  have ul: "unat ?l = len" using assms(1) by (simp add: unat32_of_nat)
  have d: "?d < 4294967296" by (simp add: data_len_field_def)
  have ok: "buf_ok buf ?l" using assms ul by (simp add: buf_ok_def)
  have lt: "?l < 9 \<longleftrightarrow> len < 9" using ul by (simp add: word_less_nat_alt)
  show ?thesis
  proof (cases "len < 9")
    case False
    have le: "1 \<le> ?l" "5 \<le> ?l" "9 \<le> ?l" using False ul by (simp_all add: word_le_nat_alt)
    have r1: "\<exists>v. read_u32_be buf ?l 1 = Some (Some (5, v))"
      using read_u32_be_total [OF ok le(1)] le by (auto simp: not_less)
    have r2: "read_u32_be buf ?l 5 = Some (Some (9, word_of_nat ?d))"
      using read_u32_be_total [OF ok le(2)] le by (auto simp: not_less data_len_field_def)
    have ud: "unat (word_of_nat ?d :: 32 word) = ?d" using d by (simp add: unat32_of_nat)
    have sum: "unat (9 + word_of_nat ?d :: 32 word) = (9 + ?d) mod 4294967296"
      using ud by (simp add: unat_word_ariths)
    have gt: "9 + word_of_nat ?d > ?l \<longleftrightarrow> len < (9 + ?d) mod 4294967296"
      using ul sum by (simp add: word_less_nat_alt)
    have md: "(9 + ?d) mod 4294967296 = (if 4294967296 \<le> 9 + ?d then 9 + ?d - 4294967296 else 9 + ?d)"
      using d by (simp add: mod_if)
    have neg: "4294967296 \<le> 9 + ?d \<Longrightarrow> to_int32 (int ?d) = int ?d - 4294967296"
      using to_int32_wrap [of "int ?d"] d by simp
    show ?thesis
      using False lt r1 r2 gt md neg assms(1) d
      by (auto simp: ssh_parse_channel_data_len_def sint_of_nat32)
  qed (use lt in \<open>simp add: ssh_parse_channel_data_len_def\<close>)
qed

section \<open>The lines\<close>

definition ssh_keys :: "string list" where
  "ssh_keys = [''request'', ''response'', ''encrypted'', ''mac_ok'', ''hostkey_present'', ''sig_ok'',
     ''pkt_len'', ''pad_len'', ''chan_data_len'', ''auth_attempts'', ''is_auth_method_none'']"

lemma ssh_kvs_keys [simp]: "map fst (ssh_kvs s req resp e h g len c) = ssh_keys"
  by (simp add: ssh_kvs_def ssh_keys_def)

lemma ssh_keys_wf: "list_all wf_key ssh_keys"
  by code_simp

definition ssh_enum :: "string \<Rightarrow> bool" where
  "ssh_enum v \<longleftrightarrow> plain_str v \<and> length v \<le> 29"

lemma ssh_tables:
  "list_all ssh_enum (map snd ssh_request_table)" "list_all ssh_enum (map snd ssh_response_table)"
  "ssh_enum ''requestNotSet''" "ssh_enum ''responseNotSet''" "ssh_enum ''s2c_banner''"
  "ssh_enum ''true''" "ssh_enum ''-1''"
  by code_simp+

lemma map_of_enum: "list_all P (map snd tab) \<Longrightarrow> map_of tab k = Some e \<Longrightarrow> P e"
  by (force simp: list_all_iff dest!: map_of_SomeD)

lemma ssh_enum_for_type [simp]:
  "ssh_enum (ssh_request_enum_for_type t)" "ssh_enum (ssh_response_enum_for_type t)"
  using map_of_enum [OF ssh_tables(1)] map_of_enum [OF ssh_tables(2)] ssh_tables(3,4)
  by (auto simp: ssh_request_enum_for_type_def ssh_response_enum_for_type_def split: option.split)

lemma ssh_enum_values:
  "ssh_enum (bool_str b)" "- 2147483648 \<le> x \<Longrightarrow> x < 2147483648 \<Longrightarrow> ssh_enum (sdec x)"
  using length_bool_str [of b] length_sdec32 [of x] by (simp_all add: ssh_enum_def)

definition ssh_inv :: "ssh_state \<Rightarrow> bool" where
  "ssh_inv s \<longleftrightarrow> 0 \<le> g_auth_attempts s \<and> g_auth_attempts s < 2 ^ 31"

lemma ssh_line_kvs:
  assumes "ssh_inv s" and "ssh_enum req" and "ssh_enum resp" and "- 2147483648 \<le> c" and "c < 2147483648"
  shows "line_kvs (ssh_kvs s req resp e h g len c)"
    and "length (render_kvs (ssh_kvs s req resp e h g len c)) + 563 \<le> 2048"
proof -
  let ?kvs = "ssh_kvs s req resp e h g len c"
  have vals: "list_all ssh_enum (map snd ?kvs)"
    using assms to_int32_bounds [of "int len"] ssh_tables(6,7)
    by (simp add: ssh_kvs_def ssh_enum_values ssh_inv_def)
  show "line_kvs ?kvs"
    using vals ssh_keys_wf unfolding line_kvs_def wf_kvs_split ssh_kvs_keys
    by (auto simp: ssh_enum_def list_all_iff) (simp_all add: ssh_kvs_def islower_def bval_def)
  have "list_all (\<lambda>v. length v \<le> 29) (map snd ?kvs)"
    using vals by (auto simp: ssh_enum_def list_all_iff)
  from length_render_kvs_le [OF this] show "length (render_kvs ?kvs) + 563 \<le> 2048"
    by (simp add: ssh_keys_def) (simp add: ssh_kvs_def)
qed

section \<open>The steps\<close>

lemma ssh_channel_len_range:
  assumes "ssh_parse_channel_data_len buf len = Some v"
  shows "- 2147483648 \<le> v \<and> v < 2147483648"
proof -
  have "- 2147483648 \<le> sint (w :: 32 word) \<and> sint w < 2147483648" for w
    using sint_greater_eq [of w] sint_less [of w] by simp
  with assms show ?thesis
    by (fastforce simp: ssh_parse_channel_data_len_def bind_eq_Some_conv split: if_splits option.splits)
qed

lemma ssh_ensure_inv: "ssh_inv s \<Longrightarrow> ssh_inv (ssh_ensure_session s)"
  by (simp add: ssh_ensure_session_def ssh_predicate_reset_session_def ssh_inv_def)

lemma ssh_request_update_inv:
  "ssh_inv s \<Longrightarrow> ssh_request_update s buf len t = Some s' \<Longrightarrow> ssh_inv s'"
  by (auto simp: ssh_request_update_def Let_def ssh_inv_def bind_eq_Some_conv split: if_splits)

text \<open>What a step printed: one instance of the shared format over the new state.\<close>

definition ssh_printed :: "nat \<Rightarrow> ssh_state \<times> kv list \<Rightarrow> bool" where
  "ssh_printed len r \<longleftrightarrow> ssh_inv (fst r) \<and> (\<exists>req resp e h g c. snd r = ssh_kvs (fst r) req resp e h g len c
    \<and> ssh_enum req \<and> ssh_enum resp \<and> - 2147483648 \<le> c \<and> c < 2147483648)"

lemma ssh_printedI:
  "ssh_inv s \<Longrightarrow> ssh_enum req \<Longrightarrow> ssh_enum resp \<Longrightarrow> - 2147483648 \<le> c \<and> c < 2147483648 \<Longrightarrow>
   ssh_printed len (s, ssh_kvs s req resp e h g len c)"
  unfolding ssh_printed_def fst_conv snd_conv by blast

lemma chan_len_range:
  "(if b then ssh_parse_channel_data_len buf l else Some 0) = Some c \<Longrightarrow>
   - 2147483648 \<le> c \<and> c < 2147483648"
  using ssh_channel_len_range [of buf l c] by (auto split: if_splits)

lemma ssh_request_step_ok:
  assumes "ssh_inv s"
  shows "rets (ssh_printed len) (ssh_request_step s buf len)"
  unfolding ssh_request_step_def Let_def
  by (intro rets ssh_printedI)
    (auto intro: ssh_ensure_inv assms ssh_request_update_inv simp: ssh_tables chan_len_range)

lemma ssh_response_update_inv: "ssh_inv s \<Longrightarrow> ssh_inv (ssh_response_update s t)"
  by (simp add: ssh_response_update_def ssh_inv_def)

lemma ssh_response_step_ok:
  assumes "ssh_inv s"
  shows "rets (ssh_printed len) (ssh_response_step s buf len)"
  unfolding ssh_response_step_def Let_def
  by (intro rets ssh_printedI)
    (auto intro: ssh_ensure_inv assms ssh_response_update_inv simp: ssh_tables chan_len_range)

lemma ssh_printed_line:
  assumes "ssh_printed len (s, kvs)"
  shows "ssh_inv s" and "line_kvs kvs" and "length (render_kvs kvs) + 563 \<le> 2048" and "map fst kvs = ssh_keys"
  using assms ssh_line_kvs by (fastforce simp: ssh_printed_def)+

lemma ssh_banner_total: "len \<le> length buf \<Longrightarrow> \<exists>b. is_ssh_banner (Some buf) len = Some b"
  by (auto simp: is_ssh_banner_def memcmp_eq_def)

lemma get_msg_type_total: "len \<le> length buf \<Longrightarrow> \<exists>t. get_msg_type (Some buf) len = Some t"
  by (cases buf) (auto simp: get_msg_type_def)

lemma ssh_buf_ok: "len < 2 ^ 31 \<Longrightarrow> len \<le> length buf \<Longrightarrow> buf_ok buf (word_of_nat len)"
  by (simp add: buf_ok_def unat32_of_nat)

definition ssh_room :: "nat \<Rightarrow> ssh_state \<Rightarrow> bool" where
  "ssh_room n s \<longleftrightarrow> 0 \<le> g_auth_attempts s \<and> g_auth_attempts s + int n < 2 ^ 31"

lemma ssh_ensure_room: "ssh_room n s \<Longrightarrow> ssh_room n (ssh_ensure_session s)"
  by (simp add: ssh_ensure_session_def ssh_predicate_reset_session_def ssh_room_def)

lemma ssh_request_update_total:
  assumes "ssh_room (Suc n) s" and "len < 2 ^ 31" and "len \<le> length buf"
  shows "\<exists>s'. ssh_request_update s buf len t = Some s' \<and> ssh_room n s'"
  using ssh_parse_userauth_method_total [OF ssh_buf_ok [OF assms(2,3)]] assms(1)
  by (auto simp: ssh_request_update_def Let_def ssh_room_def cinc_def)

lemma ssh_request_step_total:
  assumes "ssh_room (Suc n) s" and "len < 2 ^ 31" and "len \<le> length buf"
  shows "\<exists>s' kvs. ssh_request_step s buf len = Some (s', kvs) \<and> ssh_room n s'"
proof -
  note r = ssh_ensure_room [OF assms(1)]
  then have "ssh_room n (ssh_ensure_session s)" by (simp add: ssh_room_def)
  moreover obtain b where "is_ssh_banner (Some buf) len = Some b" using ssh_banner_total [OF assms(3)] by blast
  moreover obtain t where "get_msg_type (Some buf) len = Some t" using get_msg_type_total [OF assms(3)] by blast
  moreover from ssh_request_update_total [OF r assms(2,3), of t] obtain s'
    where "ssh_request_update (ssh_ensure_session s) buf len t = Some s'" "ssh_room n s'" by blast
  ultimately show ?thesis
    using ssh_channel_len_eq [OF assms(2,3)] by (cases b) (auto simp: ssh_request_step_def Let_def)
qed

lemma ssh_response_step_total:
  assumes "ssh_room (Suc n) s" and "len < 2 ^ 31" and "len \<le> length buf"
  shows "\<exists>s' kvs. ssh_response_step s buf len = Some (s', kvs) \<and> ssh_room n s'"
proof -
  have "ssh_room n (ssh_ensure_session s)" using ssh_ensure_room [OF assms(1)] by (simp add: ssh_room_def)
  moreover obtain b where "is_ssh_banner (Some buf) len = Some b" using ssh_banner_total [OF assms(3)] by blast
  moreover obtain t where "get_msg_type (Some buf) len = Some t" using get_msg_type_total [OF assms(3)] by blast
  ultimately show ?thesis
    using ssh_channel_len_eq [OF assms(2,3)]
    by (cases b) (auto simp: ssh_response_step_def Let_def ssh_room_def ssh_response_update_def)
qed

definition ssh_traced :: "cptr \<Rightarrow> nat \<Rightarrow> bool" where
  "ssh_traced buf len \<longleftrightarrow> is_ssh_banner (Some buf) len \<noteq> Some True"

lemma ssh_builder_shape:
  "(do { (s1, kvs) \<leftarrow> ssh_request_step s buf len;
         banner \<leftarrow> is_ssh_banner (Some buf) len;
         if banner then f s1 kvs else g s1 kvs })
   = (do { (s1, kvs) \<leftarrow> ssh_request_step s buf len; if ssh_traced buf len then g s1 kvs else f s1 kvs })"
  "(do { (s1, kvs) \<leftarrow> ssh_response_step s buf len;
         banner \<leftarrow> is_ssh_banner (Some buf) len;
         if banner then f s1 kvs else g s1 kvs })
   = (do { (s1, kvs) \<leftarrow> ssh_response_step s buf len; if ssh_traced buf len then g s1 kvs else f s1 kvs })"
  by (cases "is_ssh_banner (Some buf) len";
      simp add: ssh_request_step_def ssh_response_step_def ssh_traced_def Let_def split: if_splits)+

interpretation ssh: traced_adapter ssh_predicate_reset_session ssh_request_step ssh_response_step
  ssh_build_request_pred_line ssh_build_response_pred_line ssh_traced g_msg_id
  "\<lambda>m. g_msg_id_update (\<lambda>_. m)" ssh_inv ssh_room "\<lambda>_. True"
proof unfold_locales
  show "ssh_inv s' \<and> line_kvs kvs" if "ssh_inv s" "ssh_request_step s buf len = Some (s', kvs)"
    for s buf len s' kvs
    using rets_D [OF ssh_request_step_ok [OF that(1)] that(2)] ssh_printed_line by blast
  show "ssh_inv s' \<and> line_kvs kvs" if "ssh_inv s" "ssh_response_step s buf len = Some (s', kvs)"
    for s buf len s' kvs
    using rets_D [OF ssh_response_step_ok [OF that(1)] that(2)] ssh_printed_line by blast
  show "\<exists>s' kvs. ssh_request_step s buf len = Some (s', kvs) \<and> ssh_room n s'"
    if "ssh_room (Suc n) s" "len < 2 ^ 31" "len \<le> length buf" for s n buf len
    by (rule ssh_request_step_total [OF that])
  show "\<exists>s' kvs. ssh_response_step s buf len = Some (s', kvs) \<and> ssh_room n s'"
    if "ssh_room (Suc n) s" "len < 2 ^ 31" "len \<le> length buf" for s n buf len
    by (rule ssh_response_step_total [OF that])
qed (auto simp: ssh_build_request_pred_line_def ssh_build_response_pred_line_def ssh_builder_shape Let_def
    ssh_predicate_reset_session_def ssh_inv_def ssh_room_def)

section \<open>Histories\<close>

text \<open>
  A session as the fuzzer drives it: the messages in order, each with its direction, from a
  freshly reset adapter.
\<close>

fun ssh_run :: "ssh_state \<Rightarrow> (bool \<times> byte list) list \<Rightarrow> ssh_state option" where
  "ssh_run s [] = Some s"
| "ssh_run s ((c2s, m) # evs) = do {
     (s1, line) \<leftarrow> (if c2s then ssh_build_request_pred_line s (m @ [NUL]) (length m) [] 2048
                   else ssh_build_response_pred_line s (m @ [NUL]) (length m) [] 2048);
     ssh_run s1 evs
   }"

definition first_is :: "nat \<Rightarrow> byte list \<Rightarrow> bool" where
  "first_is t m \<longleftrightarrow> m \<noteq> [] \<and> bval (hd m) = t"

lemma get_msg_type_first:
  "get_msg_type (Some (m @ p)) (length m) = Some (if m = [] then 0 else bval (hd m))"
  by (cases m) (auto simp: get_msg_type_def)

lemma banner_first: "is_ssh_banner (Some (m @ p)) (length m) = Some True \<Longrightarrow> m \<noteq> [] \<and> bval (hd m) = 83"
  by (cases m) (auto simp: is_ssh_banner_def memcmp_eq_def bval_def split: if_splits)

definition ssh_view :: "ssh_state \<Rightarrow> bool \<times> bool \<times> bool \<times> int" where
  "ssh_view s = (g_session_initialized s, g_seen_client_newkeys s, g_seen_server_newkeys s, g_auth_attempts s)"

lemma ssh_view_msg_id [simp]: "ssh_view (s\<lparr>g_msg_id := x\<rparr>) = ssh_view s"
  by (simp add: ssh_view_def)

lemma ssh_request_update_view:
  "rets (\<lambda>s'. ssh_view s' = (g_session_initialized s, g_seen_client_newkeys s \<or> t = 21,
       g_seen_server_newkeys s, g_auth_attempts s + (if t = 50 then 1 else 0)))
     (ssh_request_update s buf len t)"
  unfolding ssh_request_update_def Let_def by (intro rets) (auto simp: ssh_view_def)

lemma ssh_request_view:
  assumes "g_session_initialized s"
  shows "rets (\<lambda>(s', kvs). ssh_view s' = (True, g_seen_client_newkeys s \<or> first_is 21 m,
      g_seen_server_newkeys s, g_auth_attempts s + (if first_is 50 m then 1 else 0)))
    (ssh_request_step s (m @ p) (length m))"
proof -
  have e: "ssh_ensure_session s = s" using assms by (simp add: ssh_ensure_session_def)
  show ?thesis
    unfolding ssh_request_step_def Let_def e
    using assms
    by (intro rets)
      (auto simp: ssh_view_def first_is_def get_msg_type_first
        dest!: banner_first rets_D [OF ssh_request_update_view] split: if_split_asm)
qed

lemma ssh_response_view:
  assumes "g_session_initialized s"
  shows "rets (\<lambda>(s', kvs). ssh_view s' = (True, g_seen_client_newkeys s,
      g_seen_server_newkeys s \<or> first_is 21 m, g_auth_attempts s))
    (ssh_response_step s (m @ p) (length m))"
proof -
  have e: "ssh_ensure_session s = s" using assms by (simp add: ssh_ensure_session_def)
  show ?thesis
    unfolding ssh_response_step_def Let_def e
    using assms
    by (intro rets)
      (auto simp: ssh_view_def first_is_def ssh_response_update_def get_msg_type_first
        dest!: banner_first split: if_split_asm)
qed

lemma ssh_build_view:
  assumes "g_session_initialized s"
  shows "rets (\<lambda>(s', line). ssh_view s' = (True, g_seen_client_newkeys s \<or> first_is 21 m,
        g_seen_server_newkeys s, g_auth_attempts s + (if first_is 50 m then 1 else 0)))
      (ssh_build_request_pred_line s (m @ p) (length m) out sz)"
    and "rets (\<lambda>(s', line). ssh_view s' = (True, g_seen_client_newkeys s,
        g_seen_server_newkeys s \<or> first_is 21 m, g_auth_attempts s))
      (ssh_build_response_pred_line s (m @ p) (length m) out sz)"
  unfolding ssh_build_request_pred_line_def ssh_build_response_pred_line_def Let_def
  using rets_D [OF ssh_request_view [OF assms]] rets_D [OF ssh_response_view [OF assms]]
  by (auto simp: rets_def bind_eq_Some_conv split: if_splits)

lemma ssh_run_view:
  assumes "g_session_initialized s" and "ssh_run s evs = Some s'"
  shows "ssh_view s' = (True,
      g_seen_client_newkeys s \<or> (\<exists>m. (True, m) \<in> set evs \<and> first_is 21 m),
      g_seen_server_newkeys s \<or> (\<exists>m. (False, m) \<in> set evs \<and> first_is 21 m),
      g_auth_attempts s + int (length (filter (\<lambda>(c2s, m). c2s \<and> first_is 50 m) evs)))"
  using assms
proof (induction evs arbitrary: s)
  case Nil
  then show ?case by (simp add: ssh_view_def)
next
  case (Cons ev evs)
  obtain c2s m where ev: "ev = (c2s, m)" by (cases ev)
  from Cons.prems ev obtain s1 line where
    b: "(if c2s then ssh_build_request_pred_line s (m @ [NUL]) (length m) [] 2048
         else ssh_build_response_pred_line s (m @ [NUL]) (length m) [] 2048) = Some (s1, line)"
    and r: "ssh_run s1 evs = Some s'" by (auto simp: bind_eq_Some_conv split: if_splits)
  from b ssh_build_view [OF Cons.prems(1), THEN rets_D]
  have v: "ssh_view s1 = (True, g_seen_client_newkeys s \<or> (c2s \<and> first_is 21 m),
      g_seen_server_newkeys s \<or> (\<not> c2s \<and> first_is 21 m),
      g_auth_attempts s + (if c2s \<and> first_is 50 m then 1 else 0))"
    by (fastforce split: if_splits)
  then have "g_session_initialized s1" by (simp add: ssh_view_def)
  from Cons.IH [OF this r] v ev show ?case by (auto simp: ssh_view_def)
qed

lemma ssh_run_total:
  assumes "ssh_inv s" and "ssh_room (length evs) s" and "list_all (\<lambda>(c2s, m). length m < 2 ^ 31) evs"
  shows "\<exists>s'. ssh_run s evs = Some s'"
  using assms
proof (induction evs arbitrary: s)
  case (Cons ev evs)
  obtain c2s m where ev: "ev = (c2s, m)" by (cases ev)
  have sz: "length m < 2 ^ 31" and rm: "ssh_room (Suc (length evs)) s" using Cons.prems ev by simp_all
  obtain s1 line where b: "(if c2s then ssh_build_request_pred_line s (m @ [NUL]) (length m) [] 2048
      else ssh_build_response_pred_line s (m @ [NUL]) (length m) [] 2048) = Some (s1, line)"
    "ssh_room (length evs) s1"
    using ssh.req_total [OF Cons.prems(1) rm sz, of "m @ [NUL]" 2048 NUL "[]"]
      ssh.resp_total [OF Cons.prems(1) rm sz, of "m @ [NUL]" 2048 "[]"] by (cases c2s) auto
  have "ssh_inv s1"
    using ssh.req_keeps [OF Cons.prems(1), of "length m" "m @ [NUL]" 2048 "[]" s1 line]
      ssh.resp_keeps [OF Cons.prems(1), of "length m" "m @ [NUL]" 2048 "[]" s1 line] b(1)
    by (auto split: if_splits)
  from Cons.IH [OF this b(2)] Cons.prems(3) ev b(1) show ?case by auto
qed simp

section \<open>Properties of the SSH adapter\<close>

text \<open>
  After a session reset the adapter gets through any banner and any sequence
  of fewer than \<open>2 ^ 30\<close> messages and replies. The field readers, whose offset checks add 32-bit
  values that may wrap around, never leave the buffer, and every line is a single data line.
\<close>

lemma ssh_session_lines:
  assumes "length xs < 2 ^ 30" and "list_all sized xs" and "length banner < 2 ^ 31"
  shows "\<exists>s' ls. send_over_network_m1 ssh_build_request_pred_line ssh_build_response_pred_line
      (ssh_predicate_reset_session s) banner xs = Some (s', ls) \<and> ssh_inv s' \<and> list_all data_line ls"
proof -
  have "ssh_room (Suc (2 * length xs)) (ssh_predicate_reset_session s)" "ssh_inv (ssh_predicate_reset_session s)"
    using assms(1) by (simp_all add: ssh_room_def ssh_inv_def ssh_predicate_reset_session_def)
  from ssh.send_over_network_ok [OF TrueI this(2,1) assms(2,3)] show ?thesis
    by (simp add: list_all_iff)
qed

lemma ssh_session_lines_sample:
  "\<exists>s' ls. send_over_network_m1 ssh_build_request_pred_line ssh_build_response_pred_line
     (ssh_predicate_reset_session ssh_init) ''SSH-2.0-x''
     [\<lparr>mdata = [CHR 0x32, CHR 0xFF, CHR 0xFF, CHR 0xFF, CHR 0xFF], sent_all = True, received = None\<rparr>]
     = Some (s', ls) \<and> ssh_inv s' \<and> list_all data_line ls"
  using ssh_session_lines [of "[\<lparr>mdata = [CHR 0x32, CHR 0xFF, CHR 0xFF, CHR 0xFF, CHR 0xFF],
    sent_all = True, received = None\<rparr>]" "''SSH-2.0-x''" ssh_init]
  by (simp add: sized_def)

text \<open>
  C17 (invariant over histories): after any session the flags and the counter are a function of the
  messages: a side's NEWKEYS flag says that this side sent a message of type 21, and
  \<open>g_auth_attempts\<close> counts the client messages of type 50. Banners change neither, so
  \<open>encrypted\<close> is true exactly after NEWKEYS in both directions.
\<close>

theorem ssh_run_history:
  assumes "length evs < 2 ^ 31" and "list_all (\<lambda>(c2s, m). length m < 2 ^ 31) evs"
  shows "\<exists>s'. ssh_run (ssh_predicate_reset_session s) evs = Some s'
    \<and> (g_seen_client_newkeys s' \<longleftrightarrow> (\<exists>m. (True, m) \<in> set evs \<and> first_is 21 m))
    \<and> (g_seen_server_newkeys s' \<longleftrightarrow> (\<exists>m. (False, m) \<in> set evs \<and> first_is 21 m))
    \<and> (ssh_encrypted_now s' \<longleftrightarrow> g_seen_client_newkeys s' \<and> g_seen_server_newkeys s')
    \<and> g_auth_attempts s' = int (length (filter (\<lambda>(c2s, m). c2s \<and> first_is 50 m) evs))"
proof -
  let ?s = "ssh_predicate_reset_session s"
  have i: "g_session_initialized ?s" by (simp add: ssh_predicate_reset_session_def)
  have "ssh_inv ?s" "ssh_room (length evs) ?s"
    using assms(1) by (simp_all add: ssh_predicate_reset_session_def ssh_inv_def ssh_room_def)
  from ssh_run_total [OF this assms(2)] obtain s' where r: "ssh_run ?s evs = Some s'" by blast
  with ssh_run_view [OF i r] show ?thesis
    by (auto simp: ssh_view_def ssh_encrypted_now_def ssh_predicate_reset_session_def)
qed

theorem ssh_run_history_witness:
  "\<exists>s'. ssh_run (ssh_predicate_reset_session ssh_init) [(False, ''SSH-2.0-x''), (True, [CHR 21]), (True, [CHR 50])] = Some s'
    \<and> g_seen_client_newkeys s' \<and> \<not> g_seen_server_newkeys s' \<and> \<not> ssh_encrypted_now s' \<and> g_auth_attempts s' = 1"
  using ssh_run_history [of "[(False, ''SSH-2.0-x''), (True, [CHR 21]), (True, [CHR 50])]" ssh_init]
  by (auto simp: first_is_def bval_def)

text \<open>
  What \<open>ssh_parse_channel_data_len\<close> returns, for every buffer below 2 GiB. A length
  field that fits is returned and one that does not gives 0, except that the nine largest 32-bit
  values wrap around in the check \<open>off + data_len > len\<close> and come back as negative lengths.
\<close>

lemma ssh_channel_data_len_exact:
  assumes "len < 2 ^ 31" and "len \<le> length buf"
  shows "ssh_parse_channel_data_len buf (word_of_nat len) = Some (
    if len < 9 then 0
    else if 9 + data_len_field buf \<le> len then int (data_len_field buf)
    else if 2 ^ 32 \<le> 9 + data_len_field buf then int (data_len_field buf) - 2 ^ 32
    else 0)"
  by (rule ssh_channel_len_eq [OF assms])

lemma ssh_channel_data_len_exact_sample:
  "ssh_parse_channel_data_len [CHR 0x5E, NUL, NUL, NUL, NUL, CHR 0xFF, CHR 0xFF, CHR 0xFF, CHR 0xFF] (word_of_nat 9) = Some (- 1)"
  using ssh_channel_data_len_exact [of 9 "[CHR 0x5E, NUL, NUL, NUL, NUL, CHR 0xFF, CHR 0xFF, CHR 0xFF, CHR 0xFF]"]
  by (simp add: data_len_field_def be32_eq bval_def)

end
