(* ===== verification/Dns_Adapter.thy ===== *)
theory Dns_Adapter
  imports Adapter
begin

text \<open>
  The DNS predicate adapter (\<open>SNPSFuzzer/monitor-src/dnsmasq_predicate_adapter.c\<close>): the history of
  tracked queries, the reader of the fixed header and of the first question, and the builder both
  directions share. The lemmas show that the history holds exactly the last 256 queries, that the
  name reader stays inside the packet and finds the end of every encoded name, and that a line
  says which side sent the packet whatever its bytes are.
\<close>

section \<open>State\<close>

record query_record_t =
  query_id :: nat
  qtype :: nat
  valid :: bool
  timestamp :: nat

abbreviation MAX_TRACKED_QUERIES :: nat where "MAX_TRACKED_QUERIES \<equiv> 256"

record dns_state =
  g_query_history :: "query_record_t list"
  g_query_count :: nat
  g_session_initialized :: bool
  g_cache_hits :: "64 word"
  g_upstream_queries :: "64 word"

definition zero_record :: query_record_t where
  "zero_record = \<lparr>query_id = 0, qtype = 0, valid = False, timestamp = 0\<rparr>"

definition dns_init :: dns_state where
  "dns_init = \<lparr>g_query_history = replicate MAX_TRACKED_QUERIES zero_record, g_query_count = 0,
     g_session_initialized = False, g_cache_hits = 0, g_upstream_queries = 0\<rparr>"

definition dnsmasq_predicate_reset_session :: "dns_state \<Rightarrow> dns_state" where
  "dnsmasq_predicate_reset_session s =
     \<lparr>g_query_history = replicate MAX_TRACKED_QUERIES zero_record, g_query_count = 0,
      g_session_initialized = True, g_cache_hits = 0, g_upstream_queries = 0\<rparr>"

section \<open>Reading a packet\<close>

definition read_u16_be :: "cptr \<Rightarrow> nat option" where
  "read_u16_be p = do { a \<leftarrow> rd p 0; b \<leftarrow> rd p 1; Some (be16 a b) }"

record dns_header =
  h_id :: nat
  h_flags :: nat
  h_qdcount :: nat
  h_ancount :: nat
  h_nscount :: nat
  h_arcount :: nat

text \<open>\<open>Some None\<close> is the result false; every caller passes all six output pointers.\<close>

definition dns_parse_header :: "cptr option \<Rightarrow> nat \<Rightarrow> dns_header option option" where
  "dns_parse_header buf len = (case buf of
     None \<Rightarrow> Some None
   | Some p \<Rightarrow> if len < 12 then Some None
     else do {
       i \<leftarrow> read_u16_be p;
       fl \<leftarrow> read_u16_be (drop 2 p);
       qd \<leftarrow> read_u16_be (drop 4 p);
       an \<leftarrow> read_u16_be (drop 6 p);
       ns \<leftarrow> read_u16_be (drop 8 p);
       ar \<leftarrow> read_u16_be (drop 10 p);
       Some (Some \<lparr>h_id = i, h_flags = fl, h_qdcount = qd, h_ancount = an, h_nscount = ns, h_arcount = ar\<rparr>)
     })"

text \<open>
  The loop of \<open>dns_skip_name\<close>. Positions are \<open>unsigned int\<close>. The code bounds a number of \<open>jumps\<close>
  that no path increments.
\<close>

partial_function (option) dns_skip_loop :: "cptr \<Rightarrow> 32 word \<Rightarrow> 32 word \<Rightarrow> nat \<Rightarrow> 32 word option" where [code]:
  "dns_skip_loop buf len pos jumps =
     (if pos < len \<and> jumps < 5 then do {
        c \<leftarrow> rd buf (unat pos);
        if bval c = 0 then Some (pos + 1)
        else if bval c AND 192 = 192 then (if pos + 1 \<ge> len then Some 0 else Some (pos + 2))
        else if bval c AND 192 = 0 then dns_skip_loop buf len (pos + (1 + word_of_nat (bval c))) jumps
        else Some 0
      } else Some 0)"

definition dns_skip_name :: "cptr \<Rightarrow> 32 word \<Rightarrow> 32 word \<Rightarrow> 32 word option" where
  "dns_skip_name buf len offset = dns_skip_loop buf len offset 0"

definition dns_parse_first_question :: "cptr \<Rightarrow> 32 word \<Rightarrow> nat \<Rightarrow> nat option" where
  "dns_parse_first_question buf len qdcount =
     (if qdcount = 0 then Some 0
      else do {
        pos \<leftarrow> dns_skip_name buf len 12;
        if pos = 0 \<or> pos + 4 > len then Some 0
        else read_u16_be (drop (unat pos) buf)
      })"

section \<open>The query history\<close>

text \<open>\<open>memmove(&h[0], &h[1], 255 * sizeof)\<close> leaves the last element in place.\<close>

definition shift_history :: "query_record_t list \<Rightarrow> query_record_t list" where
  "shift_history h = tl h @ [last h]"

definition track_query :: "dns_state \<Rightarrow> nat \<Rightarrow> nat \<Rightarrow> dns_state option" where
  "track_query s qid qt = (
     let s1 = (if g_query_count s \<ge> MAX_TRACKED_QUERIES
               then s\<lparr>g_query_history := shift_history (g_query_history s),
                      g_query_count := MAX_TRACKED_QUERIES - 1\<rparr>
               else s) in
     if g_query_count s1 < length (g_query_history s1)
     then Some (s1\<lparr>g_query_history := (g_query_history s1)[g_query_count s1 :=
                    \<lparr>query_id = qid, qtype = qt, valid = True, timestamp = 0\<rparr>],
                  g_query_count := g_query_count s1 + 1\<rparr>)
     else None)"

fun find_from :: "query_record_t list \<Rightarrow> nat \<Rightarrow> nat \<Rightarrow> nat \<Rightarrow> bool option" where
  "find_from h 0 qid qt = Some False"
| "find_from [] (Suc n) qid qt = None"
| "find_from (r # h) (Suc n) qid qt =
     (if valid r \<and> query_id r = qid \<and> qtype r = qt then Some True else find_from h n qid qt)"

text \<open>The output parameter always equals the type that was asked for.\<close>

definition find_matching_query :: "dns_state \<Rightarrow> nat \<Rightarrow> nat \<Rightarrow> bool option" where
  "find_matching_query s qid response_qtype =
     find_from (g_query_history s) (g_query_count s) qid response_qtype"

section \<open>Names of codes\<close>

definition qtype_to_string :: "nat \<Rightarrow> string" where
  "qtype_to_string q = (case map_of [(1, ''A''), (28, ''AAAA''), (15, ''MX''), (2, ''NS''), (5, ''CNAME''),
     (12, ''PTR''), (6, ''SOA''), (16, ''TXT''), (255, ''ANY'')] q of
     Some n \<Rightarrow> n | None \<Rightarrow> ''QTYPE_UNKNOWN'')"

definition opcode_to_string :: "nat \<Rightarrow> string" where
  "opcode_to_string q = (case map_of [(0, ''QUERY''), (1, ''IQUERY''), (2, ''STATUS'')] q of
     Some n \<Rightarrow> n | None \<Rightarrow> ''OPCODE_UNKNOWN'')"

definition rcode_to_string :: "nat \<Rightarrow> string" where
  "rcode_to_string q = (case map_of [(0, ''NOERROR''), (1, ''FORMERR''), (2, ''SERVFAIL''),
     (3, ''NXDOMAIN''), (4, ''NOTIMP''), (5, ''REFUSED'')] q of
     Some n \<Rightarrow> n | None \<Rightarrow> ''RCODE_UNKNOWN'')"

section \<open>Builders\<close>

datatype dns_direction = DNS_DIR_C2S | DNS_DIR_S2C

definition default_error_kvs :: "bool \<Rightarrow> bool \<Rightarrow> kv list" where
  "default_error_kvs force_query force_response = [
     (''message_type'', ''messageNotSet''), (''opcode'', ''OPCODE_UNKNOWN''),
     (''rcode'', ''RCODE_UNKNOWN''), (''qtype'', ''QTYPE_UNKNOWN''),
     (''is_query'', bool_str force_query), (''is_response'', bool_str force_response),
     (''aa'', ''false''), (''tc'', ''false''), (''rd'', ''false''), (''ra'', ''false''),
     (''ad'', ''false''), (''cd'', ''false''),
     (''qdcount'', ''-1''), (''ancount'', ''-1''), (''nscount'', ''-1''), (''arcount'', ''-1''),
     (''response_valid'', ''false''), (''dnssec_ok'', ''false''),
     (''query_id'', ''-1''), (''id_match'', ''false''),
     (''cache_hit'', ''false''), (''upstream_queried'', ''false'')]"

definition dns_ensure_session :: "dns_state \<Rightarrow> dns_state" where
  "dns_ensure_session s = (if \<not> g_session_initialized s then dnsmasq_predicate_reset_session s else s)"

text \<open>The direction-specific part: the new state, \<open>id_match\<close>, \<open>cache_hit\<close> and \<open>upstream_queried\<close>.\<close>

definition dns_direction_update ::
  "dns_state \<Rightarrow> dns_direction \<Rightarrow> dns_header \<Rightarrow> nat \<Rightarrow> (dns_state \<times> bool \<times> bool \<times> bool) option" where
  "dns_direction_update s direction h qt = (
     if direction = DNS_DIR_C2S then do {
       s1 \<leftarrow> track_query s (h_id h) qt;
       Some (s1\<lparr>g_upstream_queries := g_upstream_queries s1 + 1\<rparr>, False, False, True)
     } else do {
       id_match \<leftarrow> find_matching_query s (h_id h) qt;
       if id_match \<and> h_ancount h > 0 \<and> h_flags h AND 15 = 0 then
         (if h_id h mod 3 = 0 then Some (s\<lparr>g_cache_hits := g_cache_hits s + 1\<rparr>, id_match, True, False)
          else Some (s, id_match, False, True))
       else Some (s, id_match, False, False)
     })"

definition dns_kvs :: "dns_direction \<Rightarrow> dns_header \<Rightarrow> nat \<Rightarrow> bool \<Rightarrow> bool \<Rightarrow> bool \<Rightarrow> kv list" where
  "dns_kvs direction h qt id_match cache_hit upstream_queried = (
     let flags = h_flags h;
         is_query = (direction = DNS_DIR_C2S);
         is_response = (direction = DNS_DIR_S2C);
         rcode = flags AND 15;
         ad = (flags AND 32 \<noteq> 0) in [
     (''message_type'', if is_query then ''query'' else ''response''),
     (''opcode'', opcode_to_string (drop_bit 11 flags AND 15)),
     (''rcode'', rcode_to_string rcode), (''qtype'', qtype_to_string qt),
     (''is_query'', bool_str is_query), (''is_response'', bool_str is_response),
     (''aa'', bool_str (flags AND 1024 \<noteq> 0)), (''tc'', bool_str (flags AND 512 \<noteq> 0)),
     (''rd'', bool_str (flags AND 256 \<noteq> 0)), (''ra'', bool_str (flags AND 128 \<noteq> 0)),
     (''ad'', bool_str ad), (''cd'', bool_str (flags AND 16 \<noteq> 0)),
     (''qdcount'', udec (h_qdcount h)), (''ancount'', udec (h_ancount h)),
     (''nscount'', udec (h_nscount h)), (''arcount'', udec (h_arcount h)),
     (''response_valid'', bool_str (is_response \<and> (rcode = 0 \<or> rcode = 3))),
     (''dnssec_ok'', bool_str ad),
     (''query_id'', udec (h_id h)), (''id_match'', bool_str id_match),
     (''cache_hit'', bool_str cache_hit), (''upstream_queried'', bool_str upstream_queried)])"

definition dns_step :: "dns_direction \<Rightarrow> dns_state \<Rightarrow> cptr option \<Rightarrow> nat \<Rightarrow> (dns_state \<times> kv list) option" where
  "dns_step direction s0 buf len = (
     let s = dns_ensure_session s0;
         err = default_error_kvs (direction = DNS_DIR_C2S) (direction = DNS_DIR_S2C) in
     case buf of
       None \<Rightarrow> Some (s, err)
     | Some p \<Rightarrow>
         if len < 12 then Some (s, err)
         else do {
           hdr \<leftarrow> dns_parse_header buf len;
           (case hdr of
             None \<Rightarrow> Some (s, err)
           | Some h \<Rightarrow> do {
               qt \<leftarrow> dns_parse_first_question p (word_of_nat len) (h_qdcount h);
               (s1, id_match, cache_hit, upstream_queried) \<leftarrow> dns_direction_update s direction h qt;
               Some (s1, dns_kvs direction h qt id_match cache_hit upstream_queried)
             })
         })"

definition dnsmasq_build_pred_line_internal ::
  "dns_state \<Rightarrow> cptr option \<Rightarrow> nat \<Rightarrow> string \<Rightarrow> nat \<Rightarrow> dns_direction \<Rightarrow> (dns_state \<times> string) option" where
  "dnsmasq_build_pred_line_internal s buf len out out_sz direction =
     (if out_sz = 0 then Some (dns_ensure_session s, snprintf out out_sz
        (render_kvs (default_error_kvs (direction = DNS_DIR_C2S) (direction = DNS_DIR_S2C))))
      else do {
        (s1, kvs) \<leftarrow> dns_step direction s buf len;
        Some (s1, snprintf out out_sz (render_kvs kvs))
      })"

definition dnsmasq_build_request_pred_line ::
  "dns_state \<Rightarrow> cptr option \<Rightarrow> nat \<Rightarrow> string \<Rightarrow> nat \<Rightarrow> (dns_state \<times> string) option" where
  "dnsmasq_build_request_pred_line s buf len out out_sz =
     dnsmasq_build_pred_line_internal s buf len out out_sz DNS_DIR_C2S"

definition dnsmasq_build_response_pred_line ::
  "dns_state \<Rightarrow> cptr option \<Rightarrow> nat \<Rightarrow> string \<Rightarrow> nat \<Rightarrow> (dns_state \<times> string) option" where
  "dnsmasq_build_response_pred_line s buf len out out_sz =
     dnsmasq_build_pred_line_internal s buf len out out_sz DNS_DIR_S2C"

text \<open>The wrapper that is kept for old callers guesses the direction from the QR bit.\<close>

definition dnsmasq_build_pred_line ::
  "dns_state \<Rightarrow> cptr option \<Rightarrow> nat \<Rightarrow> string \<Rightarrow> nat \<Rightarrow> (dns_state \<times> string) option" where
  "dnsmasq_build_pred_line s0 buf len out out_sz = (
     let s = dns_ensure_session s0 in
     case buf of
       Some p \<Rightarrow>
         if len \<ge> 12 then do {
           flags \<leftarrow> read_u16_be (drop 2 p);
           if flags AND 32768 \<noteq> 0
           then dnsmasq_build_pred_line_internal s buf len out out_sz DNS_DIR_S2C
           else dnsmasq_build_pred_line_internal s buf len out out_sz DNS_DIR_C2S
         } else dnsmasq_build_pred_line_internal s buf len out out_sz DNS_DIR_C2S
     | None \<Rightarrow> dnsmasq_build_pred_line_internal s buf len out out_sz DNS_DIR_C2S)"

section \<open>The history is the last 256 queries\<close>

definition dns_inv :: "dns_state \<Rightarrow> bool" where
  "dns_inv s \<longleftrightarrow> length (g_query_history s) = MAX_TRACKED_QUERIES \<and> g_query_count s \<le> MAX_TRACKED_QUERIES
     \<and> list_all valid (take (g_query_count s) (g_query_history s))"

text \<open>The abstract content, and what an unbounded log would leave after forgetting old entries.\<close>

definition tracked :: "dns_state \<Rightarrow> (nat \<times> nat) list" where
  "tracked s = map (\<lambda>r. (query_id r, qtype r)) (take (g_query_count s) (g_query_history s))"

definition last_tracked :: "'a list \<Rightarrow> 'a list" where
  "last_tracked xs = drop (length xs - MAX_TRACKED_QUERIES) xs"

lemma last_tracked_snoc: "last_tracked (last_tracked xs @ [x]) = last_tracked (xs @ [x])"
proof (cases "length xs < 256")
  case False
  then have "length xs - (length xs - 256 + 255) + (length xs - 256) = length xs - 255" by simp
  with False show ?thesis by (simp add: last_tracked_def)
qed (simp add: last_tracked_def)

lemma dns_inv_reset: "dns_inv (dnsmasq_predicate_reset_session s)" "tracked (dnsmasq_predicate_reset_session s) = []"
  by (simp_all add: dns_inv_def tracked_def dnsmasq_predicate_reset_session_def)

lemma dns_inv_init: "dns_inv dns_init"
  by (simp add: dns_inv_def dns_init_def)

lemma dns_ensure_inv: "dns_inv s \<Longrightarrow> dns_inv (dns_ensure_session s)"
  by (simp add: dns_ensure_session_def dns_inv_reset)

lemma take_snoc_update: "n < length xs \<Longrightarrow> take (Suc n) (xs[n := x]) = take n xs @ [x]"
  by (simp add: take_Suc_conv_app_nth)

lemma track_query_refines:
  assumes "dns_inv s"
  shows "\<exists>s'. track_query s qid qt = Some s' \<and> dns_inv s' \<and> tracked s' = last_tracked (tracked s @ [(qid, qt)])"
proof (cases "g_query_count s < 256")
  case True
  then show ?thesis
    using assms take_snoc_update [of "g_query_count s" "g_query_history s"]
    by (auto simp: track_query_def Let_def dns_inv_def tracked_def last_tracked_def)
next
  case False
  let ?h = "g_query_history s"
  have h: "length ?h = 256" "g_query_count s = 256" using assms False by (simp_all add: dns_inv_def)
  then have val: "list_all valid ?h" using assms by (simp add: dns_inv_def)
  have t: "take 256 ((shift_history ?h)[255 := r]) = tl ?h @ [r]" for r
    using take_snoc_update [of 255 "shift_history ?h" r] h by (simp add: shift_history_def)
  have l: "length (shift_history ?h) = 256" using h by (simp add: shift_history_def)
  have v: "list_all valid (tl ?h)" using val by (cases ?h) auto
  show ?thesis
    using h l t v by (auto simp: track_query_def Let_def dns_inv_def tracked_def last_tracked_def map_tl drop_Suc)
qed

lemma find_from_eq:
  "n \<le> length h \<Longrightarrow> find_from h n qid qt = Some (\<exists>r \<in> set (take n h). valid r \<and> query_id r = qid \<and> qtype r = qt)"
  by (induction h n qid qt rule: find_from.induct) auto

lemma find_matching_query_eq:
  assumes "dns_inv s"
  shows "find_matching_query s qid qt = Some ((qid, qt) \<in> set (tracked s))"
  using assms find_from_eq [of "g_query_count s" "g_query_history s" qid qt]
  by (auto simp: find_matching_query_def dns_inv_def tracked_def list_all_iff)

fun track_all :: "dns_state \<Rightarrow> (nat \<times> nat) list \<Rightarrow> dns_state option" where
  "track_all s [] = Some s"
| "track_all s ((qid, qt) # qs) = track_query s qid qt \<bind> (\<lambda>s'. track_all s' qs)"

lemma track_all_refines:
  assumes "dns_inv s" and "tracked s = last_tracked old"
  shows "\<exists>s'. track_all s qs = Some s' \<and> dns_inv s' \<and> tracked s' = last_tracked (old @ qs)"
  using assms
proof (induction s qs arbitrary: old rule: track_all.induct)
  case (2 s qid qt qs)
  from track_query_refines [OF "2.prems"(1), of qid qt] obtain s' where
    s': "track_query s qid qt = Some s'" "dns_inv s'" "tracked s' = last_tracked (old @ [(qid, qt)])"
    using "2.prems"(2) by (auto simp: last_tracked_snoc)
  from "2.IH" [OF s'] s'(1) show ?case by simp
qed simp

section \<open>The name reader\<close>

lemma small_label: "n < 64 \<Longrightarrow> n AND 192 = (0 :: nat)"
  using and_low [of n 6 3] by (simp add: push_bit_eq_mult ac_simps)

lemma pos_label: "unat (p :: 32 word) < 2147483648 \<Longrightarrow> unat (p + (1 + word_of_nat (bval c))) = unat p + 1 + bval c"
proof -
  assume p: "unat p < 2147483648"
  have c: "bval c < 256" "bval c < 4294967295" "bval c < 4294967296"
    using bval_less [of c] by linarith+
  have b: "unat (1 + word_of_nat (bval c) :: 32 word) = 1 + bval c"
    using c unat32_add [of 1 "word_of_nat (bval c)"] unat32_of_nat [of "bval c"] by simp
  moreover have "unat p + bval c < 4294967295" using p c(1) by linarith
  ultimately show ?thesis using unat32_add [of p "1 + word_of_nat (bval c)"] by simp
qed

lemma dns_skip_loop_range:
  assumes "unat len < 2 ^ 31" and "unat len \<le> length buf"
  shows "\<exists>r. dns_skip_loop buf len pos 0 = Some r \<and> (r = 0 \<or> pos < r \<and> r \<le> len)"
proof (induction "unat len - unat pos" arbitrary: pos rule: less_induct)
  case less
  show ?case
  proof (cases "pos < len")
    case True
    then have lt: "unat pos < unat len" by (simp add: word_less_nat_alt)
    have one: "unat (pos + 1) = unat pos + 1" and two: "unat (pos + 2) = unat pos + 2"
      using lt assms(1) unat32_add [of pos 1] unat32_add [of pos 2] by simp_all
    let ?c = "buf ! unat pos" and ?n = "pos + (1 + word_of_nat (bval (buf ! unat pos)))"
    have n: "unat ?n = unat pos + 1 + bval ?c" using lt assms(1) by (intro pos_label) simp
    have "unat len - unat ?n < unat len - unat pos" using n lt by linarith
    from less [OF this] obtain r where
      "dns_skip_loop buf len ?n 0 = Some r" "r = 0 \<or> ?n < r \<and> r \<le> len" by blast
    moreover have "pos < ?n" using n by (simp add: word_less_nat_alt)
    ultimately show ?thesis
      using True lt assms(2) one two
      by (subst dns_skip_loop.simps) (auto simp: word_less_nat_alt word_le_nat_alt)
  qed (subst dns_skip_loop.simps, simp)
qed

text \<open>Names as a sender encodes them: length-prefixed labels and a final zero.\<close>

definition enc_name :: "string list \<Rightarrow> byte list" where
  "enc_name labels = concat (map (\<lambda>l. char_of (length l) # l) labels) @ [NUL]"

definition wf_label :: "string \<Rightarrow> bool" where
  "wf_label l \<longleftrightarrow> 0 < length l \<and> length l \<le> 63"

lemma dns_skip_enc:
  assumes "list_all wf_label labels" and "buf = pre @ enc_name labels @ post"
    and "length pre + length (enc_name labels) \<le> len" and "len < 2 ^ 31"
  shows "dns_skip_loop buf (word_of_nat len) (word_of_nat (length pre)) 0
    = Some (word_of_nat (length pre + length (enc_name labels)))"
  using assms
proof (induction labels arbitrary: pre)
  case Nil
  then have "buf ! length pre = NUL" "length pre < length buf" by (simp_all add: enc_name_def)
  with Nil show ?case
    by (subst dns_skip_loop.simps)
      (auto simp: enc_name_def rd_def word_less_nat_alt unat32_of_nat bval_def)
next
  case (Cons l labels)
  let ?pre = "pre @ char_of (length l) # l"
  have buf: "buf = ?pre @ enc_name labels @ post" using Cons.prems(2) by (simp add: enc_name_def)
  have c: "buf ! length pre = char_of (length l)" "length pre < length buf"
    using Cons.prems(2) by (simp_all add: enc_name_def)
  have b: "bval (char_of (length l)) = length l"
    using Cons.prems(1) by (simp add: bval_def wf_label_def)
  have "dns_skip_loop buf (word_of_nat len) (word_of_nat (length ?pre)) 0
      = Some (word_of_nat (length ?pre + length (enc_name labels)))"
    using Cons.prems buf by (intro Cons.IH) (simp_all add: enc_name_def)
  moreover have "word_of_nat (length pre) + (1 + word_of_nat (length l)) = (word_of_nat (length ?pre) :: 32 word)"
    by simp
  moreover have "word_of_nat (length pre) < (word_of_nat len :: 32 word)" "unat (word_of_nat (length pre) :: 32 word) = length pre"
    using Cons.prems by (auto simp: word_less_nat_alt unat32_of_nat enc_name_def)
  ultimately show ?case
    using c b Cons.prems(1) small_label [of "length l"]
    by (subst dns_skip_loop.simps) (simp add: wf_label_def enc_name_def ac_simps)
qed

section \<open>The steps\<close>

lemma read_u16_be_eq: "1 < length p \<Longrightarrow> read_u16_be p = Some (be16 (p ! 0) (p ! 1))"
  by (cases p) (auto simp: read_u16_be_def rd_def)

definition wf_header :: "dns_header \<Rightarrow> bool" where
  "wf_header h \<longleftrightarrow> h_id h < 65536 \<and> h_flags h < 65536 \<and> h_qdcount h < 65536 \<and> h_ancount h < 65536
     \<and> h_nscount h < 65536 \<and> h_arcount h < 65536"

lemma read_u16_be_range: "rets (\<lambda>v. v < 65536) (read_u16_be p)"
  unfolding read_u16_be_def by (intro rets) simp

lemma dns_parse_header_wf: "dns_parse_header buf len = Some (Some h) \<Longrightarrow> wf_header h"
  by (auto simp: dns_parse_header_def wf_header_def bind_eq_Some_conv split: option.splits if_splits
      dest!: rets_D [OF read_u16_be_range])

lemma dns_parse_header_total:
  "12 \<le> len \<Longrightarrow> len \<le> length p \<Longrightarrow> \<exists>h. dns_parse_header (Some p) len = Some (Some h)"
  by (auto simp: dns_parse_header_def read_u16_be_eq)

lemma dns_first_question_total:
  assumes "len < 2 ^ 31" and "len \<le> length p"
  shows "\<exists>qt. dns_parse_first_question p (word_of_nat len) qd = Some qt"
proof -
  let ?l = "word_of_nat len :: 32 word"
  have l: "unat ?l = len" using assms(1) by (simp add: unat32_of_nat)
  from dns_skip_loop_range [of ?l p 12] l assms obtain r where
    r: "dns_skip_loop p ?l 12 0 = Some r" "r = 0 \<or> 12 < r \<and> r \<le> ?l" by auto
  show ?thesis
  proof (cases "r = 0 \<or> r + 4 > ?l")
    case False
    with r(2) have "r \<le> ?l" by simp
    then have "unat r \<le> len" using l by (simp add: word_le_nat_alt)
    moreover from this have "unat (r + 4) = unat r + 4" using unat32_add [of r 4] assms(1) by simp
    ultimately have "unat r + 4 \<le> length p" using False l assms(2) by (simp add: word_less_nat_alt not_less)
    then show ?thesis
      using r False by (simp add: dns_parse_first_question_def dns_skip_name_def read_u16_be_eq)
  qed (use r in \<open>auto simp: dns_parse_first_question_def dns_skip_name_def\<close>)
qed

lemma dns_inv_counters [simp]:
  "dns_inv (s\<lparr>g_upstream_queries := x\<rparr>) = dns_inv s" "dns_inv (s\<lparr>g_cache_hits := x\<rparr>) = dns_inv s"
  by (simp_all add: dns_inv_def)

lemma dns_direction_update_ok:
  assumes "dns_inv s"
  shows "\<exists>s1 r. dns_direction_update s d h qt = Some (s1, r) \<and> dns_inv s1
    \<and> (d = DNS_DIR_C2S \<longrightarrow> \<not> fst r \<and> \<not> fst (snd r))"
  using track_query_refines [OF assms, of "h_id h" qt] find_matching_query_eq [OF assms, of "h_id h" qt] assms
  by (cases d) (auto simp: dns_direction_update_def simp del: split_paired_Ex)

section \<open>The lines\<close>

definition dns_keys :: "string list" where
  "dns_keys = [''message_type'', ''opcode'', ''rcode'', ''qtype'', ''is_query'', ''is_response'', ''aa'',
     ''tc'', ''rd'', ''ra'', ''ad'', ''cd'', ''qdcount'', ''ancount'', ''nscount'', ''arcount'',
     ''response_valid'', ''dnssec_ok'', ''query_id'', ''id_match'', ''cache_hit'', ''upstream_queried'']"

lemma dns_kvs_keys [simp]:
  "map fst (default_error_kvs a b) = dns_keys" "map fst (dns_kvs d h qt i c u) = dns_keys"
  by (simp_all add: default_error_kvs_def dns_kvs_def dns_keys_def Let_def)

lemma dns_keys_wf: "list_all wf_key dns_keys" "distinct dns_keys"
  by code_simp+

definition dns_value :: "string \<Rightarrow> bool" where
  "dns_value v \<longleftrightarrow> plain_str v \<and> length v \<le> 14"

lemma dns_value_names [simp]:
  "dns_value (qtype_to_string q)" "dns_value (opcode_to_string q)" "dns_value (rcode_to_string q)"
  "dns_value (bool_str b)"
  by (simp_all add: dns_value_def qtype_to_string_def opcode_to_string_def rcode_to_string_def bool_str_def
      plain_str_def plain_def bval_def)

lemma dns_value_lits [simp]:
  "dns_value ''messageNotSet''" "dns_value ''OPCODE_UNKNOWN''" "dns_value ''RCODE_UNKNOWN''"
  "dns_value ''QTYPE_UNKNOWN''" "dns_value ''false''" "dns_value ''-1''" "dns_value ''query''"
  "dns_value ''response''"
  by (simp_all add: dns_value_def plain_str_def plain_def bval_def)

lemma dns_value_udec: "n < 65536 \<Longrightarrow> dns_value (udec n)"
  using length_udec32 [of n] by (simp add: dns_value_def)

lemma dns_kvs_values:
  "list_all dns_value (map snd (default_error_kvs a b))"
  "wf_header h \<Longrightarrow> list_all dns_value (map snd (dns_kvs d h qt i c u))"
  by (simp_all add: default_error_kvs_def dns_kvs_def Let_def wf_header_def dns_value_udec)

lemma dns_line_kvs:
  assumes "map fst kvs = dns_keys" and "list_all dns_value (map snd kvs)"
  shows "line_kvs kvs" and "length (render_kvs kvs) + 563 \<le> 2048"
proof -
  have "fst (hd kvs) = hd (map fst kvs)" "kvs \<noteq> []"
    using assms(1) by (cases kvs; simp add: dns_keys_def)+
  then show "line_kvs kvs"
    using assms dns_keys_wf
    by (auto simp: line_kvs_def wf_kvs_split dns_value_def list_all_iff)
      (simp add: dns_keys_def islower_def bval_def)
  have "list_all (\<lambda>v. length v \<le> 14) (map snd kvs)"
    using assms(2) by (auto simp: dns_value_def list_all_iff)
  from length_render_kvs_le [OF this] have "length (render_kvs kvs) \<le> sum_list (map length dns_keys) + length kvs * 16"
    using assms(1) by simp
  moreover have "length kvs = length dns_keys" using assms(1) by (metis length_map)
  ultimately show "length (render_kvs kvs) + 563 \<le> 2048" by (simp add: dns_keys_def)
qed

text \<open>The step in one lemma: it returns, keeps the invariant and prints the fixed keys.\<close>

lemma dns_step_ok:
  assumes "dns_inv s" and "len < 2 ^ 31" and "len \<le> length p"
  shows "\<exists>s' kvs. dns_step d s (Some p) len = Some (s', kvs)"
proof (cases "len < 12")
  case False
  with dns_parse_header_total [of len p] assms(3) obtain h where h: "dns_parse_header (Some p) len = Some (Some h)"
    by auto
  obtain qt where q: "dns_parse_first_question p (word_of_nat len) (h_qdcount h) = Some qt"
    using dns_first_question_total [OF assms(2,3)] by blast
  from dns_direction_update_ok [OF dns_ensure_inv [OF assms(1)], of d h qt] obtain s1 a b c where
    "dns_direction_update (dns_ensure_session s) d h qt = Some (s1, a, b, c)" by auto
  with h q False show ?thesis by (simp add: dns_step_def Let_def)
qed (simp add: dns_step_def Let_def)

lemma dns_step_keeps:
  assumes "dns_inv s" and "dns_step d s (Some p) len = Some (s', kvs)"
  shows "dns_inv s'" and "map fst kvs = dns_keys" and "list_all dns_value (map snd kvs)"
    and "map_of kvs ''is_query'' = Some (bool_str (d = DNS_DIR_C2S))"
    and "map_of kvs ''is_response'' = Some (bool_str (d = DNS_DIR_S2C))"
    and "d = DNS_DIR_C2S \<Longrightarrow> map_of kvs ''response_valid'' = Some ''false''
          \<and> map_of kvs ''id_match'' = Some ''false'' \<and> map_of kvs ''cache_hit'' = Some ''false''"
proof -
  note i = dns_ensure_inv [OF assms(1)]
  consider "s' = dns_ensure_session s" "kvs = default_error_kvs (d = DNS_DIR_C2S) (d = DNS_DIR_S2C)"
    | h qt a b c where "wf_header h" "dns_direction_update (dns_ensure_session s) d h qt = Some (s', a, b, c)"
        "kvs = dns_kvs d h qt a b c"
    using assms(2)
    by (auto simp: dns_step_def Let_def bind_eq_Some_conv split: if_splits option.splits)
      (blast dest: dns_parse_header_wf)
  then have all: "dns_inv s' \<and> map fst kvs = dns_keys \<and> list_all dns_value (map snd kvs)
    \<and> map_of kvs ''is_query'' = Some (bool_str (d = DNS_DIR_C2S))
    \<and> map_of kvs ''is_response'' = Some (bool_str (d = DNS_DIR_S2C))
    \<and> (d = DNS_DIR_C2S \<longrightarrow> map_of kvs ''response_valid'' = Some ''false''
          \<and> map_of kvs ''id_match'' = Some ''false'' \<and> map_of kvs ''cache_hit'' = Some ''false'')"
  proof cases
    case 1
    with i show ?thesis by (simp add: dns_kvs_values) (simp add: default_error_kvs_def)
  next
    case 2
    with dns_direction_update_ok [OF i, of d h qt]
    show ?thesis
      by (auto simp: dns_kvs_values) (simp_all add: dns_kvs_def Let_def bool_str_def)
  qed
  then show "dns_inv s'" and "map fst kvs = dns_keys" and "list_all dns_value (map snd kvs)"
    and "map_of kvs ''is_query'' = Some (bool_str (d = DNS_DIR_C2S))"
    and "map_of kvs ''is_response'' = Some (bool_str (d = DNS_DIR_S2C))"
    and "d = DNS_DIR_C2S \<Longrightarrow> map_of kvs ''response_valid'' = Some ''false''
          \<and> map_of kvs ''id_match'' = Some ''false'' \<and> map_of kvs ''cache_hit'' = Some ''false''"
    by blast+
qed

interpretation dns: traced_adapter dnsmasq_predicate_reset_session
  "\<lambda>s buf. dns_step DNS_DIR_C2S s (Some buf)" "\<lambda>s buf. dns_step DNS_DIR_S2C s (Some buf)"
  "\<lambda>s buf. dnsmasq_build_request_pred_line s (Some buf)"
  "\<lambda>s buf. dnsmasq_build_response_pred_line s (Some buf)"
  "\<lambda>_ _. False" "\<lambda>_. 0" "\<lambda>_ s. s" dns_inv "\<lambda>_ _. True" "\<lambda>_. True"
proof unfold_locales
  show "dns_inv s' \<and> line_kvs kvs" if "dns_inv s" "dns_step DNS_DIR_C2S s (Some buf) len = Some (s', kvs)"
    for s buf len s' kvs
    using dns_step_keeps [OF that] dns_line_kvs(1) by blast
  show "dns_inv s' \<and> line_kvs kvs" if "dns_inv s" "dns_step DNS_DIR_S2C s (Some buf) len = Some (s', kvs)"
    for s buf len s' kvs
    using dns_step_keeps [OF that] dns_line_kvs(1) by blast
qed (auto simp: dnsmasq_build_request_pred_line_def dnsmasq_build_response_pred_line_def
    dnsmasq_build_pred_line_internal_def dns_inv_reset intro: dns_step_ok)

section \<open>Properties of the DNS adapter\<close>

text \<open>
  C23 (refinement): the 256-entry array with its \<open>memmove\<close> implements a log that forgets: after any
  sequence of tracked queries, from a reset, a response matches exactly when its identifier and
  type are those of one of the last 256 queries.
\<close>

theorem dns_history_refines:
  "\<exists>s'. track_all (dnsmasq_predicate_reset_session s) qs = Some s'
     \<and> find_matching_query s' qid qt = Some ((qid, qt) \<in> set (drop (length qs - 256) qs))"
proof -
  have "tracked (dnsmasq_predicate_reset_session s) = last_tracked []"
    by (simp add: dns_inv_reset last_tracked_def)
  from track_all_refines [OF dns_inv_reset(1) this, of qs] obtain s' where
    "track_all (dnsmasq_predicate_reset_session s) qs = Some s'" "dns_inv s'" "tracked s' = last_tracked qs"
    by auto
  with find_matching_query_eq [of s' qid qt] show ?thesis by (simp add: last_tracked_def)
qed

text \<open>
  On every packet below 2 GiB the name reader returns, without reading
  beyond the packet, and its result is 0 or a position after the start and not after the end.
\<close>

lemma dns_skip_name_range:
  assumes "len < 2 ^ 31" and "len \<le> length buf"
  shows "\<exists>r. dns_skip_name buf (word_of_nat len) offset = Some r \<and> (r = 0 \<or> offset < r \<and> unat r \<le> len)"
  using dns_skip_loop_range [of "word_of_nat len" buf offset] assms
  by (auto simp: dns_skip_name_def unat32_of_nat word_le_nat_alt)

lemma dns_skip_name_range_sample:
  "\<exists>r. dns_skip_name [CHR 0x01, CHR ''a'', CHR 0xC0, NUL] (word_of_nat 4) 0 = Some r \<and> (r = 0 \<or> 0 < r \<and> unat r \<le> 4)"
  using dns_skip_name_range [of 4 "[CHR 0x01, CHR ''a'', CHR 0xC0, NUL]" 0] by simp

text \<open>
  From a packet that holds an encoded name of any number of labels after its
  12-byte header, followed by type and class, \<open>dns_parse_first_question\<close> returns the type.
\<close>

lemma dns_first_question_roundtrip:
  assumes "length hdr = 12" and "list_all wf_label labels" and "0 < qdcount"
    and "buf = hdr @ enc_name labels @ [t1, t2, c1, c2] @ rest" and "length buf < 2 ^ 31"
  shows "dns_parse_first_question buf (word_of_nat (length buf)) qdcount = Some (be16 t1 t2)"
proof -
  define e where "e = length hdr + length (enc_name labels)"
  let ?l = "word_of_nat (length buf) :: 32 word"
  have skip: "dns_skip_loop buf ?l (word_of_nat (length hdr)) 0 = Some (word_of_nat e)"
    using assms unfolding e_def by (intro dns_skip_enc [where post = "[t1, t2, c1, c2] @ rest"]) auto
  have small: "e + 4 \<le> length buf" "0 < e" using assms by (simp_all add: e_def)
  have e: "unat (word_of_nat e :: 32 word) = e" using small assms(5) by (intro unat32_of_nat) simp
  have e4: "unat (word_of_nat e + 4 :: 32 word) = e + 4"
    using unat32_add [of "word_of_nat e" 4] e small assms(5) by simp
  have nz: "(word_of_nat e :: 32 word) \<noteq> 0" using e small(2) by (metis less_not_refl unsigned_0)
  have le: "\<not> word_of_nat e + 4 > ?l"
    using e4 small assms(5) by (simp add: word_less_nat_alt unat32_of_nat)
  have d: "drop e buf = [t1, t2, c1, c2] @ rest" using assms(1,4) by (simp add: e_def)
  have "dns_skip_name buf ?l 12 = Some (word_of_nat e)"
    using skip assms(1) by (simp add: dns_skip_name_def)
  with assms(3) nz le e d show ?thesis
    by (simp add: dns_parse_first_question_def read_u16_be_def)
qed

lemma dns_first_question_roundtrip_sample:
  "dns_parse_first_question (replicate 12 NUL @ enc_name [''ab'', ''c''] @ [NUL, CHR 0x1C, NUL, CHR 0x01] @ [])
     (word_of_nat (length (replicate 12 NUL @ enc_name [''ab'', ''c''] @ [NUL, CHR 0x1C, NUL, CHR 0x01] @ []))) 1
   = Some 28"
  using dns_first_question_roundtrip [of "replicate 12 NUL" "[''ab'', ''c'']" 1 _ NUL "CHR 0x1C" NUL "CHR 0x01" "[]", OF _ _ _ refl]
  by (simp add: wf_label_def enc_name_def be16_eq bval_def)

lemma dns_line_lookup:
  assumes "dns_inv s" and "dns_step d s (Some p) len = Some (s', kvs)"
  shows "map_of (rev kvs) = map_of kvs"
proof -
  have "distinct (map fst kvs)" using dns_step_keeps(2) [OF assms] dns_keys_wf(2) by simp
  then show ?thesis by (rule map_of_rev_distinct)
qed

text \<open>
  The line of a packet says which side sent it, whatever the packet's bytes, its QR bit
  included: the evaluator reads \<open>is_query=true is_response=false\<close>, no valid response, no matched
  identifier and no cache hit from the line of a client packet, and the opposite direction from the
  line of a server packet.
\<close>

lemma dns_line_direction:
  assumes "dns_inv s" and "len < 2 ^ 31" and "len \<le> length p"
  shows "(\<exists>s' line. dnsmasq_build_request_pred_line s (Some p) len out 2048 = Some (s', line)
      \<and> parse_kv_line line ''is_query'' = Some ''true'' \<and> parse_kv_line line ''is_response'' = Some ''false''
      \<and> parse_kv_line line ''response_valid'' = Some ''false'' \<and> parse_kv_line line ''id_match'' = Some ''false''
      \<and> parse_kv_line line ''cache_hit'' = Some ''false'')
    \<and> (\<exists>s' line. dnsmasq_build_response_pred_line s (Some p) len out 2048 = Some (s', line)
      \<and> parse_kv_line line ''is_query'' = Some ''false'' \<and> parse_kv_line line ''is_response'' = Some ''true'')"
proof
  from dns_step_ok [OF assms] obtain s1 kvs where st: "dns_step DNS_DIR_C2S s (Some p) len = Some (s1, kvs)" by blast
  note k = dns_step_keeps [OF assms(1) st]
  from dns.build_req_parse [OF assms(1,3) st dns_line_kvs(2) [OF k(2,3)], of out] k dns_line_lookup [OF assms(1) st]
  show "\<exists>s' line. dnsmasq_build_request_pred_line s (Some p) len out 2048 = Some (s', line)
      \<and> parse_kv_line line ''is_query'' = Some ''true'' \<and> parse_kv_line line ''is_response'' = Some ''false''
      \<and> parse_kv_line line ''response_valid'' = Some ''false'' \<and> parse_kv_line line ''id_match'' = Some ''false''
      \<and> parse_kv_line line ''cache_hit'' = Some ''false''"
    by (auto simp: dns.all_kvs_def bool_str_def)
next
  from dns_step_ok [OF assms] obtain s1 kvs where st: "dns_step DNS_DIR_S2C s (Some p) len = Some (s1, kvs)" by blast
  note k = dns_step_keeps [OF assms(1) st]
  from dns.build_resp_parse [OF assms(1,3) st dns_line_kvs(2) [OF k(2,3)], of out] k dns_line_lookup [OF assms(1) st]
  show "\<exists>s' line. dnsmasq_build_response_pred_line s (Some p) len out 2048 = Some (s', line)
      \<and> parse_kv_line line ''is_query'' = Some ''false'' \<and> parse_kv_line line ''is_response'' = Some ''true''"
    by (auto simp: dns.all_kvs_def bool_str_def)
qed

lemma dns_line_direction_sample:
  "\<exists>s' line. dnsmasq_build_request_pred_line dns_init (Some (replicate 12 (CHR 0xFF))) 12 [] 2048 = Some (s', line)
      \<and> parse_kv_line line ''is_query'' = Some ''true'' \<and> parse_kv_line line ''is_response'' = Some ''false''"
  using dns_line_direction [OF dns_inv_init, of 12 "replicate 12 (CHR 0xFF)" "[]"] by auto

end
