(* ===== verification/Dtls_Adapter.thy ===== *)
theory Dtls_Adapter
  imports Adapter
begin

text \<open>
  The DTLS predicate adapter (\<open>SNPSFuzzer/monitor-src/dtls_predicate_adapter.c\<close>): the handshake
  flags, the record and handshake readers, the direction-aware parsing of the message type and the
  builder both directions share. The lemmas show that no record makes the readers leave the
  packet, how the flags relate to each other in every reachable state, what \<open>encrypted\<close> means for
  a client record, and that a line names a message of its own direction only.
\<close>

section \<open>State\<close>

record dtls_state =
  g_cookie_exchange_done :: bool
  g_server_hello_sent :: bool
  g_server_hello_done_sent :: bool
  g_client_key_exchange_received :: bool
  g_client_ccs_received :: bool
  g_server_ccs_sent :: bool
  g_client_finished_received :: bool
  g_server_finished_sent :: bool
  g_handshake_complete :: bool
  g_cipher_negotiated :: bool
  g_certificate_request_sent :: bool
  g_session_initialized :: bool
  g_msg_id :: "32 word"

definition dtls_init :: dtls_state where
  "dtls_init = \<lparr>g_cookie_exchange_done = False, g_server_hello_sent = False,
     g_server_hello_done_sent = False, g_client_key_exchange_received = False,
     g_client_ccs_received = False, g_server_ccs_sent = False, g_client_finished_received = False,
     g_server_finished_sent = False, g_handshake_complete = False, g_cipher_negotiated = False,
     g_certificate_request_sent = False, g_session_initialized = False, g_msg_id = 0\<rparr>"

definition dtls_predicate_reset_session :: "dtls_state \<Rightarrow> dtls_state" where
  "dtls_predicate_reset_session s = \<lparr>g_cookie_exchange_done = False, g_server_hello_sent = False,
     g_server_hello_done_sent = False, g_client_key_exchange_received = False,
     g_client_ccs_received = False, g_server_ccs_sent = False, g_client_finished_received = False,
     g_server_finished_sent = False, g_handshake_complete = False, g_cipher_negotiated = False,
     g_certificate_request_sent = False, g_session_initialized = True, g_msg_id = 0\<rparr>"

section \<open>Readers\<close>

definition read_u16_be :: "cptr \<Rightarrow> nat option" where
  "read_u16_be p = do { a \<leftarrow> rd p 0; b \<leftarrow> rd p 1; Some (be16 a b) }"

definition read_u24_be :: "cptr \<Rightarrow> nat option" where
  "read_u24_be p = do { a \<leftarrow> rd p 0; b \<leftarrow> rd p 1; c \<leftarrow> rd p 2; Some (be24 a b c) }"

text \<open>\<open>sequence = (sequence << 8) | buf[5 + i]\<close> for the \<open>n\<close> bytes at \<open>p\<close>, in 64 bits.\<close>

fun read_sequence :: "nat \<Rightarrow> 64 word \<Rightarrow> cptr \<Rightarrow> 64 word option" where
  "read_sequence 0 acc p = Some acc"
| "read_sequence (Suc n) acc p = do {
     c \<leftarrow> rd p 0;
     read_sequence n (push_bit 8 acc OR word_of_nat (bval c)) (drop 1 p)
   }"

record dtls_record =
  content_type :: nat
  epoch :: nat
  sequence :: "64 word"
  record_length :: nat

text \<open>
  The content type is returned, 0 on failure, and the rest through output pointers that the caller
  has set to 0 before.
\<close>

definition dtls_parse_record_header :: "cptr option \<Rightarrow> nat \<Rightarrow> dtls_record option" where
  "dtls_parse_record_header buf len = (case buf of
     None \<Rightarrow> Some \<lparr>content_type = 0, epoch = 0, sequence = 0, record_length = 0\<rparr>
   | Some p \<Rightarrow>
       if len < 13 then Some \<lparr>content_type = 0, epoch = 0, sequence = 0, record_length = 0\<rparr>
       else do {
         ct \<leftarrow> rd p 0;
         ep \<leftarrow> read_u16_be (drop 3 p);
         sq \<leftarrow> read_sequence 6 0 (drop 5 p);
         rl \<leftarrow> read_u16_be (drop 11 p);
         Some \<lparr>content_type = bval ct, epoch = ep, sequence = sq, record_length = rl\<rparr>
       })"

text \<open>The handshake type and whether the record looks encrypted.\<close>

definition dtls_parse_handshake_type :: "cptr \<Rightarrow> nat \<Rightarrow> (nat \<times> bool) option" where
  "dtls_parse_handshake_type payload rec_len =
     (if rec_len < 12 then Some (255, False)
      else do {
        t \<leftarrow> rd payload 0;
        msg_length \<leftarrow> read_u24_be (drop 1 payload);
        frag_offset \<leftarrow> read_u24_be (drop 6 payload);
        frag_length \<leftarrow> read_u24_be (drop 9 payload);
        if rec_len = 12 + frag_length \<and> frag_offset = 0 \<and> msg_length = frag_length
        then Some (bval t, False) else Some (255, True)
      })"

section \<open>Message names\<close>

definition dtls_request_enum_for_type :: "dtls_state \<Rightarrow> nat \<Rightarrow> nat \<Rightarrow> string" where
  "dtls_request_enum_for_type s ct mt =
     (if ct = 22 then
        (if mt = 1 then (if g_cookie_exchange_done s then ''c2s_ClientHello_with_cookie'' else ''c2s_ClientHello'')
         else if mt = 16 then ''c2s_ClientKeyExchange''
         else if mt = 15 then ''c2s_CertificateVerify''
         else if mt = 11 \<and> g_certificate_request_sent s then ''c2s_Certificate''
         else if mt = 20 \<and> g_client_ccs_received s \<and> \<not> g_client_finished_received s then ''c2s_Finished''
         else ''requestNotSet'')
      else if ct = 20 then
        (if g_client_key_exchange_received s \<and> \<not> g_client_ccs_received s then ''c2s_ChangeCipherSpec''
         else ''requestNotSet'')
      else if ct = 21 then ''c2s_Alert''
      else if ct = 23 then ''c2s_ApplicationData''
      else ''requestNotSet'')"

definition dtls_response_enum_for_type :: "dtls_state \<Rightarrow> nat \<Rightarrow> nat \<Rightarrow> string" where
  "dtls_response_enum_for_type s ct mt =
     (if ct = 22 then
        (if mt = 3 then ''s2c_HelloVerifyRequest''
         else if mt = 2 then ''s2c_ServerHello''
         else if mt = 11 then ''s2c_Certificate''
         else if mt = 12 then ''s2c_ServerKeyExchange''
         else if mt = 13 then ''s2c_CertificateRequest''
         else if mt = 14 then ''s2c_ServerHelloDone''
         else if mt = 20 \<and> g_server_ccs_sent s \<and> \<not> g_server_finished_sent s then ''s2c_Finished''
         else ''responseNotSet'')
      else if ct = 20 then
        (if g_client_finished_received s \<and> \<not> g_server_ccs_sent s then ''s2c_ChangeCipherSpec''
         else ''responseNotSet'')
      else if ct = 21 then ''s2c_Alert''
      else if ct = 23 then ''s2c_ApplicationData''
      else ''responseNotSet'')"

section \<open>Builders\<close>

datatype dtls_direction = DTLS_DIR_C2S | DTLS_DIR_S2C

text \<open>The message type and the encryption flag of a record; \<open>encrypted\<close> starts as \<open>epoch > 0\<close>.\<close>

definition dtls_message_type :: "dtls_direction \<Rightarrow> dtls_record \<Rightarrow> cptr \<Rightarrow> (nat \<times> bool) option" where
  "dtls_message_type direction r payload = (
     let encrypted = (epoch r > 0); ct = content_type r; rl = record_length r in
     if direction = DTLS_DIR_C2S then
       (if ct = 22 then
          (if \<not> encrypted \<and> rl \<ge> 12 then do { c \<leftarrow> rd payload 0; Some (bval c, encrypted) }
           else Some (255, encrypted))
        else if ct = 20 then
          (if \<not> encrypted \<and> rl \<ge> 1 then do { c \<leftarrow> rd payload 0; Some (bval c, encrypted) }
           else Some (255, encrypted))
        else if ct = 21 then
          (if \<not> encrypted \<and> rl \<ge> 2 then do { c \<leftarrow> rd payload 1; Some (bval c, encrypted) }
           else Some (255, encrypted))
        else if ct = 23 then Some (255, True)
        else Some (0, encrypted))
     else
       (if ct = 22 then do {
          (t, hs_encrypted) \<leftarrow> dtls_parse_handshake_type payload rl;
          Some (t, hs_encrypted \<or> epoch r > 0)
        }
        else if ct = 20 then
          (if rl = 1 then do { c \<leftarrow> rd payload 0; Some (bval c, False) } else Some (255, True))
        else if ct = 21 then
          (if rl = 2 \<and> \<not> encrypted then do { c \<leftarrow> rd payload 1; Some (bval c, False) } else Some (255, True))
        else if ct = 23 then Some (255, True)
        else Some (0, encrypted)))"

text \<open>The handshake flags after a record; every update is guarded by the direction.\<close>

definition dtls_state_update :: "dtls_direction \<Rightarrow> nat \<Rightarrow> nat \<Rightarrow> dtls_state \<Rightarrow> dtls_state" where
  "dtls_state_update direction ct mt s =
     (if ct = 22 then
        (if mt = 3 then (if direction = DTLS_DIR_S2C then s\<lparr>g_cookie_exchange_done := True\<rparr> else s)
         else if mt = 2 then
           (if direction = DTLS_DIR_S2C then s\<lparr>g_server_hello_sent := True, g_cipher_negotiated := True\<rparr> else s)
         else if mt = 13 then (if direction = DTLS_DIR_S2C then s\<lparr>g_certificate_request_sent := True\<rparr> else s)
         else if mt = 14 then (if direction = DTLS_DIR_S2C then s\<lparr>g_server_hello_done_sent := True\<rparr> else s)
         else if mt = 16 then
           (if direction = DTLS_DIR_C2S then s\<lparr>g_client_key_exchange_received := True\<rparr> else s)
         else if mt = 20 then
           (let s1 = (if direction = DTLS_DIR_C2S then s\<lparr>g_client_finished_received := True\<rparr>
                      else s\<lparr>g_server_finished_sent := True\<rparr>) in
            if g_client_finished_received s1 \<and> g_server_finished_sent s1
            then s1\<lparr>g_handshake_complete := True\<rparr> else s1)
         else s)
      else if ct = 20 then
        (if direction = DTLS_DIR_C2S then s\<lparr>g_client_ccs_received := True\<rparr> else s\<lparr>g_server_ccs_sent := True\<rparr>)
      else s)"

definition dtls_kvs :: "dtls_state \<Rightarrow> string \<Rightarrow> string \<Rightarrow> dtls_record \<Rightarrow> nat \<Rightarrow> bool \<Rightarrow> bool \<Rightarrow> bool \<Rightarrow>
    nat \<Rightarrow> nat \<Rightarrow> nat \<Rightarrow> kv list" where
  "dtls_kvs s req resp r mt cookie encrypted mac_ok fragment_length alert_level alert_description = [
     (''request'', req), (''response'', resp),
     (''content_type'', udec (content_type r)), (''handshake_type'', udec mt),
     (''cookie_present'', bool_str cookie), (''cookie_valid'', bool_str cookie),
     (''encrypted'', bool_str encrypted), (''mac_ok'', bool_str mac_ok),
     (''epoch'', udec (epoch r)), (''sequence'', udec (unat (sequence r))),
     (''record_length'', udec (record_length r)), (''fragment_length'', udec fragment_length),
     (''handshake_complete'', bool_str (g_handshake_complete s)),
     (''cipher_negotiated'', bool_str (g_cipher_negotiated s)),
     (''alert_level'', udec alert_level), (''alert_description'', udec alert_description)]"

text \<open>The error line has the same format with every field of the packet 0.\<close>

definition dtls_error_kvs :: "dtls_state \<Rightarrow> kv list" where
  "dtls_error_kvs s = dtls_kvs s ''requestNotSet'' ''responseNotSet''
     \<lparr>content_type = 0, epoch = 0, sequence = 0, record_length = 0\<rparr> 0 False False True 0 0 0"

definition dtls_ensure_session :: "dtls_state \<Rightarrow> dtls_state" where
  "dtls_ensure_session s = (if \<not> g_session_initialized s then dtls_predicate_reset_session s else s)"

definition dtls_record_step ::
  "dtls_direction \<Rightarrow> dtls_state \<Rightarrow> dtls_record \<Rightarrow> cptr \<Rightarrow> (dtls_state \<times> kv list) option" where
  "dtls_record_step direction s r payload = do {
     let mac_ok = \<not> (epoch r > 0 \<and> (record_length r = 0 \<or> record_length r > 16384));
     (mt, encrypted) \<leftarrow> dtls_message_type direction r payload;
     let req = (if direction = DTLS_DIR_C2S then dtls_request_enum_for_type s (content_type r) mt
                else ''requestNotSet'');
     let resp = (if direction = DTLS_DIR_C2S then ''responseNotSet''
                 else dtls_response_enum_for_type s (content_type r) mt);
     let s1 = dtls_state_update direction (content_type r) mt s;
     let cookie = (content_type r = 22 \<and> mt = 1 \<and> g_cookie_exchange_done s1);
     (level, descr) \<leftarrow> (if content_type r = 21 \<and> record_length r \<ge> 2 \<and> \<not> encrypted
       then do { a \<leftarrow> rd payload 0; b \<leftarrow> rd payload 1; Some (bval a, bval b) } else Some (0, 0));
     frag \<leftarrow> (if content_type r = 22 \<and> record_length r \<ge> 12 \<and> \<not> encrypted
       then read_u24_be (drop 9 payload) else Some 0);
     Some (s1, dtls_kvs s1 req resp r mt cookie encrypted mac_ok frag level descr)
   }"

definition dtls_step ::
  "dtls_direction \<Rightarrow> dtls_state \<Rightarrow> cptr option \<Rightarrow> nat \<Rightarrow> nat \<Rightarrow> (dtls_state \<times> kv list) option" where
  "dtls_step direction s0 buf len out_sz = (
     let s = dtls_ensure_session s0 in
     case buf of
       None \<Rightarrow> Some (s, dtls_error_kvs s)
     | Some p \<Rightarrow>
         if len < 13 \<or> out_sz = 0 then Some (s, dtls_error_kvs s)
         else do {
           r \<leftarrow> dtls_parse_record_header buf len;
           if content_type r = 0 \<or> len < 13 + record_length r then Some (s, dtls_error_kvs s)
           else dtls_record_step direction s r (drop 13 p)
         })"

definition dtls_build_pred_line_internal ::
  "dtls_state \<Rightarrow> cptr option \<Rightarrow> nat \<Rightarrow> string \<Rightarrow> nat \<Rightarrow> dtls_direction \<Rightarrow> (dtls_state \<times> string) option" where
  "dtls_build_pred_line_internal s buf len out out_sz direction = do {
     let dir_str = (if direction = DTLS_DIR_C2S then ''C2S'' else ''S2C'');
     (s1, kvs) \<leftarrow> dtls_step direction s buf len out_sz;
     let line0 = snprintf out out_sz (render_kvs kvs);
     (case buf of
       None \<Rightarrow> Some (s1, line0)
     | Some p \<Rightarrow>
         if len > 0 then do {
           (m, line) \<leftarrow> append_packet_trace (g_msg_id s1) line0 out_sz p len dir_str;
           Some (s1\<lparr>g_msg_id := m\<rparr>, line)
         } else Some (s1, line0))
   }"

definition dtls_build_request_pred_line ::
  "dtls_state \<Rightarrow> cptr option \<Rightarrow> nat \<Rightarrow> string \<Rightarrow> nat \<Rightarrow> (dtls_state \<times> string) option" where
  "dtls_build_request_pred_line s buf len out out_sz =
     dtls_build_pred_line_internal s buf len out out_sz DTLS_DIR_C2S"

definition dtls_build_response_pred_line ::
  "dtls_state \<Rightarrow> cptr option \<Rightarrow> nat \<Rightarrow> string \<Rightarrow> nat \<Rightarrow> (dtls_state \<times> string) option" where
  "dtls_build_response_pred_line s buf len out out_sz =
     dtls_build_pred_line_internal s buf len out out_sz DTLS_DIR_S2C"

text \<open>The wrapper that is kept for old callers guesses the direction from the handshake type.\<close>

definition dtls_guess_direction :: "cptr option \<Rightarrow> nat \<Rightarrow> dtls_direction option" where
  "dtls_guess_direction buf len = (case buf of
     None \<Rightarrow> Some DTLS_DIR_C2S
   | Some p \<Rightarrow>
       if len \<ge> 13 then do {
         rl \<leftarrow> read_u16_be (drop 11 p);
         ct \<leftarrow> rd p 0;
         if bval ct = 22 \<and> len \<ge> 13 + 12 \<and> rl \<ge> 12 then do {
           c \<leftarrow> rd p 13;
           if bval c \<in> {1, 16, 15} then Some DTLS_DIR_C2S
           else if bval c \<in> {3, 2, 12, 14, 13} then Some DTLS_DIR_S2C
           else Some DTLS_DIR_C2S
         } else Some DTLS_DIR_C2S
       } else Some DTLS_DIR_C2S)"

definition dtls_build_pred_line ::
  "dtls_state \<Rightarrow> cptr option \<Rightarrow> nat \<Rightarrow> string \<Rightarrow> nat \<Rightarrow> (dtls_state \<times> string) option" where
  "dtls_build_pred_line s0 buf len out out_sz = do {
     let s = dtls_ensure_session s0;
     d \<leftarrow> dtls_guess_direction buf len;
     dtls_build_pred_line_internal s buf len out out_sz d
   }"

section \<open>Readers on buffers the caller owns\<close>

lemma dtls_read_u16_be_eq: "1 < length p \<Longrightarrow> read_u16_be p = Some (be16 (p ! 0) (p ! 1))"
  by (cases p) (auto simp: read_u16_be_def rd_def)

lemma read_u24_be_eq: "2 < length p \<Longrightarrow> read_u24_be p = Some (be24 (p ! 0) (p ! 1) (p ! 2))"
  by (cases p) (auto simp: read_u24_be_def rd_def)

lemma dtls_read_u16_be_range: "rets (\<lambda>v. v < 65536) (read_u16_be p)"
  unfolding read_u16_be_def by (intro rets) simp

lemma read_u24_be_range: "rets (\<lambda>v. v < 16777216) (read_u24_be p)"
  unfolding read_u24_be_def by (intro rets) simp

lemma read_sequence_total: "n \<le> length p \<Longrightarrow> \<exists>v. read_sequence n acc p = Some v"
proof (induction n acc p rule: read_sequence.induct)
  case (2 n acc p)
  then obtain c p' where "p = c # p'" by (cases p) auto
  with 2 show ?case by simp
qed simp

definition wf_record :: "dtls_record \<Rightarrow> bool" where
  "wf_record r \<longleftrightarrow> content_type r < 256 \<and> epoch r < 65536 \<and> record_length r < 65536"

lemma dtls_parse_record_header_wf: "rets wf_record (dtls_parse_record_header buf len)"
proof (cases buf)
  case (Some p)
  show ?thesis
    unfolding dtls_parse_record_header_def Some option.case
    by (intro rets) (auto simp: wf_record_def dest!: rets_D [OF dtls_read_u16_be_range])
qed (simp add: rets_def dtls_parse_record_header_def wf_record_def)

lemma dtls_parse_record_header_total:
  assumes "13 \<le> len" and "len \<le> length p"
  shows "\<exists>r. dtls_parse_record_header (Some p) len = Some r"
proof -
  have "6 \<le> length (drop 5 p)" using assms by simp
  then obtain sq where "read_sequence 6 0 (drop 5 p) = Some sq" using read_sequence_total by blast
  moreover have "p \<noteq> []" using assms by auto
  ultimately show ?thesis
    using assms by (auto simp: dtls_parse_record_header_def dtls_read_u16_be_eq rd_def)
qed

lemma dtls_message_type_total:
  assumes "record_length r \<le> length payload"
  shows "\<exists>mt e. dtls_message_type d r payload = Some (mt, e)"
proof -
  have "\<exists>mt e. dtls_parse_handshake_type payload (record_length r) = Some (mt, e)"
    using assms by (cases payload) (auto simp: dtls_parse_handshake_type_def read_u24_be_eq)
  then show ?thesis
    using assms by (cases payload; cases "tl payload"; cases d) (auto simp: dtls_message_type_def Let_def)
qed

lemma dtls_parse_handshake_type_range: "rets (\<lambda>(mt, e). mt < 256) (dtls_parse_handshake_type payload rl)"
  unfolding dtls_parse_handshake_type_def by (intro rets) simp_all

lemma dtls_message_type_range: "rets (\<lambda>(mt, e). mt < 256) (dtls_message_type d r payload)"
  unfolding dtls_message_type_def Let_def
  by (intro rets) (auto dest!: rets_D [OF dtls_parse_handshake_type_range])

lemma dtls_record_step_total:
  assumes "record_length r \<le> length payload"
  shows "\<exists>s' kvs. dtls_record_step d s r payload = Some (s', kvs)"
proof -
  obtain mt e where mt: "dtls_message_type d r payload = Some (mt, e)"
    using dtls_message_type_total [OF assms] by blast
  have "\<exists>l g. (if content_type r = 21 \<and> record_length r \<ge> 2 \<and> \<not> e
      then do { a \<leftarrow> rd payload 0; b \<leftarrow> rd payload 1; Some (bval a, bval b) } else Some (0, 0)) = Some (l, g)"
    using assms by (cases payload; cases "tl payload") auto
  moreover have "\<exists>f. (if content_type r = 22 \<and> record_length r \<ge> 12 \<and> \<not> e
      then read_u24_be (drop 9 payload) else Some 0) = Some f"
    using assms by (auto simp: read_u24_be_eq)
  ultimately show ?thesis using mt by (force simp: dtls_record_step_def Let_def)
qed

lemma dtls_step_total:
  assumes "len \<le> length p"
  shows "\<exists>s' kvs. dtls_step d s (Some p) len out_sz = Some (s', kvs)"
proof (cases "len < 13 \<or> out_sz = 0")
  case False
  with dtls_parse_record_header_total [of len p] assms obtain r where
    r: "dtls_parse_record_header (Some p) len = Some r" by auto
  show ?thesis
  proof (cases "content_type r = 0 \<or> len < 13 + record_length r")
    case False2: False
    then have "record_length r \<le> length (drop 13 p)" using assms by auto
    from dtls_record_step_total [OF this, of d "dtls_ensure_session s"] False False2 r show ?thesis
      by (simp add: dtls_step_def Let_def)
  qed (use False r in \<open>auto simp: dtls_step_def Let_def\<close>)
qed (auto simp: dtls_step_def Let_def)

section \<open>The lines\<close>

definition dtls_inv :: "dtls_state \<Rightarrow> bool" where
  "dtls_inv s \<longleftrightarrow> (g_handshake_complete s \<longleftrightarrow> g_client_finished_received s \<and> g_server_finished_sent s)
     \<and> (g_cipher_negotiated s \<longleftrightarrow> g_server_hello_sent s)"

lemma dtls_inv_reset: "dtls_inv (dtls_predicate_reset_session s)" "dtls_inv dtls_init"
  by (simp_all add: dtls_inv_def dtls_predicate_reset_session_def dtls_init_def)

lemma dtls_ensure_inv: "dtls_inv s \<Longrightarrow> dtls_inv (dtls_ensure_session s)"
  by (simp add: dtls_ensure_session_def dtls_inv_reset)

lemma dtls_state_update_inv: "dtls_inv s \<Longrightarrow> dtls_inv (dtls_state_update d ct mt s)"
  unfolding dtls_state_update_def Let_def
  by (intro if_cases [where P = dtls_inv]) (simp_all add: dtls_inv_def)

definition dtls_keys :: "string list" where
  "dtls_keys = [''request'', ''response'', ''content_type'', ''handshake_type'', ''cookie_present'',
     ''cookie_valid'', ''encrypted'', ''mac_ok'', ''epoch'', ''sequence'', ''record_length'',
     ''fragment_length'', ''handshake_complete'', ''cipher_negotiated'', ''alert_level'', ''alert_description'']"

lemma dtls_kvs_keys [simp]: "map fst (dtls_kvs s req resp r mt c e m f l a) = dtls_keys"
  by (simp add: dtls_kvs_def dtls_keys_def)

lemma dtls_keys_wf: "list_all wf_key dtls_keys" "distinct dtls_keys"
  by code_simp+

definition dtls_value :: "string \<Rightarrow> bool" where
  "dtls_value v \<longleftrightarrow> plain_str v \<and> length v \<le> 27"

lemma dtls_value_enum [simp]:
  "dtls_value (dtls_request_enum_for_type s ct mt)" "dtls_value (dtls_response_enum_for_type s ct mt)"
  "dtls_value ''requestNotSet''" "dtls_value ''responseNotSet''" "dtls_value (bool_str b)"
  by (simp_all add: dtls_request_enum_for_type_def dtls_response_enum_for_type_def dtls_value_def
      plain_str_def plain_def bval_def bool_str_def)

lemma dtls_value_udec: "n < 18446744073709551616 \<Longrightarrow> dtls_value (udec n)"
  using length_udec64 [of n] by (simp add: dtls_value_def)

text \<open>What a step printed, by direction.\<close>

definition dtls_printed :: "dtls_direction \<Rightarrow> dtls_state \<times> kv list \<Rightarrow> bool" where
  "dtls_printed d res \<longleftrightarrow> dtls_inv (fst res) \<and> map fst (snd res) = dtls_keys \<and> list_all dtls_value (map snd (snd res))
     \<and> (if d = DTLS_DIR_C2S then map_of (snd res) ''response'' = Some ''responseNotSet''
        else map_of (snd res) ''request'' = Some ''requestNotSet'')"

lemma dtls_printedI:
  assumes "dtls_inv s" and "wf_record r" and "mt < 256" and "f < 16777216" and "l < 256" and "a < 256"
    and "dtls_value req" and "dtls_value resp"
    and "if d = DTLS_DIR_C2S then resp = ''responseNotSet'' else req = ''requestNotSet''"
  shows "dtls_printed d (s', dtls_kvs s req resp r mt c e m f l a) \<longleftrightarrow> dtls_inv s'"
proof -
  have "unat (sequence r) < 18446744073709551616"
    by (rule order_less_le_trans [OF unsigned_less]) simp
  then have "list_all dtls_value (map snd (dtls_kvs s req resp r mt c e m f l a))"
    using assms by (simp add: dtls_kvs_def wf_record_def dtls_value_udec)
  moreover have "if d = DTLS_DIR_C2S
      then map_of (dtls_kvs s req resp r mt c e m f l a) ''response'' = Some ''responseNotSet''
      else map_of (dtls_kvs s req resp r mt c e m f l a) ''request'' = Some ''requestNotSet''"
    using assms(9) by (simp add: dtls_kvs_def split: if_splits)
  ultimately show ?thesis by (simp add: dtls_printed_def)
qed

lemma dtls_error_printed: "dtls_inv s \<Longrightarrow> dtls_printed d (s, dtls_error_kvs s)"
  unfolding dtls_error_kvs_def by (subst dtls_printedI) (auto simp: wf_record_def)

lemma dtls_alert_range:
  "(if b then do { x \<leftarrow> rd payload 0; y \<leftarrow> rd payload 1; Some (bval x, bval y) } else Some (0, 0)) = Some (l, a) \<Longrightarrow>
   l < 256 \<and> a < 256"
  by (auto simp: bind_eq_Some_conv split: if_splits)

lemma dtls_fragment_range:
  "(if b then read_u24_be p else Some 0) = Some f \<Longrightarrow> f < 16777216"
  using rets_D [OF read_u24_be_range, of p f] by (auto split: if_splits)

lemma dtls_record_step_ok:
  assumes "dtls_inv s" and "wf_record r"
  shows "rets (dtls_printed d) (dtls_record_step d s r payload)"
  unfolding dtls_record_step_def Let_def
  apply (intro rets)
  apply (subst dtls_printedI)
  using assms
  apply (auto intro: dtls_state_update_inv dest: rets_D [OF dtls_message_type_range] dtls_alert_range dtls_fragment_range)
  done

lemma dtls_step_ok:
  assumes "dtls_inv s"
  shows "rets (dtls_printed d) (dtls_step d s buf len out_sz)"
proof (cases buf)
  case (Some p)
  have i: "dtls_inv (dtls_ensure_session s)" by (rule dtls_ensure_inv [OF assms])
  show ?thesis
    unfolding dtls_step_def Let_def Some option.case
    using rets_D [OF dtls_parse_record_header_wf]
    by (intro rets dtls_error_printed dtls_record_step_ok i) blast
qed (use dtls_error_printed dtls_ensure_inv [OF assms] in \<open>simp add: dtls_step_def rets_def Let_def\<close>)

lemma dtls_line_kvs:
  assumes "map fst kvs = dtls_keys" and "list_all dtls_value (map snd kvs)"
  shows "line_kvs kvs" and "length (render_kvs kvs) + 563 \<le> 2048"
proof -
  have "fst (hd kvs) = hd (map fst kvs)" "kvs \<noteq> []"
    using assms(1) by (cases kvs; simp add: dtls_keys_def)+
  then show "line_kvs kvs"
    using assms dtls_keys_wf
    by (auto simp: line_kvs_def wf_kvs_split dtls_value_def list_all_iff)
      (simp add: dtls_keys_def islower_def bval_def)
  have "list_all (\<lambda>v. length v \<le> 27) (map snd kvs)"
    using assms(2) by (auto simp: dtls_value_def list_all_iff)
  from length_render_kvs_le [OF this]
  have "length (render_kvs kvs) \<le> sum_list (map length dtls_keys) + length kvs * 29"
    using assms(1) by simp
  moreover have "length kvs = length dtls_keys" using assms(1) by (metis length_map)
  ultimately show "length (render_kvs kvs) + 563 \<le> 2048" by (simp add: dtls_keys_def)
qed

lemma dtls_step_size: "0 < out_sz \<Longrightarrow> dtls_step d s buf len out_sz = dtls_step d s buf len 1"
  by (cases buf) (simp_all add: dtls_step_def Let_def)

interpretation dtls: traced_adapter dtls_predicate_reset_session
  "\<lambda>s buf len. dtls_step DTLS_DIR_C2S s (Some buf) len 1" "\<lambda>s buf len. dtls_step DTLS_DIR_S2C s (Some buf) len 1"
  "\<lambda>s buf. dtls_build_request_pred_line s (Some buf)" "\<lambda>s buf. dtls_build_response_pred_line s (Some buf)"
  "\<lambda>_ len. 0 < len" g_msg_id "\<lambda>m. g_msg_id_update (\<lambda>_. m)" dtls_inv "\<lambda>_ _. True" "\<lambda>_. True"
proof unfold_locales
  show "dtls_inv s' \<and> line_kvs kvs" if "dtls_inv s" "dtls_step DTLS_DIR_C2S s (Some buf) len 1 = Some (s', kvs)"
    for s buf len s' kvs
    using rets_D [OF dtls_step_ok [OF that(1)] that(2)] dtls_line_kvs(1) by (simp add: dtls_printed_def)
  show "dtls_inv s' \<and> line_kvs kvs" if "dtls_inv s" "dtls_step DTLS_DIR_S2C s (Some buf) len 1 = Some (s', kvs)"
    for s buf len s' kvs
    using rets_D [OF dtls_step_ok [OF that(1)] that(2)] dtls_line_kvs(1) by (simp add: dtls_printed_def)
  show "dtls_build_request_pred_line s (Some buf) len out out_sz = do {
          (s1, kvs) \<leftarrow> dtls_step DTLS_DIR_C2S s (Some buf) len 1;
          let line0 = snprintf out out_sz (render_kvs kvs);
          (if 0 < len then do {
             (m, line) \<leftarrow> append_packet_trace (g_msg_id s1) line0 out_sz buf len ''C2S'';
             Some (s1\<lparr>g_msg_id := m\<rparr>, line)
           } else Some (s1, line0))
        }" if "0 < out_sz" for s buf len out out_sz
    using dtls_step_size [OF that]
    by (simp add: dtls_build_request_pred_line_def dtls_build_pred_line_internal_def Let_def)
  show "dtls_build_response_pred_line s (Some buf) len out out_sz = do {
          (s1, kvs) \<leftarrow> dtls_step DTLS_DIR_S2C s (Some buf) len 1;
          let line0 = snprintf out out_sz (render_kvs kvs);
          (if 0 < len then do {
             (m, line) \<leftarrow> append_packet_trace (g_msg_id s1) line0 out_sz buf len ''S2C'';
             Some (s1\<lparr>g_msg_id := m\<rparr>, line)
           } else Some (s1, line0))
        }" if "0 < out_sz" for s buf len out out_sz
    using dtls_step_size [OF that]
    by (simp add: dtls_build_response_pred_line_def dtls_build_pred_line_internal_def Let_def)
qed (auto simp: dtls_inv_reset intro: dtls_step_total, simp add: dtls_inv_def)

section \<open>Reachable sessions\<close>

inductive dtls_reach :: "dtls_state \<Rightarrow> bool" where
  dtls_start: "dtls_reach dtls_init"
| dtls_reset: "dtls_reach s \<Longrightarrow> dtls_reach (dtls_predicate_reset_session s)"
| dtls_request: "dtls_reach s \<Longrightarrow> len \<le> length p \<Longrightarrow> 1 < out_sz \<Longrightarrow>
    dtls_build_request_pred_line s (Some p) len out out_sz = Some (s', line) \<Longrightarrow> dtls_reach s'"
| dtls_response: "dtls_reach s \<Longrightarrow> len \<le> length p \<Longrightarrow> 1 < out_sz \<Longrightarrow>
    dtls_build_response_pred_line s (Some p) len out out_sz = Some (s', line) \<Longrightarrow> dtls_reach s'"

lemma dtls_reach_inv: "dtls_reach s \<Longrightarrow> dtls_inv s"
proof (induction rule: dtls_reach.induct)
  case (dtls_request s len p out_sz out s' line)
  then show ?case using dtls.req_keeps by blast
next
  case (dtls_response s len p out_sz out s' line)
  then show ?case using dtls.resp_keeps by blast
qed (simp_all add: dtls_inv_reset)

section \<open>Sessions and what they contained\<close>

text \<open>A session as a list of records, \<^const>\<open>True\<close> for the client's.\<close>

fun dtls_run :: "dtls_state \<Rightarrow> (bool \<times> byte list) list \<Rightarrow> dtls_state option" where
  "dtls_run s [] = Some s"
| "dtls_run s ((c2s, m) # evs) = do {
     (s1, line) \<leftarrow> (if c2s then dtls_build_request_pred_line s (Some m) (length m) [] 2048
                   else dtls_build_response_pred_line s (Some m) (length m) [] 2048);
     dtls_run s1 evs
   }"

text \<open>
  The messages, read off the bytes: a whole record of a content type, an unencrypted handshake
  message of the client by epoch 0 and its type, one of the server by a single fragment that fills the record.
\<close>

definition whole_record :: "nat \<Rightarrow> byte list \<Rightarrow> bool" where
  "whole_record ct m \<longleftrightarrow> 13 \<le> length m \<and> bval (m ! 0) = ct \<and> 13 + be16 (m ! 11) (m ! 12) \<le> length m"

definition client_handshake :: "nat \<Rightarrow> byte list \<Rightarrow> bool" where
  "client_handshake mt m \<longleftrightarrow> whole_record 22 m \<and> be16 (m ! 3) (m ! 4) = 0 \<and> 12 \<le> be16 (m ! 11) (m ! 12) \<and> bval (m ! 13) = mt"

definition server_handshake :: "nat \<Rightarrow> byte list \<Rightarrow> bool" where
  "server_handshake mt m \<longleftrightarrow> whole_record 22 m \<and> be16 (m ! 11) (m ! 12) = 12 + be24 (m ! 22) (m ! 23) (m ! 24) \<and>
     be24 (m ! 19) (m ! 20) (m ! 21) = 0 \<and> be24 (m ! 14) (m ! 15) (m ! 16) = be24 (m ! 22) (m ! 23) (m ! 24) \<and> bval (m ! 13) = mt"

definition from_client :: "(byte list \<Rightarrow> bool) \<Rightarrow> (bool \<times> byte list) list \<Rightarrow> bool" where
  "from_client P evs \<longleftrightarrow> (\<exists>(c2s, m) \<in> set evs. c2s \<and> P m)"

definition from_server :: "(byte list \<Rightarrow> bool) \<Rightarrow> (bool \<times> byte list) list \<Rightarrow> bool" where
  "from_server P evs \<longleftrightarrow> (\<exists>(c2s, m) \<in> set evs. \<not> c2s \<and> P m)"

definition dtls_flags :: "dtls_state \<Rightarrow> bool \<times> bool \<times> bool \<times> bool \<times> bool \<times> bool \<times> bool \<times> bool \<times> bool" where
  "dtls_flags s = (g_cookie_exchange_done s, g_server_hello_sent s, g_server_hello_done_sent s, g_client_key_exchange_received s,
     g_client_ccs_received s, g_server_ccs_sent s, g_client_finished_received s, g_server_finished_sent s, g_certificate_request_sent s)"

lemma header_fields:
  "dtls_parse_record_header (Some m) len = Some r \<Longrightarrow> 13 \<le> len \<Longrightarrow> len \<le> length m \<Longrightarrow>
    content_type r = bval (m ! 0) \<and> epoch r = be16 (m ! 3) (m ! 4) \<and> record_length r = be16 (m ! 11) (m ! 12)"
  by (auto simp: dtls_parse_record_header_def dtls_read_u16_be_eq rd_def bind_eq_Some_conv split: if_splits)

text \<open>The message type that a handshake record gets; 255 is no message.\<close>

lemma client_type:
  assumes "dtls_message_type DTLS_DIR_C2S r (drop 13 m) = Some (mt, e)" "content_type r = 22" "13 + record_length r \<le> length m"
  shows "mt = (if epoch r = 0 \<and> 12 \<le> record_length r then bval (m ! 13) else 255)"
  using assms by (auto simp: dtls_message_type_def Let_def bind_eq_Some_conv rd_def split: if_splits)

lemma server_type:
  assumes "dtls_message_type DTLS_DIR_S2C r (drop 13 m) = Some (mt, e)" "content_type r = 22" "13 + record_length r \<le> length m"
  shows "mt = (if record_length r = 12 + be24 (m ! 22) (m ! 23) (m ! 24) \<and> be24 (m ! 19) (m ! 20) (m ! 21) = 0 \<and>
    be24 (m ! 14) (m ! 15) (m ! 16) = be24 (m ! 22) (m ! 23) (m ! 24) then bval (m ! 13) else 255)"
  using assms by (auto simp: dtls_message_type_def dtls_parse_handshake_type_def Let_def bind_eq_Some_conv rd_def read_u24_be_eq split: if_splits)

lemma dtls_step_flags:
  assumes "dtls_step d s (Some m) (length m) 1 = Some (s', kvs)" "g_session_initialized s"
  shows "g_session_initialized s' \<and> dtls_flags s' =
    (if d = DTLS_DIR_C2S
     then (g_cookie_exchange_done s, g_server_hello_sent s, g_server_hello_done_sent s, g_client_key_exchange_received s \<or> client_handshake 16 m,
       g_client_ccs_received s \<or> whole_record 20 m, g_server_ccs_sent s, g_client_finished_received s \<or> client_handshake 20 m,
       g_server_finished_sent s, g_certificate_request_sent s)
     else (g_cookie_exchange_done s \<or> server_handshake 3 m, g_server_hello_sent s \<or> server_handshake 2 m,
       g_server_hello_done_sent s \<or> server_handshake 14 m, g_client_key_exchange_received s, g_client_ccs_received s,
       g_server_ccs_sent s \<or> whole_record 20 m, g_client_finished_received s, g_server_finished_sent s \<or> server_handshake 20 m,
       g_certificate_request_sent s \<or> server_handshake 13 m))"
proof -
  have en: "dtls_ensure_session s = s" using assms(2) by (simp add: dtls_ensure_session_def)
  show ?thesis
  proof (cases "13 \<le> length m")
    case True
    then obtain r where r: "dtls_parse_record_header (Some m) (length m) = Some r" using dtls_parse_record_header_total [of "length m" m] by auto
    note h = header_fields [OF r True le_refl]
    show ?thesis
    proof (cases "content_type r = 0 \<or> length m < 13 + record_length r")
      case short: True
      then have "s' = s" using assms(1) True r en by (auto simp: dtls_step_def Let_def)
      moreover have "\<not> whole_record 20 m" "\<not> whole_record 22 m" using short h by (auto simp: whole_record_def)
      ultimately show ?thesis using assms(2) by (simp add: dtls_flags_def client_handshake_def server_handshake_def)
    next
      case False
      then have len: "13 + record_length r \<le> length m" by simp
      have "dtls_record_step d s r (drop 13 m) = Some (s', kvs)" using assms(1) True r en False by (simp add: dtls_step_def Let_def)
      then obtain mt e where mt: "dtls_message_type d r (drop 13 m) = Some (mt, e)" and s': "s' = dtls_state_update d (content_type r) mt s"
        by (auto simp: dtls_record_step_def Let_def bind_eq_Some_conv)
      have w: "whole_record ct m \<longleftrightarrow> content_type r = ct" for ct using len h True by (auto simp: whole_record_def)
      consider "content_type r = 22" | "content_type r \<noteq> 22" by blast
      then show ?thesis
      proof cases
        case 1
        show ?thesis
        proof (cases d)
          case DTLS_DIR_C2S
          from client_type [OF mt [unfolded DTLS_DIR_C2S] 1 len] have "mt = k \<longleftrightarrow> client_handshake k m" if "k \<noteq> 255" for k
            using that w 1 h by (auto simp: client_handshake_def)
          from this [of 16] this [of 20] show ?thesis
            using s' 1 DTLS_DIR_C2S w [of 20] assms(2) by (auto simp: dtls_state_update_def dtls_flags_def Let_def)
        next
          case DTLS_DIR_S2C
          from server_type [OF mt [unfolded DTLS_DIR_S2C] 1 len] have "mt = k \<longleftrightarrow> server_handshake k m" if "k \<noteq> 255" for k
            using that w 1 h by (auto simp: server_handshake_def)
          from this [of 2] this [of 3] this [of 13] this [of 14] this [of 20] show ?thesis
            using s' 1 DTLS_DIR_S2C w [of 20] assms(2) by (auto simp: dtls_state_update_def dtls_flags_def Let_def)
        qed
      next
        case 2
        then show ?thesis using s' w [of 20] w [of 22] assms(2)
          by (cases d) (simp_all add: dtls_state_update_def dtls_flags_def client_handshake_def server_handshake_def)
      qed
    qed
  next
    case False
    then have "s' = s" using assms(1) en by (auto simp: dtls_step_def Let_def)
    then show ?thesis using False assms(2) by (simp add: dtls_flags_def client_handshake_def server_handshake_def whole_record_def)
  qed
qed

lemma dtls_build_flags:
  assumes "g_session_initialized s" "dtls_inv s"
  shows "\<exists>s' line s1 kvs. dtls_build_pred_line_internal s (Some m) (length m) [] 2048 d = Some (s', line) \<and>
    dtls_step d s (Some m) (length m) 1 = Some (s1, kvs) \<and> dtls_inv s' \<and> g_session_initialized s' \<and> dtls_flags s' = dtls_flags s1"
proof -
  obtain s1 kvs where st: "dtls_step d s (Some m) (length m) 1 = Some (s1, kvs)" using dtls_step_total [OF le_refl] by blast
  have p: "dtls_printed d (s1, kvs)" by (rule rets_D [OF dtls_step_ok [OF assms(2)] st])
  then have i: "dtls_inv s1" by (simp add: dtls_printed_def)
  have g: "g_session_initialized s1" using dtls_step_flags [OF st assms(1)] by simp
  have "length (render_kvs kvs) + 563 \<le> 2048" using p dtls_line_kvs(2) by (simp add: dtls_printed_def)
  then have "length (snprintf [] 2048 (render_kvs kvs)) < 2048" by (simp add: snprintf_def)
  from append_packet_trace_total [OF this, of "length m" m "if d = DTLS_DIR_C2S then ''C2S'' else ''S2C''" "g_msg_id s1"]
  obtain k line where a: "append_packet_trace (g_msg_id s1) (snprintf [] 2048 (render_kvs kvs)) 2048 m (length m)
      (if d = DTLS_DIR_C2S then ''C2S'' else ''S2C'') = Some (k, line)" by (cases d) auto
  have st2: "dtls_step d s (Some m) (length m) 2048 = Some (s1, kvs)" using st dtls_step_size [of 2048 d s "Some m" "length m"] by simp
  show ?thesis
  proof (cases "m = []")
    case True
    then show ?thesis using st st2 i g by (simp add: dtls_build_pred_line_internal_def Let_def)
  next
    case False
    then show ?thesis using st st2 i g a by (simp add: dtls_build_pred_line_internal_def Let_def dtls_inv_def dtls_flags_def)
  qed
qed

lemma dtls_run_flags:
  assumes "g_session_initialized s" "dtls_inv s"
  shows "\<exists>s'. dtls_run s evs = Some s' \<and> dtls_inv s' \<and> dtls_flags s' =
    (g_cookie_exchange_done s \<or> from_server (server_handshake 3) evs, g_server_hello_sent s \<or> from_server (server_handshake 2) evs,
     g_server_hello_done_sent s \<or> from_server (server_handshake 14) evs,
     g_client_key_exchange_received s \<or> from_client (client_handshake 16) evs,
     g_client_ccs_received s \<or> from_client (whole_record 20) evs, g_server_ccs_sent s \<or> from_server (whole_record 20) evs,
     g_client_finished_received s \<or> from_client (client_handshake 20) evs,
     g_server_finished_sent s \<or> from_server (server_handshake 20) evs,
     g_certificate_request_sent s \<or> from_server (server_handshake 13) evs)"
  using assms
proof (induction evs arbitrary: s)
  case Nil
  then show ?case by (simp add: dtls_flags_def from_client_def from_server_def)
next
  case (Cons ev evs)
  obtain c2s m where ev: "ev = (c2s, m)" by (cases ev)
  let ?d = "if c2s then DTLS_DIR_C2S else DTLS_DIR_S2C"
  from dtls_build_flags [OF Cons.prems, of m ?d] obtain s1 line s2 kvs where
    b: "dtls_build_pred_line_internal s (Some m) (length m) [] 2048 ?d = Some (s1, line)"
    and st: "dtls_step ?d s (Some m) (length m) 1 = Some (s2, kvs)" and i: "dtls_inv s1" "g_session_initialized s1" "dtls_flags s1 = dtls_flags s2"
    by blast
  note fl = conjunct2 [OF dtls_step_flags [OF st Cons.prems(1)]]
  from b have run: "dtls_run s (ev # evs) = dtls_run s1 evs"
    by (simp add: ev dtls_build_request_pred_line_def dtls_build_response_pred_line_def split: if_splits)
  have fc: "from_client P (ev # evs) \<longleftrightarrow> c2s \<and> P m \<or> from_client P evs" for P by (auto simp: ev from_client_def)
  have fs: "from_server P (ev # evs) \<longleftrightarrow> \<not> c2s \<and> P m \<or> from_server P evs" for P by (auto simp: ev from_server_def)
  from Cons.IH [OF i(2,1)] fl i(3) show ?case unfolding run fc fs
    by (cases c2s) (auto simp: dtls_flags_def)
qed

section \<open>Properties of the DTLS adapter\<close>

text \<open>
  C24 (invariant over histories): after any session of records in both directions the flags are what
  the messages say. The client's Finished flag is set exactly when a client record with epoch 0 holds
  an unencrypted Finished, the server's exactly when a server record holds a whole Finished message, and
  likewise for ServerHello, the cookie exchange, the certificate request, ServerHelloDone,
  ClientKeyExchange and both ChangeCipherSpec records. So the handshake is reported complete exactly
  after a Finished from both sides, and a cipher as negotiated exactly after a ServerHello.
\<close>

theorem dtls_run_history:
  "\<exists>s'. dtls_run (dtls_predicate_reset_session s) evs = Some s'
    \<and> (g_handshake_complete s' \<longleftrightarrow> from_client (client_handshake 20) evs \<and> from_server (server_handshake 20) evs)
    \<and> (g_cipher_negotiated s' \<longleftrightarrow> from_server (server_handshake 2) evs)
    \<and> dtls_flags s' = (from_server (server_handshake 3) evs, from_server (server_handshake 2) evs,
        from_server (server_handshake 14) evs, from_client (client_handshake 16) evs,
        from_client (whole_record 20) evs, from_server (whole_record 20) evs,
        from_client (client_handshake 20) evs, from_server (server_handshake 20) evs, from_server (server_handshake 13) evs)"
proof -
  let ?s = "dtls_predicate_reset_session s"
  have s: "g_session_initialized ?s" "dtls_inv ?s" by (simp add: dtls_predicate_reset_session_def) (rule dtls_inv_reset)
  from dtls_run_flags [OF s, of evs] show ?thesis
    by (auto simp: dtls_flags_def dtls_inv_def dtls_predicate_reset_session_def)
qed

text \<open>
  Whatever bytes a record has, the builder returns without leaving the packet, and the
  line the evaluator reads names no server message for a client record and no client message for a
  server record: the case that used to trigger permanent false violations cannot arise.
\<close>

lemma dtls_line_direction:
  assumes "dtls_reach s" and "len \<le> length p"
  shows "(\<exists>s' line. dtls_build_request_pred_line s (Some p) len out 2048 = Some (s', line)
        \<and> data_line line \<and> parse_kv_line line ''response'' = Some ''responseNotSet'')
    \<and> (\<exists>s' line. dtls_build_response_pred_line s (Some p) len out 2048 = Some (s', line)
        \<and> data_line line \<and> parse_kv_line line ''request'' = Some ''requestNotSet'')"
proof
  note i = dtls_reach_inv [OF assms(1)]
  from dtls_step_total [OF assms(2)] obtain s1 kvs where st: "dtls_step DTLS_DIR_C2S s (Some p) len 1 = Some (s1, kvs)"
    by blast
  have k: "dtls_printed DTLS_DIR_C2S (s1, kvs)" by (rule rets_D [OF dtls_step_ok [OF i] st])
  then have d: "map_of (rev kvs) = map_of kvs" using dtls_keys_wf(2) by (simp add: dtls_printed_def map_of_rev_distinct)
  have sz: "length (render_kvs kvs) + 563 \<le> 2048" using k dtls_line_kvs(2) by (simp add: dtls_printed_def)
  show "\<exists>s' line. dtls_build_request_pred_line s (Some p) len out 2048 = Some (s', line)
        \<and> data_line line \<and> parse_kv_line line ''response'' = Some ''responseNotSet''"
    using dtls.build_req_parse [OF i assms(2) st sz, of out] dtls.build_req_line [OF i assms(2) _ st, of 2048 out] k d
    by (auto simp: dtls_printed_def dtls.all_kvs_def trace_kvs_def)
next
  note i = dtls_reach_inv [OF assms(1)]
  from dtls_step_total [OF assms(2)] obtain s1 kvs where st: "dtls_step DTLS_DIR_S2C s (Some p) len 1 = Some (s1, kvs)"
    by blast
  have k: "dtls_printed DTLS_DIR_S2C (s1, kvs)" by (rule rets_D [OF dtls_step_ok [OF i] st])
  then have d: "map_of (rev kvs) = map_of kvs" using dtls_keys_wf(2) by (simp add: dtls_printed_def map_of_rev_distinct)
  have sz: "length (render_kvs kvs) + 563 \<le> 2048" using k dtls_line_kvs(2) by (simp add: dtls_printed_def)
  show "\<exists>s' line. dtls_build_response_pred_line s (Some p) len out 2048 = Some (s', line)
        \<and> data_line line \<and> parse_kv_line line ''request'' = Some ''requestNotSet''"
    using dtls.build_resp_parse [OF i assms(2) st sz, of out] dtls.build_resp_line [OF i assms(2) _ st, of 2048 out] k d
    by (auto simp: dtls_printed_def dtls.all_kvs_def trace_kvs_def)
qed

lemma dtls_line_direction_sample:
  "\<exists>s' line. dtls_build_request_pred_line dtls_init (Some [CHR 0x17, CHR 0xFE, CHR 0xFD]) 3 [] 2048 = Some (s', line)
     \<and> data_line line \<and> parse_kv_line line ''response'' = Some ''responseNotSet''"
  using dtls_line_direction [OF dtls_start, of 3 "[CHR 0x17, CHR 0xFE, CHR 0xFD]" "[]"] by simp

text \<open>
  What \<open>encrypted\<close> means for a client record. It is the epoch test, except that a
  record of application data counts as encrypted in every epoch.
\<close>

lemma dtls_client_encrypted:
  "dtls_message_type DTLS_DIR_C2S r payload = Some (mt, encrypted) \<Longrightarrow>
   encrypted \<longleftrightarrow> epoch r > 0 \<or> content_type r = 23"
  by (auto simp: dtls_message_type_def Let_def bind_eq_Some_conv split: if_splits)

lemma dtls_client_encrypted_sample:
  "dtls_message_type DTLS_DIR_C2S \<lparr>content_type = 23, epoch = 0, sequence = 0, record_length = 0\<rparr> [] = Some (255, True)
   \<and> (True \<longleftrightarrow> epoch \<lparr>content_type = 23, epoch = 0, sequence = 0, record_length = 0\<rparr> > 0 \<or> (23 :: nat) = 23)"
  using dtls_client_encrypted [of "\<lparr>content_type = 23, epoch = 0, sequence = 0, record_length = 0\<rparr>" "[]" 255 True]
  by (simp add: dtls_message_type_def)

end
