(* ===== verification/Rtsp_Adapter.thy ===== *)
theory Rtsp_Adapter
  imports Adapter
begin

text \<open>
  The RTSP predicate adapter (\<open>SNPSFuzzer/monitor-src/rtsp_predicate_adapter.c\<close>): line-wise parsing
  of requests and responses, the request/response correlation state and the two builders. The
  lemmas show that parsing returns on every buffer, that the line reader reconstructs the lines of
  a message, and which part of the session machine is reachable: the code compares the stored
  method and the status class with names that lack the prefix they are stored with, so no session
  is ever established.
\<close>

section \<open>State\<close>

record rtsp_state =
  g_session_id :: string
  g_session_established :: bool
  g_setup_success_count :: int
  g_play_success_count :: int
  g_last_req_cseq :: int
  g_last_req_method :: string
  g_last_req_has_session :: bool
  g_last_req_session_id :: string
  g_last_req_transport_udp :: bool
  g_last_req_transport_tcp :: bool
  g_last_req_client_ports :: bool
  g_total_tracks :: int
  g_session_initialized :: bool
  g_msg_id :: "32 word"

definition rtsp_init :: rtsp_state where
  "rtsp_init = \<lparr>g_session_id = [], g_session_established = False, g_setup_success_count = 0,
     g_play_success_count = 0, g_last_req_cseq = -1, g_last_req_method = ''mNotSet'',
     g_last_req_has_session = False, g_last_req_session_id = [], g_last_req_transport_udp = False,
     g_last_req_transport_tcp = False, g_last_req_client_ports = False, g_total_tracks = 0,
     g_session_initialized = False, g_msg_id = 0\<rparr>"

definition rtsp_predicate_reset_session :: "rtsp_state \<Rightarrow> rtsp_state" where
  "rtsp_predicate_reset_session s =
     rtsp_init\<lparr>g_session_initialized := True, g_msg_id := g_msg_id s\<rparr>"

section \<open>Parsing\<close>

text \<open>
  \<open>extract_line\<close>: \<open>n\<close> bytes are left at \<open>p\<close> and \<open>room\<close> more fit into \<open>line\<close>; the result is what is
  left afterwards and the bytes that were stored.
\<close>

fun extract_line_from :: "nat \<Rightarrow> nat \<Rightarrow> cptr \<Rightarrow> (nat \<times> cptr \<times> byte list) option" where
  "extract_line_from (Suc n) (Suc room) p = do {
     c \<leftarrow> rd p 0;
     if c = CR then extract_line_from n (Suc room) (drop 1 p)
     else if c = LF then Some (n, drop 1 p, [])
     else do {
       (n', p', l) \<leftarrow> extract_line_from n room (drop 1 p);
       Some (n', p', c # l)
     }
   }"
| "extract_line_from n room p = Some (n, p, [])"

definition extract_line :: "nat \<Rightarrow> cptr \<Rightarrow> nat \<Rightarrow> (nat \<times> cptr \<times> string) option" where
  "extract_line n p line_sz = do {
     (n', p', l) \<leftarrow> extract_line_from n (line_sz - 1) p;
     Some (n', p', cstr_of l)
   }"

definition rtsp_methods :: "string list" where
  "rtsp_methods = [''OPTIONS'', ''DESCRIBE'', ''SETUP'', ''PLAY'', ''PAUSE'', ''TEARDOWN'', ''ANNOUNCE'',
     ''GET_PARAMETER'', ''SET_PARAMETER'', ''REDIRECT'', ''RECORD'']"

text \<open>\<open>strcasecmp\<close> against each method in turn.\<close>

definition parse_request_method :: "string \<Rightarrow> nat \<Rightarrow> string" where
  "parse_request_method line method_sz = (
     let tok = take (method_sz - 1) (takeWhile (\<lambda>c. \<not> isspace c) (dropWhile isspace line)) in
     case find (\<lambda>m. map tolower tok = map tolower m) rtsp_methods of
       Some m \<Rightarrow> CHR ''m'' # m
     | None \<Rightarrow> ''mNotSet'')"

text \<open>The part of a line after its first colon.\<close>

definition after_colon :: "string \<Rightarrow> string option" where
  "after_colon line = (case dropWhile (\<lambda>c. c \<noteq> CHR '':'') line of [] \<Rightarrow> None | _ # p \<Rightarrow> Some p)"

definition parse_cseq :: "string \<Rightarrow> int" where
  "parse_cseq line = (case after_colon line of None \<Rightarrow> -1 | Some p \<Rightarrow> atoi_str (dropWhile isspace p))"

definition parse_session :: "string \<Rightarrow> nat \<Rightarrow> string" where
  "parse_session line sz = (case after_colon line of
     None \<Rightarrow> []
   | Some p \<Rightarrow> take (sz - 1) (takeWhile (\<lambda>c. c \<noteq> CHR '';'' \<and> \<not> isspace c) (dropWhile isspace p)))"

text \<open>UDP, TCP, client ports, server ports.\<close>

definition parse_transport :: "string \<Rightarrow> bool \<times> bool \<times> bool \<times> bool" where
  "parse_transport line = (case after_colon line of
     None \<Rightarrow> (False, False, False, False)
   | Some p \<Rightarrow>
       let tcp = (contains p ''RTP/AVP/TCP'' \<or> contains p ''interleaved'') in
       (\<not> tcp \<and> contains p ''RTP/AVP'', tcp, contains p ''client_port'', contains p ''server_port''))"

definition parse_response_status :: "string \<Rightarrow> int" where
  "parse_response_status line = atoi_str (dropWhile isspace (dropWhile (\<lambda>c. \<not> isspace c) line))"

definition get_status_class :: "int \<Rightarrow> string" where
  "get_status_class code =
     (if code = 0 then ''scNotSet''
      else if 100 \<le> code \<and> code < 200 then ''scINFO''
      else if 200 \<le> code \<and> code < 300 then ''scSUCCESS''
      else if 300 \<le> code \<and> code < 400 then ''scREDIRECT''
      else if 400 \<le> code \<and> code < 500 then ''scCLIENT_ERR''
      else if 500 \<le> code \<and> code < 600 then ''scSERVER_ERR''
      else ''scNotSet'')"

definition is_malformed_request :: "cptr \<Rightarrow> nat \<Rightarrow> bool option" where
  "is_malformed_request buf len =
     (if len < 4 then Some True
      else do {
        c \<leftarrow> rd buf 0;
        if \<not> isupper c then Some True
        else if len \<le> length buf then Some (\<not> contains (take len buf) ''RTSP/1.0'')
        else None
      })"

definition is_malformed_response :: "cptr \<Rightarrow> nat \<Rightarrow> bool option" where
  "is_malformed_response buf len =
     (if len < 12 then Some True else map_option Not (memcmp_eq buf ''RTSP/1.0 ''))"

section \<open>Headers\<close>

record rtsp_headers =
  hd_cseq :: int
  hd_has_session :: bool
  hd_session_id :: string
  hd_udp :: bool
  hd_tcp :: bool
  hd_client_ports :: bool
  hd_server_ports :: bool

definition no_headers :: rtsp_headers where
  "no_headers = \<lparr>hd_cseq = -1, hd_has_session = False, hd_session_id = [], hd_udp = False, hd_tcp = False,
     hd_client_ports = False, hd_server_ports = False\<rparr>"

definition header_line :: "string \<Rightarrow> rtsp_headers \<Rightarrow> rtsp_headers" where
  "header_line line h =
     (if starts_with line ''CSeq:'' then h\<lparr>hd_cseq := parse_cseq line\<rparr>
      else if starts_with line ''Session:'' then h\<lparr>hd_has_session := True, hd_session_id := parse_session line 256\<rparr>
      else if starts_with line ''Transport:'' then
        (case parse_transport line of (udp, tcp, cl, sv) \<Rightarrow>
           h\<lparr>hd_udp := udp, hd_tcp := tcp, hd_client_ports := cl, hd_server_ports := sv\<rparr>)
      else h)"

lemma extract_line_from_less:
  "extract_line_from n room p = Some (n', p', l) \<Longrightarrow> n' \<le> n \<and> (0 < n \<and> 0 < room \<longrightarrow> n' < n)"
proof (induction n room p arbitrary: n' p' l rule: extract_line_from.induct)
  case (1 n room p)
  then show ?case by (fastforce simp: bind_eq_Some_conv split: if_splits)
qed auto

lemma extract_line_less:
  "extract_line n p sz = Some (n', p', l) \<Longrightarrow> 0 < n \<Longrightarrow> 1 < sz \<Longrightarrow> n' < n"
  by (auto simp: extract_line_def bind_eq_Some_conv dest!: extract_line_from_less)

text \<open>\<open>while (offset < len)\<close> over the header lines, up to an empty one.\<close>

function parse_headers :: "nat \<Rightarrow> cptr \<Rightarrow> rtsp_headers \<Rightarrow> rtsp_headers option" where
  "parse_headers n p h =
     (if n = 0 then Some h
      else do {
        (n', p', line) \<leftarrow> extract_line n p 1024;
        if line = [] then Some h else parse_headers n' p' (header_line line h)
      })"
  by pat_completeness auto
termination
  by (relation "measure fst") (auto dest: extract_line_less)

declare parse_headers.simps [simp del]

section \<open>Builders\<close>

definition rtsp_ensure_session :: "rtsp_state \<Rightarrow> rtsp_state" where
  "rtsp_ensure_session s = (if \<not> g_session_initialized s then rtsp_predicate_reset_session s else s)"

text \<open>The first line and the headers of a request that is not malformed.\<close>

definition parse_request :: "cptr \<Rightarrow> nat \<Rightarrow> (string \<times> rtsp_headers) option" where
  "parse_request buf len = do {
     (n, p, line) \<leftarrow> extract_line len buf 1024;
     h \<leftarrow> parse_headers n p no_headers;
     Some (parse_request_method line 32, h)
   }"

definition parse_response :: "cptr \<Rightarrow> nat \<Rightarrow> (int \<times> rtsp_headers) option" where
  "parse_response buf len = do {
     (n, p, line) \<leftarrow> extract_line len buf 1024;
     h \<leftarrow> parse_headers n p no_headers;
     Some (parse_response_status line, h)
   }"

definition all_tracks_setup :: "rtsp_state \<Rightarrow> bool" where
  "all_tracks_setup s \<longleftrightarrow> g_total_tracks s > 0 \<and> g_setup_success_count s \<ge> g_total_tracks s"

definition rtsp_request_kvs ::
  "rtsp_state \<Rightarrow> string \<Rightarrow> rtsp_headers \<Rightarrow> bool \<Rightarrow> bool \<Rightarrow> bool \<Rightarrow> bool \<Rightarrow> bool \<Rightarrow> kv list" where
  "rtsp_request_kvs s meth h req_malformed session_id_match teardown_for_existing teardown_without_session
       keepalive_getparam = [
     (''rtsp_method'', meth), (''status_class'', ''scNotSet''),
     (''req_cseq'', sdec (hd_cseq h)), (''resp_cseq'', ''-1''), (''resp_status_code'', ''0''),
     (''req_malformed'', bool_str req_malformed), (''resp_malformed'', ''false''), (''cseq_match'', ''false''),
     (''req_has_session'', bool_str (hd_has_session h)), (''resp_has_session'', ''false''),
     (''session_established'', bool_str (g_session_established s)),
     (''session_id_match'', bool_str session_id_match), (''session_id_changed'', ''false''),
     (''teardown_for_existing_session'', bool_str teardown_for_existing),
     (''teardown_without_session'', bool_str teardown_without_session),
     (''transport_req_udp'', bool_str (hd_udp h)), (''transport_req_tcp'', bool_str (hd_tcp h)),
     (''transport_resp_udp'', ''false''), (''transport_resp_tcp'', ''false''),
     (''transport_client_ports_present'', bool_str (hd_client_ports h)),
     (''transport_server_ports_present'', ''false''),
     (''setup_success_count'', sdec (g_setup_success_count s)),
     (''play_success_count'', sdec (g_play_success_count s)),
     (''all_tracks_setup'', bool_str (all_tracks_setup s)),
     (''keepalive_getparam'', bool_str keepalive_getparam), (''keepalive_failed'', ''false''),
     (''timeout'', ''false'')]"

text \<open>What is kept of a request for the correlation with its response.\<close>

definition rtsp_save_request :: "rtsp_state \<Rightarrow> string \<Rightarrow> rtsp_headers \<Rightarrow> rtsp_state" where
  "rtsp_save_request s meth h = s\<lparr>g_last_req_cseq := hd_cseq h, g_last_req_method := take 31 meth,
     g_last_req_has_session := hd_has_session h, g_last_req_session_id := take 255 (hd_session_id h),
     g_last_req_transport_udp := hd_udp h, g_last_req_transport_tcp := hd_tcp h,
     g_last_req_client_ports := hd_client_ports h\<rparr>"

definition rtsp_request_step :: "rtsp_state \<Rightarrow> cptr \<Rightarrow> nat \<Rightarrow> (rtsp_state \<times> kv list) option" where
  "rtsp_request_step s0 buf len = do {
     let s = rtsp_ensure_session s0;
     req_malformed \<leftarrow> is_malformed_request buf len;
     (meth, h) \<leftarrow> (if \<not> req_malformed \<and> len > 0 then parse_request buf len else Some (''mNotSet'', no_headers));
     let keepalive_getparam = (\<not> req_malformed \<and> len > 0 \<and> meth = ''GET_PARAMETER'' \<and> hd_has_session h);
     let s1 = rtsp_save_request s meth h;
     let session_id_match = (g_session_established s1 \<and> hd_has_session h \<and> hd_session_id h = g_session_id s1);
     let teardown_for_existing = (meth = ''TEARDOWN'' \<and> hd_has_session h \<and> g_session_established s1 \<and> session_id_match);
     let teardown_without_session = (meth = ''TEARDOWN'' \<and> \<not> hd_has_session h);
     Some (s1, rtsp_request_kvs s1 meth h req_malformed session_id_match teardown_for_existing
       teardown_without_session keepalive_getparam)
   }"

definition rtsp_build_request_pred_line ::
  "rtsp_state \<Rightarrow> cptr \<Rightarrow> nat \<Rightarrow> string \<Rightarrow> nat \<Rightarrow> (rtsp_state \<times> string) option" where
  "rtsp_build_request_pred_line s buf len out out_sz = do {
     (s1, kvs) \<leftarrow> rtsp_request_step s buf len;
     (m, line) \<leftarrow> append_packet_trace (g_msg_id s1) (snprintf out out_sz (render_kvs kvs)) out_sz buf len ''C2S'';
     Some (s1\<lparr>g_msg_id := m\<rparr>, line)
   }"

text \<open>
  The session update of a response: the new state and \<open>session_id_changed\<close>. A successful SETUP is
  recognised by the stored method and the status class.
\<close>

definition rtsp_setup_update :: "rtsp_state \<Rightarrow> string \<Rightarrow> rtsp_headers \<Rightarrow> (rtsp_state \<times> bool) option" where
  "rtsp_setup_update s status_class h =
     (if g_last_req_method s = ''SETUP'' \<and> status_class = ''SUCCESS'' \<and> hd_has_session h then
        (let (s1, changed) =
           (if \<not> g_session_established s
            then (s\<lparr>g_session_id := take 255 (hd_session_id h), g_session_established := True, g_total_tracks := 1\<rparr>, False)
            else (s, g_session_id s \<noteq> hd_session_id h)) in do {
           n \<leftarrow> cinc (g_setup_success_count s1);
           Some (s1\<lparr>g_setup_success_count := n\<rparr>, changed)
         })
      else Some (s, False))"

definition rtsp_play_update :: "rtsp_state \<Rightarrow> string \<Rightarrow> rtsp_state option" where
  "rtsp_play_update s status_class =
     (if g_last_req_method s = ''PLAY'' \<and> status_class = ''SUCCESS'' then do {
        n \<leftarrow> cinc (g_play_success_count s);
        Some (s\<lparr>g_play_success_count := n\<rparr>)
      } else Some s)"

definition rtsp_response_kvs ::
  "rtsp_state \<Rightarrow> string \<Rightarrow> int \<Rightarrow> rtsp_headers \<Rightarrow> bool \<Rightarrow> bool \<Rightarrow> bool \<Rightarrow> bool \<Rightarrow> bool \<Rightarrow> bool \<Rightarrow> bool \<Rightarrow> bool \<Rightarrow> kv list" where
  "rtsp_response_kvs s status_class resp_status_code h resp_malformed cseq_match session_id_match session_id_changed
       teardown_for_existing teardown_without_session keepalive_failed timeout = [
     (''rtsp_method'', g_last_req_method s), (''status_class'', status_class),
     (''req_cseq'', sdec (g_last_req_cseq s)), (''resp_cseq'', sdec (hd_cseq h)),
     (''resp_status_code'', sdec resp_status_code),
     (''req_malformed'', ''false''), (''resp_malformed'', bool_str resp_malformed),
     (''cseq_match'', bool_str cseq_match),
     (''req_has_session'', bool_str (g_last_req_has_session s)), (''resp_has_session'', bool_str (hd_has_session h)),
     (''session_established'', bool_str (g_session_established s)),
     (''session_id_match'', bool_str session_id_match), (''session_id_changed'', bool_str session_id_changed),
     (''teardown_for_existing_session'', bool_str teardown_for_existing),
     (''teardown_without_session'', bool_str teardown_without_session),
     (''transport_req_udp'', bool_str (g_last_req_transport_udp s)),
     (''transport_req_tcp'', bool_str (g_last_req_transport_tcp s)),
     (''transport_resp_udp'', bool_str (hd_udp h)), (''transport_resp_tcp'', bool_str (hd_tcp h)),
     (''transport_client_ports_present'', bool_str (g_last_req_client_ports s)),
     (''transport_server_ports_present'', bool_str (hd_server_ports h)),
     (''setup_success_count'', sdec (g_setup_success_count s)),
     (''play_success_count'', sdec (g_play_success_count s)),
     (''all_tracks_setup'', bool_str (all_tracks_setup s)),
     (''keepalive_getparam'', ''false''), (''keepalive_failed'', bool_str keepalive_failed),
     (''timeout'', bool_str timeout)]"

definition rtsp_response_step :: "rtsp_state \<Rightarrow> cptr \<Rightarrow> nat \<Rightarrow> (rtsp_state \<times> kv list) option" where
  "rtsp_response_step s0 buf len = do {
     let s = rtsp_ensure_session s0;
     resp_malformed \<leftarrow> is_malformed_response buf len;
     let timeout = (len = 0);
     (code, h) \<leftarrow> (if \<not> resp_malformed \<and> len > 0 then parse_response buf len else Some (0, no_headers));
     let status_class = get_status_class code;
     let cseq_match = (g_last_req_cseq s > 0 \<and> hd_cseq h > 0 \<and> g_last_req_cseq s = hd_cseq h);
     (s1, session_id_changed) \<leftarrow> rtsp_setup_update s status_class h;
     s2 \<leftarrow> rtsp_play_update s1 status_class;
     let session_id_match = (g_last_req_has_session s2 \<and> g_session_established s2
                              \<and> g_last_req_session_id s2 = g_session_id s2);
     let teardown = (g_last_req_method s2 = ''TEARDOWN'');
     let teardown_for_existing = (teardown \<and> g_last_req_has_session s2 \<and> g_session_established s2 \<and> session_id_match);
     let teardown_without_session = (teardown \<and> \<not> g_last_req_has_session s2);
     let s3 = (if teardown \<and> status_class = ''SUCCESS'' then s2\<lparr>g_session_established := False\<rparr> else s2);
     let keepalive_failed = (g_last_req_method s3 = ''GET_PARAMETER'' \<and> g_last_req_has_session s3
            \<and> (timeout \<or> status_class = ''CLIENT_ERR'' \<or> status_class = ''SERVER_ERR''));
     Some (s3, rtsp_response_kvs s3 status_class code h resp_malformed cseq_match session_id_match session_id_changed
       teardown_for_existing teardown_without_session keepalive_failed timeout)
   }"

definition rtsp_build_response_pred_line ::
  "rtsp_state \<Rightarrow> cptr \<Rightarrow> nat \<Rightarrow> string \<Rightarrow> nat \<Rightarrow> (rtsp_state \<times> string) option" where
  "rtsp_build_response_pred_line s buf len out out_sz = do {
     (s1, kvs) \<leftarrow> rtsp_response_step s buf len;
     (m, line) \<leftarrow> append_packet_trace (g_msg_id s1) (snprintf out out_sz (render_kvs kvs)) out_sz buf len ''S2C'';
     Some (s1\<lparr>g_msg_id := m\<rparr>, line)
   }"

section \<open>Parsing on buffers the caller owns\<close>

lemma extract_line_from_total:
  "n \<le> length p \<Longrightarrow> \<exists>n' p' l. extract_line_from n room p = Some (n', p', l) \<and> n' \<le> length p'"
proof (induction n room p rule: extract_line_from.induct)
  case (1 n room p)
  then obtain c p' where p: "p = c # p'" by (cases p) auto
  with "1.prems" have le: "n \<le> length p'" by simp
  from 1 p le show ?case
    by (cases "c = CR"; cases "c = LF") (fastforce simp: bind_eq_Some_conv)+
qed auto

lemma extract_line_total:
  assumes "n \<le> length p"
  shows "\<exists>n' p' l. extract_line n p sz = Some (n', p', l) \<and> n' \<le> length p'"
  using extract_line_from_total [OF assms, of "sz - 1"] by (auto simp: extract_line_def)

lemma parse_headers_total: "n \<le> length p \<Longrightarrow> \<exists>h'. parse_headers n p h = Some h'"
proof (induction n p h rule: parse_headers.induct)
  case (1 n p h)
  from extract_line_total [OF "1.prems", of 1024] obtain n' p' l
    where e: "extract_line n p 1024 = Some (n', p', l)" "n' \<le> length p'" by blast
  show ?case
  proof (cases "n = 0 \<or> l = []")
    case True
    with e show ?thesis by (auto simp: parse_headers.simps [of n p h])
  next
    case False
    with "1.IH" [OF _ e(1) refl refl] e show ?thesis by (auto simp: parse_headers.simps [of n p h])
  qed
qed

definition wf_headers :: "rtsp_headers \<Rightarrow> bool" where
  "wf_headers h \<longleftrightarrow> - 2147483648 \<le> hd_cseq h \<and> hd_cseq h < 2147483648"

lemma header_line_wf: "wf_headers h \<Longrightarrow> wf_headers (header_line line h)"
  using atoi_str_bounds
  by (auto simp: header_line_def wf_headers_def parse_cseq_def split: prod.split option.split)

lemma parse_headers_wf: "wf_headers h \<Longrightarrow> parse_headers n p h = Some h' \<Longrightarrow> wf_headers h'"
proof (induction n p h rule: parse_headers.induct)
  case (1 n p h)
  then show ?case
    by (auto simp: parse_headers.simps [of n p h] bind_eq_Some_conv header_line_wf split: if_splits)
qed

text \<open>
  Reading a well-formed header block: the lines come back one by one, and the reader stops at the
  empty line, whatever follows.
\<close>

definition wf_text_line :: "string \<Rightarrow> bool" where
  "wf_text_line l \<longleftrightarrow> l \<noteq> [] \<and> length l \<le> 1022 \<and> CR \<notin> set l \<and> LF \<notin> set l \<and> NUL \<notin> set l"

definition crlf :: "string \<Rightarrow> string" where
  "crlf l = l @ [CR, LF]"

lemma extract_line_from_text:
  "CR \<notin> set l \<Longrightarrow> LF \<notin> set l \<Longrightarrow> length l < room \<Longrightarrow>
   extract_line_from (length l + 2 + k) room (l @ CR # LF # q) = Some (k, q, l)"
proof (induction l arbitrary: room)
  case Nil
  then obtain r where "room = Suc r" by (cases room) auto
  then show ?case by (simp add: numeral_2_eq_2)
next
  case (Cons c l)
  then obtain r where r: "room = Suc r" by (cases room) auto
  have "extract_line_from (length l + 2 + k) r (l @ CR # LF # q) = Some (k, q, l)"
    using Cons r by simp
  with Cons.prems r extract_line_from.simps(1) [of "length l + 2 + k" r "c # l @ CR # LF # q"] show ?case
    by (simp del: extract_line_from.simps add: eq_commute [of CR] eq_commute [of LF])
qed

lemma extract_line_text:
  assumes "length l \<le> 1022" and "CR \<notin> set l" and "LF \<notin> set l" and "NUL \<notin> set l"
  shows "extract_line (length (crlf l) + k) (crlf l @ q) 1024 = Some (k, q, l)"
  using extract_line_from_text [OF assms(2,3), of 1023 k q] assms(1,4)
  by (simp add: extract_line_def crlf_def cstr_of_id)

lemma parse_headers_text:
  assumes "list_all wf_text_line ls"
  shows "parse_headers (length (concat (map crlf ls)) + length (crlf []) + k) (concat (map crlf ls) @ crlf [] @ q) h
    = Some (fold header_line ls h)"
  using assms
proof (induction ls arbitrary: h)
  case Nil
  have "extract_line (length (crlf []) + k) (crlf [] @ q) 1024 = Some (k, q, [])"
    by (rule extract_line_text) simp_all
  then show ?case by (simp add: parse_headers.simps crlf_def)
next
  case (Cons l ls)
  let ?n = "length (concat (map crlf ls)) + length (crlf []) + k"
  let ?q = "concat (map crlf ls) @ crlf [] @ q"
  have "extract_line (length (crlf l) + ?n) (crlf l @ ?q) 1024 = Some (?n, ?q, l)"
    using Cons.prems by (intro extract_line_text) (simp_all add: wf_text_line_def)
  moreover have "l \<noteq> []" "crlf l \<noteq> []" using Cons.prems by (simp_all add: wf_text_line_def crlf_def)
  ultimately show ?case
    using Cons.IH [of "header_line l h"] Cons.prems
    by (subst parse_headers.simps) (simp add: add.assoc)
qed

section \<open>The reachable part of the session machine\<close>

definition rtsp_enums :: "string list" where
  "rtsp_enums = ''mNotSet'' # map (Cons (CHR ''m'')) rtsp_methods"

definition rtsp_inv :: "rtsp_state \<Rightarrow> bool" where
  "rtsp_inv s \<longleftrightarrow> \<not> g_session_established s \<and> g_setup_success_count s = 0 \<and> g_play_success_count s = 0
     \<and> g_total_tracks s = 0 \<and> g_last_req_method s \<in> set rtsp_enums
     \<and> - 2147483648 \<le> g_last_req_cseq s \<and> g_last_req_cseq s < 2147483648"

lemma rtsp_enums_wf: "e \<in> set rtsp_enums \<Longrightarrow> e \<noteq> [] \<and> hd e = CHR ''m'' \<and> plain_str e \<and> length e \<le> 14"
proof -
  have "list_all (\<lambda>e. e \<noteq> [] \<and> hd e = CHR ''m'' \<and> plain_str e \<and> length e \<le> 14) rtsp_enums"
    by code_simp
  then show "e \<in> set rtsp_enums \<Longrightarrow> e \<noteq> [] \<and> hd e = CHR ''m'' \<and> plain_str e \<and> length e \<le> 14"
    by (simp add: list_all_iff)
qed

text \<open>The names the code compares the stored method with are none of the stored names.\<close>

lemma rtsp_enum_neq:
  assumes "e \<in> set rtsp_enums"
  shows "e \<noteq> ''SETUP''" "e \<noteq> ''PLAY''" "e \<noteq> ''TEARDOWN''" "e \<noteq> ''GET_PARAMETER''"
  using rtsp_enums_wf [OF assms] by auto

lemma parse_request_method_enum: "parse_request_method line sz \<in> set rtsp_enums"
  by (auto simp: parse_request_method_def rtsp_enums_def Let_def find_Some_iff split: option.split)

lemma rtsp_inv_reset: "rtsp_inv (rtsp_predicate_reset_session s)" "rtsp_inv rtsp_init"
  by (simp_all add: rtsp_inv_def rtsp_predicate_reset_session_def rtsp_init_def rtsp_enums_def)

lemma rtsp_ensure_inv: "rtsp_inv s \<Longrightarrow> rtsp_inv (rtsp_ensure_session s)"
  by (simp add: rtsp_ensure_session_def rtsp_inv_reset)

lemma rtsp_updates_id:
  assumes "rtsp_inv s"
  shows "rtsp_setup_update s c h = Some (s, False)" and "rtsp_play_update s c = Some s"
  using assms rtsp_enum_neq [of "g_last_req_method s"]
  by (simp_all add: rtsp_setup_update_def rtsp_play_update_def rtsp_inv_def)

section \<open>The lines\<close>

definition rtsp_keys :: "string list" where
  "rtsp_keys = [''rtsp_method'', ''status_class'', ''req_cseq'', ''resp_cseq'', ''resp_status_code'',
     ''req_malformed'', ''resp_malformed'', ''cseq_match'', ''req_has_session'', ''resp_has_session'',
     ''session_established'', ''session_id_match'', ''session_id_changed'',
     ''teardown_for_existing_session'', ''teardown_without_session'', ''transport_req_udp'',
     ''transport_req_tcp'', ''transport_resp_udp'', ''transport_resp_tcp'',
     ''transport_client_ports_present'', ''transport_server_ports_present'', ''setup_success_count'',
     ''play_success_count'', ''all_tracks_setup'', ''keepalive_getparam'', ''keepalive_failed'', ''timeout'']"

lemma rtsp_kvs_keys [simp]:
  "map fst (rtsp_request_kvs s m h a b c d e) = rtsp_keys"
  "map fst (rtsp_response_kvs s sc code h a b c d e f g t) = rtsp_keys"
  by (simp_all add: rtsp_request_kvs_def rtsp_response_kvs_def rtsp_keys_def)

lemma rtsp_keys_wf: "list_all wf_key rtsp_keys" "distinct rtsp_keys"
  by code_simp+

definition rtsp_value :: "string \<Rightarrow> bool" where
  "rtsp_value v \<longleftrightarrow> plain_str v \<and> length v \<le> 14"

lemma rtsp_value_lits [simp]:
  "rtsp_value ''false''" "rtsp_value ''-1''" "rtsp_value ''0''" "rtsp_value ''scNotSet''"
  "rtsp_value (bool_str b)" "rtsp_value (get_status_class c)"
  by (simp_all add: rtsp_value_def plain_str_def plain_def bval_def bool_str_def get_status_class_def)

lemma rtsp_value_sdec: "- 2147483648 \<le> x \<Longrightarrow> x < 2147483648 \<Longrightarrow> rtsp_value (sdec x)"
  using length_sdec32 [of x] by (simp add: rtsp_value_def)

lemma rtsp_value_enum: "e \<in> set rtsp_enums \<Longrightarrow> rtsp_value e"
  using rtsp_enums_wf [of e] by (simp add: rtsp_value_def)

text \<open>The pairs that depend on a session are constant in the reachable part.\<close>

definition rtsp_dead_keys :: "string list" where
  "rtsp_dead_keys = [''session_established'', ''session_id_match'', ''session_id_changed'',
     ''teardown_for_existing_session'', ''teardown_without_session'', ''all_tracks_setup'',
     ''keepalive_getparam'', ''keepalive_failed'']"

definition rtsp_printed :: "rtsp_state \<times> kv list \<Rightarrow> bool" where
  "rtsp_printed r \<longleftrightarrow> rtsp_inv (fst r) \<and> map fst (snd r) = rtsp_keys \<and> list_all rtsp_value (map snd (snd r))
     \<and> list_all (\<lambda>k. map_of (snd r) k = Some ''false'') rtsp_dead_keys"

lemma rtsp_request_printed:
  assumes "rtsp_inv s" and "m \<in> set rtsp_enums" and "wf_headers h" and "\<not> b1" "\<not> b2" "\<not> b3" "\<not> b4"
  shows "rtsp_printed (s, rtsp_request_kvs s m h a b1 b2 b3 b4)"
proof -
  have "list_all rtsp_value (map snd (rtsp_request_kvs s m h a b1 b2 b3 b4))"
    using assms
    by (simp add: rtsp_request_kvs_def rtsp_value_enum rtsp_value_sdec wf_headers_def rtsp_inv_def)
  moreover have "list_all (\<lambda>k. map_of (rtsp_request_kvs s m h a b1 b2 b3 b4) k = Some ''false'') rtsp_dead_keys"
    using assms(1,4-7)
    by (simp add: rtsp_request_kvs_def rtsp_dead_keys_def rtsp_inv_def all_tracks_setup_def bool_str_def)
  ultimately show ?thesis using assms(1) by (simp add: rtsp_printed_def)
qed

lemma rtsp_response_printed:
  assumes "rtsp_inv s" and "wf_headers h" and "- 2147483648 \<le> code" and "code < 2147483648"
  shows "rtsp_printed (s, rtsp_response_kvs s (get_status_class code) code h a b False False False False False t)"
proof -
  let ?kvs = "rtsp_response_kvs s (get_status_class code) code h a b False False False False False t"
  have "list_all rtsp_value (map snd ?kvs)"
    using assms
    by (simp add: rtsp_response_kvs_def rtsp_value_enum rtsp_value_sdec wf_headers_def rtsp_inv_def)
  moreover have "list_all (\<lambda>k. map_of ?kvs k = Some ''false'') rtsp_dead_keys"
    using assms(1)
    by (simp add: rtsp_response_kvs_def rtsp_dead_keys_def rtsp_inv_def all_tracks_setup_def bool_str_def)
  ultimately show ?thesis using assms(1) by (simp add: rtsp_printed_def)
qed

lemma no_headers_wf: "wf_headers no_headers"
  by (simp add: wf_headers_def no_headers_def)

lemma mNotSet_enum: "''mNotSet'' \<in> set rtsp_enums"
  by (simp add: rtsp_enums_def)

lemma parse_request_ok:
  "(if b then parse_request buf len else Some (''mNotSet'', no_headers)) = Some (m, h) \<Longrightarrow>
   m \<in> set rtsp_enums \<and> wf_headers h"
  using parse_headers_wf [OF no_headers_wf] no_headers_wf parse_request_method_enum mNotSet_enum
  by (auto simp: parse_request_def bind_eq_Some_conv split: if_splits)

lemma rtsp_save_inv:
  "rtsp_inv s \<Longrightarrow> m \<in> set rtsp_enums \<Longrightarrow> wf_headers h \<Longrightarrow> rtsp_inv (rtsp_save_request s m h)"
  using rtsp_enums_wf [of m] by (simp add: rtsp_save_request_def rtsp_inv_def wf_headers_def)

lemma parse_response_ok:
  "(if b then parse_response buf len else Some (0, no_headers)) = Some (code, h) \<Longrightarrow>
   wf_headers h \<and> - 2147483648 \<le> code \<and> code < 2147483648"
  using parse_headers_wf [OF no_headers_wf] no_headers_wf atoi_str_bounds
  by (auto simp: parse_response_def parse_response_status_def bind_eq_Some_conv split: if_splits)

lemma rtsp_request_step_ok:
  assumes "rtsp_inv s"
  shows "rets rtsp_printed (rtsp_request_step s buf len)"
proof -
  have i: "rtsp_inv (rtsp_ensure_session s)" by (rule rtsp_ensure_inv [OF assms])
  have ne: "\<not> g_session_established (rtsp_save_request (rtsp_ensure_session s) m h)" for m h
    using i by (simp add: rtsp_save_request_def rtsp_inv_def)
  show ?thesis
    unfolding rtsp_request_step_def Let_def
    using ne by (intro rets rtsp_request_printed rtsp_save_inv i)
      (auto dest!: parse_request_ok simp: rtsp_enum_neq dest: rtsp_enum_neq)
qed

lemma rtsp_response_step_ok:
  assumes "rtsp_inv s"
  shows "rets rtsp_printed (rtsp_response_step s buf len)"
proof -
  let ?s = "rtsp_ensure_session s"
  have i: "rtsp_inv ?s" by (rule rtsp_ensure_inv [OF assms])
  then have ne: "\<not> g_session_established ?s" "g_last_req_method ?s \<noteq> ''TEARDOWN''" "g_last_req_method ?s \<noteq> ''GET_PARAMETER''"
    using rtsp_enum_neq by (auto simp: rtsp_inv_def)
  show ?thesis
    unfolding rtsp_response_step_def Let_def rtsp_updates_id [OF i] Option.bind.bind_lunit prod.case
    using i ne by (intro rets) (auto dest!: parse_response_ok intro: rtsp_response_printed)
qed

lemma is_malformed_total:
  assumes "len \<le> length buf"
  shows "\<exists>b. is_malformed_request buf len = Some b" and "\<exists>b. is_malformed_response buf len = Some b"
  using assms by (cases buf; auto simp: is_malformed_request_def is_malformed_response_def memcmp_eq_def)+

lemma parse_message_total:
  assumes "len \<le> length buf"
  shows "\<exists>r. parse_request buf len = Some r" and "\<exists>r. parse_response buf len = Some r"
proof -
  from extract_line_total [OF assms, of 1024] obtain n p l
    where e: "extract_line len buf 1024 = Some (n, p, l)" "n \<le> length p" by blast
  with parse_headers_total [OF e(2), of no_headers]
  show "\<exists>r. parse_request buf len = Some r" and "\<exists>r. parse_response buf len = Some r"
    by (auto simp: parse_request_def parse_response_def)
qed

lemma if_defined: "\<exists>r. m = Some r \<Longrightarrow> \<exists>x y. (if b then m else Some d) = Some (x, y)"
  by (cases b; cases d) auto

lemma rtsp_request_step_total:
  assumes "len \<le> length buf"
  shows "\<exists>s' kvs. rtsp_request_step s buf len = Some (s', kvs)"
proof -
  obtain b where "is_malformed_request buf len = Some b" using is_malformed_total(1) [OF assms] by blast
  moreover obtain m h where "(if \<not> b \<and> len > 0 then parse_request buf len else Some (''mNotSet'', no_headers)) = Some (m, h)"
    using if_defined [OF parse_message_total(1) [OF assms]] by blast
  ultimately show ?thesis by (simp add: rtsp_request_step_def Let_def)
qed

lemma rtsp_response_step_total:
  assumes "rtsp_inv s" and "len \<le> length buf"
  shows "\<exists>s' kvs. rtsp_response_step s buf len = Some (s', kvs)"
proof -
  obtain b where "is_malformed_response buf len = Some b" using is_malformed_total(2) [OF assms(2)] by blast
  moreover obtain c h where "(if \<not> b \<and> len > 0 then parse_response buf len else Some (0, no_headers)) = Some (c, h)"
    using if_defined [OF parse_message_total(2) [OF assms(2)]] by blast
  ultimately show ?thesis
    using rtsp_updates_id [OF rtsp_ensure_inv [OF assms(1)]] by (simp add: rtsp_response_step_def Let_def)
qed

lemma rtsp_line_kvs:
  assumes "map fst kvs = rtsp_keys" and "list_all rtsp_value (map snd kvs)"
  shows "line_kvs kvs" and "length (render_kvs kvs) + 563 \<le> 2048"
proof -
  have "fst (hd kvs) = hd (map fst kvs)" "kvs \<noteq> []"
    using assms(1) by (cases kvs; simp add: rtsp_keys_def)+
  then show "line_kvs kvs"
    using assms rtsp_keys_wf
    by (auto simp: line_kvs_def wf_kvs_split rtsp_value_def list_all_iff)
      (simp add: rtsp_keys_def islower_def bval_def)
  have "list_all (\<lambda>v. length v \<le> 14) (map snd kvs)"
    using assms(2) by (auto simp: rtsp_value_def list_all_iff)
  from length_render_kvs_le [OF this]
  have "length (render_kvs kvs) \<le> sum_list (map length rtsp_keys) + length kvs * 16"
    using assms(1) by simp
  moreover have "length kvs = length rtsp_keys" using assms(1) by (metis length_map)
  ultimately show "length (render_kvs kvs) + 563 \<le> 2048" by (simp add: rtsp_keys_def)
qed

interpretation rtsp: traced_adapter rtsp_predicate_reset_session rtsp_request_step rtsp_response_step
  rtsp_build_request_pred_line rtsp_build_response_pred_line "\<lambda>_ _. True" g_msg_id
  "\<lambda>m. g_msg_id_update (\<lambda>_. m)" rtsp_inv "\<lambda>_ _. True" "\<lambda>_. True"
proof unfold_locales
  show "rtsp_inv s' \<and> line_kvs kvs" if "rtsp_inv s" "rtsp_request_step s buf len = Some (s', kvs)"
    for s buf len s' kvs
    using rets_D [OF rtsp_request_step_ok [OF that(1)] that(2)] rtsp_line_kvs(1) by (simp add: rtsp_printed_def)
  show "rtsp_inv s' \<and> line_kvs kvs" if "rtsp_inv s" "rtsp_response_step s buf len = Some (s', kvs)"
    for s buf len s' kvs
    using rets_D [OF rtsp_response_step_ok [OF that(1)] that(2)] rtsp_line_kvs(1) by (simp add: rtsp_printed_def)
qed (auto simp: rtsp_build_request_pred_line_def rtsp_build_response_pred_line_def rtsp_inv_reset Let_def
    intro: rtsp_request_step_total rtsp_response_step_total, simp add: rtsp_inv_def)

inductive rtsp_reach :: "rtsp_state \<Rightarrow> bool" where
  rtsp_start: "rtsp_reach rtsp_init"
| rtsp_reset: "rtsp_reach s \<Longrightarrow> rtsp_reach (rtsp_predicate_reset_session s)"
| rtsp_request: "rtsp_reach s \<Longrightarrow> len \<le> length buf \<Longrightarrow> 1 < out_sz \<Longrightarrow>
    rtsp_build_request_pred_line s buf len out out_sz = Some (s', line) \<Longrightarrow> rtsp_reach s'"
| rtsp_response: "rtsp_reach s \<Longrightarrow> len \<le> length buf \<Longrightarrow> 1 < out_sz \<Longrightarrow>
    rtsp_build_response_pred_line s buf len out out_sz = Some (s', line) \<Longrightarrow> rtsp_reach s'"

lemma rtsp_reach_inv: "rtsp_reach s \<Longrightarrow> rtsp_inv s"
proof (induction rule: rtsp_reach.induct)
  case (rtsp_request s len buf out_sz out s' line)
  then show ?case using rtsp.req_keeps by blast
next
  case (rtsp_response s len buf out_sz out s' line)
  then show ?case using rtsp.resp_keeps by blast
qed (simp_all add: rtsp_inv_reset)

lemma rtsp_line_lookup:
  assumes "rtsp_printed (s1, kvs)"
  shows "list_all (\<lambda>k. map_of (rev (rtsp.all_kvs s1 kvs dir buf len)) k = Some ''false'') rtsp_dead_keys"
proof -
  have "map_of (rev kvs) = map_of kvs"
    using assms rtsp_keys_wf(2) by (simp add: rtsp_printed_def map_of_rev_distinct)
  then show ?thesis
    using assms by (simp add: rtsp_printed_def rtsp.all_kvs_def trace_kvs_def rtsp_dead_keys_def)
qed

section \<open>Properties of the RTSP adapter\<close>

text \<open>
  After a session reset the adapter gets through any banner and any sequence of
  messages and replies; the line reader terminates on every buffer and never leaves it, and every
  line is a single data line.
\<close>

lemma rtsp_session_lines:
  assumes "list_all sized xs" and "length banner < 2 ^ 31"
  shows "\<exists>s' ls. send_over_network_m1 rtsp_build_request_pred_line rtsp_build_response_pred_line
      (rtsp_predicate_reset_session s) banner xs = Some (s', ls) \<and> rtsp_inv s' \<and> list_all data_line ls"
  using rtsp.send_over_network_ok [OF TrueI rtsp_inv_reset(1) TrueI assms, of s] by (simp add: list_all_iff)

lemma rtsp_session_lines_sample:
  "\<exists>s' ls. send_over_network_m1 rtsp_build_request_pred_line rtsp_build_response_pred_line
      (rtsp_predicate_reset_session rtsp_init) [] [\<lparr>mdata = ''PLAY * RTSP/1.0'', sent_all = True, received = Some []\<rparr>]
      = Some (s', ls) \<and> rtsp_inv s' \<and> list_all data_line ls"
  using rtsp_session_lines [of "[\<lparr>mdata = ''PLAY * RTSP/1.0'', sent_all = True, received = Some []\<rparr>]" "[]" rtsp_init]
  by (simp add: sized_def)

text \<open>
  A header block is read line by line. For any list of non-empty lines of at most
  1022 characters, each ended by CR LF and the block by an empty line, the parser's result is the
  header update folded over the lines, whatever body follows.
\<close>

lemma rtsp_parse_headers_lines:
  assumes "list_all wf_text_line ls"
  shows "parse_headers (length (concat (map crlf ls)) + length (crlf []) + length body)
      (concat (map crlf ls) @ crlf [] @ body @ rest) h = Some (fold header_line ls h)"
  using parse_headers_text [OF assms, of "length body" "body @ rest" h] by simp

lemma rtsp_parse_headers_lines_sample:
  "parse_headers (length (concat (map crlf [''CSeq: 7''])) + length (crlf []) + length ''xy'')
     (concat (map crlf [''CSeq: 7'']) @ crlf [] @ ''xy'' @ [NUL]) no_headers = Some (fold header_line [''CSeq: 7''] no_headers)"
  using rtsp_parse_headers_lines [of "[''CSeq: 7'']" "''xy''" "[NUL]" no_headers] by (simp add: wf_text_line_def)

text \<open>
  C25 (safety): the session part of the machine is dead. Stored methods carry the prefix \<open>m\<close> and
  status classes the prefix \<open>sc\<close>, but the code compares them with \<open>SETUP\<close>, \<open>PLAY\<close>, \<open>TEARDOWN\<close>,
  \<open>GET_PARAMETER\<close> and \<open>SUCCESS\<close>: in every reachable state no session is established and no success
  was counted, and each of the eight pairs that depend on one reads \<open>false\<close> on every line.
\<close>

theorem rtsp_session_never_established:
  assumes "rtsp_reach s" and "len \<le> length buf"
  shows "\<not> g_session_established s \<and> g_setup_success_count s = 0 \<and> g_play_success_count s = 0
    \<and> (\<exists>s' line. rtsp_build_request_pred_line s buf len out 2048 = Some (s', line)
        \<and> list_all (\<lambda>k. parse_kv_line line k = Some ''false'') rtsp_dead_keys)
    \<and> (\<exists>s' line. rtsp_build_response_pred_line s buf len out 2048 = Some (s', line)
        \<and> list_all (\<lambda>k. parse_kv_line line k = Some ''false'') rtsp_dead_keys)"
proof -
  note i = rtsp_reach_inv [OF assms(1)]
  from rtsp_request_step_total [OF assms(2)] obtain s1 kvs1 where st1: "rtsp_request_step s buf len = Some (s1, kvs1)" by blast
  from rtsp_response_step_total [OF i assms(2)] obtain s2 kvs2 where st2: "rtsp_response_step s buf len = Some (s2, kvs2)" by blast
  have k1: "rtsp_printed (s1, kvs1)" by (rule rets_D [OF rtsp_request_step_ok [OF i] st1])
  have k2: "rtsp_printed (s2, kvs2)" by (rule rets_D [OF rtsp_response_step_ok [OF i] st2])
  have sz: "length (render_kvs kvs1) + 563 \<le> 2048" "length (render_kvs kvs2) + 563 \<le> 2048"
    using k1 k2 rtsp_line_kvs(2) by (simp_all add: rtsp_printed_def)
  have "\<exists>s' line. rtsp_build_request_pred_line s buf len out 2048 = Some (s', line)
        \<and> list_all (\<lambda>k. parse_kv_line line k = Some ''false'') rtsp_dead_keys"
    using rtsp.build_req_parse [OF i assms(2) st1 sz(1), of out] rtsp_line_lookup [OF k1, of "''C2S''" buf len]
    by (metis (no_types, lifting) list.pred_mono_strong)
  moreover have "\<exists>s' line. rtsp_build_response_pred_line s buf len out 2048 = Some (s', line)
        \<and> list_all (\<lambda>k. parse_kv_line line k = Some ''false'') rtsp_dead_keys"
    using rtsp.build_resp_parse [OF i assms(2) st2 sz(2), of out] rtsp_line_lookup [OF k2, of "''S2C''" buf len]
    by (metis (no_types, lifting) list.pred_mono_strong)
  ultimately show ?thesis using i by (simp add: rtsp_inv_def)
qed

theorem rtsp_session_never_established_witness:
  "\<not> g_session_established rtsp_init
    \<and> (\<exists>s' line. rtsp_build_response_pred_line rtsp_init ''RTSP/1.0 200 OK'' 15 [] 2048 = Some (s', line)
        \<and> list_all (\<lambda>k. parse_kv_line line k = Some ''false'') rtsp_dead_keys)"
  using rtsp_session_never_established [OF rtsp_start, of 15 "''RTSP/1.0 200 OK''" "[]"] by simp

end
