(* ===== verification/Sip_Adapter.thy ===== *)
theory Sip_Adapter
  imports Adapter
begin

text \<open>
  The SIP predicate adapter (\<open>SNPSFuzzer/monitor-src/sip_predicate_adapter.c\<close>): the dialog and
  registration state, the header search on the raw message, and the two builders. The adapter scans
  its buffer as a C string although it gets a pointer and a length, so the model shows where that
  matters: the lemmas give the buffers on which it returns, a buffer on which the header search does
  not advance, the dialog invariants, and which header the printed CSeq number is taken from.
\<close>

section \<open>State\<close>

record sip_state =
  dialog_established :: bool
  dialog_terminated :: bool
  early_dialog :: bool
  transaction_pending :: bool
  final_response_sent :: bool
  provisional_sent :: bool
  invite_in_progress :: bool
  invite_sent :: bool
  invite_received :: bool
  ack_sent :: bool
  bye_sent :: bool
  cancel_sent :: bool
  register_sent :: bool
  registered :: bool
  auth_required :: bool
  auth_provided :: bool
  call_id :: string
  from_tag :: string
  to_tag :: string
  cseq_number :: int
  last_method :: string
  last_resp_code :: int
  connection_closed :: bool

text \<open>The static object is zero; only a reset stores the name of the empty method.\<close>

definition sip_init :: sip_state where
  "sip_init = \<lparr>dialog_established = False, dialog_terminated = False, early_dialog = False,
     transaction_pending = False, final_response_sent = False, provisional_sent = False,
     invite_in_progress = False, invite_sent = False, invite_received = False, ack_sent = False,
     bye_sent = False, cancel_sent = False, register_sent = False, registered = False,
     auth_required = False, auth_provided = False, call_id = [], from_tag = [], to_tag = [],
     cseq_number = 0, last_method = [], last_resp_code = 0, connection_closed = False\<rparr>"

definition sip_predicate_reset_session :: "sip_state \<Rightarrow> sip_state" where
  "sip_predicate_reset_session s = sip_init\<lparr>last_method := ''mNotSet''\<rparr>"

section \<open>Scanning the message\<close>

fun skip_to_eol :: "cptr \<Rightarrow> cptr option" where
  "skip_to_eol [] = None"
| "skip_to_eol (c # p) = (if c \<noteq> NUL \<and> c \<noteq> CR \<and> c \<noteq> LF then skip_to_eol p else Some (c # p))"

definition skip_line :: "cptr \<Rightarrow> cptr option" where
  "skip_line p = do {
     q \<leftarrow> skip_to_eol p;
     c \<leftarrow> rd q 0;
     let q1 = (if c = CR then drop 1 q else q);
     d \<leftarrow> rd q1 0;
     Some (if d = LF then drop 1 q1 else q1)
   }"

fun extract_method_from :: "nat \<Rightarrow> nat \<Rightarrow> cptr \<Rightarrow> byte list option" where
  "extract_method_from (Suc len) (Suc room) p = do {
     c \<leftarrow> rd p 0;
     if c = CHR '' '' then Some []
     else map_option (Cons c) (extract_method_from len room (drop 1 p))
   }"
| "extract_method_from _ _ p = Some []"

definition extract_method :: "cptr \<Rightarrow> nat \<Rightarrow> nat \<Rightarrow> string option" where
  "extract_method buf len method_sz = map_option cstr_of (extract_method_from len (method_sz - 1) buf)"

definition sip_methods :: "string list" where
  "sip_methods = [''INVITE'', ''ACK'', ''BYE'', ''CANCEL'', ''REGISTER'', ''OPTIONS'', ''PRACK'',
     ''SUBSCRIBE'', ''NOTIFY'', ''PUBLISH'', ''INFO'', ''REFER'', ''MESSAGE'', ''UPDATE'']"

definition map_sip_method :: "string \<Rightarrow> string" where
  "map_sip_method meth = (if meth \<in> set sip_methods then CHR ''m'' # meth else ''mNotSet'')"

definition three_digits :: "cptr \<Rightarrow> (byte \<times> byte \<times> byte) option option" where
  "three_digits p = do {
     a \<leftarrow> rd p 0;
     if \<not> isdigit a then Some None else do {
     b \<leftarrow> rd p 1;
     if \<not> isdigit b then Some None else do {
     c \<leftarrow> rd p 2;
     if \<not> isdigit c then Some None else Some (Some (a, b, c))}}
   }"

definition extract_response_code :: "cptr \<Rightarrow> nat \<Rightarrow> int option" where
  "extract_response_code buf len =
     (if len < 12 then Some 0
      else do {
        m \<leftarrow> memcmp_eq buf ''SIP/2.0 '';
        if \<not> m then Some 0
        else do {
          d \<leftarrow> three_digits (drop 8 buf);
          (case d of
            None \<Rightarrow> Some 0
          | Some (a, b, c) \<Rightarrow>
              Some ((int (bval a) - 48) * 100 + (int (bval b) - 48) * 10 + (int (bval c) - 48)))
        }
      })"

definition map_status_class :: "int \<Rightarrow> string" where
  "map_status_class code =
     (if code = 0 then ''scNotSet''
      else if 100 \<le> code \<and> code < 200 then ''scProvisional''
      else if 200 \<le> code \<and> code < 300 then ''scSuccess''
      else if 300 \<le> code \<and> code < 400 then ''scRedirection''
      else if 400 \<le> code \<and> code < 500 then ''scClientError''
      else if 500 \<le> code \<and> code < 600 then ''scServerError''
      else if 600 \<le> code \<and> code < 700 then ''scGlobalError''
      else ''scNotSet'')"

text \<open>\<open>strncasecmp(p, name, strlen(name)) == 0\<close> on the raw message.\<close>

fun strncasecmp_eq :: "cptr \<Rightarrow> string \<Rightarrow> bool option" where
  "strncasecmp_eq p [] = Some True"
| "strncasecmp_eq [] (d # s) = None"
| "strncasecmp_eq (c # p) (d # s) = (if tolower c \<noteq> tolower d then Some False else strncasecmp_eq p s)"

text \<open>
  One round of the search loop. A pointer \<open>p\<close> lies before \<open>end\<close> when more than \<open>behind\<close> bytes are left,
  where \<open>behind\<close> is the number of bytes behind the message. \<^const>\<open>Inl\<close> is the result, the pointer to
  the value of the header or nothing, and \<^const>\<open>Inr\<close> the pointer for the next round.
\<close>

definition find_header_step :: "nat \<Rightarrow> string \<Rightarrow> cptr \<Rightarrow> (cptr option + cptr) option" where
  "find_header_step behind name p =
     (if length p > behind then do {
        c \<leftarrow> rd p 0;
        if c = CR \<or> c = LF then Some (Inl None)
        else do {
          m \<leftarrow> strncasecmp_eq p name;
          d \<leftarrow> (if m then rd p (length name) else Some NUL);
          if m \<and> d = CHR '':'' then map_option (\<lambda>q. Inl (Some q)) (skip_ws (drop (length name + 1) p))
          else map_option Inr (skip_line p)
        }
      } else Some (Inl None))"

partial_function (option) find_header_loop :: "nat \<Rightarrow> string \<Rightarrow> cptr \<Rightarrow> cptr option option" where [code]:
  "find_header_loop behind name p = do {
     r \<leftarrow> find_header_step behind name p;
     (case r of Inl res \<Rightarrow> Some res | Inr q \<Rightarrow> find_header_loop behind name q)
   }"

text \<open>The value: up to a line end, the end of the message or the size of the array.\<close>

fun header_bytes :: "nat \<Rightarrow> nat \<Rightarrow> cptr \<Rightarrow> byte list option" where
  "header_bytes behind 0 p = Some []"
| "header_bytes behind (Suc room) p =
     (if length p > behind then do {
        c \<leftarrow> rd p 0;
        if c = CR \<or> c = LF then Some []
        else map_option (Cons c) (header_bytes behind room (drop 1 p))
      } else Some [])"

text \<open>
  The array \<open>value\<close> keeps its old content, given as the last argument, when nothing is found; the
  result is whether the header was found and the C string the array holds.
\<close>

definition find_header :: "cptr \<Rightarrow> nat \<Rightarrow> string \<Rightarrow> string \<Rightarrow> (bool \<times> string) option" where
  "find_header buf len name value = do {
     let behind = length buf - len;
     p \<leftarrow> skip_line buf;
     r \<leftarrow> find_header_loop behind name p;
     (case r of
       None \<Rightarrow> Some (False, value)
     | Some q \<Rightarrow> do { v \<leftarrow> header_bytes behind 255 q; Some (True, cstr_of v) })
   }"

text \<open>\<open>strstr\<close> on the message, which must be a C string.\<close>

definition strstr_buf :: "cptr \<Rightarrow> string \<Rightarrow> bool option" where
  "strstr_buf buf s = map_option (\<lambda>t. contains t s) (cstr buf)"

definition is_malformed_request :: "cptr \<Rightarrow> nat \<Rightarrow> bool option" where
  "is_malformed_request buf len =
     (if len < 10 then Some True
      else do {
        c \<leftarrow> rd buf 0;
        if \<not> isalpha c then Some True else do {
        v \<leftarrow> strstr_buf buf ''SIP/2.0'';
        if \<not> v then Some True else do {
        via1 \<leftarrow> strstr_buf buf ''Via:''; via2 \<leftarrow> strstr_buf buf ''via:'';
        if \<not> via1 \<and> \<not> via2 then Some True else do {
        cid1 \<leftarrow> strstr_buf buf ''Call-ID:''; cid2 \<leftarrow> strstr_buf buf ''call-id:'';
        if \<not> cid1 \<and> \<not> cid2 then Some True else do {
        cs1 \<leftarrow> strstr_buf buf ''CSeq:''; cs2 \<leftarrow> strstr_buf buf ''cseq:'';
        Some (\<not> cs1 \<and> \<not> cs2)}}}}
      })"

definition is_malformed_response :: "cptr \<Rightarrow> nat \<Rightarrow> bool option" where
  "is_malformed_response buf len =
     (if len < 12 then Some True
      else do {
        m \<leftarrow> memcmp_eq buf ''SIP/2.0 '';
        if \<not> m then Some True
        else do { d \<leftarrow> three_digits (drop 8 buf); Some (d = None) }
      })"

text \<open>The text after the first \<open>tag=\<close>.\<close>

fun after_tag :: "string \<Rightarrow> string option" where
  "after_tag [] = None"
| "after_tag (c # p) = (if take 4 (c # p) = ''tag='' then Some (drop 4 (c # p)) else after_tag p)"

definition extract_tag :: "string \<Rightarrow> nat \<Rightarrow> string" where
  "extract_tag header_value tag_sz = (case after_tag header_value of
     None \<Rightarrow> []
   | Some p \<Rightarrow> take (tag_sz - 1)
       (takeWhile (\<lambda>c. c \<noteq> CHR '';'' \<and> c \<noteq> CHR '' '' \<and> c \<noteq> CR \<and> c \<noteq> LF) p))"

section \<open>Builders\<close>

definition dialog_state_name :: "sip_state \<Rightarrow> string" where
  "dialog_state_name s = (if dialog_terminated s then ''dsTerminated''
     else if dialog_established s then ''dsConfirmed''
     else if early_dialog s then ''dsEarly'' else ''dsNone'')"

definition registration_state_name :: "sip_state \<Rightarrow> string" where
  "registration_state_name s = (if registered s then ''rsRegistered''
     else if register_sent s then ''rsRegistering'' else ''rsNotRegistered'')"

text \<open>The pairs from \<open>connection_closed\<close> to \<open>invite_in_progress\<close>, which both lines share.\<close>

definition sip_state_kvs :: "sip_state \<Rightarrow> kv list" where
  "sip_state_kvs s = [
     (''connection_closed'', bool_str (connection_closed s)),
     (''dialog_established'', bool_str (dialog_established s)),
     (''dialog_terminated'', bool_str (dialog_terminated s)),
     (''early_dialog'', bool_str (early_dialog s)),
     (''invite_sent'', bool_str (invite_sent s)), (''invite_received'', bool_str (invite_received s)),
     (''ack_sent'', bool_str (ack_sent s)), (''bye_sent'', bool_str (bye_sent s)),
     (''cancel_sent'', bool_str (cancel_sent s)),
     (''transaction_pending'', bool_str (transaction_pending s)),
     (''final_response_sent'', bool_str (final_response_sent s)),
     (''provisional_sent'', bool_str (provisional_sent s)), (''retransmission'', ''false''),
     (''register_sent'', bool_str (register_sent s)), (''registered'', bool_str (registered s)),
     (''auth_required'', bool_str (auth_required s)), (''auth_provided'', bool_str (auth_provided s)),
     (''invite_in_progress'', bool_str (invite_in_progress s))]"

definition sip_match_kvs :: "kv list" where
  "sip_match_kvs = [(''cseq_matches'', ''true''), (''callid_matches'', ''true''), (''to_tag_matches'', ''true''),
     (''from_tag_matches'', ''true''), (''via_matches'', ''true'')]"

text \<open>What the request builder extracts from the message.\<close>

record sip_request =
  r_method :: string
  r_has_via :: bool
  r_has_cseq :: bool
  r_has_call_id :: bool
  r_has_contact :: bool
  r_value :: string
  r_from_tag :: string
  r_to_tag :: string
  r_expires :: int
  r_max_forwards :: int
  r_content_length :: int
  r_has_sdp :: bool
  r_has_auth :: bool
  r_malformed :: bool

text \<open>
  One array receives the value of every header that is looked up; \<open>r_value\<close> is its content after
  the search for \<open>Contact\<close>, when the CSeq number and the Call-ID are taken from it. \<open>hv0\<close> is its
  content at the start, which is not initialised.
\<close>

definition sip_parse_request :: "string \<Rightarrow> cptr \<Rightarrow> nat \<Rightarrow> sip_request option" where
  "sip_parse_request hv0 buf len = do {
     method_str \<leftarrow> extract_method buf len 32;
     (has_via, hv1) \<leftarrow> find_header buf len ''Via'' hv0;
     (has_cseq, hv2) \<leftarrow> find_header buf len ''CSeq'' hv1;
     (has_call_id, hv3) \<leftarrow> find_header buf len ''Call-ID'' hv2;
     (has_contact, hv4) \<leftarrow> find_header buf len ''Contact'' hv3;
     (has_from, hv5) \<leftarrow> find_header buf len ''From'' hv4;
     (has_to, hv6) \<leftarrow> find_header buf len ''To'' hv5;
     (has_expires, hv7) \<leftarrow> find_header buf len ''Expires'' hv6;
     (has_mf, hv8) \<leftarrow> find_header buf len ''Max-Forwards'' hv7;
     (has_cl, hv9) \<leftarrow> find_header buf len ''Content-Length'' hv8;
     let content_length = (if has_cl then atoi_str hv9 else 0);
     has_sdp \<leftarrow> (if content_length > 0 then strstr_buf buf ''application/sdp'' else Some False);
     (auth1, hv10) \<leftarrow> find_header buf len ''Authorization'' hv9;
     has_auth \<leftarrow> (if auth1 then Some True
                  else map_option fst (find_header buf len ''Proxy-Authorization'' hv10));
     req_malformed \<leftarrow> is_malformed_request buf len;
     Some \<lparr>r_method = map_sip_method method_str, r_has_via = has_via, r_has_cseq = has_cseq,
       r_has_call_id = has_call_id, r_has_contact = has_contact, r_value = hv4,
       r_from_tag = (if has_from then extract_tag hv5 64 else []),
       r_to_tag = (if has_to then extract_tag hv6 64 else []),
       r_expires = (if has_expires then atoi_str hv7 else 3600),
       r_max_forwards = (if has_mf then atoi_str hv8 else 70),
       r_content_length = content_length, r_has_sdp = has_sdp, r_has_auth = has_auth,
       r_malformed = req_malformed\<rparr>
   }"

definition sip_cseq :: "sip_request \<Rightarrow> int" where
  "sip_cseq r = (if r_has_cseq r then atoi_str (r_value r) else 0)"

text \<open>The identifiers a request leaves in the state.\<close>

definition sip_save_ids :: "sip_request \<Rightarrow> sip_state \<Rightarrow> sip_state" where
  "sip_save_ids r s = s\<lparr>last_method := take 31 (r_method r),
     cseq_number := (if r_has_cseq r then sip_cseq r else cseq_number s),
     call_id := (if r_has_call_id r then take 127 (r_value r) else call_id s),
     from_tag := (if r_from_tag r \<noteq> [] then r_from_tag r else from_tag s)\<rparr>"

definition sip_method_update :: "sip_request \<Rightarrow> sip_state \<Rightarrow> sip_state" where
  "sip_method_update r s =
     (if r_method r = ''mINVITE'' then s\<lparr>invite_sent := True, invite_in_progress := True\<rparr>
      else if r_method r = ''mACK'' then s\<lparr>ack_sent := True\<rparr>
      else if r_method r = ''mBYE'' then s\<lparr>bye_sent := True\<rparr>
      else if r_method r = ''mCANCEL'' then s\<lparr>cancel_sent := True\<rparr>
      else if r_method r = ''mREGISTER'' then s\<lparr>register_sent := True, auth_provided := r_has_auth r\<rparr>
      else s)"

definition sip_request_kvs :: "sip_state \<Rightarrow> sip_request \<Rightarrow> kv list" where
  "sip_request_kvs s r = [
     (''sip_method'', r_method r), (''sip_status_class'', ''scNotSet''), (''resp_code'', ''0''),
     (''cseq_number'', sdec (sip_cseq r)), (''expires_value'', sdec (r_expires r)),
     (''max_forwards'', sdec (r_max_forwards r)), (''content_length'', sdec (r_content_length r)),
     (''retry_after'', ''0''),
     (''req_malformed'', bool_str (r_malformed r)), (''resp_malformed'', ''false''),
     (''has_to_tag'', bool_str (r_to_tag r \<noteq> [])), (''has_from_tag'', bool_str (r_from_tag r \<noteq> [])),
     (''has_call_id'', bool_str (r_has_call_id r)), (''has_cseq'', bool_str (r_has_cseq r)),
     (''has_via'', bool_str (r_has_via r)), (''has_contact'', bool_str (r_has_contact r)),
     (''has_sdp'', bool_str (r_has_sdp r)), (''timeout'', ''false'')]
     @ sip_state_kvs s
     @ [(''method_requires_dialog'', bool_str (r_method r = ''mBYE'' \<or> r_method r = ''mUPDATE'')),
        (''method_creates_dialog'', bool_str (r_method r = ''mINVITE'' \<or> r_method r = ''mSUBSCRIBE''))]
     @ sip_match_kvs
     @ [(''dialog_state'', dialog_state_name s),
        (''transaction_state'', if transaction_pending s then ''tsProceeding'' else ''tsNone''),
        (''registration_state'', registration_state_name s)]"

definition sip_request_step :: "string \<Rightarrow> sip_state \<Rightarrow> cptr \<Rightarrow> nat \<Rightarrow> (sip_state \<times> kv list) option" where
  "sip_request_step hv0 s buf len = do {
     r \<leftarrow> sip_parse_request hv0 buf len;
     let s1 = sip_method_update r (sip_save_ids r s);
     Some (s1, sip_request_kvs s1 r)
   }"

definition sip_build_request_pred_line ::
  "string \<Rightarrow> sip_state \<Rightarrow> cptr \<Rightarrow> nat \<Rightarrow> string \<Rightarrow> nat \<Rightarrow> (sip_state \<times> string) option" where
  "sip_build_request_pred_line hv0 s buf len out out_sz = do {
     (s1, kvs) \<leftarrow> sip_request_step hv0 s buf len;
     Some (s1, snprintf out out_sz (render_kvs kvs))
   }"

definition sip_response_update :: "int \<Rightarrow> bool \<Rightarrow> sip_state \<Rightarrow> sip_state" where
  "sip_response_update resp_code has_to_tag s =
     (if 100 \<le> resp_code \<and> resp_code < 200 then
        (let s1 = s\<lparr>transaction_pending := True, provisional_sent := True\<rparr> in
         if has_to_tag \<and> last_method s1 = ''mINVITE'' then s1\<lparr>early_dialog := True\<rparr> else s1)
      else if resp_code \<ge> 200 then
        (let s1 = s\<lparr>final_response_sent := True, transaction_pending := False\<rparr> in
         if resp_code = 200 then
           (if last_method s1 = ''mINVITE'' then s1\<lparr>dialog_established := True, invite_in_progress := False\<rparr>
            else if last_method s1 = ''mREGISTER'' then s1\<lparr>registered := True, auth_required := False\<rparr>
            else if last_method s1 = ''mBYE'' then s1\<lparr>dialog_terminated := True, dialog_established := False\<rparr>
            else s1)
         else if resp_code = 401 \<or> resp_code = 407 then s1\<lparr>auth_required := True\<rparr>
         else if resp_code = 487 then s1\<lparr>invite_in_progress := False\<rparr>
         else s1)
      else s)"

definition sip_response_kvs :: "sip_state \<Rightarrow> int \<Rightarrow> int \<Rightarrow> bool \<Rightarrow> bool \<Rightarrow> bool \<Rightarrow> bool \<Rightarrow> kv list" where
  "sip_response_kvs s resp_code content_length resp_malformed has_to_tag has_sdp timeout = [
     (''sip_method'', last_method s), (''sip_status_class'', map_status_class resp_code),
     (''resp_code'', sdec resp_code), (''cseq_number'', sdec (cseq_number s)), (''expires_value'', ''3600''),
     (''max_forwards'', ''70''), (''content_length'', sdec content_length), (''retry_after'', ''0''),
     (''req_malformed'', ''false''), (''resp_malformed'', bool_str resp_malformed),
     (''has_to_tag'', bool_str has_to_tag), (''has_from_tag'', ''true''), (''has_call_id'', ''true''),
     (''has_cseq'', ''true''), (''has_via'', ''true''), (''has_contact'', bool_str (resp_code = 200)),
     (''has_sdp'', bool_str has_sdp), (''timeout'', bool_str timeout)]
     @ sip_state_kvs s
     @ [(''method_requires_dialog'', ''false''), (''method_creates_dialog'', ''false'')]
     @ sip_match_kvs
     @ [(''dialog_state'', dialog_state_name s),
        (''transaction_state'', if final_response_sent s then ''tsCompleted''
           else if transaction_pending s then ''tsProceeding'' else ''tsNone''),
        (''registration_state'', registration_state_name s)]"

definition sip_response_step :: "string \<Rightarrow> sip_state \<Rightarrow> cptr \<Rightarrow> nat \<Rightarrow> (sip_state \<times> kv list) option" where
  "sip_response_step hv0 s buf len = do {
     resp_code \<leftarrow> extract_response_code buf len;
     resp_malformed \<leftarrow> is_malformed_response buf len;
     let timeout = (len = 0);
     (has_to, hv1) \<leftarrow> find_header buf len ''To'' hv0;
     let tag = (if has_to then extract_tag hv1 64 else []);
     let has_to_tag = (tag \<noteq> []);
     (has_cl, hv2) \<leftarrow> find_header buf len ''Content-Length'' hv1;
     let content_length = (if has_cl then atoi_str hv2 else 0);
     has_sdp \<leftarrow> (if content_length > 0 then strstr_buf buf ''application/sdp'' else Some False);
     let s1 = s\<lparr>last_resp_code := resp_code, to_tag := (if has_to_tag then tag else to_tag s)\<rparr>;
     let s2 = sip_response_update resp_code has_to_tag s1;
     Some (s2, sip_response_kvs s2 resp_code content_length resp_malformed has_to_tag has_sdp timeout)
   }"

definition sip_build_response_pred_line ::
  "string \<Rightarrow> sip_state \<Rightarrow> cptr \<Rightarrow> nat \<Rightarrow> string \<Rightarrow> nat \<Rightarrow> (sip_state \<times> string) option" where
  "sip_build_response_pred_line hv0 s buf len out out_sz = do {
     (s1, kvs) \<leftarrow> sip_response_step hv0 s buf len;
     Some (s1, snprintf out out_sz (render_kvs kvs))
   }"

section \<open>Messages that are C strings\<close>

text \<open>A message without NUL bytes, followed by one: every pointer the adapter uses stays before it.\<close>

definition text_at :: "nat \<Rightarrow> cptr \<Rightarrow> bool" where
  "text_at behind p \<longleftrightarrow> (\<exists>pre rest. p = pre @ NUL # rest \<and> NUL \<notin> set pre \<and> behind = Suc (length rest))"

lemma text_atI: "NUL \<notin> set pre \<Longrightarrow> text_at (Suc (length rest)) (pre @ NUL # rest)"
  by (auto simp: text_at_def)

lemma text_at_cases:
  assumes "text_at behind p"
  obtains rest where "p = NUL # rest" "behind = Suc (length rest)"
    | c q where "p = c # q" "c \<noteq> NUL" "text_at behind q" "behind < length p"
proof -
  from assms obtain pre rest where p: "p = pre @ NUL # rest" "NUL \<notin> set pre" "behind = Suc (length rest)"
    by (auto simp: text_at_def)
  show ?thesis
  proof (cases pre)
    case Nil
    with p that(1) show ?thesis by simp
  next
    case (Cons c q)
    with p have "text_at behind (q @ NUL # rest)" by (auto intro: text_atI)
    with p Cons show ?thesis by (intro that(2) [of c "q @ NUL # rest"]) auto
  qed
qed

lemma text_at_append: "NUL \<notin> set pre \<Longrightarrow> text_at behind q \<Longrightarrow> text_at behind (pre @ q)"
proof -
  assume n: "NUL \<notin> set pre" and "text_at behind q"
  then obtain q' rest where "q = q' @ NUL # rest" "NUL \<notin> set q'" "behind = Suc (length rest)"
    by (auto simp: text_at_def)
  then show ?thesis using text_atI [of "pre @ q'" rest] n by simp
qed

lemma text_at_terminated: "text_at behind p \<Longrightarrow> NUL \<in> set p"
  by (auto simp: text_at_def)

lemma skip_to_eol_text:
  "text_at behind p \<Longrightarrow> \<exists>q. skip_to_eol p = Some q \<and> text_at behind q \<and> length q \<le> length p
     \<and> (hd p \<noteq> NUL \<and> hd p \<noteq> CR \<and> hd p \<noteq> LF \<longrightarrow> length q < length p)"
proof (induction p)
  case (Cons c p)
  from Cons.prems show ?case
  proof (cases rule: text_at_cases)
    case (2 c' q)
    show ?thesis
    proof (cases "c = CR \<or> c = LF")
      case True
      with Cons.prems show ?thesis by auto
    next
      case False
      with Cons.IH 2 show ?thesis by fastforce
    qed
  qed (use Cons.prems in auto)
qed (simp add: text_at_def)

lemma text_at_tl: "text_at behind p \<Longrightarrow> hd p \<noteq> NUL \<Longrightarrow> text_at behind (drop 1 p) \<and> p \<noteq> []"
  by (erule text_at_cases) auto

lemma skip_line_text:
  assumes "text_at behind p"
  shows "\<exists>q. skip_line p = Some q \<and> text_at behind q \<and> length q \<le> length p
     \<and> (hd p \<noteq> NUL \<and> hd p \<noteq> CR \<and> hd p \<noteq> LF \<longrightarrow> length q < length p)"
proof -
  from skip_to_eol_text [OF assms] obtain q where
    q: "skip_to_eol p = Some q" "text_at behind q" "length q \<le> length p"
      "hd p \<noteq> NUL \<and> hd p \<noteq> CR \<and> hd p \<noteq> LF \<longrightarrow> length q < length p" by blast
  define q1 where "q1 = (if hd q = CR then drop 1 q else q)"
  have q1: "text_at behind q1" "length q1 \<le> length q"
    using q(2) text_at_tl [OF q(2)] by (auto simp: q1_def)
  define q2 where "q2 = (if hd q1 = LF then drop 1 q1 else q1)"
  have q2: "text_at behind q2" "length q2 \<le> length q1"
    using q1(1) text_at_tl [OF q1(1)] by (auto simp: q2_def)
  have ne: "q \<noteq> []" "q1 \<noteq> []" using q(2) q1(1) by (auto simp: text_at_def)
  then have "skip_line p = Some q2"
    by (simp add: skip_line_def q(1) Let_def rd_def q1_def q2_def hd_conv_nth)
  with q q1 q2 show ?thesis by auto
qed

lemma tolower_eq:
  assumes "tolower c = d" and "\<not> islower d"
  shows "c = d"
proof (cases "isupper c")
  case True
  then have "bval (tolower c) = bval c + 32" by (simp add: tolower_def isupper_def)
  with True assms show ?thesis by (simp add: islower_def isupper_def)
qed (use assms in \<open>simp add: tolower_def\<close>)

lemma tolower_NUL: "tolower c = NUL \<Longrightarrow> c = NUL"
  by (rule tolower_eq) (simp_all add: islower_def bval_def)

lemma tolower_colon: "tolower c = CHR '':'' \<Longrightarrow> c = CHR '':''"
  by (rule tolower_eq) (simp_all add: islower_def bval_def)

lemma strncasecmp_text:
  "text_at behind p \<Longrightarrow> NUL \<notin> set name \<Longrightarrow>
   \<exists>m. strncasecmp_eq p name = Some m \<and> (m \<longrightarrow> text_at behind (drop (length name) p))"
proof (induction p name rule: strncasecmp_eq.induct)
  case (3 c p d s)
  from "3.prems"(1) show ?case
  proof (cases rule: text_at_cases)
    case (1 rest)
    with "3.prems"(2) tolower_NUL [of d] have "tolower c \<noteq> tolower d" by (auto simp: tolower_def isupper_def bval_def)
    then show ?thesis by (intro exI [of _ False]) simp
  next
    case (2 c' q)
    with 3 show ?thesis by auto
  qed
qed (auto simp: text_at_def)

lemma skip_ws_text: "text_at behind p \<Longrightarrow> \<exists>q. skip_ws p = Some q \<and> text_at behind q"
proof (induction p)
  case (Cons c p)
  from Cons.prems show ?case
  proof (cases rule: text_at_cases)
    case (2 c' q)
    with Cons show ?thesis by auto
  qed (use Cons.prems in auto)
qed (simp add: text_at_def)

lemma header_bytes_total: "\<exists>v. header_bytes behind room p = Some v"
proof (induction room arbitrary: p)
  case (Suc room)
  show ?case
  proof (cases p)
    case (Cons c q)
    with Suc [of q] show ?thesis by auto
  qed simp
qed simp

lemma find_header_step_text:
  assumes "text_at behind p" and "NUL \<notin> set name"
  shows "(\<exists>res. find_header_step behind name p = Some (Inl res))
    \<or> (\<exists>q. find_header_step behind name p = Some (Inr q) \<and> text_at behind q \<and> length q < length p)"
  using assms(1)
proof (cases rule: text_at_cases)
  case (1 rest)
  then show ?thesis by (simp add: find_header_step_def)
next
  case (2 c q)
  from strncasecmp_text [OF assms] obtain m where
    m: "strncasecmp_eq p name = Some m" "m \<longrightarrow> text_at behind (drop (length name) p)" by blast
  from skip_line_text [OF assms(1)] obtain q' where
    l: "skip_line p = Some q'" "text_at behind q'" "c \<noteq> CR \<Longrightarrow> c \<noteq> LF \<Longrightarrow> length q' < length p"
    using 2 by auto
  show ?thesis
  proof (cases "c = CR \<or> c = LF \<or> \<not> m")
    case True
    with 2 m l show ?thesis by (auto simp: find_header_step_def)
  next
    case False
    then have t: "text_at behind (drop (length name) p)" using m(2) by simp
    then have ne: "drop (length name) p \<noteq> []" by (auto simp: text_at_def)
    then have rd: "rd p (length name) = Some (hd (drop (length name) p))"
      by (simp add: rd_def hd_drop_conv_nth)
    show ?thesis
    proof (cases "hd (drop (length name) p) = CHR '':''")
      case True
      with text_at_tl [OF t] have "text_at behind (drop (length name + 1) p)" by simp
      from skip_ws_text [OF this] obtain w where "skip_ws (drop (length name + 1) p) = Some w" by blast
      with 2 False m rd True show ?thesis by (simp add: find_header_step_def)
    next
      case False2: False
      with 2 False m rd l show ?thesis by (simp add: find_header_step_def)
    qed
  qed
qed

lemma find_header_loop_text:
  assumes "text_at behind p" and "NUL \<notin> set name"
  shows "\<exists>r. find_header_loop behind name p = Some r"
  using assms(1)
proof (induction p rule: measure_induct_rule [of length])
  case (less p)
  from find_header_step_text [OF less.prems assms(2)] show ?case
  proof (elim disjE exE conjE)
    fix q
    assume q: "find_header_step behind name p = Some (Inr q)" "text_at behind q" "length q < length p"
    from less.IH [OF q(3,2)] q(1) show ?thesis by (subst find_header_loop.simps) simp
  qed (subst find_header_loop.simps, simp)
qed

lemma find_header_text:
  assumes "NUL \<notin> set msg" and "NUL \<notin> set name"
  shows "\<exists>b v. find_header (msg @ NUL # rest) (length msg) name value = Some (b, v)"
proof -
  from skip_line_text [OF text_atI [OF assms(1), of rest]] obtain q where
    q: "skip_line (msg @ NUL # rest) = Some q" "text_at (Suc (length rest)) q" by blast
  from find_header_loop_text [OF q(2) assms(2)] obtain r where "find_header_loop (Suc (length rest)) name q = Some r" ..
  moreover obtain v where "header_bytes (Suc (length rest)) 255 (the r) = Some v"
    using header_bytes_total by blast
  ultimately show ?thesis
    using q(1) by (cases r) (auto simp: find_header_def Let_def)
qed

lemma extract_method_from_total: "len \<le> length p \<Longrightarrow> \<exists>v. extract_method_from len room p = Some v"
proof (induction len room p rule: extract_method_from.induct)
  case (1 len room p)
  then obtain c q where "p = c # q" by (cases p) auto
  with 1 show ?case by auto
qed auto

lemma three_digits_total: "2 < length p \<Longrightarrow> \<exists>d. three_digits p = Some d"
proof -
  assume "2 < length p"
  then obtain a b c q where "p = a # b # c # q" by (auto simp: Suc_le_length_iff less_eq_Suc_le numeral_2_eq_2)
  then show ?thesis by (simp add: three_digits_def rd_def)
qed

lemma sip_code_total:
  assumes "len \<le> length buf"
  shows "\<exists>v. extract_response_code buf len = Some v" and "\<exists>b. is_malformed_response buf len = Some b"
proof -
  have d: "12 \<le> len \<Longrightarrow> \<exists>d. three_digits (drop 8 buf) = Some d"
    using assms by (intro three_digits_total) simp
  show "\<exists>v. extract_response_code buf len = Some v"
  proof (cases "len < 12")
    case False
    with d obtain dd where "three_digits (drop 8 buf) = Some dd" by auto
    with False assms show ?thesis
      by (cases dd) (auto simp: extract_response_code_def memcmp_eq_def)
  qed (simp add: extract_response_code_def)
  show "\<exists>b. is_malformed_response buf len = Some b"
    using d assms by (auto simp: is_malformed_response_def memcmp_eq_def)
qed

lemma strstr_buf_text: "\<exists>b. strstr_buf (msg @ NUL # rest) s = Some b"
  by (simp add: strstr_buf_def cstr_def)

lemma is_malformed_request_text: "\<exists>b. is_malformed_request (msg @ NUL # rest) (length msg) = Some b"
  by (cases msg) (auto simp: is_malformed_request_def strstr_buf_def cstr_def)

lemma sip_response_step_text:
  assumes "NUL \<notin> set msg"
  shows "\<exists>s' kvs. sip_response_step hv0 s (msg @ NUL # rest) (length msg) = Some (s', kvs)"
proof -
  let ?buf = "msg @ NUL # rest"
  obtain code where "extract_response_code ?buf (length msg) = Some code" using sip_code_total(1) by fastforce
  moreover obtain b where "is_malformed_response ?buf (length msg) = Some b" using sip_code_total(2) by fastforce
  moreover obtain b1 v1 where "find_header ?buf (length msg) ''To'' hv0 = Some (b1, v1)"
    using find_header_text [OF assms, of "''To''"] by fastforce
  moreover obtain b2 v2 where "find_header ?buf (length msg) ''Content-Length'' v1 = Some (b2, v2)"
    using find_header_text [OF assms, of "''Content-Length''"] by fastforce
  moreover obtain b3 where "strstr_buf ?buf ''application/sdp'' = Some b3" using strstr_buf_text by blast
  ultimately show ?thesis by (simp add: sip_response_step_def Let_def)
qed

lemma find_header_defined:
  assumes "NUL \<notin> set msg" and "NUL \<notin> set name"
  obtains b v where "find_header (msg @ NUL # rest) (length msg) name value = Some (b, v)"
  using find_header_text [OF assms] by blast

lemma sip_parse_request_text:
  assumes "NUL \<notin> set msg"
  shows "\<exists>r. sip_parse_request hv0 (msg @ NUL # rest) (length msg) = Some r"
proof -
  let ?buf = "msg @ NUL # rest" and ?n = "length msg"
  note fh = find_header_defined [OF assms, where rest = rest]
  obtain m where m: "extract_method ?buf ?n 32 = Some m"
    using extract_method_from_total [of ?n ?buf 31] by (auto simp: extract_method_def)
  obtain b1 v1 where f1: "find_header ?buf ?n ''Via'' hv0 = Some (b1, v1)" by (rule fh) auto
  obtain b2 v2 where f2: "find_header ?buf ?n ''CSeq'' v1 = Some (b2, v2)" by (rule fh) auto
  obtain b3 v3 where f3: "find_header ?buf ?n ''Call-ID'' v2 = Some (b3, v3)" by (rule fh) auto
  obtain b4 v4 where f4: "find_header ?buf ?n ''Contact'' v3 = Some (b4, v4)" by (rule fh) auto
  obtain b5 v5 where f5: "find_header ?buf ?n ''From'' v4 = Some (b5, v5)" by (rule fh) auto
  obtain b6 v6 where f6: "find_header ?buf ?n ''To'' v5 = Some (b6, v6)" by (rule fh) auto
  obtain b7 v7 where f7: "find_header ?buf ?n ''Expires'' v6 = Some (b7, v7)" by (rule fh) auto
  obtain b8 v8 where f8: "find_header ?buf ?n ''Max-Forwards'' v7 = Some (b8, v8)" by (rule fh) auto
  obtain b9 v9 where f9: "find_header ?buf ?n ''Content-Length'' v8 = Some (b9, v9)" by (rule fh) auto
  obtain b10 v10 where f10: "find_header ?buf ?n ''Authorization'' v9 = Some (b10, v10)" by (rule fh) auto
  obtain b11 v11 where f11: "find_header ?buf ?n ''Proxy-Authorization'' v10 = Some (b11, v11)" by (rule fh) auto
  obtain sdp where sdp: "strstr_buf ?buf ''application/sdp'' = Some sdp" using strstr_buf_text by blast
  obtain mal where mal: "is_malformed_request ?buf ?n = Some mal" using is_malformed_request_text by blast
  show ?thesis
    by (simp add: sip_parse_request_def Let_def m f1 f2 f3 f4 f5 f6 f7 f8 f9 f10 f11 sdp mal)
qed

section \<open>The session machine\<close>

definition sip_enums :: "string list" where
  "sip_enums = [] # ''mNotSet'' # map (Cons (CHR ''m'')) sip_methods"

lemma sip_enums_wf: "e \<in> set sip_enums \<Longrightarrow> plain_str e \<and> length e \<le> 10"
proof -
  have "list_all (\<lambda>e. plain_str e \<and> length e \<le> 10) sip_enums" by code_simp
  then show "e \<in> set sip_enums \<Longrightarrow> plain_str e \<and> length e \<le> 10" by (simp add: list_all_iff)
qed

lemma map_sip_method_enum: "map_sip_method m \<in> set sip_enums"
  by (simp add: map_sip_method_def sip_enums_def)

text \<open>Which request must have been sent for the flags that responses set.\<close>

definition sip_flags :: "sip_state \<Rightarrow> bool" where
  "sip_flags s \<longleftrightarrow> (dialog_established s \<longrightarrow> invite_sent s) \<and> (early_dialog s \<longrightarrow> invite_sent s)
     \<and> (invite_in_progress s \<longrightarrow> invite_sent s) \<and> (dialog_terminated s \<longrightarrow> bye_sent s)
     \<and> (registered s \<longrightarrow> register_sent s) \<and> (transaction_pending s \<longrightarrow> provisional_sent s)"

definition sip_evidence :: "sip_state \<Rightarrow> bool" where
  "sip_evidence s \<longleftrightarrow> (last_method s = ''mINVITE'' \<longrightarrow> invite_sent s) \<and> (last_method s = ''mBYE'' \<longrightarrow> bye_sent s)
     \<and> (last_method s = ''mREGISTER'' \<longrightarrow> register_sent s)"

definition sip_inv :: "sip_state \<Rightarrow> bool" where
  "sip_inv s \<longleftrightarrow> last_method s \<in> set sip_enums \<and> - 2147483648 \<le> cseq_number s \<and> cseq_number s < 2147483648
     \<and> sip_flags s \<and> sip_evidence s"

lemma sip_inv_reset: "sip_inv (sip_predicate_reset_session s)" "sip_inv sip_init"
  by (simp_all add: sip_inv_def sip_predicate_reset_session_def sip_init_def sip_enums_def sip_flags_def
      sip_evidence_def)

definition wf_request :: "sip_request \<Rightarrow> bool" where
  "wf_request r \<longleftrightarrow> r_method r \<in> set sip_enums
     \<and> - 2147483648 \<le> r_expires r \<and> r_expires r < 2147483648
     \<and> - 2147483648 \<le> r_max_forwards r \<and> r_max_forwards r < 2147483648
     \<and> - 2147483648 \<le> r_content_length r \<and> r_content_length r < 2147483648"

lemma sip_parse_request_wf: "rets wf_request (sip_parse_request hv0 buf len)"
  unfolding sip_parse_request_def Let_def
  by (intro rets) (simp add: wf_request_def map_sip_method_enum atoi_str_bounds)

lemma sip_cseq_range: "- 2147483648 \<le> sip_cseq r \<and> sip_cseq r < 2147483648"
  by (simp add: sip_cseq_def atoi_str_bounds)

lemma sip_request_update_inv:
  assumes "sip_inv s" and "wf_request r"
  shows "sip_inv (sip_method_update r (sip_save_ids r s))"
proof -
  let ?s = "sip_save_ids r s"
  have m: "take 31 (r_method r) = r_method r" using sip_enums_wf [of "r_method r"] assms(2) by (simp add: wf_request_def)
  have s: "last_method ?s = r_method r" "sip_flags ?s" "- 2147483648 \<le> cseq_number ?s" "cseq_number ?s < 2147483648"
    using assms m sip_cseq_range [of r] by (simp_all add: sip_save_ids_def sip_inv_def sip_flags_def)
  have e: "r_method r \<in> set sip_enums" using assms(2) by (simp add: wf_request_def)
  show ?thesis
    unfolding sip_method_update_def
    using s e
    by (intro if_cases [where P = sip_inv]; simp add: sip_inv_def; simp add: sip_flags_def sip_evidence_def)
qed

lemma sip_response_update_inv: "sip_inv s \<Longrightarrow> sip_inv (sip_response_update code b s)"
  unfolding sip_response_update_def Let_def
  by (intro if_cases [where P = sip_inv]; simp add: sip_inv_def sip_flags_def sip_evidence_def)

lemma sip_inv_ids: "sip_inv (s\<lparr>last_resp_code := c, to_tag := t\<rparr>) = sip_inv s"
  by (simp add: sip_inv_def sip_flags_def sip_evidence_def)

section \<open>The lines\<close>

definition sip_keys :: "string list" where
  "sip_keys = [''sip_method'', ''sip_status_class'', ''resp_code'', ''cseq_number'', ''expires_value'',
     ''max_forwards'', ''content_length'', ''retry_after'', ''req_malformed'', ''resp_malformed'',
     ''has_to_tag'', ''has_from_tag'', ''has_call_id'', ''has_cseq'', ''has_via'', ''has_contact'',
     ''has_sdp'', ''timeout'', ''connection_closed'', ''dialog_established'', ''dialog_terminated'',
     ''early_dialog'', ''invite_sent'', ''invite_received'', ''ack_sent'', ''bye_sent'', ''cancel_sent'',
     ''transaction_pending'', ''final_response_sent'', ''provisional_sent'', ''retransmission'',
     ''register_sent'', ''registered'', ''auth_required'', ''auth_provided'', ''invite_in_progress'',
     ''method_requires_dialog'', ''method_creates_dialog'', ''cseq_matches'', ''callid_matches'',
     ''to_tag_matches'', ''from_tag_matches'', ''via_matches'', ''dialog_state'', ''transaction_state'',
     ''registration_state'']"

lemma sip_kvs_keys [simp]:
  "map fst (sip_request_kvs s r) = sip_keys" "map fst (sip_response_kvs s code l a b c t) = sip_keys"
  by (simp_all add: sip_request_kvs_def sip_response_kvs_def sip_state_kvs_def sip_match_kvs_def sip_keys_def)

lemma sip_keys_wf: "list_all wf_key sip_keys" "distinct sip_keys"
  by code_simp+

definition sip_value :: "string \<Rightarrow> bool" where
  "sip_value v \<longleftrightarrow> plain_str v \<and> length v \<le> 15"

lemma sip_value_lits [simp]:
  "sip_value ''scNotSet''" "sip_value ''0''" "sip_value ''false''" "sip_value ''true''" "sip_value ''3600''"
  "sip_value ''70''" "sip_value ''tsProceeding''" "sip_value ''tsNone''" "sip_value ''tsCompleted''"
  "sip_value (bool_str b)" "sip_value (map_status_class c)" "sip_value (dialog_state_name s)"
  "sip_value (registration_state_name s)"
  by (simp_all add: sip_value_def plain_str_def plain_def bval_def bool_str_def map_status_class_def
      dialog_state_name_def registration_state_name_def)

lemma sip_value_sdec: "- 2147483648 \<le> x \<Longrightarrow> x < 2147483648 \<Longrightarrow> sip_value (sdec x)"
  using length_sdec32 [of x] by (simp add: sip_value_def)

lemma sip_value_enum: "e \<in> set sip_enums \<Longrightarrow> sip_value e"
  using sip_enums_wf [of e] by (simp add: sip_value_def)

lemma sip_request_kvs_values: "wf_request r \<Longrightarrow> list_all sip_value (map snd (sip_request_kvs s r))"
  using sip_cseq_range [of r]
  by (simp add: sip_request_kvs_def sip_state_kvs_def sip_match_kvs_def wf_request_def sip_value_sdec sip_value_enum)

lemma sip_response_kvs_values:
  "sip_inv s \<Longrightarrow> - 2147483648 \<le> code \<and> code < 2147483648 \<Longrightarrow> - 2147483648 \<le> l \<and> l < 2147483648 \<Longrightarrow>
   list_all sip_value (map snd (sip_response_kvs s code l a b c t))"
  by (simp add: sip_response_kvs_def sip_state_kvs_def sip_match_kvs_def sip_inv_def sip_value_sdec sip_value_enum)

definition sip_printed :: "sip_state \<times> kv list \<Rightarrow> bool" where
  "sip_printed r \<longleftrightarrow> sip_inv (fst r) \<and> map fst (snd r) = sip_keys \<and> list_all sip_value (map snd (snd r))"

lemma sip_request_step_ok:
  assumes "sip_inv s"
  shows "rets sip_printed (sip_request_step hv0 s buf len)"
  unfolding sip_request_step_def Let_def
  using sip_request_update_inv [OF assms] sip_request_kvs_values rets_D [OF sip_parse_request_wf]
  by (intro rets) (simp add: sip_printed_def)

lemma sip_code_range: "rets (\<lambda>v. - 2147483648 \<le> v \<and> v < 2147483648) (extract_response_code buf len)"
proof -
  have r: "0 \<le> int (bval x) \<and> int (bval x) \<le> 255" for x
    using bval_less [of x] by (simp del: bval_less)
  have "- 2147483648 \<le> (int (bval a) - 48) * 100 + (int (bval b) - 48) * 10 + (int (bval c) - 48)
    \<and> (int (bval a) - 48) * 100 + (int (bval b) - 48) * 10 + (int (bval c) - 48) < 2147483648" for a b c
    using r [of a] r [of b] r [of c] by auto
  then show ?thesis
    by (auto simp: rets_def extract_response_code_def bind_eq_Some_conv split: if_splits option.splits)
qed

lemma sip_response_step_ok:
  assumes "sip_inv s"
  shows "rets sip_printed (sip_response_step hv0 s buf len)"
proof -
  have i: "sip_inv (sip_response_update code b (s\<lparr>last_resp_code := c, to_tag := t\<rparr>))" for code b c t
    using assms by (intro sip_response_update_inv) (simp add: sip_inv_ids)
  show ?thesis
    unfolding sip_response_step_def Let_def
    using i sip_response_kvs_values [OF i] rets_D [OF sip_code_range]
    by (intro rets) (simp add: sip_printed_def atoi_str_bounds)
qed

lemma sip_line_kvs:
  assumes "sip_printed (s, kvs)"
  shows "line_kvs kvs" and "length (render_kvs kvs) < 2048"
proof -
  have k: "map fst kvs = sip_keys" "list_all sip_value (map snd kvs)" using assms by (simp_all add: sip_printed_def)
  then have "fst (hd kvs) = hd (map fst kvs)" "kvs \<noteq> []" by (cases kvs; simp add: sip_keys_def)+
  then show "line_kvs kvs"
    using k sip_keys_wf
    by (auto simp: line_kvs_def wf_kvs_split sip_value_def list_all_iff)
      (simp add: sip_keys_def islower_def bval_def)
  have "list_all (\<lambda>v. length v \<le> 15) (map snd kvs)"
    using k(2) by (auto simp: sip_value_def list_all_iff)
  from length_render_kvs_le [OF this]
  have "length (render_kvs kvs) \<le> sum_list (map length sip_keys) + length kvs * 17"
    using k(1) by simp
  moreover have "length kvs = length sip_keys" using k(1) by (metis length_map)
  ultimately show "length (render_kvs kvs) < 2048" by (simp add: sip_keys_def)
qed

interpretation sip: pred_lines sip_predicate_reset_session "sip_build_request_pred_line hv0"
  "sip_build_response_pred_line hv0" sip_inv for hv0
proof unfold_locales
  show "sip_inv s' \<and> length line < out_sz \<and> data_line line"
    if "sip_inv s" "1 < out_sz" "sip_build_request_pred_line hv0 s buf len out out_sz = Some (s', line)"
    for s buf len out out_sz s' line
    using that untraced_line [OF sip_line_kvs(1)] rets_D [OF sip_request_step_ok [OF that(1)]]
    by (fastforce simp: sip_build_request_pred_line_def bind_eq_Some_conv sip_printed_def)
  show "sip_inv s' \<and> length line < out_sz \<and> data_line line"
    if "sip_inv s" "1 < out_sz" "sip_build_response_pred_line hv0 s buf len out out_sz = Some (s', line)"
    for s buf len out out_sz s' line
    using that untraced_line [OF sip_line_kvs(1)] rets_D [OF sip_response_step_ok [OF that(1)]]
    by (fastforce simp: sip_build_response_pred_line_def bind_eq_Some_conv sip_printed_def)
qed (rule sip_inv_reset)

inductive sip_reach :: "sip_state \<Rightarrow> bool" where
  sip_start: "sip_reach sip_init"
| sip_reset: "sip_reach s \<Longrightarrow> sip_reach (sip_predicate_reset_session s)"
| sip_request: "sip_reach s \<Longrightarrow> len \<le> length buf \<Longrightarrow> 1 < out_sz \<Longrightarrow>
    sip_build_request_pred_line hv0 s buf len out out_sz = Some (s', line) \<Longrightarrow> sip_reach s'"
| sip_response: "sip_reach s \<Longrightarrow> len \<le> length buf \<Longrightarrow> 1 < out_sz \<Longrightarrow>
    sip_build_response_pred_line hv0 s buf len out out_sz = Some (s', line) \<Longrightarrow> sip_reach s'"

lemma sip_reach_inv: "sip_reach s \<Longrightarrow> sip_inv s"
proof (induction rule: sip_reach.induct)
  case (sip_request s len buf out_sz hv0 out s' line)
  then show ?case using sip.req_keeps by blast
next
  case (sip_response s len buf out_sz hv0 out s' line)
  then show ?case using sip.resp_keeps by blast
qed (simp_all add: sip_inv_reset)

lemma find_header_found:
  "find_header buf len name x = Some (True, v) \<Longrightarrow> find_header buf len name y = Some (True, v)"
  by (auto simp: find_header_def Let_def bind_eq_Some_conv split: option.splits)

lemma sip_parse_request_value:
  assumes "sip_parse_request hv0 buf len = Some r"
  shows "\<exists>hv3. find_header buf len ''Contact'' hv3 = Some (r_has_contact r, r_value r)"
  using assms by (auto simp: sip_parse_request_def Let_def bind_eq_Some_conv)

section \<open>Finding a header in a well-formed message\<close>

lemma strncasecmp_eq_iff:
  "strncasecmp_eq p name = Some m \<Longrightarrow> m \<longleftrightarrow> map tolower (take (length name) p) = map tolower name"
  by (induction p name arbitrary: m rule: strncasecmp_eq.induct) (auto split: if_splits)

definition header_text :: "string \<times> string \<Rightarrow> string" where
  "header_text h = fst h @ '': '' @ snd h @ [CR, LF]"

definition wf_name :: "string \<Rightarrow> bool" where
  "wf_name k \<longleftrightarrow> k \<noteq> [] \<and> CHR '':'' \<notin> set k \<and> CR \<notin> set k \<and> LF \<notin> set k \<and> NUL \<notin> set k"

definition wf_header_text :: "string \<times> string \<Rightarrow> bool" where
  "wf_header_text h \<longleftrightarrow> wf_name (fst h) \<and> snd h \<noteq> [] \<and> \<not> isspace (hd (snd h)) \<and> length (snd h) \<le> 255
     \<and> CR \<notin> set (snd h) \<and> LF \<notin> set (snd h) \<and> NUL \<notin> set (snd h)"

lemma name_match:
  assumes "CHR '':'' \<notin> set k" and "CHR '':'' \<notin> set name"
    and "p = k @ CHR '':'' # q" and "map tolower (take (length name) p) = map tolower name"
    and "length name < length p" and "p ! length name = CHR '':''"
  shows "length name = length k"
proof (rule ccontr)
  assume "length name \<noteq> length k"
  moreover have "length k \<le> length name"
  proof (rule ccontr)
    assume "\<not> length k \<le> length name"
    then have "k ! length name = CHR '':''" "length name < length k" using assms(3,6) by (simp_all add: nth_append)
    then show False using assms(1) nth_mem by metis
  qed
  ultimately have l: "length k < length name" by simp
  then have "tolower (take (length name) p ! length k) = tolower (name ! length k)"
    using assms(4,5) by (metis length_map length_take min.absorb4 nth_map)
  then have "tolower (CHR '':'') = tolower (name ! length k)" using l assms(3) by (simp add: nth_append)
  then have "tolower (name ! length k) = CHR '':''" by (simp add: tolower_def isupper_def bval_def)
  then have "name ! length k = CHR '':''" by (rule tolower_colon)
  then show False using l assms(2) nth_mem by metis
qed

lemma skip_to_eol_line: "CR \<notin> set l \<Longrightarrow> LF \<notin> set l \<Longrightarrow> NUL \<notin> set l \<Longrightarrow> skip_to_eol (l @ CR # q) = Some (CR # q)"
  by (induction l) auto

lemma skip_line_line: "CR \<notin> set l \<Longrightarrow> LF \<notin> set l \<Longrightarrow> NUL \<notin> set l \<Longrightarrow> skip_line (l @ CR # LF # q) = Some q"
  by (simp add: skip_line_def skip_to_eol_line Let_def)

lemma header_bytes_line:
  "CR \<notin> set v \<Longrightarrow> LF \<notin> set v \<Longrightarrow> length v \<le> room \<Longrightarrow> behind \<le> length q \<Longrightarrow>
   header_bytes behind room (v @ CR # q) = Some v"
proof (induction v arbitrary: room)
  case Nil
  then show ?case by (cases room) auto
next
  case (Cons c v)
  then show ?case by (cases room) auto
qed

lemma find_header_step_found:
  assumes "behind < length p" and "rd p 0 = Some c" and "c \<noteq> CR" and "c \<noteq> LF"
    and "strncasecmp_eq p name = Some True" and "rd p (length name) = Some (CHR '':'')"
    and "skip_ws (drop (length name + 1) p) = Some w"
  shows "find_header_step behind name p = Some (Inl (Some w))"
  using assms by (simp add: find_header_step_def)

lemma find_header_step_next:
  assumes "behind < length p" and "rd p 0 = Some c" and "c \<noteq> CR" and "c \<noteq> LF"
    and "strncasecmp_eq p name = Some m" and "m \<Longrightarrow> \<exists>d. rd p (length name) = Some d \<and> d \<noteq> CHR '':''"
    and "skip_line p = Some w"
  shows "find_header_step behind name p = Some (Inr w)"
  using assms by (cases m) (auto simp: find_header_step_def)

lemma find_header_step_header:
  assumes "wf_header_text (k, v)" and "wf_name name" and "text_at behind q"
    and "p = k @ CHR '':'' # CHR '' '' # v @ CR # LF # q"
  shows "find_header_step behind name p =
    Some (if map tolower k = map tolower name then Inl (Some (v @ CR # LF # q)) else Inr q)"
proof -
  note p = assms(4)
  have k: "wf_name k" and v: "v \<noteq> []" "\<not> isspace (hd v)" "CR \<notin> set v" "LF \<notin> set v" "NUL \<notin> set v"
    using assms(1) by (simp_all add: wf_header_text_def)
  have big: "behind < length p" using assms(3) by (auto simp: p text_at_def)
  have "text_at behind ((k @ CHR '':'' # CHR '' '' # v @ [CR, LF]) @ q)"
    using k v by (intro text_at_append [OF _ assms(3)]) (auto simp: wf_name_def)
  then have t: "text_at behind p" by (simp add: p)
  have n0: "NUL \<notin> set name" using assms(2) by (simp add: wf_name_def)
  from strncasecmp_text [OF t n0] obtain m where
    m: "strncasecmp_eq p name = Some m" "m \<longrightarrow> text_at behind (drop (length name) p)" by blast
  note iff = strncasecmp_eq_iff [OF m(1)]
  obtain c k' where ck: "k = c # k'" using k by (cases k) (auto simp: wf_name_def)
  have hd: "rd p 0 = Some c" unfolding p ck by simp
  have ne: "c \<noteq> CR" "c \<noteq> LF" using k unfolding ck by (auto simp: wf_name_def)
  have sl: "skip_line p = Some q"
    using skip_line_line [of "k @ CHR '':'' # CHR '' '' # v" q] k v by (simp add: p wf_name_def)
  show ?thesis
  proof (cases "map tolower k = map tolower name")
    case True
    then have l: "length k = length name" by (metis length_map)
    have "m" using iff True l by (simp add: p)
    moreover have "rd p (length name) = Some (CHR '':'')" by (simp add: p rd_def nth_append flip: l)
    moreover have "skip_ws (drop (length name + 1) p) = Some (v @ CR # LF # q)"
      using v by (cases v) (auto simp: p isspace_def bval_def simp flip: l)
    ultimately show ?thesis
      using find_header_step_found [OF big hd ne] m(1) True by simp
  next
    case False
    have "\<exists>d. rd p (length name) = Some d \<and> d \<noteq> CHR '':''" if m
    proof -
      have "drop (length name) p \<noteq> []" using m(2) that by (auto simp: text_at_def)
      then have lt: "length name < length p" by simp
      have "p ! length name \<noteq> CHR '':''"
      proof
        assume "p ! length name = CHR '':''"
        with iff that lt k assms(2) have "length name = length k"
          by (intro name_match [OF _ _ p]) (auto simp: wf_name_def)
        with iff that False show False by (simp add: p)
      qed
      with lt show ?thesis by (simp add: rd_def)
    qed
    from find_header_step_next [OF big hd ne m(1) this sl] False show ?thesis by simp
  qed
qed

text \<open>
  The search over a list of headers, up to the blank line or the end of the message: the first
  header whose name matches, in any case.
\<close>

definition header_lookup :: "string \<Rightarrow> (string \<times> string) list \<Rightarrow> string option" where
  "header_lookup name hdrs = map_option snd (find (\<lambda>h. map tolower (fst h) = map tolower name) hdrs)"

lemma find_header_loop_headers:
  assumes "list_all wf_header_text hdrs" and "wf_name name" and "NUL \<notin> set body"
    and "body = [] \<or> hd body = CR \<or> hd body = LF"
  shows "find_header_loop (Suc (length rest)) name (concat (map header_text hdrs) @ body @ NUL # rest)
    = Some (map_option (\<lambda>(v, hs). v @ CR # LF # concat (map header_text hs) @ body @ NUL # rest)
        (case dropWhile (\<lambda>h. map tolower (fst h) \<noteq> map tolower name) hdrs of
           [] \<Rightarrow> None | h # hs \<Rightarrow> Some (snd h, hs)))"
  using assms(1)
proof (induction hdrs)
  case Nil
  then show ?case
    using assms(4) by (subst find_header_loop.simps) (cases body; auto simp: find_header_step_def)
next
  case (Cons h hdrs)
  obtain k v where h: "h = (k, v)" by (cases h)
  let ?q = "concat (map header_text hdrs) @ body @ NUL # rest"
  have n: "NUL \<notin> set (concat (map header_text hdrs))"
    using Cons.prems by (auto simp: list_all_iff header_text_def wf_header_text_def wf_name_def)
  then have t: "text_at (Suc (length rest)) ?q"
    using text_atI [of "concat (map header_text hdrs) @ body" rest] assms(3) by simp
  have w: "wf_header_text (k, v)" using Cons.prems h by simp
  have p: "concat (map header_text (h # hdrs)) @ body @ NUL # rest = k @ CHR '':'' # CHR '' '' # v @ CR # LF # ?q"
    by (simp add: h header_text_def)
  note st = find_header_step_header [OF w assms(2) t p]
  show ?case
  proof (cases "map tolower k = map tolower name")
    case True
    with st show ?thesis by (subst find_header_loop.simps) (simp add: h)
  next
    case False
    with st Cons show ?thesis by (subst find_header_loop.simps) (simp add: h)
  qed
qed

text \<open>A message: the first line, the headers and what follows them.\<close>

definition sip_message :: "string \<Rightarrow> (string \<times> string) list \<Rightarrow> string \<Rightarrow> string" where
  "sip_message first hdrs body = first @ [CR, LF] @ concat (map header_text hdrs) @ body"

definition wf_message :: "string \<Rightarrow> (string \<times> string) list \<Rightarrow> string \<Rightarrow> bool" where
  "wf_message first hdrs body \<longleftrightarrow> CR \<notin> set first \<and> LF \<notin> set first \<and> NUL \<notin> set first
     \<and> list_all wf_header_text hdrs \<and> NUL \<notin> set body \<and> (body = [] \<or> hd body = CR \<or> hd body = LF)"

lemma wf_message_no_NUL: "wf_message first hdrs body \<Longrightarrow> NUL \<notin> set (sip_message first hdrs body)"
  by (auto simp: wf_message_def sip_message_def list_all_iff header_text_def wf_header_text_def wf_name_def)

lemma find_dropWhile: "find (\<lambda>h. P h) xs = (case dropWhile (\<lambda>h. \<not> P h) xs of [] \<Rightarrow> None | h # _ \<Rightarrow> Some h)"
  by (induction xs) auto

lemma find_header_message:
  assumes "wf_message first hdrs body" and "wf_name name"
  shows "find_header (sip_message first hdrs body @ NUL # rest) (length (sip_message first hdrs body)) name value
    = Some (case header_lookup name hdrs of None \<Rightarrow> (False, value) | Some v \<Rightarrow> (True, v))"
proof -
  let ?msg = "sip_message first hdrs body"
  let ?p = "concat (map header_text hdrs) @ body @ NUL # rest"
  have sl: "skip_line (?msg @ NUL # rest) = Some ?p"
    using skip_line_line [of first ?p] assms(1) by (simp add: wf_message_def sip_message_def)
  have b: "length (?msg @ NUL # rest) - length ?msg = Suc (length rest)" by simp
  have loop: "find_header_loop (Suc (length rest)) name ?p
    = Some (map_option (\<lambda>(v, hs). v @ CR # LF # concat (map header_text hs) @ body @ NUL # rest)
        (case dropWhile (\<lambda>h. map tolower (fst h) \<noteq> map tolower name) hdrs of
           [] \<Rightarrow> None | h # hs \<Rightarrow> Some (snd h, hs)))"
    using assms by (intro find_header_loop_headers) (auto simp: wf_message_def)
  show ?thesis
  proof (cases "dropWhile (\<lambda>h. map tolower (fst h) \<noteq> map tolower name) hdrs")
    case Nil
    then show ?thesis
      using sl b loop by (simp add: find_header_def Let_def header_lookup_def find_dropWhile
          del: dropWhile_eq_Nil_conv)
  next
    case (Cons h hs)
    then have "h \<in> set hdrs" by (metis list.set_intros(1) set_dropWhileD)
    then have w: "wf_header_text h" using assms(1) by (simp add: wf_message_def list_all_iff)
    then have "header_bytes (Suc (length rest)) 255 (snd h @ CR # LF # concat (map header_text hs) @ body @ NUL # rest)
      = Some (snd h)"
      by (intro header_bytes_line) (simp_all add: wf_header_text_def)
    moreover have "cstr_of (snd h) = snd h" using w by (intro cstr_of_id) (simp add: wf_header_text_def)
    ultimately show ?thesis
      using Cons sl b loop by (simp add: find_header_def Let_def header_lookup_def find_dropWhile)
  qed
qed

lemma sip_parse_request_message:
  assumes "wf_message first hdrs body" and "header_lookup ''CSeq'' hdrs = Some c"
    and "sip_parse_request hv0 (sip_message first hdrs body @ NUL # rest) (length (sip_message first hdrs body)) = Some r"
  shows "r_has_cseq r \<and> r_value r = (case header_lookup ''Contact'' hdrs of Some v \<Rightarrow> v
     | None \<Rightarrow> (case header_lookup ''Call-ID'' hdrs of Some v \<Rightarrow> v | None \<Rightarrow> c))"
proof -
  note f = find_header_message [OF assms(1), of _ rest]
  have n: "wf_name ''CSeq''" "wf_name ''Call-ID''" "wf_name ''Contact''" by (simp_all add: wf_name_def)
  from assms(3) obtain b1 hv1 b2 hv2 b3 hv3 b4 hv4 where
    "find_header (sip_message first hdrs body @ NUL # rest) (length (sip_message first hdrs body)) ''CSeq'' hv1 = Some (b2, hv2)"
    "find_header (sip_message first hdrs body @ NUL # rest) (length (sip_message first hdrs body)) ''Call-ID'' hv2 = Some (b3, hv3)"
    "find_header (sip_message first hdrs body @ NUL # rest) (length (sip_message first hdrs body)) ''Contact'' hv3 = Some (b4, hv4)"
    "r_has_cseq r = b2" "r_value r = hv4"
    by (auto simp: sip_parse_request_def Let_def bind_eq_Some_conv)
  then show ?thesis
    using assms(2) by (auto simp: f n split: option.splits)
qed

lemma find_header_loop_stuck:
  assumes "find_header_step behind name p = Some (Inr p)"
  shows "find_header_loop behind name p = None"
proof -
  have "find_header_step b n q \<noteq> Some (Inr q)" if "find_header_loop b n q = Some r" for b n q r
  proof (rule find_header_loop.raw_induct [OF _ that])
    fix loop b n q r
    assume ih: "\<And>b n q r. loop b n q = Some r \<Longrightarrow> find_header_step b n q \<noteq> Some (Inr q)"
      and body: "find_header_step b n q \<bind> (\<lambda>r. case r of Inl res \<Rightarrow> Some res | Inr q \<Rightarrow> loop b n q) = Some r"
    show "find_header_step b n q \<noteq> Some (Inr q)"
    proof
      assume st: "find_header_step b n q = Some (Inr q)"
      with body have "loop b n q = Some r" by simp
      from ih [OF this] st show False by simp
    qed
  qed
  with assms show ?thesis by (cases "find_header_loop behind name p") auto
qed

section \<open>Properties of the SIP adapter\<close>

text \<open>
  In every reachable state a flag that a response sets rests on the request it
  answers: a dialog, early or established, on a sent INVITE, a terminated dialog on a sent BYE, a
  registration on a sent REGISTER; a pending transaction has had a provisional response.
\<close>

lemma sip_reach_dialog:
  "sip_reach s \<Longrightarrow> (dialog_established s \<or> early_dialog s \<or> invite_in_progress s \<longrightarrow> invite_sent s)
     \<and> (dialog_terminated s \<longrightarrow> bye_sent s) \<and> (registered s \<longrightarrow> register_sent s)
     \<and> (transaction_pending s \<longrightarrow> provisional_sent s)"
  using sip_reach_inv [of s] by (auto simp: sip_inv_def sip_flags_def)

lemma sip_reach_dialog_sample:
  "\<not> registered sip_init \<and> \<not> dialog_established sip_init \<and> \<not> dialog_terminated sip_init"
proof -
  have "\<not> register_sent sip_init" "\<not> invite_sent sip_init" "\<not> bye_sent sip_init"
    by (simp_all add: sip_init_def)
  with sip_reach_dialog [OF sip_start] show ?thesis by blast
qed

text \<open>
  On a message without NUL bytes that is followed by one, as responses are, both
  builders return, with a data line that fits into the buffer untruncated.
\<close>

lemma sip_text_returns:
  assumes "sip_reach s" and "NUL \<notin> set msg"
  shows "(\<exists>s' line. sip_build_request_pred_line hv0 s (msg @ NUL # rest) (length msg) out 2048 = Some (s', line)
        \<and> data_line line)
    \<and> (\<exists>s' line. sip_build_response_pred_line hv0 s (msg @ NUL # rest) (length msg) out 2048 = Some (s', line)
        \<and> data_line line)"
proof -
  note i = sip_reach_inv [OF assms(1)]
  from sip_parse_request_text [OF assms(2)] obtain r where
    "sip_parse_request hv0 (msg @ NUL # rest) (length msg) = Some r" by blast
  then obtain s1 l1 where
    q: "sip_build_request_pred_line hv0 s (msg @ NUL # rest) (length msg) out 2048 = Some (s1, l1)"
    by (simp add: sip_build_request_pred_line_def sip_request_step_def Let_def)
  from sip_response_step_text [OF assms(2), of hv0 s rest] obtain s2 l2 where
    a: "sip_build_response_pred_line hv0 s (msg @ NUL # rest) (length msg) out 2048 = Some (s2, l2)"
    by (auto simp: sip_build_response_pred_line_def)
  from sip.req_keeps [OF i _ _ q] sip.resp_keeps [OF i _ _ a] q a show ?thesis by simp
qed

lemma sip_text_returns_sample:
  "\<exists>s' line. sip_build_response_pred_line [] sip_init (''SIP/2.0 200 OK'' @ NUL # []) (length ''SIP/2.0 200 OK'') [] 2048
      = Some (s', line) \<and> data_line line"
  using sip_text_returns [OF sip_start, of "''SIP/2.0 200 OK''" "[]" "[]" "[]"] by simp

text \<open>
  C27 (liveness, negative): a NUL byte where a header line should start stops the header search from
  making progress: the round returns the very pointer it was given, so the loop never ends and the
  search has no result.
\<close>

theorem sip_header_search_stuck:
  assumes "behind \<le> length rest" and "name \<noteq> []" and "NUL \<notin> set name"
  shows "find_header_step behind name (NUL # rest) = Some (Inr (NUL # rest))
    \<and> find_header_loop behind name (NUL # rest) = None"
proof -
  obtain d n where name: "name = d # n" using assms(2) by (cases name) auto
  have neq: "tolower NUL \<noteq> tolower d"
    using assms(3) tolower_NUL [of d] name by (auto simp: tolower_def isupper_def bval_def)
  have step: "find_header_step behind name (NUL # rest) = Some (Inr (NUL # rest))"
    using assms(1) neq by (simp add: find_header_step_def name skip_line_def Let_def)
  with find_header_loop_stuck show ?thesis by blast
qed

theorem sip_header_search_stuck_witness:
  "find_header_loop 1 ''Via'' [NUL, CHR ''x'', NUL] = None"
  using sip_header_search_stuck [of 1 "[CHR ''x'', NUL]" "''Via''"] by simp

text \<open>
  C26 (equivalence): on a well-formed message, with any first line, headers and body, the pointer
  search finds exactly what looking the name up in the list of headers gives: the value of the
  first header of that name in any case, and otherwise nothing, with the array left as it was.
\<close>

theorem sip_find_header_lookup:
  assumes "wf_message first hdrs body" and "wf_name name"
  shows "find_header (sip_message first hdrs body @ NUL # rest) (length (sip_message first hdrs body)) name value
    = Some (case header_lookup name hdrs of None \<Rightarrow> (False, value) | Some v \<Rightarrow> (True, v))"
  by (rule find_header_message [OF assms])

theorem sip_find_header_lookup_witness:
  "find_header (sip_message ''BYE x'' [(''VIA'', ''y'')] [] @ NUL # []) (length (sip_message ''BYE x'' [(''VIA'', ''y'')] [])) ''Via'' []
   = Some (True, ''y'')"
proof -
  have "header_lookup ''Via'' [(''VIA'', ''y'')] = Some ''y''" by code_simp
  then show ?thesis
    using sip_find_header_lookup [of "''BYE x''" "[(''VIA'', ''y'')]" "[]" "''Via''" "[]" "[]"]
    by (simp add: wf_message_def wf_name_def wf_header_text_def isspace_def bval_def)
qed

text \<open>
  Where the printed CSeq number comes from. One array receives every header value,
  and the number is read after the search for Contact: it is the number in the Contact header if
  there is one, else in the Call-ID, and only else in the CSeq header.
\<close>

lemma sip_cseq_source:
  assumes "wf_message first hdrs body" and "header_lookup ''CSeq'' hdrs = Some c"
  shows "\<exists>r. sip_parse_request hv0 (sip_message first hdrs body @ NUL # rest) (length (sip_message first hdrs body)) = Some r
    \<and> sip_cseq r = atoi_str (case header_lookup ''Contact'' hdrs of Some v \<Rightarrow> v
        | None \<Rightarrow> (case header_lookup ''Call-ID'' hdrs of Some v \<Rightarrow> v | None \<Rightarrow> c))"
proof -
  from sip_parse_request_text [OF wf_message_no_NUL [OF assms(1)], of hv0 rest] obtain r where
    r: "sip_parse_request hv0 (sip_message first hdrs body @ NUL # rest) (length (sip_message first hdrs body)) = Some r"
    by blast
  from sip_parse_request_message [OF assms r] r show ?thesis by (simp add: sip_cseq_def)
qed

lemma sip_cseq_source_sample:
  "\<exists>r. sip_parse_request [] (sip_message ''BYE x'' [(''CSeq'', ''5''), (''Contact'', ''me'')] [] @ NUL # [])
      (length (sip_message ''BYE x'' [(''CSeq'', ''5''), (''Contact'', ''me'')] [])) = Some r \<and> sip_cseq r = 0"
proof -
  have "header_lookup ''CSeq'' [(''CSeq'', ''5''), (''Contact'', ''me'')] = Some ''5''"
    "header_lookup ''Contact'' [(''CSeq'', ''5''), (''Contact'', ''me'')] = Some ''me''" by code_simp+
  then show ?thesis
    using sip_cseq_source [of "''BYE x''" "[(''CSeq'', ''5''), (''Contact'', ''me'')]" "[]" "''5''" "[]" "[]"]
    by (simp add: wf_message_def wf_name_def wf_header_text_def isspace_def bval_def
        atoi_str_def atoi_def isdigit_def clamp_long_def)
qed

end
