(* ===== verification/Ftp_Replay.thy ===== *)
theory Ftp_Replay
  imports Ftp_Adapter
begin

text \<open>
  \<open>ftp_trace_replay.c\<close>: reads recorded packets (\<open>msg_id=\<dots> dir=\<dots> trace=\<dots>\<close>), decodes their
  hexadecimal bytes and runs them through the FTP adapter again. A line is the C string \<open>fgets\<close>
  stored, so it holds no NUL.
\<close>

section \<open>Hexadecimal bytes\<close>

definition hex_val :: "byte \<Rightarrow> int" where
  "hex_val c =
     (if 48 \<le> bval c \<and> bval c \<le> 57 then int (bval c) - 48
      else if 97 \<le> bval c \<and> bval c \<le> 102 then int (bval c) - 97 + 10
      else if 65 \<le> bval c \<and> bval c \<le> 70 then int (bval c) - 65 + 10
      else -1)"

fun decode_hex :: "string \<Rightarrow> nat \<Rightarrow> byte list" where
  "decode_hex (h # l # hex) max_out =
     (if max_out > 0 then
        if hex_val h < 0 \<or> hex_val l < 0 then []
        else char_of (nat (push_bit 4 (hex_val h) OR hex_val l)) # decode_hex hex (max_out - 1)
      else [])"
| "decode_hex hex max_out = []"

section \<open>Trace lines\<close>

record TraceLine =
  tl_msg_id :: string
  tl_dir :: string
  tl_trace :: string

text \<open>One \<open>key=value\<close> token; values are cut to the sizes of the arrays (32, 8 and 8192 bytes).\<close>

definition trace_token :: "string \<Rightarrow> TraceLine \<Rightarrow> TraceLine" where
  "trace_token tok t =
     (if CHR ''='' \<notin> set tok then t
      else let key = takeWhile (\<lambda>c. c \<noteq> CHR ''='') tok; val = drop (length key + 1) tok in
        if key = ''msg_id'' then t\<lparr>tl_msg_id := take 31 val\<rparr>
        else if key = ''dir'' then t\<lparr>tl_dir := take 7 val\<rparr>
        else if key = ''trace'' then t\<lparr>tl_trace := take 8191 val\<rparr>
        else t)"

function trace_tokens :: "string \<Rightarrow> TraceLine \<Rightarrow> TraceLine" where
  "trace_tokens p t =
     (let p1 = dropWhile isspace p in
      if p1 = [] then t
      else trace_tokens (dropWhile (\<lambda>c. \<not> isspace c) p1) (trace_token (takeWhile (\<lambda>c. \<not> isspace c) p1) t))"
  by pat_completeness auto

termination
proof (relation "measure (\<lambda>(p, t). length p)")
  show "((dropWhile (\<lambda>c. \<not> isspace c) p1, t'), p, t) \<in> measure (\<lambda>(p, t). length p)"
    if h: "p1 = dropWhile isspace p" "p1 \<noteq> []" for p1 p t t'
  proof -
    obtain c q where c: "p1 = c # q" "\<not> isspace c"
      using hd_dropWhile [of isspace p] h(2) unfolding h(1) [symmetric] by (cases p1) auto
    have "length (dropWhile (\<lambda>c. \<not> isspace c) p1) \<le> length q" using c length_dropWhile_le [of "\<lambda>c. \<not> isspace c" q] by simp
    moreover have "length p1 \<le> length p" using h(1) length_dropWhile_le [of isspace p] by simp
    ultimately show ?thesis using c(1) by simp
  qed
qed simp

declare trace_tokens.simps [simp del]

definition parse_trace_line :: "string \<Rightarrow> TraceLine option" where
  "parse_trace_line line = (
     let line1 = dropWhile isspace line in
     if line1 = [] \<or> hd line1 = CHR ''#'' then None
     else let t = trace_tokens line1 \<lparr>tl_msg_id = [], tl_dir = [], tl_trace = []\<rparr> in
       if tl_dir t \<noteq> [] \<and> tl_trace t \<noteq> [] then Some t else None)"

section \<open>The replay loop\<close>

text \<open>\<open>print_ascii\<close>.\<close>

definition print_ascii :: "byte list \<Rightarrow> string" where
  "print_ascii buf = ''  ASCII: '' @ [CHR 0x22]
     @ concat (map (\<lambda>c. if 32 \<le> bval c \<and> bval c < 127 then [c] else [CHR 0x5C] @ ''x'' @ hex2 c) buf)
     @ [CHR 0x22, LF]"

text \<open>\<open>cut = strstr(pred_line, s); if (cut) *cut = 0;\<close>\<close>

fun cut_at :: "string \<Rightarrow> string \<Rightarrow> string" where
  "cut_at s [] = []"
| "cut_at s (c # p) = (if take (length s) (c # p) = s then [] else c # cut_at s p)"

text \<open>
  One round: \<open>stack\<close> is what the array \<open>raw\<close> of 4096 bytes holds before the bytes are decoded into
  it. A line that is blank, a comment or incomplete gives no output.
\<close>

definition replay_line :: "byte list \<Rightarrow> ftp_state \<Rightarrow> string \<Rightarrow> (ftp_state \<times> string list) option" where
  "replay_line stack s line = (case parse_trace_line line of
       None \<Rightarrow> Some (s, [])
     | Some t \<Rightarrow>
         let raw = decode_hex (tl_trace t) 4096; buf = raw @ drop (length raw) stack in do {
           (s', pred_line) \<leftarrow> (if tl_dir t = ''C2S''
             then ftp_build_command_pred_line s buf (length raw) [] 8192
             else ftp_build_response_pred_line s buf (length raw) [] 8192);
           Some (s', [cut_at '' msg_id='' pred_line])
         })"

fun replay_lines :: "byte list \<Rightarrow> ftp_state \<Rightarrow> string list \<Rightarrow> (ftp_state \<times> string list) option" where
  "replay_lines stack s [] = Some (s, [])"
| "replay_lines stack s (l # ls) = do {
     (s1, out1) \<leftarrow> replay_line stack s l;
     (s2, out2) \<leftarrow> replay_lines stack s1 ls;
     Some (s2, out1 @ out2)
   }"

definition replay_main :: "byte list \<Rightarrow> string list \<Rightarrow> (ftp_state \<times> string list) option" where
  "replay_main stack ls = replay_lines stack (ftp_predicate_reset_session ftp_init) ls"

section \<open>Decoding inverts encoding\<close>

lemma hex_val_hexdigit: "n < 16 \<Longrightarrow> hex_val (hexdigit n) = int n"
  by (auto simp: hex_val_def hexdigit_def)

lemma decode_hex_bytes:
  "length bs \<le> max_out \<Longrightarrow> decode_hex (concat (map hex2 bs)) max_out = bs"
proof (induction bs arbitrary: max_out)
  case (Cons c bs)
  have hi: "bval c div 16 < 16" using bval_less [of c] by (intro less_mult_imp_div_less) simp
  have v: "hex_val (hexdigit (bval c div 16)) = int (bval c div 16)" "hex_val (hexdigit (bval c mod 16)) = int (bval c mod 16)"
    using hex_val_hexdigit [OF hi] by (simp_all add: hex_val_hexdigit)
  have "push_bit 4 (bval c div 16) OR (bval c mod 16) = bval c"
    using or_low [of "bval c mod 16" 4 "bval c div 16"] by simp
  then have "push_bit 4 (int (bval c div 16)) OR int (bval c mod 16) = int (bval c)"
    by (metis of_nat_or_eq push_bit_of_nat)
  then have "char_of (nat (push_bit 4 (int (bval c div 16)) OR int (bval c mod 16))) = c" by simp
  with Cons v show ?case by (simp add: hex2_def)
qed simp


section \<open>Replaying a recorded packet\<close>

lemma trace_tokens_word:
  assumes "\<forall>c \<in> set w. plain c" and "w \<noteq> []"
  shows "trace_tokens w t = trace_token w t" and "trace_tokens (w @ '' '' @ p) t = trace_tokens p (trace_token w t)"
proof -
  have ns: "\<forall>c \<in> set w. \<not> isspace c" using assms(1) plain_not_space by blast
  then have hd: "dropWhile isspace (w @ q) = w @ q" for q using assms(2) by (cases w) auto
  have sp: "isspace CHR '' ''" by (simp add: isspace_def bval_def)
  have tw: "takeWhile (\<lambda>c. \<not> isspace c) w = w" "dropWhile (\<lambda>c. \<not> isspace c) w = []"
    "takeWhile (\<lambda>c. \<not> isspace c) (w @ '' '' @ p) = w" "dropWhile (\<lambda>c. \<not> isspace c) (w @ '' '' @ p) = '' '' @ p"
    using ns sp by (auto simp: takeWhile_eq_all_conv dropWhile_eq_Nil_conv takeWhile_append dropWhile_append)
  have "trace_tokens [] x = x" for x by (subst trace_tokens.simps) simp
  then show "trace_tokens w t = trace_token w t"
    using assms(2) by (subst trace_tokens.simps) (simp add: Let_def hd [of "[]", simplified] tw(1,2))
  have "trace_tokens ('' '' @ p) x = trace_tokens p x" for x
    using sp by (subst (1 2) trace_tokens.simps) simp
  then show "trace_tokens (w @ '' '' @ p) t = trace_tokens p (trace_token w t)"
    unfolding trace_tokens.simps [of "w @ '' '' @ p"] Let_def hd tw(3,4) using assms(2) by simp
qed

lemma trace_tokens_render:
  "\<forall>p \<in> set kvs. wf_kv p \<Longrightarrow> trace_tokens (render_kvs kvs) t = fold trace_token (map (\<lambda>(k, v). k @ ''='' @ v) kvs) t"
proof (induction kvs arbitrary: t rule: render_kvs.induct)
  case 1
  then show ?case by (subst trace_tokens.simps) simp
next
  case (2 k v)
  then have "\<forall>c \<in> set (k @ ''='' @ v). plain c" by auto
  from trace_tokens_word(1) [OF this] show ?case by simp
next
  case (3 k v q kvs)
  then have "\<forall>c \<in> set (k @ ''='' @ v). plain c" by auto
  from trace_tokens_word(2) [OF this, of "render_kvs (q # kvs)"] 3 show ?case by simp
qed

lemma trace_token_pair:
  "CHR ''='' \<notin> set k \<Longrightarrow> trace_token (k @ ''='' @ v) t =
     (if k = ''msg_id'' then t\<lparr>tl_msg_id := take 31 v\<rparr> else if k = ''dir'' then t\<lparr>tl_dir := take 7 v\<rparr>
      else if k = ''trace'' then t\<lparr>tl_trace := take 8191 v\<rparr> else t)"
proof -
  assume k: "CHR ''='' \<notin> set k"
  then have "takeWhile (\<lambda>c. c \<noteq> CHR ''='') (k @ ''='' @ v) = k"
    by (induction k) auto
  then show ?thesis by (simp add: trace_token_def Let_def)
qed

lemmas trace_token_keys =
  trace_token_pair [of "''msg_id''", simplified] trace_token_pair [of "''dir''", simplified]
  trace_token_pair [of "''trace''", simplified]

text \<open>A recorded packet of at most 256 bytes is parsed back completely.\<close>

lemma length_concat_hex2: "length (concat (map hex2 bs)) = 2 * length bs"
  by (induction bs) auto

lemma parse_recorded:
  assumes "0 < len" and "len \<le> 256" and "len \<le> length buf" and "dir \<in> {''C2S'', ''S2C''}"
  shows "parse_trace_line (render_kvs (trace_kvs m dir buf len))
    = Some \<lparr>tl_msg_id = udec (unat m), tl_dir = dir, tl_trace = concat (map hex2 (take len buf))\<rparr>"
proof -
  let ?line = "render_kvs (trace_kvs m dir buf len)" and ?h = "concat (map hex2 (take len buf))"
  have d: "\<forall>c \<in> set dir. plain c" "length dir = 3" "dir \<noteq> []" using assms(4) dir_plain by auto
  obtain r where r: "?line = CHR ''m'' # r" by (simp add: trace_kvs_def)
  have line: "dropWhile isspace ?line = ?line" "?line \<noteq> []" "hd ?line \<noteq> CHR ''#''"
    unfolding r by (simp_all add: isspace_def bval_def)
  have bounds: "length (udec (unat m)) \<le> 31" "length ?h \<le> 8191"
    using length_udec32 [of "unat m"] assms(2) unsigned_less [of m] by (simp_all add: length_concat_hex2)
  have "length ?h \<noteq> 0" using assms(1,3) by (simp add: length_concat_hex2)
  then have "?h \<noteq> []" by (simp only: length_0_conv not_False_eq_True)
  moreover have "trace_tokens ?line \<lparr>tl_msg_id = [], tl_dir = [], tl_trace = []\<rparr>
    = \<lparr>tl_msg_id = udec (unat m), tl_dir = dir, tl_trace = ?h\<rparr>"
    unfolding trace_tokens_render [OF trace_kvs_wf [OF d(1)]] using bounds d(2) assms(2)
    by (simp add: trace_kvs_def trace_token_keys)
  ultimately show ?thesis using line d(3) by (simp add: parse_trace_line_def Let_def)
qed

lemma cut_at_word: "CHR '' '' \<notin> set w \<Longrightarrow> cut_at ('' '' @ s) (w @ p) = w @ cut_at ('' '' @ s) p"
  by (induction w) auto

lemma not_msg_id:
  assumes "CHR ''='' \<notin> set k" and "k \<noteq> ''msg_id''"
  shows "take 8 ('' '' @ k @ ''='' @ r) \<noteq> '' msg_id=''"
proof
  assume "take 8 ('' '' @ k @ ''='' @ r) = '' msg_id=''"
  then have e: "take 7 (k @ ''='' @ r) = ''msg_id=''" by simp
  have "takeWhile (\<lambda>c. c \<noteq> CHR ''='') (k @ ''='' @ r) = k"
    using assms(1) by (induction k) auto
  moreover have "k @ ''='' @ r = ''msg_id='' @ drop 7 (k @ ''='' @ r)" using e by (metis append_take_drop_id)
  moreover have "takeWhile (\<lambda>c. c \<noteq> CHR ''='') (''msg_id='' @ z) = ''msg_id''" for z by simp
  ultimately show False using assms(2) by metis
qed

lemma cut_at_space:
  "CHR ''='' \<notin> set k \<Longrightarrow> k \<noteq> ''msg_id'' \<Longrightarrow>
   cut_at '' msg_id='' ('' '' @ k @ ''='' @ r) = '' '' @ cut_at '' msg_id='' (k @ ''='' @ r)"
  using not_msg_id [of k r] by (simp add: eval_nat_numeral)

lemma cut_at_render:
  assumes "\<forall>p \<in> set kvs. wf_kv p \<and> fst p \<noteq> ''msg_id''" and "kvs \<noteq> []"
  shows "cut_at '' msg_id='' (render_kvs kvs @ '' msg_id='' @ r) = render_kvs kvs"
  using assms
proof (induction kvs rule: render_kvs.induct)
  case (2 k v)
  then have "CHR '' '' \<notin> set (k @ ''='' @ v)" by (auto simp: plain_def bval_def)
  from cut_at_word [OF this, of "''msg_id=''" "'' msg_id='' @ r"] show ?case by simp
next
  case (3 k v q kvs)
  obtain k' v' where q: "q = (k', v')" by (cases q)
  have "CHR '' '' \<notin> set (k @ ''='' @ v)" using 3(2) by (auto simp: plain_def bval_def)
  from cut_at_word [OF this, of "''msg_id=''" "'' '' @ render_kvs (q # kvs) @ '' msg_id='' @ r"]
  have "cut_at '' msg_id='' (render_kvs ((k, v) # q # kvs) @ '' msg_id='' @ r)
    = k @ ''='' @ v @ cut_at '' msg_id='' ('' '' @ render_kvs (q # kvs) @ '' msg_id='' @ r)" by simp
  moreover obtain x where x: "render_kvs (q # kvs) @ '' msg_id='' @ r = k' @ ''='' @ x"
    unfolding q by (cases kvs) auto
  have "cut_at '' msg_id='' ('' '' @ render_kvs (q # kvs) @ '' msg_id='' @ r) = '' '' @ render_kvs (q # kvs)"
    unfolding x using cut_at_space [of k' x] 3 q unfolding x by simp
  ultimately show ?case using 3 by simp
qed simp

lemma ftp_response_step_take:
  assumes "len \<le> length buf" and "len \<le> length buf'" and "take len buf' = take len buf"
  shows "ftp_response_step s buf' len = ftp_response_step s buf len"
proof -
  have r: "rd buf' i = rd buf i" if "i < len" for i
    using assms that by (simp add: rd_def) (metis nth_take)
  have "extract_response_code buf' len = extract_response_code buf len"
  proof (cases "len < 3")
    case False
    then have "rd buf' 0 = rd buf 0" "rd buf' 1 = rd buf 1" "rd buf' 2 = rd buf 2" using r by simp_all
    then show ?thesis by (simp only: extract_response_code_def)
  qed (simp add: extract_response_code_def)
  moreover have "is_resp_malformed buf' len = is_resp_malformed buf len"
    using assms by (simp add: is_resp_malformed_def resp_lines_bad_eq)
  ultimately show ?thesis by (simp add: ftp_response_step_def)
qed

text \<open>What the replayer prints for a recorded packet, once the pairs of the step are known.\<close>

lemma cut_traced:
  assumes "map fst kvs = ftp_keys" and "list_all ftp_value (map snd kvs)"
  shows "cut_at '' msg_id='' (render_kvs (kvs @ trace_kvs m dir buf len)) = render_kvs kvs"
proof -
  have l: "line_kvs kvs" by (rule ftp_line_kvs(1) [OF assms])
  then have ne: "kvs \<noteq> []" by (simp add: line_kvs_def)
  have "''msg_id'' \<notin> set ftp_keys" by (simp add: ftp_keys_def)
  then have "\<forall>p \<in> set kvs. fst p \<noteq> ''msg_id''" using assms(1) by (metis imageI list.set_map)
  with l have "\<forall>p \<in> set kvs. wf_kv p \<and> fst p \<noteq> ''msg_id''" by (simp add: line_kvs_def)
  from cut_at_render [OF this ne] show ?thesis
    by (simp add: render_kvs_trace [OF ne] trace_header_def)
qed

lemma replay_recorded:
  assumes "0 < len" and "len \<le> 256" and "len \<le> length buf" and "dir \<in> {''C2S'', ''S2C''}"
  shows "replay_line stack s (render_kvs (trace_kvs m dir buf len)) =
    (let raw = take len buf @ drop len stack in do {
       (s', pred_line) \<leftarrow> (if dir = ''C2S'' then ftp_build_command_pred_line s raw len [] 8192
         else ftp_build_response_pred_line s raw len [] 8192);
       Some (s', [cut_at '' msg_id='' pred_line])
     })"
  using parse_recorded [OF assms, of m] decode_hex_bytes [of "take len buf" 4096] assms
  by (simp add: replay_line_def Let_def)

text \<open>
  A packet of up to 256 bytes, recorded as the adapter prints it, is replayed
  exactly. The replayer decodes the bytes of the packet, runs the step of its direction and prints
  the pairs of that step without the trace. A reply gives the pairs it gave when it was recorded; a
  command is read from the array of the replayer, whose bytes behind the packet may differ from
  those behind the message in the fuzzer.
\<close>

lemma ftp_replay_recorded:
  assumes "ftp_reach s" and "0 < len" and "len \<le> 256" and "len \<le> length buf"
  shows "(\<forall>s1 kvs. ftp_response_step s buf len = Some (s1, kvs) \<longrightarrow>
      replay_line stack s (render_kvs (trace_kvs m ''S2C'' buf len))
        = Some (s1\<lparr>g_msg_id := g_msg_id s1 + 1\<rparr>, [render_kvs kvs]))
    \<and> (\<forall>s1 kvs. ftp_command_step s (take len buf @ drop len stack) len = Some (s1, kvs) \<longrightarrow>
      replay_line stack s (render_kvs (trace_kvs m ''C2S'' buf len))
        = Some (s1\<lparr>g_msg_id := g_msg_id s1 + 1\<rparr>, [render_kvs kvs]))"
proof -
  let ?raw = "take len buf @ drop len stack"
  have len: "len \<le> length ?raw" using assms(4) by simp
  note inv = ftp_reach_inv [OF assms(1)]
  have "replay_line stack s (render_kvs (trace_kvs m ''S2C'' buf len))
      = Some (s1\<lparr>g_msg_id := g_msg_id s1 + 1\<rparr>, [render_kvs kvs])"
    if st: "ftp_response_step s buf len = Some (s1, kvs)" for s1 kvs
  proof -
    note k = ftp_response_step_ok [OF inv st]
    have "ftp_response_step s ?raw len = Some (s1, kvs)"
      using ftp_response_step_take [OF assms(4) len] assms(4) st by simp
    then show ?thesis
      using append_packet_trace_kvs [of kvs 8192 len ?raw "''S2C''" "g_msg_id s1" "[]"] ftp_line_kvs [OF k(2,3)] len
      by (simp add: replay_recorded [OF assms(2-4)] ftp_build_response_pred_line_def line_kvs_def cut_traced [OF k(2,3)])
  qed
  moreover have "replay_line stack s (render_kvs (trace_kvs m ''C2S'' buf len))
      = Some (s1\<lparr>g_msg_id := g_msg_id s1 + 1\<rparr>, [render_kvs kvs])"
    if st: "ftp_command_step s ?raw len = Some (s1, kvs)" for s1 kvs
  proof -
    note k = ftp_command_step_ok [OF inv st]
    show ?thesis
      using append_packet_trace_kvs [of kvs 8192 len ?raw "''C2S''" "g_msg_id s1" "[]"] ftp_line_kvs [OF k(2,3)] len st
      by (simp add: replay_recorded [OF assms(2-4)] ftp_build_command_pred_line_def line_kvs_def cut_traced [OF k(2,3)])
  qed
  ultimately show ?thesis by blast
qed

lemma ftp_replay_recorded_sample:
  "ftp_reach ftp_init \<and> (\<exists>s1. replay_line (replicate 4096 NUL) ftp_init (render_kvs (trace_kvs 7 ''S2C'' ''220 hi'' 6))
     = Some (s1, [render_kvs (ftp_response_kvs (ftp_init\<lparr>session_initialized := True, sequence_number := 1\<rparr>) 220 False False)]))"
  using ftp_replay_recorded [OF ftp_start, of 6 "''220 hi''" "replicate 4096 NUL" 7] ftp_step_sample
  by (simp add: ftp_start)

end
