(* ===== verification/Aflnet_Alloc.thy ===== *)
theory Aflnet_Alloc
  imports C_Prelude
begin

text \<open>
  What the routines of \<open>aflnet.c\<close> share: AFL's checked allocator (\<open>alloc-inl.h\<close>), the work buffer
  \<open>mem\<close> into which bytes are copied one by one, and the growing arrays of regions and of states.

  \<open>ck_alloc\<close> and \<open>ck_realloc\<close> hand out zeroed memory and abort the program for sizes above
  \<open>MAX_ALLOC\<close> (1 GiB). An abort is the value \<^const>\<open>None\<close>, like an access outside an object. No
  buffer the fuzzer passes is longer than \<open>MAX_FILE\<close> (1 MiB), a response is as long as the
  server makes it; the theorems allow 32 MiB (\<open>small_buf\<close>), with which no limit is reached.
\<close>

definition MAX_ALLOC :: nat where
  "MAX_ALLOC = 2 ^ 30"

definition small_buf :: "nat \<Rightarrow> bool" where
  "small_buf n \<longleftrightarrow> n \<le> 2 ^ 25"

definition ck_alloc :: "nat \<Rightarrow> (byte list) option" where
  "ck_alloc sz = (if sz > MAX_ALLOC then None else Some (replicate sz NUL))"

definition ck_realloc :: "byte list \<Rightarrow> nat \<Rightarrow> (byte list) option" where
  "ck_realloc orig sz =
     (if sz > MAX_ALLOC then None else Some (take sz orig @ replicate (sz - length orig) NUL))"

text \<open>\<open>memcpy(&mem[i], &c, 1)\<close>.\<close>

definition wr :: "byte list \<Rightarrow> nat \<Rightarrow> byte \<Rightarrow> (byte list) option" where
  "wr mem i c = (if i < length mem then Some (mem[i := c]) else None)"

text \<open>\<open>if (mem_count == mem_size) { mem_size = mem_size * 2; mem = ck_realloc(mem, mem_size); }\<close>\<close>

definition enlarge :: "byte list \<Rightarrow> nat \<Rightarrow> (byte list) option" where
  "enlarge mem mem_count =
     (if mem_count = length mem then ck_realloc mem (length mem * 2) else Some mem)"

section \<open>Regions and states\<close>

record region_t =
  start_byte :: int
  end_byte :: int
  modifiable :: int
  state_sequence :: "(32 word list) option"
  state_count :: nat

text \<open>A new region; \<open>modifiable\<close> keeps the zero of the allocator.\<close>

definition mk_region :: "int \<Rightarrow> int \<Rightarrow> region_t" where
  "mk_region a b = \<lparr>start_byte = a, end_byte = b, modifiable = 0, state_sequence = None, state_count = 0\<rparr>"

definition sizeof_region_t :: nat where
  "sizeof_region_t = 32"

text \<open>\<open>region_count++\<close>, \<open>ck_realloc\<close> of the array and the four assignments.\<close>

definition add_region :: "region_t list \<Rightarrow> nat \<Rightarrow> nat \<Rightarrow> (region_t list) option" where
  "add_region regions cur_start cur_end =
     (if (length regions + 1) * sizeof_region_t > MAX_ALLOC then None
      else Some (regions @ [mk_region (to_int32 (int cur_start)) (to_int32 (int cur_end))]))"

text \<open>\<open>state_count++\<close>, \<open>ck_realloc\<close> of the array and the assignment.\<close>

definition add_state :: "32 word list \<Rightarrow> 32 word \<Rightarrow> (32 word list) option" where
  "add_state states code =
     (if (length states + 1) * 4 > MAX_ALLOC then None else Some (states @ [code]))"

lemma small_bufD: "small_buf n \<Longrightarrow> n \<le> 33554432"
  by (simp add: small_buf_def)

lemma wr_Some [simp]: "i < length mem \<Longrightarrow> wr mem i c = Some (mem[i := c])"
  by (simp add: wr_def)

lemma take_wr: "i < length mem \<Longrightarrow> take (Suc i) (mem[i := c]) = take i mem @ [c]"
  by (simp add: take_Suc_conv_app_nth)

lemma ck_alloc_Some [simp]: "n \<le> 1073741824 \<Longrightarrow> ck_alloc n = Some (replicate n NUL)"
  by (simp add: ck_alloc_def MAX_ALLOC_def)

lemma enlarge_ok:
  assumes "mem_count \<le> length mem" and "0 < length mem" and "length mem \<le> 536870912"
  shows "\<exists>mem'. enlarge mem mem_count = Some mem' \<and> mem_count < length mem' \<and> length mem \<le> length mem'
    \<and> length mem' \<le> max (length mem) (2 * mem_count) \<and> take mem_count mem' = take mem_count mem"
  using assms by (auto simp: enlarge_def ck_realloc_def MAX_ALLOC_def)

lemma add_region_ok:
  "length regions < 33554432 \<Longrightarrow> b < 2147483648 \<Longrightarrow> a < 2147483648 \<Longrightarrow>
   add_region regions a b = Some (regions @ [mk_region (int a) (int b)])"
  by (simp add: add_region_def sizeof_region_t_def MAX_ALLOC_def)

lemma add_region_more: "add_region rs a b = Some rs' \<Longrightarrow> 33554432 - length rs' < 33554432 - length rs"
  by (auto simp: add_region_def sizeof_region_t_def MAX_ALLOC_def split: if_splits)

lemma add_state_ok:
  "length s < 268435456 \<Longrightarrow> add_state s c = Some (s @ [c])"
  by (simp add: add_state_def MAX_ALLOC_def)

lemma add_state_length: "add_state s c = Some t \<Longrightarrow> t = s @ [c] \<and> length s < 268435456"
  by (simp add: add_state_def MAX_ALLOC_def split: if_splits)

section \<open>Cutting a buffer into messages\<close>

text \<open>
  The regions of consecutive messages, the first of which starts at byte \<open>a\<close>, and the bytes a
  region covers.
\<close>

fun regions_of :: "nat \<Rightarrow> byte list list \<Rightarrow> region_t list" where
  "regions_of a [] = []"
| "regions_of a (p # ps) = mk_region (int a) (int (a + length p - 1)) # regions_of (a + length p) ps"

fun tiles :: "nat \<Rightarrow> region_t list \<Rightarrow> nat \<Rightarrow> bool" where
  "tiles a [] e \<longleftrightarrow> a = e"
| "tiles a (r # rs) e \<longleftrightarrow> start_byte r = int a \<and> int a \<le> end_byte r \<and> tiles (nat (end_byte r) + 1) rs e"

lemma length_regions_of [simp]: "length (regions_of a ps) = length ps"
  by (induction ps arbitrary: a) auto

lemma regions_of_append:
  "regions_of a (ps @ qs) = regions_of a ps @ regions_of (a + length (concat ps)) qs"
  by (induction ps arbitrary: a) (auto simp: add.assoc)

lemma tiles_regions_of:
  "[] \<notin> set ps \<Longrightarrow> tiles a (regions_of a ps) (a + length (concat ps))"
proof (induction ps arbitrary: a)
  case (Cons p ps)
  then have p: "0 < length p" by auto
  then have e: "a + length p - 1 + 1 = a + length p" by simp
  have "tiles (a + length p) (regions_of (a + length p) ps) (a + length p + length (concat ps))"
    using Cons by simp
  moreover have "a \<le> a + length p - 1" using p by linarith
  ultimately show ?case by (simp add: mk_region_def e add.assoc [symmetric] del: One_nat_def add_Suc_right)
qed simp

lemma tiles_append: "tiles a (rs @ ts) e \<longleftrightarrow> (\<exists>b. tiles a rs b \<and> tiles b ts e)"
  by (induction rs arbitrary: a) auto

lemma tiles_snoc:
  "tiles a rs b \<Longrightarrow> b \<le> e \<Longrightarrow> tiles a (rs @ [mk_region (int b) (int e)]) (Suc e)"
  by (auto simp: tiles_append mk_region_def)

lemma tiles_length: "tiles a rs e \<Longrightarrow> a + length rs \<le> e"
proof (induction rs arbitrary: a)
  case (Cons r rs)
  then have "nat (end_byte r) + 1 + length rs \<le> e" and "int a \<le> end_byte r"
    using Cons.IH [of "nat (end_byte r) + 1"] by auto
  then show ?case by simp
qed simp

end
