(* ===== verification/Aflnet_Regions.thy ===== *)
theory Aflnet_Regions
  imports Aflnet_Alloc
begin

text \<open>
  \<open>extract_requests_*\<close> of \<open>aflnet.c\<close> for the protocols whose messages end in a terminator: the
  buffer is copied byte by byte into \<open>mem\<close>, and a region is closed when the copied bytes end in
  the terminator. The loop is the same text in the functions for SMTP, FTP, HTTP, RTSP, SIP and
  IPP; it is defined once here, with the condition of the first \<open>if\<close> as a parameter.
\<close>

section \<open>The loop\<close>

function split_loop ::
  "(byte list \<Rightarrow> nat \<Rightarrow> cptr \<Rightarrow> nat \<Rightarrow> nat \<Rightarrow> bool option) \<Rightarrow> cptr \<Rightarrow> nat \<Rightarrow> nat \<Rightarrow> byte list \<Rightarrow> nat \<Rightarrow>
   nat \<Rightarrow> nat \<Rightarrow> region_t list \<Rightarrow> (region_t list) option" where
  "split_loop at_end buf buf_size byte_count mem mem_count cur_start cur_end regions =
     (if byte_count < buf_size then do {
        c \<leftarrow> rd buf byte_count;
        mem1 \<leftarrow> wr mem mem_count c;
        e \<leftarrow> at_end mem1 mem_count buf (byte_count + 1) buf_size;
        if e then do {
          regions1 \<leftarrow> add_region regions cur_start cur_end;
          split_loop at_end buf buf_size (byte_count + 1) mem1 0 (cur_end + 1) (cur_end + 1) regions1
        }
        else if cur_end + 1 = buf_size - 1 then add_region regions cur_start (cur_end + 1)
        else do {
          mem2 \<leftarrow> enlarge mem1 (mem_count + 1);
          split_loop at_end buf buf_size (byte_count + 1) mem2 (mem_count + 1) cur_start (cur_end + 1) regions
        }
      } else Some regions)"
  by pat_completeness auto

termination
  by (relation "measure (\<lambda>(at_end, buf, n, bc, rest). n - bc)") auto

declare split_loop.simps [simp del]

text \<open>``in case region_count equals zero \<dots> we create one region for the whole buffer''\<close>

definition whole_buffer :: "nat \<Rightarrow> region_t list \<Rightarrow> (region_t list) option" where
  "whole_buffer buf_size regions =
     (if regions = [] \<and> 0 < buf_size then add_region [] 0 (buf_size - 1) else Some regions)"

definition split_requests ::
  "(byte list \<Rightarrow> nat \<Rightarrow> cptr \<Rightarrow> nat \<Rightarrow> nat \<Rightarrow> bool option) \<Rightarrow> cptr \<Rightarrow> nat \<Rightarrow> (region_t list) option" where
  "split_requests at_end buf buf_size = do {
     mem \<leftarrow> ck_alloc 1024;
     regions \<leftarrow> split_loop at_end buf buf_size 0 mem 0 0 0 [];
     whole_buffer buf_size regions
   }"

section \<open>The conditions\<close>

text \<open>\<open>(mem_count > 1) && (memcmp(&mem[mem_count - 1], terminator, 2) == 0)\<close>\<close>

definition at_crlf :: "byte list \<Rightarrow> nat \<Rightarrow> cptr \<Rightarrow> nat \<Rightarrow> nat \<Rightarrow> bool option" where
  "at_crlf mem mem_count buf byte_count buf_size =
     (if mem_count > 1 then memcmp_eq (drop (mem_count - 1) mem) [CR, LF] else Some False)"

text \<open>\<open>(mem_count > 3) && (memcmp(&mem[mem_count - 3], terminator, 4) == 0)\<close>\<close>

definition at_crlf2 :: "byte list \<Rightarrow> nat \<Rightarrow> cptr \<Rightarrow> nat \<Rightarrow> nat \<Rightarrow> bool option" where
  "at_crlf2 mem mem_count buf byte_count buf_size =
     (if mem_count > 3 then memcmp_eq (drop (mem_count - 3) mem) [CR, LF, CR, LF] else Some False)"

text \<open>\<open>(buf_size - byte_count >= strlen(s)) && (memcmp(buf + byte_count, s, strlen(s)) == 0)\<close>\<close>

definition next_is :: "cptr \<Rightarrow> nat \<Rightarrow> nat \<Rightarrow> string \<Rightarrow> bool option" where
  "next_is buf byte_count buf_size s =
     (if buf_size - byte_count \<ge> length s then memcmp_eq (drop byte_count buf) s else Some False)"

definition or_else :: "bool option \<Rightarrow> bool option \<Rightarrow> bool option" where
  "or_else a b = do { x \<leftarrow> a; if x then Some True else b }"

definition and_then :: "bool option \<Rightarrow> bool option \<Rightarrow> bool option" where
  "and_then a b = do { x \<leftarrow> a; if x then b else Some False }"

text \<open>The SIP condition compares one byte of the terminator only.\<close>

definition at_sip :: "byte list \<Rightarrow> nat \<Rightarrow> cptr \<Rightarrow> nat \<Rightarrow> nat \<Rightarrow> bool option" where
  "at_sip mem mem_count buf byte_count buf_size =
     (if mem_count > 1 then
        and_then (memcmp_eq (drop (mem_count - 1) mem) [CR])
          (or_else (next_is buf byte_count buf_size ''REGISTER'')
          (or_else (next_is buf byte_count buf_size ''INVITE'')
          (or_else (next_is buf byte_count buf_size ''ACK'')
                   (next_is buf byte_count buf_size ''BYE''))))
      else Some False)"

definition at_ipp :: "byte list \<Rightarrow> nat \<Rightarrow> cptr \<Rightarrow> nat \<Rightarrow> nat \<Rightarrow> bool option" where
  "at_ipp mem mem_count buf byte_count buf_size =
     (if mem_count > 3 then
        and_then (or_else (memcmp_eq (drop (mem_count - 3) mem) [CR, LF, CR, LF])
                          (memcmp_eq (drop mem_count mem) [CHR 0x03]))
          (next_is buf byte_count buf_size ''POST'')
      else Some False)"

section \<open>The functions\<close>

definition extract_requests_smtp :: "cptr \<Rightarrow> nat \<Rightarrow> (region_t list) option" where
  "extract_requests_smtp buf buf_size = split_requests at_crlf buf buf_size"

definition extract_requests_ftp :: "cptr \<Rightarrow> nat \<Rightarrow> (region_t list) option" where
  "extract_requests_ftp buf buf_size = split_requests at_crlf buf buf_size"

definition extract_requests_http :: "cptr \<Rightarrow> nat \<Rightarrow> (region_t list) option" where
  "extract_requests_http buf buf_size = split_requests at_crlf buf buf_size"

definition extract_requests_rtsp :: "cptr \<Rightarrow> nat \<Rightarrow> (region_t list) option" where
  "extract_requests_rtsp buf buf_size = split_requests at_crlf2 buf buf_size"

definition extract_requests_sip :: "cptr \<Rightarrow> nat \<Rightarrow> (region_t list) option" where
  "extract_requests_sip buf buf_size = split_requests at_sip buf buf_size"

definition extract_requests_ipp :: "cptr \<Rightarrow> nat \<Rightarrow> (region_t list) option" where
  "extract_requests_ipp buf buf_size = split_requests at_ipp buf buf_size"

section \<open>The specification\<close>

text \<open>
  \<open>pieces ends acc rest\<close> cuts the bytes \<open>rest\<close> after every prefix on which \<open>ends\<close> holds, given
  the bytes before and after the cut; \<open>acc\<close> is what has been read of the current message.
\<close>

fun pieces :: "(byte list \<Rightarrow> byte list \<Rightarrow> bool) \<Rightarrow> byte list \<Rightarrow> byte list \<Rightarrow> byte list list" where
  "pieces ends acc [] = (if acc = [] then [] else [acc])"
| "pieces ends acc (c # cs) =
     (if ends (acc @ [c]) cs then (acc @ [c]) # pieces ends [] cs else pieces ends (acc @ [c]) cs)"

text \<open>A last message of a single byte is lost, unless it is the whole buffer.\<close>

definition drop_lone :: "byte list list \<Rightarrow> byte list list" where
  "drop_lone ps = (if ps \<noteq> [] \<and> length (last ps) = 1 then butlast ps else ps)"

definition messages :: "(byte list \<Rightarrow> byte list \<Rightarrow> bool) \<Rightarrow> byte list \<Rightarrow> byte list list" where
  "messages ends xs = (if length xs = 1 then [xs] else drop_lone (pieces ends [] xs))"

lemma concat_pieces [simp]: "concat (pieces ends acc xs) = acc @ xs"
  by (induction ends acc xs rule: pieces.induct) auto

lemma pieces_nonempty: "[] \<notin> set (pieces ends acc xs)"
  by (induction ends acc xs rule: pieces.induct) auto

lemma pieces_eq_Nil [simp]: "pieces ends acc xs = [] \<longleftrightarrow> acc = [] \<and> xs = []"
  by (metis concat.simps(1) concat_pieces append_is_Nil_conv pieces.simps(1))

lemma pieces_two: "pieces ends acc [c, d] =
    (if ends (acc @ [c]) [d] then [acc @ [c], [d]] else [acc @ [c, d]])"
  by simp

lemma drop_lone_Cons: "ps \<noteq> [] \<Longrightarrow> drop_lone (p # ps) = p # drop_lone ps"
  by (simp add: drop_lone_def)

lemma drop_lone_nonempty: "[] \<notin> set ps \<Longrightarrow> [] \<notin> set (drop_lone ps)"
  by (auto simp: drop_lone_def dest: in_set_butlastD)

lemma messages_nonempty: "[] \<notin> set (messages ends xs)"
  using drop_lone_nonempty [OF pieces_nonempty [of ends "[]" xs]] by (auto simp: messages_def)

text \<open>All bytes are in a message, but for the single byte that may be lost.\<close>

lemma concat_messages:
  "concat (messages ends xs) = xs \<or> concat (messages ends xs) = butlast xs \<and> 2 \<le> length xs"
proof -
  let ?ps = "pieces ends [] xs"
  show ?thesis
  proof (cases "length xs \<noteq> 1 \<and> ?ps \<noteq> [] \<and> length (last ?ps) = 1")
    case True
    then obtain c where c: "last ?ps = [c]" by (auto simp: length_Suc_conv)
    from True have "concat (butlast ?ps @ [last ?ps]) = xs" by (simp del: pieces_eq_Nil)
    then have x: "xs = concat (butlast ?ps) @ [c]" by (simp add: c)
    have "length xs \<noteq> 0" using x by (metis append_is_Nil_conv length_0_conv not_Cons_self)
    with True have "2 \<le> length xs" by linarith
    moreover have "concat (messages ends xs) = butlast xs"
      using True by (subst (2) x) (simp add: messages_def drop_lone_def)
    ultimately show ?thesis by simp
  next
    case False
    then show ?thesis by (auto simp: messages_def drop_lone_def)
  qed
qed


text \<open>
  A condition of the code, which reads \<open>mem\<close> and \<open>buf\<close>, that decides \<open>ends\<close> on the message
  read so far and on the bytes that follow.
\<close>

locale splitter =
  fixes at_end :: "byte list \<Rightarrow> nat \<Rightarrow> cptr \<Rightarrow> nat \<Rightarrow> nat \<Rightarrow> bool option"
    and ends :: "byte list \<Rightarrow> byte list \<Rightarrow> bool"
  assumes at_end: "length msg \<le> length mem \<Longrightarrow> msg = take (length msg) mem \<Longrightarrow> 0 < length msg \<Longrightarrow>
      byte_count \<le> buf_size \<Longrightarrow> buf_size \<le> length buf \<Longrightarrow>
      at_end mem (length msg - 1) buf byte_count buf_size
        = Some (ends msg (take (buf_size - byte_count) (drop byte_count buf)))"
    and ends_long: "ends msg rest \<Longrightarrow> 2 \<le> length msg"
begin

lemma split_loop_pieces:
  assumes "byte_count = a + length acc" and "buf_size \<le> length buf" and "small_buf buf_size"
    and "length acc < length mem" and "acc = take (length acc) mem"
    and "length mem \<le> 67108864" and "rest = take (buf_size - byte_count) (drop byte_count buf)"
    and "acc \<noteq> [] \<Longrightarrow> 2 \<le> length rest" and "length regions \<le> a" and "byte_count \<le> buf_size"
  shows "split_loop at_end buf buf_size byte_count mem (length acc) a byte_count regions
    = Some (regions @ regions_of a (drop_lone (pieces ends acc rest)))"
  using assms
proof (induction rest arbitrary: byte_count a acc mem regions)
  case Nil
  then have "acc = []" and "\<not> byte_count < buf_size" by auto
  then show ?case by (simp add: split_loop.simps drop_lone_def)
next
  case (Cons c cs)
  have lt: "byte_count < buf_size" using Cons.prems(7) by (cases "byte_count < buf_size") auto
  have drp: "drop byte_count buf = buf ! byte_count # drop (Suc byte_count) buf"
    using lt Cons.prems(2) by (simp add: Cons_nth_drop_Suc)
  have sub: "buf_size - byte_count = Suc (buf_size - Suc byte_count)" using lt by simp
  have c: "buf ! byte_count = c" and cs: "cs = take (buf_size - Suc byte_count) (drop (Suc byte_count) buf)"
    using Cons.prems(7) by (simp_all add: drp sub)
  have len: "length cs = buf_size - Suc byte_count" using cs Cons.prems(2) lt by simp
  have small: "buf_size \<le> 33554432" using small_bufD [OF Cons.prems(3)] .
  let ?mem = "mem[length acc := c]" and ?msg = "acc @ [c]"
  have msg: "?msg = take (length ?msg) ?mem"
    using take_wr [OF Cons.prems(4), of c] Cons.prems(5) by simp
  have at: "at_end ?mem (length acc) buf (Suc byte_count) buf_size = Some (ends ?msg cs)"
    using at_end [of ?msg ?mem "Suc byte_count" buf_size buf] msg Cons.prems(2,4) lt cs by simp
  note unf = split_loop.simps [of at_end buf buf_size byte_count mem "length acc" a byte_count regions]
  show ?case
  proof (cases "ends ?msg cs")
    case True
    have cut: "regions_of a (?msg # ps) = mk_region (int a) (int byte_count) # regions_of (Suc byte_count) ps"
      for ps using Cons.prems(1) by simp
    have add: "add_region regions a byte_count = Some (regions @ [mk_region (int a) (int byte_count)])"
      using Cons.prems(1,9) small lt by (intro add_region_ok) simp_all
    have "split_loop at_end buf buf_size (Suc byte_count) ?mem (length ([] :: byte list)) (Suc byte_count) (Suc byte_count)
        (regions @ [mk_region (int a) (int byte_count)])
      = Some ((regions @ [mk_region (int a) (int byte_count)]) @
          regions_of (Suc byte_count) (drop_lone (pieces ends [] cs)))"
      using Cons.prems cs lt by (intro Cons.IH) auto
    then have "split_loop at_end buf buf_size byte_count mem (length acc) a byte_count regions
      = Some (regions @ regions_of a (?msg # drop_lone (pieces ends [] cs)))"
      using True at lt Cons.prems(2,4) c add cut by (simp add: unf)
    moreover have "drop_lone (?msg # pieces ends [] cs) = ?msg # drop_lone (pieces ends [] cs)"
      using ends_long [OF True] by (cases "cs = []"; cases acc) (auto simp: drop_lone_Cons, auto simp: drop_lone_def)
    ultimately show ?thesis using True by simp
  next
    case False
    show ?thesis
    proof (cases "Suc byte_count = buf_size - 1")
      case last: True
      then obtain d where d: "cs = [d]" using len by (auto simp: length_Suc_conv)
      have "add_region regions a (Suc byte_count) = Some (regions @ [mk_region (int a) (int (Suc byte_count))])"
        using Cons.prems(1,9) small lt last by (intro add_region_ok) simp_all
      moreover have "regions_of a [acc @ [c, d]] = [mk_region (int a) (int (Suc byte_count))]"
        using Cons.prems(1) by simp
      ultimately show ?thesis
        using False at lt last Cons.prems(2,4) c d by (simp add: unf drop_lone_def)
    next
      case more: False
      have "0 < length ?mem" using Cons.prems(4) by auto
      then obtain mem' where m: "enlarge ?mem (Suc (length acc)) = Some mem'" "Suc (length acc) < length mem'"
          "length mem' \<le> max (length mem) (2 * Suc (length acc))"
          "take (Suc (length acc)) mem' = take (Suc (length acc)) ?mem"
        using enlarge_ok [of "Suc (length acc)" ?mem] Cons.prems(4,6) by auto
      have unr: "split_loop at_end buf buf_size byte_count mem (length acc) a byte_count regions
        = split_loop at_end buf buf_size (Suc byte_count) mem' (length ?msg) a (Suc byte_count) regions"
        using False at lt more Cons.prems(2,4) c m(1) by (simp add: unf)
      show ?thesis
      proof (cases "cs = []")
        case True
        then have "\<not> Suc byte_count < buf_size" using len by simp
        moreover have "acc = []" using Cons.prems(8) True by (cases acc) auto
        moreover have "split_loop at_end buf buf_size (Suc byte_count) mem' (length ?msg) a (Suc byte_count) regions
            = Some regions"
          using len True by (subst split_loop.simps) simp
        ultimately show ?thesis using False True unr by (simp add: drop_lone_def)
      next
        case ne: False
        then have two: "2 \<le> length cs" using len more by (cases "length cs") auto
        have "split_loop at_end buf buf_size (Suc byte_count) mem' (length ?msg) a (Suc byte_count) regions
          = Some (regions @ regions_of a (drop_lone (pieces ends ?msg cs)))"
          using Cons.prems msg m cs two lt small by (intro Cons.IH) auto
        then show ?thesis using False by (simp add: unr)
      qed
    qed
  qed
qed

theorem split_requests_messages:
  assumes "buf_size \<le> length buf" and "small_buf buf_size"
  shows "split_requests at_end buf buf_size = Some (regions_of 0 (messages ends (take buf_size buf)))"
proof -
  let ?ps = "pieces ends [] (take buf_size buf)"
  have "split_loop at_end buf buf_size 0 (replicate 1024 NUL) (length ([] :: byte list)) 0 0 []
    = Some ([] @ regions_of 0 (drop_lone ?ps))"
    using assms by (intro split_loop_pieces) auto
  then have l: "split_requests at_end buf buf_size = whole_buffer buf_size (regions_of 0 (drop_lone ?ps))"
    by (simp add: split_requests_def)
  show ?thesis
  proof (cases "buf_size = 1")
    case True
    then obtain c where "take buf_size buf = [c]" using assms(1) by (cases buf) auto
    with True l show ?thesis
      by (simp add: messages_def drop_lone_def whole_buffer_def add_region_ok split: if_splits)
  next
    case False
    have len: "length (take buf_size buf) = buf_size" using assms(1) by simp
    have "drop_lone ?ps \<noteq> []" if "0 < buf_size"
    proof
      assume d: "drop_lone ?ps = []"
      have "concat (messages ends (take buf_size buf)) = []" using d False len by (simp add: messages_def)
      with concat_messages [of ends "take buf_size buf"] that False len show False
        by (auto dest: arg_cong [where f = length])
    qed
    then show ?thesis using False l len
      by (cases "drop_lone ?ps") (auto simp: whole_buffer_def messages_def)
  qed
qed

end


section \<open>The conditions of the code\<close>

text \<open>What the conditions say about the message and the bytes after it.\<close>

definition ends_crlf :: "byte list \<Rightarrow> byte list \<Rightarrow> bool" where
  "ends_crlf msg rest \<longleftrightarrow> 3 \<le> length msg \<and> drop (length msg - 2) msg = [CR, LF]"

definition ends_crlf2 :: "byte list \<Rightarrow> byte list \<Rightarrow> bool" where
  "ends_crlf2 msg rest \<longleftrightarrow> 5 \<le> length msg \<and> drop (length msg - 4) msg = [CR, LF, CR, LF]"

definition begins :: "string \<Rightarrow> byte list \<Rightarrow> bool" where
  "begins s rest \<longleftrightarrow> take (length s) rest = s"

definition ends_sip :: "byte list \<Rightarrow> byte list \<Rightarrow> bool" where
  "ends_sip msg rest \<longleftrightarrow> 3 \<le> length msg \<and> msg ! (length msg - 2) = CR
     \<and> (begins ''REGISTER'' rest \<or> begins ''INVITE'' rest \<or> begins ''ACK'' rest \<or> begins ''BYE'' rest)"

definition ends_ipp :: "byte list \<Rightarrow> byte list \<Rightarrow> bool" where
  "ends_ipp msg rest \<longleftrightarrow> 5 \<le> length msg \<and> begins ''POST'' rest
     \<and> (drop (length msg - 4) msg = [CR, LF, CR, LF] \<or> last msg = CHR 0x03)"

lemma memcmp_mem:
  assumes "length msg \<le> length mem" and "msg = take (length msg) mem" and "length s \<le> k" and "k \<le> length msg"
  shows "memcmp_eq (drop (length msg - k) mem) s = Some (take (length s) (drop (length msg - k) msg) = s)"
proof -
  have "take (length s) (drop (length msg - k) msg) = take (length s) (drop (length msg - k) mem)"
    using assms(3,4) by (subst assms(2)) (simp add: drop_take min_def)
  with assms(1,3,4) show ?thesis by (simp add: memcmp_eq_def)
qed

lemma next_is_begins:
  assumes "byte_count \<le> buf_size" and "buf_size \<le> length buf"
  shows "next_is buf byte_count buf_size s = Some (begins s (take (buf_size - byte_count) (drop byte_count buf)))"
proof (cases "length s \<le> buf_size - byte_count")
  case True
  with assms show ?thesis by (simp add: next_is_def memcmp_eq_def begins_def min_def)
next
  case False
  then have "length (take (length s) (take (buf_size - byte_count) (drop byte_count buf))) < length s"
    by simp
  then have "\<not> begins s (take (buf_size - byte_count) (drop byte_count buf))"
    unfolding begins_def by (metis less_irrefl)
  with False show ?thesis by (simp add: next_is_def)
qed

lemma or_else_Some [simp]: "or_else (Some a) (Some b) = Some (a \<or> b)"
  by (simp add: or_else_def)

lemma and_then_Some [simp]: "and_then (Some a) (Some b) = Some (a \<and> b)"
  by (simp add: and_then_def)

lemma suffix_full: "k \<le> length msg \<Longrightarrow> take k (drop (length msg - k) msg) = drop (length msg - k) msg"
  by simp

interpretation crlf: splitter at_crlf ends_crlf
proof unfold_locales
  show "at_crlf mem (length msg - 1) buf byte_count buf_size
      = Some (ends_crlf msg (take (buf_size - byte_count) (drop byte_count buf)))"
    if "length msg \<le> length mem" "msg = take (length msg) mem" "0 < length msg"
    for msg mem byte_count buf_size buf
    using memcmp_mem [OF that(1,2), of "[CR, LF]" 2] that(3)
    by (cases "3 \<le> length msg") (auto simp: at_crlf_def ends_crlf_def numeral_2_eq_2)
qed (auto simp: ends_crlf_def)

interpretation crlf2: splitter at_crlf2 ends_crlf2
proof unfold_locales
  show "at_crlf2 mem (length msg - 1) buf byte_count buf_size
      = Some (ends_crlf2 msg (take (buf_size - byte_count) (drop byte_count buf)))"
    if "length msg \<le> length mem" "msg = take (length msg) mem" "0 < length msg"
    for msg mem byte_count buf_size buf
    using memcmp_mem [OF that(1,2), of "[CR, LF, CR, LF]" 4] that(3)
    by (cases "5 \<le> length msg") (auto simp: at_crlf2_def ends_crlf2_def)
qed (auto simp: ends_crlf2_def)

interpretation sip_split: splitter at_sip ends_sip
proof unfold_locales
  show "at_sip mem (length msg - 1) buf byte_count buf_size
      = Some (ends_sip msg (take (buf_size - byte_count) (drop byte_count buf)))"
    if "length msg \<le> length mem" "msg = take (length msg) mem" "0 < length msg"
      "byte_count \<le> buf_size" "buf_size \<le> length buf"
    for msg mem byte_count buf_size buf
  proof (cases "3 \<le> length msg")
    case True
    have "memcmp_eq (drop (length msg - 2) mem) [CR] = Some (msg ! (length msg - 2) = CR)"
      using memcmp_mem [OF that(1,2), of "[CR]" 2] True
      by (simp add: hd_drop_conv_nth take_Suc)
    moreover have "length msg - 1 - 1 = length msg - 2" by simp
    ultimately show ?thesis
      using True by (auto simp: at_sip_def ends_sip_def next_is_begins [OF that(4,5)] simp del: One_nat_def)
  next
    case False
    then show ?thesis by (auto simp: at_sip_def ends_sip_def)
  qed
qed (auto simp: ends_sip_def)

interpretation ipp_split: splitter at_ipp ends_ipp
proof unfold_locales
  show "at_ipp mem (length msg - 1) buf byte_count buf_size
      = Some (ends_ipp msg (take (buf_size - byte_count) (drop byte_count buf)))"
    if "length msg \<le> length mem" "msg = take (length msg) mem" "0 < length msg"
      "byte_count \<le> buf_size" "buf_size \<le> length buf"
    for msg mem byte_count buf_size buf
  proof (cases "5 \<le> length msg")
    case True
    have a: "memcmp_eq (drop (length msg - 4) mem) [CR, LF, CR, LF]
        = Some (drop (length msg - 4) msg = [CR, LF, CR, LF])"
      using memcmp_mem [OF that(1,2), of "[CR, LF, CR, LF]" 4] True by simp
    have b: "memcmp_eq (drop (length msg - 1) mem) [CHR 0x03] = Some (last msg = CHR 0x03)"
      using memcmp_mem [OF that(1,2), of "[CHR 0x03]" 1] True
      by (cases msg rule: rev_cases) auto
    have e: "length msg - 1 - 3 = length msg - 4" by simp
    from True show ?thesis
      unfolding at_ipp_def e a b next_is_begins [OF that(4,5)] by (auto simp: ends_ipp_def)
  next
    case False
    then show ?thesis by (auto simp: at_ipp_def ends_ipp_def)
  qed
qed (auto simp: ends_ipp_def)


section \<open>Properties\<close>

lemma messages_tile:
  "\<exists>e. tiles 0 (regions_of 0 (messages ends xs)) e \<and> (e = length xs \<or> e + 1 = length xs \<and> 1 \<le> e)"
  using tiles_regions_of [OF messages_nonempty, of 0 ends xs] concat_messages [of ends xs] by auto

text \<open>One message is read when no proper prefix of it ends one.\<close>

lemma pieces_message:
  assumes "ends (acc @ msg) rest" and "msg \<noteq> []"
    and "\<forall>k. 0 < k \<and> k < length msg \<longrightarrow> \<not> ends (acc @ take k msg) (drop k msg @ rest)"
  shows "pieces ends acc (msg @ rest) = (acc @ msg) # pieces ends [] rest"
  using assms
proof (induction msg arbitrary: acc)
  case (Cons c msg)
  show ?case
  proof (cases "msg = []")
    case True
    with Cons.prems show ?thesis by simp
  next
    case False
    have "\<not> ends (acc @ take (Suc 0) (c # msg)) (drop (Suc 0) (c # msg) @ rest)"
      using False Cons.prems(3) by (intro Cons.prems(3) [rule_format]) simp
    then have n: "\<not> ends (acc @ [c]) (msg @ rest)" by simp
    have "\<not> ends ((acc @ [c]) @ take k msg) (drop k msg @ rest)" if "0 < k" "k < length msg" for k
      using Cons.prems(3) [rule_format, of "Suc k"] that by simp
    with Cons.IH [of "acc @ [c]"] Cons.prems(1) False n show ?thesis by simp
  qed
qed simp

text \<open>A request line: at least one byte before the line end, no line feed in it.\<close>

definition request_line :: "byte list \<Rightarrow> bool" where
  "request_line l \<longleftrightarrow> (\<exists>m. l = m @ [CR, LF] \<and> m \<noteq> [] \<and> LF \<notin> set m)"

lemma ends_crlf_LF: "ends_crlf msg rest \<Longrightarrow> LF \<in> set msg"
  unfolding ends_crlf_def by (metis in_set_dropD list.set_intros(1) list.set_intros(2))

lemma pieces_request_line:
  assumes "request_line l"
  shows "pieces ends_crlf [] (l @ rest) = l # pieces ends_crlf [] rest"
proof -
  from assms obtain m where l: "l = m @ [CR, LF]" "m \<noteq> []" "LF \<notin> set m" by (auto simp: request_line_def)
  have "\<not> ends_crlf (take k l) (drop k l @ rest)" if "k < length l" for k
  proof -
    from that have "k \<le> length (m @ [CR])" by (simp add: l)
    then have "take k l = take k (m @ [CR])"
      using take_append [of k "m @ [CR]" "[LF]"] by (simp add: l(1) del: take_append)
    then have "set (take k l) \<subseteq> set (m @ [CR])" by (metis set_take_subset)
    with l(3) have "LF \<notin> set (take k l)" by auto
    with ends_crlf_LF show ?thesis by blast
  qed
  moreover have "ends_crlf l rest" using l by (cases m) (auto simp: ends_crlf_def)
  ultimately show ?thesis using pieces_message [of ends_crlf "[]" l rest] l by auto
qed

lemma pieces_request_lines:
  "list_all request_line ls \<Longrightarrow> pieces ends_crlf [] (concat ls @ rest) = ls @ pieces ends_crlf [] rest"
  by (induction ls) (simp_all add: pieces_request_line)

lemma request_line_length: "request_line l \<Longrightarrow> 3 \<le> length l"
  by (auto simp: request_line_def Suc_le_eq)

lemma messages_request_lines:
  assumes "list_all request_line ls"
  shows "messages ends_crlf (concat ls) = ls"
proof -
  have p: "pieces ends_crlf [] (concat ls) = ls" using pieces_request_lines [OF assms, of "[]"] by simp
  have "length (last ls) \<noteq> 1" if "ls \<noteq> []"
    using that assms request_line_length [of "last ls"] by (auto simp: list_all_iff)
  moreover have "length (concat ls) \<noteq> 1"
  proof (cases ls)
    case (Cons l ls')
    with assms request_line_length [of l] show ?thesis by auto
  qed simp
  ultimately show ?thesis by (auto simp: messages_def drop_lone_def p)
qed

text \<open>
  C28 (equivalence): for every buffer of at most 32 MiB the six byte-copying loops return, without
  leaving an object or reaching the allocator's limit, and their regions are those of the
  messages the specification cuts the buffer into, each with its own condition on where a message
  ends.
\<close>

theorem extract_requests_cut:
  assumes "buf_size \<le> length buf" and "small_buf buf_size"
  shows "extract_requests_smtp buf buf_size = Some (regions_of 0 (messages ends_crlf (take buf_size buf)))
    \<and> extract_requests_ftp buf buf_size = Some (regions_of 0 (messages ends_crlf (take buf_size buf)))
    \<and> extract_requests_http buf buf_size = Some (regions_of 0 (messages ends_crlf (take buf_size buf)))
    \<and> extract_requests_rtsp buf buf_size = Some (regions_of 0 (messages ends_crlf2 (take buf_size buf)))
    \<and> extract_requests_sip buf buf_size = Some (regions_of 0 (messages ends_sip (take buf_size buf)))
    \<and> extract_requests_ipp buf buf_size = Some (regions_of 0 (messages ends_ipp (take buf_size buf)))"
  unfolding extract_requests_smtp_def extract_requests_ftp_def extract_requests_http_def
    extract_requests_rtsp_def extract_requests_sip_def extract_requests_ipp_def
  using crlf.split_requests_messages [OF assms] crlf2.split_requests_messages [OF assms]
    sip_split.split_requests_messages [OF assms] ipp_split.split_requests_messages [OF assms] by simp

theorem extract_requests_cut_witness:
  "extract_requests_rtsp (''PLAY'' @ [CR, LF, CR, LF] @ ''TEARDOWN'') 16
     = Some [mk_region 0 7, mk_region 8 15]"
proof -
  have "regions_of 0 (messages ends_crlf2 (take 16 (''PLAY'' @ [CR, LF, CR, LF] @ ''TEARDOWN'')))
    = [mk_region 0 7, mk_region 8 15]" by code_simp
  with extract_requests_cut [of 16 "''PLAY'' @ [CR, LF, CR, LF] @ ''TEARDOWN''"] show ?thesis
    by (simp add: small_buf_def)
qed

text \<open>
  A buffer made of request lines is cut into exactly these lines, whatever their
  number and length; with one more byte after the last line the regions are the same, and that
  byte belongs to no region.
\<close>

lemma extract_requests_ftp_lines:
  assumes "list_all request_line ls" and "ls \<noteq> []" and "small_buf (length (concat ls) + 1)"
  shows "extract_requests_ftp (concat ls) (length (concat ls)) = Some (regions_of 0 ls)
    \<and> extract_requests_ftp (concat ls @ [c]) (length (concat ls) + 1) = Some (regions_of 0 ls)"
proof -
  have "pieces ends_crlf [] (concat ls @ [c]) = ls @ [[c]]"
    using pieces_request_lines [OF assms(1), of "[c]"] by (simp add: ends_crlf_def)
  moreover have "concat ls \<noteq> []" using assms(1,2) by (cases ls) (auto dest!: request_line_length)
  ultimately have m: "messages ends_crlf (concat ls @ [c]) = ls"
    by (auto simp: messages_def drop_lone_def)
  have "small_buf (length (concat ls))" using assms(3) by (simp add: small_buf_def)
  from crlf.split_requests_messages [OF le_refl this] messages_request_lines [OF assms(1)]
    crlf.split_requests_messages [of "length (concat ls) + 1" "concat ls @ [c]"] assms(3) m
  show ?thesis by (simp add: extract_requests_ftp_def)
qed

lemma extract_requests_ftp_lines_sample:
  "extract_requests_ftp (''USER a'' @ [CR, LF] @ ''QUIT'' @ [CR, LF] @ ''X'') 15
     = Some [mk_region 0 7, mk_region 8 13]"
proof -
  let ?ls = "[''USER a'' @ [CR, LF], ''QUIT'' @ [CR, LF]]"
  have "request_line (''USER a'' @ [CR, LF])" "request_line (''QUIT'' @ [CR, LF])"
    unfolding request_line_def by (rule exI, rule conjI [OF refl], simp)+
  then have ls: "list_all request_line ?ls" "?ls \<noteq> []" by simp_all
  have len: "length (concat ?ls) + 1 = 15" by simp
  have "small_buf (length (concat ?ls) + 1)" unfolding len by (simp add: small_buf_def)
  from conjunct2 [OF extract_requests_ftp_lines [OF ls this, of "CHR ''X''"]] show ?thesis
    unfolding len by simp
qed

end
