(* ===== verification/Aflnet_Packets.thy ===== *)
theory Aflnet_Packets
  imports Aflnet_Regions
begin

text \<open>
  \<open>extract_requests_tls\<close> and \<open>extract_requests_ssh\<close> of \<open>aflnet.c\<close>: the header of a record is
  copied into \<open>mem\<close>, its length field says how many bytes to skip, and the bytes up to there are
  a region. The loop around the header is the same text in both functions; \<open>thr\<close> is the index of
  the byte with which the header is complete, and \<open>handle\<close> the code that then moves \<open>byte_count\<close>
  and \<open>cur_end\<close> to the end of the record. Every round reads a byte or adds a region, of which
  there are at most \<open>2 ^ 25\<close>.
\<close>

declare Option.bind_cong [fundef_cong]

function header_loop ::
  "nat \<Rightarrow> (cptr \<Rightarrow> nat \<Rightarrow> byte list \<Rightarrow> nat \<Rightarrow> nat \<Rightarrow> nat \<Rightarrow> (byte list \<times> nat \<times> nat \<times> nat) option) \<Rightarrow>
   cptr \<Rightarrow> nat \<Rightarrow> nat \<Rightarrow> byte list \<Rightarrow> nat \<Rightarrow> nat \<Rightarrow> nat \<Rightarrow> region_t list \<Rightarrow> (region_t list) option" where
  "header_loop thr handle buf buf_size byte_count mem mem_count cur_start cur_end regions =
     (if byte_count < buf_size then do {
        c \<leftarrow> rd buf byte_count;
        mem1 \<leftarrow> wr mem mem_count c;
        if mem_count \<ge> thr then
          Option.bind (handle buf buf_size mem1 mem_count (byte_count + 1) cur_end) (\<lambda>(mem2, mem_count2, byte_count2, cur_end2).
          Option.bind (add_region regions cur_start cur_end2) (\<lambda>regions1.
          (if cur_end2 < buf_size - 1
           then header_loop thr handle buf buf_size byte_count2 mem2 0 (cur_end2 + 1) (cur_end2 + 1) regions1
           else header_loop thr handle buf buf_size byte_count2 mem2 mem_count2 cur_start cur_end2 regions1)))
        else if cur_end + 1 = buf_size - 1 then add_region regions cur_start (cur_end + 1)
        else do {
          mem2 \<leftarrow> enlarge mem1 (mem_count + 1);
          header_loop thr handle buf buf_size (byte_count + 1) mem2 (mem_count + 1) cur_start (cur_end + 1) regions
        }
      } else Some regions)"
  by pat_completeness auto

termination
  by (relation "measures [\<lambda>(thr, handle, buf, n, bc, mem, mc, cs, ce, rs). 33554432 - length rs,
      \<lambda>(thr, handle, buf, n, bc, mem, mc, cs, ce, rs). n - bc]")
    (auto dest: add_region_more)

declare header_loop.simps [simp del]

definition split_headers ::
  "nat \<Rightarrow> (cptr \<Rightarrow> nat \<Rightarrow> byte list \<Rightarrow> nat \<Rightarrow> nat \<Rightarrow> nat \<Rightarrow> (byte list \<times> nat \<times> nat \<times> nat) option) \<Rightarrow>
   cptr \<Rightarrow> nat \<Rightarrow> (region_t list) option" where
  "split_headers thr handle buf buf_size = do {
     mem \<leftarrow> ck_alloc 1024;
     regions \<leftarrow> header_loop thr handle buf buf_size 0 mem 0 0 0 [];
     whole_buffer buf_size regions
   }"

text \<open>
  \<open>while ((byte_count < buf_size) && (temp_count < bytes_to_skip)) { byte_count++; cur_end++;
  temp_count++; }\<close> with \<open>k\<close> for \<open>bytes_to_skip - temp_count\<close>, and the step back that follows it.
\<close>

function skip_bytes :: "nat \<Rightarrow> nat \<Rightarrow> nat \<Rightarrow> nat \<Rightarrow> nat \<times> nat" where
  "skip_bytes buf_size k byte_count cur_end =
     (if byte_count < buf_size \<and> 0 < k then skip_bytes buf_size (k - 1) (byte_count + 1) (cur_end + 1)
      else (byte_count, cur_end))"
  by pat_completeness auto

termination
  by (relation "measure (\<lambda>(n, k, bc, ce). n - bc)") auto

declare skip_bytes.simps [simp del]

definition step_back :: "nat \<Rightarrow> nat \<times> nat \<Rightarrow> nat \<times> nat" where
  "step_back buf_size = (\<lambda>(byte_count, cur_end).
     if byte_count < buf_size then (byte_count - 1, cur_end - 1) else (byte_count, cur_end))"

lemma skip_bytes_eq:
  "byte_count \<le> buf_size \<Longrightarrow> skip_bytes buf_size k byte_count cur_end
   = (byte_count + min k (buf_size - byte_count), cur_end + min k (buf_size - byte_count))"
proof (induction buf_size k byte_count cur_end rule: skip_bytes.induct)
  case (1 buf_size k byte_count cur_end)
  show ?case
  proof (cases "byte_count < buf_size \<and> 0 < k")
    case True
    with 1 show ?thesis by (subst skip_bytes.simps) (auto simp: min_def)
  next
    case False
    with 1 show ?thesis by (subst skip_bytes.simps) auto
  qed
qed

section \<open>TLS\<close>

definition tls_handle ::
  "cptr \<Rightarrow> nat \<Rightarrow> byte list \<Rightarrow> nat \<Rightarrow> nat \<Rightarrow> nat \<Rightarrow> (byte list \<times> nat \<times> nat \<times> nat) option" where
  "tls_handle buf buf_size mem mem_count byte_count cur_end = do {
     hi \<leftarrow> rd mem 3;
     lo \<leftarrow> rd mem 4;
     let (byte_count2, cur_end2) = step_back buf_size (skip_bytes buf_size (be16 hi lo) byte_count cur_end);
     Some (mem, mem_count, byte_count2, cur_end2)
   }"

definition extract_requests_tls :: "cptr \<Rightarrow> nat \<Rightarrow> (region_t list) option" where
  "extract_requests_tls buf buf_size = split_headers 5 tls_handle buf buf_size"

section \<open>SSH\<close>

text \<open>
  The identification line: \<open>while ((byte_count < buf_size) && (memcmp(&mem[mem_count - 1],
  terminator, 2)))\<close>.
\<close>

function ident_loop :: "cptr \<Rightarrow> nat \<Rightarrow> byte list \<Rightarrow> nat \<Rightarrow> nat \<Rightarrow> nat \<Rightarrow> (byte list \<times> nat \<times> nat \<times> nat) option" where
  "ident_loop buf buf_size mem mem_count byte_count cur_end =
     (if byte_count < buf_size then do {
        e \<leftarrow> memcmp_eq (drop (mem_count - 1) mem) [CR, LF];
        if e then Some (mem, mem_count, byte_count, cur_end)
        else do {
          mem1 \<leftarrow> (if mem_count = length mem - 1 then ck_realloc mem (length mem * 2) else Some mem);
          c \<leftarrow> rd buf byte_count;
          mem2 \<leftarrow> wr mem1 (mem_count + 1) c;
          ident_loop buf buf_size mem2 (mem_count + 1) (byte_count + 1) (cur_end + 1)
        }
      } else Some (mem, mem_count, byte_count, cur_end))"
  by pat_completeness auto

termination
  by (relation "measure (\<lambda>(buf, n, mem, mc, bc, ce). n - bc)") auto

declare ident_loop.simps [simp del]

definition ssh_kex_code :: "byte \<Rightarrow> bool" where
  "ssh_kex_code c \<longleftrightarrow> 20 \<le> bval c \<and> bval c \<le> 49"

text \<open>\<open>message_size - 2\<close>, and eight more bytes for the MAC outside the key exchange, wrapping.\<close>

definition ssh_skip :: "32 word \<Rightarrow> byte \<Rightarrow> 32 word" where
  "ssh_skip message_size message_code =
     (let bytes_to_skip = message_size - 2 in
      if ssh_kex_code message_code then bytes_to_skip else bytes_to_skip + 8)"

definition ssh_handle ::
  "cptr \<Rightarrow> nat \<Rightarrow> byte list \<Rightarrow> nat \<Rightarrow> nat \<Rightarrow> nat \<Rightarrow> (byte list \<times> nat \<times> nat \<times> nat) option" where
  "ssh_handle buf buf_size mem mem_count byte_count cur_end = do {
     ident \<leftarrow> memcmp_eq mem ''SSH-'';
     if ident then ident_loop buf buf_size mem mem_count byte_count cur_end
     else do {
       b0 \<leftarrow> rd mem 0; b1 \<leftarrow> rd mem 1; b2 \<leftarrow> rd mem 2; b3 \<leftarrow> rd mem 3;
       message_code \<leftarrow> rd mem 5;
       let bytes_to_skip = ssh_skip (word_of_nat (be32 b0 b1 b2 b3)) message_code;
       let (byte_count2, cur_end2) = step_back buf_size (skip_bytes buf_size (unat bytes_to_skip) byte_count cur_end);
       Some (mem, mem_count, byte_count2, cur_end2)
     }
   }"

definition extract_requests_ssh :: "cptr \<Rightarrow> nat \<Rightarrow> (region_t list) option" where
  "extract_requests_ssh buf buf_size = split_headers 6 ssh_handle buf buf_size"

section \<open>Cutting by length\<close>

text \<open>\<open>plen xs\<close> is the length of the message at the start of \<open>xs\<close>.\<close>

function cut_by :: "(byte list \<Rightarrow> nat) \<Rightarrow> byte list \<Rightarrow> byte list list" where
  "cut_by plen xs = (if xs = [] then []
     else take (max 1 (plen xs)) xs # cut_by plen (drop (max 1 (plen xs)) xs))"
  by pat_completeness auto

termination
  by (relation "measure (\<lambda>(plen, xs). length xs)") auto

declare cut_by.simps [simp del]

lemma cut_by_Nil [simp]: "cut_by plen [] = []"
  by (simp add: cut_by.simps)

lemma concat_cut_by [simp]: "concat (cut_by plen xs) = xs"
proof (induction plen xs rule: cut_by.induct)
  case (1 plen xs)
  then show ?case by (cases "xs = []") (simp_all add: cut_by.simps [of plen xs])
qed

lemma cut_by_nonempty: "[] \<notin> set (cut_by plen xs)"
proof (induction plen xs rule: cut_by.induct)
  case (1 plen xs)
  then show ?case by (cases "xs = []") (simp_all add: cut_by.simps [of plen xs])
qed

lemma cut_by_eq_Nil [simp]: "cut_by plen xs = [] \<longleftrightarrow> xs = []"
  by (subst cut_by.simps) simp

lemma cut_by_step:
  "xs \<noteq> [] \<Longrightarrow> 0 < plen xs \<Longrightarrow> cut_by plen xs = take (plen xs) xs # cut_by plen (drop (plen xs) xs)"
  by (subst cut_by.simps) (simp add: max_def)

lemma cut_by_all: "xs \<noteq> [] \<Longrightarrow> plen xs = length xs \<Longrightarrow> cut_by plen xs = [xs]"
  by (simp add: cut_by_step)


locale framed =
  fixes thr :: nat
    and handle :: "cptr \<Rightarrow> nat \<Rightarrow> byte list \<Rightarrow> nat \<Rightarrow> nat \<Rightarrow> nat \<Rightarrow> (byte list \<times> nat \<times> nat \<times> nat) option"
    and plen :: "byte list \<Rightarrow> nat"
  assumes thr: "0 < thr \<and> thr < 1023"
    and handle: "xs = take (buf_size - a) (drop a buf) \<Longrightarrow> buf_size \<le> length buf \<Longrightarrow> small_buf buf_size \<Longrightarrow>
      thr + 2 \<le> length xs \<Longrightarrow> 1024 \<le> length mem \<Longrightarrow> length mem \<le> 67108864 \<Longrightarrow>
      take (thr + 1) mem = take (thr + 1) xs \<Longrightarrow>
      \<exists>mem2 mem_count2. handle buf buf_size mem thr (a + thr + 1) (a + thr)
          = Some (mem2, mem_count2, a + plen xs, a + plen xs - 1)
        \<and> 1024 \<le> length mem2 \<and> length mem2 \<le> 67108864"
    and plen_long: "thr + 2 \<le> length xs \<Longrightarrow> 2 \<le> plen xs \<and> plen xs \<le> length xs"
    and plen_short: "length xs \<le> thr + 1 \<Longrightarrow> plen xs = length xs"
begin

lemma fill:
  assumes "xs = take (buf_size - a) (drop a buf)" and "buf_size \<le> length buf" and "j \<le> thr"
    and "j + 2 \<le> length xs" and "1024 \<le> length mem"
  shows "\<exists>mem'. header_loop thr handle buf buf_size a mem 0 a a regions
      = header_loop thr handle buf buf_size (a + j) mem' j a (a + j) regions
    \<and> length mem' = length mem \<and> take j mem' = take j xs"
  using assms(3,4)
proof (induction j)
  case (Suc j)
  then obtain mem' where m: "header_loop thr handle buf buf_size a mem 0 a a regions
      = header_loop thr handle buf buf_size (a + j) mem' j a (a + j) regions"
      "length mem' = length mem" "take j mem' = take j xs" by auto
  have len: "length xs \<le> buf_size - a" using assms(1,2) by simp
  have rd: "rd buf (a + j) = Some (xs ! j)"
    using Suc.prems(2) len assms(1,2) by simp
  let ?mem = "mem'[j := xs ! j]"
  have b: "a + j < buf_size" "Suc (a + j) \<noteq> buf_size - 1" using Suc.prems(2) len by auto
  have j: "j < length mem'" "Suc j \<noteq> length mem'" using m(2) assms(5) Suc.prems(1) thr by auto
  have "header_loop thr handle buf buf_size (a + j) mem' j a (a + j) regions
    = header_loop thr handle buf buf_size (a + Suc j) ?mem (Suc j) a (a + Suc j) regions"
    using b Suc.prems rd j by (subst header_loop.simps) (simp add: enlarge_def)
  moreover have "take (Suc j) ?mem = take (Suc j) xs"
    using take_wr [OF j(1), of "xs ! j"] m(3) Suc.prems(2) by (simp add: take_Suc_conv_app_nth)
  ultimately show ?case using m by auto
qed auto

lemma header_loop_cut:
  assumes "xs = take (buf_size - a) (drop a buf)" and "buf_size \<le> length buf" and "small_buf buf_size"
    and "1024 \<le> length mem" and "length mem \<le> 67108864" and "length regions \<le> a" and "a \<le> buf_size"
  shows "header_loop thr handle buf buf_size a mem 0 a a regions
    = Some (regions @ regions_of a (drop_lone (cut_by plen xs)))"
  using assms(1,4-)
proof (induction "length xs" arbitrary: xs a mem regions rule: less_induct)
  case less
  have len: "length xs = buf_size - a" using less.prems(1) assms(2) by simp
  have small: "buf_size \<le> 33554432" by (rule small_bufD [OF assms(3)])
  note fill = fill [OF less.prems(1) assms(2) _ _ less.prems(2), of _ regions]
  consider "xs = []" | "length xs = 1" | "2 \<le> length xs" "length xs \<le> thr + 1" | "thr + 2 \<le> length xs"
    by (cases "length xs = 0"; cases "length xs = 1"; linarith?) fastforce+
  then show ?case
  proof cases
    case 1
    then show ?thesis using len less.prems(5) by (subst header_loop.simps) (simp add: drop_lone_def)
  next
    case 2
    then have bs: "buf_size = Suc a" using len by simp
    have mem: "0 < length mem" "length mem \<noteq> Suc 0" using less.prems(2) by auto
    have plen: "plen xs = length xs" using 2 by (intro plen_short) simp
    have "cut_by plen xs = [xs]" using 2 plen by (intro cut_by_all) auto
    moreover have "header_loop thr handle buf buf_size a mem 0 a a regions = Some regions"
      using bs assms(2) thr mem
      by (subst header_loop.simps) (simp add: enlarge_def header_loop.simps)
    ultimately show ?thesis using 2 by (simp add: drop_lone_def)
  next
    case 3
    let ?j = "length xs - 2"
    have j: "?j \<le> thr" "?j + 2 \<le> length xs" using 3 by arith+
    obtain mem' where m: "header_loop thr handle buf buf_size a mem 0 a a regions
        = header_loop thr handle buf buf_size (a + ?j) mem' ?j a (a + ?j) regions"
        "length mem' = length mem" using fill [of ?j] j by blast
    have add: "add_region regions a (buf_size - 1) = Some (regions @ [mk_region (int a) (int (buf_size - 1))])"
      using less.prems(4) 3 len small by (intro add_region_ok) auto
    have e: "a + ?j + 1 = buf_size - 1" "?j < thr" using 3 len by auto
    have "header_loop thr handle buf buf_size (a + ?j) mem' ?j a (a + ?j) regions
        = add_region regions a (buf_size - 1)"
      using e 3 len assms(2) m(2) less.prems(2) thr by (subst header_loop.simps) (simp add: e)
    moreover have "cut_by plen xs = [xs]" using 3 plen_short [of xs] by (intro cut_by_all) auto
    ultimately show ?thesis using m(1) add 3 len by (simp add: drop_lone_def)
  next
    case 4
    obtain mem' where m: "header_loop thr handle buf buf_size a mem 0 a a regions
        = header_loop thr handle buf buf_size (a + thr) mem' thr a (a + thr) regions"
        "length mem' = length mem" "take thr mem' = take thr xs" using fill [of thr] 4 by auto
    let ?mem = "mem'[thr := xs ! thr]"
    have t: "thr < length mem'" using m(2) less.prems(2) thr by simp
    have tk: "take (thr + 1) ?mem = take (thr + 1) xs"
      using take_wr [OF t, of "xs ! thr"] m(3) 4 by (simp add: take_Suc_conv_app_nth)
    obtain mem2 mem_count2 where h: "handle buf buf_size ?mem thr (a + thr + 1) (a + thr)
        = Some (mem2, mem_count2, a + plen xs, a + plen xs - 1)" "1024 \<le> length mem2" "length mem2 \<le> 67108864"
      using handle [OF less.prems(1) assms(2,3) 4, of ?mem] less.prems(2,3) m(2) tk by auto
    have pl: "2 \<le> plen xs" "plen xs \<le> length xs" using plen_long [OF 4] by simp_all
    let ?r = "mk_region (int a) (int (a + plen xs - 1))"
    have add: "add_region regions a (a + plen xs - 1) = Some (regions @ [?r])"
      using less.prems(4) pl len small by (intro add_region_ok) auto
    have rd: "rd buf (a + thr) = Some (xs ! thr)" using 4 len less.prems(1) assms(2) by simp
    have cut: "cut_by plen xs = take (plen xs) xs # cut_by plen (drop (plen xs) xs)"
      using pl by (intro cut_by_step) auto
    have lone: "drop_lone (cut_by plen xs) = take (plen xs) xs # drop_lone (cut_by plen (drop (plen xs) xs))"
      using pl by (cases "drop (plen xs) xs = []") (simp_all add: cut drop_lone_Cons, simp_all add: drop_lone_def)
    have rest_bytes: "drop (plen xs) xs = take (buf_size - (a + plen xs)) (drop (a + plen xs) buf)"
      by (simp add: less.prems(1) drop_take add.commute)
    have rest_len: "length (drop (plen xs) xs) < length xs" "length (regions @ [?r]) \<le> a + plen xs"
        "a + plen xs \<le> buf_size"
      using pl less.prems(4,5) len by auto
    have rest: "header_loop thr handle buf buf_size (a + plen xs) mem2 0 (a + plen xs) (a + plen xs) (regions @ [?r])
      = Some ((regions @ [?r]) @ regions_of (a + plen xs) (drop_lone (cut_by plen (drop (plen xs) xs))))"
      by (rule less.hyps [OF rest_len(1) rest_bytes h(2,3) rest_len(2,3)])
    have "header_loop thr handle buf buf_size (a + thr) mem' thr a (a + thr) regions
      = Some ((regions @ [?r]) @ regions_of (a + plen xs) (drop_lone (cut_by plen (drop (plen xs) xs))))"
    proof (cases "a + plen xs - 1 < buf_size - 1")
      case True
      with rest rd t h(1) add pl 4 len show ?thesis by (subst header_loop.simps) (simp add: add.assoc)
    next
      case False
      then have "a + plen xs = buf_size" "length xs = plen xs" using pl len by auto
      moreover from this have "header_loop thr handle buf buf_size (a + plen xs) mem2 mem_count2 a (a + plen xs - 1) (regions @ [?r])
         = Some (regions @ [?r])" by (subst header_loop.simps) simp
      ultimately show ?thesis using False rd t h(1) add pl 4 len
        by (subst header_loop.simps) (simp add: drop_lone_def)
    qed
    then show ?thesis using m(1) pl by (simp add: lone)
  qed
qed

lemma split_headers_cut:
  assumes "buf_size \<le> length buf" and "small_buf buf_size"
  shows "split_headers thr handle buf buf_size = Some (regions_of 0
    (if buf_size = 1 then [take 1 buf] else drop_lone (cut_by plen (take buf_size buf))))"
proof -
  let ?ps = "cut_by plen (take buf_size buf)"
  have "header_loop thr handle buf buf_size 0 (replicate 1024 NUL) 0 0 0 []
    = Some ([] @ regions_of 0 (drop_lone ?ps))"
    using assms by (intro header_loop_cut) auto
  then have l: "split_headers thr handle buf buf_size = whole_buffer buf_size (regions_of 0 (drop_lone ?ps))"
    by (simp add: split_headers_def)
  have len: "length (take buf_size buf) = buf_size" using assms(1) by simp
  show ?thesis
  proof (cases "buf_size = 1")
    case True
    have "?ps = [take buf_size buf]" using True len by (intro cut_by_all plen_short) auto
    with l len True show ?thesis by (simp add: whole_buffer_def drop_lone_def add_region_ok)
  next
    case False
    have "drop_lone ?ps \<noteq> []" if "0 < buf_size"
    proof
      assume "drop_lone ?ps = []"
      then have "length (concat ?ps) \<le> 1" by (cases ?ps) (auto simp: drop_lone_def split: if_splits)
      with that False len show False by simp
    qed
    with l False show ?thesis by (cases "drop_lone ?ps") (auto simp: whole_buffer_def)
  qed
qed

end

text \<open>TLS: a record of which at least two more bytes follow is a message; else all the rest is.\<close>

definition tls_len :: "byte list \<Rightarrow> nat" where
  "tls_len xs = (if 7 \<le> length xs \<and> 6 + be16 (xs ! 3) (xs ! 4) < length xs
     then 5 + be16 (xs ! 3) (xs ! 4) else length xs)"

text \<open>
  SSH: an identification runs to the first line end that lies behind its fifth byte; a binary
  packet has four bytes of length and what the length field and the MAC say.
\<close>

definition line_end :: "byte list \<Rightarrow> nat \<Rightarrow> bool" where
  "line_end xs n \<longleftrightarrow> xs ! (n - 2) = CR \<and> xs ! (n - 1) = LF"

definition ident_len :: "nat \<Rightarrow> byte list \<Rightarrow> nat" where
  "ident_len m xs = (case find (line_end xs) [m..<length xs] of Some n \<Rightarrow> n | None \<Rightarrow> length xs)"

definition ssh_packet_len :: "byte list \<Rightarrow> nat" where
  "ssh_packet_len xs = 6 + unat (ssh_skip (word_of_nat (be32 (xs ! 0) (xs ! 1) (xs ! 2) (xs ! 3))) (xs ! 5))"

definition ssh_len :: "byte list \<Rightarrow> nat" where
  "ssh_len xs = (if length xs < 8 then length xs
     else if take 4 xs = ''SSH-'' then ident_len 7 xs
     else if ssh_packet_len xs + 1 < length xs then ssh_packet_len xs else length xs)"

lemma ident_len_step:
  "m < length xs \<Longrightarrow> ident_len m xs = (if line_end xs m then m else ident_len (Suc m) xs)"
  by (simp add: ident_len_def upt_conv_Cons)

lemma ident_len_bounds: "m \<le> length xs \<Longrightarrow> m \<le> ident_len m xs \<and> ident_len m xs \<le> length xs"
  by (auto simp: ident_len_def find_Some_iff split: option.splits)

lemma line_end_memcmp:
  assumes "take m mem = take m xs" and "2 \<le> m" and "m \<le> length xs" and "m \<le> length mem"
  shows "memcmp_eq (drop (m - 2) mem) [CR, LF] = Some (line_end xs m)"
proof -
  have e: "mem ! i = xs ! i" if "i < m" for i using assms(1) that by (metis nth_take)
  have "take 2 (drop (m - 2) mem) = [mem ! (m - 2), mem ! (m - 1)]"
    using assms(2,4) by (intro nth_equalityI) (auto simp: less_Suc_eq nth_Cons' Suc_diff_Suc numeral_2_eq_2)
  with e [of "m - 2"] e [of "m - 1"] assms show ?thesis
    by (simp add: memcmp_eq_def line_end_def numeral_2_eq_2)
qed

lemma ident_loop_len:
  assumes "xs = take (buf_size - a) (drop a buf)" and "buf_size \<le> length buf" and "small_buf buf_size"
    and "7 \<le> m" and "m \<le> length xs" and "take m mem = take m xs" and "m \<le> length mem"
    and "1024 \<le> length mem" and "length mem \<le> 67108864"
  shows "\<exists>mem2 mem_count2. ident_loop buf buf_size mem (m - 1) (a + m) (a + m - 1)
      = Some (mem2, mem_count2, a + ident_len m xs, a + ident_len m xs - 1)
    \<and> 1024 \<le> length mem2 \<and> length mem2 \<le> 67108864"
  using assms(4-)
proof (induction "length xs - m" arbitrary: m mem)
  case 0
  then have m: "m = length xs" by simp
  have "length xs = buf_size - a" using assms(1,2) by simp
  then have "\<not> a + m < buf_size" using m by simp
  moreover have "ident_len m xs = m" using m by (simp add: ident_len_def)
  ultimately show ?case using 0 by (subst ident_loop.simps) simp
next
  case (Suc d)
  have len: "length xs = buf_size - a" using assms(1,2) by simp
  have lt: "m < length xs" "a + m < buf_size" using Suc.hyps(2) len by auto
  have rd: "rd buf (a + m) = Some (xs ! m)" using lt assms(1,2) len by simp
  have cmp: "memcmp_eq (drop (m - 1 - 1) mem) [CR, LF] = Some (line_end xs m)"
    using line_end_memcmp [OF Suc.prems(3), of ] Suc.prems(1,2,4) by (simp add: numeral_2_eq_2)
  show ?case
  proof (cases "line_end xs m")
    case True
    then show ?thesis using lt cmp Suc.prems(5,6) by (subst ident_loop.simps) (simp add: ident_len_step)
  next
    case False
    obtain mem1 where m1: "(if m - 1 = length mem - 1 then ck_realloc mem (length mem * 2) else Some mem) = Some mem1"
        "m < length mem1" "take m mem1 = take m mem" "1024 \<le> length mem1" "length mem1 \<le> 67108864"
    proof (cases "m = length mem")
      case True
      moreover have "mem \<noteq> []" using Suc.prems(5) by auto
      ultimately show ?thesis using that Suc.prems(4-6) lt len small_bufD [OF assms(3)]
        by (auto simp: ck_realloc_def MAX_ALLOC_def)
    next
      case False
      then have "m - 1 \<noteq> length mem - 1" and "m < length mem" using Suc.prems(1,4) by arith+
      then show ?thesis using that [of mem] Suc.prems(5,6) by simp
    qed
    let ?mem = "mem1[m := xs ! m]"
    have tk: "take (Suc m) ?mem = take (Suc m) xs"
      using take_wr [OF m1(2), of "xs ! m"] m1(3) Suc.prems(3) lt(1) by (simp add: take_Suc_conv_app_nth)
    have "\<exists>mem2 mem_count2. ident_loop buf buf_size ?mem (Suc m - 1) (a + Suc m) (a + Suc m - 1)
        = Some (mem2, mem_count2, a + ident_len (Suc m) xs, a + ident_len (Suc m) xs - 1)
      \<and> 1024 \<le> length mem2 \<and> length mem2 \<le> 67108864"
      using Suc.hyps(2) Suc.prems(1) lt tk m1 by (intro Suc.hyps(1)) auto
    moreover have "ident_loop buf buf_size mem (m - 1) (a + m) (a + m - 1)
      = ident_loop buf buf_size ?mem (Suc m - 1) (a + Suc m) (a + Suc m - 1)"
      using False cmp lt rd m1(1,2) Suc.prems(1) by (subst ident_loop.simps) simp
    ultimately show ?thesis using False lt(1) by (simp add: ident_len_step)
  qed
qed

interpretation tls_split: framed 5 tls_handle tls_len
proof unfold_locales
  show "\<exists>mem2 mem_count2. tls_handle buf buf_size mem 5 (a + 5 + 1) (a + 5)
      = Some (mem2, mem_count2, a + tls_len xs, a + tls_len xs - 1) \<and> 1024 \<le> length mem2 \<and> length mem2 \<le> 67108864"
    if "xs = take (buf_size - a) (drop a buf)" "buf_size \<le> length buf" "small_buf buf_size"
      "5 + 2 \<le> length xs" "1024 \<le> length mem" "length mem \<le> 67108864" "take (5 + 1) mem = take (5 + 1) xs"
    for xs buf_size a buf mem
  proof -
    have len: "length xs = buf_size - a" using that(1,2) by simp
    have tk: "take 6 mem = take 6 xs" using that(7) by simp
    have e: "mem ! i = xs ! i" if "i < 6" for i
      using that tk by (metis nth_take)
    show ?thesis
      using that(4,5,6) len e [of 3] e [of 4]
      by (auto simp: tls_handle_def skip_bytes_eq step_back_def tls_len_def Let_def min_def)
  qed
qed (auto simp: tls_len_def)

interpretation ssh_split: framed 6 ssh_handle ssh_len
proof unfold_locales
  show "\<exists>mem2 mem_count2. ssh_handle buf buf_size mem 6 (a + 6 + 1) (a + 6)
      = Some (mem2, mem_count2, a + ssh_len xs, a + ssh_len xs - 1) \<and> 1024 \<le> length mem2 \<and> length mem2 \<le> 67108864"
    if "xs = take (buf_size - a) (drop a buf)" "buf_size \<le> length buf" "small_buf buf_size"
      "6 + 2 \<le> length xs" "1024 \<le> length mem" "length mem \<le> 67108864" "take (6 + 1) mem = take (6 + 1) xs"
    for xs buf_size a buf mem
  proof -
    have len: "length xs = buf_size - a" using that(1,2) by simp
    have tk: "take 7 mem = take 7 xs" using that(7) by simp
    have e: "mem ! i = xs ! i" if "i < 7" for i
      using that tk by (metis nth_take)
    have "take 4 (take 7 mem) = take 4 (take 7 xs)" by (simp only: tk)
    moreover have "length ''SSH-'' = 4" by simp
    ultimately have cmp: "memcmp_eq mem ''SSH-'' = Some (take 4 xs = ''SSH-'')"
      using that(5) by (simp only: memcmp_eq_def) simp
    have idl: "\<exists>mem2 mem_count2. ident_loop buf buf_size mem 6 (a + 6 + 1) (a + 6)
        = Some (mem2, mem_count2, a + ident_len 7 xs, a + ident_len 7 xs - 1)
        \<and> 1024 \<le> length mem2 \<and> length mem2 \<le> 67108864"
      using ident_loop_len [OF that(1-3), of 7 mem] that(4-6) tk by (simp add: add.commute)
    show ?thesis
    proof (cases "take 4 xs = ''SSH-''")
      case True
      with cmp idl that(4) show ?thesis by (simp add: ssh_handle_def ssh_len_def)
    next
      case False
      moreover have "mem \<noteq> []" using that(5) by auto
      ultimately show ?thesis
        using cmp that(4,5,6) len e [of 0] e [of 1] e [of 2] e [of 3] e [of 5]
        by (auto simp: ssh_handle_def skip_bytes_eq step_back_def ssh_len_def ssh_packet_len_def Let_def min_def)
    qed
  qed
  show "2 \<le> ssh_len xs \<and> ssh_len xs \<le> length xs" if "6 + 2 \<le> length xs" for xs
    using that ident_len_bounds [of 7 xs] by (auto simp: ssh_len_def ssh_packet_len_def)
qed (auto simp: ssh_len_def)


section \<open>Properties\<close>

lemma tls_no_lone: "xs = [] \<or> 2 \<le> length xs \<Longrightarrow> drop_lone (cut_by tls_len xs) = cut_by tls_len xs"
proof (induction "length xs" arbitrary: xs rule: less_induct)
  case less
  show ?case
  proof (cases "xs = []")
    case False
    then have p: "2 \<le> tls_len xs" "tls_len xs \<le> length xs" using less.prems by (auto simp: tls_len_def)
    have cut: "cut_by tls_len xs = take (tls_len xs) xs # cut_by tls_len (drop (tls_len xs) xs)"
      using p False by (intro cut_by_step) auto
    have two: "drop (tls_len xs) xs = [] \<or> 2 \<le> length (drop (tls_len xs) xs)"
      by (auto simp: tls_len_def)
    have IH: "drop_lone (cut_by tls_len (drop (tls_len xs) xs)) = cut_by tls_len (drop (tls_len xs) xs)"
      using p False two by (intro less.hyps) auto
    show ?thesis
      using p IH by (cases "drop (tls_len xs) xs = []") (simp_all add: cut drop_lone_Cons, simp_all add: drop_lone_def)
  qed (simp add: drop_lone_def)
qed

lemma tls_regions:
  assumes "buf_size \<le> length buf" and "small_buf buf_size"
  shows "extract_requests_tls buf buf_size = Some (regions_of 0 (cut_by tls_len (take buf_size buf)))"
proof -
  let ?xs = "take buf_size buf"
  have "(if buf_size = 1 then [take 1 buf] else drop_lone (cut_by tls_len ?xs)) = cut_by tls_len ?xs"
  proof (cases "buf_size = 1")
    case True
    then have "cut_by tls_len ?xs = [?xs]" using assms(1) by (intro cut_by_all) (auto simp: tls_len_def)
    with True show ?thesis by simp
  next
    case False
    then have "?xs = [] \<or> 2 \<le> length ?xs" using assms(1) by (cases "buf_size = 0") auto
    from tls_no_lone [OF this] False show ?thesis by simp
  qed
  with tls_split.split_headers_cut [OF assms]
  show ?thesis by (simp add: extract_requests_tls_def)
qed

text \<open>
  C29 (equivalence): the regions of a TLS buffer are its records, each five header bytes and what
  its length field says; only when fewer than two bytes follow a record, or when the record is cut
  off, the rest is one region. Together they cover every byte of the buffer exactly once.
\<close>

theorem extract_requests_tls_records:
  assumes "buf_size \<le> length buf" and "small_buf buf_size"
  shows "extract_requests_tls buf buf_size = Some (regions_of 0 (cut_by tls_len (take buf_size buf)))
    \<and> tiles 0 (regions_of 0 (cut_by tls_len (take buf_size buf))) buf_size"
  using tls_regions [OF assms] tiles_regions_of [OF cut_by_nonempty, of 0 tls_len "take buf_size buf"] assms(1) by simp

theorem extract_requests_tls_records_witness:
  "extract_requests_tls (map char_of [22, 3, 1, 0, 2, 170, 187, 20, 3, 3, 0, 1, 1 :: nat]) 13
     = Some [mk_region 0 6, mk_region 7 12]"
proof -
  let ?b = "map char_of [22, 3, 1, 0, 2, 170, 187, 20, 3, 3, 0, 1, 1 :: nat]"
  have "regions_of 0 (cut_by tls_len (take 13 ?b)) = [mk_region 0 6, mk_region 7 12]" by code_simp
  with extract_requests_tls_records [of 13 ?b] show ?thesis by (simp add: small_buf_def)
qed

text \<open>
  A binary packet of the key exchange: four bytes of length, the padding length, a message code
  between 20 and 49, and as many bytes as the length field counts.
\<close>

definition kex_packet :: "byte list \<Rightarrow> bool" where
  "kex_packet p \<longleftrightarrow> 8 \<le> length p \<and> take 4 p \<noteq> ''SSH-'' \<and> ssh_kex_code (p ! 5)
     \<and> be32 (p ! 0) (p ! 1) (p ! 2) (p ! 3) + 4 = length p"

lemma ssh_packet_len_kex:
  assumes "kex_packet p"
  shows "ssh_packet_len (p @ rest) = length p"
proof -
  let ?n = "be32 (p ! 0) (p ! 1) (p ! 2) (p ! 3)"
  have l: "8 \<le> length p" and n: "?n + 4 = length p" and k: "ssh_kex_code (p ! 5)"
    using assms by (simp_all add: kex_packet_def)
  have "unat (word_of_nat ?n - 2 :: 32 word) = ?n - 2"
  proof -
    have "(2 :: 32 word) \<le> word_of_nat ?n" using n l
      by (simp add: word_le_nat_alt unat32_of_nat)
    then show ?thesis by (simp add: unat_sub unat32_of_nat)
  qed
  moreover have "p \<noteq> []" using l by auto
  ultimately show ?thesis using l n k by (simp add: ssh_packet_len_def ssh_skip_def nth_append)
qed

lemma ssh_cut_kex:
  assumes "list_all kex_packet ps" and "length rest \<noteq> 1"
  shows "drop_lone (cut_by ssh_len (concat ps @ rest)) = ps @ drop_lone (cut_by ssh_len rest)"
  using assms(1)
proof (induction ps)
  case (Cons p ps)
  let ?r = "concat ps @ rest"
  have p: "kex_packet p" "8 \<le> length p" "take 4 (p @ ?r) \<noteq> ''SSH-''"
    using Cons.prems by (auto simp: kex_packet_def)
  have r1: "length ?r \<noteq> 1"
    using assms(2) Cons.prems by (cases ps) (auto simp: kex_packet_def)
  have len: "ssh_len (p @ ?r) = length p"
    using p r1 ssh_packet_len_kex [OF p(1), of ?r] by (cases "length ?r") (simp_all add: ssh_len_def)
  then have cut: "cut_by ssh_len (p @ ?r) = p # cut_by ssh_len ?r"
    using p(2) by (subst cut_by_step) auto
  have "drop_lone (p # cut_by ssh_len ?r) = p # drop_lone (cut_by ssh_len ?r)"
    using p(2) by (cases "?r = []") (simp_all add: drop_lone_Cons, simp_all add: drop_lone_def)
  with Cons cut show ?case by simp
qed simp

text \<open>
  An SSH buffer that is a sequence of key exchange packets is cut into exactly
  these packets, although the length arithmetic wraps and the loop steps back after every skip.
\<close>

lemma extract_requests_ssh_packets:
  assumes "list_all kex_packet ps" and "small_buf (length (concat ps))"
  shows "extract_requests_ssh (concat ps) (length (concat ps)) = Some (regions_of 0 ps)"
proof -
  have "length (concat ps) \<noteq> 1" using assms(1) by (cases ps) (auto simp: kex_packet_def)
  with ssh_split.split_headers_cut [OF le_refl assms(2)] ssh_cut_kex [OF assms(1), of "[]"] show ?thesis
    by (simp add: extract_requests_ssh_def drop_lone_def)
qed

lemma extract_requests_ssh_packets_sample:
  "extract_requests_ssh (map char_of [0, 0, 0, 6, 4, 20, 1, 2, 3, 4, 0, 0, 0, 4, 4, 21, 1, 2 :: nat]) 18
     = Some [mk_region 0 9, mk_region 10 17]"
proof -
  let ?ps = "[map char_of [0, 0, 0, 6, 4, 20, 1, 2, 3, 4 :: nat], map char_of [0, 0, 0, 4, 4, 21, 1, 2 :: nat]]"
  have "list_all kex_packet ?ps"
    by (simp add: kex_packet_def be32_eq ssh_kex_code_def)
  moreover have len: "length (concat ?ps) = 18" by simp
  ultimately show ?thesis
    using extract_requests_ssh_packets [of ?ps] unfolding len by (simp add: small_buf_def)
qed

end
