(* ===== verification/Aflnet_Datagrams.thy ===== *)
theory Aflnet_Datagrams
  imports Aflnet_Packets
begin

text \<open>
  \<open>extract_requests_dicom\<close>, \<open>extract_requests_dns\<close> and \<open>extract_requests_dtls12\<close> of
  \<open>aflnet.c\<close>: splitters that look into the buffer itself, at a length field, at the end of a
  query, or for the start of the next record.
\<close>

section \<open>DICOM\<close>

text \<open>
  All quantities are \<open>unsigned int\<close> and the sums may wrap around. The shift of the first length
  byte into the sign bit is taken as gcc compiles it.
\<close>

definition dicom_packet_length :: "byte \<Rightarrow> byte \<Rightarrow> byte \<Rightarrow> byte \<Rightarrow> 32 word" where
  "dicom_packet_length b2 b3 b4 b5 = (let pdu_length = word_of_nat (be32 b2 b3 b4 b5) in pdu_length + 6)"

function dicom_loop ::
  "cptr \<Rightarrow> nat \<Rightarrow> 32 word \<Rightarrow> region_t list \<Rightarrow> (32 word \<times> region_t list) option" where
  "dicom_loop buf buf_size byte_count regions =
     (if unat byte_count < buf_size then
        if unat (byte_count + 2) \<ge> buf_size \<or> unat (byte_count + 5) \<ge> buf_size then Some (byte_count, regions)
        else do {
          b5 \<leftarrow> rd buf (unat (byte_count + 5));
          b4 \<leftarrow> rd buf (unat (byte_count + 4));
          b3 \<leftarrow> rd buf (unat (byte_count + 3));
          b2 \<leftarrow> rd buf (unat (byte_count + 2));
          let packet_length = dicom_packet_length b2 b3 b4 b5;
          let start = byte_count;
          let end_b = byte_count + packet_length - 1;
          if end_b < start then Some (byte_count, regions)
          else if unat end_b \<ge> buf_size then Some (byte_count, regions)
          else Option.bind (add_region regions (unat start) (unat end_b)) (\<lambda>regions1.
            if byte_count + packet_length < byte_count then Some (byte_count, regions1)
            else if byte_count + packet_length < packet_length then Some (byte_count, regions1)
            else dicom_loop buf buf_size (byte_count + packet_length) regions1)
        }
      else Some (byte_count, regions))"
  by pat_completeness auto

termination
  by (relation "measure (\<lambda>(buf, n, bc, rs). 33554432 - length rs)") (auto dest: add_region_more)

declare dicom_loop.simps [simp del]

definition extract_requests_dicom :: "cptr \<Rightarrow> nat \<Rightarrow> (region_t list) option" where
  "extract_requests_dicom buf buf_size = do {
     (byte_count, regions) \<leftarrow> dicom_loop buf buf_size 0 [];
     if unat byte_count < buf_size \<and> buf_size > 0 then add_region regions (unat byte_count) (buf_size - 1)
     else Some regions
   }"

section \<open>DNS\<close>

function dns_req_loop ::
  "cptr \<Rightarrow> nat \<Rightarrow> nat \<Rightarrow> byte list \<Rightarrow> nat \<Rightarrow> nat \<Rightarrow> nat \<Rightarrow> region_t list \<Rightarrow> (region_t list) option" where
  "dns_req_loop buf buf_size byte_count mem mem_count cur_start cur_end regions =
     (if byte_count < buf_size then do {
        c \<leftarrow> rd buf byte_count;
        mem1 \<leftarrow> wr mem mem_count c;
        l \<leftarrow> rd mem1 mem_count;
        if mem_count \<ge> 12 \<and> l = NUL then do {
          regions1 \<leftarrow> add_region regions cur_start (cur_end + 4);
          if cur_end + 4 = buf_size - 1 then Some regions1
          else dns_req_loop buf buf_size (byte_count + 4 + 1) mem1 0 (cur_end + 4 + 1) (cur_end + 4 + 1) regions1
        }
        else if cur_end + 1 = buf_size - 1 then add_region regions cur_start (cur_end + 1)
        else do {
          mem2 \<leftarrow> enlarge mem1 (mem_count + 1);
          dns_req_loop buf buf_size (byte_count + 1) mem2 (mem_count + 1) cur_start (cur_end + 1) regions
        }
      } else Some regions)"
  by pat_completeness auto

termination
  by (relation "measure (\<lambda>(buf, n, bc, rest). n - bc)") auto

declare dns_req_loop.simps [simp del]

definition extract_requests_dns :: "cptr \<Rightarrow> nat \<Rightarrow> (region_t list) option" where
  "extract_requests_dns buf buf_size = do {
     mem \<leftarrow> ck_alloc 1024;
     regions \<leftarrow> dns_req_loop buf buf_size 0 mem 0 0 0 [];
     whole_buffer buf_size regions
   }"

section \<open>DTLS\<close>

definition dtls12_version :: "byte list" where
  "dtls12_version = [CHR 0xFE, CHR 0xFD]"

definition CCS_CONTENT_TYPE :: nat where "CCS_CONTENT_TYPE = 0x14"
definition HEARTBEAT_CONTENT_TYPE :: nat where "HEARTBEAT_CONTENT_TYPE = 0x18"

definition content_type_byte :: "byte \<Rightarrow> bool" where
  "content_type_byte c \<longleftrightarrow> CCS_CONTENT_TYPE \<le> bval c \<and> bval c \<le> HEARTBEAT_CONTENT_TYPE"

text \<open>The condition of the first \<open>if\<close>; its \<open>memcmp\<close> reads two bytes behind \<open>byte_count\<close>.\<close>

definition dtls_record_start :: "cptr \<Rightarrow> nat \<Rightarrow> nat \<Rightarrow> bool option" where
  "dtls_record_start buf buf_size byte_count =
     (if byte_count > 3 \<and> buf_size - byte_count > 1 then do {
        c \<leftarrow> rd buf byte_count;
        if content_type_byte c then memcmp_eq (drop (byte_count + 1) buf) dtls12_version else Some False
      } else Some False)"

function dtls_req_loop ::
  "cptr \<Rightarrow> nat \<Rightarrow> nat \<Rightarrow> nat \<Rightarrow> region_t list \<Rightarrow> (region_t list) option" where
  "dtls_req_loop buf buf_size byte_count cur_start regions =
     (if byte_count < buf_size then do {
        s \<leftarrow> dtls_record_start buf buf_size byte_count;
        if s then do {
          regions1 \<leftarrow> add_region regions cur_start (byte_count - 1);
          dtls_req_loop buf buf_size (byte_count + 1) byte_count regions1
        }
        else if byte_count = buf_size - 1 then add_region regions cur_start byte_count
        else dtls_req_loop buf buf_size (byte_count + 1) cur_start regions
      } else Some regions)"
  by pat_completeness auto

termination
  by (relation "measure (\<lambda>(buf, n, bc, rest). n - bc)") auto

declare dtls_req_loop.simps [simp del]

definition extract_requests_dtls12 :: "cptr \<Rightarrow> nat \<Rightarrow> (region_t list) option" where
  "extract_requests_dtls12 buf buf_size = do {
     regions \<leftarrow> dtls_req_loop buf buf_size 0 0 [];
     whole_buffer buf_size regions
   }"

section \<open>DICOM regions\<close>

text \<open>A PDU: two bytes, four bytes of length, and the body; what is not a complete PDU is the last region.\<close>

definition dicom_packet :: "byte list \<Rightarrow> nat" where
  "dicom_packet xs = unat (dicom_packet_length (xs ! 2) (xs ! 3) (xs ! 4) (xs ! 5))"

definition dicom_len :: "byte list \<Rightarrow> nat" where
  "dicom_len xs = (if 6 \<le> length xs \<and> 0 < dicom_packet xs \<and> dicom_packet xs \<le> length xs
     then dicom_packet xs else length xs)"

text \<open>The two overflow tests of the code: \<open>end < start\<close> catches every sum that wraps.\<close>

lemma dicom_end:
  fixes a p :: "32 word"
  assumes "unat a < n" and "n \<le> 2 ^ 25"
  shows "\<not> a + p - 1 < a \<and> unat (a + p - 1) < n \<longleftrightarrow> 0 < unat p \<and> unat a + unat p \<le> n"
    and "0 < unat p \<Longrightarrow> unat a + unat p \<le> n \<Longrightarrow> unat (a + p - 1) = unat a + unat p - 1"
    and "unat a + unat p \<le> n \<Longrightarrow> unat (a + p) = unat a + unat p"
proof -
  show sum: "unat (a + p) = unat a + unat p" if "unat a + unat p \<le> n"
    using that assms by (intro unat32_add) simp
  show e: "unat (a + p - 1) = unat a + unat p - 1" if "0 < unat p" "unat a + unat p \<le> n"
  proof -
    have "1 \<le> a + p" using that sum by (simp add: word_le_nat_alt)
    then show ?thesis using sum that by (simp add: unat_sub)
  qed
  show "\<not> a + p - 1 < a \<and> unat (a + p - 1) < n \<longleftrightarrow> 0 < unat p \<and> unat a + unat p \<le> n"
  proof (cases "p = 0")
    case True
    show ?thesis
    proof (cases "a = 0")
      case True
      have "unat (- 1 :: 32 word) = 4294967295" by (simp add: unsigned_minus_1_eq_mask mask_eq_exp_minus_1)
      then show ?thesis using True \<open>p = 0\<close> assms(2) by simp
    next
      case False
      then have "0 < unat a" by (simp add: unat_gt_0)
      then have "unat (a - 1) < unat a" by (simp add: unat_sub word_le_nat_alt)
      then show ?thesis using True by (simp add: word_less_nat_alt)
    qed
  next
    case False
    define q where "q = p - 1"
    have p: "0 < unat p" using False by (simp add: unat_gt_0)
    have q: "unat q = unat p - 1" using p unfolding q_def by (simp add: unat_sub word_le_nat_alt)
    have e: "a + p - 1 = a + q" by (simp add: q_def)
    have sum_q: "unat (a + q) = (unat a + unat q) mod 4294967296" by (simp add: unat_word_ariths take_bit_eq_mod)
    show ?thesis
    proof (cases "unat a + unat q < 4294967296")
      case True
      then have "unat (a + q) = unat a + unat q" using sum_q by simp
      then show ?thesis using p q unfolding e by (auto simp: word_less_nat_alt)
    next
      case False
      then have "unat (a + q) = unat a + unat q - 4294967296"
        using sum_q unat32_less [of a] unat32_less [of q] by (simp add: le_mod_geq)
      then have "unat (a + q) < unat a" using False unat32_less [of q] by linarith
      then show ?thesis using False q assms unfolding e by (auto simp: word_less_nat_alt)
    qed
  qed
qed

lemma dicom_loop_cut:
  assumes "xs = take (buf_size - unat a) (drop (unat a) buf)" and "buf_size \<le> length buf" and "small_buf buf_size"
    and "length regions \<le> unat a" and "unat a \<le> buf_size"
  shows "\<exists>b ps. dicom_loop buf buf_size a regions = Some (b, regions @ regions_of (unat a) ps)
    \<and> unat b \<le> buf_size \<and> unat b = unat a + length (concat ps)
    \<and> cut_by dicom_len xs = ps @ (if unat b < buf_size then [drop (length (concat ps)) xs] else [])"
  using assms(1,4,5)
proof (induction "length xs" arbitrary: xs a regions rule: less_induct)
  case less
  have len: "length xs = buf_size - unat a" using less.prems(1) assms(2) by simp
  have small: "buf_size \<le> 33554432" by (rule small_bufD [OF assms(3)])
  let ?p = "dicom_packet_length (xs ! 2) (xs ! 3) (xs ! 4) (xs ! 5)"
  have off: "unat (a + w) = unat a + unat w" if "unat w \<le> 5" for w :: "32 word"
    using that less.prems(3) small by (intro unat32_add) simp
  consider "xs = []" | "xs \<noteq> []" "dicom_len xs = length xs" "\<not> (6 \<le> length xs \<and> 0 < unat ?p \<and> unat ?p \<le> length xs)"
    | "6 \<le> length xs" "0 < unat ?p" "unat ?p \<le> length xs" "dicom_len xs = unat ?p"
    by (cases "xs = []"; cases "6 \<le> length xs \<and> 0 < unat ?p \<and> unat ?p \<le> length xs")
      (auto simp: dicom_len_def dicom_packet_def)
  then show ?case
  proof cases
    case 1
    then have "unat a = buf_size" using len less.prems(3) by simp
    then have "dicom_loop buf buf_size a regions = Some (a, regions)" by (subst dicom_loop.simps) simp
    then show ?thesis using 1 \<open>unat a = buf_size\<close> by (intro exI [of _ a] exI [of _ "[]"]) simp
  next
    case 2
    have lt: "unat a < buf_size" using 2(1) len by (cases "unat a < buf_size") auto
    have "dicom_loop buf buf_size a regions = Some (a, regions)"
    proof (cases "6 \<le> length xs")
      case True
      have rds: "rd buf (unat (a + 5)) = Some (xs ! 5)" "rd buf (unat (a + 4)) = Some (xs ! 4)"
          "rd buf (unat (a + 3)) = Some (xs ! 3)" "rd buf (unat (a + 2)) = Some (xs ! 2)"
          "unat (a + 2) < buf_size" "unat (a + 5) < buf_size"
        using True len less.prems(1) assms(2) by (simp_all add: off)
      have "a + ?p - 1 < a \<or> unat (a + ?p - 1) \<ge> buf_size"
        using dicom_end(1) [OF lt, of ?p] small 2(3) True len lt by auto
      then show ?thesis
        using lt rds by (subst dicom_loop.simps) (auto simp: Let_def)
    next
      case False
      then show ?thesis using lt len by (subst dicom_loop.simps) (auto simp: off)
    qed
    moreover have "cut_by dicom_len xs = [xs]" using 2 by (intro cut_by_all) auto
    ultimately show ?thesis using lt less.prems(3) by (intro exI [of _ a] exI [of _ "[]"]) simp
  next
    case 3
    have lt: "unat a < buf_size" using 3(1) len by (cases "unat a < buf_size") auto
    have rds: "rd buf (unat (a + 5)) = Some (xs ! 5)" "rd buf (unat (a + 4)) = Some (xs ! 4)"
        "rd buf (unat (a + 3)) = Some (xs ! 3)" "rd buf (unat (a + 2)) = Some (xs ! 2)"
        "unat (a + 2) < buf_size" "unat (a + 5) < buf_size"
      using 3(1) len less.prems(1) assms(2) by (simp_all add: off)
    have le: "unat a + unat ?p \<le> buf_size" using 3(3) len lt by simp
    note de = dicom_end [OF lt, of ?p]
    have sums: "unat (a + ?p - 1) = unat a + unat ?p - 1" "unat (a + ?p) = unat a + unat ?p"
        "\<not> a + ?p - 1 < a" "unat (a + ?p - 1) < buf_size"
      using de small le 3(2) by auto
    have nw: "\<not> a + ?p < a" "\<not> a + ?p < ?p" using sums(2) by (simp_all add: word_less_nat_alt)
    let ?r = "mk_region (int (unat a)) (int (unat a + unat ?p - 1))"
    have add: "add_region regions (unat a) (unat (a + ?p - 1)) = Some (regions @ [?r])"
      using less.prems(2) small lt sums by (subst sums(1), intro add_region_ok) auto
    have unr: "dicom_loop buf buf_size a regions = dicom_loop buf buf_size (a + ?p) (regions @ [?r])"
      using lt rds sums(3,4) nw add by (subst dicom_loop.simps) (simp add: Let_def)
    have "\<exists>b ps. dicom_loop buf buf_size (a + ?p) (regions @ [?r]) = Some (b, (regions @ [?r]) @ regions_of (unat (a + ?p)) ps)
      \<and> unat b \<le> buf_size \<and> unat b = unat (a + ?p) + length (concat ps)
      \<and> cut_by dicom_len (drop (unat ?p) xs)
          = ps @ (if unat b < buf_size then [drop (length (concat ps)) (drop (unat ?p) xs)] else [])"
      using less.prems(1,2) 3 le sums(2) by (intro less.hyps) (auto simp: drop_take add.commute)
    then obtain b ps where b: "dicom_loop buf buf_size (a + ?p) (regions @ [?r])
          = Some (b, (regions @ [?r]) @ regions_of (unat (a + ?p)) ps)"
        "unat b \<le> buf_size" "unat b = unat (a + ?p) + length (concat ps)"
        "cut_by dicom_len (drop (unat ?p) xs)
          = ps @ (if unat b < buf_size then [drop (length (concat ps)) (drop (unat ?p) xs)] else [])" by blast
    have cut: "cut_by dicom_len xs = take (unat ?p) xs # cut_by dicom_len (drop (unat ?p) xs)"
      using 3 by (subst cut_by_step) auto
    show ?thesis
      using b unr cut 3 sums(2)
      by (intro exI [of _ b] exI [of _ "take (unat ?p) xs # ps"]) (auto simp: add.assoc add.commute)
  qed
qed


section \<open>DTLS regions\<close>

definition record_at :: "cptr \<Rightarrow> nat \<Rightarrow> nat \<Rightarrow> bool" where
  "record_at buf buf_size p \<longleftrightarrow> 3 < p \<and> p + 1 < buf_size \<and> content_type_byte (buf ! p)
     \<and> buf ! (p + 1) = CHR 0xFE \<and> buf ! (p + 2) = CHR 0xFD"

lemma dtls_record_start_at:
  assumes "p < buf_size" and "buf_size < length buf"
  shows "dtls_record_start buf buf_size p = Some (record_at buf buf_size p)"
proof -
  have "take 2 (drop (p + 1) buf) = [buf ! (p + 1), buf ! (p + 2)]" if "p + 1 < buf_size"
    using that assms(2) by (intro nth_equalityI) (auto simp: less_Suc_eq nth_Cons' numeral_2_eq_2)
  then show ?thesis using assms
    by (auto simp: dtls_record_start_def record_at_def memcmp_eq_def dtls12_version_def numeral_2_eq_2)
qed

lemma dtls_req_loop_starts:
  assumes "buf_size < length buf" and "small_buf buf_size" and "byte_count < buf_size"
    and "length regions \<le> cur_start" and "cur_start < byte_count \<or> cur_start = 0 \<and> byte_count = 0"
  shows "\<exists>rs. dtls_req_loop buf buf_size byte_count cur_start regions = Some (regions @ rs)
    \<and> tiles cur_start rs buf_size
    \<and> map start_byte rs = int cur_start # map int (filter (record_at buf buf_size) [byte_count..<buf_size])"
  using assms(3-)
proof (induction "buf_size - byte_count" arbitrary: byte_count cur_start regions)
  case (Suc d)
  have small: "buf_size \<le> 33554432" by (rule small_bufD [OF assms(2)])
  note start = dtls_record_start_at [OF Suc.prems(1) assms(1)]
  note unf = dtls_req_loop.simps [of buf buf_size byte_count cur_start regions]
  have upt: "[byte_count..<buf_size] = byte_count # [Suc byte_count..<buf_size]"
    using Suc.prems(1) by (rule upt_conv_Cons)
  show ?case
  proof (cases "record_at buf buf_size byte_count")
    case True
    then have b: "Suc byte_count < buf_size" "3 < byte_count" by (simp_all add: record_at_def)
    let ?r = "mk_region (int cur_start) (int (byte_count - 1))"
    have d: "d = buf_size - Suc byte_count" using Suc.hyps(2) by simp
    have more: "length (regions @ [?r]) \<le> byte_count" using Suc.prems(2,3) b(2) by auto
    have add: "add_region regions cur_start (byte_count - 1) = Some (regions @ [?r])"
      using Suc.prems small by (intro add_region_ok) auto
    have "\<exists>rs. dtls_req_loop buf buf_size (Suc byte_count) byte_count (regions @ [?r]) = Some ((regions @ [?r]) @ rs)
      \<and> tiles byte_count rs buf_size
      \<and> map start_byte rs = int byte_count # map int (filter (record_at buf buf_size) [Suc byte_count..<buf_size])"
      by (rule Suc.hyps(1) [OF d b(1) more]) simp
    then obtain rs where rs: "dtls_req_loop buf buf_size (Suc byte_count) byte_count (regions @ [?r]) = Some ((regions @ [?r]) @ rs)"
        "tiles byte_count rs buf_size"
        "map start_byte rs = int byte_count # map int (filter (record_at buf buf_size) [Suc byte_count..<buf_size])"
      by (elim exE conjE) (rule that; assumption)
    have pred: "Suc (nat (int byte_count - 1)) = byte_count" using b(2) by simp
    have "tiles cur_start (?r # rs) buf_size" using rs(2) Suc.prems b pred by (simp add: mk_region_def)
    moreover have "dtls_req_loop buf buf_size byte_count cur_start regions = Some (regions @ ?r # rs)"
      unfolding unf using rs(1) add start True Suc.prems(1) by simp
    moreover have "map start_byte (?r # rs)
        = int cur_start # map int (filter (record_at buf buf_size) [byte_count..<buf_size])"
      unfolding upt using rs(3) True by (simp add: mk_region_def)
    ultimately show ?thesis by (intro exI conjI)
  next
    case False
    show ?thesis
    proof (cases "byte_count = buf_size - 1")
      case True
      have add: "add_region regions cur_start byte_count = Some (regions @ [mk_region (int cur_start) (int byte_count)])"
        using Suc.prems small by (intro add_region_ok) auto
      have "Suc byte_count = buf_size" using True Suc.prems(1) by simp
      moreover have "dtls_req_loop buf buf_size byte_count cur_start regions = add_region regions cur_start byte_count"
        unfolding unf using False start True Suc.prems(1) by simp
      ultimately show ?thesis using False add Suc.prems
        by (intro exI [of _ "[mk_region (int cur_start) (int byte_count)]"]) (auto simp: mk_region_def upt)
    next
      case more: False
      have "\<exists>rs. dtls_req_loop buf buf_size (Suc byte_count) cur_start regions = Some (regions @ rs)
        \<and> tiles cur_start rs buf_size
        \<and> map start_byte rs = int cur_start # map int (filter (record_at buf buf_size) [Suc byte_count..<buf_size])"
        using Suc.hyps(2) Suc.prems more by (intro Suc.hyps(1)) auto
      moreover have "dtls_req_loop buf buf_size byte_count cur_start regions
          = dtls_req_loop buf buf_size (Suc byte_count) cur_start regions"
        unfolding unf using False more start Suc.prems(1) by simp
      ultimately show ?thesis using False by (simp add: upt)
    qed
  qed
qed simp

section \<open>DNS regions\<close>

lemma dns_fill:
  assumes "xs = take (buf_size - a) (drop a buf)" and "buf_size \<le> length buf" and "small_buf buf_size"
    and "j + 2 \<le> length xs" and "\<forall>i < j. \<not> (12 \<le> i \<and> xs ! i = NUL)"
    and "0 < length mem" and "length mem \<le> 67108864"
  shows "\<exists>mem'. dns_req_loop buf buf_size a mem 0 a a regions
      = dns_req_loop buf buf_size (a + j) mem' j a (a + j) regions
    \<and> j < length mem' \<and> length mem' \<le> 67108864"
  using assms(4,5)
proof (induction j)
  case 0
  then show ?case using assms(6,7) by auto
next
  case (Suc j)
  then obtain mem' where m: "dns_req_loop buf buf_size a mem 0 a a regions
      = dns_req_loop buf buf_size (a + j) mem' j a (a + j) regions" "j < length mem'" "length mem' \<le> 67108864"
    by auto
  have len: "length xs = buf_size - a" using assms(1,2) by simp
  have b: "a + j < buf_size" "Suc (a + j) \<noteq> buf_size - 1" using Suc.prems(1) len by auto
  have rd: "rd buf (a + j) = Some (xs ! j)" using Suc.prems(1) len assms(1,2) by simp
  have "0 < length (mem'[j := xs ! j])" using m(2) by auto
  moreover have "2 * Suc j \<le> 67108864" using Suc.prems(1) len small_bufD [OF assms(3)] by simp
  ultimately obtain mem2 where m2: "enlarge (mem'[j := xs ! j]) (Suc j) = Some mem2" "Suc j < length mem2"
      "length mem2 \<le> 67108864"
    using enlarge_ok [of "Suc j" "mem'[j := xs ! j]"] m(2,3) by auto
  have "dns_req_loop buf buf_size (a + j) mem' j a (a + j) regions
    = dns_req_loop buf buf_size (a + Suc j) mem2 (Suc j) a (a + Suc j) regions"
    using b rd m(2) m2(1) Suc.prems(2) by (subst dns_req_loop.simps) auto
  with m m2 show ?case by auto
qed

text \<open>A query: the header, a name without zero bytes and its end, type and class.\<close>

definition dns_query :: "byte list \<Rightarrow> bool" where
  "dns_query q \<longleftrightarrow> (\<exists>h nm t. q = h @ nm @ NUL # t \<and> length h = 12 \<and> NUL \<notin> set nm \<and> length t = 4)"

text \<open>The first query of the bytes \<open>h @ nm @ NUL # t\<close> from \<open>a\<close> on, whether its tail is complete or not.\<close>

lemma dns_req_query:
  assumes "xs = take (buf_size - a) (drop a buf)" and "buf_size \<le> length buf" and "small_buf buf_size"
    and "xs = h @ nm @ NUL # t" and "length h = 12" and "NUL \<notin> set nm" and "t \<noteq> []"
    and "0 < length mem" and "length mem \<le> 67108864" and "length regions \<le> a"
  defines "e \<equiv> a + 16 + length nm"
  shows "\<exists>mem'. dns_req_loop buf buf_size a mem 0 a a regions =
      (if e = buf_size - 1 then Some (regions @ [mk_region (int a) (int e)])
       else dns_req_loop buf buf_size (e + 1) mem' 0 (e + 1) (e + 1) (regions @ [mk_region (int a) (int e)]))
    \<and> 0 < length mem' \<and> length mem' \<le> 67108864"
proof -
  let ?k = "12 + length nm"
  have len: "length xs = buf_size - a" using assms(1,2) by simp
  have k: "?k + 2 \<le> length xs" using assms(4,5,7) by (cases t) auto
  have nz: "\<forall>i < ?k. \<not> (12 \<le> i \<and> xs ! i = NUL)"
    using assms(4-6) by (auto simp: nth_append in_set_conv_nth)
  have nul: "xs ! ?k = NUL" using assms(4,5) by (simp add: nth_append)
  from dns_fill [OF assms(1-3) k nz assms(8,9), of regions] obtain mem' where
    m: "dns_req_loop buf buf_size a mem 0 a a regions = dns_req_loop buf buf_size (a + ?k) mem' ?k a (a + ?k) regions"
      "?k < length mem'" "length mem' \<le> 67108864" by blast
  have rd: "rd buf (a + ?k) = Some NUL" and lt: "a + ?k < buf_size"
    using k len nul assms(1,2) by auto
  have add: "add_region regions a (a + ?k + 4) = Some (regions @ [mk_region (int a) (int e)])"
    using add_region_ok [of regions "a + ?k + 4" a] assms(10) lt small_bufD [OF assms(3)]
    by (simp add: e_def add.commute add.left_commute)
  have e: "a + ?k + 4 = e" by (simp add: e_def)
  have "dns_req_loop buf buf_size (a + ?k) mem' ?k a (a + ?k) regions =
      (if e = buf_size - 1 then Some (regions @ [mk_region (int a) (int e)])
       else dns_req_loop buf buf_size (e + 1) (mem'[?k := NUL]) 0 (e + 1) (e + 1) (regions @ [mk_region (int a) (int e)]))"
    using lt rd m(2) add by (subst dns_req_loop.simps) (simp add: e)
  with m show ?thesis by (intro exI [of _ "mem'[?k := NUL]"]) auto
qed

lemma dns_req_queries:
  assumes "buf_size = length buf" and "small_buf buf_size"
    and "drop a buf = concat qs" and "list_all dns_query qs" and "a \<le> buf_size"
    and "0 < length mem" and "length mem \<le> 67108864" and "length regions \<le> a"
  shows "dns_req_loop buf buf_size a mem 0 a a regions = Some (regions @ regions_of a qs)"
  using assms(3-)
proof (induction qs arbitrary: a mem regions)
  case Nil
  then have "\<not> a < buf_size" using assms(1) by simp
  then show ?case by (subst dns_req_loop.simps) simp
next
  case (Cons q qs)
  from Cons.prems(2) obtain h nm t where q: "q = h @ nm @ NUL # t" "length h = 12" "NUL \<notin> set nm" "length t = 4"
    by (auto simp: dns_query_def)
  have lq: "length q = 17 + length nm" using q by simp
  have ld: "length (drop a buf) = length q + length (concat qs)" using Cons.prems(1) by simp
  have all: "take (buf_size - a) (drop a buf) = drop a buf" using assms(1) by simp
  have xs: "take (buf_size - a) (drop a buf) = h @ nm @ NUL # (t @ concat qs)"
    unfolding all using Cons.prems(1) q by simp
  have le: "buf_size \<le> length buf" and ne: "t @ concat qs \<noteq> []" using assms(1) q(4) by auto
  from dns_req_query [OF refl le assms(2) xs q(2,3) ne Cons.prems(4-6)] obtain mem' where
    s: "dns_req_loop buf buf_size a mem 0 a a regions =
      (if a + 16 + length nm = buf_size - 1 then Some (regions @ [mk_region (int a) (int (a + 16 + length nm))])
       else dns_req_loop buf buf_size (a + 16 + length nm + 1) mem' 0 (a + 16 + length nm + 1) (a + 16 + length nm + 1)
         (regions @ [mk_region (int a) (int (a + 16 + length nm))]))"
      "0 < length mem'" "length mem' \<le> 67108864" by blast
  have "drop (a + length q) buf = drop (length q) (drop a buf)" by (simp add: add.commute)
  then have rest: "drop (a + length q) buf = concat qs"
    using Cons.prems(1) by simp
  have le2: "a + length q \<le> buf_size" using ld lq assms(1) by (simp only: length_drop)
  have fin: "a + 16 + length nm = a + length q - 1" "a + 16 + length nm + 1 = a + length q" using lq by simp_all
  have "dns_req_loop buf buf_size (a + length q) mem' 0 (a + length q) (a + length q)
        (regions @ [mk_region (int a) (int (a + length q - 1))])
      = Some ((regions @ [mk_region (int a) (int (a + length q - 1))]) @ regions_of (a + length q) qs)"
    using Cons.prems(2,6) s(2,3) lq rest le2 by (intro Cons.IH) auto
  moreover have "qs = []" if "a + length q - 1 = buf_size - 1"
  proof -
    have "length (concat qs) = 0" using that ld le2 lq assms(1) unfolding length_drop by linarith
    then have "concat qs = []" by (simp only: length_0_conv)
    then show ?thesis using Cons.prems(2) by (cases qs) (auto simp: dns_query_def)
  qed
  ultimately show ?case using s(1) unfolding fin(2) unfolding fin(1) by (auto split: if_splits)
qed

section \<open>Properties\<close>

lemma dicom_regions:
  assumes "buf_size \<le> length buf" and "small_buf buf_size"
  shows "extract_requests_dicom buf buf_size = Some (regions_of 0 (cut_by dicom_len (take buf_size buf)))"
proof -
  let ?xs = "take buf_size buf"
  from dicom_loop_cut [of ?xs buf_size 0 buf "[]"] assms obtain b ps where
    b: "dicom_loop buf buf_size 0 [] = Some (b, regions_of 0 ps)" "unat b \<le> buf_size"
      "unat b = length (concat ps)"
      "cut_by dicom_len ?xs = ps @ (if unat b < buf_size then [drop (length (concat ps)) ?xs] else [])"
    by auto
  have "[] \<notin> set ps" using cut_by_nonempty [of dicom_len ?xs] b(4) by auto
  from tiles_length [OF tiles_regions_of [OF this, of 0]] have n: "length ps \<le> unat b" using b(3) by simp
  show ?thesis
  proof (cases "unat b < buf_size")
    case True
    have add: "add_region (regions_of 0 ps) (unat b) (buf_size - 1)
        = Some (regions_of 0 ps @ [mk_region (int (unat b)) (int (buf_size - 1))])"
      using n True small_bufD [OF assms(2)] by (intro add_region_ok) auto
    have "unat b + length (drop (length (concat ps)) ?xs) - 1 = buf_size - 1"
      using True b(3) assms(1) by simp
    with b True add assms(1) show ?thesis by (simp add: extract_requests_dicom_def regions_of_append min_absorb2)
  next
    case False
    with b show ?thesis by (simp add: extract_requests_dicom_def)
  qed
qed

text \<open>
  The DICOM splitter returns on every buffer although its 32-bit sums can wrap
  around, its regions are the complete PDUs followed by what is left, and they cover every byte
  exactly once.
\<close>

lemma extract_requests_dicom_pdus:
  assumes "buf_size \<le> length buf" and "small_buf buf_size"
  shows "extract_requests_dicom buf buf_size = Some (regions_of 0 (cut_by dicom_len (take buf_size buf)))
    \<and> tiles 0 (regions_of 0 (cut_by dicom_len (take buf_size buf))) buf_size"
  using dicom_regions [OF assms] tiles_regions_of [OF cut_by_nonempty, of 0 dicom_len "take buf_size buf"] assms(1)
  by simp

lemma extract_requests_dicom_pdus_sample:
  "extract_requests_dicom (map char_of [1, 0, 0, 0, 0, 2, 7, 7, 5, 0, 255, 255, 255, 255 :: nat]) 14
     = Some [mk_region 0 7, mk_region 8 12, mk_region 13 13]"
proof -
  let ?b = "map char_of [1, 0, 0, 0, 0, 2, 7, 7, 5, 0, 255, 255, 255, 255 :: nat]"
  have "regions_of 0 (cut_by dicom_len (take 14 ?b)) = [mk_region 0 7, mk_region 8 12, mk_region 13 13]"
    by (simp add: cut_by.simps dicom_len_def dicom_packet_def dicom_packet_length_def be32_eq)
  with extract_requests_dicom_pdus [of 14 ?b] show ?thesis by (simp add: small_buf_def)
qed

text \<open>
  With at least one readable byte behind it a DTLS buffer is cut exactly where a
  record starts, that is at a content type followed by the version of DTLS 1.2, not before the
  fifth byte; the regions cover every byte exactly once.
\<close>

lemma extract_requests_dtls12_records:
  assumes "buf_size < length buf" and "small_buf buf_size" and "0 < buf_size"
  shows "\<exists>rs. extract_requests_dtls12 buf buf_size = Some rs \<and> tiles 0 rs buf_size
    \<and> map start_byte rs = 0 # map int (filter (record_at buf buf_size) [0..<buf_size])"
  using dtls_req_loop_starts [OF assms(1,2,3), of "[]" 0] assms(3)
  by (auto simp: extract_requests_dtls12_def whole_buffer_def)

lemma extract_requests_dtls12_records_sample:
  "\<exists>rs. extract_requests_dtls12 (map char_of [22, 254, 253, 0, 1, 20, 254, 253, 1, 240 :: nat]) 9 = Some rs
     \<and> tiles 0 rs 9 \<and> map start_byte rs = [0, 5]"
proof -
  let ?b = "map char_of [22, 254, 253, 0, 1, 20, 254, 253, 1, 240 :: nat]"
  have "filter (record_at ?b 9) [0..<9] = [5]" by code_simp
  with extract_requests_dtls12_records [of 9 ?b] show ?thesis by (simp add: small_buf_def)
qed

text \<open>
  A sequence of complete DNS queries is cut into exactly these queries, but when a
  single query lacks one to three of its last four bytes the region that is returned ends behind
  the buffer.
\<close>

lemma extract_requests_dns_queries:
  assumes "list_all dns_query qs" and "small_buf (length (concat qs))"
    and "length h = 12" and "NUL \<notin> set nm" and "t \<noteq> []" and "length t \<le> 3" and "length nm < 1000000"
  shows "extract_requests_dns (concat qs) (length (concat qs)) = Some (regions_of 0 qs)
    \<and> (let q = h @ nm @ NUL # t in
        extract_requests_dns q (length q) = Some [mk_region 0 (int (length q + 3 - length t))]
        \<and> length q + 3 - length t \<ge> length q)"
proof -
  let ?b = "concat qs" and ?q = "h @ nm @ NUL # t"
  have "dns_req_loop ?b (length ?b) 0 (replicate 1024 NUL) 0 0 0 [] = Some ([] @ regions_of 0 qs)"
    using assms(1,2) by (intro dns_req_queries) auto
  moreover have "?b = []" if "regions_of 0 qs = []" using that by (cases qs) auto
  ultimately have a: "extract_requests_dns ?b (length ?b) = Some (regions_of 0 qs)"
    by (auto simp: extract_requests_dns_def whole_buffer_def)
  have lq: "length ?q = 13 + length nm + length t" using assms(3) by simp
  have t: "0 < length t" using assms(5) by simp
  have "small_buf (length ?q)" using assms(3,6,7) by (simp add: small_buf_def)
  moreover have "?q = take (length ?q - 0) (drop 0 ?q)" by simp
  ultimately obtain mem' where "dns_req_loop ?q (length ?q) 0 (replicate 1024 NUL) 0 0 0 [] =
      (if 0 + 16 + length nm = length ?q - 1 then Some ([] @ [mk_region (int 0) (int (0 + 16 + length nm))])
       else dns_req_loop ?q (length ?q) (0 + 16 + length nm + 1) mem' 0 (0 + 16 + length nm + 1) (0 + 16 + length nm + 1)
         ([] @ [mk_region (int 0) (int (0 + 16 + length nm))]))"
    using dns_req_query [OF _ le_refl _ refl assms(3,4,5), where a = 0 and mem = "replicate 1024 NUL" and regions = "[]"]
    by (simp only: length_replicate list.size) auto
  then have "dns_req_loop ?q (length ?q) 0 (replicate 1024 NUL) 0 0 0 [] =
      (if 16 + length nm = length ?q - 1 then Some [mk_region (int 0) (int (16 + length nm))]
       else dns_req_loop ?q (length ?q) (16 + length nm + 1) mem' 0 (16 + length nm + 1) (16 + length nm + 1)
         [mk_region (int 0) (int (16 + length nm))])" by (simp only: add_0 append_Nil)
  moreover have "\<not> 16 + length nm + 1 < length ?q" "16 + length nm \<noteq> length ?q - 1" using lq assms(6) by arith+
  moreover from this(1) have "dns_req_loop ?q (length ?q) (16 + length nm + 1) mem' 0 (16 + length nm + 1) (16 + length nm + 1)
         [mk_region (int 0) (int (16 + length nm))] = Some [mk_region (int 0) (int (16 + length nm))]"
    by (subst dns_req_loop.simps) simp
  ultimately have "extract_requests_dns ?q (length ?q) = Some [mk_region 0 (int (16 + length nm))]"
    by (simp add: extract_requests_dns_def whole_buffer_def)
  moreover have "length ?q + 3 - length t = 16 + length nm" using lq assms(6) t by simp
  ultimately show ?thesis using a lq assms(6) by (simp add: Let_def)
qed

lemma extract_requests_dns_queries_sample:
  "extract_requests_dns (replicate 12 (CHR 0x01) @ ''a'' @ NUL # [NUL, CHR 0x01]) 16
     = Some [mk_region 0 17]"
  using extract_requests_dns_queries [of "[]" "replicate 12 (CHR 0x01)" "''a''" "[NUL, CHR 0x01]"]
  by (simp add: small_buf_def Let_def)

end
