(* ===== verification/Aflnet_Responses.thy ===== *)
theory Aflnet_Responses
  imports Aflnet_Packets
begin

text \<open>
  \<open>extract_response_codes_*\<close> of \<open>aflnet.c\<close> for the text protocols: SMTP, FTP, RTSP, SIP, HTTP
  and IPP. The bytes of a response are copied into \<open>mem\<close>; at a line end (for IPP at the end of
  the header block) the status code is read from the start of \<open>mem\<close> and becomes the next state.
  The loop is the same text in all six functions. Its parameters are the test for the line end
  (\<open>term\<close>), the place of the code, if the line is a status line at all (\<open>sel\<close>), and what IPP adds
  to the code (\<open>adj\<close>).
\<close>

section \<open>The loop\<close>

text \<open>
  \<open>memcpy(temp, &mem[off], 4); temp[3] = 0x0; (unsigned int) atoi(temp)\<close>
\<close>

definition code_at :: "byte list \<Rightarrow> nat \<Rightarrow> (32 word) option" where
  "code_at mem off =
     (if off + 4 \<le> length mem then Some (word_of_int (atoi_str (cstr_of (take 3 (drop off mem))))) else None)"

function codes_loop ::
  "(byte list \<Rightarrow> nat \<Rightarrow> bool option) \<Rightarrow> (byte list \<Rightarrow> nat \<Rightarrow> (nat option) option) \<Rightarrow>
   (cptr \<Rightarrow> nat \<Rightarrow> 32 word \<Rightarrow> (32 word) option) \<Rightarrow>
   cptr \<Rightarrow> nat \<Rightarrow> nat \<Rightarrow> byte list \<Rightarrow> nat \<Rightarrow> 32 word list \<Rightarrow> (32 word list) option" where
  "codes_loop trm sel adj buf buf_size byte_count mem mem_count states =
     (if byte_count < buf_size then do {
        c \<leftarrow> rd buf byte_count;
        mem1 \<leftarrow> wr mem mem_count c;
        e \<leftarrow> trm mem1 mem_count;
        if e then do {
          place \<leftarrow> sel mem1 mem_count;
          (case place of
             None \<Rightarrow> codes_loop trm sel adj buf buf_size (byte_count + 1) mem1 0 states
           | Some off \<Rightarrow> do {
               message_code \<leftarrow> code_at mem1 off;
               if message_code = 0 then Some states
               else do {
                 code \<leftarrow> adj buf (byte_count + 1) message_code;
                 states1 \<leftarrow> add_state states code;
                 codes_loop trm sel adj buf buf_size (byte_count + 1) mem1 0 states1
               }
             })
        }
        else do {
          mem2 \<leftarrow> enlarge mem1 (mem_count + 1);
          codes_loop trm sel adj buf buf_size (byte_count + 1) mem2 (mem_count + 1) states
        }
      } else Some states)"
  by pat_completeness auto

termination
  by (relation "measure (\<lambda>(trm, sel, adj, buf, n, bc, rest). n - bc)") auto

declare codes_loop.simps [simp del]

definition line_codes ::
  "(byte list \<Rightarrow> nat \<Rightarrow> bool option) \<Rightarrow> (byte list \<Rightarrow> nat \<Rightarrow> (nat option) option) \<Rightarrow>
   (cptr \<Rightarrow> nat \<Rightarrow> 32 word \<Rightarrow> (32 word) option) \<Rightarrow> cptr \<Rightarrow> nat \<Rightarrow> (32 word list) option" where
  "line_codes trm sel adj buf buf_size = do {
     mem \<leftarrow> ck_alloc 1024;
     states \<leftarrow> add_state [] 0;
     codes_loop trm sel adj buf buf_size 0 mem 0 states
   }"

section \<open>Its parameters\<close>

text \<open>\<open>(mem_count > 0) && (memcmp(&mem[mem_count - 1], terminator, 2) == 0)\<close>\<close>

definition line_done :: "byte list \<Rightarrow> nat \<Rightarrow> bool option" where
  "line_done mem mem_count =
     (if mem_count > 0 then memcmp_eq (drop (mem_count - 1) mem) [CR, LF] else Some False)"

definition block_done :: "byte list \<Rightarrow> nat \<Rightarrow> bool option" where
  "block_done mem mem_count =
     (if mem_count > 3 then memcmp_eq (drop (mem_count - 3) mem) [CR, LF, CR, LF] else Some False)"

definition code_first :: "byte list \<Rightarrow> nat \<Rightarrow> (nat option) option" where
  "code_first mem mem_count = Some (Some 0)"

text \<open>\<open>(mem_count >= strlen(tag)) && (memcmp(mem, tag, strlen(tag)) == 0)\<close>, the code at \<open>off\<close>.\<close>

definition code_after :: "string \<Rightarrow> nat \<Rightarrow> byte list \<Rightarrow> nat \<Rightarrow> (nat option) option" where
  "code_after tag off mem mem_count =
     (if mem_count \<ge> length tag then do {
        p \<leftarrow> memcmp_eq mem tag;
        Some (if p then Some off else None)
      } else Some None)"

definition plain_code :: "cptr \<Rightarrow> nat \<Rightarrow> 32 word \<Rightarrow> (32 word) option" where
  "plain_code buf byte_count message_code = Some message_code"

definition ipp_code :: "cptr \<Rightarrow> nat \<Rightarrow> 32 word \<Rightarrow> (32 word) option" where
  "ipp_code buf byte_count message_code =
     (if message_code = 200 then do {
        third \<leftarrow> rd buf (byte_count + 2);
        fourth \<leftarrow> rd buf (byte_count + 3);
        Some (message_code + word_of_nat (10 * bval third + bval fourth))
      } else Some message_code)"

section \<open>The functions\<close>

definition extract_response_codes_smtp :: "cptr \<Rightarrow> nat \<Rightarrow> (32 word list) option" where
  "extract_response_codes_smtp buf buf_size = line_codes line_done code_first plain_code buf buf_size"

definition extract_response_codes_ftp :: "cptr \<Rightarrow> nat \<Rightarrow> (32 word list) option" where
  "extract_response_codes_ftp buf buf_size = line_codes line_done code_first plain_code buf buf_size"

definition extract_response_codes_rtsp :: "cptr \<Rightarrow> nat \<Rightarrow> (32 word list) option" where
  "extract_response_codes_rtsp buf buf_size = line_codes line_done (code_after ''RTSP/'' 9) plain_code buf buf_size"

definition extract_response_codes_sip :: "cptr \<Rightarrow> nat \<Rightarrow> (32 word list) option" where
  "extract_response_codes_sip buf buf_size = line_codes line_done (code_after ''SIP/'' 8) plain_code buf buf_size"

definition extract_response_codes_http :: "cptr \<Rightarrow> nat \<Rightarrow> (32 word list) option" where
  "extract_response_codes_http buf buf_size = line_codes line_done (code_after ''HTTP/'' 9) plain_code buf buf_size"

definition extract_response_codes_ipp :: "cptr \<Rightarrow> nat \<Rightarrow> (32 word list) option" where
  "extract_response_codes_ipp buf buf_size = line_codes block_done (code_after ''HTTP/'' 9) ipp_code buf buf_size"

section \<open>Status lines\<close>

text \<open>
  \<open>place l\<close> is where the code of the line \<open>l\<close> stands. On a line that is not \<open>long\<close> enough the
  code would read bytes that an earlier line left in \<open>mem\<close>.
\<close>

definition crlf_at :: "byte list \<Rightarrow> nat \<Rightarrow> bool" where
  "crlf_at xs i \<longleftrightarrow> 0 < i \<and> xs ! (i - 1) = CR \<and> xs ! i = LF"

lemma line_done_at:
  assumes "take (Suc i) mem = take (Suc i) xs" and "i < length xs" and "i < length mem"
  shows "line_done mem i = Some (crlf_at xs i)"
proof (cases "0 < i")
  case True
  with line_end_memcmp [OF assms(1)] assms(2,3) show ?thesis
    by (simp add: line_done_def crlf_at_def line_end_def numeral_2_eq_2)
qed (simp add: line_done_def crlf_at_def)

lemma crlf_at_LF: "i < j \<Longrightarrow> j \<le> length xs \<Longrightarrow> LF \<notin> set (take j xs) \<Longrightarrow> \<not> crlf_at xs i"
  by (auto simp: crlf_at_def in_set_conv_nth)

lemma codes_fill:
  assumes "xs = take (buf_size - a) (drop a buf)" and "buf_size \<le> length buf" and "small_buf buf_size"
    and "j \<le> length xs" and "LF \<notin> set (take j xs)" and "1024 \<le> length mem" and "length mem \<le> 67108864"
  shows "\<exists>mem'. codes_loop line_done sel adj buf buf_size a mem 0 states
      = codes_loop line_done sel adj buf buf_size (a + j) mem' j states
    \<and> j < length mem' \<and> 1024 \<le> length mem' \<and> length mem' \<le> 67108864 \<and> take j mem' = take j xs"
  using assms(4,5)
proof (induction j)
  case 0
  have "0 < length mem" using assms(6) by linarith
  with assms(6,7) show ?case by auto
next
  case (Suc j)
  have nl: "LF \<notin> set (take j xs)" using Suc.prems(2) by (meson in_mono set_take_subset_set_take le_SucI le_refl)
  with Suc obtain mem' where m: "codes_loop line_done sel adj buf buf_size a mem 0 states
      = codes_loop line_done sel adj buf buf_size (a + j) mem' j states"
      "j < length mem'" "1024 \<le> length mem'" "length mem' \<le> 67108864" "take j mem' = take j xs" by auto
  have len: "length xs = buf_size - a" using assms(1,2) by simp
  have b: "a + j < buf_size" using Suc.prems(1) len by simp
  have rd: "rd buf (a + j) = Some (xs ! j)" using Suc.prems(1) len assms(1,2) by simp
  let ?mem = "mem'[j := xs ! j]"
  have tk: "take (Suc j) ?mem = take (Suc j) xs"
    using take_wr [OF m(2), of "xs ! j"] m(5) Suc.prems(1) by (simp add: take_Suc_conv_app_nth)
  have nd: "line_done ?mem j = Some False"
    using line_done_at [OF tk] crlf_at_LF [of j "Suc j" xs] Suc.prems m(2) by simp
  have "0 < length ?mem" using m(2) by auto
  moreover have "2 * Suc j \<le> 67108864" using Suc.prems(1) len small_bufD [OF assms(3)] by simp
  ultimately obtain mem2 where m2: "enlarge ?mem (Suc j) = Some mem2" "Suc j < length mem2"
      "length ?mem \<le> length mem2" "length mem2 \<le> 67108864" "take (Suc j) mem2 = take (Suc j) ?mem"
    using enlarge_ok [of "Suc j" ?mem] m(2,4) by auto
  have "codes_loop line_done sel adj buf buf_size (a + j) mem' j states
    = codes_loop line_done sel adj buf buf_size (a + Suc j) mem2 (Suc j) states"
    using b rd m(2) m2(1) nd by (subst codes_loop.simps) auto
  with m m2 tk show ?case by (intro exI [of _ mem2]) auto
qed

text \<open>\<open>Aflnet\<close> reads a line as its bytes up to and with the first line feed behind a carriage return.\<close>

definition reply_line :: "byte list \<Rightarrow> bool" where
  "reply_line l \<longleftrightarrow> (\<exists>m. l = m @ [CR, LF] \<and> LF \<notin> set m)"

locale status_lines =
  fixes sel :: "byte list \<Rightarrow> nat \<Rightarrow> (nat option) option"
    and place :: "byte list \<Rightarrow> nat option"
  assumes sel: "0 < length l \<Longrightarrow> take (length l) mem = l \<Longrightarrow> sel mem (length l - 1) = Some (place l)"
    and place_low: "place l = Some off \<Longrightarrow> off \<le> 1000"
begin

definition long :: "byte list \<Rightarrow> bool" where
  "long l \<longleftrightarrow> (\<forall>off. place l = Some off \<longrightarrow> off + 3 \<le> length l)"

definition codes_of :: "byte list list \<Rightarrow> 32 word list" where
  "codes_of ls = map (\<lambda>l. word_of_int (atoi_str (cstr_of (take 3 (drop (the (place l)) l)))))
     (filter (\<lambda>l. place l \<noteq> None) ls)"

lemma codes_of_Cons: "codes_of (l # ls) = (case place l of None \<Rightarrow> codes_of ls
    | Some off \<Rightarrow> word_of_int (atoi_str (cstr_of (take 3 (drop off l)))) # codes_of ls)"
  by (simp add: codes_of_def split: option.splits)

lemma codes_loop_lines:
  assumes "take (buf_size - a) (drop a buf) = concat ls @ tail" and "buf_size \<le> length buf" and "small_buf buf_size"
    and "list_all reply_line ls" and "list_all long ls" and "LF \<notin> set tail"
    and "1024 \<le> length mem" and "length mem \<le> 67108864" and "length states \<le> Suc a" and "a \<le> buf_size"
  shows "codes_loop line_done sel plain_code buf buf_size a mem 0 states
    = Some (states @ takeWhile (\<lambda>c. c \<noteq> 0) (codes_of ls))"
  using assms(1,4,5,7-)
proof (induction ls arbitrary: a mem states)
  case Nil
  let ?xs = "take (buf_size - a) (drop a buf)"
  have len: "length ?xs = buf_size - a" using assms(2) by simp
  have "LF \<notin> set (take (length ?xs) ?xs)" using Nil.prems(1) assms(6) by simp
  from codes_fill [OF refl assms(2,3) le_refl this Nil.prems(4,5), of sel plain_code states]
  obtain mem' where "codes_loop line_done sel plain_code buf buf_size a mem 0 states
      = codes_loop line_done sel plain_code buf buf_size (a + length ?xs) mem' (length ?xs) states" by blast
  moreover have "\<not> a + length ?xs < buf_size" using len by simp
  ultimately show ?case by (simp add: codes_loop.simps [of _ _ _ _ _ "a + length ?xs"] codes_of_def del: length_take)
next
  case (Cons l ls)
  let ?xs = "take (buf_size - a) (drop a buf)"
  have xs: "?xs = l @ (concat ls @ tail)" using Cons.prems(1) by simp
  have len: "length ?xs = buf_size - a" using assms(2) by simp
  obtain m where l: "l = m @ [CR, LF]" "LF \<notin> set m" using Cons.prems(2) by (auto simp: reply_line_def)
  let ?j = "Suc (length m)"
  have ll: "length l = Suc ?j" using l by simp
  have jl: "?j < length ?xs" unfolding xs using ll by simp
  have tkj: "take ?j ?xs = m @ [CR]" unfolding xs l(1) by simp
  have "LF \<notin> set (take ?j ?xs)" unfolding tkj using l(2) by simp
  from codes_fill [OF refl assms(2,3) less_imp_le [OF jl] this Cons.prems(4,5), of sel plain_code states]
  obtain mem' where f: "codes_loop line_done sel plain_code buf buf_size a mem 0 states
      = codes_loop line_done sel plain_code buf buf_size (a + ?j) mem' ?j states"
      "?j < length mem'" "1024 \<le> length mem'" "length mem' \<le> 67108864" "take ?j mem' = take ?j ?xs" by blast
  have xj: "?xs ! ?j = LF" "?xs ! (?j - 1) = CR" unfolding xs l(1) by (simp_all add: nth_append)
  have b: "a + ?j < buf_size" using jl unfolding len by linarith
  have rd: "rd buf (a + ?j) = Some LF" using xj(1) jl b assms(2) by simp
  let ?mem = "mem'[?j := LF]"
  have tk: "take (Suc ?j) ?mem = take (Suc ?j) ?xs"
    using take_wr [OF f(2), of LF] f(5) jl xj(1) by (simp add: take_Suc_conv_app_nth)
  have tl: "take (Suc ?j) ?xs = l" unfolding xs using ll by simp
  have dn: "line_done ?mem ?j = Some True"
    using line_done_at [OF tk] jl f(2) xj by (simp add: crlf_at_def)
  have se: "sel ?mem ?j = Some (place l)" using sel [of l ?mem] tk tl ll by simp
  let ?next = "\<lambda>st. codes_loop line_done sel plain_code buf buf_size (a + length l) ?mem 0 st"
  have ih: "?next st = Some (st @ takeWhile (\<lambda>c. c \<noteq> 0) (codes_of ls))" if "length st \<le> Suc (a + length l)" for st
  proof -
    have "drop (length l) ?xs = concat ls @ tail" unfolding xs by simp
    then have "take (buf_size - (a + length l)) (drop (a + length l) buf) = concat ls @ tail"
      by (simp add: drop_take add.commute)
    moreover have "a + length l \<le> buf_size" using b ll by simp
    ultimately show ?thesis using Cons.prems f(3,4) that by (intro Cons.IH) auto
  qed
  show ?case
  proof (cases "place l")
    case None
    then have "codes_loop line_done sel plain_code buf buf_size (a + ?j) mem' ?j states = ?next states"
      using b rd f(2) dn se ll by (subst codes_loop.simps) simp
    with f(1) ih [of states] Cons.prems(6) None show ?thesis by (simp add: codes_of_Cons)
  next
    case (Some off)
    let ?code = "word_of_int (atoi_str (cstr_of (take 3 (drop off l)))) :: 32 word"
    have off: "off + 3 \<le> length l" using Cons.prems(3) Some by (simp add: long_def)
    have "take 3 (drop off ?mem) = take 3 (drop off (take (Suc ?j) ?mem))"
      using off ll by (simp add: drop_take)
    then have "take 3 (drop off ?mem) = take 3 (drop off l)" unfolding tk tl .
    then have ca: "code_at ?mem off = Some ?code" using place_low [OF Some] f(3) by (simp add: code_at_def)
    show ?thesis
    proof (cases "?code = 0")
      case True
      then have "codes_loop line_done sel plain_code buf buf_size (a + ?j) mem' ?j states = Some states"
        using b rd f(2) dn se Some ca by (subst codes_loop.simps) simp
      with f(1) True Some show ?thesis by (simp add: codes_of_Cons)
    next
      case False
      have "length states < 268435456" using Cons.prems(6) b small_bufD [OF assms(3)] by simp
      from add_state_ok [OF this, of ?code] have
        "codes_loop line_done sel plain_code buf buf_size (a + ?j) mem' ?j states = ?next (states @ [?code])"
        using b rd f(2) dn se Some ca False ll by (subst codes_loop.simps) (simp add: plain_code_def)
      with f(1) ih [of "states @ [?code]"] Cons.prems(6) ll False Some show ?thesis by (simp add: codes_of_Cons)
    qed
  qed
qed

lemma line_codes_lines:
  assumes "buf_size = length (concat ls @ tail)" and "small_buf buf_size"
    and "list_all reply_line ls" and "list_all long ls" and "LF \<notin> set tail"
  shows "line_codes line_done sel plain_code (concat ls @ tail @ rest) buf_size
    = Some (0 # takeWhile (\<lambda>c. c \<noteq> 0) (codes_of ls))"
proof -
  have "codes_loop line_done sel plain_code (concat ls @ tail @ rest) buf_size 0 (replicate 1024 NUL) 0 [0]
    = Some ([0] @ takeWhile (\<lambda>c. c \<noteq> 0) (codes_of ls))"
    using assms by (intro codes_loop_lines) auto
  then show ?thesis by (simp add: line_codes_def add_state_ok)
qed

end


definition place_first :: "byte list \<Rightarrow> nat option" where
  "place_first l = Some 0"

definition place_after :: "string \<Rightarrow> nat \<Rightarrow> byte list \<Rightarrow> nat option" where
  "place_after tag off l = (if length tag < length l \<and> take (length tag) l = tag then Some off else None)"

interpretation code_lines: status_lines code_first place_first
  by unfold_locales (auto simp: code_first_def place_first_def)

lemma code_after_place:
  assumes "0 < length l" and "take (length l) mem = l"
  shows "code_after tag off mem (length l - 1) = Some (place_after tag off l)"
proof (cases "length tag < length l")
  case True
  have "length l \<le> length mem" using assms(2) by (metis length_take min.cobounded1)
  moreover have "take (length tag) mem = take (length tag) l"
    using True assms(2) by (metis less_imp_le min.absorb1 take_take)
  ultimately show ?thesis using True by (auto simp: code_after_def place_after_def memcmp_eq_def)
next
  case False
  then have "\<not> length tag \<le> length l - 1" using assms(1) by linarith
  with False show ?thesis by (auto simp: code_after_def place_after_def)
qed

interpretation rtsp_lines: status_lines "code_after ''RTSP/'' 9" "place_after ''RTSP/'' 9"
  by (unfold_locales, rule code_after_place) (auto simp: place_after_def split: if_splits)

interpretation sip_lines: status_lines "code_after ''SIP/'' 8" "place_after ''SIP/'' 8"
  by (unfold_locales, rule code_after_place) (auto simp: place_after_def split: if_splits)

interpretation http_lines: status_lines "code_after ''HTTP/'' 9" "place_after ''HTTP/'' 9"
  by (unfold_locales, rule code_after_place) (auto simp: place_after_def split: if_splits)

section \<open>Properties\<close>

text \<open>The codes of the lines that carry the tag, and the lines that are long enough for it.\<close>

definition status_codes :: "string \<Rightarrow> nat \<Rightarrow> byte list list \<Rightarrow> 32 word list" where
  "status_codes tag off ls = map (\<lambda>l. word_of_int (atoi_str (cstr_of (take 3 (drop off l)))))
     (filter (\<lambda>l. length tag < length l \<and> take (length tag) l = tag) ls)"

definition status_long :: "string \<Rightarrow> nat \<Rightarrow> byte list \<Rightarrow> bool" where
  "status_long tag off l \<longleftrightarrow> (length tag < length l \<and> take (length tag) l = tag \<longrightarrow> off + 3 \<le> length l)"

lemma status_codes_Cons: "status_codes tag off (l # ls) =
    (if length tag < length l \<and> take (length tag) l = tag
     then word_of_int (atoi_str (cstr_of (take 3 (drop off l)))) # status_codes tag off ls
     else status_codes tag off ls)"
  by (simp add: status_codes_def)

lemma codes_of_status:
  "rtsp_lines.codes_of ls = status_codes ''RTSP/'' 9 ls"
  "sip_lines.codes_of ls = status_codes ''SIP/'' 8 ls"
  "http_lines.codes_of ls = status_codes ''HTTP/'' 9 ls"
  by (induction ls)
    (simp_all add: rtsp_lines.codes_of_Cons sip_lines.codes_of_Cons http_lines.codes_of_Cons
      rtsp_lines.codes_of_def sip_lines.codes_of_def http_lines.codes_of_def
      status_codes_Cons place_after_def status_codes_def)

lemma codes_of_first:
  "list_all (\<lambda>l. 0 < length l) ls \<Longrightarrow> code_lines.codes_of ls = status_codes [] 0 ls"
  by (induction ls) (simp_all add: code_lines.codes_of_Cons code_lines.codes_of_def place_first_def
      status_codes_Cons status_codes_def)

lemma long_status:
  "rtsp_lines.long l = status_long ''RTSP/'' 9 l" "sip_lines.long l = status_long ''SIP/'' 8 l"
  "http_lines.long l = status_long ''HTTP/'' 9 l" "0 < length l \<Longrightarrow> code_lines.long l = status_long [] 0 l"
  by (auto simp: rtsp_lines.long_def sip_lines.long_def http_lines.long_def code_lines.long_def
      status_long_def place_after_def place_first_def)

text \<open>
  The states read from a response of CRLF lines, whatever bytes follow them, are
  the initial state 0 and the status codes of its lines up to the first code that is zero; for
  RTSP, SIP and HTTP only of the lines that start with the protocol's tag. The condition is that
  these lines reach to the end of their code.
\<close>

lemma extract_response_codes_lines:
  assumes "buf_size = length (concat ls @ tail)" and "small_buf buf_size"
    and "list_all reply_line ls" and "LF \<notin> set tail"
  shows "(list_all (status_long [] 0) ls \<longrightarrow>
      extract_response_codes_ftp (concat ls @ tail @ rest) buf_size
        = Some (0 # takeWhile (\<lambda>c. c \<noteq> 0) (status_codes [] 0 ls))
      \<and> extract_response_codes_smtp (concat ls @ tail @ rest) buf_size
        = Some (0 # takeWhile (\<lambda>c. c \<noteq> 0) (status_codes [] 0 ls)))
    \<and> (list_all (status_long ''RTSP/'' 9) ls \<longrightarrow>
      extract_response_codes_rtsp (concat ls @ tail @ rest) buf_size
        = Some (0 # takeWhile (\<lambda>c. c \<noteq> 0) (status_codes ''RTSP/'' 9 ls)))
    \<and> (list_all (status_long ''SIP/'' 8) ls \<longrightarrow>
      extract_response_codes_sip (concat ls @ tail @ rest) buf_size
        = Some (0 # takeWhile (\<lambda>c. c \<noteq> 0) (status_codes ''SIP/'' 8 ls)))
    \<and> (list_all (status_long ''HTTP/'' 9) ls \<longrightarrow>
      extract_response_codes_http (concat ls @ tail @ rest) buf_size
        = Some (0 # takeWhile (\<lambda>c. c \<noteq> 0) (status_codes ''HTTP/'' 9 ls)))"
proof -
  have ne: "list_all (\<lambda>l. 0 < length l) ls" using assms(3) by (auto simp: list_all_iff reply_line_def)
  have lg: "list_all code_lines.long ls \<longleftrightarrow> list_all (status_long [] 0) ls"
    using ne long_status(4) by (auto simp: list_all_iff)
  show ?thesis
    using code_lines.line_codes_lines [OF assms(1-3) _ assms(4), of rest]
      rtsp_lines.line_codes_lines [OF assms(1-3) _ assms(4), of rest]
      sip_lines.line_codes_lines [OF assms(1-3) _ assms(4), of rest]
      http_lines.line_codes_lines [OF assms(1-3) _ assms(4), of rest]
    unfolding extract_response_codes_ftp_def extract_response_codes_smtp_def extract_response_codes_rtsp_def
      extract_response_codes_sip_def extract_response_codes_http_def
      codes_of_status codes_of_first [OF ne] lg long_status(1-3) by blast
qed

lemma extract_response_codes_lines_sample:
  "extract_response_codes_ftp (''220 hi'' @ [CR, LF] @ ''331 pw'' @ [CR, LF] @ ''23'' @ [NUL]) 18 = Some [0, 220, 331]"
proof -
  let ?ls = "[''220 hi'' @ [CR, LF], ''331 pw'' @ [CR, LF]]"
  have "reply_line (''220 hi'' @ [CR, LF])" "reply_line (''331 pw'' @ [CR, LF])"
    unfolding reply_line_def by (rule exI, rule conjI [OF refl], simp)+
  then have ls: "list_all reply_line ?ls" by simp
  have len: "18 = length (concat ?ls @ ''23'')" by simp
  have "status_codes [] 0 ?ls = [220, 331]" by code_simp
  moreover have "list_all (status_long [] 0) ?ls" by (simp add: status_long_def)
  moreover have "small_buf 18" by (simp add: small_buf_def)
  ultimately show ?thesis
    using extract_response_codes_lines [OF len _ ls, of "[NUL]"] by simp
qed

end
