(* ===== verification/Aflnet_Codes.thy ===== *)
theory Aflnet_Codes
  imports Aflnet_Responses Aflnet_Datagrams
begin

text \<open>
  \<open>extract_response_codes_*\<close> of \<open>aflnet.c\<close> for the binary protocols: SSH, TLS, DICOM, DNS and
  DTLS. A state is made of the message type of each packet of a response.
\<close>

lemma add_state_more: "add_state s c = Some t \<Longrightarrow> 268435456 - length t < 268435456 - length s"
  by (auto simp: add_state_def MAX_ALLOC_def split: if_splits)

section \<open>SSH\<close>

text \<open>
  \<open>strstr(mem, "SSH")\<close> on an array of seven bytes of which the first six are written: without a
  NUL among them the search goes on in the byte that is never written.
\<close>

definition strstr_ssh :: "byte list \<Rightarrow> bool option" where
  "strstr_ssh six = (if contains (cstr_of six) ''SSH'' then Some True
     else if NUL \<in> set six then Some False else None)"

text \<open>\<open>while (tmp != 0x0A) { memcpy(&tmp, buf + byte_count, 1); byte_count += 1; }\<close>\<close>

fun skip_ident :: "cptr \<Rightarrow> 32 word \<Rightarrow> (32 word) option" where
  "skip_ident [] byte_count = None"
| "skip_ident (c # p) byte_count =
     (if c = LF then Some (byte_count + 1) else skip_ident p (byte_count + 1))"

text \<open>\<open>ntohl\<close> of the first four bytes.\<close>

definition ssh_size :: "byte list \<Rightarrow> 32 word" where
  "ssh_size six = word_of_nat (be32 (six ! 0) (six ! 1) (six ! 2) (six ! 3))"

function ssh_codes_loop :: "cptr \<Rightarrow> nat \<Rightarrow> 32 word \<Rightarrow> 32 word list \<Rightarrow> (32 word list) option" where
  "ssh_codes_loop buf buf_size byte_count states =
     (if unat byte_count < buf_size then do {
        six \<leftarrow> (if unat byte_count + 6 \<le> length buf then Some (take 6 (drop (unat byte_count) buf)) else None);
        ident \<leftarrow> strstr_ssh six;
        if ident then do {
          byte_count2 \<leftarrow> skip_ident (drop (unat (byte_count + 6)) buf) (byte_count + 6);
          Option.bind (add_state states 256) (\<lambda>states1. ssh_codes_loop buf buf_size byte_count2 states1)
        }
        else let message_size = ssh_size six in
          if message_size - 2 > word_of_nat buf_size - (byte_count + 6) then Some states
          else Option.bind (add_state states (word_of_nat (bval (six ! 5)))) (\<lambda>states1.
            ssh_codes_loop buf buf_size
              (byte_count + 6 + ((if ssh_kex_code (six ! 5) then message_size else message_size + 8) - 2)) states1)
      } else Some states)"
  by pat_completeness auto

termination
  by (relation "measure (\<lambda>(buf, n, bc, st). 268435456 - length st)") (auto dest: add_state_more)

declare ssh_codes_loop.simps [simp del]

definition extract_response_codes_ssh :: "cptr \<Rightarrow> nat \<Rightarrow> (32 word list) option" where
  "extract_response_codes_ssh buf buf_size = do {
     states \<leftarrow> add_state [] 0;
     ssh_codes_loop buf buf_size 0 states
   }"

section \<open>TLS\<close>

function tls_codes_loop ::
  "cptr \<Rightarrow> nat \<Rightarrow> nat \<Rightarrow> byte list \<Rightarrow> nat \<Rightarrow> 32 word list \<Rightarrow> (32 word list) option" where
  "tls_codes_loop buf buf_size byte_count mem mem_count states =
     (if byte_count < buf_size then do {
        c \<leftarrow> rd buf byte_count;
        mem1 \<leftarrow> wr mem mem_count c;
        if mem_count \<ge> 6 then do {
          content_type \<leftarrow> rd mem1 0;
          message_type \<leftarrow> (if bval content_type \<noteq> 0x17 then map_option bval (rd mem1 5) else Some 0xFF);
          hi \<leftarrow> rd mem1 3;
          lo \<leftarrow> rd mem1 4;
          let bytes_to_skip = (word_of_nat (be16 hi lo) - 1 :: 32 word);
          let byte_count2 = fst (step_back buf_size (skip_bytes buf_size (unat bytes_to_skip) (byte_count + 1) 1));
          Option.bind (add_state states (word_of_nat (push_bit 8 (bval content_type) + message_type))) (\<lambda>states1.
            tls_codes_loop buf buf_size byte_count2 mem1 0 states1)
        }
        else do {
          mem2 \<leftarrow> enlarge mem1 (mem_count + 1);
          tls_codes_loop buf buf_size (byte_count + 1) mem2 (mem_count + 1) states
        }
      } else Some states)"
  by pat_completeness auto

termination
  by (relation "measures [\<lambda>(buf, n, bc, mem, mc, st). 268435456 - length st, \<lambda>(buf, n, bc, mem, mc, st). n - bc]")
    (auto dest: add_state_more)

declare tls_codes_loop.simps [simp del]

definition extract_response_codes_tls :: "cptr \<Rightarrow> nat \<Rightarrow> (32 word list) option" where
  "extract_response_codes_tls buf buf_size = do {
     mem \<leftarrow> ck_alloc 1024;
     states \<leftarrow> add_state [] 0;
     tls_codes_loop buf buf_size 0 mem 0 states
   }"

section \<open>DICOM and DNS\<close>

definition extract_response_codes_dicom :: "cptr \<Rightarrow> nat \<Rightarrow> (32 word list) option" where
  "extract_response_codes_dicom buf buf_size =
     (if buf_size = 0 then Some []
      else do {
        states \<leftarrow> add_state [] 0;
        c \<leftarrow> rd buf 0;
        add_state states (word_of_nat (bval c))
      })"

text \<open>The value of a \<open>char\<close>, which is signed: the DNS flags are read as such.\<close>

definition schar :: "byte \<Rightarrow> int" where
  "schar c = (if bval c < 128 then int (bval c) else int (bval c) - 256)"

function dns_codes_loop ::
  "cptr \<Rightarrow> nat \<Rightarrow> nat \<Rightarrow> byte list \<Rightarrow> nat \<Rightarrow> 32 word list \<Rightarrow> (32 word list) option" where
  "dns_codes_loop buf buf_size byte_count mem mem_count states =
     (if byte_count < buf_size then do {
        c \<leftarrow> rd buf byte_count;
        mem1 \<leftarrow> wr mem mem_count c;
        l \<leftarrow> rd mem1 mem_count;
        if mem_count \<ge> 12 \<and> l = NUL then do {
          b2 \<leftarrow> rd mem1 2;
          b3 \<leftarrow> rd mem1 3;
          states1 \<leftarrow> add_state states (word_of_int (push_bit 8 (schar b2) + schar b3));
          dns_codes_loop buf buf_size (byte_count + 5 + 1) mem1 0 states1
        }
        else do {
          mem2 \<leftarrow> enlarge mem1 (mem_count + 1);
          dns_codes_loop buf buf_size (byte_count + 1) mem2 (mem_count + 1) states
        }
      } else Some states)"
  by pat_completeness auto

termination
  by (relation "measure (\<lambda>(buf, n, bc, rest). n - bc)") auto

declare dns_codes_loop.simps [simp del]

definition extract_response_codes_dns :: "cptr \<Rightarrow> nat \<Rightarrow> (32 word list) option" where
  "extract_response_codes_dns buf buf_size = do {
     mem \<leftarrow> ck_alloc 1024;
     states \<leftarrow> add_state [] 0;
     dns_codes_loop buf buf_size 0 mem 0 states
   }"

section \<open>DTLS\<close>

fun read_bytes_from :: "cptr \<Rightarrow> nat \<Rightarrow> nat \<Rightarrow> 32 word \<Rightarrow> (32 word) option" where
  "read_bytes_from buf offset 0 val = Some val"
| "read_bytes_from buf offset (Suc k) val = do {
     c \<leftarrow> rd buf offset;
     read_bytes_from buf (offset + 1) k (push_bit 8 val + word_of_nat (bval c))
   }"

definition read_bytes_to_uint32 :: "cptr \<Rightarrow> nat \<Rightarrow> nat \<Rightarrow> (32 word) option" where
  "read_bytes_to_uint32 buf offset num_bytes = read_bytes_from buf offset num_bytes 0"

definition ALERT_CONTENT_TYPE :: nat where "ALERT_CONTENT_TYPE = 0x15"
definition HS_CONTENT_TYPE :: nat where "HS_CONTENT_TYPE = 0x16"
definition APPLICATION_CONTENT_TYPE :: nat where "APPLICATION_CONTENT_TYPE = 0x17"
definition UNKNOWN_CONTENT_TYPE :: nat where "UNKNOWN_CONTENT_TYPE = 0xFF"
definition UNKNOWN_MESSAGE_TYPE :: nat where "UNKNOWN_MESSAGE_TYPE = 0xFF"
definition MALFORMED_MESSAGE_TYPE :: nat where "MALFORMED_MESSAGE_TYPE = 0xFE"

text \<open>The switch over the content type: content type and message type of the status code.\<close>

definition dtls_status :: "cptr \<Rightarrow> nat \<Rightarrow> nat \<Rightarrow> 32 word \<Rightarrow> (nat \<times> nat) option" where
  "dtls_status buf byte_count content_type record_length =
     (if content_type = HS_CONTENT_TYPE then do {
        hs_msg_type \<leftarrow> rd buf (byte_count + 13);
        if record_length \<ge> 12 then do {
          frag_length \<leftarrow> read_bytes_to_uint32 buf (byte_count + 22) 3;
          if record_length - frag_length = 12 then Some (content_type, bval hs_msg_type)
          else Some (content_type, UNKNOWN_MESSAGE_TYPE)
        } else Some (content_type, MALFORMED_MESSAGE_TYPE)
      }
      else if content_type = CCS_CONTENT_TYPE then
        if record_length = 1 then do {
          ccs_msg_type \<leftarrow> rd buf (byte_count + 13);
          Some (content_type, bval ccs_msg_type)
        }
        else if record_length > 1 then Some (content_type, UNKNOWN_MESSAGE_TYPE)
        else Some (content_type, MALFORMED_MESSAGE_TYPE)
      else if content_type = ALERT_CONTENT_TYPE then
        if record_length = 2 then do {
          alert_type \<leftarrow> rd buf (byte_count + 14);
          Some (content_type, bval alert_type)
        }
        else if record_length > 2 then Some (content_type, UNKNOWN_MESSAGE_TYPE)
        else Some (content_type, MALFORMED_MESSAGE_TYPE)
      else if content_type = APPLICATION_CONTENT_TYPE then Some (content_type, UNKNOWN_MESSAGE_TYPE)
      else if content_type = HEARTBEAT_CONTENT_TYPE then
        if record_length \<ge> 3 then Some (content_type, UNKNOWN_MESSAGE_TYPE)
        else Some (content_type, MALFORMED_MESSAGE_TYPE)
      else Some (UNKNOWN_CONTENT_TYPE, UNKNOWN_MESSAGE_TYPE))"

text \<open>\<open>(buf_size - byte_count > 13) && \<dots> && (memcmp(&buf[byte_count+1], dtls12_version, 2) == 0)\<close>\<close>

definition dtls_record_here :: "cptr \<Rightarrow> nat \<Rightarrow> nat \<Rightarrow> bool option" where
  "dtls_record_here buf buf_size byte_count =
     (if buf_size - byte_count > 13 then do {
        c \<leftarrow> rd buf byte_count;
        if content_type_byte c then memcmp_eq (drop (byte_count + 1) buf) dtls12_version else Some False
      } else Some False)"

text \<open>
  The check that the record lies inside the buffer compares an unsigned difference with zero and
  never holds. \<open>byte_count\<close> does not wrap around: it is below \<open>buf_size\<close> and a record length has
  16 bits.
\<close>

function dtls_codes_loop :: "cptr \<Rightarrow> nat \<Rightarrow> nat \<Rightarrow> 32 word list \<Rightarrow> (32 word list) option" where
  "dtls_codes_loop buf buf_size byte_count states =
     (if byte_count < buf_size then do {
        r \<leftarrow> dtls_record_here buf buf_size byte_count;
        if r then do {
          ct \<leftarrow> rd buf byte_count;
          record_length \<leftarrow> read_bytes_to_uint32 buf (byte_count + 11) 2;
          (content_type, message_type) \<leftarrow>
            (if (word_of_nat buf_size - word_of_nat byte_count - 13 - record_length :: 32 word) < 0
             then Some (bval ct, MALFORMED_MESSAGE_TYPE)
             else dtls_status buf byte_count (bval ct) record_length);
          Option.bind (add_state states (word_of_nat (push_bit 8 content_type + message_type))) (\<lambda>states1.
            dtls_codes_loop buf buf_size (byte_count + unat record_length) states1)
        }
        else dtls_codes_loop buf buf_size (byte_count + 1) states
      } else Some states)"
  by pat_completeness auto

termination
  by (relation "measures [\<lambda>(buf, n, bc, st). 268435456 - length st, \<lambda>(buf, n, bc, st). n - bc]")
    (auto dest: add_state_more)

declare dtls_codes_loop.simps [simp del]

definition extract_response_codes_dtls12 :: "cptr \<Rightarrow> nat \<Rightarrow> (32 word list) option" where
  "extract_response_codes_dtls12 buf buf_size = do {
     states \<leftarrow> add_state [] 0;
     dtls_codes_loop buf buf_size 0 states
   }"


section \<open>SSH responses\<close>

text \<open>
  A packet whose length field counts less than \<open>2 ^ 24\<close> bytes; outside the key exchange eight
  bytes of MAC follow it. An identification ends in the first line feed behind its sixth byte.
\<close>

definition ssh_packet :: "byte list \<Rightarrow> bool" where
  "ssh_packet p \<longleftrightarrow> 6 \<le> length p \<and> p ! 0 = NUL
     \<and> length p = be32 (p ! 0) (p ! 1) (p ! 2) (p ! 3) + (if ssh_kex_code (p ! 5) then 4 else 12)
     \<and> 2 \<le> be32 (p ! 0) (p ! 1) (p ! 2) (p ! 3)"

definition ssh_ident :: "byte list \<Rightarrow> bool" where
  "ssh_ident i \<longleftrightarrow> (\<exists>h b. i = h @ b @ [LF] \<and> length h = 6 \<and> LF \<notin> set b \<and> take 3 h = ''SSH'')"

lemma skip_ident_line: "LF \<notin> set b \<Longrightarrow> skip_ident (b @ LF # rest) bc = Some (bc + word_of_nat (length b + 1))"
  by (induction b arbitrary: bc) (auto simp: algebra_simps)

lemma word32_sub:
  "n < 4294967296 \<Longrightarrow> unat (w :: 32 word) \<le> n \<Longrightarrow> unat (word_of_nat n - w) = n - unat w"
proof -
  assume n: "n < 4294967296" and w: "unat w \<le> n"
  have "w \<le> word_of_nat n" using n w by (simp add: word_le_nat_alt unat32_of_nat)
  then show ?thesis using n by (simp add: unat_sub unat32_of_nat)
qed

lemma cstr_of_SSH: "contains (cstr_of (CHR ''S'' # CHR ''S'' # CHR ''H'' # t)) ''SSH''"
  by (simp add: cstr_of_def)

lemma ssh_codes_packet:
  assumes "take (buf_size - unat a) (drop (unat a) buf) = p @ rest" and "buf_size \<le> length buf" and "small_buf buf_size"
    and "ssh_packet p" and "length states < 100000000"
  shows "ssh_codes_loop buf buf_size a states
    = ssh_codes_loop buf buf_size (a + word_of_nat (length p)) (states @ [word_of_nat (bval (p ! 5))])"
proof -
  let ?n = "be32 (p ! 0) (p ! 1) (p ! 2) (p ! 3)" and ?six = "take 6 (drop (unat a) buf)"
  let ?w = "word_of_nat ?n :: 32 word"
  have p: "6 \<le> length p" "p ! 0 = NUL" "2 \<le> ?n"
    and lp: "length p = ?n + (if ssh_kex_code (p ! 5) then 4 else 12)"
    using assms(4) unfolding ssh_packet_def by blast+
  have small: "buf_size \<le> 33554432" by (rule small_bufD [OF assms(3)])
  have "length (take (buf_size - unat a) (drop (unat a) buf)) = length p + length rest" by (simp only: assms(1) length_append)
  then have len: "buf_size - unat a = length p + length rest" using assms(2) by simp
  have lt: "unat a < buf_size" "unat a + length p \<le> buf_size" using len p(1) by linarith+
  have "?six = take 6 (take (buf_size - unat a) (drop (unat a) buf))" using len p(1) by simp
  then have six: "?six = take 6 p" using p(1) by (simp only: assms(1)) simp
  have nth: "?six ! i = p ! i" if "i < 6" for i using that by (simp add: six)
  have "p \<noteq> []" using p(1) by auto
  then have "cstr_of ?six = []" "NUL \<in> set ?six" unfolding six using p(2) by (cases p; simp add: cstr_of_def)+
  then have str: "strstr_ssh ?six = Some False" by (simp add: strstr_ssh_def)
  define w where "w = ssh_size ?six"
  have "w = word_of_nat ?n" unfolding w_def ssh_size_def by (simp only: nth)
  then have w: "unat w = ?n" by (simp add: unat32_of_nat)
  have a6: "unat (a + 6) = unat a + 6" using lt small by (subst unat32_add) simp_all
  have sz: "unat (w - 2) = ?n - 2" using p(3) w by (simp add: unat_sub word_le_nat_alt)
  have room: "unat (word_of_nat buf_size - (a + 6)) = buf_size - (unat a + 6)"
    using word32_sub [of buf_size "a + 6"] a6 lt p(1) small by simp
  have le: "\<not> w - 2 > word_of_nat buf_size - (a + 6)"
    using sz room lt lp p(1) by (simp add: word_less_nat_alt not_less split: if_splits)
  have nxt: "a + 6 + ((if ssh_kex_code (p ! 5) then w else w + 8) - 2) = a + word_of_nat (length p)"
    using lp \<open>w = word_of_nat ?n\<close> by simp
  define six where "six = ?six"
  have s: "six ! 5 = p ! 5" "strstr_ssh six = Some False" "ssh_size six = w"
    unfolding six_def using str by (simp_all only: nth w_def)
  have get: "(if unat a + 6 \<le> length buf then Some (take 6 (drop (unat a) buf)) else None) = Some six"
    using lt p(1) assms(2) by (simp add: six_def)
  have "ssh_codes_loop buf buf_size a states
    = ssh_codes_loop buf buf_size (a + 6 + ((if ssh_kex_code (p ! 5) then w else w + 8) - 2))
        (states @ [word_of_nat (bval (p ! 5))])"
    unfolding ssh_codes_loop.simps [of buf buf_size a states] get
    using lt(1) le add_state_ok [of states "word_of_nat (bval (p ! 5))"] assms(5) by (simp add: s Let_def)
  then show ?thesis unfolding nxt .
qed

lemma ssh_codes_ident:
  assumes "drop (unat a) buf = h @ b @ LF # rest" and "length h = 6" and "LF \<notin> set b" and "take 3 h = ''SSH''"
    and "unat a < buf_size" and "small_buf buf_size" and "length states < 100000000"
  shows "ssh_codes_loop buf buf_size a states
    = ssh_codes_loop buf buf_size (a + word_of_nat (7 + length b)) (states @ [256])"
proof -
  have a6: "unat (a + 6) = unat a + 6" using assms(5) small_bufD [OF assms(6)] by (subst unat32_add) simp_all
  have "drop (unat a + 6) buf = drop 6 (drop (unat a) buf)" by (simp add: add.commute)
  also have "\<dots> = b @ LF # rest" unfolding assms(1) using assms(2) by simp
  finally have d: "drop (unat (a + 6)) buf = b @ LF # rest" unfolding a6 .
  have "length (drop (unat a) buf) \<ge> 6" unfolding assms(1) using assms(2) by simp
  then have "unat a + 6 \<le> length buf" by simp
  then have get: "(if unat a + 6 \<le> length buf then Some (take 6 (drop (unat a) buf)) else None) = Some h"
    unfolding assms(1) using assms(2) by simp
  have "h = CHR ''S'' # CHR ''S'' # CHR ''H'' # drop 3 h" using assms(4) append_take_drop_id [of 3 h] by simp
  then have "contains (cstr_of h) ''SSH''" by (metis cstr_of_SSH)
  then have str: "strstr_ssh h = Some True" by (simp add: strstr_ssh_def)
  have skip: "skip_ident (b @ LF # rest) (a + 6) = Some (a + word_of_nat (7 + length b))"
    using skip_ident_line [OF assms(3), of rest "a + 6"] by (simp add: algebra_simps)
  show ?thesis
    unfolding ssh_codes_loop.simps [of buf buf_size a states] get d
    using assms(5) add_state_ok [of states 256] assms(7) by (simp add: str skip)
qed

lemma ssh_codes_packets:
  assumes "take (buf_size - unat a) (drop (unat a) buf) = concat ps" and "buf_size \<le> length buf" and "small_buf buf_size"
    and "list_all ssh_packet ps" and "length states \<le> unat a + 1" and "unat a \<le> buf_size"
  shows "ssh_codes_loop buf buf_size a states = Some (states @ map (\<lambda>p. word_of_nat (bval (p ! 5))) ps)"
  using assms(1,4-)
proof (induction ps arbitrary: a states)
  case Nil
  then have "\<not> unat a < buf_size" using assms(2) by auto
  then show ?case by (subst ssh_codes_loop.simps) simp
next
  case (Cons p ps)
  have small: "buf_size \<le> 33554432" by (rule small_bufD [OF assms(3)])
  let ?xs = "take (buf_size - unat a) (drop (unat a) buf)"
  have xs: "?xs = p @ concat ps" using Cons.prems(1) by simp
  then have "length ?xs = length p + length (concat ps)" by (simp only: length_append)
  then have len: "buf_size - unat a = length p + length (concat ps)" using assms(2) by simp
  have "ssh_packet p" using Cons.prems(2) by simp
  then have p6: "6 \<le> length p" unfolding ssh_packet_def by blast
  have ul: "unat (word_of_nat (length p) :: 32 word) = length p" using len small by (intro unat32_of_nat) simp
  have un: "unat (a + word_of_nat (length p)) = unat a + length p"
    using ul len Cons.prems(4) small by (subst unat32_add) simp_all
  have "drop (length p) ?xs = concat ps" unfolding xs by simp
  then have "take (buf_size - (unat a + length p)) (drop (unat a + length p) buf) = concat ps"
    by (simp add: drop_take add.commute)
  then have "ssh_codes_loop buf buf_size (a + word_of_nat (length p)) (states @ [word_of_nat (bval (p ! 5))])
    = Some ((states @ [word_of_nat (bval (p ! 5))]) @ map (\<lambda>p. word_of_nat (bval (p ! 5))) ps)"
    using Cons.prems(2,3,4) un len p6 by (intro Cons.IH) auto
  moreover have "length states < 100000000" using Cons.prems(3,4) small by simp
  ultimately show ?case
    using ssh_codes_packet [OF xs assms(2,3), of states] Cons.prems(2) by simp
qed

text \<open>
  From an SSH response made of the identification and any packets, plain or with a
  MAC, the states are 0, 256 for the identification and the message number of every packet.
\<close>

lemma extract_response_codes_ssh_packets:
  assumes "ssh_ident i" and "list_all ssh_packet ps" and "small_buf (length (i @ concat ps))"
  shows "extract_response_codes_ssh (i @ concat ps @ rest) (length (i @ concat ps))
    = Some (0 # 256 # map (\<lambda>p. word_of_nat (bval (p ! 5))) ps)"
proof -
  let ?buf = "i @ concat ps @ rest" and ?n = "length (i @ concat ps)"
  obtain h b where i: "i = h @ b @ [LF]" "length h = 6" "LF \<notin> set b" "take 3 h = ''SSH''"
    using assms(1) by (auto simp: ssh_ident_def)
  have small: "?n \<le> 33554432" by (rule small_bufD [OF assms(3)])
  have li: "7 + length b = length i" using i(1,2) by simp
  have ui: "unat (word_of_nat (length i) :: 32 word) = length i" using small by (intro unat32_of_nat) simp
  have "ssh_codes_loop ?buf ?n 0 [0] = ssh_codes_loop ?buf ?n (0 + word_of_nat (7 + length b)) ([0] @ [256])"
    using assms(3) i(1,2) by (intro ssh_codes_ident [OF _ i(2,3,4)]) simp_all
  then have "ssh_codes_loop ?buf ?n 0 [0] = ssh_codes_loop ?buf ?n (word_of_nat (length i)) [0, 256]"
    unfolding li by simp
  moreover have "ssh_codes_loop ?buf ?n (word_of_nat (length i)) [0, 256]
    = Some ([0, 256] @ map (\<lambda>p. word_of_nat (bval (p ! 5))) ps)"
    using assms(2,3) ui i(2) by (intro ssh_codes_packets) (auto simp: i(1))
  ultimately show ?thesis by (simp add: extract_response_codes_ssh_def add_state_ok)
qed

lemma extract_response_codes_ssh_packets_sample:
  "extract_response_codes_ssh (''SSH-2.0-x'' @ [CR, LF] @ map char_of [0, 0, 0, 6, 4, 20, 1, 2, 3, 4 :: nat] @ [NUL]) 21
     = Some [0, 256, 20]"
proof -
  let ?i = "''SSH-2.0-x'' @ [CR, LF]" and ?ps = "[map char_of [0, 0, 0, 6, 4, 20, 1, 2, 3, 4 :: nat]]"
  have i: "ssh_ident ?i" unfolding ssh_ident_def
    by (rule exI [of _ "''SSH-2.''"], rule exI [of _ "''0-x'' @ [CR]"]) simp
  have "char_of (0 :: nat) = NUL" by code_simp
  then have ps: "list_all ssh_packet ?ps" by (simp add: ssh_packet_def be32_eq ssh_kex_code_def bval_def)
  have len: "length (?i @ concat ?ps) = 21" by simp
  have "small_buf (length (?i @ concat ?ps))" unfolding len by (simp add: small_buf_def)
  from extract_response_codes_ssh_packets [OF i ps this, of "[NUL]"] show ?thesis unfolding len by simp
qed


section \<open>TLS responses\<close>

definition tls_record :: "byte list \<Rightarrow> bool" where
  "tls_record r \<longleftrightarrow> 6 \<le> length r \<and> length r = 5 + be16 (r ! 3) (r ! 4)"

definition tls_code :: "byte list \<Rightarrow> 32 word" where
  "tls_code r = word_of_nat (256 * bval (r ! 0) + (if bval (r ! 0) = 0x17 then 0xFF else bval (r ! 5)))"

lemma tls_codes_fill:
  assumes "xs = take (buf_size - a) (drop a buf)" and "buf_size \<le> length buf" and "j \<le> 6" and "j \<le> length xs"
    and "1024 \<le> length mem"
  shows "\<exists>mem'. tls_codes_loop buf buf_size a mem 0 states = tls_codes_loop buf buf_size (a + j) mem' j states
    \<and> length mem' = length mem \<and> take j mem' = take j xs"
  using assms(3,4)
proof (induction j)
  case (Suc j)
  then obtain mem' where m: "tls_codes_loop buf buf_size a mem 0 states = tls_codes_loop buf buf_size (a + j) mem' j states"
      "length mem' = length mem" "take j mem' = take j xs" by auto
  have b: "a + j < buf_size" using Suc.prems(2) assms(1,2) by simp
  have rd: "rd buf (a + j) = Some (xs ! j)" using Suc.prems(2) assms(1,2) by simp
  have j: "j < length mem'" "Suc j \<noteq> length mem'" using m(2) assms(5) Suc.prems(1) by auto
  have "tls_codes_loop buf buf_size (a + j) mem' j states
    = tls_codes_loop buf buf_size (a + Suc j) (mem'[j := xs ! j]) (Suc j) states"
    using b Suc.prems(1) rd j by (subst tls_codes_loop.simps) (simp add: enlarge_def)
  moreover have "take (Suc j) (mem'[j := xs ! j]) = take (Suc j) xs"
    using take_wr [OF j(1), of "xs ! j"] m(3) Suc.prems(2) by (simp add: take_Suc_conv_app_nth)
  ultimately show ?case using m by auto
qed auto

lemma tls_codes_record:
  assumes "take (buf_size - a) (drop a buf) = r @ rest" and "buf_size \<le> length buf" and "tls_record r"
    and "7 \<le> length r \<or> 2 \<le> length rest" and "length rest \<noteq> 1" and "1024 \<le> length mem"
    and "length states < 100000000"
  shows "\<exists>mem'. tls_codes_loop buf buf_size a mem 0 states
      = tls_codes_loop buf buf_size (a + length r) mem' 0 (states @ [tls_code r])
    \<and> length mem' = length mem"
proof -
  let ?xs = "take (buf_size - a) (drop a buf)" and ?n = "be16 (r ! 3) (r ! 4)"
  have r: "6 \<le> length r" "length r = 5 + ?n" using assms(3) unfolding tls_record_def by blast+
  have "length ?xs = length r + length rest" by (simp only: assms(1) length_append)
  then have len: "buf_size - a = length r + length rest" using assms(2) by simp
  have l7: "7 \<le> length ?xs" unfolding assms(1) using assms(4) r(1) by auto
  have nth: "?xs ! i = r ! i" if "i < 6" for i unfolding assms(1) using that r(1) by (simp add: nth_append)
  obtain mem' where m: "tls_codes_loop buf buf_size a mem 0 states = tls_codes_loop buf buf_size (a + 6) mem' 6 states"
      "length mem' = length mem" "take 6 mem' = take 6 ?xs"
    using tls_codes_fill [OF refl assms(2) _ _ assms(6), of 6 a states] l7 by auto
  define c where "c = buf ! (a + 6)"
  define mem1 where "mem1 = mem'[6 := c]"
  have wr: "wr mem' 6 c = Some mem1" using m(2) assms(6) by (simp add: mem1_def)
  have "mem' ! i = ?xs ! i" if "i < 6" for i using m(3) that by (metis nth_take)
  then have mr: "rd mem1 i = Some (r ! i)" if "i < 6" for i
    using that nth [OF that] m(2) assms(6) by (simp add: mem1_def)
  have lt: "a + 6 < buf_size" using l7 len unfolding assms(1) by simp
  have rd: "rd buf (a + 6) = Some c" using lt assms(2) by (simp add: c_def)
  have u: "unat (word_of_nat ?n - 1 :: 32 word) = ?n - 1"
  proof -
    have "unat (word_of_nat ?n :: 32 word) = ?n" by (intro unat32_of_nat, rule less_trans [OF be_bounds(1)]) simp
    then show ?thesis using r by (simp add: unat_sub word_le_nat_alt)
  qed
  have sk: "fst (step_back buf_size (skip_bytes buf_size (?n - 1) (a + 6 + 1) 1)) = a + length r"
    using len r assms(4,5) lt by (auto simp: skip_bytes_eq step_back_def min_def)
  have code: "word_of_nat (push_bit 8 (bval (r ! 0)) + (if bval (r ! 0) = 0x17 then 0xFF else bval (r ! 5))) = tls_code r"
    by (simp add: tls_code_def push_bit_eq_mult mult.commute)
  have "tls_codes_loop buf buf_size (a + 6) mem' 6 states = tls_codes_loop buf buf_size (a + length r) mem1 0 (states @ [tls_code r])"
    unfolding tls_codes_loop.simps [of buf buf_size "a + 6" mem' 6 states]
    using lt rd wr mr [of 0] mr [of 3] mr [of 4] mr [of 5] u sk code add_state_ok [of states "tls_code r"] assms(7)
    by (cases "bval (r ! 0) = 0x17") (simp_all add: Let_def)
  with m show ?thesis by (intro exI [of _ mem1]) (simp add: mem1_def)
qed

lemma tls_codes_records:
  assumes "take (buf_size - a) (drop a buf) = concat rs" and "buf_size \<le> length buf" and "small_buf buf_size"
    and "list_all tls_record rs" and "rs \<noteq> [] \<Longrightarrow> 7 \<le> length (last rs)" and "length states \<le> a + 1" and "a \<le> buf_size"
    and "1024 \<le> length mem"
  shows "tls_codes_loop buf buf_size a mem 0 states = Some (states @ map tls_code rs)"
  using assms(1,4-)
proof (induction rs arbitrary: a states mem)
  case Nil
  then have "\<not> a < buf_size" using assms(2) by auto
  then show ?case by (subst tls_codes_loop.simps) simp
next
  case (Cons r rs)
  let ?xs = "take (buf_size - a) (drop a buf)"
  have xs: "?xs = r @ concat rs" using Cons.prems(1) by simp
  then have "length ?xs = length r + length (concat rs)" by (simp only: length_append)
  then have len: "buf_size - a = length r + length (concat rs)" using assms(2) by simp
  have tr: "tls_record r" using Cons.prems(2) by simp
  then have r6: "6 \<le> length r" by (simp add: tls_record_def)
  have last: "7 \<le> length r \<or> 2 \<le> length (concat rs)" "length (concat rs) \<noteq> 1"
    using Cons.prems(2,3) by (cases rs; auto simp: tls_record_def)+
  have "length states < 100000000" using Cons.prems(4,5) small_bufD [OF assms(3)] by simp
  from tls_codes_record [OF xs assms(2) tr last Cons.prems(6) this] obtain mem' where
    s: "tls_codes_loop buf buf_size a mem 0 states = tls_codes_loop buf buf_size (a + length r) mem' 0 (states @ [tls_code r])"
      "length mem' = length mem" by blast
  have "drop (length r) ?xs = concat rs" unfolding xs by simp
  then have "take (buf_size - (a + length r)) (drop (a + length r) buf) = concat rs"
    by (simp add: drop_take add.commute)
  then have "tls_codes_loop buf buf_size (a + length r) mem' 0 (states @ [tls_code r])
    = Some ((states @ [tls_code r]) @ map tls_code rs)"
    using Cons.prems r6 s(2) len by (intro Cons.IH) (auto split: if_splits)
  with s(1) show ?case by simp
qed

text \<open>
  The states of a TLS response are 0 and, for every record, its content type and
  the first byte of its payload (0xFF for application data). The last record has to have at least
  two payload bytes: a final ChangeCipherSpec, which has one, gives no state.
\<close>

lemma extract_response_codes_tls_records:
  assumes "list_all tls_record rs" and "rs \<noteq> []" and "7 \<le> length (last rs)" and "small_buf (length (concat rs))"
  shows "extract_response_codes_tls (concat rs) (length (concat rs)) = Some (0 # map tls_code rs)
    \<and> (\<forall>r. tls_record r \<and> length r = 6 \<longrightarrow> extract_response_codes_tls r 6 = Some [0])"
proof -
  have "tls_codes_loop (concat rs) (length (concat rs)) 0 (replicate 1024 NUL) 0 [0] = Some ([0] @ map tls_code rs)"
    using assms by (intro tls_codes_records) auto
  moreover have "extract_response_codes_tls r 6 = Some [0]" if "tls_record r" "length r = 6" for r
  proof -
    have "6 \<le> length (take (6 - 0) (drop 0 r))" using that(2) by simp
    from tls_codes_fill [OF refl _ _ this, where mem = "replicate 1024 NUL" and states = "[0]"] that(2)
    obtain mem' where "tls_codes_loop r 6 0 (replicate 1024 NUL) 0 [0] = tls_codes_loop r 6 6 mem' 6 [0]" by auto
    then show ?thesis
      by (simp add: extract_response_codes_tls_def add_state_ok tls_codes_loop.simps [of r 6 6])
  qed
  ultimately show ?thesis by (simp add: extract_response_codes_tls_def add_state_ok)
qed

lemma extract_response_codes_tls_records_sample:
  "extract_response_codes_tls (map char_of [20, 3, 3, 0, 1, 1, 22, 3, 3, 0, 2, 14, 0 :: nat]) 13 = Some [0, 5121, 5646]"
proof -
  let ?rs = "[map char_of [20, 3, 3, 0, 1, 1 :: nat], map char_of [22, 3, 3, 0, 2, 14, 0 :: nat]]"
  have "list_all tls_record ?rs" by (simp add: tls_record_def be16_eq)
  moreover have len: "length (concat ?rs) = 13" by simp
  moreover have "small_buf 13" by (simp add: small_buf_def)
  ultimately show ?thesis
    using conjunct1 [OF extract_response_codes_tls_records [of ?rs]] by (simp only: len) (simp add: tls_code_def)
qed

section \<open>DTLS responses\<close>

lemma read_two:
  "off + 1 < length buf \<Longrightarrow> read_bytes_to_uint32 buf off 2 = Some (word_of_nat (256 * bval (buf ! off) + bval (buf ! (off + 1))))"
  by (simp add: read_bytes_to_uint32_def numeral_2_eq_2 push_bit_eq_mult)

lemma dtls_status_zero:
  "rd buf (byte_count + 13) \<noteq> None \<Longrightarrow> dtls_status buf byte_count ct 0 \<noteq> None"
  by (auto simp: dtls_status_def word_le_nat_alt word_less_nat_alt)

text \<open>The code that records of the wrong length make: the loop does not advance over a record of length 0.\<close>

lemma dtls_zero_record_stuck:
  assumes "dtls_record_here buf buf_size byte_count = Some True" and "byte_count + 13 < buf_size" and "buf_size \<le> length buf"
    and "read_bytes_to_uint32 buf (byte_count + 11) 2 = Some 0"
  shows "dtls_codes_loop buf buf_size byte_count states = None"
proof (induction "268435456 - length states" arbitrary: states rule: less_induct)
  case less
  have "rd buf (byte_count + 13) \<noteq> None" using assms(2,3) by simp
  then obtain ct mt where st: "dtls_status buf byte_count (bval (buf ! byte_count)) 0 = Some (ct, mt)"
    using dtls_status_zero by fastforce
  have lt: "byte_count < buf_size" "rd buf byte_count = Some (buf ! byte_count)" using assms(2,3) by simp_all
  have "Option.bind (add_state states (word_of_nat (push_bit 8 ct + mt)))
      (\<lambda>states1. dtls_codes_loop buf buf_size byte_count states1) = None"
    using less add_state_more by (cases "add_state states (word_of_nat (push_bit 8 ct + mt))") auto
  then show ?case
    unfolding dtls_codes_loop.simps [of buf buf_size byte_count states] using lt assms(1,4) st by simp
qed

lemma dtls_codes_tail:
  "buf_size \<le> byte_count + 13 \<Longrightarrow> dtls_codes_loop buf buf_size byte_count states = Some states"
proof (induction "buf_size - byte_count" arbitrary: byte_count)
  case 0
  then show ?case by (subst dtls_codes_loop.simps) simp
next
  case (Suc d)
  have "\<not> buf_size - byte_count > 13" using Suc.prems by linarith
  then have "dtls_record_here buf buf_size byte_count = Some False" by (simp add: dtls_record_here_def)
  moreover have "dtls_codes_loop buf buf_size (byte_count + 1) states = Some states"
    using Suc.hyps(2) Suc.prems by (intro Suc.hyps(1)) linarith+
  ultimately show ?case by (subst dtls_codes_loop.simps) simp
qed

definition dtls_record_bytes :: "byte list \<Rightarrow> bool" where
  "dtls_record_bytes r \<longleftrightarrow> 13 < length r \<and> content_type_byte (r ! 0) \<and> r ! 1 = CHR 0xFE \<and> r ! 2 = CHR 0xFD"

lemma dtls_record_here_start:
  "dtls_record_bytes r \<Longrightarrow> dtls_record_here (r @ rest) (length r) 0 = Some True"
  by (cases r; cases "tl r"; cases "tl (tl r)")
    (auto simp: dtls_record_bytes_def dtls_record_here_def memcmp_eq_def dtls12_version_def)

text \<open>
  On a response that is one DTLS record the loop returns the initial state and
  the state of that record. When the length field of the record is zero it never advances: the
  state sequence grows until the allocator aborts the fuzzer.
\<close>

lemma extract_response_codes_dtls12_record:
  assumes "dtls_record_bytes r" and "24 < length (r @ rest)" and "length r < 65000"
  defines "len \<equiv> 256 * bval (r ! 11) + bval (r ! 12)"
  shows "(len + 13 = length r \<longrightarrow> (\<exists>ct mt. dtls_status (r @ rest) 0 (bval (r ! 0)) (word_of_nat len) = Some (ct, mt)
        \<and> extract_response_codes_dtls12 (r @ rest) (length r) = Some [0, word_of_nat (256 * ct + mt)]))
    \<and> (len = 0 \<longrightarrow> extract_response_codes_dtls12 (r @ rest) (length r) = None)"
proof -
  let ?b = "r @ rest"
  have l: "13 < length r" using assms(1) by (simp add: dtls_record_bytes_def)
  have here: "dtls_record_here ?b (length r) 0 = Some True" by (rule dtls_record_here_start [OF assms(1)])
  have rl: "read_bytes_to_uint32 ?b 11 2 = Some (word_of_nat len)"
    using read_two [of 11 ?b] l by (simp add: nth_append len_def)
  have ini: "extract_response_codes_dtls12 ?b (length r) = dtls_codes_loop ?b (length r) 0 [0]"
    by (simp add: extract_response_codes_dtls12_def add_state_ok)
  have z: "extract_response_codes_dtls12 ?b (length r) = None" if "len = 0"
    unfolding ini using dtls_zero_record_stuck [OF here] rl that l by simp
  have "\<exists>ct mt. dtls_status ?b 0 (bval (r ! 0)) (word_of_nat len) = Some (ct, mt)"
    using l assms(2)
    by (auto simp: dtls_status_def read_bytes_to_uint32_def numeral_3_eq_3)
  then obtain ct mt where st: "dtls_status ?b 0 (bval (r ! 0)) (word_of_nat len) = Some (ct, mt)" by blast
  have "extract_response_codes_dtls12 ?b (length r) = Some [0, word_of_nat (256 * ct + mt)]" if "len + 13 = length r"
  proof -
    have ul: "unat (word_of_nat len :: 32 word) = len" using that assms(3) by (intro unat32_of_nat) simp
    have "rd ?b 0 = Some (r ! 0)" "r \<noteq> []" using l by (cases r; auto)+
    then have "dtls_codes_loop ?b (length r) 0 [0] = dtls_codes_loop ?b (length r) len [0, word_of_nat (256 * ct + mt)]"
      unfolding dtls_codes_loop.simps [of ?b "length r" 0 "[0]"]
      using l here rl st ul add_state_ok [of "[0]"] by (simp add: push_bit_eq_mult mult.commute)
    then show ?thesis unfolding ini using dtls_codes_tail [of "length r" len] that by simp
  qed
  with z st show ?thesis by blast
qed

lemma extract_response_codes_dtls12_record_sample:
  "extract_response_codes_dtls12 (map char_of [20, 254, 253, 0, 0, 0, 0, 0, 0, 0, 0, 0, 0, 1 :: nat] @ replicate 12 NUL) 14
     = None"
proof -
  let ?r = "map char_of [20, 254, 253, 0, 0, 0, 0, 0, 0, 0, 0, 0, 0, 1 :: nat]"
  have "dtls_record_bytes ?r"
    by (simp add: dtls_record_bytes_def content_type_byte_def CCS_CONTENT_TYPE_def HEARTBEAT_CONTENT_TYPE_def) code_simp
  moreover have len: "length ?r = 14" by simp
  ultimately show ?thesis
    using conjunct2 [OF extract_response_codes_dtls12_record [of ?r "replicate 12 NUL"]] by (simp only: len) simp
qed

end
