(* ===== verification/Aflnet_Messages.thy ===== *)
theory Aflnet_Messages
  imports Aflnet_Datagrams
begin

text \<open>
  The message lists of \<open>aflnet.c\<close>: building them from a seed file and its regions, splitting them
  at a snapshot, writing them to a file, and turning them back into regions; and the reader of
  replay files in \<open>aflnet-replay.c\<close>. A \<open>klist\<close> is the list of its messages, an iterator the number
  of messages before it. \<open>PFATAL\<close> ends the fuzzer and is the value \<^const>\<open>None\<close>.
\<close>

record message_t =
  mdata :: "byte list"
  msize :: int

definition mk_message :: "byte list \<Rightarrow> message_t" where
  "mk_message d = \<lparr>mdata = d, msize = int (length d)\<rparr>"

section \<open>Operations\<close>

text \<open>
  \<open>construct_kl_messages\<close>: the file is read from its start, region by region; only the length of a
  region matters. \<open>fread\<close> at the end of the file leaves the zeros of the allocator. A message of
  length 0 has no memory and is fatal.
\<close>

fun construct_kl_messages :: "byte list \<Rightarrow> region_t list \<Rightarrow> (message_t list) option" where
  "construct_kl_messages fseed [] = Some []"
| "construct_kl_messages fseed (r # regions) = (
     let len = unat (word_of_int (end_byte r - start_byte r + 1) :: 32 word) in
     if len = 0 then None
     else do {
       mem \<leftarrow> ck_alloc len;
       let got = take len fseed;
       let m = \<lparr>mdata = got @ drop (length got) mem, msize = to_int32 (int len)\<rparr>;
       ms \<leftarrow> construct_kl_messages (drop len fseed) regions;
       Some (m # ms)
     })"

text \<open>A copy of a message, in memory of its own.\<close>

definition copy_message :: "message_t \<Rightarrow> message_t option" where
  "copy_message m = (
     if msize m \<le> 0 \<or> nat (msize m) > length (mdata m) then None
     else do {
       mem \<leftarrow> ck_alloc (nat (msize m));
       Some \<lparr>mdata = take (nat (msize m)) (mdata m), msize = msize m\<rparr>
     })"

fun copy_messages :: "message_t list \<Rightarrow> (message_t list) option" where
  "copy_messages [] = Some []"
| "copy_messages (m # ms) = do { m' \<leftarrow> copy_message m; ms' \<leftarrow> copy_messages ms; Some (m' # ms') }"

text \<open>\<open>M2_prev\<close> points at the last message of M1.\<close>

definition construct_kl_messages_mx :: "message_t list \<Rightarrow> nat \<Rightarrow> nat \<Rightarrow> (message_t list) option" where
  "construct_kl_messages_mx kl_messages M2_prev flag =
     (if M2_prev \<ge> length kl_messages then None
      else if flag = 1 then copy_messages (take (M2_prev + 1) kl_messages)
      else if flag = 2 then copy_messages (drop (M2_prev + 1) kl_messages)
      else None)"

definition get_last_message :: "message_t list \<Rightarrow> nat option" where
  "get_last_message kl_messages = (if kl_messages = [] then None else Some (length kl_messages - 1))"

text \<open>The bytes of an \<open>u32\<close> as they are stored on a little-endian machine, and reading them.\<close>

definition le32 :: "nat \<Rightarrow> byte list" where
  "le32 n = [char_of (n mod 256), char_of (n div 256 mod 256), char_of (n div 65536 mod 256),
     char_of (n div 16777216 mod 256)]"

definition le32_val :: "byte list \<Rightarrow> nat" where
  "le32_val b = be32 (b ! 3) (b ! 2) (b ! 1) (b ! 0)"

text \<open>The loop of \<open>save_kl_messages_to_file\<close>: \<open>k\<close> is \<open>max_count - message_count\<close>.\<close>

fun save_loop :: "message_t list \<Rightarrow> bool \<Rightarrow> nat \<Rightarrow> byte list \<Rightarrow> (byte list) option" where
  "save_loop [] replay_enabled k mem = Some mem"
| "save_loop (m # ms) replay_enabled k mem =
     (if k = 0 then Some mem
      else let message_size = nat (msize m) in
        if msize m < 0 \<or> message_size > length (mdata m) then None
        else if replay_enabled then
          if 4 + length mem + message_size > MAX_ALLOC then None
          else save_loop ms replay_enabled (k - 1) (mem @ le32 message_size @ take message_size (mdata m))
        else
          if length mem + message_size > MAX_ALLOC then None
          else save_loop ms replay_enabled (k - 1) (mem @ take message_size (mdata m)))"

text \<open>
  The file is opened without \<open>O_TRUNC\<close>: bytes of an older, longer file stay behind the new ones.
  The result is the new content of the file and the number of bytes written.
\<close>

definition save_kl_messages_to_file ::
  "message_t list \<Rightarrow> byte list \<Rightarrow> bool \<Rightarrow> nat \<Rightarrow> (byte list \<times> nat) option" where
  "save_kl_messages_to_file kl_messages file replay_enabled max_count = do {
     mem \<leftarrow> save_loop kl_messages replay_enabled max_count [];
     Some (mem @ drop (length mem) file, length mem)
   }"

fun convert_loop :: "message_t list \<Rightarrow> nat \<Rightarrow> int \<Rightarrow> region_t list \<Rightarrow> (region_t list) option" where
  "convert_loop [] k cur_start regions = Some regions"
| "convert_loop (m # ms) k cur_start regions =
     (if k = 0 then Some regions
      else if (length regions + 1) * sizeof_region_t > MAX_ALLOC then None
      else let cur_end = cur_start + msize m - 1 in
        if cur_end < 0 \<or> cur_end \<ge> 2 ^ 31 - 1 then None
        else convert_loop ms (k - 1) (cur_end + 1) (regions @ [mk_region cur_start cur_end]))"

definition convert_kl_messages_to_regions :: "message_t list \<Rightarrow> nat \<Rightarrow> (region_t list) option" where
  "convert_kl_messages_to_regions kl_messages max_count = convert_loop kl_messages max_count 0 []"

text \<open>
  The loop of \<open>aflnet-replay.c\<close>: the packets it sends, as long as the network takes them. \<open>feof\<close>
  holds after a read that did not get all its bytes.
\<close>

function replay_packets :: "byte list \<Rightarrow> (byte list list) option" where
  "replay_packets fp =
     (if length fp < 4 then Some []
      else let sz = le32_val (take 4 fp); body = drop 4 fp; got = take sz body in do {
        mem \<leftarrow> ck_alloc sz;
        let buf = got @ drop (length got) mem;
        if length body < sz then Some [buf]
        else do {
          ps \<leftarrow> replay_packets (drop sz body);
          Some (buf # ps)
        }
      })"
  by pat_completeness auto

termination
  by (relation "measure length") auto

declare replay_packets.simps [simp del]

section \<open>Messages and regions\<close>

lemma construct_regions_of:
  assumes "[] \<notin> set ps" and "a + length (concat ps) \<le> 33554432" and "concat ps @ rest = fseed"
  shows "construct_kl_messages fseed (regions_of a ps) = Some (map mk_message ps)"
  using assms
proof (induction ps arbitrary: a fseed)
  case (Cons p ps)
  have p: "0 < length p" "length p \<le> 33554432" using Cons.prems(1,2) by auto
  have "int (a + length p - 1) - int a + 1 = int (length p)" using p(1) by linarith
  then have len: "unat (word_of_int (int (a + length p - 1) - int a + 1) :: 32 word) = length p"
    using p(2) by (simp only: of_int_of_nat_eq) (simp add: unat32_of_nat)
  have f: "take (length p) fseed = p" "drop (length p) fseed = concat ps @ rest"
    using Cons.prems(3) by auto
  have "construct_kl_messages (drop (length p) fseed) (regions_of (a + length p) ps) = Some (map mk_message ps)"
    using Cons.prems f(2) by (intro Cons.IH) auto
  with p len f(1) show ?case
    by (simp add: Let_def mk_region_def mk_message_def del: of_int_diff of_int_add)
qed simp

lemma convert_messages:
  assumes "[] \<notin> set ps" and "a + length (concat ps) \<le> 33554432" and "length regions \<le> a" and "length ps \<le> k"
  shows "convert_loop (map mk_message ps) k (int a) regions = Some (regions @ regions_of a ps)"
  using assms
proof (induction ps arbitrary: a k regions)
  case (Cons p ps)
  have p: "0 < length p" "a + length p \<le> 33554432" using Cons.prems(1,2) by auto
  then have e: "int a + int (length p) - 1 = int (a + length p - 1)" "int (a + length p - Suc 0) + 1 = int (a + length p)"
    by linarith+
  have room: "\<not> (length regions + 1) * sizeof_region_t > MAX_ALLOC"
  proof -
    have "length regions + 1 \<le> 33554432" using Cons.prems(3) p by linarith
    then show ?thesis by (simp add: sizeof_region_t_def MAX_ALLOC_def)
  qed
  have rng: "\<not> (int a + int (length p) - 1 < 0 \<or> int a + int (length p) - 1 \<ge> 2 ^ 31 - 1)"
  proof -
    have "1 \<le> int (length p)" "int a + int (length p) \<le> 33554432" using p by linarith+
    then show ?thesis by simp
  qed
  have nr: "Suc (length regions) \<le> a + length p" using Cons.prems(3) p by linarith
  have "convert_loop (map mk_message ps) (k - 1) (int (a + length p)) (regions @ [mk_region (int a) (int (a + length p - 1))])
    = Some ((regions @ [mk_region (int a) (int (a + length p - 1))]) @ regions_of (a + length p) ps)"
    using Cons.prems(1,2,4) nr by (intro Cons.IH) auto
  moreover have "msize (mk_message p) = int (length p)" by (simp add: mk_message_def)
  moreover have "k \<noteq> 0" using Cons.prems(4) by auto
  ultimately show ?case using room rng by (simp add: Let_def e del: of_nat_add)
qed simp

lemma save_messages:
  assumes "length mem + length (concat ps) + 4 * length ps \<le> 1000000000" and "length ps \<le> k"
  shows "save_loop (map mk_message ps) False k mem = Some (mem @ concat ps)"
    and "save_loop (map mk_message ps) True k mem = Some (mem @ concat (map (\<lambda>p. le32 (length p) @ p) ps))"
  using assms
  by (induction ps arbitrary: k mem) (auto simp: mk_message_def MAX_ALLOC_def Let_def le32_def)

lemma copy_messages_id:
  "[] \<notin> set ps \<Longrightarrow> length (concat ps) \<le> 33554432 \<Longrightarrow> copy_messages (map mk_message ps) = Some (map mk_message ps)"
  by (induction ps) (auto simp: copy_message_def mk_message_def)

lemma le32_val_le32:
  assumes "n < 4294967296"
  shows "le32_val (le32 n) = n"
proof -
  have "n div 16777216 mod 256 = n div 16777216" using assms by simp
  moreover have "n = 16777216 * (n div 16777216) + n mod 16777216" by simp
  moreover have "n mod 16777216 = 65536 * (n div 65536 mod 256) + 256 * (n div 256 mod 256) + n mod 256"
    by (simp add: mod_mult2_eq [of n 256 65536, simplified] mod_mult2_eq [of "n div 256" 256 256, simplified] div_mult2_eq [symmetric])
  ultimately show ?thesis by (simp add: le32_val_def le32_def be32_eq)
qed

lemma replay_saved:
  assumes "list_all (\<lambda>p. length p \<le> 1073741824) ps"
  shows "replay_packets (concat (map (\<lambda>p. le32 (length p) @ p) ps)) = Some ps"
  using assms
proof (induction ps)
  case (Cons p ps)
  have l4: "length (le32 n) = 4" for n by (simp add: le32_def)
  have v: "le32_val (le32 (length p)) = length p" using Cons.prems by (intro le32_val_le32) simp
  from Cons show ?case by (subst replay_packets.simps) (simp add: l4 v)
qed (simp add: replay_packets.simps)


section \<open>Properties\<close>

text \<open>
  What becomes of a seed file: it is cut into regions, read back as messages, written out for the
  queue, and the queue entry gets the regions of the messages.
\<close>

definition seed_kept :: "byte list \<Rightarrow> region_t list option \<Rightarrow> byte list \<Rightarrow> bool" where
  "seed_kept file regions file' \<longleftrightarrow> (\<exists>rs ms. regions = Some rs \<and> construct_kl_messages file rs = Some ms
     \<and> save_kl_messages_to_file ms [] False (length ms) = Some (file', length file')
     \<and> convert_kl_messages_to_regions ms (length ms) = Some rs)"

lemma length_pieces: "[] \<notin> set ps \<Longrightarrow> length ps \<le> length (concat ps)"
proof (induction ps)
  case (Cons p ps)
  then show ?case by (cases p) auto
qed simp

lemma seed_kept_pieces:
  assumes "[] \<notin> set ps" and "concat ps @ rest = file" and "length file \<le> 33554432"
  shows "seed_kept file (Some (regions_of 0 ps)) (concat ps)"
proof -
  have len: "length (concat ps) \<le> length file" using arg_cong [OF assms(2), of length] by simp
  have "construct_kl_messages file (regions_of 0 ps) = Some (map mk_message ps)"
    using construct_regions_of [OF assms(1) _ assms(2), of 0] len assms(3) by simp
  moreover have "save_loop (map mk_message ps) False (length ps) [] = Some ([] @ concat ps)"
    using save_messages(1) [of "[]" ps "length ps"] length_pieces [OF assms(1)] len assms(3) by simp
  moreover have "convert_loop (map mk_message ps) (length ps) (int 0) [] = Some ([] @ regions_of 0 ps)"
    using convert_messages [OF assms(1), of 0 "[]" "length ps"] len assms(3) by simp
  ultimately show ?thesis
    by (auto simp: seed_kept_def save_kl_messages_to_file_def convert_kl_messages_to_regions_def)
qed

text \<open>
  A file whose last piece is a single byte behind a complete message loses this byte.
\<close>

definition lone_last :: "byte list list \<Rightarrow> bool" where
  "lone_last ps \<longleftrightarrow> 2 \<le> length ps \<and> length (last ps) = 1"

definition saved_seed :: "byte list list \<Rightarrow> byte list" where
  "saved_seed ps = (if lone_last ps then butlast (concat ps) else concat ps)"

lemma drop_lone_seed:
  assumes "[] \<notin> set ps" "concat ps = file" "length file \<le> 33554432"
  shows "seed_kept file (Some (regions_of 0 (if length file = 1 then [file] else drop_lone ps))) (saved_seed ps)"
proof (cases "lone_last ps")
  case True
  then obtain c where c: "last ps = [c]" by (auto simp: lone_last_def length_Suc_conv)
  have ps: "ps = butlast ps @ [[c]]" using True c by (metis append_butlast_last_id length_0_conv lone_last_def not_numeral_le_zero)
  then have "concat (butlast ps @ [[c]]) = file" using assms(2) by metis
  then have fc: "file = concat (butlast ps) @ [c]" by simp
  have nb: "[] \<notin> set (butlast ps)" using assms(1) in_set_butlastD by metis
  have "1 \<le> length (butlast ps)" using True by (auto simp: lone_last_def)
  then obtain p qs where "butlast ps = p # qs" by (cases "butlast ps") auto
  then have "concat (butlast ps) \<noteq> []" using nb by auto
  then have "length file \<noteq> 1" using fc by simp
  moreover have "ps \<noteq> []" "length (last ps) = 1" using ps c by auto
  then have "drop_lone ps = butlast ps" by (simp add: drop_lone_def)
  moreover have "saved_seed ps = concat (butlast ps)" using True fc assms(2) by (simp add: saved_seed_def)
  ultimately show ?thesis using seed_kept_pieces [OF nb fc [symmetric] assms(3)] by simp
next
  case False
  then have sv: "saved_seed ps = file" using assms(2) by (simp add: saved_seed_def)
  show ?thesis
  proof (cases "length file = 1")
    case True
    then show ?thesis using seed_kept_pieces [of "[file]" "[]" "file"] assms(3) sv by (auto simp: length_Suc_conv)
  next
    case no: False
    have "ps = [] \<or> length (last ps) \<noteq> 1"
    proof (rule ccontr)
      assume "\<not> (ps = [] \<or> length (last ps) \<noteq> 1)"
      then have "ps \<noteq> []" "length (last ps) = 1" by simp_all
      moreover have "length ps = 1" using False calculation by (cases ps) (auto simp: lone_last_def Suc_le_eq)
      ultimately have "length (concat ps) = 1" by (auto simp: length_Suc_conv)
      then show False using no assms(2) by simp
    qed
    then have "drop_lone ps = ps" by (auto simp: drop_lone_def)
    then show ?thesis using seed_kept_pieces [of ps "[]" "file"] assms no sv by simp
  qed
qed

lemma saved_seed_messages:
  assumes "length file \<le> 33554432"
  shows "seed_kept file (Some (regions_of 0 (messages ends file))) (saved_seed (pieces ends [] file))"
  using drop_lone_seed [OF pieces_nonempty _ assms, of ends "[]"] by (simp add: messages_def)

text \<open>
  C30 (roundtrip): a seed file of at most 32 MiB that is cut into regions, read as messages and saved again
  comes out as follows. With the splitters of TLS and DICOM it is the same file. With those of SMTP, FTP,
  HTTP, RTSP, SIP, IPP and SSH it is the same file unless the last piece is a single byte behind a complete
  message; then exactly this byte is lost. In each case the regions of the saved messages are the regions
  they were read with. (The splitters of DNS and DTLS are not part of the statement.)
\<close>

theorem seed_roundtrip:
  assumes "small_buf (length file)"
  shows "seed_kept file (extract_requests_tls file (length file)) file
    \<and> seed_kept file (extract_requests_dicom file (length file)) file
    \<and> seed_kept file (extract_requests_smtp file (length file)) (saved_seed (pieces ends_crlf [] file))
    \<and> seed_kept file (extract_requests_ftp file (length file)) (saved_seed (pieces ends_crlf [] file))
    \<and> seed_kept file (extract_requests_http file (length file)) (saved_seed (pieces ends_crlf [] file))
    \<and> seed_kept file (extract_requests_rtsp file (length file)) (saved_seed (pieces ends_crlf2 [] file))
    \<and> seed_kept file (extract_requests_sip file (length file)) (saved_seed (pieces ends_sip [] file))
    \<and> seed_kept file (extract_requests_ipp file (length file)) (saved_seed (pieces ends_ipp [] file))
    \<and> seed_kept file (extract_requests_ssh file (length file)) (saved_seed (cut_by ssh_len file))"
proof -
  have small: "length file \<le> 33554432" by (rule small_bufD [OF assms])
  have k: "seed_kept file (Some (regions_of 0 (cut_by plen file))) file" for plen
    using seed_kept_pieces [of "cut_by plen file" "[]" "file"] cut_by_nonempty [of plen "file"] small by simp
  have ssh: "extract_requests_ssh file (length file) = Some (regions_of 0 (if length file = 1 then [file] else drop_lone (cut_by ssh_len file)))"
    using ssh_split.split_headers_cut [OF le_refl assms] by (simp add: extract_requests_ssh_def)
  show ?thesis
    unfolding extract_requests_smtp_def extract_requests_ftp_def extract_requests_http_def
      extract_requests_rtsp_def extract_requests_sip_def extract_requests_ipp_def
    using k tls_regions [OF le_refl assms] dicom_regions [OF le_refl assms] ssh drop_lone_seed [OF cut_by_nonempty _ small, of ssh_len]
      crlf.split_requests_messages [OF le_refl assms] crlf2.split_requests_messages [OF le_refl assms]
      sip_split.split_requests_messages [OF le_refl assms] ipp_split.split_requests_messages [OF le_refl assms]
      saved_seed_messages [OF small] by simp
qed

theorem seed_roundtrip_witness:
  "seed_kept (''NOOP'' @ [CR, LF] @ ''X'') (extract_requests_ftp (''NOOP'' @ [CR, LF] @ ''X'') 7) (''NOOP'' @ [CR, LF])
    \<and> seed_kept (''NOOP'' @ [CR, LF]) (extract_requests_ftp (''NOOP'' @ [CR, LF]) 6) (''NOOP'' @ [CR, LF])"
proof -
  have l: "length (''NOOP'' @ [CR, LF] @ ''X'') = 7" "length (''NOOP'' @ [CR, LF]) = 6" by simp_all
  have p: "saved_seed (pieces ends_crlf [] (''NOOP'' @ [CR, LF] @ ''X'')) = ''NOOP'' @ [CR, LF]"
    "saved_seed (pieces ends_crlf [] (''NOOP'' @ [CR, LF])) = ''NOOP'' @ [CR, LF]" by code_simp+
  have "small_buf 7" "small_buf 6" by (simp_all add: small_buf_def)
  then show ?thesis
    using seed_roundtrip [of "''NOOP'' @ [CR, LF] @ ''X''", unfolded l p] seed_roundtrip [of "''NOOP'' @ [CR, LF]", unfolded l p] by blast
qed

text \<open>
  The messages up to the snapshot and those behind it are together all messages,
  in order; and from a replay file the replayer gets exactly the messages that were saved.
\<close>

lemma messages_split_replay:
  assumes "[] \<notin> set ps" and "length (concat ps) \<le> 33554432" and "i < length ps"
  shows "(\<exists>m1 m2. construct_kl_messages_mx (map mk_message ps) i 1 = Some m1
        \<and> construct_kl_messages_mx (map mk_message ps) i 2 = Some m2
        \<and> m1 @ m2 = map mk_message ps \<and> length m1 = i + 1)
    \<and> (\<exists>file n. save_kl_messages_to_file (map mk_message ps) [] True (length ps) = Some (file, n)
        \<and> replay_packets file = Some ps)"
proof -
  have sub: "[] \<notin> set (take k ps)" "[] \<notin> set (drop k ps)" for k
    using assms(1) in_set_takeD in_set_dropD by fastforce+
  have "length (concat (take k ps)) + length (concat (drop k ps)) = length (concat ps)" for k
    by (metis append_take_drop_id concat_append length_append)
  then have len: "length (concat (take k ps)) \<le> 33554432" "length (concat (drop k ps)) \<le> 33554432" for k
    using assms(2) by (metis le_add1 le_trans, metis le_add2 le_trans)
  have mx: "construct_kl_messages_mx (map mk_message ps) i 1 = Some (map mk_message (take (i + 1) ps))"
      "construct_kl_messages_mx (map mk_message ps) i 2 = Some (map mk_message (drop (i + 1) ps))"
    using copy_messages_id [OF sub(1) len(1), of "i + 1"] copy_messages_id [OF sub(2) len(2), of "i + 1"] assms(3)
    by (simp_all add: construct_kl_messages_mx_def take_map drop_map)
  have "save_loop (map mk_message ps) True (length ps) [] = Some (concat (map (\<lambda>p. le32 (length p) @ p) ps))"
    using save_messages(2) [of "[]" ps "length ps"] length_pieces [OF assms(1)] assms(2) by simp
  moreover have "length p \<le> length (concat ps)" if "p \<in> set ps" for p
    using that by (induction ps) auto
  then have "list_all (\<lambda>p. length p \<le> 1073741824) ps" using assms(2) by (fastforce simp: list_all_iff)
  ultimately have "\<exists>file n. save_kl_messages_to_file (map mk_message ps) [] True (length ps) = Some (file, n)
        \<and> replay_packets file = Some ps"
    using replay_saved [of ps] by (auto simp: save_kl_messages_to_file_def)
  moreover have "length (map mk_message (take (i + 1) ps)) = i + 1" using assms(3) by simp
  moreover have "map mk_message (take (i + 1) ps) @ map mk_message (drop (i + 1) ps) = map mk_message ps"
    by (metis append_take_drop_id map_append)
  ultimately show ?thesis using mx by blast
qed

lemma messages_split_replay_sample:
  "\<exists>file n. save_kl_messages_to_file (map mk_message [''USER'', ''QUIT'']) [] True 2 = Some (file, n)
     \<and> replay_packets file = Some [''USER'', ''QUIT'']"
  using conjunct2 [OF messages_split_replay [of "[''USER'', ''QUIT'']" 0]] by (simp add: numeral_2_eq_2)

end
