(* ===== verification/Aflnet_Util.thy ===== *)
theory Aflnet_Util
  imports Aflnet_Alloc Adapter
begin

text \<open>
  The network and text helpers of \<open>aflnet.c\<close>. What \<open>poll\<close>, \<open>send\<close> and \<open>recv\<close> return is an argument,
  one value for each call.
\<close>

section \<open>Sending\<close>

datatype send_result = Sent nat | Send_failed

text \<open>\<open>send\<close> is never given more than the rest and does not report more: \<open>Sent k\<close> counts as that rest at most.\<close>

fun send_loop :: "send_result list \<Rightarrow> nat \<Rightarrow> nat \<Rightarrow> int option" where
  "send_loop rs byte_count len =
     (if byte_count < len then
        (case rs of
           [] \<Rightarrow> None
         | Send_failed # _ \<Rightarrow> Some (-1)
         | Sent n # rs' \<Rightarrow>
             let n = min n (len - byte_count) in
             if n = 0 then Some (int byte_count) else send_loop rs' (byte_count + n) len)
      else Some (int byte_count))"

declare send_loop.simps [simp del]

text \<open>\<open>writable\<close>: \<open>poll\<close> returned a positive number and \<open>POLLOUT\<close> is set.\<close>

definition net_send :: "bool \<Rightarrow> send_result list \<Rightarrow> nat \<Rightarrow> int option" where
  "net_send writable rs len = (if writable then send_loop rs 0 len else Some 0)"

section \<open>Receiving\<close>

datatype poll_result = Readable | Other_event | Timed_out | Poll_interrupted | Poll_failed

text \<open>A result of \<open>recv\<close>: bytes, end of the stream, a timeout or interrupt, another error.\<close>

datatype recv_result = Received "byte list" | Closed | Recv_again | Recv_failed

text \<open>
  The receive loop. \<open>obj\<close> is the object \<open>*response_buf\<close> and \<open>len\<close> the number of bytes received; the
  array \<open>temp_buf\<close> takes up to 1000 bytes of a call. When the list of results ends, the receive
  timeout has passed.
\<close>

fun recv_loop :: "recv_result list \<Rightarrow> byte list \<Rightarrow> nat \<Rightarrow> (int \<times> byte list \<times> nat) option" where
  "recv_loop [] obj len = Some (0, obj, len)"
| "recv_loop (Recv_again # rs) obj len = Some (0, obj, len)"
| "recv_loop (Closed # rs) obj len = Some (0, obj, len)"
| "recv_loop (Recv_failed # rs) obj len = Some (1, obj, len)"
| "recv_loop (Received d # rs) obj len =
     (if d = [] then Some (0, obj, len)
      else let n = length (take 1000 d) in do {
        obj1 \<leftarrow> ck_realloc obj (len + n + 1);
        recv_loop rs (take len obj1 @ take 1000 d @ [NUL]) (len + n)
      })"

fun net_recv :: "poll_result list \<Rightarrow> recv_result list \<Rightarrow> byte list \<Rightarrow> nat \<Rightarrow> (int \<times> byte list \<times> nat) option" where
  "net_recv [] rs obj len = None"
| "net_recv (Poll_interrupted # ps) rs obj len = net_recv ps rs obj len"
| "net_recv (Poll_failed # ps) rs obj len = Some (1, obj, len)"
| "net_recv (Timed_out # ps) rs obj len = Some (0, obj, len)"
| "net_recv (Other_event # ps) rs obj len = Some (0, obj, len)"
| "net_recv (Readable # ps) rs obj len = recv_loop rs obj len"

section \<open>Text\<close>

text \<open>\<open>save_regions_to_file\<close>: what it writes; \<open>O_EXCL\<close> makes it return when the file exists.\<close>

definition save_regions_to_file :: "region_t list \<Rightarrow> string option \<Rightarrow> string option" where
  "save_regions_to_file regions old = (case old of
       Some f \<Rightarrow> Some f
     | None \<Rightarrow> Some (concat (map (\<lambda>i. ''Region '' @ sdec (int i) @ '' - Start: '' @ sdec (start_byte (regions ! i))
         @ '', End: '' @ sdec (end_byte (regions ! i)) @ [LF]) [0..<length regions])))"

text \<open>All results of \<open>strtok\<close> on a string: the non-empty pieces between delimiters.\<close>

fun strtok_all :: "string \<Rightarrow> string \<Rightarrow> string \<Rightarrow> string list" where
  "strtok_all delim acc [] = (if acc = [] then [] else [rev acc])"
| "strtok_all delim acc (c # s) =
     (if c \<in> set delim then (if acc = [] then strtok_all delim [] s else rev acc # strtok_all delim [] s)
      else strtok_all delim (c # acc) s)"

definition str_split :: "string \<Rightarrow> string \<Rightarrow> nat \<Rightarrow> string list option" where
  "str_split a_str a_delim a_count =
     (let tokens = strtok_all a_delim [] a_str in if length tokens \<noteq> a_count then None else Some tokens)"

text \<open>\<open>str_rtrim\<close> cuts the string in the array at the first blank; without a NUL in the array \<open>strlen\<close> leaves it.\<close>

definition str_rtrim :: "cptr \<Rightarrow> cptr option" where
  "str_rtrim p = do {
     s \<leftarrow> cstr p;
     let n = length (takeWhile (\<lambda>c. c \<notin> {LF, CHR 0x09, CHR '' ''}) s);
     Some (if n < length s then p[n := NUL] else p)
   }"

datatype net_protocol = PRO_TCP | PRO_UDP

text \<open>
  \<open>stack\<close> is what the array \<open>buf\<close> of 80 bytes holds before \<open>strncpy\<close> copies the characters of the
  argument, without a terminator, into it. The result is \<open>Some None\<close> for the return value 1.
\<close>

definition parse_net_config :: "byte list \<Rightarrow> string \<Rightarrow> (net_protocol \<times> string \<times> 32 word) option option" where
  "parse_net_config stack net_config =
     (if length net_config > 80 then Some None
      else do {
        buf \<leftarrow> str_rtrim (net_config @ drop (length net_config) stack);
        s \<leftarrow> cstr buf;
        Some (case str_split s ''/'' 3 of
            None \<Rightarrow> None
          | Some tokens \<Rightarrow>
              let port = word_of_int (atoi_str (tokens ! 2)) in
              if tokens ! 0 = ''tcp:'' then (if port = 0 then None else Some (PRO_TCP, tokens ! 1, port))
              else if tokens ! 0 = ''udp:'' then (if port = 0 then None else Some (PRO_UDP, tokens ! 1, port))
              else None)
      })"

definition STATE_STR_LEN :: nat where
  "STATE_STR_LEN = 12"

definition state_str :: "32 word \<Rightarrow> string \<Rightarrow> string" where
  "state_str stateID sep = snprintf [] STATE_STR_LEN (sdec (sint stateID) @ sep)"

text \<open>The loop of \<open>state_sequence_to_string\<close>: a state that repeats its two predecessors is left out.\<close>

function state_loop :: "32 word list \<Rightarrow> nat \<Rightarrow> string \<Rightarrow> string" where
  "state_loop stateSequence i out =
     (if i < length stateSequence then
        if i \<ge> 2 \<and> stateSequence ! i = stateSequence ! (i - 1) \<and> stateSequence ! i = stateSequence ! (i - 2)
        then state_loop stateSequence (i + 1) out
        else
          let out1 = out @ state_str (stateSequence ! i) (if i = length stateSequence - 1 then [] else ''-'') in
          if length out1 > 150 \<and> i + 1 < length stateSequence
          then out1 @ snprintf [] STATE_STR_LEN ''end-at-'' @ state_str (last stateSequence) []
          else state_loop stateSequence (i + 1) out1
      else out)"
  by pat_completeness auto
termination
  by (relation "measure (\<lambda>(s, i, out). length s - i)") auto

declare state_loop.simps [simp del]

text \<open>\<open>NULL\<close> for the empty sequence.\<close>

definition state_sequence_to_string :: "32 word list \<Rightarrow> string option" where
  "state_sequence_to_string stateSequence =
     (if stateSequence = [] then None else Some (state_loop stateSequence 0 []))"

section \<open>What is received\<close>

text \<open>The buffer between two calls: not allocated, or the bytes received so far and a NUL.\<close>

definition response_object :: "byte list \<Rightarrow> byte list \<Rightarrow> nat \<Rightarrow> bool" where
  "response_object r obj len \<longleftrightarrow> len = length r \<and> (if r = [] then obj = [] \<or> obj = [NUL] else obj = r @ [NUL])"

fun received_bytes :: "recv_result list \<Rightarrow> byte list" where
  "received_bytes (Received d # rs) = (if d = [] then [] else take 1000 d @ received_bytes rs)"
| "received_bytes _ = []"

lemma recv_loop_bytes:
  assumes "response_object r obj len" and "len + length (received_bytes rs) < 1073741824"
  shows "\<exists>rc obj' len'. recv_loop rs obj len = Some (rc, obj', len') \<and> response_object (r @ received_bytes rs) obj' len'"
  using assms
proof (induction rs obj len arbitrary: r rule: recv_loop.induct)
  case (5 d rs obj len)
  show ?case
  proof (cases "d = []")
    case False
    have l: "len = length r" "take len obj = r" using 5(2) by (auto simp: response_object_def split: if_splits)
    let ?n = "length (take 1000 d)"
    have "len + ?n + 1 \<le> 1073741824" using 5(3) False by simp
    then have a: "ck_realloc obj (len + ?n + 1) = Some (take (len + ?n + 1) obj @ replicate (len + ?n + 1 - length obj) NUL)"
      by (simp add: ck_realloc_def MAX_ALLOC_def)
    have t: "take len (take (len + ?n + 1) obj @ replicate (len + ?n + 1 - length obj) NUL) = r"
    proof -
      have "length r \<le> length obj" using l by (metis length_take min.cobounded1)
      then show ?thesis using l by simp
    qed
    have ro: "response_object (r @ take 1000 d) (r @ take 1000 d @ [NUL]) (len + ?n)"
      using l(1) False by (simp add: response_object_def)
    have "recv_loop (Received d # rs) obj len = recv_loop rs (r @ take 1000 d @ [NUL]) (len + ?n)"
      unfolding recv_loop.simps Let_def a using False by (simp only: if_False bind.bind_lunit t)
    moreover have "\<exists>rc obj' len'. recv_loop rs (r @ take 1000 d @ [NUL]) (len + ?n) = Some (rc, obj', len')
        \<and> response_object ((r @ take 1000 d) @ received_bytes rs) obj' len'"
      using "5.IH" [OF False refl a, of "r @ take 1000 d"] ro 5(3) False unfolding t by simp
    ultimately show ?thesis using False by simp
  qed (use 5 in auto)
qed auto

lemma response_object_NUL: "response_object r obj len \<Longrightarrow> 0 < len \<Longrightarrow> take len obj = r \<and> drop len obj = [NUL]"
  by (auto simp: response_object_def split: if_splits)

lemma net_recv_results:
  "\<exists>p \<in> set ps. p \<noteq> Poll_interrupted \<Longrightarrow>
   net_recv ps rs obj len = recv_loop rs obj len \<or> (\<exists>rc. net_recv ps rs obj len = Some (rc, obj, len))"
proof (induction ps)
  case (Cons p ps)
  then show ?case by (cases p) auto
qed simp

text \<open>
  Receiving never loses or overwrites a byte. Unless every \<open>poll\<close> is interrupted,
  \<open>net_recv\<close> returns; the buffer then holds what it held before, followed by everything received up to
  the first call that brought nothing, and behind the last byte there is a NUL, as the predicate
  adapters need it.
\<close>

lemma net_recv_terminated:
  assumes "response_object r obj len" and "len + length (received_bytes rs) < 2 ^ 30"
    and "\<exists>p \<in> set ps. p \<noteq> Poll_interrupted"
  shows "\<exists>rc obj' len' d. net_recv ps rs obj len = Some (rc, obj', len') \<and> response_object (r @ d) obj' len'
    \<and> d \<in> {[], received_bytes rs} \<and> (0 < len' \<longrightarrow> take len' obj' = r @ d \<and> drop len' obj' = [NUL])"
proof -
  from assms(2) have "len + length (received_bytes rs) < 1073741824" by simp
  from recv_loop_bytes [OF assms(1) this] obtain rc obj' len'
    where l: "recv_loop rs obj len = Some (rc, obj', len')" "response_object (r @ received_bytes rs) obj' len'" by blast
  from net_recv_results [OF assms(3), of rs obj len]
  have "\<exists>rc obj' len' d. net_recv ps rs obj len = Some (rc, obj', len') \<and> response_object (r @ d) obj' len'
    \<and> d \<in> {[], received_bytes rs}"
  proof
    assume "net_recv ps rs obj len = recv_loop rs obj len"
    with l show ?thesis by auto
  next
    assume "\<exists>rc. net_recv ps rs obj len = Some (rc, obj, len)"
    with assms(1) show ?thesis by (metis append_Nil2 insertI1)
  qed
  then show ?thesis using response_object_NUL by blast
qed

lemma net_recv_terminated_sample:
  "\<exists>rc obj' len'. net_recv [Poll_interrupted, Readable] [Received ''220 hi''] [] 0 = Some (rc, obj', len')
     \<and> take len' obj' = ''220 hi'' \<and> drop len' obj' = [NUL]"
  using net_recv_terminated [of "[]" "[]" 0 "[Received ''220 hi'']" "[Poll_interrupted, Readable]"]
  by (simp add: response_object_def ck_realloc_def MAX_ALLOC_def)

section \<open>The target address\<close>

lemma strtok_all_word: "set w \<inter> set delim = {} \<Longrightarrow> strtok_all delim acc (w @ s) = strtok_all delim (rev w @ acc) s"
  by (induction w arbitrary: acc) auto

lemma scan_digits_fold:
  "list_all isdigit ds \<Longrightarrow> \<not> isdigit c \<Longrightarrow> scan_digits acc (ds @ c # p) = Some (fold (\<lambda>c v. 10 * v + (int (bval c) - 48)) ds acc)"
  by (induction ds arbitrary: acc) auto

lemma atoi_udec: "n < 2147483648 \<Longrightarrow> atoi_str (udec n) = int n"
proof -
  assume n: "n < 2147483648"
  obtain c ds where u: "udec n = c # ds" by (cases "udec n") auto
  have c: "isdigit c" "c \<noteq> CHR ''-''" "c \<noteq> CHR ''+''" "\<not> isspace c"
    using udec_digits [of c n] u by (auto simp: isdigit_def isspace_def bval_def)
  have "list_all isdigit (udec n)" using udec_digits by (auto simp: list_all_iff)
  then have "scan_digits 0 (udec n @ [NUL]) = Some (int n)" using digits_udec(2) [of n] by (simp add: scan_digits_fold)
  then have "atoi (udec n @ [NUL]) = Some (to_int32 (clamp_long (int n)))" using c u by (simp add: atoi_def rd_def)
  then show ?thesis using n by (simp add: atoi_str_def clamp_long_def)
qed

text \<open>
  An address in the documented form is read correctly when the byte that happens to follow it in the
  array is a NUL; \<open>strncpy\<close> is given the length of the argument and writes none.
\<close>

lemma parse_net_config_address:
  assumes "net_config = ''tcp://'' @ ip @ ''/'' @ udec port" and "length net_config < 80" and "length stack = 80"
    and "stack ! length net_config = NUL" and "ip \<noteq> []" and "\<forall>c \<in> set ip. plain c \<and> c \<noteq> CHR ''/''"
    and "0 < port" and "port < 65536"
  shows "parse_net_config stack net_config = Some (Some (PRO_TCP, ip, word_of_nat port))"
proof -
  have p: "\<forall>c \<in> set net_config. plain c"
    using assms(6) udec_plain [of port] by (auto simp: assms(1) plain_def bval_def)
  then have np: "NUL \<notin> set net_config" "\<forall>c \<in> set net_config. c \<notin> {LF, CHR 0x09, CHR '' ''}"
    by (auto simp: plain_def bval_def)
  have d: "drop (length net_config) stack = NUL # drop (Suc (length net_config)) stack"
    using assms(2-4) by (simp add: Cons_nth_drop_Suc [symmetric])
  let ?b = "net_config @ NUL # drop (Suc (length net_config)) stack"
  have c: "cstr ?b = Some net_config" using np(1) by (simp add: cstr_def)
  have w: "takeWhile (\<lambda>c. c \<notin> {LF, CHR 0x09, CHR '' ''}) net_config = net_config" using np(2) by (simp only: takeWhile_eq_all_conv)
  have t: "str_rtrim ?b = Some ?b" unfolding str_rtrim_def c bind.bind_lunit Let_def w by simp
  have dig: "set (udec port) \<inter> set ''/'' = {}" using udec_digits [of "CHR ''/''" port] by (auto simp: isdigit_def bval_def)
  have ipd: "set ip \<inter> set ''/'' = {}" using assms(6) by auto
  have "strtok_all ''/'' [] net_config = [''tcp:'', ip, udec port]"
    using strtok_all_word [OF ipd, of "[]"] strtok_all_word [OF dig, of "[]" "[]"] assms(5) by (simp add: assms(1))
  then have s: "str_split net_config ''/'' 3 = Some [''tcp:'', ip, udec port]" by (simp add: str_split_def)
  have "(word_of_nat port :: 32 word) \<noteq> 0" using assms(7,8) by (simp add: word_of_nat_eq_0_iff) (auto dest: dvd_imp_le)
  then show ?thesis using assms(2,8) unfolding parse_net_config_def d t by (simp add: c s atoi_udec)
qed

text \<open>Another byte there becomes part of the port, and without any NUL the scan leaves the array.\<close>

lemma parse_net_config_stale:
  "parse_net_config (replicate 16 NUL @ CHR ''7'' # replicate 63 NUL) ''tcp://1.2.3.4/21'' = Some (Some (PRO_TCP, ''1.2.3.4'', 217))"
  "parse_net_config (replicate 80 CHR ''7'') ''tcp://1.2.3.4/21'' = None"
  by (simp_all add: parse_net_config_def str_rtrim_def cstr_def cstr_of_def str_split_def atoi_str_def atoi_def rd_def
      isspace_def isdigit_def bval_def clamp_long_def)

section \<open>State strings\<close>

lemma length_state_str: "length (state_str st sep) \<le> 11"
  by (simp add: state_str_def STATE_STR_LEN_def snprintf_def)

lemma length_state_loop: "length out \<le> 150 \<or> length out \<le> 161 \<and> length seq \<le> i \<Longrightarrow> length (state_loop seq i out) \<le> 179"
proof (induction seq i out rule: state_loop.induct)
  case (1 seq i out)
  let ?out = "out @ state_str (seq ! i) (if i = length seq - 1 then [] else ''-'')"
  have l: "length ?out \<le> length out + 11" using length_state_str [of "seq ! i"] by simp
  show ?case
  proof (cases "i < length seq")
    case True
    then have o: "length out \<le> 150" using 1(3) by simp
    consider (skip) "i \<ge> 2 \<and> seq ! i = seq ! (i - 1) \<and> seq ! i = seq ! (i - 2)"
      | (stop) "\<not> (i \<ge> 2 \<and> seq ! i = seq ! (i - 1) \<and> seq ! i = seq ! (i - 2))" "length ?out > 150 \<and> i + 1 < length seq"
      | (go) "\<not> (i \<ge> 2 \<and> seq ! i = seq ! (i - 1) \<and> seq ! i = seq ! (i - 2))" "\<not> (length ?out > 150 \<and> i + 1 < length seq)"
      by blast
    then show ?thesis
    proof cases
      case skip
      then have "state_loop seq i out = state_loop seq (i + 1) out"
        unfolding state_loop.simps [of seq i] if_P [OF True] by (rule if_P)
      with 1(1) [OF True skip] o show ?thesis by simp
    next
      case stop
      have "length (snprintf [] STATE_STR_LEN ''end-at-'') = 7" by (simp add: snprintf_def STATE_STR_LEN_def)
      moreover have "state_loop seq i out = ?out @ snprintf [] STATE_STR_LEN ''end-at-'' @ state_str (last seq) []"
        unfolding state_loop.simps [of seq i] Let_def using True stop by (simp only: if_True if_False simp_thms)
      ultimately show ?thesis using l o length_state_str [of "last seq" "[]"] by simp
    next
      case go
      have "state_loop seq i out = state_loop seq (i + 1) ?out"
        unfolding state_loop.simps [of seq i] Let_def using True go by (simp only: if_True if_False simp_thms)
      moreover have "length ?out \<le> 150 \<or> length ?out \<le> 161 \<and> length seq \<le> i + 1" using go(2) l o by linarith
      ultimately show ?thesis using 1(2) [OF True go(1) refl go(2)] by simp
    qed
  next
    case False
    then show ?thesis using 1(3) by (subst state_loop.simps) auto
  qed
qed

text \<open>
  The string made of a state sequence, which becomes part of a file name, is never
  longer than 179 characters, however long the sequence is and whatever the states are.
\<close>

lemma state_string_bounded:
  "length (case state_sequence_to_string states of None \<Rightarrow> [] | Some s \<Rightarrow> s) \<le> 179"
  using length_state_loop [of "[]" states 0] by (simp add: state_sequence_to_string_def)

end
