(* ===== verification/Bit_Vector.thy ===== *)
theory Bit_Vector
  imports C_Prelude
begin

text \<open>
  \<open>evaluator-src/bitvector.cpp\<close>: a set of node numbers packed into 32 bit words. The size is the
  number of nodes of a formula, a non-negative \<open>int\<close>, so \<open>size + 31\<close> does not wrap; under \<open>bv_wf\<close>,
  which the constructor establishes and all operations keep, every word access is inside the array.
  The copy constructor and the assignment copy the whole array and are the identity on values.
  The interface other components use is the locale \<open>bit_store\<close>.
\<close>

section \<open>The operations\<close>

record BitVector =
  bv :: "32 word list"
  whole_sz :: nat
  sz :: nat

definition clear_bv :: "BitVector \<Rightarrow> BitVector" where
  "clear_bv b = b\<lparr>bv := replicate (whole_sz b) 0\<rparr>"

definition new_BitVector :: "nat \<Rightarrow> BitVector" where
  "new_BitVector n = (let whole = (n + 31) div 32 in
     clear_bv \<lparr>bv = replicate whole 0, whole_sz = whole, sz = n\<rparr>)"

definition bv_set :: "BitVector \<Rightarrow> nat \<Rightarrow> BitVector" where
  "bv_set b index =
     (if index \<ge> sz b then b
      else b\<lparr>bv := (bv b)[index div 32 := bv b ! (index div 32) OR push_bit (index mod 32) 1]\<rparr>)"

definition bv_clear :: "BitVector \<Rightarrow> nat \<Rightarrow> BitVector" where
  "bv_clear b index =
     (if index \<ge> sz b then b
      else b\<lparr>bv := (bv b)[index div 32 := bv b ! (index div 32) AND NOT (push_bit (index mod 32) 1)]\<rparr>)"

definition bv_test :: "BitVector \<Rightarrow> nat \<Rightarrow> bool" where
  "bv_test b index =
     (if index \<ge> sz b then False
      else bv b ! (index div 32) AND push_bit (index mod 32) 1 \<noteq> 0)"

definition get_size :: "BitVector \<Rightarrow> nat" where
  "get_size b = sz b"

section \<open>The interface\<close>

locale bit_store =
  fixes mk :: "nat \<Rightarrow> 'b"
    and wf :: "'b \<Rightarrow> bool"
    and cap :: "'b \<Rightarrow> nat"
    and st un :: "'b \<Rightarrow> nat \<Rightarrow> 'b"
    and wipe :: "'b \<Rightarrow> 'b"
    and tst :: "'b \<Rightarrow> nat \<Rightarrow> bool"
  assumes mk: "wf (mk n)" "cap (mk n) = n" "\<not> tst (mk n) i"
    and wf_st: "wf b \<Longrightarrow> wf (st b i)" and cap_st: "cap (st b i) = cap b"
    and wf_un: "wf b \<Longrightarrow> wf (un b i)" and cap_un: "cap (un b i) = cap b"
    and wf_wipe: "wf b \<Longrightarrow> wf (wipe b)" and cap_wipe: "cap (wipe b) = cap b"
    and tst_out: "cap b \<le> i \<Longrightarrow> \<not> tst b i"
    and tst_st: "wf b \<Longrightarrow> tst (st b i) j \<longleftrightarrow> tst b j \<or> (j = i \<and> i < cap b)"
    and tst_un: "wf b \<Longrightarrow> tst (un b i) j \<longleftrightarrow> tst b j \<and> j \<noteq> i"
    and tst_wipe: "wf b \<Longrightarrow> \<not> tst (wipe b) i"
begin

definition elems :: "'b \<Rightarrow> nat set" where
  "elems b = {i. tst b i}"

lemma elems_bounded: "elems b \<subseteq> {..<cap b}"
  using tst_out by (force simp: elems_def not_less [symmetric])

lemma elems_st: "wf b \<Longrightarrow> i < cap b \<Longrightarrow> elems (st b i) = insert i (elems b)"
  by (auto simp: elems_def tst_st)

lemma elems_un: "wf b \<Longrightarrow> elems (un b i) = elems b - {i}"
  by (auto simp: elems_def tst_un)

lemma elems_wipe: "wf b \<Longrightarrow> elems (wipe b) = {}"
  by (auto simp: elems_def tst_wipe)

lemma elems_mk: "elems (mk n) = {}"
  by (auto simp: elems_def mk)

lemma tst_elems: "tst b i \<longleftrightarrow> i \<in> elems b"
  by (simp add: elems_def)

text \<open>A conditional store, as a client makes it for every node.\<close>

lemma st_if:
  assumes "wf b" and "i < cap b"
  shows "wf (if c then st b i else b)" and "cap (if c then st b i else b) = cap b"
    and "elems (if c then st b i else b) = elems b \<union> (if c then {i} else {})"
  using assms by (auto simp: wf_st cap_st elems_st)

end

section \<open>The packed words implement it\<close>

definition bv_wf :: "BitVector \<Rightarrow> bool" where
  "bv_wf b \<longleftrightarrow> whole_sz b = (sz b + 31) div 32 \<and> length (bv b) = whole_sz b"

lemma word_in_range: "bv_wf b \<Longrightarrow> i < sz b \<Longrightarrow> i div 32 < length (bv b)"
  by (simp add: bv_wf_def)

lemma bv_test_iff: "bv_test b i \<longleftrightarrow> i < sz b \<and> bit (bv b ! (i div 32)) (i mod 32)"
  by (simp add: bv_test_def push_bit_eq_mult and_exp_eq_0_iff_not_bit not_le)

lemma div_mod_32: "i = j \<longleftrightarrow> i div 32 = j div 32 \<and> i mod 32 = j mod (32 :: nat)"
  by (metis div_mult_mod_eq)

interpretation bits: bit_store new_BitVector bv_wf sz bv_set bv_clear clear_bv bv_test
proof unfold_locales
  show "bv_test (bv_set b i) j \<longleftrightarrow> bv_test b j \<or> (j = i \<and> i < sz b)" if "bv_wf b" for b i j
    using word_in_range [OF that, of i] div_mod_32 [of j i]
    by (auto simp: bv_test_iff bv_set_def nth_list_update bit_simps)
  show "bv_test (bv_clear b i) j \<longleftrightarrow> bv_test b j \<and> j \<noteq> i" if "bv_wf b" for b i j
    using word_in_range [OF that, of i] div_mod_32 [of j i]
    by (auto simp: bv_test_iff bv_clear_def nth_list_update bit_simps)
  show "\<not> bv_test (clear_bv b) i" if "bv_wf b" for b i
    using word_in_range [OF that, of i] that by (auto simp: bv_test_iff clear_bv_def bv_wf_def)
qed (auto simp: new_BitVector_def clear_bv_def bv_wf_def bv_set_def bv_clear_def bv_test_iff Let_def)

section \<open>Sequences of operations\<close>

datatype bv_op = Set nat | Clear nat | Clear_all

fun apply_op :: "BitVector \<Rightarrow> bv_op \<Rightarrow> BitVector" where
  "apply_op b (Set i) = bv_set b i"
| "apply_op b (Clear i) = bv_clear b i"
| "apply_op b Clear_all = clear_bv b"

fun set_op :: "nat \<Rightarrow> nat set \<Rightarrow> bv_op \<Rightarrow> nat set" where
  "set_op n s (Set i) = (if i < n then insert i s else s)"
| "set_op n s (Clear i) = s - {i}"
| "set_op n s Clear_all = {}"

lemma apply_op_step:
  assumes "bv_wf b"
  shows "bv_wf (apply_op b p)" and "sz (apply_op b p) = sz b"
    and "bits.elems (apply_op b p) = set_op (sz b) (bits.elems b) p"
proof -
  have out: "bv_set b i = b" if "\<not> i < sz b" for i using that by (simp add: bv_set_def)
  show "bv_wf (apply_op b p)" using assms by (cases p) (simp_all add: bits.wf_st bits.wf_un bits.wf_wipe)
  show "sz (apply_op b p) = sz b" by (cases p) (simp_all add: bits.cap_st bits.cap_un bits.cap_wipe)
  show "bits.elems (apply_op b p) = set_op (sz b) (bits.elems b) p"
    using assms out by (cases p) (simp_all add: bits.elems_st bits.elems_un bits.elems_wipe)
qed

lemma apply_ops:
  "bv_wf b \<Longrightarrow> bv_wf (fold (\<lambda>p b. apply_op b p) ps b) \<and> sz (fold (\<lambda>p b. apply_op b p) ps b) = sz b
    \<and> bits.elems (fold (\<lambda>p b. apply_op b p) ps b) = fold (\<lambda>p s. set_op (sz b) s p) ps (bits.elems b)"
  by (induction ps arbitrary: b) (simp_all add: apply_op_step)

text \<open>
  A bit vector of \<open>n\<close> bits behaves as a subset of \<open>{0..<n}\<close>, initially empty, under
  any sequence of operations: setting adds an element when it is below \<open>n\<close> and changes nothing
  otherwise, clearing removes one, \<open>clear_bv\<close> removes all, and \<open>test\<close> is membership.
\<close>

lemma bitvector_refines_set:
  "bv_test (fold (\<lambda>p b. apply_op b p) ps (new_BitVector n)) i \<longleftrightarrow> i \<in> fold (\<lambda>p s. set_op n s p) ps {}"
  using apply_ops [OF bits.mk(1) [of n], of ps] by (simp add: bits.tst_elems bits.mk(2) bits.elems_mk)

end
