(* ===== verification/Ltl_Spec.thy ===== *)
theory Ltl_Spec
  imports Pred_Line "HOL-Library.Char_ord" "HOL-Library.List_Lexorder"
begin

text \<open>
  The specification side of the evaluator: the syntax trees the parser builds (\<open>ast.h\<close>), the
  numbering of their nodes (\<open>preprocess.cpp\<close>), the type checker (\<open>typechecker.cpp\<close>) and the label
  state of one event (\<open>state.cpp\<close>). The grammar gives every operator its children, so a node holds
  them directly. A failed \<open>assert\<close> and an uncaught exception end the evaluator: the value
  \<^const>\<open>None\<close>. The tree of a specification has fewer than \<open>2 ^ 31\<close> nodes, so node numbers do not overflow.
\<close>

section \<open>Syntax trees\<close>

datatype ASTNode =
    AST_ARROW (serial_number: int) (binary_left: ASTNode) (binary_right: ASTNode)
  | AST_NOT (serial_number: int) (unary_child: ASTNode)
  | AST_AND (serial_number: int) (binary_left: ASTNode) (binary_right: ASTNode)
  | AST_OR (serial_number: int) (binary_left: ASTNode) (binary_right: ASTNode)
  | AST_BOOL (serial_number: int) (bool_value: bool)
  | AST_ID (serial_number: int) (id_name: string)
  | AST_INT (serial_number: int) (int_value: int)
  | AST_GT (serial_number: int) (binary_left: ASTNode) (binary_right: ASTNode)
  | AST_GTE (serial_number: int) (binary_left: ASTNode) (binary_right: ASTNode)
  | AST_LT (serial_number: int) (binary_left: ASTNode) (binary_right: ASTNode)
  | AST_LTE (serial_number: int) (binary_left: ASTNode) (binary_right: ASTNode)
  | AST_EQ (serial_number: int) (binary_left: ASTNode) (binary_right: ASTNode)
  | AST_NEQ (serial_number: int) (binary_left: ASTNode) (binary_right: ASTNode)
  | AST_O (serial_number: int) (unary_child: ASTNode)
  | AST_H (serial_number: int) (unary_child: ASTNode)
  | AST_S (serial_number: int) (binary_left: ASTNode) (binary_right: ASTNode)
  | AST_Y (serial_number: int) (unary_child: ASTNode)

datatype TypeAnnotation =
    AST_ENUM (enum_name: string) (enum_values: "string list")
  | AST_INT_TYPE (int_type_name: string)
  | AST_BOOL_TYPE (bool_type_name: string)

type_synonym Spec = "TypeAnnotation list \<times> ASTNode list"

text \<open>
  The formulas the grammar derives: a comparison has an identifier on its left and a \<open>TERM\<close> on its
  right, and an identifier alone is no formula.
\<close>

fun is_TERM :: "ASTNode \<Rightarrow> bool" where
  "is_TERM (AST_ID _ _) = True"
| "is_TERM (AST_INT _ _) = True"
| "is_TERM (AST_BOOL _ _) = True"
| "is_TERM _ = False"

fun is_Formula :: "ASTNode \<Rightarrow> bool" where
  "is_Formula (AST_ARROW _ f g) = (is_Formula f \<and> is_Formula g)"
| "is_Formula (AST_AND _ f g) = (is_Formula f \<and> is_Formula g)"
| "is_Formula (AST_OR _ f g) = (is_Formula f \<and> is_Formula g)"
| "is_Formula (AST_S _ f g) = (is_Formula f \<and> is_Formula g)"
| "is_Formula (AST_NOT _ f) = is_Formula f"
| "is_Formula (AST_O _ f) = is_Formula f"
| "is_Formula (AST_H _ f) = is_Formula f"
| "is_Formula (AST_Y _ f) = is_Formula f"
| "is_Formula (AST_BOOL _ _) = True"
| "is_Formula (AST_ID _ _) = False"
| "is_Formula (AST_INT _ _) = False"
| "is_Formula (AST_GT _ a b) = (is_AST_ID a \<and> is_TERM b)"
| "is_Formula (AST_GTE _ a b) = (is_AST_ID a \<and> is_TERM b)"
| "is_Formula (AST_LT _ a b) = (is_AST_ID a \<and> is_TERM b)"
| "is_Formula (AST_LTE _ a b) = (is_AST_ID a \<and> is_TERM b)"
| "is_Formula (AST_EQ _ a b) = (is_AST_ID a \<and> is_TERM b)"
| "is_Formula (AST_NEQ _ a b) = (is_AST_ID a \<and> is_TERM b)"

section \<open>Numbering the nodes\<close>

text \<open>\<open>PreProcess\<close> numbers a node before its children, from left to right; \<open>snum\<close> is the counter.\<close>

fun PreProcess :: "int \<Rightarrow> ASTNode \<Rightarrow> ASTNode \<times> int" where
  "PreProcess snum (AST_ID _ x) = (AST_ID snum x, snum + 1)"
| "PreProcess snum (AST_INT _ n) = (AST_INT snum n, snum + 1)"
| "PreProcess snum (AST_BOOL _ b) = (AST_BOOL snum b, snum + 1)"
| "PreProcess snum (AST_NOT _ f) = (let (f', n) = PreProcess (snum + 1) f in (AST_NOT snum f', n))"
| "PreProcess snum (AST_H _ f) = (let (f', n) = PreProcess (snum + 1) f in (AST_H snum f', n))"
| "PreProcess snum (AST_O _ f) = (let (f', n) = PreProcess (snum + 1) f in (AST_O snum f', n))"
| "PreProcess snum (AST_Y _ f) = (let (f', n) = PreProcess (snum + 1) f in (AST_Y snum f', n))"
| "PreProcess snum (AST_ARROW _ f g) = (let (f', n) = PreProcess (snum + 1) f; (g', n') = PreProcess n g in (AST_ARROW snum f' g', n'))"
| "PreProcess snum (AST_AND _ f g) = (let (f', n) = PreProcess (snum + 1) f; (g', n') = PreProcess n g in (AST_AND snum f' g', n'))"
| "PreProcess snum (AST_OR _ f g) = (let (f', n) = PreProcess (snum + 1) f; (g', n') = PreProcess n g in (AST_OR snum f' g', n'))"
| "PreProcess snum (AST_S _ f g) = (let (f', n) = PreProcess (snum + 1) f; (g', n') = PreProcess n g in (AST_S snum f' g', n'))"
| "PreProcess snum (AST_EQ _ f g) = (let (f', n) = PreProcess (snum + 1) f; (g', n') = PreProcess n g in (AST_EQ snum f' g', n'))"
| "PreProcess snum (AST_NEQ _ f g) = (let (f', n) = PreProcess (snum + 1) f; (g', n') = PreProcess n g in (AST_NEQ snum f' g', n'))"
| "PreProcess snum (AST_GT _ f g) = (let (f', n) = PreProcess (snum + 1) f; (g', n') = PreProcess n g in (AST_GT snum f' g', n'))"
| "PreProcess snum (AST_GTE _ f g) = (let (f', n) = PreProcess (snum + 1) f; (g', n') = PreProcess n g in (AST_GTE snum f' g', n'))"
| "PreProcess snum (AST_LT _ f g) = (let (f', n) = PreProcess (snum + 1) f; (g', n') = PreProcess n g in (AST_LT snum f' g', n'))"
| "PreProcess snum (AST_LTE _ f g) = (let (f', n) = PreProcess (snum + 1) f; (g', n') = PreProcess n g in (AST_LTE snum f' g', n'))"

definition DoPreProcess :: "ASTNode list \<Rightarrow> ASTNode list \<times> int list" where
  "DoPreProcess asts = (map (\<lambda>a. fst (PreProcess 0 a)) asts, map (\<lambda>a. snd (PreProcess 0 a)) asts)"

section \<open>The type checker\<close>

type_synonym type_pair = "string \<times> string"

record TypeChecker =
  TypeContext :: "string \<rightharpoonup> type_pair"
  constant_list :: "string list"

definition load_annotation :: "TypeAnnotation \<Rightarrow> TypeChecker \<Rightarrow> TypeChecker" where
  "load_annotation annotation tc = (case annotation of
       AST_ENUM name values \<Rightarrow>
         if TypeContext tc name = None then
           fold (\<lambda>v tc. tc\<lparr>constant_list := constant_list tc @ [v],
                           TypeContext := (TypeContext tc)(v \<mapsto> (''ENUM'', name))\<rparr>) values
             (tc\<lparr>TypeContext := (TypeContext tc)(name \<mapsto> (''ENUM'', name))\<rparr>)
         else tc
     | AST_INT_TYPE name \<Rightarrow>
         if TypeContext tc name = None then tc\<lparr>TypeContext := (TypeContext tc)(name \<mapsto> (''INT'', []))\<rparr> else tc
     | AST_BOOL_TYPE name \<Rightarrow>
         if TypeContext tc name = None then tc\<lparr>TypeContext := (TypeContext tc)(name \<mapsto> (''BOOL'', []))\<rparr> else tc)"

definition LoadTypeContext :: "TypeAnnotation list \<Rightarrow> TypeChecker option" where
  "LoadTypeContext annotations = (
     let tc = fold load_annotation annotations \<lparr>TypeContext = Map.empty, constant_list = []\<rparr> in
     if TypeContext tc ''true'' \<noteq> None \<or> TypeContext tc ''false'' \<noteq> None then None
     else Some (tc\<lparr>TypeContext := (TypeContext tc)(''true'' \<mapsto> (''BOOL'', []), ''false'' \<mapsto> (''BOOL'', []))\<rparr>))"

abbreviation FALSE_VALUE :: "bool \<times> type_pair" where
  "FALSE_VALUE \<equiv> (False, [], [])"

definition both :: "bool \<times> type_pair \<Rightarrow> bool \<times> type_pair \<Rightarrow> bool \<times> type_pair" where
  "both l r = (if \<not> fst l \<or> \<not> fst r then FALSE_VALUE else (True, [], []))"

definition same_type :: "bool \<times> type_pair \<Rightarrow> bool \<times> type_pair \<Rightarrow> bool \<times> type_pair" where
  "same_type l r = (if \<not> fst l \<or> \<not> fst r then FALSE_VALUE else (snd l = snd r, [], []))"

definition int_type :: "bool \<times> type_pair \<Rightarrow> bool \<times> type_pair \<Rightarrow> bool \<times> type_pair" where
  "int_type l r = (if \<not> fst l \<or> \<not> fst r then FALSE_VALUE else (fst (snd l) = ''INT'' \<and> snd l = snd r, [], []))"

definition one :: "bool \<times> type_pair \<Rightarrow> bool \<times> type_pair" where
  "one l = (if \<not> fst l then FALSE_VALUE else (True, [], []))"

fun TypeCheck :: "TypeChecker \<Rightarrow> ASTNode \<Rightarrow> bool \<times> type_pair" where
  "TypeCheck tc (AST_ID _ x) = (case TypeContext tc x of None \<Rightarrow> FALSE_VALUE | Some ty \<Rightarrow> (True, ty))"
| "TypeCheck tc (AST_INT _ _) = (True, ''INT'', [])"
| "TypeCheck tc (AST_BOOL _ _) = (True, ''BOOL'', [])"
| "TypeCheck tc (AST_ARROW _ f g) = both (TypeCheck tc f) (TypeCheck tc g)"
| "TypeCheck tc (AST_AND _ f g) = both (TypeCheck tc f) (TypeCheck tc g)"
| "TypeCheck tc (AST_OR _ f g) = both (TypeCheck tc f) (TypeCheck tc g)"
| "TypeCheck tc (AST_S _ f g) = both (TypeCheck tc f) (TypeCheck tc g)"
| "TypeCheck tc (AST_EQ _ f g) = same_type (TypeCheck tc f) (TypeCheck tc g)"
| "TypeCheck tc (AST_NEQ _ f g) = same_type (TypeCheck tc f) (TypeCheck tc g)"
| "TypeCheck tc (AST_GT _ f g) = int_type (TypeCheck tc f) (TypeCheck tc g)"
| "TypeCheck tc (AST_GTE _ f g) = int_type (TypeCheck tc f) (TypeCheck tc g)"
| "TypeCheck tc (AST_LT _ f g) = int_type (TypeCheck tc f) (TypeCheck tc g)"
| "TypeCheck tc (AST_LTE _ f g) = int_type (TypeCheck tc f) (TypeCheck tc g)"
| "TypeCheck tc (AST_NOT _ f) = one (TypeCheck tc f)"
| "TypeCheck tc (AST_H _ f) = one (TypeCheck tc f)"
| "TypeCheck tc (AST_O _ f) = one (TypeCheck tc f)"
| "TypeCheck tc (AST_Y _ f) = one (TypeCheck tc f)"

definition new_TypeChecker :: "Spec \<Rightarrow> TypeChecker option" where
  "new_TypeChecker spec = do {
     tc \<leftarrow> LoadTypeContext (fst spec);
     if list_all (\<lambda>f. fst (TypeCheck tc f)) (snd spec) then Some tc else None
   }"

definition getType :: "TypeChecker \<Rightarrow> string \<Rightarrow> type_pair option" where
  "getType tc x = TypeContext tc x"

section \<open>The labels of an event\<close>

text \<open>A \<open>std::map\<close>: the entries in the order of their keys.\<close>

type_synonym labels = "(string \<times> string) list"

fun label_put :: "string \<Rightarrow> string \<Rightarrow> labels \<Rightarrow> labels" where
  "label_put k v [] = [(k, v)]"
| "label_put k v ((k', v') # m) =
     (if k = k' then (k, v) # m else if k < k' then (k, v) # (k', v') # m else (k', v') # label_put k v m)"

lemma map_of_label_put [simp]: "map_of (label_put k v m) = (map_of m)(k \<mapsto> v)"
  by (induction m rule: label_put.induct) auto

definition new_State :: "TypeChecker \<Rightarrow> labels" where
  "new_State tc = fold (\<lambda>c m. label_put c c m) (constant_list tc) []"

definition addLabel :: "string \<Rightarrow> string \<Rightarrow> labels \<Rightarrow> labels option" where
  "addLabel vname val m = (if map_of m vname \<noteq> None then None else Some (label_put vname val m))"

definition getLabel :: "labels \<Rightarrow> string \<Rightarrow> string option" where
  "getLabel m vname = map_of m vname"

definition clearState :: "labels \<Rightarrow> labels" where
  "clearState m = []"

definition isNumberFormat :: "string \<Rightarrow> bool" where
  "isNumberFormat str =
     (if str = [] then False
      else list_all isdigit (if hd str = CHR ''-'' then tl str else str))"

fun IsSane :: "TypeChecker \<Rightarrow> labels \<Rightarrow> bool option" where
  "IsSane tc [] = Some True"
| "IsSane tc ((varname, val) # m) = do {
     ty \<leftarrow> getType tc varname;
     if fst ty = ''ENUM'' \<or> fst ty = ''BOOL'' then do {
       val_ty \<leftarrow> getType tc val;
       if ty \<noteq> val_ty then Some False else IsSane tc m
     }
     else if fst ty \<noteq> ''INT'' then None
     else if \<not> isNumberFormat val then Some False
     else IsSane tc m
   }"

section \<open>Facts\<close>

text \<open>The nodes of a tree; the numbers of a processed tree are consecutive.\<close>

fun nodes :: "ASTNode \<Rightarrow> ASTNode list" where
  "nodes (AST_ID n x) = [AST_ID n x]"
| "nodes (AST_INT n i) = [AST_INT n i]"
| "nodes (AST_BOOL n b) = [AST_BOOL n b]"
| "nodes (AST_NOT n f) = AST_NOT n f # nodes f"
| "nodes (AST_H n f) = AST_H n f # nodes f"
| "nodes (AST_O n f) = AST_O n f # nodes f"
| "nodes (AST_Y n f) = AST_Y n f # nodes f"
| "nodes (AST_ARROW n f g) = AST_ARROW n f g # nodes f @ nodes g"
| "nodes (AST_AND n f g) = AST_AND n f g # nodes f @ nodes g"
| "nodes (AST_OR n f g) = AST_OR n f g # nodes f @ nodes g"
| "nodes (AST_S n f g) = AST_S n f g # nodes f @ nodes g"
| "nodes (AST_EQ n f g) = AST_EQ n f g # nodes f @ nodes g"
| "nodes (AST_NEQ n f g) = AST_NEQ n f g # nodes f @ nodes g"
| "nodes (AST_GT n f g) = AST_GT n f g # nodes f @ nodes g"
| "nodes (AST_GTE n f g) = AST_GTE n f g # nodes f @ nodes g"
| "nodes (AST_LT n f g) = AST_LT n f g # nodes f @ nodes g"
| "nodes (AST_LTE n f g) = AST_LTE n f g # nodes f @ nodes g"

definition numbered :: "int \<Rightarrow> int \<Rightarrow> int list \<Rightarrow> bool" where
  "numbered n m ns \<longleftrightarrow> n < m \<and> ns = [n..m - 1]"

lemma numbered_one: "numbered n (n + 1) [n]"
  by (simp add: numbered_def)

lemma numbered_cons: "numbered (n + 1) m ns \<Longrightarrow> numbered n m (n # ns)"
  by (auto simp: numbered_def upto_rec1 [of n])

lemma numbered_append: "numbered n m ns \<Longrightarrow> numbered m k ns' \<Longrightarrow> numbered n k (ns @ ns')"
  using upto_split1 [of n m "k - 1"] by (auto simp: numbered_def)

lemma numbered_pair: "numbered (n + 1) m ns \<Longrightarrow> numbered m k ns' \<Longrightarrow> numbered n k (n # ns @ ns')"
  by (intro numbered_cons numbered_append)

lemma numbered_processed:
  assumes "\<And>n. numbered n (snd (PreProcess n f)) (map serial_number (nodes (fst (PreProcess n f))))"
    and "\<And>n. numbered n (snd (PreProcess n g)) (map serial_number (nodes (fst (PreProcess n g))))"
  shows "numbered n (snd (PreProcess (snd (PreProcess (n + 1) f)) g))
    (n # map serial_number (nodes (fst (PreProcess (n + 1) f)))
       @ map serial_number (nodes (fst (PreProcess (snd (PreProcess (n + 1) f)) g))))"
  by (rule numbered_pair [OF assms(1) assms(2)])

lemma PreProcess_numbered:
  "numbered n (snd (PreProcess n f)) (map serial_number (nodes (fst (PreProcess n f))))"
  by (induction f arbitrary: n)
    (simp_all add: Let_def case_prod_unfold numbered_one numbered_cons numbered_processed)

text \<open>After processing, a tree with \<open>m\<close> nodes carries the numbers \<open>0\<close> to \<open>m - 1\<close>, each once.\<close>

lemma PreProcess_serials:
  fixes f :: ASTNode
  defines "g \<equiv> fst (PreProcess 0 f)"
  shows "distinct (map serial_number (nodes g))" and "\<forall>h \<in> set (nodes g). 0 \<le> serial_number h \<and> serial_number h < snd (PreProcess 0 f)"
    and "snd (PreProcess 0 f) = int (length (nodes g))"
proof -
  have e: "map serial_number (nodes g) = [0..snd (PreProcess 0 f) - 1]" and pos: "0 < snd (PreProcess 0 f)"
    using PreProcess_numbered [of 0 f] by (simp_all add: numbered_def g_def)
  show "distinct (map serial_number (nodes g))" by (simp add: e)
  have "serial_number ` set (nodes g) = {0..snd (PreProcess 0 f) - 1}" by (metis e set_map set_upto)
  then show "\<forall>h \<in> set (nodes g). 0 \<le> serial_number h \<and> serial_number h < snd (PreProcess 0 f)"
    by (metis atLeastAtMost_iff imageI zle_diff1_eq)
  show "snd (PreProcess 0 f) = int (length (nodes g))"
    using arg_cong [OF e, of length] pos by simp
qed

end
