(* ===== verification/Ltl_Evaluator.thy ===== *)
theory Ltl_Evaluator
  imports Ltl_Spec Bit_Vector
begin

text \<open>
  \<open>evaluator.cpp\<close>: evaluation of past-time formulas, one event at a time. Each formula has two bit
  vectors indexed by node numbers: \<open>old_bv\<close> holds the nodes that were true at the previous event, and
  \<open>new_bv\<close> collects those true at this one. The theorems compare this with the semantics of
  past-time linear temporal logic over the whole sequence of events.
\<close>

section \<open>Predicates\<close>

text \<open>\<open>std::stoi\<close>: throws when there is no digit and when the number is no \<open>int\<close>.\<close>

definition strtol10 :: "string \<Rightarrow> int option" where
  "strtol10 s = (
     let s1 = dropWhile isspace s;
         neg = (s1 \<noteq> [] \<and> hd s1 = CHR ''-'');
         s2 = (if s1 \<noteq> [] \<and> (hd s1 = CHR ''-'' \<or> hd s1 = CHR ''+'') then tl s1 else s1);
         ds = takeWhile isdigit s2;
         v = fold (\<lambda>c v. 10 * v + (int (bval c) - 48)) ds 0 in
     if ds = [] then None else Some (if neg then - v else v))"

definition stoi :: "string \<Rightarrow> int option" where
  "stoi s = do {
     v \<leftarrow> strtol10 s;
     if - 2147483648 \<le> v \<and> v \<le> 2147483647 then Some v else None
   }"

fun int_operand :: "labels \<Rightarrow> ASTNode \<Rightarrow> int option" where
  "int_operand state (AST_INT _ n) = Some n"
| "int_operand state (AST_ID _ x) = getLabel state x \<bind> stoi"
| "int_operand state _ = None"

fun str_operand :: "labels \<Rightarrow> ASTNode \<Rightarrow> string option" where
  "str_operand state (AST_INT _ n) = Some (sdec n)"
| "str_operand state (AST_BOOL _ b) = Some (bool_str b)"
| "str_operand state (AST_ID _ x) = getLabel state x"
| "str_operand state _ = None"

definition compare_int :: "(int \<Rightarrow> int \<Rightarrow> bool) \<Rightarrow> labels \<Rightarrow> ASTNode \<Rightarrow> ASTNode \<Rightarrow> bool option" where
  "compare_int cmp state l r = do {
     r_int_val \<leftarrow> int_operand state r;
     l_int_val \<leftarrow> int_operand state l;
     Some (cmp l_int_val r_int_val)
   }"

definition compare_str :: "(string \<Rightarrow> string \<Rightarrow> bool) \<Rightarrow> labels \<Rightarrow> ASTNode \<Rightarrow> ASTNode \<Rightarrow> bool option" where
  "compare_str cmp state l r = do {
     l_string_val \<leftarrow> str_operand state l;
     r_string_val \<leftarrow> str_operand state r;
     Some (cmp l_string_val r_string_val)
   }"

text \<open>A node without both children, such as a literal, fails the assertion.\<close>

fun EvaluatePredicate :: "labels \<Rightarrow> ASTNode \<Rightarrow> bool option" where
  "EvaluatePredicate state (AST_GT _ l r) = compare_int (>) state l r"
| "EvaluatePredicate state (AST_GTE _ l r) = compare_int (\<ge>) state l r"
| "EvaluatePredicate state (AST_LT _ l r) = compare_int (<) state l r"
| "EvaluatePredicate state (AST_LTE _ l r) = compare_int (\<le>) state l r"
| "EvaluatePredicate state (AST_EQ _ l r) = compare_str (=) state l r"
| "EvaluatePredicate state (AST_NEQ _ l r) = compare_str (\<noteq>) state l r"
| "EvaluatePredicate state _ = None"

section \<open>Formulas\<close>

text \<open>A node number, passed as an \<open>unsigned int\<close>.\<close>

definition uidx :: "int \<Rightarrow> nat" where
  "uidx n = nat (n mod 2 ^ 32)"

definition set_if :: "bool \<Rightarrow> BitVector \<Rightarrow> int \<Rightarrow> BitVector" where
  "set_if r b n = (if r then bv_set b (uidx n) else b)"

fun EvaluateFormula :: "labels \<Rightarrow> int \<Rightarrow> BitVector \<Rightarrow> ASTNode \<Rightarrow> BitVector \<Rightarrow> (bool \<times> BitVector) option" where
  "EvaluateFormula state index old (AST_NOT n f) new = do {
     (r0, new1) \<leftarrow> EvaluateFormula state index old f new;
     let r = (\<not> r0);
     Some (r, set_if r new1 n)
   }"
| "EvaluateFormula state index old (AST_AND n f g) new = do {
     (r1, new1) \<leftarrow> EvaluateFormula state index old f new;
     (r2, new2) \<leftarrow> EvaluateFormula state index old g new1;
     Some (r1 \<and> r2, set_if (r1 \<and> r2) new2 n)
   }"
| "EvaluateFormula state index old (AST_OR n f g) new = do {
     (r1, new1) \<leftarrow> EvaluateFormula state index old f new;
     (r2, new2) \<leftarrow> EvaluateFormula state index old g new1;
     Some (r1 \<or> r2, set_if (r1 \<or> r2) new2 n)
   }"
| "EvaluateFormula state index old (AST_ARROW n f g) new = do {
     (r0, new1) \<leftarrow> EvaluateFormula state index old f new;
     let r1 = (\<not> r0);
     (r2, new2) \<leftarrow> EvaluateFormula state index old g new1;
     Some (r1 \<or> r2, set_if (r1 \<or> r2) new2 n)
   }"
| "EvaluateFormula state index old (AST_ID n x) new = do {
     val \<leftarrow> getLabel state x;
     if val = ''true'' then Some (True, bv_set new (uidx n))
     else if val = ''false'' then Some (False, new)
     else None
   }"
| "EvaluateFormula state index old (AST_S n f g) new = do {
     (r1, new1) \<leftarrow> EvaluateFormula state index old f new;
     (r2, new2) \<leftarrow> EvaluateFormula state index old g new1;
     let r3 = bv_test old (uidx n);
     Some (r2 \<or> (r1 \<and> r3), set_if (r2 \<or> (r1 \<and> r3)) new2 n)
   }"
| "EvaluateFormula state index old (AST_O n f) new = do {
     (r1, new1) \<leftarrow> EvaluateFormula state index old f new;
     let r2 = bv_test old (uidx n);
     Some (r1 \<or> r2, set_if (r1 \<or> r2) new1 n)
   }"
| "EvaluateFormula state index old (AST_H n f) new = do {
     (r1, new1) \<leftarrow> EvaluateFormula state index old f new;
     let r2 = (if index = 0 then True else bv_test old (uidx n));
     Some (r1 \<and> r2, set_if (r1 \<and> r2) new1 n)
   }"
| "EvaluateFormula state index old (AST_Y n f) new = do {
     (_, new1) \<leftarrow> EvaluateFormula state index old f new;
     if index \<noteq> 0 \<and> bv_test old (uidx (serial_number f)) then Some (True, bv_set new1 (uidx n))
     else Some (False, new1)
   }"
| "EvaluateFormula state index old node new = do {
     r \<leftarrow> EvaluatePredicate state node;
     Some (r, new)
   }"

section \<open>The evaluator\<close>

record Evaluator =
  new_bv :: "BitVector list"
  old_bv :: "BitVector list"
  formulas :: "ASTNode list"
  serial_numbers :: "int list"
  index :: int

definition empty_bvs :: "int list \<Rightarrow> BitVector list" where
  "empty_bvs serials = map (\<lambda>serial. clear_bv (new_BitVector (uidx serial))) serials"

definition new_Evaluator :: "ASTNode list \<Rightarrow> int list \<Rightarrow> Evaluator" where
  "new_Evaluator fs snums = \<lparr>new_bv = empty_bvs snums, old_bv = empty_bvs snums, formulas = fs,
     serial_numbers = snums, index = 0\<rparr>"

definition reset_evaluator :: "Evaluator \<Rightarrow> Evaluator" where
  "reset_evaluator ev = ev\<lparr>index := 0, new_bv := empty_bvs (serial_numbers ev), old_bv := empty_bvs (serial_numbers ev)\<rparr>"

text \<open>The loop of \<open>EvaluateOneStep\<close> over the formulas and their two vectors.\<close>

fun eval_formulas ::
  "labels \<Rightarrow> int \<Rightarrow> ASTNode list \<Rightarrow> BitVector list \<Rightarrow> BitVector list \<Rightarrow> (bool list \<times> BitVector list \<times> BitVector list) option" where
  "eval_formulas state i [] olds news = Some ([], olds, news)"
| "eval_formulas state i (f # fs) (old # olds) (new # news) = do {
     (res, new1) \<leftarrow> EvaluateFormula state i old f new;
     (result, olds', news') \<leftarrow> eval_formulas state i fs olds news;
     Some (res # result, new1 # olds', clear_bv new1 # news')
   }"
| "eval_formulas state i (f # fs) _ _ = None"

definition EvaluateOneStep :: "labels \<Rightarrow> Evaluator \<Rightarrow> (bool list \<times> Evaluator) option" where
  "EvaluateOneStep state ev = do {
     (result, olds, news) \<leftarrow> eval_formulas state (index ev) (formulas ev) (old_bv ev) (new_bv ev);
     i \<leftarrow> cinc (index ev);
     Some (result, ev\<lparr>old_bv := olds, new_bv := news, index := i\<rparr>)
   }"

fun eval_run :: "Evaluator \<Rightarrow> labels list \<Rightarrow> (bool list list \<times> Evaluator) option" where
  "eval_run ev [] = Some ([], ev)"
| "eval_run ev (state # states) = do {
     (result, ev1) \<leftarrow> EvaluateOneStep state ev;
     (results, ev2) \<leftarrow> eval_run ev1 states;
     Some (result # results, ev2)
   }"

section \<open>Past-time semantics\<close>

text \<open>
  \<open>holds \<sigma> i f\<close>: the formula holds at position \<open>i\<close> of the trace \<open>\<sigma>\<close>. A comparison is read in the labels
  of that position.
\<close>

primrec holds :: "(nat \<Rightarrow> labels) \<Rightarrow> ASTNode \<Rightarrow> nat \<Rightarrow> bool" where
  "holds \<sigma> (AST_NOT n f) = (\<lambda>i. \<not> holds \<sigma> f i)"
| "holds \<sigma> (AST_AND n f g) = (\<lambda>i. holds \<sigma> f i \<and> holds \<sigma> g i)"
| "holds \<sigma> (AST_OR n f g) = (\<lambda>i. holds \<sigma> f i \<or> holds \<sigma> g i)"
| "holds \<sigma> (AST_ARROW n f g) = (\<lambda>i. holds \<sigma> f i \<longrightarrow> holds \<sigma> g i)"
| "holds \<sigma> (AST_S n f g) = (\<lambda>i. \<exists>j \<le> i. holds \<sigma> g j \<and> (\<forall>k. j < k \<and> k \<le> i \<longrightarrow> holds \<sigma> f k))"
| "holds \<sigma> (AST_O n f) = (\<lambda>i. \<exists>j \<le> i. holds \<sigma> f j)"
| "holds \<sigma> (AST_H n f) = (\<lambda>i. \<forall>j \<le> i. holds \<sigma> f j)"
| "holds \<sigma> (AST_Y n f) = (\<lambda>i. 0 < i \<and> holds \<sigma> f (i - 1))"
| "holds \<sigma> (AST_ID n x) = (\<lambda>i. getLabel (\<sigma> i) x = Some ''true'')"
| "holds \<sigma> (AST_BOOL n b) = (\<lambda>i. b)"
| "holds \<sigma> (AST_INT n v) = (\<lambda>i. False)"
| "holds \<sigma> (AST_GT n a b) = (\<lambda>i. EvaluatePredicate (\<sigma> i) (AST_GT n a b) = Some True)"
| "holds \<sigma> (AST_GTE n a b) = (\<lambda>i. EvaluatePredicate (\<sigma> i) (AST_GTE n a b) = Some True)"
| "holds \<sigma> (AST_LT n a b) = (\<lambda>i. EvaluatePredicate (\<sigma> i) (AST_LT n a b) = Some True)"
| "holds \<sigma> (AST_LTE n a b) = (\<lambda>i. EvaluatePredicate (\<sigma> i) (AST_LTE n a b) = Some True)"
| "holds \<sigma> (AST_EQ n a b) = (\<lambda>i. EvaluatePredicate (\<sigma> i) (AST_EQ n a b) = Some True)"
| "holds \<sigma> (AST_NEQ n a b) = (\<lambda>i. EvaluatePredicate (\<sigma> i) (AST_NEQ n a b) = Some True)"

section \<open>One formula, one event\<close>

text \<open>The nodes whose bits the evaluator records; comparisons and literals are not among them.\<close>

fun recorded :: "ASTNode \<Rightarrow> ASTNode list" where
  "recorded (AST_NOT n f) = AST_NOT n f # recorded f"
| "recorded (AST_AND n f g) = AST_AND n f g # recorded f @ recorded g"
| "recorded (AST_OR n f g) = AST_OR n f g # recorded f @ recorded g"
| "recorded (AST_ARROW n f g) = AST_ARROW n f g # recorded f @ recorded g"
| "recorded (AST_ID n x) = [AST_ID n x]"
| "recorded (AST_S n f g) = AST_S n f g # recorded f @ recorded g"
| "recorded (AST_O n f) = AST_O n f # recorded f"
| "recorded (AST_H n f) = AST_H n f # recorded f"
| "recorded (AST_Y n f) = AST_Y n f # recorded f"
| "recorded _ = []"

text \<open>\<open>Y\<close> is applied to recorded nodes only.\<close>

fun prev_recorded :: "ASTNode \<Rightarrow> bool" where
  "prev_recorded (AST_NOT n f) = prev_recorded f"
| "prev_recorded (AST_AND n f g) = (prev_recorded f \<and> prev_recorded g)"
| "prev_recorded (AST_OR n f g) = (prev_recorded f \<and> prev_recorded g)"
| "prev_recorded (AST_ARROW n f g) = (prev_recorded f \<and> prev_recorded g)"
| "prev_recorded (AST_S n f g) = (prev_recorded f \<and> prev_recorded g)"
| "prev_recorded (AST_O n f) = prev_recorded f"
| "prev_recorded (AST_H n f) = prev_recorded f"
| "prev_recorded (AST_Y n f) = (recorded f \<noteq> [] \<and> prev_recorded f)"
| "prev_recorded _ = True"

text \<open>The labels give every comparison a value and every identifier a truth value.\<close>

fun evaluable :: "labels \<Rightarrow> ASTNode \<Rightarrow> bool" where
  "evaluable state (AST_NOT n f) = evaluable state f"
| "evaluable state (AST_AND n f g) = (evaluable state f \<and> evaluable state g)"
| "evaluable state (AST_OR n f g) = (evaluable state f \<and> evaluable state g)"
| "evaluable state (AST_ARROW n f g) = (evaluable state f \<and> evaluable state g)"
| "evaluable state (AST_S n f g) = (evaluable state f \<and> evaluable state g)"
| "evaluable state (AST_O n f) = evaluable state f"
| "evaluable state (AST_H n f) = evaluable state f"
| "evaluable state (AST_Y n f) = evaluable state f"
| "evaluable state (AST_ID n x) = (getLabel state x \<in> {Some ''true'', Some ''false''})"
| "evaluable state f = (EvaluatePredicate state f \<noteq> None)"

lemma recorded_self: "recorded f \<noteq> [] \<Longrightarrow> f \<in> set (recorded f)"
  by (cases f) auto

lemma recorded_nodes: "set (recorded f) \<subseteq> set (nodes f)"
  by (induction f) auto

text \<open>The temporal operators, unfolded by one event.\<close>

lemma holds_unfold:
  "holds \<sigma> (AST_O n f) i \<longleftrightarrow> holds \<sigma> f i \<or> (0 < i \<and> holds \<sigma> (AST_O n f) (i - 1))"
  "holds \<sigma> (AST_H n f) i \<longleftrightarrow> holds \<sigma> f i \<and> (i = 0 \<or> holds \<sigma> (AST_H n f) (i - 1))"
  "holds \<sigma> (AST_S n f g) i \<longleftrightarrow> holds \<sigma> g i \<or> (holds \<sigma> f i \<and> 0 < i \<and> holds \<sigma> (AST_S n f g) (i - 1))"
  by (cases i; auto simp: le_Suc_eq)+

declare holds.simps(5-7) [simp del]

definition bit_of :: "ASTNode \<Rightarrow> nat" where
  "bit_of h = uidx (serial_number h)"

definition true_bits :: "(nat \<Rightarrow> labels) \<Rightarrow> nat \<Rightarrow> ASTNode \<Rightarrow> nat set" where
  "true_bits \<sigma> i f = bit_of ` {h \<in> set (recorded f). holds \<sigma> h i}"

lemma true_bits_comb:
  "set (recorded f) = insert f (set (recorded g) \<union> set (recorded h)) \<Longrightarrow>
   true_bits \<sigma> i f = true_bits \<sigma> i g \<union> true_bits \<sigma> i h \<union> (if holds \<sigma> f i then {bit_of f} else {})"
  by (auto simp: true_bits_def)

lemmas true_bits_un = true_bits_comb [where h = "AST_BOOL 0 True", simplified]

text \<open>What a step knows of the previous one, and what it leaves.\<close>

definition remembers :: "(nat \<Rightarrow> labels) \<Rightarrow> nat \<Rightarrow> BitVector \<Rightarrow> ASTNode \<Rightarrow> bool" where
  "remembers \<sigma> i old f \<longleftrightarrow> (\<forall>h \<in> set (recorded f). bv_test old (bit_of h) \<longleftrightarrow> 0 < i \<and> holds \<sigma> h (i - 1))"

definition has_bits :: "BitVector \<Rightarrow> ASTNode \<Rightarrow> bool" where
  "has_bits b f \<longleftrightarrow> (\<forall>h \<in> set (recorded f). bit_of h < sz b)"

definition adds :: "BitVector \<Rightarrow> BitVector \<Rightarrow> nat set \<Rightarrow> bool" where
  "adds b b' s \<longleftrightarrow> bv_wf b' \<and> sz b' = sz b \<and> bits.elems b' = bits.elems b \<union> s"

lemma adds_trans: "adds b b1 s \<Longrightarrow> adds b1 b2 t \<Longrightarrow> adds b b2 (s \<union> t)"
  by (auto simp: adds_def)

lemma adds_set_if:
  "adds b b' s \<Longrightarrow> bit_of f < sz b \<Longrightarrow> serial_number f = n \<Longrightarrow>
   adds b (set_if r b' n) (s \<union> (if r then {bit_of f} else {}))"
  by (auto simp: adds_def set_if_def bit_of_def bits.wf_st bits.cap_st bits.elems_st)

lemma has_bits_adds: "has_bits b f \<Longrightarrow> adds b b' s \<Longrightarrow> has_bits b' f"
  by (simp add: has_bits_def adds_def)

definition evaluates :: "(nat \<Rightarrow> labels) \<Rightarrow> nat \<Rightarrow> BitVector \<Rightarrow> ASTNode \<Rightarrow> bool" where
  "evaluates \<sigma> i old f \<longleftrightarrow> (\<forall>new. bv_wf new \<longrightarrow> has_bits new f \<longrightarrow>
     (\<exists>new'. EvaluateFormula (\<sigma> i) (int i) old f new = Some (holds \<sigma> f i, new') \<and> adds new new' (true_bits \<sigma> i f)))"

lemma evaluatesD:
  assumes "evaluates \<sigma> i old f" and "bv_wf new" and "has_bits new f"
  obtains new' where "EvaluateFormula (\<sigma> i) (int i) old f new = Some (holds \<sigma> f i, new')"
    and "adds new new' (true_bits \<sigma> i f)"
  using assms unfolding evaluates_def by blast

text \<open>An operator with two operands, and one with one.\<close>

lemma evaluates_two:
  assumes "evaluates \<sigma> i old g" and "evaluates \<sigma> i old h"
    and rec: "set (recorded f) = insert f (set (recorded g) \<union> set (recorded h))"
    and op: "\<And>new new1 new2. EvaluateFormula (\<sigma> i) (int i) old g new = Some (holds \<sigma> g i, new1) \<Longrightarrow>
      EvaluateFormula (\<sigma> i) (int i) old h new1 = Some (holds \<sigma> h i, new2) \<Longrightarrow>
      EvaluateFormula (\<sigma> i) (int i) old f new = Some (holds \<sigma> f i, set_if (holds \<sigma> f i) new2 (serial_number f))"
  shows "evaluates \<sigma> i old f"
  unfolding evaluates_def
proof (intro allI impI)
  fix new assume wf: "bv_wf new" and hb: "has_bits new f"
  have hg: "has_bits new g" "has_bits new h" "bit_of f < sz new" using hb rec by (auto simp: has_bits_def)
  from assms(1) wf hg(1) obtain new1 where 1: "EvaluateFormula (\<sigma> i) (int i) old g new = Some (holds \<sigma> g i, new1)"
    "adds new new1 (true_bits \<sigma> i g)" by (rule evaluatesD)
  have "bv_wf new1" using 1(2) by (simp add: adds_def)
  from assms(2) this has_bits_adds [OF hg(2) 1(2)] obtain new2
    where 2: "EvaluateFormula (\<sigma> i) (int i) old h new1 = Some (holds \<sigma> h i, new2)"
    "adds new1 new2 (true_bits \<sigma> i h)" by (rule evaluatesD)
  have "adds new (set_if (holds \<sigma> f i) new2 (serial_number f)) (true_bits \<sigma> i f)"
    using adds_set_if [OF adds_trans [OF 1(2) 2(2)] hg(3) refl, of "holds \<sigma> f i"] true_bits_comb [OF rec] by simp
  with op [OF 1(1) 2(1)]
  show "\<exists>new'. EvaluateFormula (\<sigma> i) (int i) old f new = Some (holds \<sigma> f i, new') \<and> adds new new' (true_bits \<sigma> i f)"
    by blast
qed

lemma evaluates_one:
  assumes "evaluates \<sigma> i old g" and rec: "set (recorded f) = insert f (set (recorded g))"
    and op: "\<And>new new1. EvaluateFormula (\<sigma> i) (int i) old g new = Some (holds \<sigma> g i, new1) \<Longrightarrow>
      EvaluateFormula (\<sigma> i) (int i) old f new = Some (holds \<sigma> f i, set_if (holds \<sigma> f i) new1 (serial_number f))"
  shows "evaluates \<sigma> i old f"
  unfolding evaluates_def
proof (intro allI impI)
  fix new assume wf: "bv_wf new" and hb: "has_bits new f"
  have hg: "has_bits new g" "bit_of f < sz new" using hb rec by (auto simp: has_bits_def)
  from assms(1) wf hg(1) obtain new1 where 1: "EvaluateFormula (\<sigma> i) (int i) old g new = Some (holds \<sigma> g i, new1)"
    "adds new new1 (true_bits \<sigma> i g)" by (rule evaluatesD)
  have "adds new (set_if (holds \<sigma> f i) new1 (serial_number f)) (true_bits \<sigma> i f)"
    using adds_set_if [OF 1(2) hg(2) refl, of "holds \<sigma> f i"] true_bits_un [OF rec] by (simp add: true_bits_def)
  with op [OF 1(1)]
  show "\<exists>new'. EvaluateFormula (\<sigma> i) (int i) old f new = Some (holds \<sigma> f i, new') \<and> adds new new' (true_bits \<sigma> i f)"
    by blast
qed

lemma evaluates_atom:
  assumes "recorded f = []" and "\<And>new. EvaluateFormula (\<sigma> i) (int i) old f new = Some (holds \<sigma> f i, new)"
  shows "evaluates \<sigma> i old f"
  using assms by (simp add: evaluates_def adds_def true_bits_def)

lemma evaluates_formula:
  assumes "evaluable (\<sigma> i) f" and "prev_recorded f" and "remembers \<sigma> i old f"
  shows "evaluates \<sigma> i old f"
  using assms
proof (induction f)
  case (AST_NOT n f)
  then have ev: "evaluates \<sigma> i old f" by (auto simp: remembers_def)
  then show ?case by (rule evaluates_one) (simp_all add: Let_def)
next
  case (AST_AND n f g)
  then have ev: "evaluates \<sigma> i old f" "evaluates \<sigma> i old g" by (auto simp: remembers_def)
  then show ?case by (rule evaluates_two) (simp_all add: Let_def)
next
  case (AST_OR n f g)
  then have ev: "evaluates \<sigma> i old f" "evaluates \<sigma> i old g" by (auto simp: remembers_def)
  then show ?case by (rule evaluates_two) (simp_all add: Let_def)
next
  case (AST_ARROW n f g)
  then have ev: "evaluates \<sigma> i old f" "evaluates \<sigma> i old g" by (auto simp: remembers_def)
  then show ?case by (rule evaluates_two) (simp_all add: Let_def)
next
  case (AST_S n f g)
  then have ev: "evaluates \<sigma> i old f" "evaluates \<sigma> i old g" by (auto simp: remembers_def)
  have t: "bv_test old (uidx n) \<longleftrightarrow> 0 < i \<and> holds \<sigma> (AST_S n f g) (i - 1)"
    using AST_S.prems by (simp add: remembers_def bit_of_def)
  show ?case
    by (rule evaluates_two [OF ev]) (simp_all add: t Let_def holds_unfold(3) [of \<sigma> n f g i])
next
  case (AST_O n f)
  then have ev: "evaluates \<sigma> i old f" by (auto simp: remembers_def)
  have t: "bv_test old (uidx n) \<longleftrightarrow> 0 < i \<and> holds \<sigma> (AST_O n f) (i - 1)"
    using AST_O.prems by (simp add: remembers_def bit_of_def)
  show ?case
    by (rule evaluates_one [OF ev]) (simp_all add: t Let_def holds_unfold(1) [of \<sigma> n f i])
next
  case (AST_H n f)
  then have ev: "evaluates \<sigma> i old f" by (auto simp: remembers_def)
  have t: "bv_test old (uidx n) \<longleftrightarrow> 0 < i \<and> holds \<sigma> (AST_H n f) (i - 1)"
    using AST_H.prems by (simp add: remembers_def bit_of_def)
  show ?case
    by (rule evaluates_one [OF ev]) (simp_all add: t Let_def holds_unfold(2) [of \<sigma> n f i])
next
  case (AST_Y n f)
  then have ev: "evaluates \<sigma> i old f" by (auto simp: remembers_def)
  have "f \<in> set (recorded f)" using AST_Y.prems by (simp add: recorded_self)
  then have t: "bv_test old (uidx (serial_number f)) \<longleftrightarrow> 0 < i \<and> holds \<sigma> f (i - 1)"
    using AST_Y.prems by (simp add: remembers_def bit_of_def)
  show ?case by (rule evaluates_one [OF ev]) (auto simp: t set_if_def)
next
  case (AST_ID n x)
  have "true_bits \<sigma> i (AST_ID n x) = (if holds \<sigma> (AST_ID n x) i then {uidx n} else {})"
    by (auto simp: true_bits_def bit_of_def)
  with AST_ID show ?case
    by (auto simp: evaluates_def has_bits_def bit_of_def adds_def bits.wf_st bits.cap_st bits.elems_st)
qed (auto intro!: evaluates_atom)

section \<open>All formulas, all events\<close>

text \<open>Before event \<open>i\<close> the two vectors of a formula are in step with the semantics.\<close>

definition tracks :: "(nat \<Rightarrow> labels) \<Rightarrow> nat \<Rightarrow> ASTNode \<Rightarrow> BitVector \<Rightarrow> BitVector \<Rightarrow> bool" where
  "tracks \<sigma> i f old new \<longleftrightarrow> bv_wf new \<and> bits.elems new = {} \<and> has_bits new f \<and> remembers \<sigma> i old f
     \<and> prev_recorded f \<and> inj_on bit_of (set (recorded f))"

lemma tracks_step:
  assumes "tracks \<sigma> i f old new" and "evaluable (\<sigma> i) f"
  shows "\<exists>new1. EvaluateFormula (\<sigma> i) (int i) old f new = Some (holds \<sigma> f i, new1)
    \<and> tracks \<sigma> (Suc i) f new1 (clear_bv new1)"
proof -
  have t: "bv_wf new" "bits.elems new = {}" "has_bits new f" "remembers \<sigma> i old f" "prev_recorded f"
    "inj_on bit_of (set (recorded f))" using assms(1) by (simp_all add: tracks_def)
  obtain new1 where n: "EvaluateFormula (\<sigma> i) (int i) old f new = Some (holds \<sigma> f i, new1)"
    "adds new new1 (true_bits \<sigma> i f)"
    using evaluatesD [OF evaluates_formula [OF assms(2) t(5,4)] t(1,3)] by blast
  have e: "bits.elems new1 = true_bits \<sigma> i f" "bv_wf new1" "sz new1 = sz new" using n(2) t(2) by (simp_all add: adds_def)
  have "bv_test new1 (bit_of h) \<longleftrightarrow> holds \<sigma> h i" if "h \<in> set (recorded f)" for h
    using that t(6) by (auto simp: bits.tst_elems e true_bits_def dest: inj_onD)
  then have "remembers \<sigma> (Suc i) new1 f" by (simp add: remembers_def)
  then have "tracks \<sigma> (Suc i) f new1 (clear_bv new1)"
    using e t by (simp add: tracks_def has_bits_def bits.wf_wipe bits.cap_wipe bits.elems_wipe)
  with n(1) show ?thesis by blast
qed

fun all_track :: "(nat \<Rightarrow> labels) \<Rightarrow> nat \<Rightarrow> ASTNode list \<Rightarrow> BitVector list \<Rightarrow> BitVector list \<Rightarrow> bool" where
  "all_track \<sigma> i [] [] [] = True"
| "all_track \<sigma> i (f # fs) (old # olds) (new # news) = (tracks \<sigma> i f old new \<and> all_track \<sigma> i fs olds news)"
| "all_track \<sigma> i _ _ _ = False"

lemma eval_formulas_track:
  assumes "all_track \<sigma> i fs olds news" and "\<forall>f \<in> set fs. evaluable (\<sigma> i) f"
  shows "\<exists>olds' news'. eval_formulas (\<sigma> i) (int i) fs olds news = Some (map (\<lambda>f. holds \<sigma> f i) fs, olds', news')
    \<and> all_track \<sigma> (Suc i) fs olds' news'"
  using assms
proof (induction \<sigma> i fs olds news rule: all_track.induct)
  case (2 \<sigma> i f fs old olds new news)
  from tracks_step [of \<sigma> i f old new] 2(2,3) obtain new1
    where "EvaluateFormula (\<sigma> i) (int i) old f new = Some (holds \<sigma> f i, new1)" "tracks \<sigma> (Suc i) f new1 (clear_bv new1)"
    by auto
  with 2 show ?case by fastforce
qed auto

definition in_step :: "(nat \<Rightarrow> labels) \<Rightarrow> nat \<Rightarrow> Evaluator \<Rightarrow> bool" where
  "in_step \<sigma> i ev \<longleftrightarrow> index ev = int i \<and> all_track \<sigma> i (formulas ev) (old_bv ev) (new_bv ev)"

lemma EvaluateOneStep_in_step:
  assumes "in_step \<sigma> i ev" and "\<forall>f \<in> set (formulas ev). evaluable (\<sigma> i) f" and "i < 2147483647"
  shows "\<exists>ev'. EvaluateOneStep (\<sigma> i) ev = Some (map (\<lambda>f. holds \<sigma> f i) (formulas ev), ev')
    \<and> in_step \<sigma> (Suc i) ev' \<and> formulas ev' = formulas ev \<and> serial_numbers ev' = serial_numbers ev"
proof -
  have i: "index ev = int i" "all_track \<sigma> i (formulas ev) (old_bv ev) (new_bv ev)" using assms(1) by (simp_all add: in_step_def)
  have c: "cinc (int i) = Some (int (Suc i))" using assms(3) by (simp add: cinc_def)
  from eval_formulas_track [OF i(2) assms(2)] obtain olds news
    where "eval_formulas (\<sigma> i) (int i) (formulas ev) (old_bv ev) (new_bv ev) = Some (map (\<lambda>f. holds \<sigma> f i) (formulas ev), olds, news)"
      "all_track \<sigma> (Suc i) (formulas ev) olds news" by blast
  then show ?thesis by (simp add: EvaluateOneStep_def in_step_def i(1) c)
qed

lemma eval_run_in_step:
  assumes "in_step \<sigma> i ev" and "\<forall>k < length ls. \<sigma> (i + k) = ls ! k"
    and "\<forall>l \<in> set ls. \<forall>f \<in> set (formulas ev). evaluable l f" and "i + length ls \<le> 2147483647"
  shows "\<exists>ev'. eval_run ev ls = Some (map (\<lambda>k. map (\<lambda>f. holds \<sigma> f (i + k)) (formulas ev)) [0..<length ls], ev')
    \<and> in_step \<sigma> (i + length ls) ev' \<and> formulas ev' = formulas ev \<and> serial_numbers ev' = serial_numbers ev"
  using assms
proof (induction ls arbitrary: i ev)
  case (Cons l ls)
  have l: "\<sigma> i = l" using Cons.prems(2) by force
  from EvaluateOneStep_in_step [OF Cons.prems(1)] Cons.prems(3,4) l obtain ev1
    where s: "EvaluateOneStep l ev = Some (map (\<lambda>f. holds \<sigma> f i) (formulas ev), ev1)" "in_step \<sigma> (Suc i) ev1"
      "formulas ev1 = formulas ev" "serial_numbers ev1 = serial_numbers ev" by auto
  have "\<forall>k < length ls. \<sigma> (Suc i + k) = ls ! k" using Cons.prems(2) by (metis add_Suc_shift length_Cons nth_Cons_Suc Suc_less_eq)
  from Cons.IH [OF s(2) this] Cons.prems(3,4) s(3) obtain ev2
    where r: "eval_run ev1 ls = Some (map (\<lambda>k. map (\<lambda>f. holds \<sigma> f (Suc i + k)) (formulas ev1)) [0..<length ls], ev2)"
      "in_step \<sigma> (Suc i + length ls) ev2" "formulas ev2 = formulas ev1" "serial_numbers ev2 = serial_numbers ev1" by auto
  have "map (\<lambda>k. map (\<lambda>f. holds \<sigma> f (i + k)) (formulas ev)) [0..<length (l # ls)]
    = map (\<lambda>f. holds \<sigma> f i) (formulas ev) # map (\<lambda>k. map (\<lambda>f. holds \<sigma> f (Suc i + k)) (formulas ev)) [0..<length ls]"
    by (simp add: upt_conv_Cons map_Suc_upt [symmetric] o_def del: upt_Suc)
  with s r show ?case by simp
qed simp

section \<open>The initial state\<close>

text \<open>Numbering the nodes changes neither what a formula means nor what it needs.\<close>

lemma operand_processed [simp]:
  "int_operand state (fst (PreProcess n f)) = int_operand state f"
  "str_operand state (fst (PreProcess n f)) = str_operand state f"
  by (cases f; simp add: Let_def case_prod_unfold)+

lemma predicate_processed [simp]:
  "EvaluatePredicate state (fst (PreProcess n f)) = EvaluatePredicate state f"
  by (cases f) (simp_all add: Let_def case_prod_unfold compare_int_def compare_str_def)

lemma holds_processed [simp]: "holds \<sigma> (fst (PreProcess n f)) = holds \<sigma> f"
  by (induction f arbitrary: n)
    (simp_all add: Let_def case_prod_unfold holds.simps(5-7) compare_int_def compare_str_def)

lemma evaluable_processed [simp]: "evaluable state (fst (PreProcess n f)) = evaluable state f"
  by (induction f arbitrary: n)
    (simp_all add: Let_def case_prod_unfold compare_int_def compare_str_def)

lemma recorded_processed [simp]: "recorded (fst (PreProcess n f)) = [] \<longleftrightarrow> recorded f = []"
  by (cases f) (simp_all add: Let_def case_prod_unfold)

lemma prev_recorded_processed [simp]: "prev_recorded (fst (PreProcess n f)) = prev_recorded f"
  by (induction f arbitrary: n) (simp_all add: Let_def case_prod_unfold)

lemma length_nodes_processed [simp]: "length (nodes (fst (PreProcess n f))) = length (nodes f)"
  by (induction f arbitrary: n) (simp_all add: Let_def case_prod_unfold)

lemma tracks_initial:
  assumes "prev_recorded f" and "length (nodes f) < 2 ^ 31"
  shows "tracks \<sigma> 0 (fst (PreProcess 0 f)) (clear_bv (new_BitVector (uidx (snd (PreProcess 0 f)))))
    (clear_bv (new_BitVector (uidx (snd (PreProcess 0 f)))))"
proof -
  let ?g = "fst (PreProcess 0 f)" and ?n = "snd (PreProcess 0 f)"
  have n: "?n = int (length (nodes f))" using PreProcess_serials(3) [of f] by simp
  then have u: "uidx ?n = length (nodes f)" using assms(2) by (simp add: uidx_def)
  have ser: "bit_of h = nat (serial_number h)" "0 \<le> serial_number h" "bit_of h < uidx ?n" if "h \<in> set (nodes ?g)" for h
  proof -
    have "0 \<le> serial_number h" "serial_number h < int (length (nodes f))"
      using PreProcess_serials(2) [of f] that n by auto
    then show "bit_of h = nat (serial_number h)" "0 \<le> serial_number h" "bit_of h < uidx ?n"
      using assms(2) u by (simp_all add: bit_of_def uidx_def)
  qed
  have "inj_on serial_number (set (nodes ?g))" using PreProcess_serials(1) [of f] by (simp add: distinct_map)
  then have "inj_on bit_of (set (nodes ?g))" using ser(1,2) by (simp add: inj_on_def) (metis eq_nat_nat_iff)
  then have "inj_on bit_of (set (recorded ?g))" using recorded_nodes [of ?g] inj_on_subset by blast
  then show ?thesis
    using assms(1) ser(3) recorded_nodes [of ?g]
    by (auto simp: tracks_def has_bits_def remembers_def bits.wf_wipe bits.mk bits.elems_wipe bits.cap_wipe bits.tst_wipe)
qed

lemma all_track_initial:
  "\<forall>f \<in> set fs. prev_recorded f \<and> length (nodes f) < 2 ^ 31 \<Longrightarrow>
   all_track \<sigma> 0 (fst (DoPreProcess fs)) (empty_bvs (snd (DoPreProcess fs))) (empty_bvs (snd (DoPreProcess fs)))"
  by (induction fs) (simp_all add: DoPreProcess_def empty_bvs_def tracks_initial)

definition fresh_Evaluator :: "ASTNode list \<Rightarrow> Evaluator" where
  "fresh_Evaluator fs = (let (gs, serials) = DoPreProcess fs in new_Evaluator gs serials)"

lemma in_step_initial:
  "\<forall>f \<in> set fs. prev_recorded f \<and> length (nodes f) < 2 ^ 31 \<Longrightarrow> in_step \<sigma> 0 (fresh_Evaluator fs)"
  using all_track_initial [of fs \<sigma>] by (simp add: in_step_def fresh_Evaluator_def new_Evaluator_def case_prod_unfold Let_def)

lemma formulas_fresh: "formulas (fresh_Evaluator fs) = map (\<lambda>f. fst (PreProcess 0 f)) fs"
  by (simp add: fresh_Evaluator_def new_Evaluator_def DoPreProcess_def)

text \<open>
  C2 (refinement): the evaluator decides past-time temporal logic. For formulas in which \<open>Y\<close> is not
  applied directly to a comparison, and events that give every comparison a value, the run over any
  sequence of events returns, and its verdict for a formula at an event is the truth of the formula
  at that position of the whole trace, although each step sees one event and one bit per node.
\<close>

theorem evaluator_past_ltl:
  assumes "\<forall>f \<in> set fs. prev_recorded f \<and> length (nodes f) < 2 ^ 31"
    and "\<forall>l \<in> set ls. \<forall>f \<in> set fs. evaluable l f" and "length ls < 2 ^ 31"
  shows "\<exists>ev. eval_run (fresh_Evaluator fs) ls
    = Some (map (\<lambda>i. map (\<lambda>f. holds (\<lambda>k. ls ! k) f i) fs) [0..<length ls], ev)"
proof -
  have "\<forall>l \<in> set ls. \<forall>f \<in> set (formulas (fresh_Evaluator fs)). evaluable l f"
    using assms(2) by (simp add: formulas_fresh)
  from eval_run_in_step [OF in_step_initial [OF assms(1)] _ this, of "\<lambda>k. ls ! k"] assms(3) show ?thesis
    by (auto simp: formulas_fresh o_def)
qed

theorem evaluator_past_ltl_witness:
  "\<exists>ev. eval_run (fresh_Evaluator [AST_O 0 (AST_EQ 0 (AST_ID 0 ''login'') (AST_BOOL 0 True))])
      [[(''login'', ''false'')], [(''login'', ''true'')], [(''login'', ''false'')]]
    = Some ([[False], [True], [True]], ev)"
proof -
  let ?f = "AST_O 0 (AST_EQ 0 (AST_ID 0 ''login'') (AST_BOOL 0 True))"
  let ?ls = "[[(''login'', ''false'')], [(''login'', ''true'')], [(''login'', ''false'')]]"
  note d = compare_str_def getLabel_def bool_str_def
  have 0: "\<not> holds (\<lambda>k. ?ls ! k) ?f 0" by (simp add: holds.simps(6) d)
  have 1: "holds (\<lambda>k. ?ls ! k) ?f 1" by (subst holds_unfold) (simp add: d)
  have 2: "holds (\<lambda>k. ?ls ! k) ?f 2" using 1 by (subst holds_unfold) simp
  have "[0..<length ?ls] = [0, 1, 2]" by (simp add: upt_rec)
  then have v: "map (\<lambda>i. map (\<lambda>f. holds (\<lambda>k. ?ls ! k) f i) [?f]) [0..<length ?ls] = [[False], [True], [True]]"
    using 0 1 2 by (simp only: list.map)
  have e: "\<forall>l \<in> set ?ls. \<forall>f \<in> set [?f]. evaluable l f" by (auto simp: d)
  show ?thesis using evaluator_past_ltl [OF _ e] unfolding v by simp
qed

section \<open>\<open>Y\<close> over a comparison\<close>

lemma unrecorded_formula:
  "recorded c = [] \<Longrightarrow> evaluable l c \<Longrightarrow> \<exists>r. EvaluateFormula l i old c new = Some (r, new)"
  by (cases c) auto

lemma prev_unrecorded_run:
  assumes "recorded c = []" and "\<forall>l \<in> set ls. evaluable l c" and "i + length ls \<le> 2147483647"
    and "formulas ev = [AST_Y n c]" and "old_bv ev = [old]" and "new_bv ev = [new]" and "index ev = int i"
    and "bv_wf old" and "bv_wf new" and "bits.elems old = {}" and "bits.elems new = {}"
  shows "\<exists>ev'. eval_run ev ls = Some (replicate (length ls) [False], ev')"
  using assms
proof (induction ls arbitrary: i ev old new)
  case (Cons l ls)
  from unrecorded_formula [of c l "int i" old new] Cons.prems(1,2) obtain r
    where r: "EvaluateFormula l (int i) old c new = Some (r, new)" by auto
  have "\<not> bv_test old k" for k using Cons.prems(10) by (metis bits.tst_elems empty_iff)
  then have e: "eval_formulas l (int i) [AST_Y n c] [old] [new] = Some ([False], [new], [clear_bv new])" by (simp add: r)
  have c: "cinc (int i) = Some (int (Suc i))" using Cons.prems(3) by (simp add: cinc_def)
  have s: "EvaluateOneStep l ev = Some ([False], ev\<lparr>old_bv := [new], new_bv := [clear_bv new], index := int (Suc i)\<rparr>)"
    by (simp add: EvaluateOneStep_def Cons.prems(4-7) e c del: eval_formulas.simps)
  have "\<exists>ev'. eval_run (ev\<lparr>old_bv := [new], new_bv := [clear_bv new], index := int (Suc i)\<rparr>) ls
      = Some (replicate (length ls) [False], ev')"
    using Cons.prems by (intro Cons.IH [of "Suc i" _ new "clear_bv new"]) (simp_all add: bits.wf_wipe bits.elems_wipe)
  with s show ?case by auto
qed simp

text \<open>
  The bit of a comparison is never set, so \<open>Y\<close> applied directly to a comparison is false at
  every event, even when the comparison was true at the event before.
\<close>

lemma prev_comparison_never_true:
  assumes "recorded c = []" and "\<forall>l \<in> set ls. evaluable l c" and "length ls < 2 ^ 31"
  shows "\<exists>ev. eval_run (fresh_Evaluator [AST_Y n c]) ls = Some (replicate (length ls) [False], ev)"
proof -
  let ?b = "clear_bv (new_BitVector (uidx (snd (PreProcess 1 c))))"
  have b: "bv_wf ?b" "bits.elems ?b = {}" by (simp_all add: bits.wf_wipe bits.elems_wipe bits.mk)
  have ev: "formulas (fresh_Evaluator [AST_Y n c]) = [AST_Y 0 (fst (PreProcess 1 c))]"
    "old_bv (fresh_Evaluator [AST_Y n c]) = [?b]" "new_bv (fresh_Evaluator [AST_Y n c]) = [?b]"
    "index (fresh_Evaluator [AST_Y n c]) = int 0"
    by (simp_all add: fresh_Evaluator_def new_Evaluator_def DoPreProcess_def empty_bvs_def case_prod_unfold Let_def)
  show ?thesis
    using prev_unrecorded_run [of "fst (PreProcess 1 c)" ls 0, OF _ _ _ ev b(1,1,2,2)] assms by simp
qed

lemma prev_comparison_never_true_sample:
  "(\<exists>ev. eval_run (fresh_Evaluator [AST_Y 0 (AST_EQ 0 (AST_ID 0 ''login'') (AST_BOOL 0 True))])
      [[(''login'', ''true'')], [(''login'', ''true'')]] = Some ([[False], [False]], ev))
   \<and> holds (\<lambda>k. [[(''login'', ''true'')], [(''login'', ''true'')]] ! k) (AST_Y 0 (AST_EQ 0 (AST_ID 0 ''login'') (AST_BOOL 0 True))) 1"
  using prev_comparison_never_true [of "AST_EQ 0 (AST_ID 0 ''login'') (AST_BOOL 0 True)"
      "[[(''login'', ''true'')], [(''login'', ''true'')]]" 0]
  by (simp add: compare_str_def getLabel_def bool_str_def)

end
