(* ===== verification/Ltl_Types.thy ===== *)
theory Ltl_Types
  imports Ltl_Evaluator
begin

text \<open>
  What the two checks of the evaluator, the type check of the formulas at the start and
  \<open>IsSane\<close> on the labels of every event, are good for: together they exclude every assertion and
  exception in the evaluation of the formulas, but for two gaps the theorems name.
\<close>

section \<open>Labels of integer variables\<close>

lemma digits_value:
  "list_all isdigit ds \<Longrightarrow> 0 \<le> v \<Longrightarrow>
   0 \<le> fold (\<lambda>c v. 10 * v + (int (bval c) - 48)) ds v
   \<and> fold (\<lambda>c v. 10 * v + (int (bval c) - 48)) ds v < (v + 1) * 10 ^ length ds"
proof (induction ds arbitrary: v)
  case (Cons c ds)
  let ?v = "10 * v + (int (bval c) - 48)"
  have c: "48 \<le> bval c" "bval c \<le> 57" using Cons.prems(1) by (simp_all add: isdigit_def)
  then have v: "0 \<le> ?v" "?v + 1 \<le> 10 * (v + 1)" using Cons.prems(2) by simp_all
  from Cons.IH [OF _ v(1)] Cons.prems(1)
  have "0 \<le> fold (\<lambda>c v. 10 * v + (int (bval c) - 48)) ds ?v"
    "fold (\<lambda>c v. 10 * v + (int (bval c) - 48)) ds ?v < (?v + 1) * 10 ^ length ds" by simp_all
  moreover have "(?v + 1) * 10 ^ length ds \<le> (10 * (v + 1)) * 10 ^ length ds"
    using v(2) by (intro mult_right_mono) simp_all
  moreover have "(10 * (v + 1)) * 10 ^ length ds = (v + 1) * 10 ^ length (c # ds)" by simp
  ultimately have "0 \<le> fold (\<lambda>c v. 10 * v + (int (bval c) - 48)) ds ?v
      \<and> fold (\<lambda>c v. 10 * v + (int (bval c) - 48)) ds ?v < (v + 1) * 10 ^ length (c # ds)"
    by linarith
  then show ?case by (simp only: fold_Cons o_apply)
qed simp

lemma strtol10_number:
  assumes "isNumberFormat v" and "v \<noteq> ''-''" and "length v \<le> 9"
  shows "\<exists>i. strtol10 v = Some i \<and> - 1000000000 < i \<and> i < 1000000000"
proof -
  obtain c cs where v: "v = c # cs" using assms(1) by (cases v) (auto simp: isNumberFormat_def)
  define ds where "ds = (if c = CHR ''-'' then cs else v)"
  have ds: "list_all isdigit ds" "ds \<noteq> []" "length ds \<le> 9"
    using assms v by (auto simp: ds_def isNumberFormat_def)
  have notsp: "\<not> isspace c" "c \<noteq> CHR ''+''"
    using ds(1) v by (auto simp: ds_def isdigit_def isspace_def bval_def split: if_splits)
  have tw: "takeWhile isdigit ds = ds" using ds(1) by (simp only: takeWhile_eq_all_conv list_all_iff)
  let ?w = "fold (\<lambda>c v. 10 * v + (int (bval c) - 48)) ds 0"
  have "strtol10 v = Some (if c = CHR ''-'' then - ?w else ?w)"
  proof -
    have s1: "dropWhile isspace v = v" "(v \<noteq> [] \<and> hd v = CHR ''-'') = (c = CHR ''-'')" using notsp(1) by (simp_all add: v)
    have s2: "(if v \<noteq> [] \<and> (hd v = CHR ''-'' \<or> hd v = CHR ''+'') then tl v else v) = ds"
      using notsp(2) by (simp add: ds_def v)
    show ?thesis unfolding strtol10_def Let_def s1 s2 tw using ds(2) by simp
  qed
  moreover have "(10 :: int) ^ length ds \<le> 10 ^ 9" using ds(3) by (intro power_increasing) simp_all
  then have "0 \<le> ?w \<and> ?w < 1000000000" using digits_value [OF ds(1), of 0] by simp
  ultimately show ?thesis by auto
qed

lemma stoi_number: "isNumberFormat v \<Longrightarrow> v \<noteq> ''-'' \<Longrightarrow> length v \<le> 9 \<Longrightarrow> stoi v \<noteq> None"
  using strtol10_number [of v] by (fastforce simp: stoi_def)

section \<open>Sane labels\<close>

lemma IsSane_entry:
  "IsSane tc l = Some True \<Longrightarrow> (x, v) \<in> set l \<Longrightarrow> \<exists>ty. getType tc x = Some ty
    \<and> (fst ty = ''INT'' \<longrightarrow> isNumberFormat v)
    \<and> (fst ty = ''ENUM'' \<or> fst ty = ''BOOL'' \<longrightarrow> getType tc v = Some ty)"
  by (induction tc l rule: IsSane.induct) (auto simp: bind_eq_Some_conv split: if_splits)

text \<open>The variables of a formula, and that no truth constant stands where a formula is expected.\<close>

fun variables :: "ASTNode \<Rightarrow> string set" where
  "variables (AST_ID _ x) = {x}"
| "variables (AST_INT _ _) = {}"
| "variables (AST_BOOL _ _) = {}"
| "variables (AST_NOT _ f) = variables f"
| "variables (AST_H _ f) = variables f"
| "variables (AST_O _ f) = variables f"
| "variables (AST_Y _ f) = variables f"
| "variables (AST_ARROW _ f g) = variables f \<union> variables g"
| "variables (AST_AND _ f g) = variables f \<union> variables g"
| "variables (AST_OR _ f g) = variables f \<union> variables g"
| "variables (AST_S _ f g) = variables f \<union> variables g"
| "variables (AST_EQ _ f g) = variables f \<union> variables g"
| "variables (AST_NEQ _ f g) = variables f \<union> variables g"
| "variables (AST_GT _ f g) = variables f \<union> variables g"
| "variables (AST_GTE _ f g) = variables f \<union> variables g"
| "variables (AST_LT _ f g) = variables f \<union> variables g"
| "variables (AST_LTE _ f g) = variables f \<union> variables g"

fun constant_free :: "ASTNode \<Rightarrow> bool" where
  "constant_free (AST_NOT _ f) = constant_free f"
| "constant_free (AST_H _ f) = constant_free f"
| "constant_free (AST_O _ f) = constant_free f"
| "constant_free (AST_Y _ f) = constant_free f"
| "constant_free (AST_ARROW _ f g) = (constant_free f \<and> constant_free g)"
| "constant_free (AST_AND _ f g) = (constant_free f \<and> constant_free g)"
| "constant_free (AST_OR _ f g) = (constant_free f \<and> constant_free g)"
| "constant_free (AST_S _ f g) = (constant_free f \<and> constant_free g)"
| "constant_free (AST_BOOL _ _) = False"
| "constant_free _ = True"

definition labelled :: "TypeChecker \<Rightarrow> labels \<Rightarrow> string set \<Rightarrow> bool" where
  "labelled tc l xs \<longleftrightarrow> IsSane tc l = Some True \<and> (\<forall>x \<in> xs. getLabel l x \<noteq> None)
     \<and> (\<forall>(x, v) \<in> set l. fst (the (getType tc x)) = ''INT'' \<longrightarrow> v \<noteq> ''-'' \<and> length v \<le> 9)"

lemma labelled_Un: "labelled tc l (xs \<union> ys) \<longleftrightarrow> labelled tc l xs \<and> labelled tc l ys"
  by (auto simp: labelled_def)

lemma int_operand_typed:
  assumes "labelled tc l (variables a)" and "is_TERM a" and "TypeCheck tc a = (True, ty)" and "fst ty = ''INT''"
  shows "int_operand l a \<noteq> None"
  using assms
proof (cases a)
  case (AST_ID n x)
  obtain v where v: "getLabel l x = Some v" "(x, v) \<in> set l"
    using assms(1) AST_ID by (auto simp: labelled_def getLabel_def dest: map_of_SomeD)
  have ty: "getType tc x = Some ty" using assms(3) AST_ID by (auto simp: getType_def split: option.splits)
  from IsSane_entry [of tc l x v] assms(1,4) v(2) ty have "isNumberFormat v" "v \<noteq> ''-''" "length v \<le> 9"
    by (auto simp: labelled_def)
  from stoi_number [OF this] show ?thesis using AST_ID v(1) by simp
qed auto

lemma str_operand_labelled: "labelled tc l (variables a) \<Longrightarrow> is_TERM a \<Longrightarrow> str_operand l a \<noteq> None"
  by (cases a) (auto simp: labelled_def)

lemma compare_int_typed:
  assumes "fst (int_type (TypeCheck tc a) (TypeCheck tc b))" and "is_TERM a" and "is_TERM b"
    and "labelled tc l (variables a \<union> variables b)"
  shows "compare_int cmp l a b \<noteq> None"
proof -
  obtain ty where "TypeCheck tc a = (True, ty)" "TypeCheck tc b = (True, ty)" "fst ty = ''INT''"
    using assms(1) by (cases "TypeCheck tc a"; cases "TypeCheck tc b") (auto simp: int_type_def split: if_splits)
  then show ?thesis
    using int_operand_typed [of tc l a ty] int_operand_typed [of tc l b ty] assms(2-4)
    by (auto simp: compare_int_def labelled_Un)
qed

lemma compare_str_labelled:
  "is_TERM a \<Longrightarrow> is_TERM b \<Longrightarrow> labelled tc l (variables a \<union> variables b) \<Longrightarrow> compare_str cmp l a b \<noteq> None"
  using str_operand_labelled [of tc l a] str_operand_labelled [of tc l b] by (auto simp: compare_str_def labelled_Un)

lemma id_is_TERM: "is_AST_ID a \<Longrightarrow> is_TERM a"
  by (cases a) auto

lemma typed_evaluable:
  assumes "fst (TypeCheck tc f)" and "is_Formula f" and "constant_free f" and "labelled tc l (variables f)"
  shows "evaluable l f"
  using assms
proof (induction f)
qed (auto simp: both_def one_def labelled_Un split: if_splits dest!: id_is_TERM
    intro: compare_int_typed [where tc = tc, unfolded not_None_eq] compare_str_labelled [where tc = tc, unfolded not_None_eq])

section \<open>Type soundness\<close>

text \<open>
  C13 (type): type soundness of the evaluator for a part of the specifications, those that the type
  checker accepts, in which neither \<open>true\<close> nor \<open>false\<close> stands as a formula and no \<open>Y\<close> stands directly over
  a comparison (\<^const>\<open>in_step\<close> asks for the latter; a comparison leaves no bit for the next event).
  When the labels of an event pass \<open>IsSane\<close> and label every variable of the formulas, with integers of
  at most nine characters that are not a lone minus sign, one step at any of the first \<open>2\<^sup>3\<^sup>1 - 1\<close>
  events of a run evaluates all formulas without a failed assertion or an exception, gives the verdicts
  of the semantics and keeps the evaluator in step with it. The excluded cases are real gaps: see below
  for the constants and the lone minus sign.
\<close>

theorem type_checked_step:
  assumes "new_TypeChecker (annotations, fs) = Some tc" and "list_all is_Formula fs" and "list_all constant_free fs"
    and "labelled tc (\<sigma> i) (\<Union> (variables ` set fs))"
    and "in_step \<sigma> i ev" and "formulas ev = fst (DoPreProcess fs)" and "i < 2 ^ 31 - 1"
  shows "\<exists>ev'. EvaluateOneStep (\<sigma> i) ev = Some (map (\<lambda>f. holds \<sigma> f i) fs, ev') \<and> in_step \<sigma> (Suc i) ev'"
proof -
  have "evaluable (\<sigma> i) f" if "f \<in> set fs" for f
  proof (rule typed_evaluable)
    show "fst (TypeCheck tc f)" using assms(1) that
      by (auto simp: new_TypeChecker_def bind_eq_Some_conv list_all_iff split: if_splits)
    show "is_Formula f" "constant_free f" using assms(2,3) that by (simp_all add: list_all_iff)
    show "labelled tc (\<sigma> i) (variables f)" using assms(4) that by (auto simp: labelled_def)
  qed
  then have "\<forall>f \<in> set (formulas ev). evaluable (\<sigma> i) f" by (simp add: assms(6) DoPreProcess_def)
  from EvaluateOneStep_in_step [OF assms(5) this] assms(7) show ?thesis
    by (auto simp: assms(6) DoPreProcess_def o_def)
qed

text \<open>The two gaps: a formula that is a constant passes the type check, and a lone minus sign passes \<open>IsSane\<close>.\<close>

lemma constant_formula_fails: "fst (TypeCheck tc (AST_BOOL n b)) \<and> EvaluateFormula l i old (AST_BOOL n b) new = None"
  by simp

lemma minus_sign_fails: "isNumberFormat ''-'' \<and> stoi ''-'' = None"
  by (simp add: isNumberFormat_def stoi_def strtol10_def isspace_def bval_def)

theorem type_checked_step_witness:
  "\<exists>ev'. EvaluateOneStep [(''epoch'', ''3'')] (fresh_Evaluator [AST_H 0 (AST_GTE 0 (AST_ID 0 ''epoch'') (AST_INT 0 0))])
     = Some ([True], ev')"
proof -
  let ?f = "AST_H 0 (AST_GTE 0 (AST_ID 0 ''epoch'') (AST_INT 0 0))" and ?l = "[(''epoch'', ''3'')]"
  let ?tc = "\<lparr>TypeContext = [''epoch'' \<mapsto> (''INT'', []), ''true'' \<mapsto> (''BOOL'', []), ''false'' \<mapsto> (''BOOL'', [])], constant_list = []\<rparr>"
  have tc: "new_TypeChecker ([AST_INT_TYPE ''epoch''], [?f]) = Some ?tc"
    by (simp add: new_TypeChecker_def LoadTypeContext_def load_annotation_def one_def int_type_def)
  have lab: "labelled ?tc ?l (\<Union> (variables ` set [?f]))"
    by (simp add: labelled_def getType_def getLabel_def isNumberFormat_def isdigit_def bval_def)
  have "stoi ''3'' = Some 3" by (simp add: stoi_def strtol10_def isspace_def isdigit_def bval_def)
  then have h: "holds (\<lambda>_. ?l) ?f 0" by (simp add: holds.simps(7) compare_int_def getLabel_def)
  have st: "in_step (\<lambda>_. ?l) 0 (fresh_Evaluator [?f])" by (rule in_step_initial) simp
  have f: "formulas (fresh_Evaluator [?f]) = fst (DoPreProcess [?f])" by (simp add: formulas_fresh DoPreProcess_def)
  have "list_all is_Formula [?f]" "list_all constant_free [?f]" "(0 :: nat) < 2 ^ 31 - 1" by simp_all
  from type_checked_step [OF tc this(1,2) lab st f this(3)] h show ?thesis by (simp only: list.map) blast
qed

end
