(* ===== verification/Monitor_Main.thy ===== *)
theory Monitor_Main
  imports Ltl_Types Adapter "HOL-Library.AList"
begin

text \<open>
  The evaluator process, \<open>evaluator-src/main.cpp\<close>: it reads lines, treats the control lines (save,
  restore, end of session) and evaluates all formulas on every other line. Modelled are its state and
  what it writes to standard output, which the fuzzer reads; the log files and the diagnostics on
  standard error are not. \<open>None\<close> is the end of the process by a failed assertion or an uncaught
  exception. The pairs of a line are an \<open>unordered_map\<close>; the model keeps them in the order of their
  first occurrence, on which nothing depends: the labels are kept sorted.
\<close>

section \<open>Lines\<close>

definition trim_space :: "byte \<Rightarrow> bool" where
  "trim_space c \<longleftrightarrow> c \<in> set [CHR '' '', CHR 0x09, CR, LF]"

definition trim :: "string \<Rightarrow> string" where
  "trim s = rev (dropWhile trim_space (rev (dropWhile trim_space s)))"

definition kv_pairs :: "string \<Rightarrow> kv list" where
  "kv_pairs line =
     fold (\<lambda>tok m. case kv_of_token tok of None \<Rightarrow> m | Some (k, v) \<Rightarrow> AList.update k v m) (split_ws [] line) []"

text \<open>\<open>std::stol\<close> and \<open>std::stoul\<close>, for a \<open>long\<close> of 64 bits.\<close>

definition stol :: "string \<Rightarrow> int option" where
  "stol s = do {
     v \<leftarrow> strtol10 s;
     if - (2 ^ 63) \<le> v \<and> v < 2 ^ 63 then Some v else None
   }"

definition stoul :: "string \<Rightarrow> nat option" where
  "stoul s = do {
     v \<leftarrow> strtol10 s;
     if \<bar>v\<bar> < 2 ^ 64 then Some (nat (v mod 2 ^ 64)) else None
   }"

text \<open>\<open>unsigned int snap_id = std::stoul(line.substr(n))\<close>; \<open>substr\<close> throws behind the end.\<close>

definition snap_id :: "nat \<Rightarrow> string \<Rightarrow> nat option" where
  "snap_id n line = (if length line < n then None else do { v \<leftarrow> stoul (drop n line); Some (v mod 2 ^ 32) })"

section \<open>The state of the process\<close>

record TraceRef =
  tr_msg_id :: string
  tr_dir :: string
  tr_trace :: string

definition TRACE_WINDOW :: nat where
  "TRACE_WINDOW = 20"

record EvaluatorState =
  st_index :: int
  st_event_count :: nat
  st_session_count :: nat
  st_old_bv :: "BitVector list"
  st_new_bv :: "BitVector list"

record Monitor =
  eval :: Evaluator
  event_count :: nat
  session_count :: nat
  total_violations :: nat
  session_trace :: "kv list list"
  saved_states :: "nat \<rightharpoonup> EvaluatorState"
  recent_traces :: "TraceRef list"

definition new_Monitor :: "ASTNode list \<Rightarrow> Monitor" where
  "new_Monitor fs = \<lparr>eval = fresh_Evaluator fs, event_count = 0, session_count = 0, total_violations = 0,
     session_trace = [], saved_states = Map.empty, recent_traces = []\<rparr>"

section \<open>Control lines\<close>

definition save_state :: "nat \<Rightarrow> Monitor \<Rightarrow> Monitor" where
  "save_state snap m = m\<lparr>saved_states := (saved_states m)(snap \<mapsto>
     \<lparr>st_index = index (eval m), st_event_count = event_count m, st_session_count = session_count m,
      st_old_bv = old_bv (eval m), st_new_bv = new_bv (eval m)\<rparr>)\<rparr>"

definition restore_state :: "EvaluatorState \<Rightarrow> Monitor \<Rightarrow> Monitor" where
  "restore_state st m = m\<lparr>
     eval := (eval m)\<lparr>index := st_index st, old_bv := st_old_bv st, new_bv := st_new_bv st\<rparr>,
     event_count := st_event_count st, session_count := st_session_count st,
     session_trace := (if length (session_trace m) > st_event_count st
       then take (st_event_count st) (session_trace m) else session_trace m)\<rparr>"

definition end_session :: "Monitor \<Rightarrow> Monitor" where
  "end_session m = m\<lparr>session_count := session_count m + 1, eval := reset_evaluator (eval m),
     event_count := 0, session_trace := []\<rparr>"

section \<open>Events\<close>

definition note_trace :: "kv list \<Rightarrow> TraceRef list \<Rightarrow> TraceRef list" where
  "note_trace kv trs = (case (map_of kv ''msg_id'', map_of kv ''trace'') of
       (Some i, Some t) \<Rightarrow>
         let trs1 = trs @ [\<lparr>tr_msg_id = i, tr_dir = (case map_of kv ''dir'' of None \<Rightarrow> ''-'' | Some d \<Rightarrow> d), tr_trace = t\<rparr>] in
         if length trs1 > TRACE_WINDOW then tl trs1 else trs1
     | _ \<Rightarrow> trs)"

text \<open>The derived pair \<open>id_mismatch\<close>.\<close>

definition stol_of :: "kv list \<Rightarrow> string \<Rightarrow> int option option" where
  "stol_of kv k = (case map_of kv k of None \<Rightarrow> Some None | Some v \<Rightarrow> map_option Some (stol v))"

definition derive_kv :: "kv list \<Rightarrow> kv list option" where
  "derive_kv kv = do {
     qid \<leftarrow> stol_of kv ''q_id'';
     respid \<leftarrow> stol_of kv ''resp_id'';
     Some (case (qid, respid) of
         (Some q, Some r) \<Rightarrow>
           if map_of kv ''id_mismatch'' = None then AList.update ''id_mismatch'' (bool_str (q \<noteq> r)) kv else kv
       | _ \<Rightarrow> kv)
   }"

definition kMetaKeys :: "string list" where
  "kMetaKeys = [''msg_id'', ''dir'', ''trace'']"

fun add_labels :: "kv list \<Rightarrow> labels \<Rightarrow> labels option" where
  "add_labels [] l = Some l"
| "add_labels ((k, v) # kv) l =
     (if k \<in> set kMetaKeys \<or> k = [] \<or> v = [] then add_labels kv l
      else do { l1 \<leftarrow> addLabel k v l; add_labels kv l1 })"

text \<open>The labels of an event, and the assertion that they are sane.\<close>

definition event_labels :: "TypeChecker \<Rightarrow> kv list \<Rightarrow> labels option" where
  "event_labels tc kv = do {
     l \<leftarrow> add_labels kv (new_State tc);
     sane \<leftarrow> IsSane tc l;
     if sane then Some l else None
   }"

definition is_valid_response :: "string \<Rightarrow> kv list \<Rightarrow> bool" where
  "is_valid_response proto_tag kv = (
     let has = (\<lambda>k v. map_of kv k = Some v);
         not_timeout = (map_of kv ''timeout'' = None \<or> has ''timeout'' ''false'');
         other = (\<lambda>k v. map_of kv k \<noteq> None \<and> \<not> has k v) in
     if proto_tag = ''dnsmasq'' \<or> proto_tag = ''dns'' then has ''response_valid'' ''true''
     else if proto_tag = ''ssh'' then has ''encrypted'' ''true'' \<and> has ''mac_ok'' ''true''
     else if proto_tag = ''rtsp'' then not_timeout \<and> other ''status_class'' ''scNotSet''
     else if proto_tag = ''dtls'' then other ''response'' ''responseNotSet''
     else if proto_tag = ''sip'' then has ''sip_msg_type'' ''response'' \<and> not_timeout
     else if proto_tag = ''ftp'' then not_timeout \<and> other ''ftp_status_class'' ''scNotSet''
     else True)"

definition process_event :: "string \<Rightarrow> TypeChecker \<Rightarrow> Monitor \<Rightarrow> string \<Rightarrow> (Monitor \<times> string list) option" where
  "process_event proto_tag tc m line = (
     let kv = kv_pairs line;
         m1 = m\<lparr>recent_traces := note_trace kv (recent_traces m), event_count := event_count m + 1,
                session_trace := session_trace m @ [kv]\<rparr> in do {
       kv1 \<leftarrow> derive_kv kv;
       l \<leftarrow> event_labels tc kv1;
       (verdicts, ev) \<leftarrow> EvaluateOneStep l (eval m1);
       let m2 = m1\<lparr>eval := ev\<rparr>;
       if False \<in> set verdicts \<and> is_valid_response proto_tag kv1 then
         let n = total_violations m2 + 1 in
         Some (m2\<lparr>total_violations := n\<rparr>, [''VIOLATION_DETECTED:'' @ udec n])
       else Some (m2, [])
     })"

section \<open>The loop\<close>

definition process_line :: "string \<Rightarrow> TypeChecker \<Rightarrow> Monitor \<Rightarrow> string \<Rightarrow> (Monitor \<times> string list) option" where
  "process_line proto_tag tc m line0 = (
     let line = trim line0 in
     if line = [] then Some (m, [])
     else if take 14 line = ''__SAVE_STATE__'' then do {
       snap \<leftarrow> snap_id 15 line;
       Some (save_state snap m, [''STATE_SAVED:'' @ udec snap])
     }
     else if take 17 line = ''__RESTORE_STATE__'' then do {
       snap \<leftarrow> snap_id 18 line;
       case saved_states m snap of
         None \<Rightarrow> Some (m, [''STATE_RESTORE_FAILED:'' @ udec snap])
       | Some st \<Rightarrow> Some (restore_state st m, [''STATE_RESTORED:'' @ udec snap])
     }
     else if line = ''__END_SESSION__'' then Some (end_session m, [])
     else process_event proto_tag tc m line)"

fun process_lines :: "string \<Rightarrow> TypeChecker \<Rightarrow> Monitor \<Rightarrow> string list \<Rightarrow> (Monitor \<times> string list) option" where
  "process_lines proto_tag tc m [] = Some (m, [])"
| "process_lines proto_tag tc m (line # ls) = do {
     (m1, out1) \<leftarrow> process_line proto_tag tc m line;
     (m2, out2) \<leftarrow> process_lines proto_tag tc m1 ls;
     Some (m2, out1 @ out2)
   }"

definition monitor_main :: "string \<Rightarrow> Spec \<Rightarrow> string list \<Rightarrow> (Monitor \<times> string list) option" where
  "monitor_main proto_tag spec ls = do {
     tc \<leftarrow> new_TypeChecker spec;
     (m, out) \<leftarrow> process_lines proto_tag tc (new_Monitor (snd spec)) ls;
     Some (m, ''Type check passed.'' # out)
   }"

section \<open>Basic facts\<close>

lemma map_of_kv_pairs: "map_of (kv_pairs line) = parse_kv_line line"
proof -
  have "map_of (fold (\<lambda>tok m. case kv_of_token tok of None \<Rightarrow> m | Some (k, v) \<Rightarrow> AList.update k v m) toks m)
    = fold (\<lambda>tok m. case kv_of_token tok of None \<Rightarrow> m | Some (k, v) \<Rightarrow> m(k \<mapsto> v)) toks (map_of m)" for toks m
    by (induction toks arbitrary: m) (auto simp: update_conv' split: option.splits)
  from this [of "split_ws [] line" "[]"] show ?thesis by (simp add: kv_pairs_def parse_kv_line_def)
qed

lemma dropWhile_hd: "l \<noteq> [] \<Longrightarrow> \<not> P (hd l) \<Longrightarrow> dropWhile P l = l"
  by (cases l) auto

lemma trim_id: "l \<noteq> [] \<Longrightarrow> \<not> trim_space (hd l) \<Longrightarrow> \<not> trim_space (last l) \<Longrightarrow> trim l = l"
  by (simp add: trim_def dropWhile_hd hd_rev)

lemma strtol10_udec: "strtol10 (udec n) = Some (int n)"
proof -
  have h: "isdigit (hd (udec n))" using udec_digits [of _ n] hd_in_set [OF udec_nonempty] by blast
  then have "\<not> isspace (hd (udec n))" "hd (udec n) \<noteq> CHR ''-''" "hd (udec n) \<noteq> CHR ''+''"
    by (auto simp: isdigit_def isspace_def bval_def)
  then show ?thesis unfolding strtol10_def Let_def by (simp add: dropWhile_hd digits_udec)
qed

text \<open>The two control lines, as the fuzzer prints them.\<close>

definition save_line :: "nat \<Rightarrow> string" where
  "save_line n = ''__SAVE_STATE__ '' @ udec n"

definition restore_line :: "nat \<Rightarrow> string" where
  "restore_line n = ''__RESTORE_STATE__ '' @ udec n"

lemma not_space_digit: "isdigit c \<Longrightarrow> \<not> trim_space c"
  by (auto simp: isdigit_def trim_space_def bval_def)

lemma stoul_udec: "n < 2 ^ 32 \<Longrightarrow> stoul (udec n) = Some n"
  by (simp add: stoul_def strtol10_udec)

lemma trim_control: "trim (save_line n) = save_line n" "trim (restore_line n) = restore_line n"
proof -
  have l: "\<not> trim_space (last (udec n))" using not_space_digit udec_digits last_in_set [OF udec_nonempty] by blast
  show "trim (save_line n) = save_line n"
    by (rule trim_id) (use l in \<open>simp_all add: save_line_def\<close>, simp add: trim_space_def)
  show "trim (restore_line n) = restore_line n"
    by (rule trim_id) (use l in \<open>simp_all add: restore_line_def\<close>, simp add: trim_space_def)
qed

lemma snap_id_control: "n < 2 ^ 32 \<Longrightarrow> snap_id 15 (save_line n) = Some n" "n < 2 ^ 32 \<Longrightarrow> snap_id 18 (restore_line n) = Some n"
  by (simp_all add: snap_id_def save_line_def restore_line_def stoul_udec)

lemma process_save: "n < 2 ^ 32 \<Longrightarrow> process_line p tc m (save_line n) = Some (save_state n m, [''STATE_SAVED:'' @ udec n])"
  unfolding process_line_def Let_def trim_control snap_id_control by (simp add: save_line_def)

lemma process_restore:
  "n < 2 ^ 32 \<Longrightarrow> saved_states m n = Some st \<Longrightarrow>
   process_line p tc m (restore_line n) = Some (restore_state st m, [''STATE_RESTORED:'' @ udec n])"
  unfolding process_line_def Let_def trim_control snap_id_control by (simp add: restore_line_def)

section \<open>Snapshots\<close>

text \<open>What no line changes: the formulas, their node counts, and snapshots it does not save.\<close>

definition saves :: "nat \<Rightarrow> string \<Rightarrow> bool" where
  "saves n line \<longleftrightarrow> take 14 (trim line) = ''__SAVE_STATE__'' \<and> snap_id 15 (trim line) = Some n"

definition same_spec :: "Monitor \<Rightarrow> Monitor \<Rightarrow> bool" where
  "same_spec m m' \<longleftrightarrow> formulas (eval m') = formulas (eval m) \<and> serial_numbers (eval m') = serial_numbers (eval m)"

lemma process_event_keeps:
  "process_event p tc m line = Some (m', out) \<Longrightarrow> same_spec m m' \<and> saved_states m' = saved_states m"
  by (auto simp: same_spec_def process_event_def Let_def EvaluateOneStep_def bind_eq_Some_conv split: if_splits)

lemma process_line_keeps:
  assumes "process_line p tc m line = Some (m', out)"
  shows "same_spec m m'" and "\<not> saves n line \<Longrightarrow> saved_states m' n = saved_states m n"
proof -
  note d = process_line_def Let_def bind_eq_Some_conv same_spec_def save_state_def restore_state_def end_session_def
    reset_evaluator_def saves_def
  show "same_spec m m'" using assms process_event_keeps [of p tc m "trim line" m' out]
    by (auto simp: d split: if_splits option.splits)
  show "saved_states m' n = saved_states m n" if "\<not> saves n line"
    using assms process_event_keeps [of p tc m "trim line" m' out] that
    by (auto simp: d split: if_splits option.splits)
qed

lemma process_lines_keeps:
  "process_lines p tc m ls = Some (m', out) \<Longrightarrow> \<forall>line \<in> set ls. \<not> saves n line \<Longrightarrow>
   same_spec m m' \<and> saved_states m' n = saved_states m n"
proof (induction ls arbitrary: m out)
  case (Cons line ls)
  then obtain m1 out1 out2 where s: "process_line p tc m line = Some (m1, out1)" "process_lines p tc m1 ls = Some (m', out2)"
    by (auto simp: bind_eq_Some_conv)
  from process_line_keeps [OF s(1)] Cons.IH [OF s(2)] Cons.prems(2) show ?case by (auto simp: same_spec_def)
qed (simp add: same_spec_def)

lemma process_lines_append:
  "process_lines p tc m (ls @ ks) = do {
     (m1, out1) \<leftarrow> process_lines p tc m ls;
     (m2, out2) \<leftarrow> process_lines p tc m1 ks;
     Some (m2, out1 @ out2)
   }"
proof (induction ls arbitrary: m)
  case (Cons line ls)
  then show ?case by (cases "process_line p tc m line") (auto simp: case_prod_unfold split: Option.bind_split)
qed (simp add: case_prod_unfold split: Option.bind_split)

text \<open>
  C6 (invariant): a snapshot brings the monitor back. Whatever lines are processed after a state was
  saved, events, ends of sessions, other snapshots and restores, as long as the number is not saved
  again, restoring it puts the evaluator, with its bit vectors and its position, and both counters
  back to what they were, so later events get the verdicts they would have got then. The violation
  count goes on, and the recorded session trace is only cut, never brought back.
\<close>

theorem snapshot_restores:
  assumes "n < 2 ^ 32" and "\<forall>line \<in> set ls. \<not> saves n line"
    and "process_lines p tc (save_state n m) ls = Some (m2, out)"
  shows "\<exists>m3. process_lines p tc m (save_line n # ls @ [restore_line n])
      = Some (m3, [''STATE_SAVED:'' @ udec n] @ out @ [''STATE_RESTORED:'' @ udec n])
    \<and> eval m3 = eval m \<and> event_count m3 = event_count m \<and> session_count m3 = session_count m
    \<and> total_violations m3 = total_violations m2 \<and> session_trace m3 = take (event_count m) (session_trace m2)"
proof -
  let ?st = "\<lparr>st_index = index (eval m), st_event_count = event_count m, st_session_count = session_count m,
      st_old_bv = old_bv (eval m), st_new_bv = new_bv (eval m)\<rparr>"
  from process_lines_keeps [OF assms(3,2)]
  have k: "same_spec m m2" "saved_states m2 n = Some ?st" by (simp_all add: same_spec_def save_state_def)
  have "process_lines p tc m (save_line n # ls @ [restore_line n])
      = Some (restore_state ?st m2, [''STATE_SAVED:'' @ udec n] @ out @ [''STATE_RESTORED:'' @ udec n])"
    using process_save [OF assms(1)] process_restore [OF assms(1) k(2)] assms(3) by (simp add: process_lines_append)
  moreover have "eval (restore_state ?st m2) = eval m"
    using k(1) by (simp add: restore_state_def same_spec_def)
  ultimately show ?thesis by (simp add: restore_state_def)
qed

lemma process_end: "process_line p tc m ''__END_SESSION__'' = Some (end_session m, [])"
  by (simp add: process_line_def trim_def trim_space_def)

theorem snapshot_restores_witness:
  "\<exists>m3. process_lines ''ftp'' \<lparr>TypeContext = Map.empty, constant_list = []\<rparr> (new_Monitor []) (save_line 7 # [''__END_SESSION__''] @ [restore_line 7])
      = Some (m3, [''STATE_SAVED:'' @ udec 7] @ [] @ [''STATE_RESTORED:'' @ udec 7]) \<and> eval m3 = fresh_Evaluator []"
proof -
  define tc where "tc = (\<lparr>TypeContext = Map.empty, constant_list = []\<rparr> :: TypeChecker)"
  have "\<forall>line \<in> set [''__END_SESSION__'']. \<not> saves 7 line" by (simp add: saves_def trim_def trim_space_def)
  moreover have "process_lines ''ftp'' tc (save_state 7 (new_Monitor [])) [''__END_SESSION__''] = Some (end_session (save_state 7 (new_Monitor [])), [])"
    by (simp add: process_end)
  moreover have "(7 :: nat) < 2 ^ 32" by simp
  ultimately show ?thesis using snapshot_restores [of 7 "[''__END_SESSION__'']"] unfolding tc_def by (fastforce simp: new_Monitor_def)
qed

section \<open>Verdicts\<close>

text \<open>A line an adapter prints is an event, never a control line.\<close>

lemma data_line_event:
  assumes "data_line line"
  shows "process_line p tc m line = process_event p tc m (trim line)"
proof -
  have h: "line \<noteq> []" "islower (hd line)" using assms by (simp_all add: data_line_def)
  then have ns: "\<not> trim_space (hd line)" by (auto simp: trim_space_def islower_def bval_def)
  define q where "q = rev (dropWhile trim_space (rev (tl line)))"
  have "dropWhile trim_space (rev (tl line) @ [hd line]) = dropWhile trim_space (rev (tl line)) @ [hd line]"
    using ns by (simp add: dropWhile_append dropWhile_eq_Nil_conv)
  then have "trim line = hd line # q"
    using h(1) ns by (cases line) (simp_all add: trim_def q_def)
  moreover have "hd line \<noteq> CHR ''_''" using h(2) by (auto simp: islower_def bval_def)
  ultimately show ?thesis by (simp add: process_line_def Let_def)
qed

text \<open>The lines after the first and before the next end of a session: what they say and mean.\<close>

definition event :: "TypeChecker \<Rightarrow> string \<Rightarrow> kv list \<Rightarrow> labels \<Rightarrow> bool" where
  "event tc line kv l \<longleftrightarrow> data_line line \<and> derive_kv (kv_pairs (trim line)) = Some kv \<and> event_labels tc kv = Some l"

fun events :: "TypeChecker \<Rightarrow> string list \<Rightarrow> kv list list \<Rightarrow> labels list \<Rightarrow> bool" where
  "events tc [] [] [] = True"
| "events tc (line # ls) (kv # kvs) (l # labs) = (event tc line kv l \<and> events tc ls kvs labs)"
| "events tc _ _ _ = False"

definition reported :: "string \<Rightarrow> (nat \<Rightarrow> labels) \<Rightarrow> ASTNode list \<Rightarrow> nat \<Rightarrow> kv list \<Rightarrow> bool" where
  "reported p \<sigma> fs i kv \<longleftrightarrow> (\<exists>f \<in> set fs. \<not> holds \<sigma> f i) \<and> is_valid_response p kv"

definition violation_lines :: "nat \<Rightarrow> nat \<Rightarrow> string list" where
  "violation_lines n k = map (\<lambda>i. ''VIOLATION_DETECTED:'' @ udec i) [Suc n..<Suc (n + k)]"

lemma violation_lines_add: "violation_lines n (a + b) = violation_lines n a @ violation_lines (n + a) b"
  using upt_add_eq_append [of "Suc n" "Suc (n + a)" b] by (simp add: violation_lines_def add.assoc del: upt_Suc)

lemma process_event_verdict:
  assumes "event tc line kv l" and "in_step \<sigma> i (eval m)" and "\<sigma> i = l" and "i < 2147483647"
    and "\<forall>f \<in> set (formulas (eval m)). evaluable l f"
  shows "\<exists>m'. process_line p tc m line = Some (m', violation_lines (total_violations m) (if reported p \<sigma> (formulas (eval m)) i kv then 1 else 0))
    \<and> in_step \<sigma> (Suc i) (eval m') \<and> formulas (eval m') = formulas (eval m)
    \<and> total_violations m' = total_violations m + (if reported p \<sigma> (formulas (eval m)) i kv then 1 else 0)"
proof -
  have ev: "data_line line" "derive_kv (kv_pairs (trim line)) = Some kv" "event_labels tc kv = Some l"
    using assms(1) by (simp_all add: event_def)
  from EvaluateOneStep_in_step [OF assms(2) _ assms(4)] assms(3,5) obtain e
    where e: "EvaluateOneStep l (eval m) = Some (map (\<lambda>f. holds \<sigma> f i) (formulas (eval m)), e)"
      "in_step \<sigma> (Suc i) e" "formulas e = formulas (eval m)" by auto
  have r: "reported p \<sigma> (formulas (eval m)) i kv
    \<longleftrightarrow> False \<in> set (map (\<lambda>f. holds \<sigma> f i) (formulas (eval m))) \<and> is_valid_response p kv"
    by (auto simp: reported_def)
  show ?thesis
    unfolding data_line_event [OF ev(1)] process_event_def Let_def ev(2)
    by (simp add: ev(3) e r violation_lines_def del: set_map)
qed

lemma process_lines_verdicts:
  assumes "events tc ls kvs labs" and "in_step \<sigma> i (eval m)" and "\<forall>k < length labs. \<sigma> (i + k) = labs ! k"
    and "\<forall>l \<in> set labs. \<forall>f \<in> set (formulas (eval m)). evaluable l f" and "i + length ls \<le> 2147483647"
  shows "\<exists>m'. process_lines p tc m ls = Some (m', violation_lines (total_violations m)
      (length (filter (\<lambda>k. reported p \<sigma> (formulas (eval m)) (i + k) (kvs ! k)) [0..<length ls])))"
  using assms
proof (induction tc ls kvs labs arbitrary: i m rule: events.induct)
  case (2 tc line ls kv kvs l labs)
  let ?r = "\<lambda>k. reported p \<sigma> (formulas (eval m)) (i + k) ((kv # kvs) ! k)"
  have l: "\<sigma> i = l" using 2(4) by force
  from process_event_verdict [of tc line kv l \<sigma> i m p] 2(2,3,5,6) l obtain m1
    where s: "process_line p tc m line = Some (m1, violation_lines (total_violations m) (if ?r 0 then 1 else 0))"
      "in_step \<sigma> (Suc i) (eval m1)" "formulas (eval m1) = formulas (eval m)"
      "total_violations m1 = total_violations m + (if ?r 0 then 1 else 0)" by auto
  have "\<forall>k < length labs. \<sigma> (Suc i + k) = labs ! k" using 2(4) by (metis add_Suc_shift length_Cons nth_Cons_Suc Suc_less_eq)
  from "2.IH" [OF _ s(2) this] 2(2,5,6) s(3) obtain m2
    where t: "process_lines p tc m1 ls = Some (m2, violation_lines (total_violations m1)
      (length (filter (\<lambda>k. ?r (Suc k)) [0..<length ls])))" by auto
  have "[0..<length (line # ls)] = 0 # map Suc [0..<length ls]" by (simp add: upt_conv_Cons map_Suc_upt del: upt_Suc)
  then have "length (filter ?r [0..<length (line # ls)])
    = (if ?r 0 then 1 else 0) + length (filter (\<lambda>k. ?r (Suc k)) [0..<length ls])"
    by (simp add: filter_map o_def del: upt_Suc)
  with s(1,4) t show ?case by (simp only: process_lines.simps bind.bind_lunit prod.case violation_lines_add) blast
qed (simp_all add: violation_lines_def)

lemma epoch_event:
  "events \<lparr>TypeContext = [''epoch'' \<mapsto> (''INT'', [])], constant_list = []\<rparr> [''epoch=3''] [[(''epoch'', ''3'')]] [[(''epoch'', ''3'')]]"
proof -
  let ?l = "[(''epoch'', ''3'')]" and ?tc = "\<lparr>TypeContext = [''epoch'' \<mapsto> (''INT'', [])], constant_list = []\<rparr>"
  have kv: "kv_pairs (trim ''epoch=3'') = ?l"
    by (simp add: trim_def trim_space_def kv_pairs_def kv_of_token_def isspace_def bval_def)
  have "derive_kv ?l = Some ?l" by (simp add: derive_kv_def stol_of_def)
  moreover have "event_labels ?tc ?l = Some ?l"
    by (simp add: event_labels_def new_State_def addLabel_def kMetaKeys_def getType_def isNumberFormat_def isdigit_def bval_def)
  moreover have "data_line ''epoch=3''" by (simp add: data_line_def islower_def line_char_def bval_def)
  ultimately show ?thesis by (simp add: event_def kv)
qed

text \<open>
  The monitor reports what it should. From the start of a session, for any
  formulas that apply \<open>Y\<close> to recorded nodes only and any event lines whose labels are sane and
  evaluable, the process does not end, and it writes exactly one \<open>VIOLATION_DETECTED\<close> line, numbered
  on, for every event at which some formula is false of the events so far and which the filter of
  the protocol takes as a response of the server.
\<close>

lemma monitor_reports_violations:
  assumes "\<forall>f \<in> set fs. prev_recorded f \<and> length (nodes f) < 2 ^ 31" and "eval m = fresh_Evaluator fs"
    and "events tc ls kvs labs" and "\<forall>l \<in> set labs. \<forall>f \<in> set fs. evaluable l f" and "length ls < 2 ^ 31"
  shows "\<exists>m'. process_lines p tc m ls = Some (m', violation_lines (total_violations m)
    (length (filter (\<lambda>i. reported p (\<lambda>k. labs ! k) fs i (kvs ! i)) [0..<length ls])))"
proof -
  have f: "formulas (eval m) = map (\<lambda>f. fst (PreProcess 0 f)) fs" by (simp add: assms(2) formulas_fresh)
  have "reported p \<sigma> (formulas (eval m)) i kv = reported p \<sigma> fs i kv" for \<sigma> i kv by (simp add: f reported_def)
  moreover have "in_step (\<lambda>k. labs ! k) 0 (eval m)" unfolding assms(2) by (rule in_step_initial [OF assms(1)])
  moreover have "\<forall>l \<in> set labs. \<forall>g \<in> set (formulas (eval m)). evaluable l g" using assms(4) by (simp add: f)
  ultimately show ?thesis using process_lines_verdicts [OF assms(3), of "\<lambda>k. labs ! k" 0 m p] assms(5) by simp
qed

end
