(* ===== verification/Monitor_Bridge.thy ===== *)
theory Monitor_Bridge
  imports Pred_Line
begin

text \<open>
  \<open>monitor-src/monitor_bridge.c\<close>: the fuzzer's end of the two pipes to the evaluator. What the
  evaluator has written and the fuzzer has not read yet is the list \<open>pipe\<close> of lines; the evaluator
  flushes line by line and its lines are shorter than the arrays they are read into. The stream
  \<open>eval_stdout\<close> has a buffer of its own: when it is empty, \<open>fgets\<close> reads everything that is in the
  pipe into it and returns the first line; otherwise it returns the next line of the buffer.
  \<open>select\<close> sees the pipe only. The lines that arrive while the fuzzer waits in \<open>select\<close> are a
  parameter, \<open>arrivals\<close>, one list for each call.
\<close>

section \<open>The handle\<close>

text \<open>Streams that are \<open>NULL\<close> are \<^const>\<open>None\<close>; \<open>eval_stdin\<close> keeps the lines written to it.\<close>

record monitor_handle =
  eval_stdin :: "string list option"
  eval_stdout :: "string list option"
  eval_pid :: int
  violation_detected :: int

text \<open>
  \<open>monitor_start\<close>: \<open>ok\<close> says which of its calls succeed, \<open>pid\<close> is what \<open>fork\<close> returns to the parent. The
  result is the handle, the descriptors that the fuzzer has open afterwards, and whether a child is
  left running.
\<close>

datatype start_call = Pipe_in | Pipe_out | Fork | Calloc | Fdopen_in | Fdopen_out

datatype fd = In_r | In_w | Out_r | Out_w

definition monitor_start :: "(start_call \<Rightarrow> bool) \<Rightarrow> int \<Rightarrow> monitor_handle option \<times> fd list \<times> bool" where
  "monitor_start ok pid = (
     if \<not> ok Pipe_in then (None, [], False)
     else let fds = [In_r, In_w] in
     if \<not> ok Pipe_out then (None, removeAll In_w (removeAll In_r fds), False)
     else let fds = fds @ [Out_r, Out_w] in
     if \<not> ok Fork then (None, removeAll Out_w (removeAll Out_r (removeAll In_w (removeAll In_r fds))), False)
     else let fds = removeAll Out_w (removeAll In_r fds) in
     if \<not> ok Calloc then (None, removeAll Out_r (removeAll In_w fds), False)
     else if \<not> ok Fdopen_in then (None, removeAll Out_r (removeAll In_w fds), False)
     else if \<not> ok Fdopen_out then (None, removeAll Out_r (removeAll In_w fds), False)
     else (Some \<lparr>eval_stdin = Some [], eval_stdout = Some [], eval_pid = pid, violation_detected = 0\<rparr>, fds, True))"

lemma monitor_start_no_leak:
  "monitor_start ok pid = (h, fds, running) \<Longrightarrow>
   if h = None then fds = [] \<and> \<not> running else fds = [In_w, Out_r] \<and> running"
  by (auto simp: monitor_start_def Let_def split: if_splits)

section \<open>Writing\<close>

definition put_line :: "monitor_handle \<Rightarrow> string \<Rightarrow> monitor_handle" where
  "put_line h line = h\<lparr>eval_stdin := map_option (\<lambda>out. out @ [line]) (eval_stdin h)\<rparr>"

definition monitor_emit_line :: "monitor_handle option \<Rightarrow> string option \<Rightarrow> monitor_handle option" where
  "monitor_emit_line h line = (case (h, line) of
       (Some h, Some l) \<Rightarrow> if eval_stdin h = None then Some h else Some (put_line h l)
     | _ \<Rightarrow> h)"

section \<open>Reading\<close>

definition is_violation :: "string \<Rightarrow> bool" where
  "is_violation response = list_ex (\<lambda>i. take 18 (drop i response) = ''VIOLATION_DETECTED'') [0..<Suc (length response)]"

text \<open>One \<open>fgets\<close>, given that \<open>select\<close> saw a line in the pipe.\<close>

fun fgets_line :: "string list \<Rightarrow> string list \<Rightarrow> (string \<times> string list \<times> string list) option" where
  "fgets_line (l # buf) pipe = Some (l, buf, pipe)"
| "fgets_line [] (l # pipe) = Some (l, pipe, [])"
| "fgets_line [] [] = None"

lemma fgets_line_length: "fgets_line buf pipe = Some (l, buf', pipe') \<Longrightarrow> length buf + length pipe = Suc (length buf' + length pipe')"
  by (cases "(buf, pipe)" rule: fgets_line.cases) auto

definition arrived :: "string list list \<Rightarrow> string list" where
  "arrived arrivals = (case arrivals of [] \<Rightarrow> [] | a # _ \<Rightarrow> a)"

lemma arrived_length: "length (concat arrivals) = length (arrived arrivals) + length (concat (tl arrivals))"
  by (cases arrivals) (simp_all add: arrived_def)

text \<open>The loop of \<open>monitor_end_session\<close>; it returns the flag, the stream buffer and the pipe.\<close>

function drain :: "string list list \<Rightarrow> string list \<Rightarrow> string list \<Rightarrow> int \<Rightarrow> int \<times> string list \<times> string list" where
  "drain arrivals buf pipe flag = (
     let pipe1 = pipe @ arrived arrivals in
     if pipe1 = [] then (flag, buf, [])
     else case fgets_line buf pipe1 of
         None \<Rightarrow> (flag, buf, pipe1)
       | Some (response, buf1, pipe2) \<Rightarrow>
           drain (tl arrivals) buf1 pipe2 (if is_violation response then 1 else flag))"
  by pat_completeness auto
termination
proof (relation "measure (\<lambda>(arrivals, buf, pipe, flag). length (concat arrivals) + length buf + length pipe)")
  show "((tl arrivals, buf1, pipe2, flag'), arrivals, buf, pipe, flag)
      \<in> measure (\<lambda>(arrivals, buf, pipe, flag). length (concat arrivals) + length buf + length pipe)"
    if "pipe1 = pipe @ arrived arrivals" "fgets_line buf pipe1 = Some x" "(response, y) = x" "(buf1, pipe2) = y"
    for arrivals buf pipe flag flag' pipe1 x response y buf1 pipe2
    using fgets_line_length [of buf pipe1 response buf1 pipe2] that arrived_length [of arrivals] by auto
qed simp

declare drain.simps [simp del]

definition monitor_end_session ::
  "string list list \<Rightarrow> monitor_handle option \<Rightarrow> string list \<Rightarrow> monitor_handle option \<times> string list" where
  "monitor_end_session arrivals h pipe = (case h of
       None \<Rightarrow> (None, pipe)
     | Some h \<Rightarrow>
         if eval_stdin h = None then (Some h, pipe)
         else let h1 = put_line h ''__END_SESSION__'' in
           case eval_stdout h1 of
             None \<Rightarrow> (Some h1, pipe)
           | Some buf \<Rightarrow>
               let (flag, buf', pipe') = drain arrivals buf pipe (violation_detected h1) in
               (Some (h1\<lparr>eval_stdout := Some buf', violation_detected := flag\<rparr>), pipe'))"

definition monitor_check_violation :: "monitor_handle option \<Rightarrow> int" where
  "monitor_check_violation h = (case h of None \<Rightarrow> 0 | Some h \<Rightarrow> violation_detected h)"

definition monitor_clear_violation :: "monitor_handle option \<Rightarrow> monitor_handle option" where
  "monitor_clear_violation h = map_option (\<lambda>h. h\<lparr>violation_detected := 0\<rparr>) h"

text \<open>\<open>monitor_stop\<close> frees the handle; \<open>status\<close> is what \<open>waitpid\<close> stores, when it succeeds.\<close>

definition monitor_stop :: "int option \<Rightarrow> monitor_handle option \<Rightarrow> int" where
  "monitor_stop status h = (case h of
       None \<Rightarrow> -1
     | Some h \<Rightarrow> if eval_pid h > 0 then (case status of None \<Rightarrow> 0 | Some s \<Rightarrow> s) else 0)"

text \<open>Saving and restoring: the command is written, and one line is read as its acknowledgement.\<close>

definition read_ack :: "string list list \<Rightarrow> monitor_handle \<Rightarrow> string list \<Rightarrow> monitor_handle \<times> string list" where
  "read_ack arrivals h pipe = (case eval_stdout h of
       None \<Rightarrow> (h, pipe)
     | Some buf \<Rightarrow>
         let pipe1 = pipe @ arrived arrivals in
         if pipe1 = [] then (h, [])
         else case fgets_line buf pipe1 of
             None \<Rightarrow> (h, pipe1)
           | Some (ack, buf1, pipe2) \<Rightarrow> (h\<lparr>eval_stdout := Some buf1\<rparr>, pipe2))"

definition monitor_save_bitvectors ::
  "string list list \<Rightarrow> monitor_handle option \<Rightarrow> 32 word \<Rightarrow> string list \<Rightarrow> monitor_handle option \<times> string list" where
  "monitor_save_bitvectors arrivals h snapshot_id pipe = (case h of
       None \<Rightarrow> (None, pipe)
     | Some h \<Rightarrow>
         if eval_stdin h = None then (Some h, pipe)
         else let (h', pipe') = read_ack arrivals (put_line h (''__SAVE_STATE__ '' @ udec (unat snapshot_id))) pipe in (Some h', pipe'))"

definition monitor_restore_bitvectors ::
  "string list list \<Rightarrow> monitor_handle option \<Rightarrow> 32 word \<Rightarrow> string list \<Rightarrow> monitor_handle option \<times> string list" where
  "monitor_restore_bitvectors arrivals h snapshot_id pipe = (case h of
       None \<Rightarrow> (None, pipe)
     | Some h \<Rightarrow>
         if eval_stdin h = None then (Some h, pipe)
         else let (h', pipe') = read_ack arrivals (put_line h (''__RESTORE_STATE__ '' @ udec (unat snapshot_id))) pipe in (Some h', pipe'))"

section \<open>What the loop sees\<close>

lemma drain_stop: "pipe = [] \<Longrightarrow> arrived arrivals = [] \<Longrightarrow> drain arrivals buf pipe flag = (flag, buf, [])"
  by (simp add: drain.simps [of arrivals])

lemma drain_step:
  assumes "pipe @ arrived arrivals \<noteq> []" and "fgets_line buf (pipe @ arrived arrivals) = Some (l, buf1, pipe2)"
  shows "drain arrivals buf pipe flag = drain (tl arrivals) buf1 pipe2 (if is_violation l then 1 else flag)"
  unfolding drain.simps [of arrivals] Let_def assms(2) if_not_P [OF assms(1)] by (simp only: option.case prod.case)

text \<open>
  Lines are read in order and none is lost: what has been looked at, what is left in the stream
  buffer and what is left in the pipe are together what was there or arrived.
\<close>

lemma drain_order:
  "drain arrivals buf pipe flag = (flag', buf', pipe') \<Longrightarrow>
   \<exists>seen later. buf @ pipe @ concat arrivals = seen @ buf' @ pipe' @ later
     \<and> flag' = (if list_ex is_violation seen then 1 else flag)"
proof (induction arrivals buf pipe flag rule: drain.induct)
  case (1 arrivals buf pipe flag)
  let ?p = "pipe @ arrived arrivals"
  have arr: "concat arrivals = arrived arrivals @ concat (tl arrivals)" by (cases arrivals) (simp_all add: arrived_def)
  show ?case
  proof (cases "?p = []")
    case True
    with "1.prems" have "flag' = flag" "buf' = buf" "pipe' = []" by (simp_all add: drain.simps [of arrivals])
    with True arr show ?thesis by (intro exI [of _ "[]"] exI [of _ "concat (tl arrivals)"]) simp
  next
    case False
    then obtain l buf1 pipe2 where f: "fgets_line buf ?p = Some (l, buf1, pipe2)" "buf @ ?p = l # buf1 @ pipe2"
      by (cases "(buf, ?p)" rule: fgets_line.cases) auto
    let ?flag = "if is_violation l then 1 else flag"
    have "drain (tl arrivals) buf1 pipe2 ?flag = (flag', buf', pipe')"
      using "1.prems" unfolding drain_step [OF False f(1)] .
    from "1.IH" [OF refl False f(1) refl refl this] obtain seen later
      where s: "buf1 @ pipe2 @ concat (tl arrivals) = seen @ buf' @ pipe' @ later"
        "flag' = (if list_ex is_violation seen then 1 else ?flag)" by blast
    have "buf @ pipe @ concat arrivals = (buf @ ?p) @ concat (tl arrivals)" by (simp add: arr)
    also have "\<dots> = (l # seen) @ buf' @ pipe' @ later" using f(2) s(1) by simp
    finally show ?thesis using s(2) by (intro exI [of _ "l # seen"] exI [of _ later]) simp
  qed
qed

text \<open>
  When all lines of the evaluator are in the pipe, the loop reads what the stream buffer still holds,
  takes the whole pipe into the buffer, reads its first line, and stops: the rest stays in the buffer.
\<close>

lemma drain_all_there:
  "pipe \<noteq> [] \<Longrightarrow> drain [] buf pipe flag = (if list_ex is_violation (buf @ [hd pipe]) then 1 else flag, tl pipe, [])"
proof (induction buf arbitrary: flag)
  case Nil
  have "fgets_line [] (pipe @ arrived []) = Some (hd pipe, tl pipe, [])"
    using Nil by (cases pipe) (simp_all add: arrived_def)
  from drain_step [OF _ this] Nil show ?case by (simp add: drain_stop arrived_def)
next
  case (Cons l buf)
  have "fgets_line (l # buf) (pipe @ arrived []) = Some (l, buf, pipe)" by (simp add: arrived_def)
  from drain_step [OF _ this] Cons show ?case by simp
qed

lemma drain_nothing: "drain [] buf [] flag = (flag, buf, [])"
  by (simp add: drain_stop arrived_def)

lemma violation_line: "is_violation (''VIOLATION_DETECTED:'' @ s)"
  unfolding is_violation_def list_ex_iff by (rule bexI [of _ 0]) (simp_all del: upt_Suc)

text \<open>
  As long as only violation lines are left in the buffer from earlier sessions and all lines of this
  session are violation lines, the flag is exact, and the condition holds again afterwards.
\<close>

lemma end_session_flag:
  assumes "eval_stdin h = Some sent" and "eval_stdout h = Some buf" and "list_all is_violation buf"
    and "list_all is_violation pipe" and "violation_detected h = 0"
  shows "\<exists>h' buf'. monitor_end_session [] (Some h) pipe = (Some h', [])
    \<and> monitor_check_violation (Some h') = (if pipe = [] then 0 else 1)
    \<and> eval_stdin h' = Some (sent @ [''__END_SESSION__'']) \<and> eval_stdout h' = Some buf' \<and> list_all is_violation buf'"
proof (cases pipe)
  case Nil
  with assms show ?thesis
    by (simp add: monitor_end_session_def put_line_def Let_def drain_nothing monitor_check_violation_def)
next
  case (Cons l ls)
  then have "drain [] buf pipe 0 = (1, ls, [])" using drain_all_there [of pipe buf 0] assms(4) by simp
  with assms Cons show ?thesis
    by (simp add: monitor_end_session_def put_line_def Let_def monitor_check_violation_def)
qed

text \<open>
  C32 (error): acknowledgements and violations share one pipe. When a violation is waiting there and a
  snapshot is saved, the violation is read as the acknowledgement and dropped, and everything else,
  further violations included, moves to the stream buffer; the session then ends without a report
  unless the evaluator writes another line.
\<close>

theorem save_drops_violation:
  assumes "eval_stdin h = Some sent" and "eval_stdout h = Some []" and "violation_detected h = 0"
    and "is_violation v"
  shows "\<exists>h1 h2. monitor_save_bitvectors arrivals (Some h) n (v # pipe) = (Some h1, [])
    \<and> eval_stdout h1 = Some (pipe @ arrived arrivals)
    \<and> monitor_end_session [] (Some h1) [] = (Some h2, [])
    \<and> monitor_check_violation (Some h2) = 0"
  using assms
  by (simp add: monitor_save_bitvectors_def read_ack_def put_line_def Let_def monitor_end_session_def
      drain_nothing monitor_check_violation_def)

theorem save_drops_violation_witness:
  "\<exists>h1 h2. monitor_save_bitvectors [[''STATE_SAVED:1'']]
      (Some \<lparr>eval_stdin = Some [], eval_stdout = Some [], eval_pid = 5, violation_detected = 0\<rparr>) 1
      [''VIOLATION_DETECTED:1'', ''VIOLATION_DETECTED:2''] = (Some h1, [])
    \<and> monitor_end_session [] (Some h1) [] = (Some h2, []) \<and> monitor_check_violation (Some h2) = 0"
proof -
  have "is_violation ''VIOLATION_DETECTED:1''" using violation_line [of "''1''"] by simp
  from save_drops_violation [of "\<lparr>eval_stdin = Some [], eval_stdout = Some [], eval_pid = 5, violation_detected = 0\<rparr>",
      OF _ _ _ this, of "[]" "[[''STATE_SAVED:1'']]" 1 "[''VIOLATION_DETECTED:2'']"]
  show ?thesis by fastforce
qed

end
