(* ===== verification/Monitor_Session.thy ===== *)
theory Monitor_Session
  imports Sip_Adapter Monitor_Main Monitor_Bridge
begin

text \<open>
  Evaluator, bridge and adapters together: from the lines of a session to the flag in the handle,
  and why the lines of the SIP adapter never lead to a violation.
\<close>

section \<open>From an event to the flag in the fuzzer\<close>

lemma violation_lines_are: "list_all is_violation (violation_lines n k)"
  by (simp add: violation_lines_def list_all_iff violation_line [simplified])

lemma violation_lines_Nil: "violation_lines n k = [] \<longleftrightarrow> k = 0"
  by (simp add: violation_lines_def)

text \<open>
  One session, from the emitted lines to the flag the fuzzer asks for. The evaluator
  processes the lines of a session that starts at the start of a trace; its output is in the pipe
  when the fuzzer ends the session, and what earlier sessions left in the stream buffer are
  violation lines. Then \<open>monitor_check_violation\<close> is 1 exactly when at some event a formula is
  false of the events so far and the protocol's filter accepts the event, and the next session
  finds the bridge in the same condition.
\<close>

lemma session_flag:
  assumes "\<forall>f \<in> set fs. prev_recorded f \<and> length (nodes f) < 2 ^ 31" and "eval m = fresh_Evaluator fs"
    and "events tc ls kvs labs" and "\<forall>l \<in> set labs. \<forall>f \<in> set fs. evaluable l f" and "length ls < 2 ^ 31"
    and "eval_stdin h = Some sent" and "eval_stdout h = Some buf" and "list_all is_violation buf" and "violation_detected h = 0"
  shows "\<exists>m' out h' buf'. process_lines p tc m ls = Some (m', out)
    \<and> monitor_end_session [] (Some h) out = (Some h', [])
    \<and> monitor_check_violation (Some h') = (if \<exists>i < length ls. reported p (\<lambda>k. labs ! k) fs i (kvs ! i) then 1 else 0)
    \<and> eval_stdout h' = Some buf' \<and> list_all is_violation buf'"
proof -
  define n where "n = length (filter (\<lambda>i. reported p (\<lambda>k. labs ! k) fs i (kvs ! i)) [0..<length ls])"
  from monitor_reports_violations [OF assms(1-5), of p] obtain m'
    where m: "process_lines p tc m ls = Some (m', violation_lines (total_violations m) n)" unfolding n_def by blast
  from end_session_flag [OF assms(6-8) violation_lines_are assms(9), of "total_violations m" n]
  obtain h' buf' where h: "monitor_end_session [] (Some h) (violation_lines (total_violations m) n) = (Some h', [])"
    "monitor_check_violation (Some h') = (if n = 0 then 0 else 1)" "eval_stdout h' = Some buf'" "list_all is_violation buf'"
    by (auto simp: violation_lines_Nil)
  have "n = 0 \<longleftrightarrow> \<not> (\<exists>i < length ls. reported p (\<lambda>k. labs ! k) fs i (kvs ! i))" by (auto simp: n_def filter_empty_conv)
  with h(2) have "monitor_check_violation (Some h') = (if \<exists>i < length ls. reported p (\<lambda>k. labs ! k) fs i (kvs ! i) then 1 else 0)"
    by simp
  with m h(1,3,4) show ?thesis by blast
qed

text \<open>A session of one event that violates its formula.\<close>

lemma epoch_session:
  defines "f \<equiv> AST_H 0 (AST_LT 0 (AST_ID 0 ''epoch'') (AST_INT 0 3))" and "l \<equiv> [(''epoch'', ''3'')]"
  shows "\<forall>g \<in> set [f]. prev_recorded g \<and> length (nodes g) < 2 ^ 31" "eval (new_Monitor [f]) = fresh_Evaluator [f]"
    "\<forall>x \<in> set [l]. \<forall>g \<in> set [f]. evaluable x g" "length [''epoch=3''] < 2 ^ 31"
    "\<exists>i < length [''epoch=3'']. reported ''generic'' (\<lambda>k. [l] ! k) [f] i ([l] ! i)"
proof -
  have i: "stoi ''3'' = Some 3" by (simp add: stoi_def strtol10_def isspace_def isdigit_def bval_def)
  then show "\<forall>g \<in> set [f]. prev_recorded g \<and> length (nodes g) < 2 ^ 31" "eval (new_Monitor [f]) = fresh_Evaluator [f]"
    "\<forall>x \<in> set [l]. \<forall>g \<in> set [f]. evaluable x g" "length [''epoch=3''] < 2 ^ 31"
    by (simp_all add: f_def l_def new_Monitor_def compare_int_def getLabel_def)
  have "reported ''generic'' (\<lambda>k. [l] ! k) [f] 0 ([l] ! 0)"
    using i by (simp add: f_def l_def reported_def holds.simps(7) compare_int_def getLabel_def is_valid_response_def)
  then show "\<exists>i < length [''epoch=3'']. reported ''generic'' (\<lambda>k. [l] ! k) [f] i ([l] ! i)" by (intro exI [of _ 0]) simp
qed

section \<open>SIP violations are filtered\<close>

lemma last_render: "\<forall>p \<in> set kvs. wf_kv p \<Longrightarrow> kvs \<noteq> [] \<Longrightarrow> plain (last (render_kvs kvs))"
proof (induction kvs rule: render_kvs.induct)
  case (2 k v)
  then show ?case by (cases "v = []") auto
next
  case (3 k v q kvs)
  then show ?case using render_kvs_nonempty [of "q # kvs"] by simp
qed simp

lemma trim_rendered:
  assumes "line_kvs kvs"
  shows "trim (render_kvs kvs) = render_kvs kvs"
proof -
  obtain k v ks where kvs: "kvs = (k, v) # ks" "k \<noteq> []" "\<forall>c \<in> set k. plain c"
    using assms by (cases kvs) (auto simp: line_kvs_def)
  have ns: "\<not> trim_space c" if "plain c" for c using that by (auto simp: plain_def trim_space_def bval_def)
  have "plain (hd (render_kvs kvs))" using kvs render_kvs_hd [of k v ks] by simp
  moreover have "plain (last (render_kvs kvs))" using assms by (intro last_render) (simp_all add: line_kvs_def)
  moreover have "render_kvs kvs \<noteq> []" using kvs(1) by (intro render_kvs_nonempty) simp
  ultimately show ?thesis by (intro trim_id ns)
qed

lemma derive_kv_other: "derive_kv kv = Some kv' \<Longrightarrow> k \<noteq> ''id_mismatch'' \<Longrightarrow> map_of kv' k = map_of kv k"
proof -
  assume d: "derive_kv kv = Some kv'" and k: "k \<noteq> ''id_mismatch''"
  then obtain q r where "stol_of kv ''q_id'' = Some q" "stol_of kv ''resp_id'' = Some r"
    by (auto simp: derive_kv_def bind_eq_Some_conv)
  with d k show ?thesis by (cases q; cases r) (auto simp: derive_kv_def update_conv' split: if_splits)
qed

lemma sip_line_silent:
  assumes "sip_printed (s', kvs)" and "process_line ''sip'' tc m (snprintf out 2048 (render_kvs kvs)) = Some (m', reports)"
  shows "reports = []"
proof -
  note k = sip_line_kvs [OF assms(1)]
  have line: "snprintf out 2048 (render_kvs kvs) = render_kvs kvs" using k(2) by (rule snprintf_fits)
  have "data_line (render_kvs kvs)" using untraced_line(2) [OF k(1), of 2048 out] line by simp
  then have ev: "process_event ''sip'' tc m (render_kvs kvs) = Some (m', reports)"
    using assms(2) by (simp add: line data_line_event trim_rendered [OF k(1)])
  have "set sip_keys = fst ` set kvs" using assms(1) by (simp add: sip_printed_def flip: set_map)
  moreover have "''sip_msg_type'' \<notin> set sip_keys" by (simp add: sip_keys_def)
  ultimately have "''sip_msg_type'' \<notin> fst ` set kvs" by simp
  then have "map_of (rev kvs) ''sip_msg_type'' = None" by (simp add: map_of_eq_None_iff)
  then have no: "map_of (kv_pairs (render_kvs kvs)) ''sip_msg_type'' = None"
    using parse_render [of kvs] k(1) by (simp add: map_of_kv_pairs line_kvs_def)
  have "\<not> is_valid_response ''sip'' kv" if "derive_kv (kv_pairs (render_kvs kvs)) = Some kv" for kv
    using derive_kv_other [OF that, of "''sip_msg_type''"] no by (simp add: is_valid_response_def)
  then show ?thesis using ev
    by (auto simp: process_event_def Let_def bind_eq_Some_conv split: if_splits)
qed

text \<open>
  C31 (safety): the evaluator never reports a violation of a SIP specification. Its filter accepts an
  event only when the line says \<open>sip_msg_type=response\<close>, but no line of the SIP adapter has that key:
  for every request and every reply in every session the evaluator writes nothing, whatever the
  formulas say.
\<close>

theorem sip_violations_never_reported:
  assumes "sip_reach s"
    and "sip_build_request_pred_line hv0 s buf len out 2048 = Some (s', line)
      \<or> sip_build_response_pred_line hv0 s buf len out 2048 = Some (s', line)"
    and "process_line ''sip'' tc m line = Some (m', reports)"
  shows "reports = []"
proof -
  note i = sip_reach_inv [OF assms(1)]
  from assms(2) obtain s1 kvs where "line = snprintf out 2048 (render_kvs kvs)"
    "sip_request_step hv0 s buf len = Some (s1, kvs) \<or> sip_response_step hv0 s buf len = Some (s1, kvs)"
    by (auto simp: sip_build_request_pred_line_def sip_build_response_pred_line_def bind_eq_Some_conv)
  with rets_D [OF sip_request_step_ok [OF i]] rets_D [OF sip_response_step_ok [OF i]] sip_line_silent assms(3)
  show ?thesis by metis
qed

text \<open>Under a context that gives every name the same type, every rendered line is accepted.\<close>

lemma distinct_kv_pairs: "distinct (map fst (kv_pairs line))"
proof -
  have "distinct (map fst m) \<Longrightarrow>
    distinct (map fst (fold (\<lambda>tok m. case kv_of_token tok of None \<Rightarrow> m | Some (k, v) \<Rightarrow> AList.update k v m) toks m))" for toks m
    by (induction toks arbitrary: m) (auto simp: distinct_update split: option.splits)
  then show ?thesis by (simp add: kv_pairs_def)
qed

lemma add_labels_distinct:
  "distinct (map fst kv) \<Longrightarrow> \<forall>k \<in> set (map fst kv). map_of l k = None \<Longrightarrow> \<exists>l'. add_labels kv l = Some l'"
proof (induction kv l rule: add_labels.induct)
  case (2 k v kv l)
  show ?case
  proof (cases "k \<in> set kMetaKeys \<or> k = [] \<or> v = []")
    case False
    have "addLabel k v l = Some (label_put k v l)" using 2(4) by (simp add: addLabel_def)
    moreover have "\<forall>k' \<in> set (map fst kv). map_of (label_put k v l) k' = None" using 2(3,4) by auto
    ultimately show ?thesis using 2(2) [OF False] 2(3) False by simp
  qed (use 2 in simp)
qed simp

lemma IsSane_uniform: "(\<And>x. TypeContext tc x = Some (''BOOL'', [])) \<Longrightarrow> IsSane tc l = Some True"
  by (induction tc l rule: IsSane.induct) (auto simp: getType_def)

lemma uniform_accepts:
  assumes "line_kvs kvs" and "''q_id'' \<notin> fst ` set kvs" and "''resp_id'' \<notin> fst ` set kvs"
  shows "\<exists>r. process_line p \<lparr>TypeContext = (\<lambda>_. Some (''BOOL'', [])), constant_list = []\<rparr> (new_Monitor []) (render_kvs kvs) = Some r"
proof -
  let ?tc = "\<lparr>TypeContext = (\<lambda>_. Some (''BOOL'', [])), constant_list = []\<rparr>"
  let ?kv = "kv_pairs (render_kvs kvs)"
  have d: "data_line (render_kvs kvs)"
    using untraced_line(2) [OF assms(1), of "Suc (Suc (length (render_kvs kvs)))"] by (simp add: snprintf_fits)
  have "map_of ?kv k = map_of (rev kvs) k" for k using parse_render [of kvs] assms(1) by (simp add: map_of_kv_pairs line_kvs_def)
  moreover have "map_of (rev kvs) ''q_id'' = None" "map_of (rev kvs) ''resp_id'' = None"
    using assms(2,3) by (simp_all add: map_of_eq_None_iff)
  ultimately have k: "derive_kv ?kv = Some ?kv" by (simp add: derive_kv_def stol_of_def)
  from add_labels_distinct [OF distinct_kv_pairs [of "render_kvs kvs"], of "[]"] obtain l where "add_labels ?kv [] = Some l" by auto
  then have "event_labels ?tc ?kv = Some l" by (simp add: event_labels_def new_State_def IsSane_uniform)
  moreover have "EvaluateOneStep l (fresh_Evaluator []) = Some ([], (fresh_Evaluator [])\<lparr>index := 1\<rparr>)"
    by (simp add: EvaluateOneStep_def fresh_Evaluator_def DoPreProcess_def new_Evaluator_def empty_bvs_def cinc_def)
  ultimately show ?thesis
    by (simp add: data_line_event [OF d] trim_rendered [OF assms(1)] process_event_def Let_def k new_Monitor_def)
qed

theorem sip_violations_never_reported_witness:
  "\<exists>s' line m'. sip_build_response_pred_line [] sip_init (''SIP/2.0 200 OK'' @ NUL # []) (length ''SIP/2.0 200 OK'') [] 2048 = Some (s', line)
     \<and> process_line ''sip'' \<lparr>TypeContext = (\<lambda>_. Some (''BOOL'', [])), constant_list = []\<rparr> (new_Monitor []) line = Some (m', [])"
proof -
  let ?msg = "''SIP/2.0 200 OK''" and ?tc = "\<lparr>TypeContext = (\<lambda>_. Some (''BOOL'', [])), constant_list = []\<rparr>"
  from sip_response_step_text [of ?msg "[]" sip_init "[]"] obtain s' kvs
    where st: "sip_response_step [] sip_init (?msg @ NUL # []) (length ?msg) = Some (s', kvs)" by auto
  have pr: "sip_printed (s', kvs)" using rets_D [OF sip_response_step_ok [OF sip_reach_inv [OF sip_start]] st] .
  note k = sip_line_kvs [OF pr]
  have b: "sip_build_response_pred_line [] sip_init (?msg @ NUL # []) (length ?msg) [] 2048 = Some (s', render_kvs kvs)"
    using st snprintf_fits [OF k(2)] by (simp add: sip_build_response_pred_line_def)
  have keys: "fst ` set kvs = set sip_keys" using pr by (simp add: sip_printed_def flip: set_map)
  have "''q_id'' \<notin> set sip_keys" "''resp_id'' \<notin> set sip_keys" by (simp_all add: sip_keys_def)
  then obtain m' r where p: "process_line ''sip'' ?tc (new_Monitor []) (render_kvs kvs) = Some (m', r)"
    using uniform_accepts [OF k(1), of "''sip''"] unfolding keys by auto
  have "r = []" by (rule sip_violations_never_reported [OF sip_start disjI2 [OF b] p])
  with b p show ?thesis by blast
qed

end
