(* ===== verification/Afl_Types.thy ===== *)
theory Afl_Types
  imports C_Prelude "HOL-Library.Word"
begin

text \<open>
  The integer types of \<open>types.h\<close> and the memory views the fuzzer uses: a buffer is a list of bytes,
  and a pointer cast to \<open>u16\<close>, \<open>u32\<close> or \<open>u64\<close> reads and writes its bytes in little endian order.
\<close>

unbundle bit_operations_syntax

type_synonym u8 = "8 word"
type_synonym u16 = "16 word"
type_synonym u32 = "32 word"
type_synonym u64 = "64 word"

section \<open>Little endian memory\<close>

fun ld :: "u8 list \<Rightarrow> 'a::len word" where
  "ld [] = 0"
| "ld (b # bs) = ucast b OR push_bit 8 (ld bs)"

definition st :: "nat \<Rightarrow> 'a::len word \<Rightarrow> u8 list" where
  "st n w = map (\<lambda>i. ucast (drop_bit (8 * i) w)) [0..<n]"

text \<open>\<open>SWAP16\<close> and \<open>SWAP32\<close> of \<open>types.h\<close>.\<close>

definition SWAP16 :: "u16 \<Rightarrow> u16" where
  "SWAP16 x = push_bit 8 x OR drop_bit 8 x"

definition SWAP32 :: "u32 \<Rightarrow> u32" where
  "SWAP32 x = push_bit 24 x OR drop_bit 24 x OR (push_bit 8 x AND 0x00FF0000) OR (drop_bit 8 x AND 0x0000FF00)"

section \<open>Their bits\<close>

lemma bit_ld:
  "bit (ld bs :: 'a::len word) n \<longleftrightarrow>
     n < LENGTH('a) \<and> n div 8 < length bs \<and> bit (bs ! (n div 8)) (n mod 8)"
proof (induction bs arbitrary: n)
  case (Cons b bs)
  show ?case
  proof (cases "n < 8")
    case False
    then obtain k where k: "n = k + 8" by (metis le_add_diff_inverse2 linorder_not_less)
    have "\<not> bit b (k + 8)" by (auto dest: bit_imp_le_length)
    moreover have "(k + 8) div 8 = Suc (k div 8)" by simp
    ultimately show ?thesis by (auto simp: k Cons bit_simps simp del: div_add_self2)
  qed (auto simp: bit_simps)
qed simp

lemma length_st [simp]: "length (st n w) = n"
  by (simp add: st_def)

lemma bit_st_nth:
  "i < n \<Longrightarrow> bit (st n (w :: 'a::len word) ! i) k \<longleftrightarrow> k < 8 \<and> bit w (8 * i + k)"
  by (auto simp: st_def bit_simps)

lemma st_ld [simp]:
  assumes "8 * length bs \<le> LENGTH('a::len)"
  shows "st (length bs) (ld bs :: 'a word) = bs"
proof (rule nth_equalityI)
  fix i assume "i < length (st (length bs) (ld bs :: 'a word))"
  then have i: "i < length bs" by simp
  show "st (length bs) (ld bs :: 'a word) ! i = bs ! i"
  proof (rule bit_word_eqI)
    fix k assume k: "k < LENGTH(8)"
    have "8 * i + k < LENGTH('a)" using assms i k by simp
    then show "bit (st (length bs) (ld bs :: 'a word) ! i) k = bit (bs ! i) k"
      using i k by (simp add: bit_st_nth bit_ld)
  qed
qed simp

lemma ld_st [simp]:
  assumes "LENGTH('a::len) = 8 * n"
  shows "ld (st n w) = (w :: 'a word)"
proof (rule bit_word_eqI)
  fix k assume "k < LENGTH('a)"
  then have "k div 8 < n" using assms by auto
  then show "bit (ld (st n w) :: 'a word) k = bit w k"
    using \<open>k < LENGTH('a)\<close> by (simp add: bit_ld bit_st_nth)
qed

lemma ld_eq_0:
  assumes "8 * length bs \<le> LENGTH('a::len)"
  shows "(ld bs :: 'a word) = 0 \<longleftrightarrow> (\<forall>b \<in> set bs. b = 0)"
proof
  assume z: "(ld bs :: 'a word) = 0"
  show "\<forall>b \<in> set bs. b = 0"
  proof
    fix b assume "b \<in> set bs"
    then obtain i where i: "i < length bs" "b = bs ! i" by (auto simp: in_set_conv_nth)
    have "bs = st (length bs) (0 :: 'a word)" using st_ld [OF assms] z by simp
    then have "b = st (length bs) (0 :: 'a word) ! i" using i by simp
    then show "b = 0" using i by (simp add: st_def)
  qed
next
  assume "\<forall>b \<in> set bs. b = 0"
  then show "(ld bs :: 'a word) = 0" by (induction bs) auto
qed

lemma st_and: "st n (v AND w) = map2 (AND) (st n v) (st n w)"
  by (auto simp: st_def map2_map_map bit_simps intro!: bit_word_eqI)

lemma st_and_not: "st n (v AND NOT w :: 'a::len word) = map2 (\<lambda>x y. x AND NOT y) (st n v) (st n w)"
  if "8 * n \<le> LENGTH('a)"
  using that by (auto simp: st_def map2_map_map bit_simps intro!: bit_word_eqI nth_equalityI)

lemma ld_and:
  assumes "length bs = length cs"
  shows "(ld bs AND ld cs :: 'a::len word) = ld (map2 (AND) bs cs)"
  using assms by (auto simp: bit_ld bit_simps intro!: bit_word_eqI)

lemma SWAP16_SWAP16 [simp]: "SWAP16 (SWAP16 x) = x"
  by (rule bit_word_eqI) (auto simp: SWAP16_def bit_simps)

lemma st_SWAP16: "st 2 (SWAP16 x) = rev (st 2 x)"
  by (auto simp: st_def SWAP16_def upt_rec bit_simps intro!: bit_word_eqI)

end
