(* ===== verification/Afl_Popcount.thy ===== *)
theory Afl_Popcount
  imports Afl_Types
begin

text \<open>
  The bit counting trick of \<open>count_bits\<close> on one \<open>u32\<close>: sums in fields of two, then four, then eight
  bits, and a multiplication that adds the four bytes. A word is read as the Horner sum of its bits;
  each step is then a step on the list of bits, four at a time.
\<close>

definition swar :: "u32 \<Rightarrow> u32" where
  "swar v =
     (let v1 = v - (drop_bit 1 v AND 0x55555555);
          v2 = (v1 AND 0x33333333) + (drop_bit 2 v1 AND 0x33333333)
      in drop_bit 24 (((v2 + drop_bit 4 v2) AND 0x0F0F0F0F) * 0x01010101))"

section \<open>Words as bit lists\<close>

abbreviation H :: "bool list \<Rightarrow> u32" where "H \<equiv> horner_sum of_bool 2"

lemma H_and: "length xs = length ys \<Longrightarrow> H xs AND H ys = H (map2 (\<and>) xs ys)"
  by (rule bit_word_eqI) (auto simp: bit_simps bit_horner_sum_bit_word_iff)

fun odds lows highs :: "bool list \<Rightarrow> bool list" where
  "odds (a # b # c # d # r) = b # False # d # False # odds r"
| "odds _ = []"
| "lows (a # b # c # d # r) = a # b # False # False # lows r"
| "lows _ = []"
| "highs (a # b # c # d # r) = c # d # False # False # highs r"
| "highs _ = []"

fun pairs :: "bool list \<Rightarrow> bool list" where
  "pairs (a # b # c # d # r) = (a \<noteq> b) # (a \<and> b) # (c \<noteq> d) # (c \<and> d) # pairs r"
| "pairs _ = []"

fun nibs :: "bool list \<Rightarrow> nat list" where
  "nibs (a # b # c # d # r) = (of_bool a + of_bool b + of_bool c + of_bool d) # nibs r"
| "nibs _ = []"


lemma pairs_H: "length bs mod 4 = 0 \<Longrightarrow> H bs - H (odds bs) = H (pairs bs)"
proof (induction bs rule: pairs.induct)
  case (1 a b c d r)
  have "length r mod 4 = 0" using 1(2) by simp
  then have IH: "H r = H (pairs r) + H (odds r)" using 1(1) by (simp add: algebra_simps)
  show ?case by (cases a; cases b; cases c; cases d) (simp_all add: IH algebra_simps)
qed simp_all

lemma length_pairs: "length bs mod 4 = 0 \<Longrightarrow> length (pairs bs) = length bs"
proof (induction bs rule: pairs.induct)
  case (1 a b c d r)
  have "length r mod 4 = 0" using 1(2) by simp
  then show ?case using 1(1) by simp
qed simp_all

lemma nibs_H:
  "length bs mod 4 = 0 \<Longrightarrow> H (lows (pairs bs)) + H (highs (pairs bs)) = horner_sum of_nat 16 (nibs bs)"
proof (induction bs rule: pairs.induct)
  case (1 a b c d r)
  have "length r mod 4 = 0" using 1(2) by simp
  note IH = 1(1) [OF this, symmetric]
  show ?case by (cases a; cases b; cases c; cases d) (simp_all add: IH algebra_simps)
qed simp_all

lemma nibs_le: "n \<in> set (nibs bs) \<Longrightarrow> n \<le> 4"
  by (induction bs rule: nibs.induct) (auto simp: of_bool_def)

lemma nibs_sum: "length bs mod 4 = 0 \<Longrightarrow> sum_list (nibs bs) = length (filter id bs)"
proof (induction bs rule: nibs.induct)
  case (1 a b c d r)
  have "length r mod 4 = 0" using 1(2) by simp
  then show ?case using 1(1) by simp
qed simp_all

lemma length_nibs: "length bs mod 4 = 0 \<Longrightarrow> 4 * length (nibs bs) = length bs"
proof (induction bs rule: nibs.induct)
  case (1 a b c d r)
  have "length r mod 4 = 0" using 1(2) by simp
  then show ?case using 1(1) by simp
qed simp_all

lemma bit_lt_8: "bit (z :: nat) n \<Longrightarrow> z < 256 \<Longrightarrow> n < 8"
proof (rule ccontr)
  assume "bit z n" "z < 256" "\<not> n < 8"
  have "(2::nat) ^ 8 \<le> 2 ^ n" using \<open>\<not> n < 8\<close> by (intro power_increasing) auto
  then have "z div 2 ^ n = 0" using \<open>z < 256\<close> by simp
  then show False using \<open>bit z n\<close> by (simp add: bit_iff_odd)
qed

lemma split_or: "(x :: nat) < 256 \<Longrightarrow> x + 256 * y = x OR push_bit 8 y"
proof -
  assume x: "x < 256"
  have "x OR push_bit 8 y = x + push_bit 8 y"
    by (rule disjunctive_add [symmetric]) (auto simp: bit_simps dest: bit_lt_8 [OF _ x])
  then show ?thesis by (simp add: push_bit_eq_mult mult.commute)
qed

lemma and_split_nat:
  fixes x a y m :: nat assumes "x < 256" "a < 256"
  shows "(x + 256 * y) AND (a + 256 * m) = (x AND a) + 256 * (y AND m)"
proof -
  have "take_bit 8 (x AND a) = x AND a"
    using assms by (simp add: take_bit_and take_bit_nat_eq_self)
  then have "x AND a < 256" using take_bit_nat_less_exp [of 8 "x AND a"] by simp
  note x = split_or [OF this]
  have hi: "\<not> bit x n" "\<not> bit a n" if "8 \<le> n" for n
    using that bit_lt_8 [of x n] bit_lt_8 [of a n] assms by auto
  show ?thesis
    unfolding split_or [OF assms(1)] split_or [OF assms(2)] x
  proof (rule bit_eqI)
    fix n
    show "bit ((x OR push_bit 8 y) AND (a OR push_bit 8 m)) n = bit ((x AND a) OR push_bit 8 (y AND m)) n"
      using hi [of n] by (auto simp: bit_simps)
  qed
qed

lemma and_0F: "x0 < 256 \<Longrightarrow> x1 < 256 \<Longrightarrow> x2 < 256 \<Longrightarrow> x3 < 256 \<Longrightarrow>
  (x0 + 256 * (x1 + 256 * (x2 + 256 * x3)) :: nat) AND 0x0F0F0F0F =
   x0 mod 16 + 256 * (x1 mod 16 + 256 * (x2 mod 16 + 256 * (x3 mod 16)))"
proof -
  assume a: "x0 < 256" "x1 < 256" "x2 < 256" "x3 < 256"
  have "(0x0F0F0F0F :: nat) = 15 + 256 * (15 + 256 * (15 + 256 * 15))" by simp
  moreover have "x AND 15 = x mod 16" for x :: nat
    using take_bit_eq_mask [of 4 x] by (simp add: take_bit_eq_mod mask_eq_exp_minus_1)
  ultimately show ?thesis using a by (simp only: and_split_nat)
qed

lemma of_nat_unat_id: "of_nat (unat w) = (w :: 'a::len word)"
  by simp

lemma drop_bit_nat_eq: "drop_bit n (m :: nat) = m div 2 ^ n"
  by (rule drop_bit_eq_div)

lemma swar_sum:
  assumes "a \<le> 4" "b \<le> 4" "c \<le> 4" "d \<le> 4" "e \<le> 4" "f \<le> 4" "g \<le> 4" "h \<le> (4::nat)"
  defines "v \<equiv> (horner_sum of_nat 16 [a, b, c, d, e, f, g, h] :: u32)"
  shows "drop_bit 24 (((v + drop_bit 4 v) AND 0x0F0F0F0F) * 0x01010101) = of_nat (a + b + c + d + e + f + g + h)"
proof -
  define V where "V = a + 16 * (b + 16 * (c + 16 * (d + 16 * (e + 16 * (f + 16 * (g + 16 * h))))))"
  have v: "v = of_nat V" by (simp add: v_def V_def)
  have lt: "V < 2 ^ 32" using assms(1-8) by (simp add: V_def)
  have "V div 16 = b + 16 * (c + 16 * (d + 16 * (e + 16 * (f + 16 * (g + 16 * h)))))"
    using assms(1) by (simp add: V_def)
  then have sum: "V + V div 16 = (a + b + 16 * (b + c)) + 256 * ((c + d + 16 * (d + e)) +
      256 * ((e + f + 16 * (f + g)) + 256 * (g + h + 16 * h)))"
    by (simp add: V_def)
  define M where "M = (a + b) + 256 * ((c + d) + 256 * ((e + f) + 256 * (g + h)))"
  have md: "(p + q + 16 * r) mod 16 = p + q" if "p \<le> 4" "q \<le> 4" for p q r :: nat
    using that by simp
  have "(V + V div 16) AND 0x0F0F0F0F = M"
    unfolding sum M_def using assms(1-8) by (subst and_0F) (simp_all only: md, simp_all)
  then have "of_nat (V + V div 16) AND 0x0F0F0F0F = (of_nat M :: u32)"
    by (metis of_nat_and_eq of_nat_numeral)
  moreover have "drop_bit 4 v = of_nat (V div 16)"
  proof -
    have "unat v = V" using lt by (simp add: v unat_of_nat)
    then have "unat (drop_bit 4 v) = V div 16" unfolding unat_drop_bit_eq by (simp add: drop_bit_eq_div)
    then show ?thesis by (metis of_nat_unat_id)
  qed
  ultimately have w: "(v + drop_bit 4 v) AND 0x0F0F0F0F = of_nat M" by (simp add: v)
  have p: "M * 0x01010101 = (a + b) + 2 ^ 8 * (a + b + c + d) + 2 ^ 16 * (a + b + c + d + e + f) +
     2 ^ 24 * (a + b + c + d + e + f + g + h) +
     2 ^ 32 * ((c + d + e + f + g + h) + 2 ^ 8 * (e + f + g + h) + 2 ^ 16 * (g + h))"
    by (simp add: M_def)
  have "M * 0x01010101 mod 2 ^ 32 = (a + b) + 2 ^ 8 * (a + b + c + d) + 2 ^ 16 * (a + b + c + d + e + f) +
     2 ^ 24 * (a + b + c + d + e + f + g + h)"
    unfolding p mod_mult_self2 by (rule mod_less) (use assms(1-8) in simp)
  moreover have "\<dots> div 2 ^ 24 = a + b + c + d + e + f + g + h" using assms(1-8) by simp
  ultimately have "M * 0x01010101 mod 2 ^ 32 div 2 ^ 24 = a + b + c + d + e + f + g + h" by (simp only:)
  moreover have "unat (of_nat (M * 0x01010101) :: u32) = M * 0x01010101 mod 2 ^ 32"
    by (simp only: unat_of_nat) simp
  ultimately have "unat (drop_bit 24 (of_nat (M * 0x01010101) :: u32)) = a + b + c + d + e + f + g + h"
    by (simp only: unat_drop_bit_eq drop_bit_nat_eq)
  then have "unat (drop_bit 24 (of_nat M * 0x01010101 :: u32)) = a + b + c + d + e + f + g + h" by simp
  then have "drop_bit 24 (of_nat M * 0x01010101 :: u32) = of_nat (a + b + c + d + e + f + g + h)"
    by (metis of_nat_unat_id)
  then show ?thesis by (simp only: w)
qed

lemma length_4_obtain:
  assumes "length xs = 4 * Suc n"
  obtains a b c d r where "xs = a # b # c # d # r" "length r = 4 * n"
  using assms by (auto simp: numeral_eq_Suc length_Suc_conv)

lemma odds_mask:
  "length bs = 4 * n \<Longrightarrow> map2 (\<and>) (drop 1 bs @ [False]) (concat (replicate n [True, False, True, False])) = odds bs"
proof (induction n arbitrary: bs)
  case (Suc n)
  obtain a b c d r where bs: "bs = a # b # c # d # r" and r: "length r = 4 * n"
    by (rule length_4_obtain [OF Suc.prems])
  show ?case
  proof (cases r)
    case (Cons x r')
    then show ?thesis using Suc.IH [OF r] by (cases n) (use r in \<open>auto simp: bs\<close>)
  qed (use r in \<open>simp add: bs\<close>)
qed simp

lemma lows_mask:
  "length bs = 4 * n \<Longrightarrow> map2 (\<and>) bs (concat (replicate n [True, True, False, False])) = lows bs"
proof (induction n arbitrary: bs)
  case (Suc n)
  show ?case by (rule length_4_obtain [OF Suc.prems]) (simp add: Suc.IH)
qed simp

lemma highs_mask:
  "length bs = 4 * n \<Longrightarrow> map2 (\<and>) (drop 2 bs @ [False, False]) (concat (replicate n [True, True, False, False])) = highs bs"
proof (induction n arbitrary: bs)
  case (Suc n)
  obtain a b c d r where bs: "bs = a # b # c # d # r" and r: "length r = 4 * n"
    by (rule length_4_obtain [OF Suc.prems])
  show ?case
  proof (cases n)
    case (Suc m)
    then obtain x y r' where "r = x # y # r'" using r by (auto simp: length_Suc_conv numeral_eq_Suc)
    then show ?thesis using Suc.IH [OF r] by (simp add: bs)
  qed (use r in \<open>simp add: bs\<close>)
qed simp

lemma drop_H: "drop_bit n (H bs) = H (drop n bs @ replicate n False)" if "length bs = 32"
  by (rule bit_word_eqI) (use that in \<open>auto simp: bit_simps bit_horner_sum_bit_word_iff nth_append\<close>)

lemma swar_H:
  assumes "length bs = 32"
  shows "swar (H bs) = of_nat (length (filter id bs))"
proof -
  have m5: "(0x55555555 :: u32) = H (concat (replicate 8 [True, False, True, False]))"
    and m3: "(0x33333333 :: u32) = H (concat (replicate 8 [True, True, False, False]))"
    by code_simp+
  have len8: "length (concat (replicate 8 [x, y, z, u])) = 32" for x y z u :: bool
    by (simp add: length_concat sum_list_replicate)
  have 1: "drop_bit 1 (H bs) AND 0x55555555 = H (odds bs)"
    unfolding m5 drop_H [OF assms] using assms odds_mask [of bs 8]
    by (subst H_and) (simp_all add: len8)
  have len: "length (pairs bs) = 32" using assms by (simp add: length_pairs)
  have 2: "H (pairs bs) AND 0x33333333 = H (lows (pairs bs))"
    unfolding m3 using len lows_mask [of "pairs bs" 8]
    by (subst H_and) (simp_all add: len8)
  have 3: "drop_bit 2 (H (pairs bs)) AND 0x33333333 = H (highs (pairs bs))"
    unfolding m3 drop_H [OF len] using len highs_mask [of "pairs bs" 8]
    by (subst H_and) (simp_all add: len8 numeral_2_eq_2)
  have "length (nibs bs) = 8" using length_nibs [of bs] assms by simp
  then obtain a b c d e f g h where n: "nibs bs = [a, b, c, d, e, f, g, h]"
    by (auto simp: numeral_eq_Suc length_Suc_conv)
  have "swar (H bs) = of_nat (a + b + c + d + e + f + g + h)"
  proof -
    have m: "length bs mod 4 = 0" using assms by simp
    show ?thesis
      unfolding swar_def Let_def 1 pairs_H [OF m] 2 3 nibs_H [OF m] n
      by (rule swar_sum; use nibs_le [of _ bs] in \<open>simp add: n\<close>)
  qed
  also have "a + b + c + d + e + f + g + h = length (filter id bs)"
    using nibs_sum [of bs] assms by (simp add: n)
  finally show ?thesis .
qed

lemma swar_bits: "swar v = of_nat (length (filter (bit v) [0..<32]))"
proof -
  have "H (map (bit v) [0..<32]) = v"
    by (simp add: horner_sum_bit_eq_take_bit take_bit_word_eq_self)
  then show ?thesis
    using swar_H [of "map (bit v) [0..<32]"] by (simp add: filter_map comp_def)
qed

end
