(* ===== verification/Afl_Bitmap.thy ===== *)
theory Afl_Bitmap
  imports Afl_Popcount
begin

text \<open>
  The coverage bitmap of \<open>afl-fuzz.c\<close>: comparing a trace with the virgin map, counting, simplifying
  and classifying a trace, packing it into one bit a tuple, and the checksum \<open>hash32\<close> of \<open>hash.h\<close>.
  The 64 bit branches of the source are modelled: the loops run over \<open>MAP_SIZE >> 3\<close> words of eight
  bytes. A map is the list of its \<open>MAP_SIZE\<close> bytes.
\<close>

definition MAP_SIZE :: nat where
  "MAP_SIZE = 65536"

section \<open>New coverage\<close>

text \<open>
  \<open>has_new_bits\<close>: the loop works on words and looks at bytes only when a word has something new.
  The flag \<open>main\<close> says that the map is \<open>virgin_bits\<close>; \<open>changed\<close> is \<open>bitmap_changed\<close>.
\<close>

definition pristine_hit :: "u8 list \<Rightarrow> u8 list \<Rightarrow> bool" where
  "pristine_hit cur vir = list_ex (\<lambda>(c, v). c \<noteq> 0 \<and> v = 0xFF) (zip cur vir)"

fun hnb_loop :: "nat \<Rightarrow> u8 list \<Rightarrow> u8 list \<Rightarrow> nat \<Rightarrow> nat \<times> u8 list" where
  "hnb_loop 0 cur vir ret = (ret, vir)"
| "hnb_loop (Suc n) cur vir ret =
     (let c8 = take 8 cur; v8 = take 8 vir; c = (ld c8 :: u64); v = ld v8;
          found = c \<noteq> 0 \<and> c AND v \<noteq> 0;
          ret' = (if found \<and> ret < 2 then if pristine_hit c8 v8 then 2 else 1 else ret);
          v' = (if found then v AND NOT c else v);
          (r, rest) = hnb_loop n (drop 8 cur) (drop 8 vir) ret'
      in (r, st 8 v' @ rest))"

definition has_new_bits :: "bool \<Rightarrow> u8 list \<Rightarrow> u8 list \<Rightarrow> bool \<Rightarrow> nat \<times> u8 list \<times> bool" where
  "has_new_bits main trace_bits virgin_map changed =
     (let (ret, vir) = hnb_loop (MAP_SIZE div 8) trace_bits virgin_map 0
      in (ret, vir, if ret \<noteq> 0 \<and> main then True else changed))"

section \<open>Counting\<close>

fun count_bits_loop :: "nat \<Rightarrow> u8 list \<Rightarrow> u32 \<Rightarrow> u32" where
  "count_bits_loop 0 mem ret = ret"
| "count_bits_loop (Suc n) mem ret =
     (let v = (ld (take 4 mem) :: u32) in
      if v = 0xFFFFFFFF then count_bits_loop n (drop 4 mem) (ret + 32)
      else count_bits_loop n (drop 4 mem) (ret + swar v))"

definition count_bits :: "u8 list \<Rightarrow> u32" where
  "count_bits mem = count_bits_loop (MAP_SIZE div 4) mem 0"

text \<open>The macro \<open>FF(_b)\<close>.\<close>

definition FF :: "nat \<Rightarrow> u32" where
  "FF b = push_bit (8 * b) 0xFF"

fun count_bytes_loop :: "nat \<Rightarrow> u8 list \<Rightarrow> u32 \<Rightarrow> u32" where
  "count_bytes_loop 0 mem ret = ret"
| "count_bytes_loop (Suc n) mem ret =
     (let v = (ld (take 4 mem) :: u32) in
      if v = 0 then count_bytes_loop n (drop 4 mem) ret
      else let ret = (if v AND FF 0 \<noteq> 0 then ret + 1 else ret);
               ret = (if v AND FF 1 \<noteq> 0 then ret + 1 else ret);
               ret = (if v AND FF 2 \<noteq> 0 then ret + 1 else ret);
               ret = (if v AND FF 3 \<noteq> 0 then ret + 1 else ret)
           in count_bytes_loop n (drop 4 mem) ret)"

definition count_bytes :: "u8 list \<Rightarrow> u32" where
  "count_bytes mem = count_bytes_loop (MAP_SIZE div 4) mem 0"

fun count_non_255_loop :: "nat \<Rightarrow> u8 list \<Rightarrow> u32 \<Rightarrow> u32" where
  "count_non_255_loop 0 mem ret = ret"
| "count_non_255_loop (Suc n) mem ret =
     (let v = (ld (take 4 mem) :: u32) in
      if v = 0xFFFFFFFF then count_non_255_loop n (drop 4 mem) ret
      else let ret = (if v AND FF 0 \<noteq> FF 0 then ret + 1 else ret);
               ret = (if v AND FF 1 \<noteq> FF 1 then ret + 1 else ret);
               ret = (if v AND FF 2 \<noteq> FF 2 then ret + 1 else ret);
               ret = (if v AND FF 3 \<noteq> FF 3 then ret + 1 else ret)
           in count_non_255_loop n (drop 4 mem) ret)"

definition count_non_255_bytes :: "u8 list \<Rightarrow> u32" where
  "count_non_255_bytes mem = count_non_255_loop (MAP_SIZE div 4) mem 0"

section \<open>Simplifying and classifying a trace\<close>

definition simplify_lookup :: "u8 \<Rightarrow> u8" where
  "simplify_lookup b = (if b = 0 then 1 else 128)"

definition simplify_word :: "u8 list \<Rightarrow> u8 list" where
  "simplify_word mem8 =
     (if (ld mem8 :: u64) \<noteq> 0 then map simplify_lookup mem8
      else st 8 (0x0101010101010101 :: u64))"

fun simplify_loop :: "nat \<Rightarrow> u8 list \<Rightarrow> u8 list" where
  "simplify_loop 0 mem = mem"
| "simplify_loop (Suc n) mem = simplify_word (take 8 mem) @ simplify_loop n (drop 8 mem)"

definition simplify_trace :: "u8 list \<Rightarrow> u8 list" where
  "simplify_trace mem = simplify_loop (MAP_SIZE div 8) mem"

definition count_class_lookup8 :: "u8 \<Rightarrow> u8" where
  "count_class_lookup8 b =
     (let n = unat b in
      if n = 0 then 0 else if n = 1 then 1 else if n = 2 then 2 else if n = 3 then 4
      else if n \<le> 7 then 8 else if n \<le> 15 then 16 else if n \<le> 31 then 32
      else if n \<le> 127 then 64 else 128)"

definition class16 :: "nat \<Rightarrow> nat \<Rightarrow> u16" where
  "class16 b1 b2 =
     push_bit 8 (ucast (count_class_lookup8 (of_nat b1))) OR ucast (count_class_lookup8 (of_nat b2))"

definition init_count_class16 :: "u16 list \<Rightarrow> u16 list" where
  "init_count_class16 t =
     fold (\<lambda>b1. fold (\<lambda>b2 t. t[256 * b1 + b2 := class16 b1 b2]) [0..<256]) [0..<256] t"

definition classify_word :: "u16 list \<Rightarrow> u8 list \<Rightarrow> u8 list" where
  "classify_word count_class_lookup16 mem =
     (if (ld mem :: u64) \<noteq> 0
      then concat (map (\<lambda>i. st 2 (count_class_lookup16 ! unat (ld (take 2 (drop (2 * i) mem)) :: u16))) [0..<4])
      else mem)"

fun classify_loop :: "u16 list \<Rightarrow> nat \<Rightarrow> u8 list \<Rightarrow> u8 list" where
  "classify_loop t 0 mem = mem"
| "classify_loop t (Suc n) mem = classify_word t (take 8 mem) @ classify_loop t n (drop 8 mem)"

definition classify_counts :: "u16 list \<Rightarrow> u8 list \<Rightarrow> u8 list" where
  "classify_counts t mem = classify_loop t (MAP_SIZE div 8) mem"

section \<open>Packing\<close>

fun minimize_loop :: "nat \<Rightarrow> u8 list \<Rightarrow> u8 list \<Rightarrow> u8 list" where
  "minimize_loop i dst [] = dst"
| "minimize_loop i dst (s # src) =
     minimize_loop (Suc i)
       (if s \<noteq> 0 then dst[i div 8 := dst ! (i div 8) OR push_bit (i mod 8) 1] else dst) src"

definition minimize_bits :: "u8 list \<Rightarrow> u8 list \<Rightarrow> u8 list" where
  "minimize_bits dst src = minimize_loop 0 dst (take MAP_SIZE src)"

section \<open>The checksum\<close>

definition ROL64 :: "u64 \<Rightarrow> nat \<Rightarrow> u64" where
  "ROL64 x r = push_bit r x OR drop_bit (64 - r) x"

fun hash_loop :: "nat \<Rightarrow> u8 list \<Rightarrow> u64 \<Rightarrow> u64" where
  "hash_loop 0 data h1 = h1"
| "hash_loop (Suc n) data h1 =
     (let k1 = ROL64 (ld (take 8 data) * 0x87c37b91114253d5) 31 * 0x4cf5ad432745937f
      in hash_loop n (drop 8 data) (ROL64 (h1 XOR k1) 27 * 5 + 0x52dce729))"

definition hash_final :: "u64 \<Rightarrow> u64" where
  "hash_final h =
     (let h1 = (h XOR drop_bit 33 h) * 0xff51afd7ed558ccd;
          h2 = (h1 XOR drop_bit 33 h1) * 0xc4ceb9fe1a85ec53
      in h2 XOR drop_bit 33 h2)"

definition hash32 :: "u8 list \<Rightarrow> u32 \<Rightarrow> u32 \<Rightarrow> u32" where
  "hash32 key len seed = ucast (hash_final (hash_loop (unat (drop_bit 3 len)) key (ucast (seed XOR len))))"

section \<open>What the comparison with the virgin map computes\<close>

definition bit_hit :: "u8 list \<Rightarrow> u8 list \<Rightarrow> bool" where
  "bit_hit cur vir = list_ex (\<lambda>(c, v). c AND v \<noteq> 0) (zip cur vir)"

definition new_bits :: "u8 list \<Rightarrow> u8 list \<Rightarrow> nat \<Rightarrow> nat" where
  "new_bits cur vir ret =
     (if 2 \<le> ret then ret else if pristine_hit cur vir then 2 else if bit_hit cur vir then 1 else ret)"

lemma list_ex_zip_append:
  assumes "length a = length b"
  shows "list_ex P (zip (a @ a') (b @ b')) \<longleftrightarrow> list_ex P (zip a b) \<or> list_ex P (zip a' b')"
  using assms by simp

lemma pristine_bit_hit: "pristine_hit cur vir \<Longrightarrow> bit_hit cur vir"
proof -
  have "(0xFF :: u8) = - 1" by simp
  then have and_FF: "c AND 0xFF = c" for c :: u8 by (simp only: and.right_neutral)
  assume "pristine_hit cur vir"
  then obtain c where "(c, 0xFF) \<in> set (zip cur vir)" "c \<noteq> 0"
    by (auto simp: pristine_hit_def list_ex_iff)
  then show "bit_hit cur vir"
    by (auto simp: bit_hit_def list_ex_iff and_FF simp del: bit.conj_one_right intro: bexI [of _ "(c, 0xFF)"])
qed

lemma word_bit_hit:
  assumes "length c8 = 8" "length v8 = 8"
  shows "(ld c8 :: u64) \<noteq> 0 \<and> (ld c8 :: u64) AND ld v8 \<noteq> 0 \<longleftrightarrow> bit_hit c8 v8"
proof -
  have "(ld c8 :: u64) AND ld v8 = ld (map2 (AND) c8 v8)" using assms by (simp add: ld_and)
  moreover have "(ld (map2 (AND) c8 v8) :: u64) \<noteq> 0 \<longleftrightarrow> bit_hit c8 v8"
    using assms by (subst ld_eq_0) (auto simp: bit_hit_def list_ex_iff case_prod_unfold)
  ultimately show ?thesis by auto
qed

lemma word_clear:
  assumes "length c8 = 8" "length v8 = 8"
  shows "st 8 (if bit_hit c8 v8 then ld v8 AND NOT (ld c8 :: u64) else ld v8) = map2 (\<lambda>c v. v AND NOT c) c8 v8"
proof -
  have st8: "st 8 (ld v8 :: u64) = v8" "st 8 (ld c8 :: u64) = c8"
    using st_ld [of v8, where 'a = 64] st_ld [of c8, where 'a = 64] assms by auto
  have swap: "map2 (\<lambda>x y. x AND NOT y) v8 c8 = map2 (\<lambda>c v. v AND NOT c) c8 v8"
    by (subst zip_commute) (simp add: case_prod_unfold comp_def)
  show ?thesis
  proof (cases "bit_hit c8 v8")
    case True
    then show ?thesis by (simp add: st_and_not st8 swap)
  next
    case False
    have "map2 (\<lambda>c v. v AND NOT c) c8 v8 = map2 (\<lambda>c v. v) c8 v8"
    proof (rule map_cong [OF refl])
      fix p assume p: "p \<in> set (zip c8 v8)"
      obtain c v where cv: "p = (c, v)" by (cases p)
      have z: "c AND v = 0" using False p cv by (auto simp: bit_hit_def list_ex_iff)
      have "v AND NOT c = v"
      proof (rule bit_word_eqI)
        fix n assume "n < LENGTH(8)"
        have "\<not> bit (c AND v) n" by (simp add: z)
        then show "bit (v AND NOT c) n = bit v n" using \<open>n < LENGTH(8)\<close> by (auto simp: bit_simps)
      qed
      then show "(case p of (c, v) \<Rightarrow> v AND NOT c) = (case p of (c, v) \<Rightarrow> v)" by (simp add: cv)
    qed
    also have "\<dots> = v8" using assms by (simp add: case_prod_unfold map_snd_zip flip: snd_def)
    finally show ?thesis using False by (simp add: st8)
  qed
qed

lemma hnb_loop_spec:
  assumes "length cur = 8 * n" "length vir = 8 * n"
  shows "hnb_loop n cur vir ret = (new_bits cur vir ret, map2 (\<lambda>c v. v AND NOT c) cur vir)"
  using assms
proof (induction n arbitrary: cur vir ret)
  case 0
  then show ?case by (simp add: new_bits_def pristine_hit_def bit_hit_def)
next
  case (Suc n)
  define c8 v8 where "c8 = take 8 cur" and "v8 = take 8 vir"
  define c' v' where "c' = drop 8 cur" and "v' = drop 8 vir"
  have len: "length c8 = 8" "length v8 = 8" "length c' = 8 * n" "length v' = 8 * n"
    using Suc.prems by (auto simp: c8_def v8_def c'_def v'_def)
  have app: "cur = c8 @ c'" "vir = v8 @ v'" by (simp_all add: c8_def v8_def c'_def v'_def)
  have p: "pristine_hit cur vir \<longleftrightarrow> pristine_hit c8 v8 \<or> pristine_hit c' v'"
    and b: "bit_hit cur vir \<longleftrightarrow> bit_hit c8 v8 \<or> bit_hit c' v'"
    using len unfolding app pristine_hit_def bit_hit_def by (simp_all add: list_ex_zip_append)
  let ?ret = "if bit_hit c8 v8 \<and> ret < 2 then if pristine_hit c8 v8 then 2 else 1 else ret"
  have ret: "new_bits c' v' ?ret = new_bits cur vir ret"
    using pristine_bit_hit [of c8 v8] by (auto simp: new_bits_def p b)
  have map: "map2 (\<lambda>c v. v AND NOT c) cur vir =
      map2 (\<lambda>c v. v AND NOT c) c8 v8 @ map2 (\<lambda>c v. v AND NOT c) c' v'"
    using len by (simp add: app)
  have "hnb_loop (Suc n) cur vir ret =
      (let (r, rest) = hnb_loop n c' v' ?ret
       in (r, st 8 (if bit_hit c8 v8 then ld v8 AND NOT (ld c8 :: u64) else ld v8) @ rest))"
    by (simp only: hnb_loop.simps Let_def word_bit_hit [OF len(1,2)] flip: c8_def v8_def c'_def v'_def)
  then show ?case by (simp only: Suc.IH [OF len(3,4)] ret map word_clear [OF len(1,2)] Let_def prod.case)
qed

lemma bit_hit_cleared: "\<not> bit_hit cur (map2 (\<lambda>c v. v AND NOT c) cur vir)"
proof -
  have "c AND (v AND NOT c) = 0" for c v :: u8 by (rule bit_word_eqI) (auto simp: bit_simps)
  then show ?thesis
    by (auto simp: bit_hit_def list_ex_iff in_set_conv_nth)
qed

lemma has_new_bits_eq:
  assumes "length trace_bits = MAP_SIZE" "length vir = MAP_SIZE"
  shows "has_new_bits main trace_bits vir changed =
    (new_bits trace_bits vir 0, map2 (\<lambda>c v. v AND NOT c) trace_bits vir,
     changed \<or> (main \<and> new_bits trace_bits vir 0 \<noteq> 0))"
  using assms hnb_loop_spec [of trace_bits "MAP_SIZE div 8" vir 0]
  by (auto simp: has_new_bits_def MAP_SIZE_def)

section \<open>Loops over words that act on each byte alone\<close>

text \<open>
  \<open>simplify_trace\<close> and \<open>classify_counts\<close> share their shape: a loop over words of eight bytes whose
  body skips a zero word. The locale says what the body has to do for the loop to be a plain map.
\<close>

locale word_loop =
  fixes body :: "u8 list \<Rightarrow> u8 list" and loop :: "nat \<Rightarrow> u8 list \<Rightarrow> u8 list" and f :: "u8 \<Rightarrow> u8"
  assumes loop_0: "loop 0 mem = mem"
    and loop_Suc: "loop (Suc n) mem = body (take 8 mem) @ loop n (drop 8 mem)"
    and body_map: "length mem = 8 \<Longrightarrow> body mem = map f mem"
begin

lemma loop_map: "8 * n \<le> length mem \<Longrightarrow> loop n mem = map f (take (8 * n) mem) @ drop (8 * n) mem"
proof (induction n arbitrary: mem)
  case (Suc n)
  have "take (8 + 8 * n) mem = take 8 mem @ take (8 * n) (drop 8 mem)"
    by (simp add: take_add)
  then show ?case using Suc by (simp add: loop_Suc body_map add.commute)
qed (simp add: loop_0)

lemma loop_all: "length mem = 8 * n \<Longrightarrow> loop n mem = map f mem"
  by (simp add: loop_map)

end

lemma length_8:
  assumes "length xs = 8"
  obtains a b c d e f g h where "xs = [a, b, c, d, e, f, g, h]"
  using assms by (auto simp: eval_nat_numeral length_Suc_conv)

interpretation simp_loop: word_loop simplify_word simplify_loop simplify_lookup
proof
  fix mem :: "u8 list" assume len: "length mem = 8"
  have "map simplify_lookup mem = st 8 (0x0101010101010101 :: u64)" if "(ld mem :: u64) = 0"
  proof -
    have z: "\<forall>b \<in> set mem. b = 0" using ld_eq_0 [of mem, where 'a = 64] len that by simp
    then have "map simplify_lookup mem = replicate 8 1"
      using len map_replicate_const [of "1::u8" mem] by (simp add: simplify_lookup_def cong: map_cong)
    also have "\<dots> = st 8 (0x0101010101010101 :: u64)" by code_simp
    finally show ?thesis .
  qed
  then show "simplify_word mem = map simplify_lookup mem" by (simp add: simplify_word_def)
qed simp_all

lemma fold_update_nth:
  assumes "j < length t"
  shows "fold (\<lambda>i t. t[k + i := g i]) [0..<n] t ! j = (if k \<le> j \<and> j < k + n then g (j - k) else t ! j)"
    and "length (fold (\<lambda>i t. t[k + i := g i]) [0..<n] t) = length t"
  using assms
proof (induction n)
  case (Suc n)
  case 1
  with Suc show ?case by (cases "j = k + n") (auto simp: nth_list_update)
  case 2
  with Suc show ?case by simp
qed auto

lemma init_count_class16_rows:
  assumes "j < length t"
  shows "fold (\<lambda>b1. fold (\<lambda>b2 t. t[256 * b1 + b2 := class16 b1 b2]) [0..<256]) [0..<m] t ! j =
      (if j < 256 * m then class16 (j div 256) (j mod 256) else t ! j) \<and>
    length (fold (\<lambda>b1. fold (\<lambda>b2 t. t[256 * b1 + b2 := class16 b1 b2]) [0..<256]) [0..<m] t) = length t"
proof (induction m)
  case (Suc m)
  have "j div 256 = m" "j mod 256 = j - 256 * m" if "256 * m \<le> j" "j < 256 * Suc m"
    using that by (auto simp: div_nat_eqI modulo_nat_def)
  then show ?case using Suc assms by (auto simp: fold_update_nth)
qed simp

lemma init_count_class16_nth:
  "length t = 65536 \<Longrightarrow> j < 65536 \<Longrightarrow>
    init_count_class16 t ! j = class16 (j div 256) (j mod 256)"
  using init_count_class16_rows [of j t 256] by (simp add: init_count_class16_def)

lemma ld_pair: "unat (ld [a, b] :: u16) = unat a + 256 * unat b"
proof -
  have "(ld [a, b] :: u16) = ucast a + push_bit 8 (ucast b)"
    by (simp, subst disjunctive_add) (auto simp: bit_simps dest: bit_imp_le_length)
  also have "unat \<dots> = unat a + 256 * unat b"
    using unsigned_less [of a, where 'a = nat] unsigned_less [of b, where 'a = nat]
    by (subst unat_add_lem [THEN iffD1])
       (simp_all add: push_bit_eq_mult unat_word_ariths unsigned_ucast_eq take_bit_nat_eq_self)
  finally show ?thesis .
qed

lemma st_class16: "st 2 (class16 (unat b) (unat a)) = [count_class_lookup8 a, count_class_lookup8 b]"
proof -
  have "\<not> bit (x :: u8) (8 + n)" for x n by (auto dest: bit_imp_le_length)
  then show ?thesis
    by (auto simp: st_def class16_def upt_rec bit_simps intro!: bit_word_eqI)
qed

lemma class_pair:
  assumes "length t = 65536"
  shows "st 2 (init_count_class16 t ! unat (ld [a, b] :: u16)) = [count_class_lookup8 a, count_class_lookup8 b]"
proof -
  have "unat a < 256" "unat b < 256"
    using unsigned_less [of a, where 'a = nat] unsigned_less [of b, where 'a = nat] by simp_all
  then show ?thesis using assms by (simp add: ld_pair init_count_class16_nth st_class16 del: ld.simps)
qed

lemma classify_word_map:
  assumes "length t = 65536" "length mem = 8"
  shows "classify_word (init_count_class16 t) mem = map count_class_lookup8 mem"
proof (cases "(ld mem :: u64) = 0")
  case True
  moreover have "count_class_lookup8 0 = 0" by (simp add: count_class_lookup8_def)
  ultimately have "\<forall>b \<in> set mem. count_class_lookup8 b = b"
    using ld_eq_0 [of mem, where 'a = 64] assms by auto
  then show ?thesis using True by (simp add: classify_word_def map_idI)
next
  case False
  obtain a b c d e f g h where "mem = [a, b, c, d, e, f, g, h]" using assms(2) by (rule length_8)
  then show ?thesis
    using False assms(1) by (simp add: classify_word_def upt_rec class_pair del: ld.simps)
qed

interpretation class_loop: word_loop
  "classify_word (init_count_class16 (replicate 65536 0))"
  "classify_loop (init_count_class16 (replicate 65536 0))" count_class_lookup8
  by unfold_locales (simp_all add: classify_word_map del: replicate.simps)

section \<open>Packing and counting\<close>

lemma minimize_loop_spec:
  assumes "i + length src \<le> 8 * length dst"
  shows "length (minimize_loop i dst src) = length dst \<and>
    (\<forall>k < 8 * length dst. bit (minimize_loop i dst src ! (k div 8)) (k mod 8) \<longleftrightarrow>
       bit (dst ! (k div 8)) (k mod 8) \<or> (i \<le> k \<and> k < i + length src \<and> src ! (k - i) \<noteq> 0))"
  using assms
proof (induction src arbitrary: i dst)
  case (Cons s src)
  define d where "d = (if s \<noteq> 0 then dst[i div 8 := dst ! (i div 8) OR push_bit (i mod 8) 1] else dst)"
  have len: "length d = length dst" by (simp add: d_def)
  have bits: "bit (d ! (k div 8)) (k mod 8) \<longleftrightarrow> bit (dst ! (k div 8)) (k mod 8) \<or> (k = i \<and> s \<noteq> 0)"
    if "k < 8 * length dst" for k
  proof -
    have kd: "k div 8 < length dst" using that by auto
    have ki: "k div 8 = i div 8 \<and> k mod 8 = i mod 8 \<longleftrightarrow> k = i" by (metis div_mult_mod_eq)
    show ?thesis
    proof (cases "k div 8 = i div 8")
      case True
      then show ?thesis using kd ki by (auto simp: d_def bit_simps)
    next
      case False
      then show ?thesis by (auto simp: d_def)
    qed
  qed
  have "minimize_loop i dst (s # src) = minimize_loop (Suc i) d src" by (simp add: d_def)
  then show ?case
    using Cons.IH [of "Suc i" d] Cons.prems bits by (auto simp: len nth_Cons' Suc_le_eq)
qed auto

definition ones :: "u8 list \<Rightarrow> nat" where
  "ones mem = sum_list (map (\<lambda>b. length (filter (bit b) [0..<8])) mem)"

lemma ones_ld_take:
  assumes "8 * length bs \<le> LENGTH('a::len)" "k \<le> length bs"
  shows "length (filter (bit (ld bs :: 'a word)) [0..<8 * k]) = ones (take k bs)"
  using assms(2)
proof (induction k)
  case (Suc k)
  have "[0..<8 * Suc k] = [0..<8 * k] @ [8 * k..<8 * k + 8]"
    using upt_add_eq_append [of 0 "8 * k" 8] by (simp only: mult_Suc_right add.commute [of 8] le0)
  also have "[8 * k..<8 * k + 8] = map (\<lambda>i. i + 8 * k) [0..<8]"
    by (simp only: map_add_upt add.commute [of "8 * k"])
  finally have upt: "[0..<8 * Suc k] = [0..<8 * k] @ map (\<lambda>i. i + 8 * k) [0..<8]" .
  have "bit (ld bs :: 'a word) (i + 8 * k) = bit (bs ! k) i" if "i < 8" for i
  proof -
    have "(i + 8 * k) div 8 = k" "(i + 8 * k) mod 8 = i" "i + 8 * k < LENGTH('a)"
      using assms(1) Suc.prems that by simp_all
    then show ?thesis using Suc.prems by (simp only: bit_ld) simp
  qed
  then have "filter (bit (ld bs :: 'a word) \<circ> (\<lambda>i. i + 8 * k)) [0..<8] = filter (bit (bs ! k)) [0..<8]"
    by (intro filter_cong) auto
  then have "length (filter (bit (ld bs :: 'a word)) (map (\<lambda>i. i + 8 * k) [0..<8])) =
      length (filter (bit (bs ! k)) [0..<8])"
    by (simp only: filter_map length_map)
  then have "length (filter (bit (ld bs :: 'a word)) [0..<8 * Suc k]) =
      ones (take k bs) + length (filter (bit (bs ! k)) [0..<8])"
    using Suc by (simp only: upt filter_append length_append)
  then show ?case using Suc.prems by (simp add: take_Suc_conv_app_nth Suc_le_eq ones_def)
qed (simp add: ones_def)

lemma swar_ld: "length bs = 4 \<Longrightarrow> swar (ld bs) = of_nat (ones bs)"
  using ones_ld_take [of bs 4, where 'a = 32] by (simp add: swar_bits)

lemma count_bits_loop_spec:
  "4 * n \<le> length mem \<Longrightarrow> count_bits_loop n mem ret = ret + of_nat (ones (take (4 * n) mem))"
proof (induction n arbitrary: mem ret)
  case (Suc n)
  let ?v = "ld (take 4 mem) :: u32"
  have "32 = swar 0xFFFFFFFF" by code_simp
  then have "count_bits_loop (Suc n) mem ret = count_bits_loop n (drop 4 mem) (ret + swar ?v)"
    by (simp add: Let_def)
  moreover have "swar ?v = of_nat (ones (take 4 mem))" using Suc.prems by (simp add: swar_ld)
  moreover have "take (4 * Suc n) mem = take 4 mem @ take (4 * n) (drop 4 mem)"
    by (simp add: take_add)
  ultimately show ?case using Suc by (simp add: ones_def algebra_simps)
qed (simp add: ones_def)

lemma bit_FF: "bit (FF b) n \<longleftrightarrow> n < 32 \<and> 8 * b \<le> n \<and> n < 8 * b + 8"
proof -
  have "FF b = push_bit (8 * b) (mask 8)" by (simp add: FF_def mask_eq_exp_minus_1)
  then show ?thesis by (auto simp: bit_simps)
qed

lemma byte_FF:
  assumes "length bs = 4" "i < 4"
  shows "(ld bs :: u32) AND FF i = push_bit (8 * i) (ucast (bs ! i))"
proof (rule bit_word_eqI)
  fix n assume n: "n < LENGTH(32)"
  show "bit ((ld bs :: u32) AND FF i) n = bit (push_bit (8 * i) (ucast (bs ! i)) :: u32) n"
  proof (cases "8 * i \<le> n \<and> n < 8 * i + 8")
    case True
    then obtain k where k: "n = 8 * i + k" "k < 8" by (metis add_less_cancel_left le_add_diff_inverse)
    then have "n div 8 = i" "n mod 8 = k" by auto
    then show ?thesis using assms n k by (auto simp: bit_simps bit_ld bit_FF)
  next
    case False
    then show ?thesis by (auto simp: bit_simps bit_FF dest: bit_imp_le_length)
  qed
qed

lemma byte_FF_simps:
  assumes "length bs = 4" "i < 4"
  shows "(ld bs :: u32) AND FF i = 0 \<longleftrightarrow> bs ! i = 0" "(ld bs :: u32) AND FF i = FF i \<longleftrightarrow> bs ! i = 0xFF"
proof -
  have eq: "push_bit (8 * i) (ucast b :: u32) = push_bit (8 * i) (ucast c) \<longleftrightarrow> b = c" for b c :: u8
  proof
    assume e: "push_bit (8 * i) (ucast b :: u32) = push_bit (8 * i) (ucast c)"
    show "b = c"
    proof (rule bit_word_eqI)
      fix n assume "n < LENGTH(8)"
      then show "bit b n = bit c n"
        using arg_cong [OF e, of "\<lambda>w. bit w (8 * i + n)"] assms(2) by (auto simp: bit_simps)
    qed
  qed simp
  show "(ld bs :: u32) AND FF i = 0 \<longleftrightarrow> bs ! i = 0"
    using eq [of "bs ! i" 0] by (simp only: byte_FF [OF assms]) simp
  have FF: "push_bit (8 * i) (ucast (0xFF :: u8)) = FF i" by (simp add: FF_def)
  show "(ld bs :: u32) AND FF i = FF i \<longleftrightarrow> bs ! i = 0xFF"
    using eq [of "bs ! i" "0xFF"] unfolding byte_FF [OF assms] FF .
qed

lemma length_4:
  assumes "length xs = 4" obtains a b c d where "xs = [a, b, c, d]"
  using assms by (auto simp: numeral_eq_Suc length_Suc_conv)

lemma take_4_Suc: "take (4 * Suc n) mem = take 4 mem @ take (4 * n) (drop 4 mem)"
  by (simp add: take_add)

lemma byte_FF_4:
  "(ld [a, b, c, d] :: u32) AND FF 0 = 0 \<longleftrightarrow> a = 0" "(ld [a, b, c, d] :: u32) AND FF 1 = 0 \<longleftrightarrow> b = 0"
  "(ld [a, b, c, d] :: u32) AND FF 2 = 0 \<longleftrightarrow> c = 0" "(ld [a, b, c, d] :: u32) AND FF 3 = 0 \<longleftrightarrow> d = 0"
  "(ld [a, b, c, d] :: u32) AND FF 0 = FF 0 \<longleftrightarrow> a = 0xFF" "(ld [a, b, c, d] :: u32) AND FF 1 = FF 1 \<longleftrightarrow> b = 0xFF"
  "(ld [a, b, c, d] :: u32) AND FF 2 = FF 2 \<longleftrightarrow> c = 0xFF" "(ld [a, b, c, d] :: u32) AND FF 3 = FF 3 \<longleftrightarrow> d = 0xFF"
  using byte_FF_simps [of "[a, b, c, d]" 0] byte_FF_simps [of "[a, b, c, d]" 1]
    byte_FF_simps [of "[a, b, c, d]" 2] byte_FF_simps [of "[a, b, c, d]" 3]
  by (simp_all del: ld.simps)

lemma count_bytes_loop_spec:
  "4 * n \<le> length mem \<Longrightarrow>
    count_bytes_loop n mem ret = ret + of_nat (length (filter (\<lambda>b. b \<noteq> 0) (take (4 * n) mem)))"
proof (induction n arbitrary: mem ret)
  case (Suc n)
  have len: "length (take 4 mem) = 4" using Suc.prems by simp
  obtain a b c d where t: "take 4 mem = [a, b, c, d]" by (rule length_4 [OF len])
  have z: "(ld [a, b, c, d] :: u32) = 0 \<longleftrightarrow> a = 0 \<and> b = 0 \<and> c = 0 \<and> d = 0"
    by (subst ld_eq_0) auto
  show ?case
    unfolding count_bytes_loop.simps take_4_Suc t Let_def z byte_FF_4 using Suc by simp
qed simp

lemma count_non_255_loop_spec:
  "4 * n \<le> length mem \<Longrightarrow>
    count_non_255_loop n mem ret = ret + of_nat (length (filter (\<lambda>b. b \<noteq> 0xFF) (take (4 * n) mem)))"
proof (induction n arbitrary: mem ret)
  case (Suc n)
  have len: "length (take 4 mem) = 4" using Suc.prems by simp
  obtain a b c d where t: "take 4 mem = [a, b, c, d]" by (rule length_4 [OF len])
  have one: "a = 0xFF \<and> b = 0xFF \<and> c = 0xFF \<and> d = 0xFF" if e: "(ld [a, b, c, d] :: u32) = 0xFFFFFFFF"
  proof -
    have m1: "(0xFFFFFFFF :: u32) = - 1" by simp
    have i: "(ld [a, b, c, d] :: u32) AND FF i = FF i" for i
      unfolding e m1 by (rule and.left_neutral)
    show ?thesis using i [of 0] i [of 1] i [of 2] i [of 3] unfolding byte_FF_4 by simp
  qed
  show ?case
  proof (cases "(ld [a, b, c, d] :: u32) = 0xFFFFFFFF")
    case True
    then show ?thesis
      unfolding count_non_255_loop.simps take_4_Suc t Let_def if_P [OF True] using Suc one by simp
  next
    case False
    show ?thesis
      unfolding count_non_255_loop.simps take_4_Suc t Let_def byte_FF_4 if_not_P [OF False]
      using Suc by simp
  qed
qed simp

lemma list_ex_zip:
  "length xs = length ys \<Longrightarrow> list_ex (\<lambda>(x, y). P x y) (zip xs ys) \<longleftrightarrow> (\<exists>i < length xs. P (xs ! i) (ys ! i))"
  by (auto simp: list_ex_length)

lemma ones_le: "ones mem \<le> 8 * length mem"
proof (induction mem)
  case (Cons b mem)
  have "length (filter (bit b) [0..<8]) \<le> 8" using length_filter_le [of "bit b" "[0..<8]"] by simp
  then show ?case using Cons by (simp add: ones_def)
qed (simp add: ones_def)

section \<open>Properties\<close>

text \<open>
  C7 (functional): \<open>has_new_bits\<close> on whole maps returns 2 when some tuple of the trace was never hit
  before, 1 when only hit counts are new and 0 otherwise; it clears from the virgin map exactly the
  bits of the trace, and a second call with the same trace returns 0 and changes nothing.
\<close>

theorem has_new_bits_result:
  assumes "length trace_bits = MAP_SIZE" "length vir = MAP_SIZE"
    and "has_new_bits main trace_bits vir changed = (ret, vir', changed')"
  shows "ret = (if \<exists>i < MAP_SIZE. trace_bits ! i \<noteq> 0 \<and> vir ! i = 0xFF then 2
                else if \<exists>i < MAP_SIZE. trace_bits ! i AND vir ! i \<noteq> 0 then 1 else 0) \<and>
    length vir' = MAP_SIZE \<and> (\<forall>i < MAP_SIZE. vir' ! i = vir ! i AND NOT (trace_bits ! i)) \<and>
    has_new_bits main trace_bits vir' changed' = (0, vir', changed')"
proof -
  have r: "ret = new_bits trace_bits vir 0" and v: "vir' = map2 (\<lambda>c v. v AND NOT c) trace_bits vir"
    using assms by (simp_all add: has_new_bits_eq)
  have ret: "ret = (if \<exists>i < MAP_SIZE. trace_bits ! i \<noteq> 0 \<and> vir ! i = 0xFF then 2
                else if \<exists>i < MAP_SIZE. trace_bits ! i AND vir ! i \<noteq> 0 then 1 else 0)"
    using assms(1,2) by (simp add: r new_bits_def pristine_hit_def bit_hit_def list_ex_zip)
  have len: "length vir' = MAP_SIZE" using assms(1,2) by (simp add: v)
  have nth: "\<forall>i < MAP_SIZE. vir' ! i = vir ! i AND NOT (trace_bits ! i)" using assms(1,2) by (simp add: v)
  have "\<not> bit_hit trace_bits vir'" by (simp add: v bit_hit_cleared)
  then have "new_bits trace_bits vir' 0 = 0"
    using pristine_bit_hit by (auto simp: new_bits_def)
  moreover have "map2 (\<lambda>c v. v AND NOT c) trace_bits vir' = vir'"
    using assms(1) len by (intro nth_equalityI) (simp_all add: nth and.assoc)
  ultimately have "has_new_bits main trace_bits vir' changed' = (0, vir', changed')"
    using assms(1) len by (simp add: has_new_bits_eq)
  with ret len nth show ?thesis by blast
qed

theorem has_new_bits_result_witness:
  "fst (has_new_bits True ((replicate MAP_SIZE 0)[5 := 1]) (replicate MAP_SIZE 0xFF) False) = 2"
proof -
  let ?t = "(replicate MAP_SIZE 0)[5 := 1] :: u8 list" and ?v = "replicate MAP_SIZE 0xFF :: u8 list"
  obtain r v c where e: "has_new_bits True ?t ?v False = (r, v, c)" by (rule prod_cases3)
  have "\<exists>i < MAP_SIZE. ?t ! i \<noteq> 0 \<and> ?v ! i = 0xFF"
    by (rule exI [of _ 5]) (simp add: MAP_SIZE_def)
  then have "r = 2"
    using has_new_bits_result [OF _ _ e] by (simp only: length_list_update length_replicate if_True)
  then show ?thesis by (simp add: e)
qed

text \<open>
  The counters that read four bytes at a time agree with counting bits and bytes
  one by one; on a whole map the 32 bit counters do not wrap.
\<close>

lemma coverage_counts:
  assumes "length mem = MAP_SIZE"
  shows "unat (count_bits mem) = ones mem \<and>
    unat (count_bytes mem) = length (filter (\<lambda>b. b \<noteq> 0) mem) \<and>
    unat (count_non_255_bytes mem) = length (filter (\<lambda>b. b \<noteq> 0xFF) mem)"
proof -
  have small: "unat (of_nat n :: u32) = n" if "n \<le> 8 * MAP_SIZE" for n
    using that by (simp add: unat_of_nat MAP_SIZE_def)
  have len: "4 * (MAP_SIZE div 4) \<le> length mem" "take (4 * (MAP_SIZE div 4)) mem = mem"
    using assms by (simp_all add: MAP_SIZE_def)
  have le: "length (filter P mem) \<le> 8 * MAP_SIZE" for P
    using length_filter_le [of P mem] assms by simp
  have "ones mem \<le> 8 * MAP_SIZE" using ones_le [of mem] assms by simp
  then show ?thesis
    unfolding count_bits_def count_bytes_def count_non_255_bytes_def count_bits_loop_spec [OF len(1)]
      count_bytes_loop_spec [OF len(1)] count_non_255_loop_spec [OF len(1)] len(2)
    using le by (simp add: small)
qed

lemma coverage_counts_sample:
  "unat (count_bits ((replicate MAP_SIZE 0)[7 := 0xF1])) = ones ((replicate MAP_SIZE 0)[7 := 0xF1])"
  using coverage_counts [of "(replicate MAP_SIZE 0)[7 := 0xF1]"] by simp

text \<open>
  The loops over words that classify and simplify a trace are the plain maps of
  their lookup tables over its bytes; the table of \<open>u16\<close> values that \<open>init_count_class16\<close> fills and
  the shortcut for zero words change nothing.
\<close>

lemma trace_loops_bytewise:
  assumes "length mem = MAP_SIZE"
  shows "classify_counts (init_count_class16 (replicate 65536 0)) mem = map count_class_lookup8 mem \<and>
    simplify_trace mem = map simplify_lookup mem"
  using assms class_loop.loop_all [of mem "MAP_SIZE div 8"] simp_loop.loop_all [of mem "MAP_SIZE div 8"]
  by (simp add: classify_counts_def simplify_trace_def MAP_SIZE_def)

lemma trace_loops_bytewise_sample:
  "classify_counts (init_count_class16 (replicate 65536 0)) ((replicate MAP_SIZE 0)[9 := 5]) ! 9 = 8"
proof -
  have "length ((replicate MAP_SIZE 0)[9 := 5 :: u8]) = MAP_SIZE" by simp
  then have "classify_counts (init_count_class16 (replicate 65536 0)) ((replicate MAP_SIZE 0)[9 := 5]) ! 9 =
      map count_class_lookup8 ((replicate MAP_SIZE 0)[9 := 5]) ! 9"
    using trace_loops_bytewise by simp
  also have "\<dots> = count_class_lookup8 5" by (simp add: MAP_SIZE_def)
  also have "\<dots> = 8" by code_simp
  finally show ?thesis .
qed

lemma minimize_bits_spec:
  assumes "length src = MAP_SIZE" "length dst = MAP_SIZE div 8"
  shows "length (minimize_bits dst src) = MAP_SIZE div 8 \<and>
    (\<forall>k < MAP_SIZE. bit (minimize_bits dst src ! (k div 8)) (k mod 8) \<longleftrightarrow>
       bit (dst ! (k div 8)) (k mod 8) \<or> src ! k \<noteq> 0)"
  using minimize_loop_spec [of 0 src dst] assms by (simp add: minimize_bits_def MAP_SIZE_def)

end
