(* ===== verification/Afl_Core.thy ===== *)
theory Afl_Core
  imports Aflnet_Messages Aflnet_Util Afl_Bitmap
begin

text \<open>
  The data of \<open>afl-fuzz.c\<close> that its queue and its state machine share: queue entries, the per state
  information, the globals, the random source, and the table \<open>was_fuzzed_map\<close>.

  The queue is the list of its entries; entries are only ever appended, so a pointer to an entry is
  its position, which is also its field \<open>index\<close>. A hash table is a partial map. \<open>random()\<close> is the
  function \<open>rnd\<close> from call numbers to results, reseeding included. A value \<^const>\<open>None\<close> stands
  for \<open>PFATAL\<close>, a division by zero, or an access outside an array.
\<close>

section \<open>Records\<close>

record region_score_t =
  rs_score :: u32
  rs_message_depth :: u32
  rs_paths_discovered :: u32
  rs_fuzzs :: u32
  rs_selected_times :: u32

record state_info_t =
  st_id :: u32
  is_covered :: bool
  paths :: u32
  paths_discovered :: u32
  selected_times :: u32
  fuzzs :: u32
  score :: u32
  selected_seed_index :: nat
  seeds :: "nat list"

record queue_entry =
  fname :: string
  len :: u32
  cal_failed :: nat
  was_fuzzed :: bool
  passed_det :: bool
  has_new_cov :: bool
  favored :: bool
  fs_redundant :: bool
  bitmap_size :: u32
  exec_cksum :: u32
  exec_us :: u64
  handicap :: u64
  depth :: u64
  trace_mini :: "u8 list option"
  tc_ref :: u32
  next_100 :: "nat option"
  regions :: "region_t list"
  regions_scores :: "region_score_t list"
  index :: nat
  generating_state_id :: u32
  is_initial_seed :: bool
  unique_state_count :: u32
  var_behavior :: bool

datatype selection = INVALID_SELECTION | RANDOM_SELECTION | ROUND_ROBIN | FAVOR

datatype mca_mode = INVALID_MCA | MCA_FIRST | MCA_LAST | MCA_SMART

record afl =
  queue :: "queue_entry list"
  queue_cur :: nat
  queue_cycle :: u64
  pending_favored :: u32
  state_ids :: "u32 list"
  khms_states :: "u32 \<rightharpoonup> state_info_t"
  khs_ipsm_paths :: "u32 set"
  ipsm_nodes :: "string set"
  ipsm_edges :: "(string \<times> string) set"
  was_fuzzed_map :: "int list list"
  fuzzed_map_states :: nat
  fuzzed_map_qentries :: nat
  target_state_id :: u32
  selected_state_index :: nat
  state_cycles :: nat
  current_choose_position :: int
  state_aware_mode :: bool
  use_snapshot :: bool
  mca_algo :: mca_mode
  response_buf :: "byte list"
  response_buf_size :: nat
  response_bytes :: "u32 list option"
  kl_messages :: "message_t list"
  messages_sent :: nat
  out_dir :: string
  files :: "string \<rightharpoonup> byte list"
  rnd :: "nat \<Rightarrow> nat"
  rnd_calls :: nat
  trace_bits :: "u8 list"
  top_rated :: "nat option list"
  score_changed :: bool
  queued_favored :: u32
  dumb_mode :: bool
  q_prev100 :: nat
  cur_depth :: u32
  max_depth :: u32
  pending_not_fuzzed :: u32
  cycles_wo_finds :: u64
  corpus_read_or_sync :: nat
  max_seed_region_count :: nat

section \<open>Shared operations\<close>

definition UR :: "nat \<Rightarrow> afl \<Rightarrow> (nat \<times> afl) option" where
  "UR limit s =
     (if limit = 0 then None
      else Some (rnd s (rnd_calls s) mod limit, s\<lparr>rnd_calls := Suc (rnd_calls s)\<rparr>))"

text \<open>\<open>get_state_index\<close>: the first index of the state, the number of states when it is not there.\<close>

fun index_of :: "u32 list \<Rightarrow> u32 \<Rightarrow> nat" where
  "index_of [] state_id = 0"
| "index_of (x # xs) state_id = (if x = state_id then 0 else Suc (index_of xs state_id))"

definition get_state_index :: "afl \<Rightarrow> u32 \<Rightarrow> nat" where
  "get_state_index s state_id = index_of (state_ids s) state_id"

definition expand_was_fuzzed_map :: "nat \<Rightarrow> nat \<Rightarrow> afl \<Rightarrow> afl" where
  "expand_was_fuzzed_map new_states new_qentries s =
     (let n = fuzzed_map_states s + new_states; k = fuzzed_map_qentries s + new_qentries
      in s\<lparr>was_fuzzed_map :=
             map (\<lambda>i. map (\<lambda>j. if i \<ge> fuzzed_map_states s \<or> j \<ge> fuzzed_map_qentries s then -1
                              else was_fuzzed_map s ! i ! j) [0..<k]) [0..<n],
           fuzzed_map_states := n, fuzzed_map_qentries := k\<rparr>)"

text \<open>Reading and writing a cell of the map; outside it the access is undefined.\<close>

definition map_cell :: "afl \<Rightarrow> nat \<Rightarrow> nat \<Rightarrow> int option" where
  "map_cell s i j =
     (if i < fuzzed_map_states s \<and> j < fuzzed_map_qentries s then Some (was_fuzzed_map s ! i ! j) else None)"

definition set_map_cell :: "nat \<Rightarrow> nat \<Rightarrow> int \<Rightarrow> afl \<Rightarrow> afl option" where
  "set_map_cell i j v s =
     (if i < fuzzed_map_states s \<and> j < fuzzed_map_qentries s
      then Some (s\<lparr>was_fuzzed_map := (was_fuzzed_map s)[i := (was_fuzzed_map s ! i)[j := v]]\<rparr>) else None)"

definition upd_entry :: "nat \<Rightarrow> (queue_entry \<Rightarrow> queue_entry) \<Rightarrow> afl \<Rightarrow> afl" where
  "upd_entry q f s = s\<lparr>queue := (queue s)[q := f (queue s ! q)]\<rparr>"

definition upd_state :: "u32 \<Rightarrow> (state_info_t \<Rightarrow> state_info_t) \<Rightarrow> afl \<Rightarrow> afl" where
  "upd_state k f s = s\<lparr>khms_states := (khms_states s)(k := map_option f (khms_states s k))\<rparr>"

end
