(* ===== verification/Afl_States.thy ===== *)
theory Afl_States
  imports Afl_Core Aflnet_Codes
begin

text \<open>
  The state machine that the fuzzer infers from the responses (\<open>afl-fuzz.c\<close>): which states and
  transitions it has seen, which seeds reach which state, and the counters of the states. The reader
  of response codes, a function pointer that \<open>main\<close> sets for the protocol, is the argument \<open>codes\<close>.
\<close>

type_synonym response_codes = "cptr \<Rightarrow> nat \<Rightarrow> (u32 list) option"

section \<open>State sequences\<close>

text \<open>\<open>get_unique_state_count\<close>: the hash set starts empty.\<close>

fun unique_loop :: "u32 list \<Rightarrow> u32 set \<Rightarrow> u32 \<Rightarrow> u32" where
  "unique_loop [] seen result = result"
| "unique_loop (s # ss) seen result =
     (if s \<in> seen then unique_loop ss seen result else unique_loop ss (insert s seen) (result + 1))"

definition get_unique_state_count :: "u32 list \<Rightarrow> u32" where
  "get_unique_state_count seq = unique_loop seq {} 0"

text \<open>The loop that keeps at most two equal states in a row.\<close>

function trim_loop :: "u32 list \<Rightarrow> nat \<Rightarrow> u32 list \<Rightarrow> u32 list" where
  "trim_loop seq i trimmed =
     (if i < length seq then
        if i \<ge> 2 \<and> seq ! i = seq ! (i - 1) \<and> seq ! i = seq ! (i - 2)
        then trim_loop seq (i + 1) trimmed
        else trim_loop seq (i + 1) (trimmed @ [seq ! i])
      else trimmed)"
  by pat_completeness auto
termination by (relation "measure (\<lambda>(ss, i, t). length ss - i)") auto

declare trim_loop.simps [simp del]

definition sequence_key :: "u32 list \<Rightarrow> u32" where
  "sequence_key trimmed = hash32 (concat (map (st 4) trimmed)) (of_nat (length trimmed) * 4) 0"

definition is_state_sequence_interesting :: "u32 list \<Rightarrow> afl \<Rightarrow> bool \<times> afl" where
  "is_state_sequence_interesting seq s =
     (let hashKey = sequence_key (trim_loop seq 0 []) in
      if hashKey \<in> khs_ipsm_paths s then (False, s)
      else (True, s\<lparr>khs_ipsm_paths := insert hashKey (khs_ipsm_paths s)\<rparr>))"

section \<open>Annotations\<close>

definition region_annotation ::
  "response_codes \<Rightarrow> afl \<Rightarrow> u32 list \<Rightarrow> nat \<Rightarrow> region_t \<Rightarrow> region_t option" where
  "region_annotation codes s rb i r =
     (if rb ! i = 0 \<or> (i > 0 \<and> rb ! i - rb ! (i - 1) = 0)
      then Some (r\<lparr>state_sequence := None, state_count := 0\<rparr>)
      else do {
        seq \<leftarrow> codes (response_buf s) (unat (rb ! i));
        Some (r\<lparr>state_sequence := Some seq, state_count := length seq\<rparr>)
      })"

function annotate_loop :: "response_codes \<Rightarrow> afl \<Rightarrow> u32 list \<Rightarrow> nat \<Rightarrow> region_t list \<Rightarrow> (region_t list) option" where
  "annotate_loop codes s rb i rs =
     (if i < messages_sent s then
        if i < length rb \<and> i < length rs then do {
          r \<leftarrow> region_annotation codes s rb i (rs ! i);
          annotate_loop codes s rb (i + 1) (rs[i := r])
        }
        else None
      else Some rs)"
  by pat_completeness auto
termination by (relation "measure (\<lambda>(codes, s, rb, i, rs). messages_sent s - i)") auto

declare annotate_loop.simps [simp del]

definition update_region_annotations :: "response_codes \<Rightarrow> nat \<Rightarrow> afl \<Rightarrow> afl option" where
  "update_region_annotations codes q s = do {
     rb \<leftarrow> response_bytes s;
     rs \<leftarrow> annotate_loop codes s rb 0 (regions (queue s ! q));
     Some (upd_entry q (\<lambda>e. e\<lparr>regions := rs\<rparr>) s)
   }"

section \<open>Counters\<close>

text \<open>
  Visiting every state of a sequence once: the loops of \<open>update_fuzzs\<close> and of
  \<open>update_state_aware_variables\<close> that increment a counter of the states they know.
\<close>

fun each_state :: "(state_info_t \<Rightarrow> state_info_t) \<Rightarrow> u32 list \<Rightarrow> u32 set \<Rightarrow> afl \<Rightarrow> afl" where
  "each_state f [] seen s = s"
| "each_state f (x # xs) seen s =
     (if x \<in> seen then each_state f xs seen s
      else each_state f xs (insert x seen) (if khms_states s x \<noteq> None then upd_state x f s else s))"

definition update_fuzzs :: "response_codes \<Rightarrow> afl \<Rightarrow> afl option" where
  "update_fuzzs codes s = do {
     seq \<leftarrow> codes (response_buf s) (response_buf_size s);
     Some (each_state (\<lambda>i. i\<lparr>fuzzs := fuzzs i + 1\<rparr>) seq {} s)
   }"

section \<open>Learning a path\<close>

definition new_state :: "u32 \<Rightarrow> nat list \<Rightarrow> state_info_t" where
  "new_state k qs = \<lparr>st_id = k, is_covered = True, paths = 0, paths_discovered = 0, selected_times = 0,
     fuzzs = 0, score = 1, selected_seed_index = 0, seeds = qs\<rparr>"

text \<open>Entering a state into the table, the array of states and the map.\<close>

definition insert_state :: "u32 \<Rightarrow> nat list \<Rightarrow> afl \<Rightarrow> afl" where
  "insert_state k qs s =
     (let s = s\<lparr>khms_states := (khms_states s)(k \<mapsto> new_state k qs), state_ids := state_ids s @ [k]\<rparr>
      in if k \<noteq> 0 then expand_was_fuzzed_map 1 0 s else s)"

definition see_node :: "u32 \<Rightarrow> afl \<Rightarrow> afl" where
  "see_node k s =
     (if state_str k [] \<in> ipsm_nodes s then s
      else insert_state k [] (s\<lparr>ipsm_nodes := insert (state_str k []) (ipsm_nodes s)\<rparr>))"

definition see_edge :: "u32 \<Rightarrow> u32 \<Rightarrow> afl \<Rightarrow> afl" where
  "see_edge a b s = s\<lparr>ipsm_edges := insert (state_str a [], state_str b []) (ipsm_edges s)\<rparr>"

fun graph_loop :: "u32 \<Rightarrow> u32 list \<Rightarrow> afl \<Rightarrow> afl" where
  "graph_loop prev [] s = s"
| "graph_loop prev (cur # rest) s = graph_loop cur rest (see_edge prev cur (see_node cur (see_node prev s)))"

definition update_graph :: "u32 list \<Rightarrow> afl \<Rightarrow> afl" where
  "update_graph seq s = (case seq of a # b # rest \<Rightarrow> graph_loop a (b # rest) s | _ \<Rightarrow> s)"

text \<open>\<open>basename\<close> of a path without a trailing slash.\<close>

definition basename :: "string \<Rightarrow> string" where
  "basename p = rev (takeWhile (\<lambda>c. c \<noteq> CHR ''/'') (rev p))"

definition path_file :: "u32 list \<Rightarrow> nat \<Rightarrow> bool \<Rightarrow> afl \<Rightarrow> string option" where
  "path_file seq q dry_run s = do {
     temp_str \<leftarrow> state_sequence_to_string seq;
     Some (out_dir s @ ''/replayable-new-ipsm-paths/id:'' @ temp_str @ '':'' @
       (if dry_run then basename (fname (queue s ! q)) else ''new''))
   }"

definition save_path :: "u32 list \<Rightarrow> nat \<Rightarrow> bool \<Rightarrow> afl \<Rightarrow> afl option" where
  "save_path seq q dry_run s = do {
     f \<leftarrow> path_file seq q dry_run s;
     (content, n) \<leftarrow> save_kl_messages_to_file (kl_messages s) (case files s f of None \<Rightarrow> [] | Some c \<Rightarrow> c) True (messages_sent s);
     Some (s\<lparr>files := (files s)(f \<mapsto> content)\<rparr>)
   }"

definition add_seed :: "nat \<Rightarrow> state_info_t \<Rightarrow> state_info_t" where
  "add_seed q i = i\<lparr>seeds := seeds i @ [q]\<rparr>"

definition reach_initial :: "nat \<Rightarrow> afl \<Rightarrow> afl option" where
  "reach_initial q s =
     (if khms_states s 0 = None then None
      else set_map_cell 0 (index (queue s ! q)) 0 (upd_state 0 (add_seed q) s))"

fun reach_regions :: "nat \<Rightarrow> region_t list \<Rightarrow> afl \<Rightarrow> afl option" where
  "reach_regions q [] s = Some s"
| "reach_regions q (r # rs) s =
     (if state_count r > 0 then do {
        seq \<leftarrow> state_sequence r;
        k \<leftarrow> (if state_count r \<le> length seq then Some (seq ! (state_count r - 1)) else None);
        let s1 = (if khms_states s k \<noteq> None then upd_state k (add_seed q) s else insert_state k [q] s);
        s2 \<leftarrow> set_map_cell (get_state_index s1 k) (index (queue s1 ! q)) 0 s1;
        reach_regions q rs s2
      }
      else reach_regions q rs s)"

definition count_discovery :: "afl \<Rightarrow> afl option" where
  "count_discovery s =
     (let s = (if khms_states s (target_state_id s) \<noteq> None
               then upd_state (target_state_id s) (\<lambda>i. i\<lparr>paths_discovered := paths_discovered i + 1\<rparr>) s else s)
      in if state_aware_mode s \<and> use_snapshot s \<and> mca_algo s = MCA_SMART \<and> current_choose_position s \<noteq> -1
      then let scores = regions_scores (queue s ! queue_cur s); p = nat (current_choose_position s) in
        if current_choose_position s \<ge> 0 \<and> p < length scores
        then Some (upd_entry (queue_cur s) (\<lambda>e. e\<lparr>regions_scores :=
               scores[p := (scores ! p)\<lparr>rs_paths_discovered := rs_paths_discovered (scores ! p) + 1\<rparr>]\<rparr>) s)
        else None
      else Some s)"

definition update_state_aware_variables :: "response_codes \<Rightarrow> nat \<Rightarrow> bool \<Rightarrow> afl \<Rightarrow> afl option" where
  "update_state_aware_variables codes q dry_run s =
     (if response_buf_size s = 0 \<or> response_bytes s = None then Some s
      else do {
        seq \<leftarrow> codes (response_buf s) (response_buf_size s);
        let s = upd_entry q (\<lambda>e. e\<lparr>unique_state_count := get_unique_state_count seq\<rparr>) s;
        let (new, s) = is_state_sequence_interesting seq s;
        s \<leftarrow> (if new then map_option (update_graph seq) (save_path seq q dry_run s) else Some s);
        s \<leftarrow> update_region_annotations codes q s;
        s \<leftarrow> reach_initial q s;
        s \<leftarrow> reach_regions q (regions (queue s ! q)) s;
        let s = each_state (\<lambda>i. i\<lparr>paths := paths i + 1\<rparr>) seq {} s;
        (if dry_run then Some s else count_discovery s)
      })"

section \<open>The invariant of the state machine\<close>

text \<open>
  The table and the array know the same states; there is one row of \<open>was_fuzzed_map\<close> for the initial
  state and one for every other entry of the array; every seed of a state is an entry of the queue
  and the position in its seeds is in range. The array may have a state twice, but not state 0.
\<close>

definition map_wf :: "afl \<Rightarrow> bool" where
  "map_wf s \<longleftrightarrow> length (was_fuzzed_map s) = fuzzed_map_states s \<and>
     (\<forall>row \<in> set (was_fuzzed_map s). length row = fuzzed_map_qentries s)"

definition seeds_wf :: "nat \<Rightarrow> state_info_t \<Rightarrow> bool" where
  "seeds_wf n i \<longleftrightarrow> set (seeds i) \<subseteq> {..<n} \<and>
     (if seeds i = [] then selected_seed_index i = 0 else selected_seed_index i < length (seeds i))"

definition sm_wf :: "afl \<Rightarrow> bool" where
  "sm_wf s \<longleftrightarrow> map_wf s \<and> dom (khms_states s) = set (state_ids s) \<and>
     fuzzed_map_states s = Suc (length (filter (\<lambda>k. k \<noteq> 0) (state_ids s))) \<and>
     length (filter (\<lambda>k. k = 0) (state_ids s)) \<le> 1 \<and>
     (0 \<in> set (state_ids s) \<longrightarrow> state_str 0 [] \<in> ipsm_nodes s) \<and>
     fuzzed_map_qentries s = length (queue s) \<and>
     (\<forall>q < length (queue s). index (queue s ! q) = q) \<and>
     (\<forall>i \<in> ran (khms_states s). seeds_wf (length (queue s)) i)"

lemma index_of_less: "index_of ks k < length ks \<longleftrightarrow> k \<in> set ks"
  by (induction ks) auto

lemma index_of_nth: "k \<in> set ks \<Longrightarrow> ks ! index_of ks k = k"
  by (induction ks) auto

lemma sm_wf_states_le: "sm_wf s \<Longrightarrow> length (state_ids s) \<le> fuzzed_map_states s"
  using sum_length_filter_compl [of "\<lambda>k. k \<noteq> 0" "state_ids s"] by (auto simp: sm_wf_def)

lemma sm_wf_index:
  assumes "sm_wf s" "khms_states s k \<noteq> None"
  shows "get_state_index s k < fuzzed_map_states s"
proof -
  have "k \<in> set (state_ids s)" using assms by (auto simp: sm_wf_def dom_def)
  then have "get_state_index s k < length (state_ids s)" by (simp add: get_state_index_def index_of_less)
  then show ?thesis using sm_wf_states_le [OF assms(1)] by simp
qed

lemma map_wf_expand: "map_wf (expand_was_fuzzed_map n k s)"
  by (auto simp: map_wf_def expand_was_fuzzed_map_def Let_def)

lemma expand_simps [simp]:
  "queue (expand_was_fuzzed_map n k s) = queue s" "state_ids (expand_was_fuzzed_map n k s) = state_ids s"
  "khms_states (expand_was_fuzzed_map n k s) = khms_states s" "ipsm_nodes (expand_was_fuzzed_map n k s) = ipsm_nodes s"
  "fuzzed_map_states (expand_was_fuzzed_map n k s) = fuzzed_map_states s + n"
  "fuzzed_map_qentries (expand_was_fuzzed_map n k s) = fuzzed_map_qentries s + k"
  by (simp_all add: expand_was_fuzzed_map_def Let_def)

lemma insert_state_simps [simp]:
  "queue (insert_state k qs s) = queue s" "state_ids (insert_state k qs s) = state_ids s @ [k]"
  "khms_states (insert_state k qs s) = (khms_states s)(k \<mapsto> new_state k qs)"
  "ipsm_nodes (insert_state k qs s) = ipsm_nodes s"
  by (simp_all add: insert_state_def Let_def)

lemma sm_wf_insert_state:
  assumes "sm_wf s" "set qs \<subseteq> {..<length (queue s)}"
    and "k = 0 \<Longrightarrow> 0 \<notin> set (state_ids s) \<and> state_str 0 [] \<in> ipsm_nodes s"
  shows "sm_wf (insert_state k qs s)"
proof -
  have seeds: "seeds_wf (length (queue s)) (new_state k qs)"
    using assms(2) by (auto simp: seeds_wf_def new_state_def)
  have map: "map_wf (insert_state k qs s)"
    using assms(1) map_wf_expand by (auto simp: insert_state_def Let_def sm_wf_def map_wf_def)
  have st: "fuzzed_map_states (insert_state k qs s) = fuzzed_map_states s + (if k = 0 then 0 else 1)"
    "fuzzed_map_qentries (insert_state k qs s) = fuzzed_map_qentries s"
    by (simp_all add: insert_state_def Let_def)
  have "filter (\<lambda>k. k = 0) (state_ids s) = []" if "k = 0" using assms(3) that by (auto simp: filter_empty_conv)
  then show ?thesis
    using assms seeds map unfolding sm_wf_def st by (auto simp: ran_def)
qed

lemma sm_wf_other_fields [simp]:
  "sm_wf (s\<lparr>ipsm_edges := x1\<rparr>) = sm_wf s" "sm_wf (s\<lparr>khs_ipsm_paths := x2\<rparr>) = sm_wf s"
  "sm_wf (s\<lparr>files := x3\<rparr>) = sm_wf s" "sm_wf (s\<lparr>rnd_calls := x4\<rparr>) = sm_wf s"
  by (simp_all add: sm_wf_def map_wf_def)

lemma sm_wf_add_node: "sm_wf s \<Longrightarrow> sm_wf (s\<lparr>ipsm_nodes := insert x (ipsm_nodes s)\<rparr>)"
  by (simp add: sm_wf_def map_wf_def)

lemma sm_wf_see_node: "sm_wf s \<Longrightarrow> sm_wf (see_node k s)"
proof (cases "state_str k [] \<in> ipsm_nodes s")
  case False
  assume wf: "sm_wf s"
  have "sm_wf (insert_state k [] (s\<lparr>ipsm_nodes := insert (state_str k []) (ipsm_nodes s)\<rparr>))"
    by (rule sm_wf_insert_state [OF sm_wf_add_node [OF wf]]) (use wf False in \<open>auto simp: sm_wf_def\<close>)
  then show ?thesis using False by (simp add: see_node_def)
qed (simp add: see_node_def)

lemma sm_wf_graph_loop: "sm_wf s \<Longrightarrow> sm_wf (graph_loop prev rest s)"
proof (induction prev rest s rule: graph_loop.induct)
  case (2 prev cur rest s)
  have "sm_wf (see_node cur (see_node prev s))" by (intro sm_wf_see_node 2(2))
  then have "sm_wf (see_edge prev cur (see_node cur (see_node prev s)))" by (simp add: see_edge_def)
  then show ?case using 2(1) by simp
qed simp

lemma sm_wf_update_graph: "sm_wf s \<Longrightarrow> sm_wf (update_graph seq s)"
  unfolding update_graph_def
  by (cases seq rule: list.exhaust [case_product list.exhaust [of "tl seq"]])
     (auto simp del: graph_loop.simps intro: sm_wf_graph_loop split: list.splits)

lemma sm_wf_upd_entry:
  assumes "sm_wf s" "\<And>e. index (f e) = index e"
  shows "sm_wf (upd_entry q f s)"
proof -
  have "index ((queue s)[q := f (queue s ! q)] ! k) = index (queue s ! k)" if "k < length (queue s)" for k
    using that assms(2) by (cases "k = q") auto
  then show ?thesis using assms(1) by (simp add: sm_wf_def map_wf_def upd_entry_def)
qed

lemma sm_wf_upd_state:
  assumes "sm_wf s" "\<And>i. khms_states s k = Some i \<Longrightarrow> seeds_wf (length (queue s)) i \<Longrightarrow> seeds_wf (length (queue s)) (f i)"
  shows "sm_wf (upd_state k f s)"
  using assms by (auto simp: sm_wf_def map_wf_def upd_state_def ran_def dom_def split: if_splits)

lemma sm_wf_set_map_cell:
  assumes "sm_wf s" "i < fuzzed_map_states s" "j < length (queue s)"
  obtains s' where "set_map_cell i j v s = Some s'" "sm_wf s'" "queue s' = queue s"
    "khms_states s' = khms_states s" "state_ids s' = state_ids s"
proof -
  let ?m = "(was_fuzzed_map s)[i := (was_fuzzed_map s ! i)[j := v]]"
  have q: "j < fuzzed_map_qentries s" using assms by (simp add: sm_wf_def)
  have "length row = fuzzed_map_qentries s" if "row \<in> set ?m" for row
  proof -
    have "row = (was_fuzzed_map s ! i)[j := v] \<or> row \<in> set (was_fuzzed_map s)"
      using set_update_subset_insert [of "was_fuzzed_map s" i] that by auto
    moreover have "was_fuzzed_map s ! i \<in> set (was_fuzzed_map s)"
      using assms(1,2) by (simp add: sm_wf_def map_wf_def)
    ultimately show ?thesis using assms(1) by (auto simp: sm_wf_def map_wf_def)
  qed
  then have "sm_wf (s\<lparr>was_fuzzed_map := ?m\<rparr>)" using assms(1) by (simp add: sm_wf_def map_wf_def)
  then show ?thesis using that assms(2) q by (simp add: set_map_cell_def)
qed

lemma seeds_wf_add_seed: "q < n \<Longrightarrow> seeds_wf n i \<Longrightarrow> seeds_wf n (add_seed q i)"
  by (auto simp: seeds_wf_def add_seed_def split: if_splits)

section \<open>Every step keeps the invariant\<close>

definition annot_ok :: "region_t list \<Rightarrow> bool" where
  "annot_ok rs \<longleftrightarrow> (\<forall>r \<in> set rs. state_count r = (case state_sequence r of None \<Rightarrow> 0 | Some xs \<Rightarrow> length xs))"

lemma annotate_loop_ok:
  assumes "\<And>i. i < messages_sent s \<Longrightarrow> codes (response_buf s) (unat (rb ! i)) \<noteq> None" "messages_sent s \<le> length rb"
    and "messages_sent s \<le> length rs" "annot_ok rs"
  shows "\<exists>rs'. annotate_loop codes s rb i rs = Some rs' \<and> length rs' = length rs \<and> annot_ok rs'"
  using assms(3,4)
proof (induction "messages_sent s - i" arbitrary: i rs)
  case 0
  then show ?case by (subst annotate_loop.simps) simp
next
  case (Suc m)
  have i: "i < messages_sent s" using Suc.hyps(2) by simp
  obtain y where "codes (response_buf s) (unat (rb ! i)) = Some y" using assms(1) i by blast
  then have "\<exists>r. region_annotation codes s rb i (rs ! i) = Some r \<and>
      state_count r = (case state_sequence r of None \<Rightarrow> 0 | Some xs \<Rightarrow> length xs)"
    by (auto simp: region_annotation_def)
  then obtain r where r: "region_annotation codes s rb i (rs ! i) = Some r"
    "state_count r = (case state_sequence r of None \<Rightarrow> 0 | Some xs \<Rightarrow> length xs)" by blast
  have "annot_ok (rs[i := r])"
    using Suc.prems(2) r(2) set_update_subset_insert [of rs i r] by (auto simp: annot_ok_def)
  moreover have "m = messages_sent s - (i + 1)" using Suc.hyps(2) by simp
  ultimately have "\<exists>rs'. annotate_loop codes s rb (i + 1) (rs[i := r]) = Some rs' \<and> length rs' = length rs \<and> annot_ok rs'"
    using Suc.hyps(1) [of "i + 1" "rs[i := r]"] Suc.prems(1) by simp
  then show ?case
    using i r(1) Suc.prems(1) assms(2) by (subst annotate_loop.simps) simp
qed

lemma upd_state_simps [simp]:
  "queue (upd_state k f s) = queue s" "state_ids (upd_state k f s) = state_ids s"
  "fuzzed_map_states (upd_state k f s) = fuzzed_map_states s"
  "khms_states (upd_state k f s) = (khms_states s)(k := map_option f (khms_states s k))"
  by (simp_all add: upd_state_def)

lemma reach_initial_ok:
  assumes "sm_wf s" "q < length (queue s)" "khms_states s 0 \<noteq> None"
  obtains s' i where "reach_initial q s = Some s'" "sm_wf s'" "queue s' = queue s"
    "khms_states s' 0 = Some i" "q \<in> set (seeds i)"
proof -
  let ?s = "upd_state 0 (add_seed q) s"
  have wf: "sm_wf ?s" by (rule sm_wf_upd_state [OF assms(1)]) (use assms(2) seeds_wf_add_seed in auto)
  have idx: "index (queue s ! q) = q" using assms(1,2) by (simp add: sm_wf_def)
  obtain s' where s': "set_map_cell 0 (index (queue s ! q)) 0 ?s = Some s'" "sm_wf s'" "queue s' = queue ?s"
    "khms_states s' = khms_states ?s"
    by (rule sm_wf_set_map_cell [OF wf, of 0 "index (queue s ! q)" 0])
       (use assms(1,2) idx in \<open>auto simp: sm_wf_def\<close>)
  show ?thesis
    by (rule that [of s' "add_seed q (the (khms_states s 0))"])
       (use s' assms(3) in \<open>auto simp: reach_initial_def add_seed_def\<close>)
qed

lemma reach_step_ok:
  fixes k :: u32
  assumes "sm_wf s" "q < length (queue s)" "khms_states s 0 \<noteq> None"
  defines "s1 \<equiv> if khms_states s k \<noteq> None then upd_state k (add_seed q) s else insert_state k [q] s"
  obtains s2 where "set_map_cell (get_state_index s1 k) (index (queue s1 ! q)) 0 s1 = Some s2" "sm_wf s2"
    "queue s2 = queue s" "khms_states s2 = khms_states s1" "khms_states s1 0 \<noteq> None"
proof -
  have wf: "sm_wf s1"
  proof (cases "khms_states s k = None")
    case True
    then have "k \<noteq> 0" using assms(3) by auto
    then have "sm_wf (insert_state k [q] s)" by (intro sm_wf_insert_state) (use assms(1,2) in auto)
    then show ?thesis using True by (simp add: s1_def)
  next
    case False
    have "sm_wf (upd_state k (add_seed q) s)"
      by (rule sm_wf_upd_state [OF assms(1)]) (use assms(2) seeds_wf_add_seed in auto)
    then show ?thesis using False by (simp add: s1_def)
  qed
  have q: "queue s1 = queue s" and z: "khms_states s1 0 \<noteq> None" and k: "khms_states s1 k \<noteq> None"
    using assms(3) by (auto simp: s1_def)
  have idx: "index (queue s1 ! q) = q" using assms(1,2) q by (simp add: sm_wf_def)
  obtain s2 where "set_map_cell (get_state_index s1 k) (index (queue s1 ! q)) 0 s1 = Some s2" "sm_wf s2"
    "queue s2 = queue s1" "khms_states s2 = khms_states s1"
    by (rule sm_wf_set_map_cell [OF wf sm_wf_index [OF wf k], of "index (queue s1 ! q)" 0])
       (use assms(2) q idx in auto)
  then show ?thesis using that q z by simp
qed

lemma seeds_kept:
  assumes "khms_states s 0 = Some i" "x \<in> set (seeds i)"
  shows "\<exists>i'. khms_states (if khms_states s k \<noteq> None then upd_state k (add_seed q) s else insert_state k [q] s) 0 = Some i'
    \<and> x \<in> set (seeds i')"
  using assms by (auto simp: add_seed_def)

lemma reach_regions_ok:
  assumes "sm_wf s" "q < length (queue s)" "khms_states s 0 = Some i" "x \<in> set (seeds i)" "annot_ok rs"
  shows "\<exists>s' i'. reach_regions q rs s = Some s' \<and> sm_wf s' \<and> queue s' = queue s \<and>
    khms_states s' 0 = Some i' \<and> x \<in> set (seeds i')"
  using assms
proof (induction rs arbitrary: s i)
  case (Cons r rs)
  have rs: "annot_ok rs" using Cons.prems(5) by (simp add: annot_ok_def)
  show ?case
  proof (cases "state_count r > 0")
    case False
    then show ?thesis using Cons.IH [OF Cons.prems(1-4) rs] by simp
  next
    case True
    then obtain seq where seq: "state_sequence r = Some seq" "state_count r = length seq"
      using Cons.prems(5) by (auto simp: annot_ok_def split: option.splits)
    define k where "k = seq ! (length seq - 1)"
    define s1 where "s1 = (if khms_states s k \<noteq> None then upd_state k (add_seed q) s else insert_state k [q] s)"
    have z: "khms_states s 0 \<noteq> None" using Cons.prems(3) by simp
    obtain s2 where s2: "set_map_cell (get_state_index s1 k) (index (queue s1 ! q)) 0 s1 = Some s2" "sm_wf s2"
      "queue s2 = queue s" "khms_states s2 = khms_states s1"
      using reach_step_ok [OF Cons.prems(1,2) z, of k] unfolding s1_def by metis
    obtain i2 where "khms_states s2 0 = Some i2" "x \<in> set (seeds i2)"
      using seeds_kept [OF Cons.prems(3,4), of k q] s2(4) unfolding s1_def by auto
    then have "\<exists>s' i'. reach_regions q rs s2 = Some s' \<and> sm_wf s' \<and> queue s' = queue s2 \<and>
        khms_states s' 0 = Some i' \<and> x \<in> set (seeds i')"
      using Cons.IH [OF s2(2) _ _ _ rs] Cons.prems(2) s2(3) by simp
    moreover have "reach_regions q (r # rs) s = reach_regions q rs s2"
      using True seq s2(1) by (cases "khms_states s k = None") (simp_all add: s1_def k_def)
    ultimately show ?thesis using s2(3) by simp
  qed
qed auto

lemma each_state_ok:
  assumes "sm_wf s" "\<And>i. seeds (f i) = seeds i \<and> selected_seed_index (f i) = selected_seed_index i"
    and "khms_states s 0 = Some i" "x \<in> set (seeds i)"
  shows "\<exists>i'. sm_wf (each_state f ks seen s) \<and> queue (each_state f ks seen s) = queue s \<and>
    khms_states (each_state f ks seen s) 0 = Some i' \<and> x \<in> set (seeds i')"
  using assms
proof (induction ks arbitrary: seen s i)
  case (Cons k ks)
  show ?case
  proof (cases "k \<in> seen \<or> khms_states s k = None")
    case True
    then show ?thesis using Cons.IH [OF Cons.prems] by auto
  next
    case False
    have wf: "sm_wf (upd_state k f s)"
      by (rule sm_wf_upd_state [OF Cons.prems(1)]) (use Cons.prems(2) in \<open>simp add: seeds_wf_def\<close>)
    have "\<exists>i'. khms_states (upd_state k f s) 0 = Some i' \<and> x \<in> set (seeds i')"
      using Cons.prems(2-4) by auto
    then show ?thesis using Cons.IH [OF wf Cons.prems(2)] False by fastforce
  qed
qed auto

lemma count_discovery_ok:
  assumes "sm_wf s" "khms_states s 0 = Some i" "x \<in> set (seeds i)"
    and "current_choose_position s = -1 \<or>
      (0 \<le> current_choose_position s \<and> nat (current_choose_position s) < length (regions_scores (queue s ! queue_cur s)))"
  shows "\<exists>s' i'. count_discovery s = Some s' \<and> sm_wf s' \<and> khms_states s' 0 = Some i' \<and> x \<in> set (seeds i')"
proof -
  define s1 where "s1 = (if khms_states s (target_state_id s) \<noteq> None
      then upd_state (target_state_id s) (\<lambda>i. i\<lparr>paths_discovered := paths_discovered i + 1\<rparr>) s else s)"
  have wf: "sm_wf s1"
    unfolding s1_def using assms(1)
    by (auto intro!: sm_wf_upd_state simp: seeds_wf_def)
  have same: "current_choose_position s1 = current_choose_position s" "queue s1 = queue s"
    "queue_cur s1 = queue_cur s"
    by (simp_all add: s1_def upd_state_def)
  have "\<exists>i'. khms_states s1 0 = Some i' \<and> x \<in> set (seeds i')" using assms(2,3) by (auto simp: s1_def)
  moreover have "khms_states (upd_entry q f s1) = khms_states s1" for q f by (simp add: upd_entry_def)
  ultimately show ?thesis
    using wf assms(4) unfolding count_discovery_def s1_def [symmetric] Let_def same
    by (auto simp: same intro!: sm_wf_upd_entry)
qed

lemma graph_loop_simps [simp]:
  "queue (graph_loop prev rest s) = queue s" "response_bytes (graph_loop prev rest s) = response_bytes s"
  "response_buf (graph_loop prev rest s) = response_buf s" "messages_sent (graph_loop prev rest s) = messages_sent s"
  "current_choose_position (graph_loop prev rest s) = current_choose_position s"
  "queue_cur (graph_loop prev rest s) = queue_cur s"
  by (induction prev rest s rule: graph_loop.induct)
     (auto simp: see_edge_def see_node_def insert_state_def expand_was_fuzzed_map_def Let_def)

lemma see_node_known: "khms_states s k \<noteq> None \<Longrightarrow> khms_states (see_node j s) k \<noteq> None"
  by (auto simp: see_node_def)

lemma graph_loop_known: "khms_states s k \<noteq> None \<Longrightarrow> khms_states (graph_loop prev rest s) k \<noteq> None"
proof (induction prev rest s rule: graph_loop.induct)
  case (2 prev cur rest s)
  have "khms_states (see_node cur (see_node prev s)) k \<noteq> None" by (intro see_node_known 2(2))
  then show ?case using 2(1) by (simp add: see_edge_def)
qed simp

text \<open>What the learning part leaves alone, and that it knows state 0 afterwards.\<close>

lemma learn_path:
  assumes "sm_wf s" "seq \<noteq> []" "save_loop (kl_messages s) True (messages_sent s) [] \<noteq> None"
    and "(\<exists>a rest. seq = 0 # a # rest \<and> khs_ipsm_paths s = {} \<and> ipsm_nodes s = {}) \<or> khms_states s 0 \<noteq> None"
    and "is_state_sequence_interesting seq s = (new, s1)"
  obtains s2 where "(if new then map_option (update_graph seq) (save_path seq q dry_run s1) else Some s1) = Some s2"
    "sm_wf s2" "queue s2 = queue s" "khms_states s2 0 \<noteq> None" "response_bytes s2 = response_bytes s"
    "response_buf s2 = response_buf s" "messages_sent s2 = messages_sent s"
    "current_choose_position s2 = current_choose_position s" "queue_cur s2 = queue_cur s"
proof -
  have s1: "\<exists>p. s1 = s\<lparr>khs_ipsm_paths := p\<rparr>" and new: "khs_ipsm_paths s = {} \<Longrightarrow> new"
    using assms(5) by (auto simp: is_state_sequence_interesting_def Let_def split: if_splits intro: exI [of _ "khs_ipsm_paths s"])
  obtain p where p: "s1 = s\<lparr>khs_ipsm_paths := p\<rparr>" using s1 by blast
  show ?thesis
  proof (cases new)
    case False
    then show ?thesis using that [of s1] assms(1,4) new p by auto
  next
    case True
    obtain f where f: "save_path seq q dry_run s1 = Some (s1\<lparr>files := f\<rparr>)"
      using assms(2,3) p
      by (auto simp: save_path_def path_file_def state_sequence_to_string_def save_kl_messages_to_file_def)
    define t where "t = s\<lparr>khs_ipsm_paths := p, files := f\<rparr>"
    have wf: "sm_wf (update_graph seq t)" by (rule sm_wf_update_graph) (simp add: t_def assms(1))
    have known: "khms_states (update_graph seq t) 0 \<noteq> None"
    proof (cases "khms_states s 0 = None")
      case True
      then obtain a rest where seq: "seq = 0 # a # rest" and "ipsm_nodes s = {}" using assms(4) by auto
      then have "khms_states (see_node 0 t) 0 \<noteq> None" by (simp add: see_node_def t_def)
      then have "khms_states (see_node a (see_node 0 t)) 0 \<noteq> None" by (rule see_node_known)
      then show ?thesis unfolding seq update_graph_def by (simp add: graph_loop_known see_edge_def)
    next
      case False
      then have "khms_states t 0 \<noteq> None" by (simp add: t_def)
      then show ?thesis
        unfolding update_graph_def using graph_loop_known [of t 0] by (simp del: graph_loop.simps split: list.splits)
    qed
    have same: "queue (update_graph seq t) = queue s" "response_bytes (update_graph seq t) = response_bytes s"
      "response_buf (update_graph seq t) = response_buf s" "messages_sent (update_graph seq t) = messages_sent s"
      "current_choose_position (update_graph seq t) = current_choose_position s"
      "queue_cur (update_graph seq t) = queue_cur s"
      by (auto simp: update_graph_def t_def simp del: graph_loop.simps split: list.splits)
    show ?thesis by (rule that [of "update_graph seq t"]) (use True f p wf known same in \<open>simp_all add: t_def\<close>)
  qed
qed

lemma set_map_cell_position: "set_map_cell i j v s = Some s' \<Longrightarrow> current_choose_position s' = current_choose_position s"
  by (auto simp: set_map_cell_def split: if_splits)

lemma known_position [simp]:
  "current_choose_position (upd_state k f s) = current_choose_position s"
  "current_choose_position (insert_state k qs s) = current_choose_position s"
  by (simp_all add: upd_state_def insert_state_def expand_was_fuzzed_map_def Let_def)

lemma each_state_position: "current_choose_position (each_state f ks seen s) = current_choose_position s"
  by (induction ks arbitrary: seen s) auto

lemma reach_position:
  "reach_initial q s = Some s' \<Longrightarrow> current_choose_position s' = current_choose_position s"
  "reach_regions q rs s = Some s' \<Longrightarrow> current_choose_position s' = current_choose_position s"
proof -
  show "reach_initial q s = Some s' \<Longrightarrow> current_choose_position s' = current_choose_position s"
    by (auto simp: reach_initial_def dest: set_map_cell_position split: if_splits)
  show "reach_regions q rs s = Some s' \<Longrightarrow> current_choose_position s' = current_choose_position s"
    by (induction q rs s rule: reach_regions.induct)
       (auto simp: Let_def dest!: set_map_cell_position split: if_splits bind_splits)
qed

lemma hash_loop_take: "hash_loop n (take (8 * n + k) data) h = hash_loop n data h"
proof (induction n arbitrary: data h k)
  case (Suc n)
  have "drop 8 (take (8 * Suc n + k) data) = take (8 * n + k) (drop 8 data)" by (simp add: drop_take)
  moreover have "take 8 (take (8 * Suc n + k) data) = take 8 data" by (simp add: min_def)
  ultimately show ?case using Suc by (simp add: Let_def)
qed simp

lemma hash_loop_prefix:
  assumes "take (8 * n) d = take (8 * n) e"
  shows "hash_loop n d h = hash_loop n e h"
  using hash_loop_take [of n 0 d h] hash_loop_take [of n 0 e h] assms by simp

lemma length_states_bytes [simp]: "length (concat (map (st 4) xs)) = 4 * length xs"
  by (induction xs) auto

text \<open>The words that are hashed do not reach the last state of an odd number of states.\<close>

lemma sequence_key_odd:
  assumes "even (length xs)"
  shows "sequence_key (xs @ [a]) = sequence_key (xs @ [b])"
proof -
  let ?n = "unat (drop_bit 3 (of_nat (length xs + 1) * 4 :: u32))"
  have "unat (of_nat (length xs + 1) * 4 :: u32) = (length xs + 1) * 4 mod 2 ^ 32"
    using unat_of_nat [of "(length xs + 1) * 4", where 'a = 32] by simp
  then have "?n = (length xs + 1) * 4 mod 2 ^ 32 div 8"
    by (simp only: unat_drop_bit_eq drop_bit_nat_eq) simp
  also have "\<dots> \<le> (length xs + 1) * 4 div 8" by (intro div_le_mono mod_less_eq_dividend)
  also have "\<dots> = length xs div 2" using assms by (auto elim!: evenE)
  finally have n: "8 * ?n \<le> 4 * length xs" by simp
  have "hash_loop ?n (concat (map (st 4) (xs @ [a]))) h = hash_loop ?n (concat (map (st 4) (xs @ [b]))) h" for h
    by (rule hash_loop_prefix) (use n in simp)
  then show ?thesis by (simp add: sequence_key_def hash32_def del: map_append concat_append)
qed

section \<open>Properties\<close>


text \<open>
  A start state: the fuzzer has one seed of two regions, has sent its first message and got the one
  byte 2 back, and knows nothing yet.
\<close>

definition sample_entry :: queue_entry where
  "sample_entry = \<lparr>fname = ''out/queue/a'', len = 2, cal_failed = 0, was_fuzzed = False, passed_det = False,
     has_new_cov = False, favored = False, fs_redundant = False, bitmap_size = 0, exec_cksum = 0, exec_us = 0,
     handicap = 0, depth = 1, trace_mini = None, tc_ref = 0, next_100 = None, regions = [mk_region 0 0, mk_region 1 1],
     regions_scores = [], index = 0, generating_state_id = 0, is_initial_seed = True, unique_state_count = 0,
     var_behavior = False\<rparr>"

definition sample_afl :: afl where
  "sample_afl = \<lparr>queue = [sample_entry], queue_cur = 0, queue_cycle = 0, pending_favored = 0, state_ids = [],
     khms_states = Map.empty, khs_ipsm_paths = {}, ipsm_nodes = {}, ipsm_edges = {}, was_fuzzed_map = [[-1]],
     fuzzed_map_states = 1, fuzzed_map_qentries = 1, target_state_id = 0, selected_state_index = 0,
     state_cycles = 0, current_choose_position = -1, state_aware_mode = True, use_snapshot = False,
     mca_algo = MCA_FIRST, response_buf = [CHR 0x02], response_buf_size = 1, response_bytes = Some [1],
     kl_messages = [mk_message ''a'', mk_message ''b''], messages_sent = 1, out_dir = ''out'',
     files = Map.empty, rnd = (\<lambda>_. 0), rnd_calls = 0, trace_bits = replicate MAP_SIZE 0,
     top_rated = replicate MAP_SIZE None, score_changed = False, queued_favored = 0, dumb_mode = False,
     q_prev100 = 0, cur_depth = 0, max_depth = 1, pending_not_fuzzed = 1, cycles_wo_finds = 0,
     corpus_read_or_sync = 0, max_seed_region_count = 2\<rparr>"

lemma sample_afl_wf: "sm_wf sample_afl"
  by (simp add: sm_wf_def map_wf_def sample_afl_def sample_entry_def)


text \<open>
  C39 (error): the first seed whose response is read as the initial state alone ends the fuzzer. The
  path of one state is new, but the graph step does nothing for it, so state 0 is never entered into
  the table and the lookup that follows is fatal.
\<close>

theorem single_state_aborts:
  assumes "response_buf_size s \<noteq> 0" "response_bytes s \<noteq> None" "khms_states s 0 = None"
    and "codes (response_buf s) (response_buf_size s) = Some [0]"
  shows "update_state_aware_variables codes q dry_run s = None"
proof -
  define s0 where "s0 = upd_entry q (\<lambda>e. e\<lparr>unique_state_count := get_unique_state_count [0]\<rparr>) s"
  obtain new s1 where new: "is_state_sequence_interesting [0] s0 = (new, s1)" by (rule prod.exhaust)
  have "khms_states s1 0 = None"
    using new assms(3) by (auto simp: is_state_sequence_interesting_def s0_def upd_entry_def Let_def split: if_splits)
  then have learn: "khms_states s2 0 = None"
    if "(if new then map_option (update_graph [0]) (save_path [0] q dry_run s1) else Some s1) = Some s2" for s2
    using that by (auto simp: update_graph_def save_path_def split: if_splits bind_splits)
  have annot: "khms_states s3 0 = khms_states s2 0" if "update_region_annotations codes q s2 = Some s3" for s2 s3
    using that by (auto simp: update_region_annotations_def upd_entry_def split: bind_splits)
  let ?rest = "\<lambda>s2. update_region_annotations codes q s2 \<bind> reach_initial q"
  have "?rest s2 = None" if "(if new then map_option (update_graph [0]) (save_path [0] q dry_run s1) else Some s1) = Some s2" for s2
    using annot learn [OF that] by (cases "update_region_annotations codes q s2") (auto simp: reach_initial_def)
  then show ?thesis
    using assms(1,2,4) new
    by (cases "if new then map_option (update_graph [0]) (save_path [0] q dry_run s1) else Some s1")
       (auto simp: update_state_aware_variables_def s0_def [symmetric] simp flip: bind_assoc)
qed

text \<open>The header of an SSH packet whose body has not arrived.\<close>

lemma ssh_header_only:
  "extract_response_codes_ssh [NUL, NUL, CHR 0x01, NUL, NUL, CHR 0x14] 6 = Some [0]"
proof -
  have "ssh_size [NUL, NUL, CHR 0x01, NUL, NUL, CHR 0x14] = 256"
    by (simp add: ssh_size_def be32_def bval_def)
  moreover have "strstr_ssh [NUL, NUL, CHR 0x01, NUL, NUL, CHR 0x14] = Some False"
    by (simp add: strstr_ssh_def cstr_of_def)
  ultimately show ?thesis
    by (simp add: extract_response_codes_ssh_def add_state_def MAX_ALLOC_def ssh_codes_loop.simps)
qed

theorem single_state_aborts_witness:
  "update_state_aware_variables extract_response_codes_ssh 0 True
     (sample_afl\<lparr>response_buf := [NUL, NUL, CHR 0x01, NUL, NUL, CHR 0x14], response_buf_size := 6\<rparr>) = None"
  by (rule single_state_aborts) (simp_all add: ssh_header_only, simp_all add: sample_afl_def)

text \<open>
  Two paths with an odd number of states that differ in their last state alone are
  the same path for the fuzzer: once one of them is recorded, the other is not interesting. The hash
  reads the states in words of eight bytes, two at a time, and drops the odd one.
\<close>

lemma last_state_ignored:
  assumes "trim_loop ss 0 [] = xs @ [a]" "trim_loop ts 0 [] = xs @ [b]" "even (length xs)"
    and "is_state_sequence_interesting ss s = (new, s')"
  shows "is_state_sequence_interesting ts s' = (False, s')"
  using assms(4) sequence_key_odd [OF assms(3), of a b]
  by (auto simp: is_state_sequence_interesting_def assms(1,2) Let_def split: if_splits)

lemma last_state_ignored_sample:
  "is_state_sequence_interesting [0, 220, 530] (snd (is_state_sequence_interesting [0, 220, 331] sample_afl)) =
    (False, snd (is_state_sequence_interesting [0, 220, 331] sample_afl))"
  by (rule last_state_ignored [where xs = "[0, 220]" and a = 331 and b = 530 and ss = "[0, 220, 331]"])
     (simp_all add: trim_loop.simps prod_eq_iff)

text \<open>
  A state that the region annotations brought into the table is not a node of the graph;
  when a path leads through it, it is entered again: its seeds and counters are lost, and the array
  of states has it twice.
\<close>

lemma relearned_state_forgets:
  assumes "khms_states s k \<noteq> None" "state_str k [] \<notin> ipsm_nodes s" "sm_wf s"
  shows "khms_states (see_node k s) k = Some (new_state k []) \<and> length (filter (\<lambda>x. x = k) (state_ids (see_node k s))) \<ge> 2"
proof -
  have "k \<in> set (state_ids s)" using assms(1,3) by (auto simp: sm_wf_def dom_def)
  then have "filter (\<lambda>x. x = k) (state_ids s) \<noteq> []" by (auto simp: filter_empty_conv)
  then have "1 \<le> length (filter (\<lambda>x. x = k) (state_ids s))" by (simp add: Suc_le_eq)
  then show ?thesis using assms(2) by (simp add: see_node_def)
qed

lemma relearned_state_forgets_sample:
  "khms_states (see_node 7 (insert_state 7 [0] sample_afl)) 7 = Some (new_state 7 []) \<and>
    length (filter (\<lambda>x. x = 7) (state_ids (see_node 7 (insert_state 7 [0] sample_afl)))) \<ge> 2"
proof (rule relearned_state_forgets)
  show "sm_wf (insert_state 7 [0] sample_afl)"
    by (rule sm_wf_insert_state [OF sample_afl_wf]) (simp_all add: sample_afl_def)
qed (simp_all add: sample_afl_def)

end
