(* ===== verification/Afl_Choice.thy ===== *)
theory Afl_Choice
  imports Afl_States
begin

text \<open>
  The choices of the state aware mode (\<open>afl-fuzz.c\<close>): the next target state, a seed for it, the
  region of the seed where mutation starts, and a region of another seed for region level mutation.
  The score formulas, computed by the floating point functions of \<open>libm\<close>, are the arguments
  \<open>favor\<close> and \<open>region_favor\<close>.
\<close>

section \<open>Choosing a state\<close>

fun index_search :: "u32 list \<Rightarrow> u32 \<Rightarrow> nat" where
  "index_search [] val = 0"
| "index_search (a # A) val = (if val \<le> a then 0 else Suc (index_search A val))"

text \<open>
  The loop over the states: new scores, and their running sums in an array that the allocator has
  zeroed. A state that the table does not have leaves the zero.
\<close>

fun score_loop :: "(state_info_t \<Rightarrow> u32) \<Rightarrow> u32 list \<Rightarrow> u32 list \<Rightarrow> afl \<Rightarrow> u32 list \<times> afl" where
  "score_loop favor [] scores s = (scores, s)"
| "score_loop favor (k # ks) scores s =
     (case khms_states s k of
        None \<Rightarrow> score_loop favor ks (scores @ [0]) s
      | Some i \<Rightarrow>
          let sc = favor i
          in score_loop favor ks (scores @ [if scores = [] then sc else last scores + sc])
               (upd_state k (\<lambda>i. i\<lparr>score := sc\<rparr>) s))"

definition update_scores_and_select_next_state :: "(state_info_t \<Rightarrow> u32) \<Rightarrow> afl \<Rightarrow> (u32 \<times> afl) option" where
  "update_scores_and_select_next_state favor s =
     (if state_ids s = [] then Some (0, s)
      else let (scores, s) = score_loop favor (state_ids s) [] s in do {
        (randV, s) \<leftarrow> UR (unat (last scores)) s;
        let idx = index_search scores (of_nat randV);
        (if idx < length (state_ids s) then Some (state_ids s ! idx, s) else None)
      })"

text \<open>The round robin step that \<open>ROUND_ROBIN\<close> and the first cycles of \<open>FAVOR\<close> share.\<close>

definition next_index :: "nat \<Rightarrow> nat \<Rightarrow> nat" where
  "next_index i n = (if Suc i = n then 0 else Suc i)"

definition choose_target_state :: "(state_info_t \<Rightarrow> u32) \<Rightarrow> selection \<Rightarrow> afl \<Rightarrow> (u32 \<times> afl) option" where
  "choose_target_state favor mode s =
     (case mode of
        RANDOM_SELECTION \<Rightarrow> do {
          (i, s) \<leftarrow> UR (length (state_ids s)) s;
          Some (state_ids s ! i, s\<lparr>selected_state_index := i\<rparr>)
        }
      | ROUND_ROBIN \<Rightarrow>
          if selected_state_index s < length (state_ids s)
          then Some (state_ids s ! selected_state_index s,
                 s\<lparr>selected_state_index := next_index (selected_state_index s) (length (state_ids s))\<rparr>)
          else None
      | FAVOR \<Rightarrow>
          if state_cycles s < 5 then
            if selected_state_index s < length (state_ids s)
            then let i = next_index (selected_state_index s) (length (state_ids s))
                 in Some (state_ids s ! selected_state_index s,
                      s\<lparr>selected_state_index := i,
                        state_cycles := (if Suc (selected_state_index s) = length (state_ids s)
                                         then Suc (state_cycles s) else state_cycles s)\<rparr>)
            else None
          else update_scores_and_select_next_state favor s
      | INVALID_SELECTION \<Rightarrow> Some (0, s))"


section \<open>Choosing a seed\<close>

definition chance :: "nat \<Rightarrow> afl \<Rightarrow> (bool \<times> afl) option" where
  "chance p s = do { (r, s) \<leftarrow> UR 100 s; Some (r < p, s) }"

text \<open>The body of the \<open>FAVOR\<close> loop: is the seed \<open>q\<close> selected, or does the loop go on?\<close>

definition seed_verdict :: "u32 \<Rightarrow> nat \<Rightarrow> afl \<Rightarrow> (bool \<times> afl) option" where
  "seed_verdict target q s = do {
     let e = queue s ! q;
     (skip, s) \<leftarrow> (if generating_state_id e \<noteq> target \<and> \<not> is_initial_seed e then chance 90 s else Some (False, s));
     (if skip then Some (False, s)
      else if pending_favored s \<noteq> 0 then do {
        cell \<leftarrow> map_cell s (get_state_index s target) (index e);
        (skip, s) \<leftarrow> (if cell = 1 \<or> \<not> favored e then chance 99 s else Some (False, s));
        Some (\<not> skip, s)
      }
      else if \<not> favored e \<and> length (queue s) > 10 then do {
        unfuzzed \<leftarrow> (if queue_cycle s > 1
                    then map_option (\<lambda>c. c = 0) (map_cell s (get_state_index s target) (index e))
                    else Some False);
        (skip, s) \<leftarrow> chance (if unfuzzed then 75 else 95) s;
        Some (\<not> skip, s)
      }
      else Some (False, s))
   }"

function favor_loop :: "u32 \<Rightarrow> nat list \<Rightarrow> nat option \<Rightarrow> nat \<Rightarrow> nat \<Rightarrow> afl \<Rightarrow> (nat option \<times> nat \<times> afl) option" where
  "favor_loop target sds result i passed s =
     (if passed < 5 then
        if i < length sds then do {
          (selected, s) \<leftarrow> seed_verdict target (sds ! i) s;
          (if selected then Some (Some (sds ! i), next_index i (length sds), s)
           else favor_loop target sds (Some (sds ! i)) (next_index i (length sds))
                  (if Suc i = length sds then Suc passed else passed) s)
        }
        else None
      else Some (result, i, s))"
  by pat_completeness auto
termination
  by (relation "measures [\<lambda>(t, sds, r, i, passed, s). 5 - passed, \<lambda>(t, sds, r, i, passed, s). length sds - i]")
     (auto simp: next_index_def)

declare favor_loop.simps [simp del]

definition choose_seed :: "u32 \<Rightarrow> selection \<Rightarrow> afl \<Rightarrow> (nat option \<times> afl) option" where
  "choose_seed target mode s =
     (case khms_states s target of
        None \<Rightarrow> None
      | Some state \<Rightarrow>
          let set_index = (\<lambda>i. upd_state target (\<lambda>x. x\<lparr>selected_seed_index := i\<rparr>));
              i = selected_seed_index state; n = length (seeds state);
              round_robin = (if i < n then Some (Some (seeds state ! i), set_index (next_index i n) s) else None)
          in if n = 0 then Some (None, s)
             else case mode of
               RANDOM_SELECTION \<Rightarrow> do {
                 (i, s) \<leftarrow> UR n s;
                 Some (Some (seeds state ! i), set_index i s)
               }
             | ROUND_ROBIN \<Rightarrow> round_robin
             | FAVOR \<Rightarrow>
                 if n > 10 then do {
                   (result, i, s) \<leftarrow> favor_loop target (seeds state) None i 0 s;
                   Some (result, set_index i s)
                 }
                 else round_robin
             | INVALID_SELECTION \<Rightarrow> Some (None, s))"

section \<open>Choosing regions\<close>

fun region_score_loop :: "(region_score_t \<Rightarrow> u32) \<Rightarrow> nat list \<Rightarrow> u32 list \<Rightarrow> afl \<Rightarrow> (u32 list \<times> afl) option" where
  "region_score_loop region_favor [] scores s = Some (scores, s)"
| "region_score_loop region_favor (p # ps) scores s =
     (let rs = regions_scores (queue s ! queue_cur s) in
      if p < length rs
      then let sc = region_favor (rs ! p)
        in region_score_loop region_favor ps (scores @ [if scores = [] then sc else last scores + sc])
             (upd_entry (queue_cur s) (\<lambda>e. e\<lparr>regions_scores := rs[p := (rs ! p)\<lparr>rs_score := sc\<rparr>]\<rparr>) s)
      else None)"

text \<open>The argument holds the candidates only, at least one: \<open>fuzz_one\<close> checks the first entry before the call.\<close>

definition message_chain_analysis :: "(region_score_t \<Rightarrow> u32) \<Rightarrow> nat list \<Rightarrow> mca_mode \<Rightarrow> afl \<Rightarrow> (nat \<times> afl) option" where
  "message_chain_analysis region_favor prev algo s =
     (case algo of
        MCA_FIRST \<Rightarrow> Some (prev ! 0, s)
      | MCA_LAST \<Rightarrow> Some (prev ! (length prev - 1), s)
      | MCA_SMART \<Rightarrow>
          if length prev = 1 \<or> queue_cycle s < 6 then Some (prev ! (length prev - 1), s)
          else do {
            (scores, s) \<leftarrow> region_score_loop region_favor prev [] s;
            (randV, s) \<leftarrow> UR (unat (last scores)) s;
            let idx = index_search scores (of_nat randV);
            (if idx < length prev then Some (prev ! idx, s) else None)
          }
      | INVALID_MCA \<Rightarrow> None)"

definition MAX_FILE :: nat where
  "MAX_FILE = 1048576"

definition bytes_of :: "byte list \<Rightarrow> u8 list" where
  "bytes_of = map (\<lambda>c. of_nat (bval c))"

text \<open>\<open>fread\<close> into a zeroed buffer: a short file leaves zeros.\<close>

definition read_region :: "byte list \<Rightarrow> nat \<Rightarrow> nat \<Rightarrow> u8 list" where
  "read_region content start n =
     (let d = take n (drop start content) in bytes_of d @ replicate (n - length d) 0)"

definition choose_source_region :: "afl \<Rightarrow> (u8 list option \<times> afl) option" where
  "choose_source_region s = do {
     (i, s) \<leftarrow> UR (length (queue s)) s;
     let q = queue s ! i;
     (if regions q \<noteq> [] then do {
        (reg_index, s) \<leftarrow> UR (length (regions q)) s;
        let r = regions q ! reg_index;
        let n = (of_int (end_byte r) - of_int (start_byte r) + 1 :: u32);
        (if unat n \<le> MAX_FILE then do {
           content \<leftarrow> files s (fname q);
           (if n = 0 \<or> start_byte r < 0 then None
            else Some (Some (read_region content (nat (start_byte r)) (unat n)), s))
         }
         else Some (None, s))
      }
      else Some (None, s))
   }"

section \<open>Round robin\<close>

text \<open>
  The interface of a round robin choice: a step returns the item at the current position and moves
  on. The choice of a state and the choice of a seed both provide it.
\<close>

fun pick_n :: "nat \<Rightarrow> ('s \<Rightarrow> ('a \<times> 's) option) \<Rightarrow> 's \<Rightarrow> ('a list \<times> 's) option" where
  "pick_n 0 step s = Some ([], s)"
| "pick_n (Suc n) step s = do { (x, s) \<leftarrow> step s; (xs, s) \<leftarrow> pick_n n step s; Some (x # xs, s) }"

locale cyclic_pick =
  fixes step :: "'s \<Rightarrow> ('a \<times> 's) option" and items :: "'s \<Rightarrow> 'a list" and pos :: "'s \<Rightarrow> nat"
  assumes step_item: "pos s < length (items s) \<Longrightarrow> \<exists>s'. step s = Some (items s ! pos s, s') \<and>
    items s' = items s \<and> pos s' = next_index (pos s) (length (items s))"
begin

lemma pick_n_rotate:
  "pos s < length (items s) \<Longrightarrow> k \<le> length (items s) \<Longrightarrow>
    \<exists>s'. pick_n k step s = Some (take k (rotate (pos s) (items s)), s') \<and> items s' = items s \<and>
      pos s' = (pos s + k) mod length (items s)"
proof (induction k arbitrary: s)
  case (Suc k)
  let ?n = "length (items s)"
  obtain s1 where s1: "step s = Some (items s ! pos s, s1)" "items s1 = items s" "pos s1 = Suc (pos s) mod ?n"
    using step_item [OF Suc.prems(1)] Suc.prems(1) by (auto simp: next_index_def)
  have "0 < ?n" using Suc.prems(1) by linarith
  then have "pos s1 < length (items s1)" using s1(2,3) by simp
  then obtain s' where s': "pick_n k step s1 = Some (take k (rotate (pos s1) (items s)), s')"
    "items s' = items s" "pos s' = (pos s1 + k) mod ?n"
    using Suc.IH [of s1] Suc.prems(2) s1(2) by auto
  have rot: "rotate (pos s1) (items s) = rotate1 (rotate (pos s) (items s))"
    using rotate_conv_mod [of "Suc (pos s)" "items s"] by (simp add: s1(3))
  have hd: "rotate (pos s) (items s) = items s ! pos s # tl (rotate (pos s) (items s))"
    using Suc.prems(1) by (metis hd_Cons_tl hd_rotate_conv_nth length_greater_0_conv length_rotate
        less_nat_zero_code list.size(3) mod_less)
  have len: "length (tl (rotate (pos s) (items s))) = ?n - 1" by simp
  have "take k (rotate (pos s1) (items s)) = take k (tl (rotate (pos s) (items s)))"
    unfolding rot by (subst hd) (use Suc.prems len in simp)
  then have "items s ! pos s # take k (rotate (pos s1) (items s)) = take (Suc k) (rotate (pos s) (items s))"
    using hd by (metis take_Suc_Cons)
  moreover have "(pos s1 + k) mod ?n = (pos s + Suc k) mod ?n" by (simp add: s1(3) mod_simps)
  ultimately show ?case using s1(1) s' by simp
qed simp

lemma pick_all:
  assumes "pos s < length (items s)"
  shows "\<exists>s'. pick_n (length (items s)) step s = Some (rotate (pos s) (items s), s') \<and> items s' = items s \<and> pos s' = pos s"
  using pick_n_rotate [OF assms order.refl] assms by simp

end

interpretation state_rr: cyclic_pick "choose_target_state favor ROUND_ROBIN" state_ids selected_state_index
  for favor
  by unfold_locales (simp add: choose_target_state_def)

definition state_seeds :: "u32 \<Rightarrow> afl \<Rightarrow> nat option list" where
  "state_seeds k s = (case khms_states s k of None \<Rightarrow> [] | Some i \<Rightarrow> map Some (seeds i))"

definition seed_index :: "u32 \<Rightarrow> afl \<Rightarrow> nat" where
  "seed_index k s = (case khms_states s k of None \<Rightarrow> 0 | Some i \<Rightarrow> selected_seed_index i)"

interpretation seed_rr: cyclic_pick "choose_seed k ROUND_ROBIN" "state_seeds k" "seed_index k" for k
  by unfold_locales (auto simp: choose_seed_def state_seeds_def seed_index_def Let_def split: option.splits)

section \<open>The loop over seeds\<close>

lemma chance_ok: "\<exists>b. chance p s = Some (b, s\<lparr>rnd_calls := Suc (rnd_calls s)\<rparr>)"
  by (simp add: chance_def UR_def)

lemma map_cell_ok:
  assumes "sm_wf s" "khms_states s k \<noteq> None" "q < length (queue s)"
  shows "\<exists>c. map_cell s (get_state_index s k) (index (queue s ! q)) = Some c"
  using assms sm_wf_index [OF assms(1,2)] by (simp add: map_cell_def sm_wf_def)

lemma fields_rnd_calls [simp]:
  "get_state_index (s\<lparr>rnd_calls := n\<rparr>) k = get_state_index s k" "map_cell (s\<lparr>rnd_calls := n\<rparr>) i j = map_cell s i j"
  by (simp_all add: get_state_index_def map_cell_def)

lemma seed_verdict_ok:
  assumes "sm_wf s" "khms_states s target \<noteq> None" "q < length (queue s)"
  shows "\<exists>b n. seed_verdict target q s = Some (b, s\<lparr>rnd_calls := n\<rparr>)"
proof -
  obtain c where c: "map_cell s (get_state_index s target) (index (queue s ! q)) = Some c"
    using map_cell_ok [OF assms] by blast
  obtain b1 where b1: "chance 90 s = Some (b1, s\<lparr>rnd_calls := Suc (rnd_calls s)\<rparr>)" using chance_ok by blast
  define first where "first \<longleftrightarrow> generating_state_id (queue s ! q) \<noteq> target \<and> \<not> is_initial_seed (queue s ! q)"
  define s1 where "s1 = (if first then s\<lparr>rnd_calls := Suc (rnd_calls s)\<rparr> else s)"
  have s1: "\<exists>n. s1 = s\<lparr>rnd_calls := n\<rparr>" by (auto simp: s1_def intro: exI [of _ "rnd_calls s"])
  have v: "seed_verdict target q s =
      (if first \<and> b1 then Some (False, s1)
       else if pending_favored s \<noteq> 0 then
         if c = 1 \<or> \<not> favored (queue s ! q) then chance 99 s1 \<bind> (\<lambda>(skip, s). Some (\<not> skip, s)) else Some (True, s1)
       else if \<not> favored (queue s ! q) \<and> length (queue s) > 10
       then chance (if queue_cycle s > 1 \<and> c = 0 then 75 else 95) s1 \<bind> (\<lambda>(skip, s). Some (\<not> skip, s))
       else Some (False, s1))"
    unfolding seed_verdict_def first_def [symmetric] Let_def s1_def using b1 c by (cases first; cases b1) simp_all
  define P where "P r \<longleftrightarrow> (\<exists>b n. r = Some (b :: bool, s\<lparr>rnd_calls := n\<rparr>))" for r
  have "P (chance p s1 \<bind> (\<lambda>(skip, s). Some (\<not> skip, s)))" for p
    using s1 chance_ok [of p s1] by (auto simp: P_def)
  moreover have "P (Some (b, s1))" for b using s1 by (auto simp: P_def)
  ultimately have "P (seed_verdict target q s)" unfolding v by (simp split: if_split)
  then show ?thesis by (simp add: P_def)
qed

lemma favor_loop_ok:
  assumes "sm_wf s" "khms_states s target \<noteq> None" "set sds \<subseteq> {..<length (queue s)}" "i < length sds"
    and "passed < 5"
  shows "\<exists>q j n. favor_loop target sds r i passed s = Some (Some q, j, s\<lparr>rnd_calls := n\<rparr>) \<and> q \<in> set sds \<and> j < length sds"
  using assms
proof (induction target sds r i passed s rule: favor_loop.induct)
  case (1 target sds r i passed s)
  let ?j = "next_index i (length sds)" and ?p = "if Suc i = length sds then Suc passed else passed"
  have mem: "sds ! i \<in> set sds" using "1.prems"(4) by simp
  have j: "?j < length sds" using "1.prems"(4) by (auto simp: next_index_def)
  obtain b n where v: "seed_verdict target (sds ! i) s = Some (b, s\<lparr>rnd_calls := n\<rparr>)"
    using seed_verdict_ok [OF "1.prems"(1,2)] mem "1.prems"(3) by blast
  have step: "favor_loop target sds r i passed s =
      (if b then Some (Some (sds ! i), ?j, s\<lparr>rnd_calls := n\<rparr>)
       else favor_loop target sds (Some (sds ! i)) ?j ?p (s\<lparr>rnd_calls := n\<rparr>))"
    using "1.prems"(4,5) v by (subst favor_loop.simps) simp
  consider b | "\<not> b" "?p \<ge> 5" | "\<not> b" "?p < 5" by linarith
  then show ?case
  proof cases
    case 2
    then have "favor_loop target sds (Some (sds ! i)) ?j ?p (s\<lparr>rnd_calls := n\<rparr>) = Some (Some (sds ! i), ?j, s\<lparr>rnd_calls := n\<rparr>)"
      by (subst favor_loop.simps) simp
    then show ?thesis using step mem j 2(1) by auto
  next
    case 3
    have "\<exists>q j m. favor_loop target sds (Some (sds ! i)) ?j ?p (s\<lparr>rnd_calls := n\<rparr>) =
        Some (Some q, j, s\<lparr>rnd_calls := n\<rparr>\<lparr>rnd_calls := m\<rparr>) \<and> q \<in> set sds \<and> j < length sds"
      by (rule "1.IH" [OF "1.prems"(5,4) v]) (use "1.prems" j 3 in simp_all)
    then show ?thesis using step 3(1) by simp
  qed (use step mem j in auto)
qed

text \<open>When no seed is ever accepted the loop goes round until it gives up, at the last seed.\<close>

lemma favor_loop_rejects:
  assumes "\<And>q n. q \<in> set sds \<Longrightarrow> \<exists>n'. seed_verdict target q (s\<lparr>rnd_calls := n\<rparr>) = Some (False, s\<lparr>rnd_calls := n'\<rparr>)"
    and "i < length sds" "passed < 5"
  shows "\<exists>n'. favor_loop target sds r i passed (s\<lparr>rnd_calls := n\<rparr>) = Some (Some (last sds), 0, s\<lparr>rnd_calls := n'\<rparr>)"
  using assms(2,3)
proof (induction "length sds * (5 - passed) - i" arbitrary: r i passed n rule: less_induct)
  case less
  let ?j = "next_index i (length sds)" and ?p = "if Suc i = length sds then Suc passed else passed"
  obtain n1 where v: "seed_verdict target (sds ! i) (s\<lparr>rnd_calls := n\<rparr>) = Some (False, s\<lparr>rnd_calls := n1\<rparr>)"
    using assms(1) less.prems(1) by (meson nth_mem)
  have step: "favor_loop target sds r i passed (s\<lparr>rnd_calls := n\<rparr>) =
      favor_loop target sds (Some (sds ! i)) ?j ?p (s\<lparr>rnd_calls := n1\<rparr>)"
    using less.prems v by (subst favor_loop.simps) simp
  show ?case
  proof (cases "?p \<ge> 5")
    case True
    then have l: "Suc i = length sds" using less.prems by (auto split: if_splits)
    then have "sds ! i = last sds" by (metis diff_Suc_1 last_conv_nth length_0_conv less.prems(1) less_nat_zero_code)
    then show ?thesis unfolding step using True l by (subst favor_loop.simps) (auto simp: next_index_def)
  next
    case False
    have "?j < length sds" using less.prems by (auto simp: next_index_def)
    moreover have "length sds * (5 - ?p) - ?j < length sds * (5 - passed) - i"
    proof -
      obtain d where d: "5 - passed = Suc d" using less.prems(2) by (metis Suc_diff_Suc)
      have "5 - Suc passed = d" using d by simp
      then show ?thesis using less.prems(1) d by (auto simp: next_index_def)
    qed
    ultimately show ?thesis unfolding step using less.hyps [of ?p ?j] False by simp
  qed
qed

section \<open>Weighted choice\<close>

lemma index_search_less: "A \<noteq> [] \<Longrightarrow> val \<le> last A \<Longrightarrow> index_search A val < length A"
  by (induction A) (auto split: if_splits)

lemma score_loop_length:
  "score_loop favor ks scores s = (sc, s') \<Longrightarrow> length sc = length scores + length ks \<and> state_ids s' = state_ids s"
  by (induction ks arbitrary: scores s) (auto simp: Let_def split: option.splits)

lemma region_score_loop_length:
  "region_score_loop favor ps scores s = Some (sc, s') \<Longrightarrow> length sc = length scores + length ps"
  by (induction ps arbitrary: scores s) (auto simp: Let_def split: if_splits)

lemma rand_index:
  assumes "A \<noteq> []" "UR (unat (last A)) s = Some (r, s')"
  shows "index_search A (of_nat r) < length A"
proof (rule index_search_less [OF assms(1)])
  have "r < unat (last A)" using assms(2) by (auto simp: UR_def split: if_splits)
  then show "(of_nat r :: u32) \<le> last A"
    using unsigned_less [of "last A", where 'a = nat] by (simp add: word_le_nat_alt unat_of_nat take_bit_nat_eq_self)
qed

section \<open>Properties\<close>

text \<open>
  C33 (liveness): round robin is fair. From any position, as many choices as there are known states
  return every entry of the array of states once, and the same holds for the seeds of a state.
\<close>

theorem round_robin_fair:
  assumes "selected_state_index s < length (state_ids s)" "seed_index k s < length (state_seeds k s)"
  shows "(\<exists>s'. pick_n (length (state_ids s)) (choose_target_state favor ROUND_ROBIN) s =
        Some (rotate (selected_state_index s) (state_ids s), s')) \<and>
    (\<exists>s'. pick_n (length (state_seeds k s)) (choose_seed k ROUND_ROBIN) s =
        Some (rotate (seed_index k s) (state_seeds k s), s'))"
  using state_rr.pick_all [OF assms(1), of favor] seed_rr.pick_all [OF assms(2)] by blast

theorem round_robin_fair_witness:
  "\<exists>s'. pick_n 2 (choose_target_state (\<lambda>i. 1) ROUND_ROBIN)
     (insert_state 7 [0] (insert_state 0 [0] sample_afl)\<lparr>selected_state_index := 1\<rparr>) = Some ([7, 0], s')"
  using round_robin_fair [of "insert_state 7 [0] (insert_state 0 [0] sample_afl)\<lparr>selected_state_index := 1\<rparr>" 7 "\<lambda>i. 1"]
  by (simp add: sample_afl_def seed_index_def state_seeds_def new_state_def numeral_2_eq_2)

text \<open>
  C34 (safety): in every mode the choice of a seed for a known state stays in range and keeps the
  invariant; a valid mode returns one of the seeds of the state whenever it has one. In the mode
  \<open>FAVOR\<close> this includes that the loop ends.
\<close>

theorem choose_seed_safe:
  assumes "sm_wf s" "khms_states s target = Some i"
  shows "\<exists>r s'. choose_seed target mode s = Some (r, s') \<and> sm_wf s' \<and>
    (seeds i = [] \<or> mode = INVALID_SELECTION \<or> (\<exists>q \<in> set (seeds i). r = Some q))"
proof (cases "seeds i = []")
  case True
  then show ?thesis using assms by (simp add: choose_seed_def)
next
  case False
  have wf: "seeds_wf (length (queue s)) i" using assms by (auto simp: sm_wf_def ran_def)
  then have idx: "selected_seed_index i < length (seeds i)" using False by (simp add: seeds_wf_def)
  have nx: "next_index (selected_seed_index i) (length (seeds i)) < length (seeds i)"
    using idx by (auto simp: next_index_def)
  have upd: "sm_wf (upd_state target (\<lambda>x. x\<lparr>selected_seed_index := j\<rparr>) (s\<lparr>rnd_calls := n\<rparr>))" if "j < length (seeds i)" for j n
    by (rule sm_wf_upd_state) (use assms that in \<open>auto simp: seeds_wf_def\<close>)
  have upd0: "sm_wf (upd_state target (\<lambda>x. x\<lparr>selected_seed_index := j\<rparr>) s)" if "j < length (seeds i)" for j
    using upd [OF that, of "rnd_calls s"] by simp
  obtain q j n where loop: "favor_loop target (seeds i) None (selected_seed_index i) 0 s = Some (Some q, j, s\<lparr>rnd_calls := n\<rparr>)"
    "q \<in> set (seeds i)" "j < length (seeds i)"
    using favor_loop_ok [OF assms(1) _ _ idx, of target 0 None] assms wf by (auto simp: seeds_wf_def)
  show ?thesis
    using False assms idx loop upd upd0 nx
    by (cases mode) (auto simp: choose_seed_def Let_def UR_def)
qed

theorem choose_seed_safe_witness:
  "\<exists>r s'. choose_seed 7 FAVOR (insert_state 7 [0] sample_afl) = Some (r, s') \<and> sm_wf s' \<and> r = Some 0"
proof -
  have "sm_wf (insert_state 7 [0] sample_afl)"
    by (rule sm_wf_insert_state [OF sample_afl_wf]) (simp_all add: sample_afl_def)
  moreover have "khms_states (insert_state 7 [0] sample_afl) 7 = Some (new_state 7 [0])" by simp
  ultimately show ?thesis
    using choose_seed_safe [of "insert_state 7 [0] sample_afl" 7 "new_state 7 [0]" FAVOR] by (simp add: new_state_def)
qed

text \<open>
  With more than ten seeds, all of them favored and no favored seed pending, the
  mode \<open>FAVOR\<close> accepts no seed: the loop has no branch for a favored seed then. It gives up after five
  rounds and returns the last seed of the state, whatever the random numbers are.
\<close>

lemma favored_seeds_passed_over:
  assumes "sm_wf s" "khms_states s target = Some i" "pending_favored s = 0" "10 < length (seeds i)"
    and "\<forall>q \<in> set (seeds i). favored (queue s ! q)"
  shows "\<exists>s'. choose_seed target FAVOR s = Some (Some (last (seeds i)), s')"
proof -
  have idx: "selected_seed_index i < length (seeds i)"
    using assms(1,2,4) by (auto simp: sm_wf_def ran_def seeds_wf_def split: if_splits)
  have "\<exists>n'. seed_verdict target q (s\<lparr>rnd_calls := n\<rparr>) = Some (False, s\<lparr>rnd_calls := n'\<rparr>)" if "q \<in> set (seeds i)" for q n
    using assms(3,5) that by (auto simp: seed_verdict_def chance_def UR_def Let_def)
  from favor_loop_rejects [OF this idx, of 0 None "rnd_calls s"]
  show ?thesis using assms(2,4) by (auto simp: choose_seed_def Let_def)
qed

lemma favored_seeds_passed_over_sample:
  "\<exists>s'. choose_seed 7 FAVOR (insert_state 7 (replicate 11 0) (upd_entry 0 (\<lambda>e. e\<lparr>favored := True\<rparr>) sample_afl)) = Some (Some 0, s')"
proof -
  let ?s = "upd_entry 0 (\<lambda>e. e\<lparr>favored := True\<rparr>) sample_afl"
  have wf: "sm_wf (insert_state 7 (replicate 11 0) ?s)"
    by (rule sm_wf_insert_state [OF sm_wf_upd_entry [OF sample_afl_wf]]) (simp_all add: sample_afl_def upd_entry_def)
  have "pending_favored (insert_state 7 (replicate 11 0) ?s) = 0"
    by (simp add: insert_state_def expand_was_fuzzed_map_def upd_entry_def sample_afl_def)
  then have "\<exists>s'. choose_seed 7 FAVOR (insert_state 7 (replicate 11 0) ?s) = Some (Some (last (replicate 11 0)), s')"
    using favored_seeds_passed_over [OF wf, of 7 "new_state 7 (replicate 11 0)"]
    by (simp add: new_state_def upd_entry_def sample_afl_def)
  then show ?thesis by simp
qed

text \<open>
  The weighted choices stay in range. When the scores do not add up to zero, the choice
  of the next state returns a known state, and \<open>message_chain_analysis\<close> in the mode \<open>MCA_SMART\<close>
  returns one of the candidate regions.
\<close>

lemma weighted_choice_in_range:
  assumes "state_ids s \<noteq> []" "score_loop favor (state_ids s) [] s = (scores, s1)" "last scores \<noteq> 0"
    and "prev \<noteq> []" "region_score_loop region_favor prev [] s = Some (rscores, s2)" "last rscores \<noteq> 0"
  shows "(\<exists>k s'. update_scores_and_select_next_state favor s = Some (k, s') \<and> k \<in> set (state_ids s)) \<and>
    (\<exists>p s'. message_chain_analysis region_favor prev MCA_SMART s = Some (p, s') \<and> p \<in> set prev)"
proof
  have len: "length scores = length (state_ids s)" "state_ids s1 = state_ids s"
    using score_loop_length [OF assms(2)] by auto
  have "unat (last scores) \<noteq> 0" using assms(3) by (simp add: unat_eq_zero)
  then obtain r s' where r: "UR (unat (last scores)) s1 = Some (r, s')" "state_ids s' = state_ids s1"
    by (auto simp: UR_def)
  have "index_search scores (of_nat r) < length scores"
    by (rule rand_index [OF _ r(1)]) (use len assms(1) in auto)
  then show "\<exists>k s'. update_scores_and_select_next_state favor s = Some (k, s') \<and> k \<in> set (state_ids s)"
    using assms(1,2) r len by (simp add: update_scores_and_select_next_state_def)
  have rlen: "length rscores = length prev" using region_score_loop_length [OF assms(5)] by simp
  have "unat (last rscores) \<noteq> 0" using assms(6) by (simp add: unat_eq_zero)
  then obtain x s'' where x: "UR (unat (last rscores)) s2 = Some (x, s'')" by (auto simp: UR_def)
  have "index_search rscores (of_nat x) < length rscores"
    by (rule rand_index [OF _ x]) (use rlen assms(4) in auto)
  then show "\<exists>p s'. message_chain_analysis region_favor prev MCA_SMART s = Some (p, s') \<and> p \<in> set prev"
    using assms(4,5) x rlen by (auto simp: message_chain_analysis_def)
qed

definition scored_sample :: afl where
  "scored_sample = insert_state 7 [0] (upd_entry 0 (\<lambda>e. e\<lparr>regions_scores :=
     [\<lparr>rs_score = 1, rs_message_depth = 0, rs_paths_discovered = 0, rs_fuzzs = 0, rs_selected_times = 0\<rparr>]\<rparr>) sample_afl)"

lemma weighted_choice_in_range_sample:
  "\<exists>k s'. update_scores_and_select_next_state (\<lambda>i. 1000) scored_sample = Some (k, s') \<and> k \<in> {7}"
proof -
  have ids: "state_ids scored_sample = [7]" "khms_states scored_sample 7 = Some (new_state 7 [0])"
    by (simp_all add: scored_sample_def upd_entry_def sample_afl_def)
  then obtain s1 where s1: "score_loop (\<lambda>i. 1000) (state_ids scored_sample) [] scored_sample = ([1000], s1)"
    by (simp add: Let_def)
  obtain s2 where s2: "region_score_loop (\<lambda>r. 5) [0] [] scored_sample = Some ([5], s2)"
    by (simp add: scored_sample_def upd_entry_def sample_afl_def insert_state_def expand_was_fuzzed_map_def Let_def)
  show ?thesis using weighted_choice_in_range [OF _ s1 _ _ s2] ids(1) by simp
qed

end
