(* ===== verification/Afl_Queue.thy ===== *)
theory Afl_Queue
  imports Afl_Choice
begin

text \<open>
  The queue of \<open>afl-fuzz.c\<close>: appending entries, the best entry for every tuple of the bitmap
  (\<open>top_rated\<close>), and the choice of the favored entries that together cover all tuples seen.
  \<open>extract_requests\<close>, a function pointer that \<open>main\<close> sets for the protocol, is the argument
  \<open>requests\<close>. The files \<open>.state/redundant_edges/...\<close> that \<open>mark_as_redundant\<close> creates and removes
  mirror the flag \<open>fs_redundant\<close> and are not modelled.
\<close>

type_synonym request_reader = "cptr \<Rightarrow> nat \<Rightarrow> (region_t list) option"

section \<open>Appending\<close>

definition new_entry :: "string \<Rightarrow> u32 \<Rightarrow> bool \<Rightarrow> afl \<Rightarrow> queue_entry" where
  "new_entry f n passed s = \<lparr>fname = f, len = n, cal_failed = 0, was_fuzzed = False, passed_det = passed,
     has_new_cov = False, favored = False, fs_redundant = False, bitmap_size = 0, exec_cksum = 0,
     exec_us = 0, handicap = 0, depth = ucast (cur_depth s + 1), trace_mini = None, tc_ref = 0,
     next_100 = None, regions = [], regions_scores = [], index = length (queue s),
     generating_state_id = target_state_id s, is_initial_seed = False, unique_state_count = 0,
     var_behavior = False\<rparr>"

text \<open>The linked list: \<open>queue_top->next\<close>, the counters and the pointers a hundred entries ahead.\<close>

definition link_entry :: "queue_entry \<Rightarrow> afl \<Rightarrow> afl" where
  "link_entry e s =
     (let q = length (queue s); prev = (if queue s = [] then q else q_prev100 s);
          s = s\<lparr>queue := queue s @ [e], q_prev100 := prev, pending_not_fuzzed := pending_not_fuzzed s + 1,
                cycles_wo_finds := 0,
                max_depth := (if depth e > ucast (max_depth s) then ucast (depth e) else max_depth s)\<rparr>
      in if length (queue s) mod 100 = 0
         then upd_entry (q_prev100 s) (\<lambda>x. x\<lparr>next_100 := Some q\<rparr>) s\<lparr>q_prev100 := q\<rparr> else s)"

definition fresh_score :: region_score_t where
  "fresh_score = \<lparr>rs_score = 1, rs_message_depth = 0, rs_paths_discovered = 0, rs_fuzzs = 0, rs_selected_times = 0\<rparr>"

definition set_regions :: "nat \<Rightarrow> region_t list \<Rightarrow> afl \<Rightarrow> afl" where
  "set_regions q rs s =
     upd_entry q (\<lambda>e. e\<lparr>regions := rs,
       regions_scores := (if state_aware_mode s \<and> use_snapshot s \<and> mca_algo s = MCA_SMART
                          then replicate (length rs) fresh_score else regions_scores e)\<rparr>) s"

definition read_regions :: "request_reader \<Rightarrow> string \<Rightarrow> u32 \<Rightarrow> nat \<Rightarrow> afl \<Rightarrow> afl option" where
  "read_regions requests f n q s =
     (if corpus_read_or_sync s \<noteq> 0 then do {
        content \<leftarrow> files s f;
        buf \<leftarrow> (if unat n \<le> length content then Some (take (unat n) content) else None);
        rs \<leftarrow> requests buf (unat n);
        let s = set_regions q rs s;
        Some (if corpus_read_or_sync s = 1 \<and> length rs > max_seed_region_count s
              then s\<lparr>max_seed_region_count := length rs\<rparr> else s)
      }
      else do {
        rs \<leftarrow> convert_kl_messages_to_regions (kl_messages s) (messages_sent s);
        Some (set_regions q rs s)
      })"

definition add_to_queue :: "request_reader \<Rightarrow> string \<Rightarrow> u32 \<Rightarrow> bool \<Rightarrow> afl \<Rightarrow> afl option" where
  "add_to_queue requests f n passed s = do {
     let q = length (queue s);
     s \<leftarrow> read_regions requests f n q (link_entry (new_entry f n passed s) s);
     let fn = out_dir s @ ''/regions/'' @ basename f;
     let s = s\<lparr>files := (files s)(fn := save_regions_to_file (regions (queue s ! q)) (files s fn))\<rparr>;
     Some (if fuzzed_map_states s \<noteq> 0 then expand_was_fuzzed_map 0 1 s else expand_was_fuzzed_map 1 1 s)
   }"

section \<open>The best entry for a tuple\<close>

definition drop_ref :: "nat \<Rightarrow> afl \<Rightarrow> afl" where
  "drop_ref w s =
     upd_entry w (\<lambda>e. let t = tc_ref e - 1 in
       e\<lparr>tc_ref := t, trace_mini := (if t = 0 then None else trace_mini e)\<rparr>) s"

definition win_slot :: "nat \<Rightarrow> nat \<Rightarrow> afl \<Rightarrow> afl" where
  "win_slot q i s =
     (upd_entry q (\<lambda>e. e\<lparr>tc_ref := tc_ref e + 1,
        trace_mini := (case trace_mini e of None \<Rightarrow> Some (minimize_bits (replicate (MAP_SIZE div 8) 0) (trace_bits s))
                                         | Some t \<Rightarrow> Some t)\<rparr>) s)
     \<lparr>top_rated := (top_rated s)[i := Some q], score_changed := True\<rparr>"

text \<open>The two tests as they stand: the second repeats the condition of the first.\<close>

definition keeps_slot :: "queue_entry \<Rightarrow> queue_entry \<Rightarrow> bool" where
  "keeps_slot e w \<longleftrightarrow> unique_state_count e < unique_state_count w \<or>
     (unique_state_count e < unique_state_count w \<and> exec_us e * ucast (len e) > exec_us w * ucast (len w))"

definition score_tuple :: "nat \<Rightarrow> nat \<Rightarrow> afl \<Rightarrow> afl" where
  "score_tuple q i s =
     (if trace_bits s ! i = 0 then s
      else case top_rated s ! i of
        None \<Rightarrow> win_slot q i s
      | Some w \<Rightarrow> if keeps_slot (queue s ! q) (queue s ! w) then s else win_slot q i (drop_ref w s))"

definition update_bitmap_score :: "nat \<Rightarrow> afl \<Rightarrow> afl" where
  "update_bitmap_score q s = fold (score_tuple q) [0..<MAP_SIZE] s"

section \<open>Favored entries\<close>

definition mark_as_redundant :: "queue_entry \<Rightarrow> bool \<Rightarrow> queue_entry" where
  "mark_as_redundant e state = (if state = fs_redundant e then e else e\<lparr>fs_redundant := state\<rparr>)"

definition clear_covered :: "u8 list \<Rightarrow> u8 list \<Rightarrow> u8 list" where
  "clear_covered mini temp_v = map2 (\<lambda>m t. if m \<noteq> 0 then t AND NOT m else t) mini temp_v"

definition is_pending :: "nat \<Rightarrow> afl \<Rightarrow> bool option" where
  "is_pending w s =
     (let e = queue s ! w in
      if generating_state_id e = target_state_id s \<or> is_initial_seed e
      then map_option (\<lambda>c. c = 0) (map_cell s (get_state_index s (target_state_id s)) (index e))
      else Some False)"

text \<open>One round of the loop over the tuples; \<open>temp_v\<close> has a bit for every tuple not yet covered.\<close>

definition cull_tuple :: "nat \<Rightarrow> u8 list \<times> afl \<Rightarrow> (u8 list \<times> afl) option" where
  "cull_tuple i c =
     (let (temp_v, s) = c in
      case top_rated s ! i of
        None \<Rightarrow> Some (temp_v, s)
      | Some w \<Rightarrow>
          if temp_v ! (i div 8) AND push_bit (i mod 8) 1 \<noteq> 0 then do {
            mini \<leftarrow> trace_mini (queue s ! w);
            pend \<leftarrow> is_pending w (upd_entry w (\<lambda>e. e\<lparr>favored := True\<rparr>) s);
            Some (clear_covered mini temp_v,
                  (upd_entry w (\<lambda>e. e\<lparr>favored := True\<rparr>) s)
                    \<lparr>queued_favored := queued_favored s + 1,
                     pending_favored := (if pend then pending_favored s + 1 else pending_favored s)\<rparr>)
          }
          else Some (temp_v, s))"

fun cull_loop :: "nat list \<Rightarrow> u8 list \<times> afl \<Rightarrow> (u8 list \<times> afl) option" where
  "cull_loop [] c = Some c"
| "cull_loop (i # is) c = cull_tuple i c \<bind> cull_loop is"

definition cull_queue :: "afl \<Rightarrow> afl option" where
  "cull_queue s =
     (if dumb_mode s \<or> \<not> score_changed s then Some s
      else do {
        let s = s\<lparr>score_changed := False, queued_favored := 0, pending_favored := 0,
                  queue := map (\<lambda>e. if is_initial_seed e then e else e\<lparr>favored := False\<rparr>) (queue s)\<rparr>;
        (temp_v, s) \<leftarrow> cull_loop [0..<MAP_SIZE] (replicate (MAP_SIZE div 8) 0xFF, s);
        Some (s\<lparr>queue := map (\<lambda>e. mark_as_redundant e (\<not> favored e)) (queue s)\<rparr>)
      })"

section \<open>The invariant of the ratings\<close>

definition covers :: "u8 list \<Rightarrow> nat \<Rightarrow> bool" where
  "covers t i \<longleftrightarrow> bit (t ! (i div 8)) (i mod 8)"

text \<open>
  The counter of an entry is the number of tuples it is the best for; it keeps its packed trace
  exactly as long as there is one, and the packed trace has the tuples it is the best for.
\<close>

definition rated_wf :: "afl \<Rightarrow> bool" where
  "rated_wf s \<longleftrightarrow> length (top_rated s) = MAP_SIZE \<and>
     (\<forall>i < MAP_SIZE. \<forall>w. top_rated s ! i = Some w \<longrightarrow> w < length (queue s) \<and>
        (\<exists>t. trace_mini (queue s ! w) = Some t \<and> length t = MAP_SIZE div 8 \<and> covers t i)) \<and>
     (\<forall>w < length (queue s). unat (tc_ref (queue s ! w)) = count_list (top_rated s) (Some w) \<and>
        (trace_mini (queue s ! w) = None \<longleftrightarrow> tc_ref (queue s ! w) = 0))"

text \<open>The packed trace of the entry that is scored is missing or has all tuples of its trace.\<close>

definition mini_ok :: "nat \<Rightarrow> afl \<Rightarrow> bool" where
  "mini_ok q s \<longleftrightarrow> q < length (queue s) \<and> length (trace_bits s) = MAP_SIZE \<and>
     (case trace_mini (queue s ! q) of None \<Rightarrow> True
      | Some t \<Rightarrow> length t = MAP_SIZE div 8 \<and> (\<forall>i < MAP_SIZE. trace_bits s ! i \<noteq> 0 \<longrightarrow> covers t i))"

lemma count_list_update:
  "i < length xs \<Longrightarrow>
    count_list (xs[i := y]) z + (if xs ! i = z then 1 else 0) = count_list xs z + (if y = z then 1 else 0)"
proof (induction xs arbitrary: i)
  case (Cons x xs)
  show ?case
  proof (cases i)
    case (Suc k)
    then show ?thesis using Cons.IH [of k] Cons.prems by auto
  qed simp
qed simp

lemma count_list_le_length: "count_list xs y \<le> length xs"
  by (induction xs) auto

lemma count_list_pos: "i < length xs \<Longrightarrow> 0 < count_list xs (xs ! i)"
  by (induction xs arbitrary: i) (auto simp: nth_Cons split: nat.splits)

lemma covers_minimize:
  assumes "length (trace_bits s) = MAP_SIZE"
  shows "length (minimize_bits (replicate (MAP_SIZE div 8) 0) (trace_bits s)) = MAP_SIZE div 8"
    and "i < MAP_SIZE \<Longrightarrow> covers (minimize_bits (replicate (MAP_SIZE div 8) 0) (trace_bits s)) i \<longleftrightarrow> trace_bits s ! i \<noteq> 0"
proof -
  note spec = minimize_bits_spec [OF assms, of "replicate (MAP_SIZE div 8) 0"]
  then show "length (minimize_bits (replicate (MAP_SIZE div 8) 0) (trace_bits s)) = MAP_SIZE div 8" by simp
  assume "i < MAP_SIZE"
  moreover from this have "i div 8 < MAP_SIZE div 8" by (simp add: MAP_SIZE_def)
  ultimately show "covers (minimize_bits (replicate (MAP_SIZE div 8) 0) (trace_bits s)) i \<longleftrightarrow> trace_bits s ! i \<noteq> 0"
    using spec by (simp add: covers_def)
qed

lemma rated_wfE:
  assumes "rated_wf s" "i < MAP_SIZE" "top_rated s ! i = Some w"
  obtains t where "w < length (queue s)" "trace_mini (queue s ! w) = Some t" "length t = MAP_SIZE div 8" "covers t i"
proof -
  have "w < length (queue s) \<and> (\<exists>t. trace_mini (queue s ! w) = Some t \<and> length t = MAP_SIZE div 8 \<and> covers t i)"
    using assms unfolding rated_wf_def by blast
  then show ?thesis using that by blast
qed

text \<open>Taking a free slot.\<close>

lemma win_free_slot:
  assumes wf: "rated_wf s" and q: "mini_ok q s" and i: "i < MAP_SIZE" "trace_bits s ! i \<noteq> 0"
    and free: "top_rated s ! i = None"
  shows "rated_wf (win_slot q i s) \<and> mini_ok q (win_slot q i s)"
proof -
  let ?m = "minimize_bits (replicate (MAP_SIZE div 8) 0) (trace_bits s)" and ?e = "queue s ! q"
  define t where "t = (case trace_mini ?e of None \<Rightarrow> ?m | Some t \<Rightarrow> t)"
  have len: "length (top_rated s) = MAP_SIZE" using wf by (simp add: rated_wf_def)
  have t: "length t = MAP_SIZE div 8" "j < MAP_SIZE \<Longrightarrow> trace_bits s ! j \<noteq> 0 \<Longrightarrow> covers t j" for j
    using q covers_minimize [of s] by (auto simp: t_def mini_ok_def split: option.splits)
  have told: "covers t j" if j: "j < MAP_SIZE" "top_rated s ! j = Some q" for j
  proof -
    obtain u where "trace_mini ?e = Some u" "covers u j" by (rule rated_wfE [OF wf j])
    then show ?thesis by (simp add: t_def)
  qed
  have ql: "q < length (queue s)" using q by (simp add: mini_ok_def)
  have e': "queue (win_slot q i s) = (queue s)[q := ?e\<lparr>tc_ref := tc_ref ?e + 1, trace_mini := Some t\<rparr>]"
    by (simp add: win_slot_def upd_entry_def t_def split: option.splits)
  have tr: "top_rated (win_slot q i s) = (top_rated s)[i := Some q]" "trace_bits (win_slot q i s) = trace_bits s"
    by (simp_all add: win_slot_def upd_entry_def)
  have cnt: "count_list ((top_rated s)[i := Some q]) (Some w) = count_list (top_rated s) (Some w) + (if w = q then 1 else 0)" for w
    using count_list_update [of i "top_rated s" "Some q" "Some w"] i(1) len free by auto
  have le: "count_list ((top_rated s)[i := Some q]) (Some q) \<le> MAP_SIZE"
    using count_list_le_length [of "(top_rated s)[i := Some q]"] len by simp
  have ref: "unat (tc_ref ?e + 1) = count_list (top_rated s) (Some q) + 1"
  proof -
    have "unat (tc_ref ?e) = count_list (top_rated s) (Some q)" using wf ql by (simp add: rated_wf_def)
    then show ?thesis using le cnt [of q] by (simp add: unat_word_ariths MAP_SIZE_def)
  qed
  then have ref0: "tc_ref ?e + 1 \<noteq> 0" by (metis add_is_0 unat_0 zero_neq_one)
  have "rated_wf (win_slot q i s)"
    unfolding rated_wf_def e' tr
  proof (intro conjI allI impI)
    fix j w assume "j < MAP_SIZE" "(top_rated s)[i := Some q] ! j = Some w"
    then have c: "(j = i \<and> w = q) \<or> top_rated s ! j = Some w" by (cases "j = i") (auto simp: len)
    then show "w < length ((queue s)[q := ?e\<lparr>tc_ref := tc_ref ?e + 1, trace_mini := Some t\<rparr>])"
      using wf ql \<open>j < MAP_SIZE\<close> by (auto simp: rated_wf_def)
    show "\<exists>u. trace_mini ((queue s)[q := ?e\<lparr>tc_ref := tc_ref ?e + 1, trace_mini := Some t\<rparr>] ! w) = Some u \<and>
        length u = MAP_SIZE div 8 \<and> covers u j"
      using c wf ql t told i \<open>j < MAP_SIZE\<close> by (cases "w = q") (auto simp: rated_wf_def)
  next
    fix w assume "w < length ((queue s)[q := ?e\<lparr>tc_ref := tc_ref ?e + 1, trace_mini := Some t\<rparr>])"
    then show "unat (tc_ref ((queue s)[q := ?e\<lparr>tc_ref := tc_ref ?e + 1, trace_mini := Some t\<rparr>] ! w)) =
        count_list ((top_rated s)[i := Some q]) (Some w)"
      "(trace_mini ((queue s)[q := ?e\<lparr>tc_ref := tc_ref ?e + 1, trace_mini := Some t\<rparr>] ! w) = None) =
        (tc_ref ((queue s)[q := ?e\<lparr>tc_ref := tc_ref ?e + 1, trace_mini := Some t\<rparr>] ! w) = 0)"
      using wf ref ref0 cnt [of w] ql by (cases "w = q"; simp add: rated_wf_def)+
  qed (simp add: len)
  moreover have "mini_ok q (win_slot q i s)"
    using q t ql by (simp add: mini_ok_def e' tr)
  ultimately show ?thesis by blast
qed

text \<open>Freeing a slot that has an owner.\<close>

lemma free_slot:
  assumes wf: "rated_wf s" and q: "mini_ok q s" and i: "i < MAP_SIZE" and own: "top_rated s ! i = Some w"
  defines "s' \<equiv> (drop_ref w s)\<lparr>top_rated := (top_rated s)[i := None]\<rparr>"
  shows "rated_wf s' \<and> mini_ok q s'"
proof -
  let ?e = "queue s ! w"
  define f where "f = ?e\<lparr>tc_ref := tc_ref ?e - 1, trace_mini := (if tc_ref ?e - 1 = 0 then None else trace_mini ?e)\<rparr>"
  have len: "length (top_rated s) = MAP_SIZE" using wf by (simp add: rated_wf_def)
  have wl: "w < length (queue s)" using wf i own by (simp add: rated_wf_def)
  have e': "queue s' = (queue s)[w := f]" by (simp add: s'_def drop_ref_def upd_entry_def f_def Let_def)
  have tr: "top_rated s' = (top_rated s)[i := None]" "trace_bits s' = trace_bits s"
    by (simp_all add: s'_def drop_ref_def upd_entry_def)
  have cnt: "count_list ((top_rated s)[i := None]) (Some v) + (if v = w then 1 else 0) = count_list (top_rated s) (Some v)" for v
    using count_list_update [of i "top_rated s" None "Some v"] i len own by auto
  have refw: "unat (tc_ref ?e) = count_list (top_rated s) (Some w)" using wf wl by (simp add: rated_wf_def)
  have "0 < unat (tc_ref ?e)" using refw cnt [of w] by simp
  then have "1 \<le> tc_ref ?e" by (simp add: word_le_nat_alt)
  then have ref: "unat (tc_ref ?e - 1) = count_list ((top_rated s)[i := None]) (Some w)"
    using refw cnt [of w] by (simp add: unat_sub)
  have some: "trace_mini ?e \<noteq> None" by (rule rated_wfE [OF wf i own]) simp
  have "rated_wf s'"
    unfolding rated_wf_def e' tr
  proof (intro conjI allI impI)
    fix j v assume j: "j < MAP_SIZE" "(top_rated s)[i := None] ! j = Some v"
    then have ji: "j \<noteq> i" "top_rated s ! j = Some v" using len by (cases "j = i"; simp)+
    then show "v < length ((queue s)[w := f])" using wf j(1) by (auto simp: rated_wf_def)
    obtain u where u: "trace_mini (queue s ! v) = Some u" "length u = MAP_SIZE div 8" "covers u j"
      by (rule rated_wfE [OF wf j(1) ji(2)])
    have "0 < count_list ((top_rated s)[i := None]) (Some v)"
      using count_list_pos [of j "(top_rated s)[i := None]"] j len by simp
    then have "v = w \<Longrightarrow> tc_ref ?e - 1 \<noteq> 0" using ref by (metis less_numeral_extra(3) unat_0)
    then show "\<exists>u. trace_mini ((queue s)[w := f] ! v) = Some u \<and> length u = MAP_SIZE div 8 \<and> covers u j"
      using u wl by (cases "v = w") (auto simp: f_def)
  next
    fix v assume v: "v < length ((queue s)[w := f])"
    show "unat (tc_ref ((queue s)[w := f] ! v)) = count_list ((top_rated s)[i := None]) (Some v)"
      "(trace_mini ((queue s)[w := f] ! v) = None) = (tc_ref ((queue s)[w := f] ! v) = 0)"
      using wf v ref cnt [of v] some wl by (cases "v = w"; simp add: rated_wf_def f_def)+
  qed (simp add: len)
  moreover have "mini_ok q s'"
    using q wl by (cases "q = w") (auto simp: mini_ok_def e' tr f_def split: option.splits)
  ultimately show ?thesis by blast
qed

lemma win_slot_overwrites: "win_slot q i (s\<lparr>top_rated := (top_rated s)[i := x]\<rparr>) = win_slot q i s"
  by (simp add: win_slot_def upd_entry_def cong: option.case_cong)

lemma score_tuple_wf:
  assumes "rated_wf s" "mini_ok q s" "i < MAP_SIZE"
  shows "rated_wf (score_tuple q i s) \<and> mini_ok q (score_tuple q i s)"
proof (cases "trace_bits s ! i = 0")
  case False
  show ?thesis
  proof (cases "top_rated s ! i")
    case None
    then show ?thesis using win_free_slot [OF assms False] False by (simp add: score_tuple_def)
  next
    case (Some w)
    let ?s = "(drop_ref w s)\<lparr>top_rated := (top_rated s)[i := None]\<rparr>"
    have "rated_wf ?s" "mini_ok q ?s" using free_slot [OF assms Some] by auto
    moreover have "top_rated ?s ! i = None" using assms(1,3) by (simp add: rated_wf_def)
    moreover have "trace_bits ?s ! i \<noteq> 0" using False by (simp add: drop_ref_def upd_entry_def)
    ultimately have "rated_wf (win_slot q i ?s) \<and> mini_ok q (win_slot q i ?s)"
      using win_free_slot assms(3) by blast
    moreover have "win_slot q i ?s = win_slot q i (drop_ref w s)"
      using win_slot_overwrites [of q i "drop_ref w s" None] by (simp add: drop_ref_def upd_entry_def)
    ultimately show ?thesis using assms Some False by (simp add: score_tuple_def)
  qed
qed (use assms in \<open>simp add: score_tuple_def\<close>)

lemma score_tuples_wf:
  "rated_wf s \<Longrightarrow> mini_ok q s \<Longrightarrow> set is \<subseteq> {..<MAP_SIZE} \<Longrightarrow>
    rated_wf (fold (score_tuple q) is s) \<and> mini_ok q (fold (score_tuple q) is s)"
  by (induction "is" arbitrary: s) (auto simp: score_tuple_wf)

text \<open>The slots after the loop.\<close>

lemma score_tuple_counts:
  "map unique_state_count (queue (score_tuple q i s)) = map unique_state_count (queue s)"
  "trace_bits (score_tuple q i s) = trace_bits s" "length (top_rated (score_tuple q i s)) = length (top_rated s)"
proof -
  have "map unique_state_count (queue (upd_entry w f s)) = map unique_state_count (queue s)"
    if "\<And>e. unique_state_count (f e) = unique_state_count e" for w f and s :: afl
    using that by (simp add: upd_entry_def map_update list_update_same_conv) (metis list_update_id nth_map not_le list_update_beyond length_map)
  note u = this
  show "map unique_state_count (queue (score_tuple q i s)) = map unique_state_count (queue s)"
    by (auto simp: score_tuple_def win_slot_def drop_ref_def u Let_def split: option.splits)
  show "trace_bits (score_tuple q i s) = trace_bits s" "length (top_rated (score_tuple q i s)) = length (top_rated s)"
    by (auto simp: score_tuple_def win_slot_def drop_ref_def upd_entry_def Let_def split: option.splits)
qed

lemma keeps_slot_iff: "keeps_slot e w \<longleftrightarrow> unique_state_count e < unique_state_count w"
  by (auto simp: keeps_slot_def)

definition outranks :: "afl \<Rightarrow> nat \<Rightarrow> nat \<Rightarrow> bool" where
  "outranks s q i \<longleftrightarrow> trace_bits s ! i \<noteq> 0 \<and>
     (\<forall>w. top_rated s ! i = Some w \<longrightarrow> map unique_state_count (queue s) ! w \<le> map unique_state_count (queue s) ! q)"

lemma score_tuple_slot:
  assumes "rated_wf s" "q < length (queue s)" "i < MAP_SIZE"
  shows "top_rated (score_tuple q i s) = (if outranks s q i then (top_rated s)[i := Some q] else top_rated s)"
proof (cases "top_rated s ! i")
  case None
  then show ?thesis by (simp add: score_tuple_def outranks_def win_slot_def upd_entry_def)
next
  case (Some w)
  have "w < length (queue s)" by (rule rated_wfE [OF assms(1,3) Some])
  then show ?thesis
    using Some assms(2)
    by (auto simp: score_tuple_def outranks_def keeps_slot_iff win_slot_def drop_ref_def upd_entry_def)
qed

lemma score_tuples_slots:
  assumes "rated_wf s" "mini_ok q s" "distinct is" "set is \<subseteq> {..<MAP_SIZE}" "j < MAP_SIZE"
  shows "top_rated (fold (score_tuple q) is s) ! j =
    (if j \<in> set is \<and> outranks s q j then Some q else top_rated s ! j)"
  using assms(1-4)
proof (induction "is" arbitrary: s)
  case (Cons i "is")
  let ?s = "score_tuple q i s"
  have i: "i < MAP_SIZE" and q: "q < length (queue s)" using Cons.prems by (auto simp: mini_ok_def)
  have len: "length (top_rated s) = MAP_SIZE" using Cons.prems(1) by (simp add: rated_wf_def)
  have wf: "rated_wf ?s" "mini_ok q ?s" using score_tuple_wf [OF Cons.prems(1,2) i] by auto
  have slot: "top_rated ?s ! k = (if k = i \<and> outranks s q i then Some q else top_rated s ! k)" if "k < MAP_SIZE" for k
    using score_tuple_slot [OF Cons.prems(1) q i] len that by (cases "k = i") auto
  have "outranks ?s q j = outranks s q j" if "j \<noteq> i"
    using slot [OF assms(5)] that by (simp add: outranks_def score_tuple_counts)
  moreover have "top_rated (fold (score_tuple q) is ?s) ! j =
      (if j \<in> set is \<and> outranks ?s q j then Some q else top_rated ?s ! j)"
    by (rule Cons.IH [OF wf]) (use Cons.prems in auto)
  ultimately show ?case using slot [OF assms(5)] Cons.prems(3) by (cases "j = i") auto
qed simp

section \<open>Favored entries cover everything\<close>

definition strip :: "queue_entry \<Rightarrow> queue_entry" where
  "strip e = e\<lparr>favored := False, fs_redundant := False\<rparr>"

text \<open>What the loop leaves alone.\<close>

definition same_ratings :: "afl \<Rightarrow> afl \<Rightarrow> bool" where
  "same_ratings s s' \<longleftrightarrow> map strip (queue s') = map strip (queue s) \<and> top_rated s' = top_rated s \<and>
     fuzzed_map_states s' = fuzzed_map_states s \<and> fuzzed_map_qentries s' = fuzzed_map_qentries s \<and>
     state_ids s' = state_ids s \<and> target_state_id s' = target_state_id s"

lemma same_ratings_trans: "same_ratings s s' \<Longrightarrow> same_ratings s' s'' \<Longrightarrow> same_ratings s s''"
  by (simp add: same_ratings_def)

lemma same_ratingsD:
  assumes "same_ratings s s'"
  shows "length (queue s') = length (queue s)"
    and "w < length (queue s) \<Longrightarrow> trace_mini (queue s' ! w) = trace_mini (queue s ! w) \<and> index (queue s' ! w) = index (queue s ! w)"
proof -
  have m: "map strip (queue s') = map strip (queue s)" using assms by (simp add: same_ratings_def)
  then show len: "length (queue s') = length (queue s)" by (metis length_map)
  assume "w < length (queue s)"
  then have "strip (queue s' ! w) = strip (queue s ! w)" using m len by (metis nth_map)
  then have "trace_mini (strip (queue s' ! w)) = trace_mini (strip (queue s ! w)) \<and>
      index (strip (queue s' ! w)) = index (strip (queue s ! w))" by simp
  then show "trace_mini (queue s' ! w) = trace_mini (queue s ! w) \<and> index (queue s' ! w) = index (queue s ! w)"
    by (simp add: strip_def)
qed

definition covered :: "afl \<Rightarrow> nat \<Rightarrow> bool" where
  "covered s i \<longleftrightarrow> (\<exists>w < length (queue s). favored (queue s ! w) \<and> (\<exists>t. trace_mini (queue s ! w) = Some t \<and> covers t i))"

definition cull_inv :: "afl \<Rightarrow> u8 list \<times> afl \<Rightarrow> bool" where
  "cull_inv s0 c \<longleftrightarrow> (let (temp_v, s) = c in same_ratings s0 s \<and> length temp_v = MAP_SIZE div 8 \<and>
     (\<forall>j < MAP_SIZE. \<not> covers temp_v j \<longrightarrow> covered s j))"

lemma covers_clear:
  assumes "length mini = MAP_SIZE div 8" "length temp_v = MAP_SIZE div 8" "j < MAP_SIZE"
  shows "covers (clear_covered mini temp_v) j \<longleftrightarrow> covers temp_v j \<and> \<not> covers mini j"
proof -
  have "j div 8 < MAP_SIZE div 8" using assms(3) by (simp add: MAP_SIZE_def)
  then show ?thesis
    using assms by (auto simp: covers_def clear_covered_def bit_simps dest: bit_imp_le_length)
qed

lemma same_ratings_favor: "same_ratings s (upd_entry w (\<lambda>e. e\<lparr>favored := True\<rparr>) s\<lparr>queued_favored := x, pending_favored := y\<rparr>)"
proof -
  have "map strip ((queue s)[w := (queue s ! w)\<lparr>favored := True\<rparr>]) = map strip (queue s)"
    by (cases "w < length (queue s)") (simp_all add: map_update strip_def list_update_same_conv list_update_beyond)
  then show ?thesis by (simp add: same_ratings_def upd_entry_def)
qed

text \<open>The conditions under which the map of fuzzed states can be read.\<close>

definition row_ok :: "afl \<Rightarrow> bool" where
  "row_ok s \<longleftrightarrow> get_state_index s (target_state_id s) < fuzzed_map_states s \<and>
     (\<forall>w < length (queue s). index (queue s ! w) < fuzzed_map_qentries s)"

lemma is_pending_ok:
  assumes "row_ok s0" "same_ratings s0 s" "w < length (queue s0)"
  shows "\<exists>b. is_pending w s = Some b"
  using assms same_ratingsD [OF assms(2)]
  by (auto simp: is_pending_def row_ok_def map_cell_def same_ratings_def get_state_index_def Let_def)

lemma cull_tuple_ok:
  assumes wf: "rated_wf s0" and row: "row_ok s0" and inv: "cull_inv s0 (tv, s)" and i: "i < MAP_SIZE"
  obtains tv' s' where "cull_tuple i (tv, s) = Some (tv', s')" "cull_inv s0 (tv', s')"
    "top_rated s0 ! i \<noteq> None \<Longrightarrow> \<not> covers tv' i" "\<And>j. j < MAP_SIZE \<Longrightarrow> covers tv' j \<Longrightarrow> covers tv j"
proof -
  have same: "same_ratings s0 s" and tv: "length tv = MAP_SIZE div 8"
    and cov: "\<And>j. j < MAP_SIZE \<Longrightarrow> \<not> covers tv j \<Longrightarrow> covered s j"
    using inv by (auto simp: cull_inv_def)
  have top: "top_rated s = top_rated s0" using same by (simp add: same_ratings_def)
  have test: "tv ! (i div 8) AND push_bit (i mod 8) 1 \<noteq> 0 \<longleftrightarrow> covers tv i"
    by (simp add: covers_def bit_iff_and_push_bit_not_eq_0)
  show ?thesis
  proof (cases "top_rated s0 ! i = None \<or> \<not> covers tv i")
    case True
    then have "cull_tuple i (tv, s) = Some (tv, s)"
      using test top by (auto simp: cull_tuple_def split: option.splits)
    then show ?thesis using that [of tv s] inv True by auto
  next
    case False
    then obtain w where w: "top_rated s0 ! i = Some w" and ci: "covers tv i" by auto
    obtain t where t: "w < length (queue s0)" "trace_mini (queue s0 ! w) = Some t" "length t = MAP_SIZE div 8" "covers t i"
      by (rule rated_wfE [OF wf i w])
    have wl: "w < length (queue s)" and mini: "trace_mini (queue s ! w) = Some t"
      using same_ratingsD [OF same] t by auto
    have "\<exists>b. is_pending w (upd_entry w (\<lambda>e. e\<lparr>favored := True\<rparr>) s) = Some b"
      by (rule is_pending_ok [OF row same_ratings_trans [OF same] t(1)])
         (use same_ratings_favor [where s = s and w = w and x = "queued_favored s" and y = "pending_favored s"] in \<open>simp add: same_ratings_def upd_entry_def\<close>)
    then obtain b where b: "is_pending w (upd_entry w (\<lambda>e. e\<lparr>favored := True\<rparr>) s) = Some b" by blast
    define s' where "s' = (upd_entry w (\<lambda>e. e\<lparr>favored := True\<rparr>) s)\<lparr>queued_favored := queued_favored s + 1,
        pending_favored := (if b then pending_favored s + 1 else pending_favored s)\<rparr>"
    have step: "cull_tuple i (tv, s) = Some (clear_covered t tv, s')"
      using w top test ci mini b by (simp add: cull_tuple_def s'_def)
    have same': "same_ratings s0 s'" unfolding s'_def by (rule same_ratings_trans [OF same same_ratings_favor])
    have q': "queue s' = (queue s)[w := (queue s ! w)\<lparr>favored := True\<rparr>]" by (simp add: s'_def upd_entry_def)
    have new: "covered s' j" if "covers t j" for j
      using that wl mini by (auto simp: covered_def q' intro!: exI [of _ w])
    have old: "covered s' j" if c: "covered s j" for j
    proof -
      obtain v u where v: "v < length (queue s)" "favored (queue s ! v)" "trace_mini (queue s ! v) = Some u" "covers u j"
        using c by (auto simp: covered_def)
      then show ?thesis unfolding covered_def q' by (intro exI [of _ v]) (cases "v = w"; simp)
    qed
    have "covered s' j" if j: "j < MAP_SIZE" "\<not> covers (clear_covered t tv) j" for j
      using j cov [of j] new [of j] old [of j] covers_clear [OF t(3) tv j(1)] by blast
    moreover have "length (clear_covered t tv) = MAP_SIZE div 8" using t(3) tv by (simp add: clear_covered_def)
    ultimately have "cull_inv s0 (clear_covered t tv, s')" using same' by (simp add: cull_inv_def)
    moreover have "\<not> covers (clear_covered t tv) i" using covers_clear [OF t(3) tv i] t(4) by blast
    moreover have "covers tv j" if j: "j < MAP_SIZE" "covers (clear_covered t tv) j" for j
      using covers_clear [OF t(3) tv j(1)] j(2) by blast
    ultimately show ?thesis by (intro that [OF step])
  qed
qed

lemma cull_loop_ok:
  assumes "rated_wf s0" "row_ok s0"
  shows "cull_inv s0 (tv, s) \<Longrightarrow> set is \<subseteq> {..<MAP_SIZE} \<Longrightarrow>
    \<exists>tv' s'. cull_loop is (tv, s) = Some (tv', s') \<and> cull_inv s0 (tv', s') \<and>
      (\<forall>i \<in> set is. top_rated s0 ! i \<noteq> None \<longrightarrow> \<not> covers tv' i) \<and> (\<forall>j < MAP_SIZE. covers tv' j \<longrightarrow> covers tv j)"
proof (induction "is" arbitrary: tv s)
  case (Cons i "is")
  obtain tv1 s1 where 1: "cull_tuple i (tv, s) = Some (tv1, s1)" "cull_inv s0 (tv1, s1)"
    "top_rated s0 ! i \<noteq> None \<Longrightarrow> \<not> covers tv1 i" "\<And>j. j < MAP_SIZE \<Longrightarrow> covers tv1 j \<Longrightarrow> covers tv j"
    by (rule cull_tuple_ok [OF assms Cons.prems(1), of i]) (use Cons.prems(2) in auto)
  then show ?case using Cons.IH [OF 1(2)] Cons.prems(2) by fastforce
qed auto

section \<open>Properties\<close>

text \<open>
  C11 (invariant): scoring an entry keeps the ratings consistent: every reference count is the number
  of tuples the entry is the best for, a packed trace is kept exactly while the count is not zero and
  has the bits of these tuples. The winner of a tuple of the trace is the new entry unless the old
  one has reached more states; speed and size do not matter.
\<close>

theorem update_bitmap_score_wf:
  assumes "rated_wf s" "mini_ok q s"
  shows "rated_wf (update_bitmap_score q s) \<and>
    (\<forall>i < MAP_SIZE. top_rated (update_bitmap_score q s) ! i =
       (if trace_bits s ! i \<noteq> 0 \<and> (\<forall>w. top_rated s ! i = Some w \<longrightarrow>
             unique_state_count (queue s ! w) \<le> unique_state_count (queue s ! q))
        then Some q else top_rated s ! i))"
proof (intro conjI allI impI)
  show "rated_wf (update_bitmap_score q s)"
    using score_tuples_wf [OF assms, of "[0..<MAP_SIZE]"] by (simp add: update_bitmap_score_def atLeast0LessThan)
  fix i assume i: "i < MAP_SIZE"
  have "outranks s q i \<longleftrightarrow> trace_bits s ! i \<noteq> 0 \<and> (\<forall>w. top_rated s ! i = Some w \<longrightarrow>
      unique_state_count (queue s ! w) \<le> unique_state_count (queue s ! q))"
    using assms(2) rated_wfE [OF assms(1) i] by (fastforce simp: outranks_def mini_ok_def)
  then show "top_rated (update_bitmap_score q s) ! i =
       (if trace_bits s ! i \<noteq> 0 \<and> (\<forall>w. top_rated s ! i = Some w \<longrightarrow>
             unique_state_count (queue s ! w) \<le> unique_state_count (queue s ! q))
        then Some q else top_rated s ! i)"
    using score_tuples_slots [OF assms, of "[0..<MAP_SIZE]" i] i by (simp add: update_bitmap_score_def atLeast0LessThan)
qed

theorem update_bitmap_score_wf_witness:
  "top_rated (update_bitmap_score 0 (sample_afl\<lparr>top_rated := replicate MAP_SIZE None, trace_bits := replicate MAP_SIZE 1\<rparr>)) ! 5 = Some 0"
proof -
  let ?s = "sample_afl\<lparr>top_rated := replicate MAP_SIZE None, trace_bits := replicate MAP_SIZE 1\<rparr>"
  have none: "count_list (replicate n None) (Some w) = 0" for n and w :: nat by (induction n) auto
  have "rated_wf ?s" by (auto simp: rated_wf_def none sample_afl_def sample_entry_def)
  moreover have "mini_ok 0 ?s" by (simp add: mini_ok_def sample_afl_def sample_entry_def)
  ultimately show ?thesis using update_bitmap_score_wf [of ?s 0] by (simp add: MAP_SIZE_def)
qed

text \<open>
  C8 (safety): \<open>cull_queue\<close> does not read through a missing packed trace or outside the map of fuzzed
  states; when the ratings have changed, the favored entries cover afterwards every tuple that has a
  best entry, and an entry is marked as redundant exactly when it is not favored.
\<close>

theorem cull_queue_covers:
  assumes "rated_wf s" "row_ok s" "\<not> dumb_mode s" "score_changed s"
  shows "\<exists>s'. cull_queue s = Some s' \<and> top_rated s' = top_rated s \<and>
    (\<forall>i < MAP_SIZE. top_rated s ! i \<noteq> None \<longrightarrow> covered s' i) \<and>
    (\<forall>e \<in> set (queue s'). fs_redundant e \<longleftrightarrow> \<not> favored e)"
proof -
  define s1 where "s1 = s\<lparr>score_changed := False, queued_favored := 0, pending_favored := 0,
      queue := map (\<lambda>e. if is_initial_seed e then e else e\<lparr>favored := False\<rparr>) (queue s)\<rparr>"
  have "map strip (queue s1) = map strip (queue s)" by (simp add: s1_def strip_def)
  then have same: "same_ratings s s1" by (simp add: same_ratings_def) (simp add: s1_def)
  have "covers (replicate (MAP_SIZE div 8) 0xFF) j" if "j < MAP_SIZE" for j
  proof -
    have m1: "(0xFF :: u8) = - 1" by simp
    have "bit (0xFF :: u8) (j mod 8)" unfolding m1 bit_minus_1_iff possible_bit_def by simp
    moreover have "j div 8 < MAP_SIZE div 8" using that by (simp add: MAP_SIZE_def)
    ultimately show ?thesis by (simp add: covers_def)
  qed
  then have "cull_inv s (replicate (MAP_SIZE div 8) 0xFF, s1)" using same by (simp add: cull_inv_def)
  from cull_loop_ok [OF assms(1,2) this, of "[0..<MAP_SIZE]"] obtain tv s2 where
    loop: "cull_loop [0..<MAP_SIZE] (replicate (MAP_SIZE div 8) 0xFF, s1) = Some (tv, s2)" "cull_inv s (tv, s2)"
    "\<forall>i < MAP_SIZE. top_rated s ! i \<noteq> None \<longrightarrow> \<not> covers tv i"
    by (auto simp: atLeast0LessThan)
  define s3 where "s3 = s2\<lparr>queue := map (\<lambda>e. mark_as_redundant e (\<not> favored e)) (queue s2)\<rparr>"
  have red: "favored (mark_as_redundant e b) = favored e" "trace_mini (mark_as_redundant e b) = trace_mini e"
    "fs_redundant (mark_as_redundant e b) = b" for e b
    by (auto simp: mark_as_redundant_def)
  have "cull_queue s = Some s3"
    using assms(3,4) loop(1) by (simp add: cull_queue_def s1_def s3_def)
  moreover have "top_rated s3 = top_rated s" using loop(2) by (simp add: s3_def cull_inv_def same_ratings_def)
  moreover have "covered s3 i" if "covered s2 i" for i
    using that by (auto simp: covered_def s3_def red)
  moreover have "covered s2 i" if "i < MAP_SIZE" "top_rated s ! i \<noteq> None" for i
    using loop(2,3) that by (auto simp: cull_inv_def)
  moreover have "\<forall>e \<in> set (queue s3). fs_redundant e \<longleftrightarrow> \<not> favored e" by (auto simp: s3_def red)
  ultimately show ?thesis by blast
qed

definition rated_sample :: afl where
  "rated_sample = insert_state 7 [0] (sample_afl\<lparr>top_rated := Some 0 # replicate (MAP_SIZE - 1) None,
     queue := [sample_entry\<lparr>tc_ref := 1, trace_mini := Some (1 # replicate (MAP_SIZE div 8 - 1) 0)\<rparr>],
     target_state_id := 7, dumb_mode := False, score_changed := True\<rparr>)"

theorem cull_queue_covers_witness: "\<exists>s'. cull_queue rated_sample = Some s' \<and> covered s' 0"
proof -
  have none: "count_list (replicate n None) (Some w) = 0" for n and w :: nat by (induction n) auto
  have q: "queue rated_sample = [sample_entry\<lparr>tc_ref := 1, trace_mini := Some (1 # replicate (MAP_SIZE div 8 - 1) 0)\<rparr>]"
    and t: "top_rated rated_sample = Some 0 # replicate (MAP_SIZE - 1) None"
    by (simp_all add: rated_sample_def insert_state_def expand_was_fuzzed_map_def Let_def)
  have wf: "rated_wf rated_sample"
    by (auto simp: rated_wf_def q t none covers_def nth_Cons' MAP_SIZE_def split: if_splits)
  moreover have "row_ok rated_sample" "\<not> dumb_mode rated_sample" "score_changed rated_sample"
    by (simp_all add: row_ok_def rated_sample_def insert_state_def expand_was_fuzzed_map_def sample_afl_def
        sample_entry_def get_state_index_def Let_def)
  ultimately obtain s' where "cull_queue rated_sample = Some s'"
    "\<forall>i < MAP_SIZE. top_rated rated_sample ! i \<noteq> None \<longrightarrow> covered s' i"
    using cull_queue_covers [of rated_sample] by blast
  then show ?thesis using t by (auto simp: MAP_SIZE_def)
qed

end
