(* ===== verification/Afl_Run.thy ===== *)
theory Afl_Run
  imports Afl_Queue Monitor_Bridge
begin

text \<open>
  One execution of the target and what the fuzzer keeps of it: \<open>run_target\<close> with its snapshot
  branches, and \<open>calibrate_case\<close>. What the target, the snapshot library and the sender do in an
  execution is an \<open>outcome\<close>, and the executions of a run of the fuzzer are the parameter \<open>runs\<close> of
  the state; \<open>clock\<close> gives the successive results of \<open>gettimeofday\<close> in microseconds. Writing the
  test case to a file, the timers, \<open>show_stats\<close>, starting the fork server and the file that
  \<open>mark_as_variable\<close> creates are not modelled.
\<close>

section \<open>State\<close>

datatype fault = FAULT_NONE | FAULT_TMOUT | FAULT_CRASH | FAULT_ERROR | FAULT_NOINST | FAULT_NOBITS | FAULT_VIOLATION

text \<open>A wait status: \<open>WIFEXITED\<close>, \<open>WIFSIGNALED\<close> or \<open>WIFSTOPPED\<close>, with its code.\<close>

datatype wait_status = Exited nat | Signaled nat | Stopped nat

fun WEXITSTATUS :: "wait_status \<Rightarrow> nat" where
  "WEXITSTATUS (Exited n) = n mod 256"
| "WEXITSTATUS (Signaled n) = 0"
| "WEXITSTATUS (Stopped n) = n mod 256"

text \<open>
  The part of an execution that is not the fuzzer's: which of sending M1, dumping and restoring
  succeed, whether the fork server is gone, the bitmap after M1 and at the end, the response, the
  wait status, and what the evaluator writes while the session is closed.
\<close>

record outcome =
  o_fork_ok :: bool
  o_m1_ok :: bool
  o_dump_ok :: bool
  o_restore_ok :: bool
  o_trace_m1 :: "u8 list"
  o_trace :: "u8 list"
  o_slow_restore :: bool
  o_status_ok :: bool
  o_status :: wait_status
  o_timed_out :: bool
  o_ms :: u64
  o_sent :: nat
  o_response :: "byte list"
  o_response_bytes :: "u32 list option"
  o_arrivals :: "string list list"

datatype stage_val = STAGE_VAL_NONE | STAGE_VAL_LE | STAGE_VAL_BE

record fuzzer =
  core :: afl
  virgin_bits :: "u8 list"
  virgin_tmout :: "u8 list"
  virgin_crash :: "u8 list"
  virgin_violations :: "u8 list"
  bitmap_changed :: bool
  var_bytes :: "u8 list"
  var_byte_count :: u32
  count_class_lookup16 :: "u16 list"
  crash_mode :: fault
  stop_soon :: nat
  uses_asan :: bool
  direct_exec :: bool
  fast_cal :: bool
  resuming_fuzz :: bool
  exec_tmout :: u32
  hang_tmout :: u32
  slowest_exec_ms :: u64
  kill_signal :: nat
  total_execs :: u64
  total_crashes :: u64
  total_tmouts :: u64
  total_violations :: u64
  unique_crashes :: u64
  unique_tmouts :: u64
  unique_hangs :: u64
  unique_violations :: u64
  last_hang_time :: u64
  last_crash_time :: u64
  last_crash_execs :: u64
  last_violation_time :: u64
  queued_with_cov :: u32
  queued_variable :: u32
  queued_discovered :: u32
  total_cal_us :: u64
  total_cal_cycles :: u64
  total_bitmap_size :: u64
  total_bitmap_entries :: u64
  subseq_tmouts :: u32
  cur_skipped_paths :: u32
  skip_requested :: bool
  backstep :: u8
  backstep_count :: u8
  serious_err_count :: u8
  can_snapshot_flag :: bool
  has_snapshot_flag :: bool
  is_first_run_of_fuzz_one :: bool
  trace_bits_m1 :: "u8 list"
  use_net :: bool
  g_monitor :: "monitor_handle option"
  monitor_pipe :: "string list"
  g_last_violation_detected :: bool
  syncing_party :: "string option"
  syncing_case :: u32
  current_entry :: u32
  splicing_with :: int
  stage_short :: string
  stage_cur_byte :: int
  stage_val_type :: stage_val
  stage_cur_val :: int
  crash_readme :: "byte list"
  chunks :: "nat \<rightharpoonup> string"
  next_chunk :: nat
  clock :: "nat \<Rightarrow> u64"
  clock_calls :: nat
  runs :: "nat \<Rightarrow> outcome"
  run_target_count :: nat

definition upd_core :: "(afl \<Rightarrow> afl) \<Rightarrow> fuzzer \<Rightarrow> fuzzer" where
  "upd_core f s = s\<lparr>core := f (core s)\<rparr>"

definition get_cur_time_us :: "fuzzer \<Rightarrow> u64 \<times> fuzzer" where
  "get_cur_time_us s = (clock s (clock_calls s), s\<lparr>clock_calls := Suc (clock_calls s)\<rparr>)"

definition get_cur_time :: "fuzzer \<Rightarrow> u64 \<times> fuzzer" where
  "get_cur_time s = (clock s (clock_calls s) div 1000, s\<lparr>clock_calls := Suc (clock_calls s)\<rparr>)"

section \<open>Running the target\<close>

definition fresh_trace :: "u8 list \<Rightarrow> fuzzer \<Rightarrow> fuzzer" where
  "fresh_trace t = upd_core (\<lambda>c. c\<lparr>trace_bits := t\<rparr>)"

text \<open>
  The snapshot branches: restore the snapshot, or send M1, dump and restore. The result is whether
  the run goes on; a failed step sets \<open>backstep\<close> and ends \<open>run_target\<close> with result 0.
\<close>

definition take_snapshot :: "outcome \<Rightarrow> fuzzer \<Rightarrow> bool \<times> fuzzer" where
  "take_snapshot r s =
     (if has_snapshot_flag s
      then if o_restore_ok r then (True, s) else (False, s\<lparr>backstep := 2\<rparr>)
      else let s = s\<lparr>trace_bits_m1 := replicate MAP_SIZE 0\<rparr> in
        if \<not> o_m1_ok r then (False, (fresh_trace (o_trace_m1 r) s)\<lparr>backstep := 2\<rparr>)
        else let s = (fresh_trace (o_trace_m1 r) s)\<lparr>trace_bits_m1 := o_trace_m1 r\<rparr> in
          if \<not> o_dump_ok r then (False, s\<lparr>backstep := 2\<rparr>)
          else if \<not> o_restore_ok r then (False, s\<lparr>backstep := 2\<rparr>)
          else (True, s\<lparr>has_snapshot_flag := True\<rparr>))"

definition leave_snapshot :: "outcome \<Rightarrow> fuzzer \<Rightarrow> fuzzer" where
  "leave_snapshot r s =
     (if o_slow_restore r \<and> is_first_run_of_fuzz_one s
      then s\<lparr>can_snapshot_flag := False, has_snapshot_flag := False, is_first_run_of_fuzz_one := False\<rparr>
      else s\<lparr>is_first_run_of_fuzz_one := False\<rparr>)"

definition MSAN_ERROR :: nat where
  "MSAN_ERROR = 86"

definition EXEC_FAIL_SIG :: u32 where
  "EXEC_FAIL_SIG = 0xfee1dead"

text \<open>
  The report: classification of the trace and the result. \<open>direct_exec\<close> is
  \<open>dumb_mode == 1 || no_forkserver\<close>; the signals 9 and 15 are \<open>SIGKILL\<close> and \<open>SIGTERM\<close>.
\<close>

definition report_violation :: "fuzzer \<Rightarrow> fault \<times> fuzzer" where
  "report_violation s =
     (if g_last_violation_detected s then (FAULT_VIOLATION, s\<lparr>g_last_violation_detected := False\<rparr>) else (FAULT_NONE, s))"

definition report_exit :: "outcome \<Rightarrow> u32 \<Rightarrow> u32 \<Rightarrow> fuzzer \<Rightarrow> fault \<times> fuzzer" where
  "report_exit r timeout tb4 s =
     (if uses_asan s \<and> WEXITSTATUS (o_status r) = MSAN_ERROR then (FAULT_CRASH, s\<lparr>kill_signal := 0\<rparr>)
      else if direct_exec s \<and> tb4 = EXEC_FAIL_SIG then (FAULT_ERROR, s)
      else report_violation (if \<not> timeout > exec_tmout s \<and> slowest_exec_ms s < o_ms r
                             then s\<lparr>slowest_exec_ms := o_ms r\<rparr> else s))"

definition report_signal :: "outcome \<Rightarrow> nat \<Rightarrow> fuzzer \<Rightarrow> fault \<times> fuzzer" where
  "report_signal r sig s =
     (if o_timed_out r \<and> sig = 9 then FAULT_TMOUT else if sig = 15 then FAULT_NONE else FAULT_CRASH,
      s\<lparr>kill_signal := sig\<rparr>)"

definition report_outcome :: "outcome \<Rightarrow> u32 \<Rightarrow> fuzzer \<Rightarrow> fault \<times> fuzzer" where
  "report_outcome r timeout s =
     (let tb4 = ld (take 4 (trace_bits (core s)));
          s = (upd_core (\<lambda>c. c\<lparr>trace_bits := classify_counts (count_class_lookup16 s) (trace_bits c)\<rparr>) s)
                \<lparr>total_execs := total_execs s + 1\<rparr>
      in case o_status r of
           Signaled sig \<Rightarrow> if stop_soon s = 0 then report_signal r sig s else report_exit r timeout tb4 s
         | _ \<Rightarrow> report_exit r timeout tb4 s)"

text \<open>What the senders leave behind.\<close>

definition take_response :: "outcome \<Rightarrow> afl \<Rightarrow> afl" where
  "take_response r c = c\<lparr>messages_sent := o_sent r, response_buf := o_response r,
     response_buf_size := length (o_response r), response_bytes := o_response_bytes r\<rparr>"

text \<open>A fork server that does not answer ends the fuzzer unless it is being stopped.\<close>

definition run_target :: "u32 \<Rightarrow> fuzzer \<Rightarrow> (fault \<times> fuzzer) option" where
  "run_target timeout s =
     (let r = runs s (run_target_count s);
          s = (fresh_trace (replicate MAP_SIZE 0) s)\<lparr>run_target_count := Suc (run_target_count s), backstep := 0\<rparr>;
          snap = use_snapshot (core s) \<and> can_snapshot_flag s
      in if \<not> direct_exec s \<and> \<not> (snap \<and> has_snapshot_flag s) \<and> \<not> o_fork_ok r
         then if stop_soon s \<noteq> 0 then Some (FAULT_NONE, s) else None
         else if snap
         then let sent = \<not> has_snapshot_flag s; (go, s) = take_snapshot r s in
           if \<not> go then Some (FAULT_NONE, if sent then upd_core (take_response r) s else s)
           else Some (report_outcome r timeout
                  (leave_snapshot r (fresh_trace (o_trace r) (upd_core (take_response r) s))))
         else let s = fresh_trace (o_trace r) (if use_net s then upd_core (take_response r) s else s) in
           if \<not> o_status_ok r
           then if stop_soon s \<noteq> 0 \<and> \<not> direct_exec s then Some (FAULT_NONE, s) else None
           else Some (report_outcome r timeout s))"

section \<open>Calibration\<close>

definition CAL_CYCLES :: nat where "CAL_CYCLES = 8"
definition CAL_CYCLES_LONG :: nat where "CAL_CYCLES_LONG = 40"
definition HASH_CONST :: u32 where "HASH_CONST = 0xa5b35705"

text \<open>The variables of \<open>calibrate_case\<close>; \<open>stage_cur\<close> and \<open>stage_max\<close> are restored at its end.\<close>

record calibration =
  c_cur :: nat
  c_max :: nat
  c_first :: "u8 list"
  c_new :: nat
  c_var :: bool
  c_fault :: fault

definition checksum :: "fuzzer \<Rightarrow> u32" where
  "checksum s = hash32 (trace_bits (core s)) (of_nat MAP_SIZE) HASH_CONST"

text \<open>The bytes that differ from the first trace become variable, and calibration takes longer.\<close>

definition mark_variable_bytes :: "calibration \<Rightarrow> fuzzer \<Rightarrow> calibration \<times> fuzzer" where
  "mark_variable_bytes c s =
     (let differ = (\<lambda>i. var_bytes s ! i = 0 \<and> c_first c ! i \<noteq> trace_bits (core s) ! i)
      in (c\<lparr>c_max := (if list_ex differ [0..<MAP_SIZE] then CAL_CYCLES_LONG else c_max c), c_var := True\<rparr>,
          s\<lparr>var_bytes := map (\<lambda>i. if differ i then 1 else var_bytes s ! i) [0..<MAP_SIZE]\<rparr>))"

definition compare_trace :: "nat \<Rightarrow> calibration \<Rightarrow> fuzzer \<Rightarrow> calibration \<times> fuzzer" where
  "compare_trace q c s =
     (let e = queue (core s) ! q in
      if exec_cksum e \<noteq> checksum s
      then let (hnb, v, changed) = has_new_bits True (trace_bits (core s)) (virgin_bits s) (bitmap_changed s);
               s = s\<lparr>virgin_bits := v, bitmap_changed := changed\<rparr>; c = c\<lparr>c_new := max (c_new c) hnb\<rparr>
           in if exec_cksum e \<noteq> 0 then mark_variable_bytes c s
              else (c\<lparr>c_first := trace_bits (core s)\<rparr>, upd_core (upd_entry q (\<lambda>e. e\<lparr>exec_cksum := checksum s\<rparr>)) s)
      else (c, s))"

text \<open>The loop; the first component of the result says that it was left by \<open>goto abort_calibration\<close>.\<close>

lemma compare_trace_cur: "c_cur (fst (compare_trace q c s)) = c_cur c"
  "c_max (fst (compare_trace q c s)) \<in> {c_max c, CAL_CYCLES_LONG}"
  by (auto simp: compare_trace_def mark_variable_bytes_def Let_def split: prod.splits)

function cal_loop :: "nat \<Rightarrow> u32 \<Rightarrow> calibration \<Rightarrow> fuzzer \<Rightarrow> (bool \<times> calibration \<times> fuzzer) option" where
  "cal_loop q use_tmout c s =
     (if c_cur c < c_max c
      then case run_target use_tmout s of
          None \<Rightarrow> None
        | Some (fault, s) \<Rightarrow>
            let c = c\<lparr>c_fault := fault\<rparr> in
            if stop_soon s \<noteq> 0 \<or> fault \<noteq> crash_mode s then Some (True, c, s)
            else if \<not> dumb_mode (core s) \<and> c_cur c = 0 \<and> count_bytes (trace_bits (core s)) = 0
            then Some (True, c\<lparr>c_fault := FAULT_NOINST\<rparr>, s)
            else cal_loop q use_tmout ((fst (compare_trace q c s))\<lparr>c_cur := Suc (c_cur c)\<rparr>) (snd (compare_trace q c s))
      else Some (False, c, s))"
  by pat_completeness auto
termination
proof (relation "measure (\<lambda>(q, t, c, s). max (c_max c) CAL_CYCLES_LONG - c_cur c)", goal_cases)
  case (2 q t c s x fault s' c')
  then show ?case using compare_trace_cur(2) [of q c' s'] by auto
qed simp

declare cal_loop.simps [simp del]

definition use_timeout :: "bool \<Rightarrow> fuzzer \<Rightarrow> u32" where
  "use_timeout from_queue s =
     (if \<not> from_queue \<or> resuming_fuzz s then max (exec_tmout s + 50) (exec_tmout s * 125 div 100) else exec_tmout s)"

definition finish_calibration :: "nat \<Rightarrow> u64 \<Rightarrow> u32 \<Rightarrow> calibration \<Rightarrow> fuzzer \<Rightarrow> fuzzer" where
  "finish_calibration q start_us hc c s =
     (let (stop_us, s) = get_cur_time_us s; size = count_bytes (trace_bits (core s));
          s = upd_core (upd_entry q (\<lambda>e. e\<lparr>exec_us := (stop_us - start_us) div of_nat (c_max c), bitmap_size := size,
                handicap := ucast hc, cal_failed := 0\<rparr>)) s
      in upd_core (update_bitmap_score q)
           (s\<lparr>total_cal_us := total_cal_us s + (stop_us - start_us),
              total_cal_cycles := total_cal_cycles s + of_nat (c_max c),
              total_bitmap_size := total_bitmap_size s + ucast size,
              total_bitmap_entries := total_bitmap_entries s + 1\<rparr>))"

definition settle_entry :: "nat \<Rightarrow> calibration \<Rightarrow> fuzzer \<Rightarrow> fuzzer" where
  "settle_entry q c s =
     (let s = (if c_new c = 2 \<and> \<not> has_new_cov (queue (core s) ! q)
               then (upd_core (upd_entry q (\<lambda>e. e\<lparr>has_new_cov := True\<rparr>)) s)\<lparr>queued_with_cov := queued_with_cov s + 1\<rparr>
               else s)
      in if c_var c
         then let s = s\<lparr>var_byte_count := count_bytes (var_bytes s)\<rparr> in
           if var_behavior (queue (core s) ! q) then s
           else (upd_core (upd_entry q (\<lambda>e. e\<lparr>var_behavior := True\<rparr>)) s)\<lparr>queued_variable := queued_variable s + 1\<rparr>
         else s)"

definition start_calibration :: "bool \<Rightarrow> fuzzer \<Rightarrow> calibration" where
  "start_calibration first_run s =
     \<lparr>c_cur = 0, c_max = (if fast_cal s then 3 else CAL_CYCLES),
      c_first = (if first_run then replicate MAP_SIZE 0 else trace_bits (core s)),
      c_new = 0, c_var = False, c_fault = FAULT_NONE\<rparr>"

definition calibrate_case :: "nat \<Rightarrow> u32 \<Rightarrow> bool \<Rightarrow> fuzzer \<Rightarrow> (fault \<times> fuzzer) option" where
  "calibrate_case q hc from_queue s =
     (let first_run = (exec_cksum (queue (core s) ! q) = 0); use_tmout = use_timeout from_queue s;
          s = upd_core (upd_entry q (\<lambda>e. e\<lparr>cal_failed := (cal_failed e + 1) mod 256\<rparr>)) s;
          (start_us, s) = get_cur_time_us s
      in case cal_loop q use_tmout (start_calibration first_run s) s of
           None \<Rightarrow> None
         | Some (aborted, c, s) \<Rightarrow>
             Some (if aborted then (c_fault c, settle_entry q c s)
                   else let s = finish_calibration q start_us hc c s;
                            fault = (if \<not> dumb_mode (core s) \<and> first_run \<and> c_fault c = FAULT_NONE \<and> c_new c = 0
                                     then FAULT_NOBITS else c_fault c)
                        in (fault, settle_entry q c s)))"

end
