(* ===== verification/Afl_Save.thy ===== *)
theory Afl_Save
  imports Afl_Run
begin

text \<open>
  What the fuzzer does with the result of an execution: \<open>describe_op\<close>, \<open>save_if_interesting\<close> and the
  part of \<open>common_fuzz_stuff\<close> that follows \<open>run_target\<close>. File names live in memory from
  \<open>alloc_printf\<close>: \<open>chunks\<close> has the live ones, addresses are not used twice, and reading or freeing a
  name that is not live is undefined. \<open>FATAL\<close>, \<open>PFATAL\<close> and the aborts of \<open>ck_free\<close> are \<^const>\<open>None\<close>.
\<close>

section \<open>Names\<close>

definition zpad :: "nat \<Rightarrow> nat \<Rightarrow> string" where
  "zpad w n = replicate (w - length (udec n)) (CHR ''0'') @ udec n"

text \<open>\<open>%+d\<close>.\<close>

definition signed_dec :: "int \<Rightarrow> string" where
  "signed_dec v = (if v < 0 then sdec v else CHR ''+'' # sdec v)"

text \<open>The text goes into an array of 256 characters.\<close>

definition describe_op :: "nat \<Rightarrow> fuzzer \<Rightarrow> string option" where
  "describe_op hnb s =
     (let ret = (case syncing_party s of
            Some p \<Rightarrow> ''sync:'' @ p @ '',src:'' @ zpad 6 (unat (syncing_case s))
          | None \<Rightarrow> ''src:'' @ zpad 6 (unat (current_entry s))
              @ (if splicing_with s \<ge> 0 then CHR ''+'' # zpad 6 (nat (splicing_with s)) else [])
              @ '',op:'' @ stage_short s
              @ (if stage_cur_byte s \<ge> 0
                 then '',pos:'' @ udec (nat (stage_cur_byte s))
                   @ (if stage_val_type s \<noteq> STAGE_VAL_NONE
                      then '',val:'' @ (if stage_val_type s = STAGE_VAL_BE then ''be:'' else []) @ signed_dec (stage_cur_val s)
                      else [])
                 else '',rep:'' @ udec (nat (stage_cur_val s mod 2 ^ 32))));
          ret = (if hnb = 2 then ret @ '',+cov'' else ret)
      in if length ret < 256 then Some ret else None)"

section \<open>Memory for names\<close>

definition alloc_printf :: "string \<Rightarrow> fuzzer \<Rightarrow> nat \<times> fuzzer" where
  "alloc_printf str s =
     (next_chunk s, s\<lparr>chunks := (chunks s)(next_chunk s \<mapsto> str), next_chunk := Suc (next_chunk s)\<rparr>)"

definition ck_free_name :: "nat \<Rightarrow> fuzzer \<Rightarrow> fuzzer option" where
  "ck_free_name fn s = (case chunks s fn of None \<Rightarrow> None | Some _ \<Rightarrow> Some (s\<lparr>chunks := (chunks s)(fn := None)\<rparr>))"

definition put_file :: "string \<Rightarrow> byte list \<Rightarrow> fuzzer \<Rightarrow> fuzzer" where
  "put_file f content = upd_core (\<lambda>c. c\<lparr>files := (files c)(f \<mapsto> content)\<rparr>)"

text \<open>Calls that take the name by its address.\<close>

definition save_messages :: "nat \<Rightarrow> bool \<Rightarrow> fuzzer \<Rightarrow> (u32 \<times> fuzzer) option" where
  "save_messages fn replay_enabled s = do {
     f \<leftarrow> chunks s fn;
     (content, n) \<leftarrow> save_kl_messages_to_file (kl_messages (core s))
        (case files (core s) f of None \<Rightarrow> [] | Some c \<Rightarrow> c) replay_enabled (messages_sent (core s));
     Some (of_nat n, put_file f content s)
   }"

text \<open>\<open>open\<close> with \<open>O_EXCL\<close>: an existing file is an error, which only some callers take as fatal.\<close>

definition create_excl :: "bool \<Rightarrow> nat \<Rightarrow> byte list \<Rightarrow> fuzzer \<Rightarrow> fuzzer option" where
  "create_excl fatal fn content s = do {
     f \<leftarrow> chunks s fn;
     (case files (core s) f of
        None \<Rightarrow> Some (put_file f content s)
      | Some _ \<Rightarrow> if fatal then None else Some s)
   }"

definition write_crash_readme :: "fuzzer \<Rightarrow> fuzzer option" where
  "write_crash_readme s = do {
     let (fn, s) = alloc_printf (out_dir (core s) @ ''/replayable-crashes/README.txt'') s;
     s \<leftarrow> create_excl False fn (crash_readme s) s;
     ck_free_name fn s
   }"

definition violation_readme :: "byte list" where
  "violation_readme =
     ''Semantic Violations - LTL Property Violations'' @ [LF] @
     ''============================================='' @ [LF, LF] @
     ''This directory contains test cases that triggered semantic violations'' @ [LF] @
     ''detected by the LTL monitor. These represent inputs that violated'' @ [LF] @
     ''protocol specifications even if they didn'' @ [CHR 0x27] @ ''t crash the target.'' @ [LF, LF] @
     ''Each file is a replayable sequence of network messages that can be'' @ [LF] @
     ''sent to the target to reproduce the violation.'' @ [LF, LF] @
     ''Check /tmp/monitor_violations.log for detailed violation information'' @ [LF] @
     ''including which LTL properties were violated.'' @ [LF, LF]"

definition write_violation_readme :: "fuzzer \<Rightarrow> fuzzer option" where
  "write_violation_readme s = do {
     let (fn, s) = alloc_printf (out_dir (core s) @ ''/replayable-violations/README.txt'') s;
     s \<leftarrow> create_excl False fn violation_readme s;
     ck_free_name fn s
   }"

section \<open>New paths\<close>

text \<open>
  \<open>codes\<close> and \<open>requests\<close> are the protocol's \<open>extract_response_codes\<close> and \<open>extract_requests\<close>.
  The queue entry keeps the memory of its name.
\<close>

definition keep_entry :: "response_codes \<Rightarrow> request_reader \<Rightarrow> nat \<Rightarrow> fuzzer \<Rightarrow> fuzzer option" where
  "keep_entry codes requests hnb s = do {
     op \<leftarrow> describe_op hnb s;
     let q = length (queue (core s));
     let name = out_dir (core s) @ ''/queue/id:'' @ zpad 6 q @ '','' @ op;
     let (fn, s) = alloc_printf name s;
     (full_len, s) \<leftarrow> save_messages fn False s;
     c \<leftarrow> add_to_queue requests name full_len False (core s);
     c \<leftarrow> (if state_aware_mode c then update_state_aware_variables codes q False c else Some c);
     let s = s\<lparr>core := c\<rparr>;
     let (fn_replay, s) = alloc_printf (out_dir c @ ''/replayable-queue/'' @ basename (fname (queue c ! q))) s;
     (_, s) \<leftarrow> save_messages fn_replay True s;
     s \<leftarrow> ck_free_name fn_replay s;
     let s = (if hnb = 2
              then (upd_core (upd_entry q (\<lambda>e. e\<lparr>has_new_cov := True\<rparr>)) s)\<lparr>queued_with_cov := queued_with_cov s + 1\<rparr>
              else s);
     let s = upd_core (upd_entry q (\<lambda>e. e\<lparr>exec_cksum := checksum s\<rparr>)) s;
     (res, s) \<leftarrow> calibrate_case q (ucast (queue_cycle (core s) - 1)) False s;
     (if res = FAULT_ERROR then None else Some s)
   }"

section \<open>Hangs and crashes\<close>

definition KEEP_UNIQUE_HANG :: u64 where "KEEP_UNIQUE_HANG = 500"
definition KEEP_UNIQUE_CRASH :: u64 where "KEEP_UNIQUE_CRASH = 5000"
definition KEEP_UNIQUE_VIOLATIONS :: u64 where "KEEP_UNIQUE_VIOLATIONS = 5000"

definition simplify :: "fuzzer \<Rightarrow> fuzzer" where
  "simplify = upd_core (\<lambda>c. c\<lparr>trace_bits := simplify_trace (trace_bits c)\<rparr>)"

text \<open>
  The end of the function: save the messages under the name that the switch has chosen, and free
  the name.
\<close>

definition save_result :: "nat \<Rightarrow> fuzzer \<Rightarrow> fuzzer option" where
  "save_result fn s = do { (_, s) \<leftarrow> save_messages fn True s; ck_free_name fn s }"

definition new_tmout :: "fuzzer \<Rightarrow> bool \<times> fuzzer" where
  "new_tmout s =
     (if dumb_mode (core s) then (True, s)
      else let s = simplify s; (hnb, v, _) = has_new_bits False (trace_bits (core s)) (virgin_tmout s) False
           in (hnb \<noteq> 0, s\<lparr>virgin_tmout := v\<rparr>))"

definition new_crash :: "fuzzer \<Rightarrow> bool \<times> fuzzer" where
  "new_crash s =
     (if dumb_mode (core s) then (True, s)
      else let s = simplify s; (hnb, v, _) = has_new_bits False (trace_bits (core s)) (virgin_crash s) False
           in (hnb \<noteq> 0, s\<lparr>virgin_crash := v\<rparr>))"

definition new_violation :: "fuzzer \<Rightarrow> bool \<times> fuzzer" where
  "new_violation s =
     (if dumb_mode (core s) then (True, s)
      else let s = simplify s; (hnb, v, _) = has_new_bits False (trace_bits (core s)) (virgin_violations s) False
           in (hnb \<noteq> 0, s\<lparr>virgin_violations := v\<rparr>))"

definition save_crash :: "fuzzer \<Rightarrow> fuzzer option" where
  "save_crash s =
     (let s = s\<lparr>total_crashes := total_crashes s + 1\<rparr> in
      if unique_crashes s \<ge> KEEP_UNIQUE_CRASH then Some s
      else let (new, s) = new_crash s in
      if \<not> new then Some s
      else do {
        s \<leftarrow> (if unique_crashes s = 0 then write_crash_readme s else Some s);
        op \<leftarrow> describe_op 0 s;
        let (fn, s) = alloc_printf (out_dir (core s) @ ''/replayable-crashes/id:'' @ zpad 6 (unat (unique_crashes s))
              @ '',sig:'' @ zpad 2 (kill_signal s) @ '','' @ op) s;
        let (now, s) = get_cur_time s;
        save_result fn (s\<lparr>unique_crashes := unique_crashes s + 1, last_crash_time := now,
                          last_crash_execs := total_execs s\<rparr>)
      })"

text \<open>A hang is run again with the longer timeout, and may turn out to be a crash.\<close>

definition save_hang :: "fuzzer \<Rightarrow> fuzzer option" where
  "save_hang s = do {
     op \<leftarrow> describe_op 0 s;
     let (fn, s) = alloc_printf (out_dir (core s) @ ''/replayable-hangs/id:'' @ zpad 6 (unat (unique_hangs s)) @ '','' @ op) s;
     let s = s\<lparr>unique_hangs := unique_hangs s + 1\<rparr>;
     let (now, s) = get_cur_time s;
     save_result fn (s\<lparr>last_hang_time := now\<rparr>)
   }"

definition handle_tmout :: "fuzzer \<Rightarrow> fuzzer option" where
  "handle_tmout s =
     (let s = s\<lparr>total_tmouts := total_tmouts s + 1\<rparr> in
      if unique_hangs s \<ge> KEEP_UNIQUE_HANG then Some s
      else let (new, s) = new_tmout s in
      if \<not> new then Some s
      else let s = s\<lparr>unique_tmouts := unique_tmouts s + 1\<rparr> in
      if exec_tmout s < hang_tmout s
      then do {
        (new_fault, s) \<leftarrow> run_target (hang_tmout s) s;
        (if stop_soon s = 0 \<and> new_fault = FAULT_CRASH then save_crash s
         else if stop_soon s \<noteq> 0 \<or> new_fault \<noteq> FAULT_TMOUT then Some s
         else save_hang s)
      }
      else save_hang s)"

section \<open>Violations\<close>

definition meta_text :: "u64 \<Rightarrow> fuzzer \<Rightarrow> byte list" where
  "meta_text now s =
     (let n = zpad 6 (unat (unique_violations s)) in
      ''Violation ID: '' @ n @ [LF] @ ''Timestamp: '' @ udec (unat now) @ [LF] @
      ''Total Execs: '' @ udec (unat (total_execs s)) @ [LF] @
      ''Queue Cycle: '' @ udec (unat (queue_cycle (core s))) @ [LF] @
      ''Messages Sent: '' @ udec (messages_sent (core s)) @ [LF] @
      ''Response Size: '' @ udec (response_buf_size (core s)) @ '' bytes'' @ [LF, LF] @
      ''Detailed LTL violation info: /tmp/monitor_violations.log'' @ [LF] @
      ''Search for violation #'' @ udec (unat (total_violations s)) @ '' in the log'' @ [LF, LF] @
      ''Related Files:'' @ [LF] @
      ''  Original test case: violations/id:'' @ n @ [LF] @
      ''  Replayable messages: replayable-violations/id:'' @ n @ [LF] @
      ''  Response trace: violations-traces/id:'' @ n @ ''.trace'' @ [LF] @
      ''  Coverage bitmap: violations-traces/id:'' @ n @ ''.bitmap'' @ [LF] @
      ''  State sequence: violations-traces/id:'' @ n @ ''.states'' @ [LF])"

definition chars_of :: "u8 list \<Rightarrow> byte list" where
  "chars_of = map (\<lambda>b. char_of (unat b))"

text \<open>The six saves; \<open>mem\<close> is the mutated buffer. The result is the last name, which is freed already.\<close>

definition violation_files :: "byte list \<Rightarrow> fuzzer \<Rightarrow> (nat \<times> fuzzer) option" where
  "violation_files mem s = do {
     let dir = out_dir (core s);
     let n = zpad 6 (unat (unique_violations s));
     op \<leftarrow> describe_op 0 s;
     let (fn, s) = alloc_printf (dir @ ''/replayable-violations/id:'' @ n @ '','' @ op) s;
     (_, s) \<leftarrow> save_messages fn True s;
     s \<leftarrow> ck_free_name fn s;
     let (fn, s) = alloc_printf (dir @ ''/violations/id:'' @ n @ '',sig:00,'' @ op) s;
     s \<leftarrow> create_excl True fn mem s;
     s \<leftarrow> ck_free_name fn s;
     let (fn, s) = alloc_printf (dir @ ''/violations-traces/id:'' @ n @ ''.trace'') s;
     s \<leftarrow> create_excl False fn (take (response_buf_size (core s)) (response_buf (core s))) s;
     s \<leftarrow> ck_free_name fn s;
     let (fn, s) = alloc_printf (dir @ ''/violations-traces/id:'' @ n @ ''.bitmap'') s;
     s \<leftarrow> create_excl False fn (chars_of (trace_bits (core s))) s;
     s \<leftarrow> ck_free_name fn s;
     let (fn, s) = alloc_printf (dir @ ''/violations-traces/id:'' @ n @ ''.states'') s;
     let (fn, s) = alloc_printf (dir @ ''/violations-metadata/id:'' @ n @ ''.txt'') s;
     f \<leftarrow> chunks s fn;
     let (now, s) = get_cur_time s;
     let s = put_file f (meta_text now s) s;
     s \<leftarrow> ck_free_name fn s;
     Some (fn, s)
   }"

definition save_violation :: "byte list \<Rightarrow> fuzzer \<Rightarrow> fuzzer option" where
  "save_violation mem s =
     (let s = s\<lparr>total_violations := total_violations s + 1\<rparr> in
      if unique_violations s \<ge> KEEP_UNIQUE_VIOLATIONS then Some s
      else let (new, s) = new_violation s in
      if \<not> new then Some s
      else do {
        s \<leftarrow> (if unique_violations s = 0 then write_violation_readme s else Some s);
        (fn, s) \<leftarrow> violation_files mem s;
        let s = s\<lparr>unique_violations := unique_violations s + 1\<rparr>;
        let (now, s) = get_cur_time s;
        save_result fn (s\<lparr>last_violation_time := now\<rparr>)
      })"

section \<open>The whole function\<close>

text \<open>The first part: the result says whether to go on to the switch, and \<open>keeping\<close>.\<close>

definition try_keep :: "response_codes \<Rightarrow> request_reader \<Rightarrow> fault \<Rightarrow> fuzzer \<Rightarrow> (bool \<times> bool \<times> fuzzer) option" where
  "try_keep codes requests fault s =
     (if fault \<noteq> crash_mode s then Some (True, False, s)
      else let (hnb, v, changed) = has_new_bits True (trace_bits (core s)) (virgin_bits s) (bitmap_changed s);
               s = s\<lparr>virgin_bits := v, bitmap_changed := changed\<rparr>
           in if hnb = 0
              then Some (False, False, if crash_mode s = FAULT_NONE then s else s\<lparr>total_crashes := total_crashes s + 1\<rparr>)
              else map_option (\<lambda>s. (True, True, s)) (keep_entry codes requests hnb s))"

definition save_if_interesting ::
  "response_codes \<Rightarrow> request_reader \<Rightarrow> byte list \<Rightarrow> fault \<Rightarrow> fuzzer \<Rightarrow> (bool \<times> fuzzer) option" where
  "save_if_interesting codes requests mem fault s = do {
     (go, keeping, s) \<leftarrow> try_keep codes requests fault s;
     s \<leftarrow> (if \<not> go then Some s
           else case fault of
               FAULT_TMOUT \<Rightarrow> handle_tmout s
             | FAULT_CRASH \<Rightarrow> save_crash s
             | FAULT_VIOLATION \<Rightarrow> save_violation mem s
             | FAULT_ERROR \<Rightarrow> None
             | _ \<Rightarrow> Some s);
     Some (keeping, s)
   }"

section \<open>After an execution\<close>

definition TMOUT_LIMIT :: u32 where "TMOUT_LIMIT = 250"

text \<open>Asking the monitor; resetting the protocol's adapter is its own affair (\<open>Adapter\<close>).\<close>

definition ask_monitor :: "string list list \<Rightarrow> fault \<Rightarrow> fuzzer \<Rightarrow> fault \<times> fuzzer" where
  "ask_monitor arrivals fault s =
     (if use_net s \<and> g_monitor s \<noteq> None
      then let (h, p) = monitor_end_session arrivals (g_monitor s) (monitor_pipe s);
               s = s\<lparr>g_monitor := h, monitor_pipe := p\<rparr>
           in if monitor_check_violation h \<noteq> 0
              then (if fault = FAULT_NONE then FAULT_VIOLATION else fault,
                    s\<lparr>g_monitor := monitor_clear_violation h, g_last_violation_detected := True\<rparr>)
              else (fault, s)
      else (fault, s))"

text \<open>The counters that decide about snapshots.\<close>

definition count_backsteps :: "fuzzer \<Rightarrow> fuzzer" where
  "count_backsteps s =
     (if \<not> use_snapshot (core s) then s
      else let s = (if backstep s = 1
                    then if backstep_count s + 1 > 3 then s\<lparr>backstep_count := 0, backstep := 2\<rparr>
                         else s\<lparr>backstep_count := backstep_count s + 1\<rparr>
                    else s);
               s = (if backstep s = 2
                    then s\<lparr>has_snapshot_flag := False, serious_err_count := serious_err_count s + 1,
                           can_snapshot_flag := \<not> serious_err_count s + 1 > 3\<rparr>
                    else s)
           in if backstep s = 0 then s\<lparr>backstep_count := (if backstep_count s = 0 then 0 else backstep_count s - 1)\<rparr> else s)"

text \<open>The state-aware counters after an execution.\<close>

definition count_fuzz :: "response_codes \<Rightarrow> afl \<Rightarrow> afl option" where
  "count_fuzz codes c =
     (if state_aware_mode c
      then do {
        c \<leftarrow> update_fuzzs codes c;
        (if use_snapshot c \<and> mca_algo c = MCA_SMART \<and> current_choose_position c \<noteq> -1
         then let scores = regions_scores (queue c ! queue_cur c); p = nat (current_choose_position c) in
           if current_choose_position c \<ge> 0 \<and> p < length scores
           then Some (upd_entry (queue_cur c) (\<lambda>e. e\<lparr>regions_scores :=
                  scores[p := (scores ! p)\<lparr>rs_fuzzs := rs_fuzzs (scores ! p) + 1\<rparr>]\<rparr>) c)
           else None
         else Some c)
      }
      else Some c)"

text \<open>From \<open>run_target\<close> to the end; the result is the value returned: whether to abandon the entry.\<close>

definition process_run :: "response_codes \<Rightarrow> request_reader \<Rightarrow> byte list \<Rightarrow> fuzzer \<Rightarrow> (bool \<times> fuzzer) option" where
  "process_run codes requests mem s = do {
     let arrivals = o_arrivals (runs s (run_target_count s));
     (fault, s) \<leftarrow> run_target (exec_tmout s) s;
     c \<leftarrow> count_fuzz codes (core s);
     let (fault, s) = ask_monitor arrivals fault (s\<lparr>core := c\<rparr>);
     (if stop_soon s \<noteq> 0 then Some (True, s)
      else let many = subseq_tmouts s > TMOUT_LIMIT;
               s = s\<lparr>subseq_tmouts := (if fault = FAULT_TMOUT then subseq_tmouts s + 1 else 0)\<rparr> in
      if fault = FAULT_TMOUT \<and> many then Some (True, s\<lparr>cur_skipped_paths := cur_skipped_paths s + 1\<rparr>)
      else if skip_requested s then Some (True, s\<lparr>skip_requested := False, cur_skipped_paths := cur_skipped_paths s + 1\<rparr>)
      else do {
        (keeping, s) \<leftarrow> save_if_interesting codes requests mem fault s;
        Some (False, count_backsteps (s\<lparr>queued_discovered := queued_discovered s + (if keeping then 1 else 0)\<rparr>))
      })
   }"

section \<open>Start\<close>

text \<open>
  The maps at the start: \<open>setup_shm\<close> fills three of the four static arrays, the first one unless a
  bitmap was read from a file. The trace is a new shared memory segment.
\<close>

definition setup_shm :: "bool \<Rightarrow> fuzzer \<Rightarrow> fuzzer" where
  "setup_shm in_bitmap s =
     upd_core (\<lambda>c. c\<lparr>trace_bits := replicate MAP_SIZE 0\<rparr>)
       (s\<lparr>virgin_bits := (if in_bitmap then virgin_bits s else replicate MAP_SIZE 0xFF),
          virgin_tmout := replicate MAP_SIZE 0xFF, virgin_crash := replicate MAP_SIZE 0xFF\<rparr>)"

text \<open>
  The states of a run, as far as the books of violations go: static storage is zero before
  \<open>setup_shm\<close>; test cases are executed and results are saved; everything else in the program leaves
  the books alone.
\<close>

inductive fuzz_reach :: "response_codes \<Rightarrow> request_reader \<Rightarrow> fuzzer \<Rightarrow> bool"
  for codes requests where
  start: "virgin_violations s = replicate MAP_SIZE 0 \<Longrightarrow> unique_violations s = 0 \<Longrightarrow>
    fuzz_reach codes requests (setup_shm in_bitmap s)"
| execute: "fuzz_reach codes requests s \<Longrightarrow> process_run codes requests mem s = Some (abandon, s') \<Longrightarrow>
    fuzz_reach codes requests s'"
| calibrate: "fuzz_reach codes requests s \<Longrightarrow> calibrate_case q hc from_queue s = Some (f, s') \<Longrightarrow>
    fuzz_reach codes requests s'"
| save: "fuzz_reach codes requests s \<Longrightarrow> save_if_interesting codes requests mem fault s = Some (keeping, s') \<Longrightarrow>
    fuzz_reach codes requests s'"
| other: "fuzz_reach codes requests s \<Longrightarrow> virgin_violations s' = virgin_violations s \<Longrightarrow>
    unique_violations s' = unique_violations s \<Longrightarrow> fuzz_reach codes requests s'"

section \<open>What stays as it is\<close>

definition books :: "fuzzer \<Rightarrow> u8 list \<times> u64" where
  "books s = (virgin_violations s, unique_violations s)"

definition heap :: "fuzzer \<Rightarrow> (nat \<rightharpoonup> string) \<times> nat" where
  "heap s = (chunks s, next_chunk s)"

text \<open>All that an execution leaves alone.\<close>

definition frame :: "fuzzer \<Rightarrow> (u8 list \<times> u64) \<times> ((nat \<rightharpoonup> string) \<times> nat) \<times> (nat \<Rightarrow> outcome) \<times> fault \<times> nat \<times> bool \<times> nat" where
  "frame s = (books s, heap s, runs s, crash_mode s, stop_soon s, dumb_mode (core s), run_target_count s)"

lemmas frame_defs = frame_def books_def heap_def

lemma upd_core_frame [simp]:
  "(\<And>c. dumb_mode (f c) = dumb_mode c) \<Longrightarrow> frame (upd_core f s) = frame s"
  "books (upd_core f s) = books s" "heap (upd_core f s) = heap s"
  by (simp_all add: frame_defs upd_core_def)

lemma fresh_trace_frame [simp]: "frame (fresh_trace t s) = frame s"
  by (simp add: fresh_trace_def)

lemma take_response_dumb [simp]: "dumb_mode (take_response r c) = dumb_mode c"
  by (simp add: take_response_def)

lemma take_snapshot_frame: "take_snapshot r s = (go, s') \<Longrightarrow> frame s' = frame s"
  by (auto simp: take_snapshot_def Let_def frame_defs fresh_trace_def upd_core_def split: if_splits)

lemma leave_snapshot_frame [simp]: "frame (leave_snapshot r s) = frame s"
  by (simp add: leave_snapshot_def frame_defs)

lemma report_exit_frame: "report_exit r t b s = (f, s') \<Longrightarrow> frame s' = frame s"
  by (auto simp: report_exit_def report_violation_def frame_defs split: if_splits)

lemma report_signal_frame: "report_signal r sig s = (f, s') \<Longrightarrow> frame s' = frame s"
  by (auto simp: report_signal_def frame_defs)

lemma report_outcome_frame:
  assumes "report_outcome r t s = (f, s')"
  shows "frame s' = frame s"
proof -
  have base: "frame ((upd_core (\<lambda>c. c\<lparr>trace_bits := g c\<rparr>) s)\<lparr>total_execs := n\<rparr>) = frame s" for g n
    by (simp add: frame_defs upd_core_def)
  show ?thesis
    using assms unfolding report_outcome_def Let_def
    by (auto simp: base split: wait_status.splits if_splits dest!: report_exit_frame report_signal_frame)
qed

lemma run_target_frame:
  assumes "run_target t s = Some (f, s')"
  shows "frame s' = frame (s\<lparr>run_target_count := Suc (run_target_count s)\<rparr>)"
proof -
  have base: "frame ((fresh_trace x s)\<lparr>run_target_count := n, backstep := b\<rparr>) = frame (s\<lparr>run_target_count := n\<rparr>)" for x n b
    by (simp add: frame_defs fresh_trace_def upd_core_def)
  show ?thesis
    using assms unfolding run_target_def Let_def
    by (auto simp: base split: if_splits prod.splits dest!: take_snapshot_frame report_outcome_frame)
qed

lemma compare_trace_frame [simp]: "frame (snd (compare_trace q c s)) = frame s"
  by (simp add: compare_trace_def mark_variable_bytes_def Let_def frame_defs upd_core_def upd_entry_def split: prod.splits)

lemma frame_count: "frame (s\<lparr>run_target_count := n\<rparr>) = frame (s'\<lparr>run_target_count := n\<rparr>) \<Longrightarrow>
    frame (s\<lparr>run_target_count := k\<rparr>) = frame (s'\<lparr>run_target_count := k\<rparr>)"
  by (simp add: frame_defs)

lemma frame_drop: "frame s' = frame (s\<lparr>run_target_count := n\<rparr>) \<Longrightarrow>
    frame (s'\<lparr>run_target_count := k\<rparr>) = frame (s\<lparr>run_target_count := k\<rparr>) \<and> run_target_count s' = n"
  by (simp add: frame_defs)

text \<open>The loop of the calibration ends after at most forty executions.\<close>

lemma cal_loop_frame:
  "cal_loop q t c s = Some (aborted, c', s') \<Longrightarrow>
    frame (s'\<lparr>run_target_count := 0\<rparr>) = frame (s\<lparr>run_target_count := 0\<rparr>) \<and>
    run_target_count s' \<le> run_target_count s + (max (c_max c) CAL_CYCLES_LONG - c_cur c) \<and>
    run_target_count s + (if c_cur c < c_max c then 1 else 0) \<le> run_target_count s'"
proof (induction q t c s rule: cal_loop.induct)
  case (1 q t c s)
  show ?case
  proof (cases "c_cur c < c_max c")
    case True
    obtain f s1 where run: "run_target t s = Some (f, s1)"
      using 1(2) True by (subst (asm) cal_loop.simps) (auto split: option.splits)
    let ?c = "c\<lparr>c_fault := f\<rparr>"
    let ?c' = "(fst (compare_trace q ?c s1))\<lparr>c_cur := Suc (c_cur c)\<rparr>" and ?s' = "snd (compare_trace q ?c s1)"
    note f1 = frame_drop [OF run_target_frame [OF run], where k = 0]
    show ?thesis
    proof (cases "(stop_soon s1 \<noteq> 0 \<or> f \<noteq> crash_mode s1) \<or> (\<not> dumb_mode (core s1) \<and> c_cur c = 0 \<and> count_bytes (trace_bits (core s1)) = 0)")
      case end_now: True
      then have "s' = s1" using 1(2) True run by (subst (asm) cal_loop.simps) (auto simp: Let_def split: if_splits)
      then show ?thesis using f1 True by auto
    next
      case go: False
      then have "cal_loop q t ?c' ?s' = Some (aborted, c', s')"
        using 1(2) True run by (subst (asm) cal_loop.simps) (auto simp: Let_def split: if_splits)
      then have ih: "frame (s'\<lparr>run_target_count := 0\<rparr>) = frame (?s'\<lparr>run_target_count := 0\<rparr>) \<and>
          run_target_count s' \<le> run_target_count ?s' + (max (c_max ?c') CAL_CYCLES_LONG - c_cur ?c') \<and>
          run_target_count ?s' \<le> run_target_count s'"
        using 1(1) [OF True run refl refl _ _ ] go by (simp split: if_splits)
      have fc: "frame (?s'\<lparr>run_target_count := 0\<rparr>) = frame (s1\<lparr>run_target_count := 0\<rparr>)" "run_target_count ?s' = run_target_count s1"
        using compare_trace_frame [of q ?c s1] by (simp_all add: frame_defs)
      have "max (c_max ?c') CAL_CYCLES_LONG - c_cur ?c' < max (c_max c) CAL_CYCLES_LONG - c_cur c"
        using compare_trace_cur(2) [of q ?c s1] True by auto
      then show ?thesis using ih fc f1 by simp arith
    qed
  next
    case False
    then show ?thesis using 1(2) by (subst (asm) cal_loop.simps) simp
  qed
qed

lemma score_tuple_dumb: "dumb_mode (score_tuple q i s) = dumb_mode s"
  by (simp add: score_tuple_def win_slot_def drop_ref_def upd_entry_def split: option.splits)

lemma update_bitmap_score_dumb [simp]: "dumb_mode (update_bitmap_score q s) = dumb_mode s"
proof -
  have "dumb_mode (fold (score_tuple q) is s) = dumb_mode s" for "is" s
    by (induction "is" arbitrary: s) (simp_all add: score_tuple_dumb)
  then show ?thesis by (simp add: update_bitmap_score_def)
qed

lemma upd_entry_dumb [simp]: "dumb_mode (upd_entry q f c) = dumb_mode c"
  by (simp add: upd_entry_def)

lemma settle_entry_frame [simp]: "frame (settle_entry q c s) = frame s"
proof -
  have "frame (s\<lparr>var_byte_count := a\<rparr>) = frame s" "frame (s\<lparr>queued_with_cov := n\<rparr>) = frame s"
    "frame (s\<lparr>queued_variable := n\<rparr>) = frame s" for s a n
    by (simp_all add: frame_defs)
  then show ?thesis by (simp add: settle_entry_def Let_def)
qed

lemma finish_calibration_frame [simp]: "frame (finish_calibration q t hc c s) = frame s"
proof -
  have "frame (s\<lparr>total_cal_us := a, total_cal_cycles := b, total_bitmap_size := d, total_bitmap_entries := e\<rparr>) = frame s"
    "frame (s\<lparr>clock_calls := n\<rparr>) = frame s" for s a b d e n
    by (simp_all add: frame_defs)
  then show ?thesis by (simp add: finish_calibration_def get_cur_time_us_def Let_def)
qed

lemma calibrate_case_frame:
  assumes "calibrate_case q hc fq s = Some (f, s')"
  shows "frame (s'\<lparr>run_target_count := 0\<rparr>) = frame (s\<lparr>run_target_count := 0\<rparr>)"
    and "run_target_count s' \<le> run_target_count s + CAL_CYCLES_LONG"
    and "run_target_count s < run_target_count s'"
proof -
  let ?s = "(upd_core (upd_entry q (\<lambda>e. e\<lparr>cal_failed := (cal_failed e + 1) mod 256\<rparr>)) s)"
  obtain c aborted c' s1 where loop: "cal_loop q (use_timeout fq s) c (?s\<lparr>clock_calls := Suc (clock_calls ?s)\<rparr>) = Some (aborted, c', s1)"
    and c: "c_cur c = 0" "c_max c \<le> CAL_CYCLES_LONG" "c_max c \<noteq> 0" and s': "frame s' = frame s1"
    using assms by (auto simp: calibrate_case_def Let_def get_cur_time_us_def start_calibration_def CAL_CYCLES_def CAL_CYCLES_LONG_def
        split: option.splits if_splits)
  have "frame (?s\<lparr>clock_calls := n, run_target_count := 0\<rparr>) = frame (s\<lparr>run_target_count := 0\<rparr>)" for n
    by (simp add: frame_defs upd_core_def)
  moreover have "frame (s'\<lparr>run_target_count := 0\<rparr>) = frame (s1\<lparr>run_target_count := 0\<rparr>)" "run_target_count s' = run_target_count s1"
    using s' by (simp_all add: frame_defs)
  ultimately show "frame (s'\<lparr>run_target_count := 0\<rparr>) = frame (s\<lparr>run_target_count := 0\<rparr>)"
    "run_target_count s' \<le> run_target_count s + CAL_CYCLES_LONG" "run_target_count s < run_target_count s'"
    using cal_loop_frame [OF loop] c by (simp_all add: upd_core_def)
qed

section \<open>The books of violations\<close>

lemma alloc_printf_books: "alloc_printf f s = (fn, s') \<Longrightarrow> books s' = books s"
  by (auto simp: alloc_printf_def books_def)

lemma ck_free_books: "ck_free_name fn s = Some s' \<Longrightarrow> books s' = books s"
  by (auto simp: ck_free_name_def books_def split: option.splits)

lemma save_messages_books: "save_messages fn r s = Some (n, s') \<Longrightarrow> books s' = books s"
  by (auto simp: save_messages_def put_file_def split: Option.bind_splits)

lemma create_excl_books: "create_excl fatal fn content s = Some s' \<Longrightarrow> books s' = books s"
  by (auto simp: create_excl_def put_file_def split: Option.bind_splits option.splits if_splits)

lemma get_cur_time_books: "get_cur_time s = (now, s') \<Longrightarrow> books s' = books s"
  by (auto simp: get_cur_time_def books_def)

lemmas books_dests = alloc_printf_books ck_free_books save_messages_books create_excl_books get_cur_time_books

lemma run_target_books: "run_target t s = Some (f, s') \<Longrightarrow> books s' = books s"
  using run_target_frame [of t s f s'] by (simp add: frame_defs)

lemma calibrate_case_books: "calibrate_case q hc fq s = Some (f, s') \<Longrightarrow> books s' = books s"
  using calibrate_case_frame(1) [of q hc fq s f s'] by (simp add: frame_defs)

lemma books_upd [simp]:
  "books (s\<lparr>core := c\<rparr>) = books s" "books (s\<lparr>queued_with_cov := n\<rparr>) = books s"
  "books (s\<lparr>virgin_bits := v, bitmap_changed := b\<rparr>) = books s" "books (s\<lparr>total_crashes := k\<rparr>) = books s"
  "books (s\<lparr>total_tmouts := k\<rparr>) = books s" "books (s\<lparr>unique_tmouts := k\<rparr>) = books s" "books (s\<lparr>unique_hangs := k\<rparr>) = books s"
  "books (s\<lparr>last_hang_time := k\<rparr>) = books s" "books (s\<lparr>virgin_tmout := v\<rparr>) = books s" "books (s\<lparr>virgin_crash := v\<rparr>) = books s"
  "books (s\<lparr>unique_crashes := k, last_crash_time := k1, last_crash_execs := k2\<rparr>) = books s"
  "books (s\<lparr>total_violations := k\<rparr>) = books s" "books (s\<lparr>subseq_tmouts := n\<rparr>) = books s"
  "books (s\<lparr>g_monitor := h, monitor_pipe := p\<rparr>) = books s"
  "books (s\<lparr>cur_skipped_paths := n\<rparr>) = books s" "books (s\<lparr>skip_requested := b\<rparr>) = books s"
  "books (s\<lparr>queued_discovered := n\<rparr>) = books s"
  by (simp_all add: books_def)

lemma keep_entry_books: "keep_entry codes requests hnb s = Some s' \<Longrightarrow> books s' = books s"
  unfolding keep_entry_def Let_def
  by (auto split: Option.bind_splits prod.splits if_splits dest!: books_dests calibrate_case_books)

lemma save_result_books: "save_result fn s = Some s' \<Longrightarrow> books s' = books s"
  by (auto simp: save_result_def split: Option.bind_splits dest!: books_dests)

lemma write_crash_readme_books: "write_crash_readme s = Some s' \<Longrightarrow> books s' = books s"
  by (auto simp: write_crash_readme_def split: Option.bind_splits prod.splits dest!: books_dests)

lemma new_crash_books: "new_crash s = (new, s') \<Longrightarrow> books s' = books s"
  by (auto simp: new_crash_def simplify_def Let_def split: if_splits prod.splits)

lemma new_tmout_books: "new_tmout s = (new, s') \<Longrightarrow> books s' = books s"
  by (auto simp: new_tmout_def simplify_def Let_def split: if_splits prod.splits)

lemma save_crash_books: "save_crash s = Some s' \<Longrightarrow> books s' = books s"
  unfolding save_crash_def Let_def
  by (auto split: Option.bind_splits prod.splits if_splits
      dest!: books_dests save_result_books write_crash_readme_books new_crash_books)

lemma save_hang_books: "save_hang s = Some s' \<Longrightarrow> books s' = books s"
  unfolding save_hang_def Let_def
  by (auto split: Option.bind_splits prod.splits dest!: books_dests save_result_books)

lemma handle_tmout_books: "handle_tmout s = Some s' \<Longrightarrow> books s' = books s"
  unfolding handle_tmout_def Let_def
  by (auto split: Option.bind_splits prod.splits if_splits
      dest!: run_target_books save_crash_books save_hang_books new_tmout_books)

text \<open>A map that was never set has no virgin bits: nothing is new to it.\<close>

lemma hnb_loop_zero: "hnb_loop n cur (replicate (8 * n) 0) ret = (ret, replicate (8 * n) 0)"
proof (induction n arbitrary: cur)
  case (Suc n)
  have "st 8 (0 :: u64) = replicate 8 0" by (intro nth_equalityI) (simp_all add: st_def)
  moreover have "take 8 (replicate (8 * Suc n) (0 :: u8)) = replicate 8 0" "drop 8 (replicate (8 * Suc n) (0 :: u8)) = replicate (8 * n) 0"
    by simp_all
  moreover have "(ld (replicate 8 0) :: u64) = 0" by (simp add: ld_eq_0)
  ultimately show ?case using Suc by (simp add: Let_def replicate_add [symmetric] del: ld.simps replicate_Suc)
qed simp

lemma has_new_bits_zero: "has_new_bits False cur (replicate MAP_SIZE 0) changed = (0, replicate MAP_SIZE 0, changed)"
  using hnb_loop_zero [of "MAP_SIZE div 8" cur 0] by (simp add: has_new_bits_def MAP_SIZE_def)

lemma new_violation_blind:
  "virgin_violations s = replicate MAP_SIZE 0 \<Longrightarrow> \<not> dumb_mode (core s) \<Longrightarrow>
    new_violation s = (False, (simplify s)\<lparr>virgin_violations := replicate MAP_SIZE 0\<rparr>)"
  by (simp add: new_violation_def simplify_def upd_core_def has_new_bits_zero)

text \<open>The name that the six saves leave in \<open>fn\<close> is not live any more.\<close>

lemma violation_files_freed: "violation_files mem s = Some (fn, s') \<Longrightarrow> chunks s' fn = None"
  unfolding violation_files_def Let_def
  by (auto split: Option.bind_splits prod.splits if_splits) (auto simp: ck_free_name_def split: option.splits)

text \<open>
  Before that the messages and the mutated buffer have been written, under names that no other of
  the six saves uses.
\<close>

definition violation_name :: "string \<Rightarrow> string \<Rightarrow> fuzzer \<Rightarrow> string" where
  "violation_name place op s = out_dir (core s) @ place @ zpad 6 (unat (unique_violations s)) @ op"

lemma excl_round:
  assumes "alloc_printf f s = (fn, t)"
  shows "\<exists>u v. create_excl False fn c t = Some u \<and> ck_free_name fn u = Some v \<and> (\<forall>g. g \<noteq> f \<longrightarrow> files (core v) g = files (core s) g)"
  using assms by (cases "files (core s) f") (auto simp: alloc_printf_def create_excl_def ck_free_name_def put_file_def upd_core_def)

lemma meta_round:
  assumes "alloc_printf f s = (fn, t)" "get_cur_time t = (now, u)"
  shows "chunks t fn = Some f \<and> (\<exists>v. ck_free_name fn (put_file f c u) = Some v \<and> (\<forall>g. g \<noteq> f \<longrightarrow> files (core v) g = files (core s) g))"
  using assms by (auto simp: alloc_printf_def get_cur_time_def ck_free_name_def put_file_def upd_core_def)

text \<open>The first two saves, and the other four.\<close>

lemma first_saves:
  assumes "alloc_printf f s = (fn, t)" "save_kl_messages_to_file (kl_messages (core s)) [] True (messages_sent (core s)) = Some (content, n)"
    "files (core s) f = None" "files (core s) f2 = None" "f \<noteq> f2"
  shows "\<exists>n u v. save_messages fn True t = Some (n, u) \<and> ck_free_name fn u = Some v \<and> 
    (\<forall>fn2 w. alloc_printf f2 v = (fn2, w) \<longrightarrow> (\<exists>x y. create_excl True fn2 mem w = Some x \<and> ck_free_name fn2 x = Some y \<and>
      files (core y) f = Some content \<and> files (core y) f2 = Some mem))"
  using assms
  by (auto simp: alloc_printf_def save_messages_def create_excl_def ck_free_name_def put_file_def upd_core_def)

lemma write_violation_readme_total:
  "\<exists>s1. write_violation_readme s = Some s1 \<and> (\<forall>f. f \<noteq> out_dir (core s) @ ''/replayable-violations/README.txt'' \<longrightarrow> files (core s1) f = files (core s) f)
    \<and> out_dir (core s1) = out_dir (core s) \<and> unique_violations s1 = unique_violations s \<and> describe_op hnb s1 = describe_op hnb s
    \<and> kl_messages (core s1) = kl_messages (core s) \<and> messages_sent (core s1) = messages_sent (core s)"
  by (cases "files (core s) (out_dir (core s) @ ''/replayable-violations/README.txt'')")
     (simp_all add: write_violation_readme_def alloc_printf_def create_excl_def ck_free_name_def put_file_def upd_core_def describe_op_def
      cong: option.case_cong)

lemma violation_files_written:
  assumes "describe_op 0 s = Some op"
    and "save_kl_messages_to_file (kl_messages (core s)) [] True (messages_sent (core s)) = Some (content, n)"
    and "files (core s) (violation_name ''/replayable-violations/id:'' (CHR '','' # op) s) = None"
    and "files (core s) (violation_name ''/violations/id:'' ('',sig:00,'' @ op) s) = None"
  shows "\<exists>fn s'. violation_files mem s = Some (fn, s') \<and>
    files (core s') (violation_name ''/replayable-violations/id:'' (CHR '','' # op) s) = Some content \<and>
    files (core s') (violation_name ''/violations/id:'' ('',sig:00,'' @ op) s) = Some mem"
proof -
  let ?n = "zpad 6 (unat (unique_violations s))" and ?d = "out_dir (core s)"
  define f1 where "f1 = ?d @ ''/replayable-violations/id:'' @ ?n @ '','' @ op"
  define f2 where "f2 = ?d @ ''/violations/id:'' @ ?n @ '',sig:00,'' @ op"
  define f3 where "f3 = ?d @ ''/violations-traces/id:'' @ ?n @ ''.trace''"
  define f4 where "f4 = ?d @ ''/violations-traces/id:'' @ ?n @ ''.bitmap''"
  define f5 where "f5 = ?d @ ''/violations-traces/id:'' @ ?n @ ''.states''"
  define f6 where "f6 = ?d @ ''/violations-metadata/id:'' @ ?n @ ''.txt''"
  note f = f1_def f2_def f3_def f4_def f6_def
  have ne: "f1 \<noteq> f2" "f1 \<notin> {f3, f4, f6}" "f2 \<notin> {f3, f4, f6}" by (simp_all add: f)
  obtain fn1 t1 where a1: "alloc_printf f1 s = (fn1, t1)" by fastforce
  have free: "files (core s) f1 = None" "files (core s) f2 = None" using assms(3,4) by (simp_all add: f violation_name_def)
  from first_saves [OF a1 assms(2) free ne(1)] obtain n1 u1 v1 where s1: "save_messages fn1 True t1 = Some (n1, u1)" "ck_free_name fn1 u1 = Some v1"
    and next2: "\<And>fn2 w. alloc_printf f2 v1 = (fn2, w) \<Longrightarrow> \<exists>x y. create_excl True fn2 mem w = Some x \<and> ck_free_name fn2 x = Some y \<and>
      files (core y) f1 = Some content \<and> files (core y) f2 = Some mem" by blast
  obtain fn2 t2 where a2: "alloc_printf f2 v1 = (fn2, t2)" by fastforce
  from next2 [OF a2] obtain u2 v2 where s2: "create_excl True fn2 mem t2 = Some u2" "ck_free_name fn2 u2 = Some v2"
    and w2: "files (core v2) f1 = Some content" "files (core v2) f2 = Some mem" by blast
  obtain fn3 t3 where a3: "alloc_printf f3 v2 = (fn3, t3)" by fastforce
  from excl_round [OF a3] obtain u3 v3 where s3: "create_excl False fn3 (take (response_buf_size (core t3)) (response_buf (core t3))) t3 = Some u3"
    "ck_free_name fn3 u3 = Some v3" and k3: "\<forall>g. g \<noteq> f3 \<longrightarrow> files (core v3) g = files (core v2) g" by blast
  obtain fn4 t4 where a4: "alloc_printf f4 v3 = (fn4, t4)" by fastforce
  from excl_round [OF a4] obtain u4 v4 where s4: "create_excl False fn4 (chars_of (trace_bits (core t4))) t4 = Some u4"
    "ck_free_name fn4 u4 = Some v4" and k4: "\<forall>g. g \<noteq> f4 \<longrightarrow> files (core v4) g = files (core v3) g" by blast
  obtain fn5 t5 where a5: "alloc_printf f5 v4 = (fn5, t5)" by fastforce
  have k5: "core t5 = core v4" using a5 by (auto simp: alloc_printf_def)
  obtain fn6 t6 where a6: "alloc_printf f6 t5 = (fn6, t6)" by fastforce
  obtain now u6 where c6: "get_cur_time t6 = (now, u6)" by fastforce
  from meta_round [OF a6 c6] obtain v6 where s6: "chunks t6 fn6 = Some f6" "ck_free_name fn6 (put_file f6 (meta_text now u6) u6) = Some v6"
    and k6: "\<forall>g. g \<noteq> f6 \<longrightarrow> files (core v6) g = files (core t5) g" by blast
  have "violation_files mem s = Some (fn6, v6)"
    unfolding violation_files_def Let_def assms(1) bind.bind_lunit
      f1_def [symmetric] f2_def [symmetric] f3_def [symmetric] f4_def [symmetric] f5_def [symmetric] f6_def [symmetric]
      a1 prod.case s1 a2 s2 a3 s3 a4 s4 a5 a6 s6 c6 ..
  moreover have "files (core v6) f1 = Some content \<and> files (core v6) f2 = Some mem"
    using w2 k3 k4 k5 k6 ne by simp
  ultimately show ?thesis by (simp add: f violation_name_def)
qed

lemma save_violation_dumb:
  assumes "dumb_mode (core s)" "unique_violations s < KEEP_UNIQUE_VIOLATIONS"
  shows "save_violation mem s = None"
proof -
  have "save_result fn s' = None" if "chunks s' fn = None" for fn s'
    using that by (simp add: save_result_def save_messages_def)
  moreover have "chunks s' fn = None" if "violation_files mem t = Some (fn, u)" "get_cur_time (u\<lparr>unique_violations := n\<rparr>) = (now, s')" for t fn u s' n now
    using violation_files_freed [OF that(1)] that(2) by (auto simp: get_cur_time_def)
  ultimately show ?thesis
    using assms by (auto simp: save_violation_def new_violation_def Let_def split: Option.bind_splits prod.splits)
qed

lemma save_violation_dropped:
  assumes "virgin_violations s = replicate MAP_SIZE 0" "\<not> dumb_mode (core s)" "unique_violations s < KEEP_UNIQUE_VIOLATIONS"
  shows "save_violation mem s = Some ((simplify s)\<lparr>total_violations := total_violations s + 1\<rparr>)"
proof -
  have "new_violation (s\<lparr>total_violations := n\<rparr>) = (False, (simplify (s\<lparr>total_violations := n\<rparr>))\<lparr>virgin_violations := replicate MAP_SIZE 0\<rparr>)" for n
    by (rule new_violation_blind) (use assms in simp_all)
  then show ?thesis
    using assms leD [of KEEP_UNIQUE_VIOLATIONS "unique_violations s"]
    by (auto simp: save_violation_def Let_def simplify_def upd_core_def)
qed

lemma try_keep_books: "try_keep codes requests fault s = Some (go, keeping, s') \<Longrightarrow> books s' = books s"
  by (auto simp: try_keep_def Let_def split: if_splits prod.splits dest!: keep_entry_books)

lemma save_violation_books:
  assumes "books s = (replicate MAP_SIZE 0, 0)" "save_violation mem s = Some s'"
  shows "books s' = books s"
proof (cases "dumb_mode (core s)")
  case True
  then show ?thesis using save_violation_dumb [of s mem] assms by (simp add: books_def KEEP_UNIQUE_VIOLATIONS_def)
next
  case False
  then show ?thesis
    using save_violation_dropped [of s mem] assms by (auto simp: books_def KEEP_UNIQUE_VIOLATIONS_def simplify_def upd_core_def)
qed

lemma save_if_interesting_books:
  assumes "books s = (replicate MAP_SIZE 0, 0)" "save_if_interesting codes requests mem fault s = Some (keeping, s')"
  shows "books s' = books s"
proof -
  obtain go k s1 where keep: "try_keep codes requests fault s = Some (go, k, s1)"
    using assms(2) by (auto simp: save_if_interesting_def split: Option.bind_splits)
  note b = try_keep_books [OF this]
  have "s' = s1 \<or> handle_tmout s1 = Some s' \<or> save_crash s1 = Some s' \<or> save_violation mem s1 = Some s'"
    using assms(2) by (auto simp: save_if_interesting_def keep split: if_splits fault.splits Option.bind_splits)
  then show ?thesis
    using b assms(1) handle_tmout_books [of s1 s'] save_crash_books [of s1 s'] save_violation_books [of s1 mem s'] by auto
qed

lemma ask_monitor_books: "ask_monitor arrivals f s = (f', s') \<Longrightarrow> books s' = books s"
  by (auto simp: ask_monitor_def Let_def books_def split: if_splits prod.splits)

lemma count_backsteps_books: "books (count_backsteps s) = books s"
  by (simp add: count_backsteps_def Let_def books_def)

lemma process_run_books:
  assumes "books s = (replicate MAP_SIZE 0, 0)" "process_run codes requests mem s = Some (r, s')"
  shows "books s' = books s"
proof -
  let ?a = "o_arrivals (runs s (run_target_count s))"
  obtain f s1 c f2 s2 where 1: "run_target (exec_tmout s) s = Some (f, s1)" and 2: "ask_monitor ?a f (s1\<lparr>core := c\<rparr>) = (f2, s2)"
    and c: "count_fuzz codes (core s1) = Some c"
    using assms(2) by (auto simp: process_run_def Let_def split: Option.bind_splits prod.splits)
  have b: "books s2 = books s" using run_target_books [OF 1] ask_monitor_books [OF 2] by simp
  let ?s3 = "s2\<lparr>subseq_tmouts := (if f2 = FAULT_TMOUT then subseq_tmouts s2 + 1 else 0)\<rparr>"
  have "books s' = books s2 \<or> (\<exists>k s4 n. save_if_interesting codes requests mem f2 ?s3 = Some (k, s4) \<and>
      s' = count_backsteps (s4\<lparr>queued_discovered := n\<rparr>))"
    using assms(2) 1 2 c by (auto simp: process_run_def Let_def split: Option.bind_splits if_splits)
  then show ?thesis
    using b assms(1) save_if_interesting_books [of ?s3 codes requests mem f2] by (auto simp: count_backsteps_books)
qed

lemma fuzz_reach_books: "fuzz_reach codes requests s \<Longrightarrow> books s = (replicate MAP_SIZE 0, 0)"
proof (induction rule: fuzz_reach.induct)
  case (start s in_bitmap)
  then show ?case by (simp add: setup_shm_def) (simp add: books_def)
next
  case (execute s mem abandon s')
  then show ?case using process_run_books [OF execute(3,2)] by simp
next
  case (calibrate s q hc from_queue f s')
  then show ?case using calibrate_case_books [OF calibrate(2)] by simp
next
  case (save s mem fault keeping s')
  then show ?case using save_if_interesting_books [OF save(3,2)] by simp
next
  case (other s s')
  then show ?case by (simp add: books_def)
qed

lemma report_exit_plain:
  assumes "o_status r = Exited 0" "\<not> direct_exec s"
  shows "\<exists>s'. report_exit r t b s = (if g_last_violation_detected s then FAULT_VIOLATION else FAULT_NONE, s') \<and>
    \<not> g_last_violation_detected s'"
  using assms by (auto simp: report_exit_def report_violation_def MSAN_ERROR_def)

lemma report_outcome_exit:
  assumes "o_status r = Exited 0"
  obtains s0 b where "report_outcome r t s = report_exit r t b s0"
    "g_last_violation_detected s0 = g_last_violation_detected s" "direct_exec s0 = direct_exec s"
  by (rule that, unfold report_outcome_def Let_def assms wait_status.case, rule refl) (simp_all add: upd_core_def)

text \<open>An execution without snapshots that ends with exit status 0.\<close>

lemma run_target_plain:
  assumes "runs s (run_target_count s) = r" "o_fork_ok r" "o_status_ok r" "o_status r = Exited 0"
    and "\<not> direct_exec s" "\<not> (use_snapshot (core s) \<and> can_snapshot_flag s)"
  shows "\<exists>s'. run_target t s = Some (if g_last_violation_detected s then FAULT_VIOLATION else FAULT_NONE, s') \<and>
    \<not> g_last_violation_detected s'"
proof -
  obtain s0 b where "run_target t s = Some (report_exit r t b s0)" "g_last_violation_detected s0 = g_last_violation_detected s"
    "\<not> direct_exec s0"
  proof -
    let ?s = "(fresh_trace (replicate MAP_SIZE 0) s)\<lparr>run_target_count := Suc (run_target_count s), backstep := 0\<rparr>"
    let ?t = "fresh_trace (o_trace r) (if use_net s then upd_core (take_response r) ?s else ?s)"
    have run: "run_target t s = Some (report_outcome r t ?t)"
      using assms by (auto simp: run_target_def Let_def fresh_trace_def upd_core_def)
    obtain s0 b where "report_outcome r t ?t = report_exit r t b s0" "g_last_violation_detected s0 = g_last_violation_detected ?t"
      "direct_exec s0 = direct_exec ?t"
      by (rule report_outcome_exit [OF assms(4)])
    then show ?thesis using that [of b s0] assms(5) by (simp add: run fresh_trace_def upd_core_def)
  qed
  then show ?thesis using report_exit_plain [OF assms(4)] by metis
qed

text \<open>A run of the target that the fork server answers has a result.\<close>

lemma run_target_total: "o_fork_ok (runs s (run_target_count s)) \<Longrightarrow> o_status_ok (runs s (run_target_count s)) \<Longrightarrow>
    \<exists>f s'. run_target t s = Some (f, s')"
  by (auto simp: run_target_def Let_def split: prod.splits)

lemma cal_loop_total:
  "\<forall>n. o_fork_ok (runs s n) \<and> o_status_ok (runs s n) \<Longrightarrow> \<exists>r. cal_loop q t c s = Some r"
proof (induction q t c s rule: cal_loop.induct)
  case (1 q t c s)
  obtain f s1 where run: "run_target t s = Some (f, s1)" using run_target_total 1(2) by blast
  have "runs s1 = runs s" using run_target_frame [OF run] by (simp add: frame_defs)
  moreover have "runs (snd (compare_trace q c' s1)) = runs s1" for c'
    using compare_trace_frame [of q c' s1] by (simp add: frame_defs)
  ultimately have ok: "\<forall>n. o_fork_ok (runs (snd (compare_trace q c' s1)) n) \<and> o_status_ok (runs (snd (compare_trace q c' s1)) n)" for c'
    using 1(2) by simp
  show ?case
    by (subst cal_loop.simps) (use 1(1) [OF _ run refl refl _ _ ok] in \<open>auto simp: run Let_def\<close>)
qed

text \<open>Writing the messages under a name and freeing it.\<close>

lemma save_result_ok:
  assumes "save_result fn s = Some s'" "chunks s fn = Some f"
  shows "chunks s' = (chunks s)(fn := None)"
    and "\<exists>content n. save_kl_messages_to_file (kl_messages (core s)) (case files (core s) f of None \<Rightarrow> [] | Some c \<Rightarrow> c)
           True (messages_sent (core s)) = Some (content, n) \<and> files (core s') = (files (core s))(f \<mapsto> content)"
    and "unique_crashes s' = unique_crashes s" "total_crashes s' = total_crashes s"
  using assms by (auto simp: save_result_def save_messages_def ck_free_name_def put_file_def upd_core_def split: Option.bind_splits option.splits)

lemma write_crash_readme_ok:
  assumes "write_crash_readme s = Some s'" "chunks s (next_chunk s) = None"
  shows "chunks s' = chunks s" "next_chunk s' = Suc (next_chunk s)" "unique_crashes s' = unique_crashes s"
    "total_crashes s' = total_crashes s" "kl_messages (core s') = kl_messages (core s)"
    "messages_sent (core s') = messages_sent (core s)"
  using assms
  by (auto simp: write_crash_readme_def alloc_printf_def create_excl_def ck_free_name_def put_file_def upd_core_def Let_def
      split: Option.bind_splits option.splits if_splits)

section \<open>Properties\<close>

text \<open>
  A fuzzer at its start, without forced crash or dumb mode; the target writes one bucket of the
  bitmap in every execution and exits normally, and the monitor reports a violation.
\<close>

definition sample_outcome :: outcome where
  "sample_outcome = \<lparr>o_fork_ok = True, o_m1_ok = True, o_dump_ok = True, o_restore_ok = True,
     o_trace_m1 = replicate MAP_SIZE 0, o_trace = (replicate MAP_SIZE 0)[5 := 1], o_slow_restore = False, o_status_ok = True,
     o_status = Exited 0, o_timed_out = False, o_ms = 3, o_sent = 1, o_response = ''220'', o_response_bytes = Some [3],
     o_arrivals = [[''VIOLATION_DETECTED'']]\<rparr>"

definition sample_fuzzer :: fuzzer where
  "sample_fuzzer = \<lparr>core = sample_afl, virgin_bits = replicate MAP_SIZE 0, virgin_tmout = replicate MAP_SIZE 0,
     virgin_crash = replicate MAP_SIZE 0, virgin_violations = replicate MAP_SIZE 0, bitmap_changed = False,
     var_bytes = replicate MAP_SIZE 0, var_byte_count = 0, count_class_lookup16 = [], crash_mode = FAULT_NONE,
     stop_soon = 0, uses_asan = False, direct_exec = False, fast_cal = False, resuming_fuzz = False, exec_tmout = 1000,
     hang_tmout = 1000, slowest_exec_ms = 0, kill_signal = 11, total_execs = 0, total_crashes = 0, total_tmouts = 0,
     total_violations = 0, unique_crashes = 0, unique_tmouts = 0, unique_hangs = 0, unique_violations = 0,
     last_hang_time = 0, last_crash_time = 0, last_crash_execs = 0, last_violation_time = 0, queued_with_cov = 0,
     queued_variable = 0, queued_discovered = 0, total_cal_us = 0, total_cal_cycles = 0, total_bitmap_size = 0,
     total_bitmap_entries = 0, subseq_tmouts = 0, cur_skipped_paths = 0, skip_requested = False, backstep = 0,
     backstep_count = 0, serious_err_count = 0, can_snapshot_flag = False, has_snapshot_flag = False,
     is_first_run_of_fuzz_one = False, trace_bits_m1 = replicate MAP_SIZE 0, use_net = True,
     g_monitor = Some \<lparr>eval_stdin = Some [], eval_stdout = Some [], eval_pid = 7, violation_detected = 0\<rparr>,
     monitor_pipe = [], g_last_violation_detected = False, syncing_party = None, syncing_case = 0, current_entry = 0,
     splicing_with = -1, stage_short = ''havoc'', stage_cur_byte = -1, stage_val_type = STAGE_VAL_NONE, stage_cur_val = 2,
     crash_readme = [], chunks = Map.empty, next_chunk = 0, clock = (\<lambda>n. of_nat (1000 * n)), clock_calls = 0,
     runs = (\<lambda>n. sample_outcome), run_target_count = 0\<rparr>"

lemma sample_reach: "fuzz_reach extract_response_codes_dicom extract_requests_dicom (setup_shm False sample_fuzzer)"
  by (rule fuzz_reach.start) (simp_all add: sample_fuzzer_def)

lemma setup_sample:
  "crash_mode (setup_shm False sample_fuzzer) = FAULT_NONE" "\<not> dumb_mode (core (setup_shm False sample_fuzzer))"
  "total_violations (setup_shm False sample_fuzzer) = 0"
  by (simp_all add: setup_shm_def upd_core_def sample_fuzzer_def sample_afl_def)

definition dumb_sample :: fuzzer where
  "dumb_sample = upd_core (\<lambda>c. c\<lparr>dumb_mode := True\<rparr>) (setup_shm False sample_fuzzer)"

lemma dumb_reach: "fuzz_reach extract_response_codes_dicom extract_requests_dicom dumb_sample"
  by (rule fuzz_reach.other [OF sample_reach]) (simp_all add: dumb_sample_def upd_core_def)

lemma dumb_sample_facts: "dumb_mode (core dumb_sample)" "crash_mode dumb_sample = FAULT_NONE" "total_violations dumb_sample = 0"
  using setup_sample by (simp_all add: dumb_sample_def upd_core_def)

lemma describe_op_counted [simp]: "describe_op hnb (s\<lparr>total_violations := n\<rparr>) = describe_op hnb s"
  by (cases s) (simp add: describe_op_def cong: option.case_cong)

lemma dumb_violation_written:
  assumes "describe_op 0 s = Some op"
    and "save_kl_messages_to_file (kl_messages (core s)) [] True (messages_sent (core s)) = Some (content, n)"
    and "files (core s) (violation_name ''/replayable-violations/id:'' (CHR '','' # op) s) = None"
    and "files (core s) (violation_name ''/violations/id:'' ('',sig:00,'' @ op) s) = None"
  shows "\<exists>s1 fn s2. write_violation_readme (s\<lparr>total_violations := total_violations s + 1\<rparr>) = Some s1 \<and> violation_files mem s1 = Some (fn, s2) \<and>
    files (core s2) (violation_name ''/replayable-violations/id:'' (CHR '','' # op) s) = Some content \<and>
    files (core s2) (violation_name ''/violations/id:'' ('',sig:00,'' @ op) s) = Some mem \<and> chunks s2 fn = None"
proof -
  let ?s = "s\<lparr>total_violations := total_violations s + 1\<rparr>"
  from write_violation_readme_total [of ?s 0] obtain s1 where r: "write_violation_readme ?s = Some s1"
    and same: "\<forall>f. f \<noteq> out_dir (core s) @ ''/replayable-violations/README.txt'' \<longrightarrow> files (core s1) f = files (core s) f"
    and k: "out_dir (core s1) = out_dir (core s)" "unique_violations s1 = unique_violations s" "describe_op 0 s1 = describe_op 0 ?s"
      "kl_messages (core s1) = kl_messages (core s)" "messages_sent (core s1) = messages_sent (core s)" by auto
  have op: "describe_op 0 s1 = Some op" using assms(1) k(3) by simp
  have name: "violation_name p q s1 = violation_name p q s" for p q using k(1,2) by (simp add: violation_name_def)
  have "files (core s1) (violation_name ''/replayable-violations/id:'' (CHR '','' # op) s1) = None"
    "files (core s1) (violation_name ''/violations/id:'' ('',sig:00,'' @ op) s1) = None"
    using same assms(3,4) unfolding name by (simp_all add: violation_name_def)
  from violation_files_written [OF op _ this, of content n mem] assms(2) k(4,5)
  obtain fn s2 where "violation_files mem s1 = Some (fn, s2)"
    "files (core s2) (violation_name ''/replayable-violations/id:'' (CHR '','' # op) s) = Some content"
    "files (core s2) (violation_name ''/violations/id:'' ('',sig:00,'' @ op) s) = Some mem" unfolding name by auto
  then show ?thesis using r violation_files_freed by blast
qed

text \<open>
  C3 (error): what becomes of the violations that the monitor finds. The map of violations is never
  set to 0xFF, so nothing is new to it: outside dumb mode the violation is counted and dropped, no
  file is written and no violation is ever counted as unique. In dumb mode, where this check is
  skipped, the fuzzer does not survive the violation: it writes the files of the violation, among
  them the messages and the mutated buffer (when it can, in particular no such file is there
  already), and then reads and frees the last of its file names, which is not live any more.
\<close>

theorem violations_lost:
  assumes "fuzz_reach codes requests s" "crash_mode s \<noteq> FAULT_VIOLATION"
  shows "if dumb_mode (core s)
    then save_if_interesting codes requests mem FAULT_VIOLATION s = None \<and>
      (\<forall>op content n. describe_op 0 s = Some op \<and>
        save_kl_messages_to_file (kl_messages (core s)) [] True (messages_sent (core s)) = Some (content, n) \<and>
        files (core s) (violation_name ''/replayable-violations/id:'' (CHR '','' # op) s) = None \<and>
        files (core s) (violation_name ''/violations/id:'' ('',sig:00,'' @ op) s) = None \<longrightarrow>
        (\<exists>s1 fn s2. write_violation_readme (s\<lparr>total_violations := total_violations s + 1\<rparr>) = Some s1 \<and> violation_files mem s1 = Some (fn, s2) \<and>
          files (core s2) (violation_name ''/replayable-violations/id:'' (CHR '','' # op) s) = Some content \<and>
          files (core s2) (violation_name ''/violations/id:'' ('',sig:00,'' @ op) s) = Some mem \<and> chunks s2 fn = None))
    else \<exists>s'. save_if_interesting codes requests mem FAULT_VIOLATION s = Some (False, s') \<and>
      files (core s') = files (core s) \<and> unique_violations s' = 0 \<and> total_violations s' = total_violations s + 1"
proof -
  have b: "virgin_violations s = replicate MAP_SIZE 0" "unique_violations s = 0"
    using fuzz_reach_books [OF assms(1)] by (auto simp: books_def)
  have run: "save_if_interesting codes requests mem FAULT_VIOLATION s = save_violation mem s \<bind> (\<lambda>s. Some (False, s))"
    using assms(2) by (simp add: save_if_interesting_def try_keep_def)
  show ?thesis
  proof (cases "dumb_mode (core s)")
    case True
    then have "save_violation mem s = None" using b(2) by (intro save_violation_dumb) (simp_all add: KEEP_UNIQUE_VIOLATIONS_def)
    then show ?thesis using True dumb_violation_written [of s _ _ _ mem] by (simp add: run)
  next
    case False
    then show ?thesis
      using save_violation_dropped [OF b(1) False] b by (simp add: run KEEP_UNIQUE_VIOLATIONS_def simplify_def upd_core_def)
  qed
qed

theorem violations_lost_witness:
  "(\<exists>s'. save_if_interesting extract_response_codes_dicom extract_requests_dicom ''a'' FAULT_VIOLATION (setup_shm False sample_fuzzer)
      = Some (False, s') \<and> total_violations s' = 1) \<and>
   (\<exists>op s1 fn s2. write_violation_readme (dumb_sample\<lparr>total_violations := 1\<rparr>) = Some s1 \<and> violation_files ''a'' s1 = Some (fn, s2) \<and>
     files (core s2) (violation_name ''/violations/id:'' op dumb_sample) = Some ''a'' \<and> chunks s2 fn = None)"
proof -
  have "\<exists>op. describe_op 0 dumb_sample = Some op"
    by (simp add: describe_op_def zpad_def udec.simps [of 0] udec.simps [of 2] dumb_sample_def setup_shm_def upd_core_def sample_fuzzer_def)
  moreover have "save_kl_messages_to_file (kl_messages (core dumb_sample)) [] True (messages_sent (core dumb_sample)) \<noteq> None"
    by (simp add: dumb_sample_def setup_shm_def upd_core_def sample_fuzzer_def sample_afl_def save_kl_messages_to_file_def mk_message_def Let_def MAX_ALLOC_def)
  moreover have "files (core dumb_sample) f = None" for f
    by (simp add: dumb_sample_def setup_shm_def upd_core_def sample_fuzzer_def sample_afl_def)
  ultimately have "\<exists>op s1 fn s2. write_violation_readme (dumb_sample\<lparr>total_violations := 1\<rparr>) = Some s1 \<and> violation_files ''a'' s1 = Some (fn, s2) \<and>
      files (core s2) (violation_name ''/violations/id:'' ('',sig:00,'' @ op) dumb_sample) = Some ''a'' \<and> chunks s2 fn = None"
    using violations_lost [OF dumb_reach, of "''a''"] by (auto simp: dumb_sample_facts) blast
  then show ?thesis using violations_lost [OF sample_reach, of "''a''"] setup_sample by (auto; blast)
qed

text \<open>
  C18 (functional): the violation is also reported a second time. The fuzzer notes it in a flag that
  only the next \<open>run_target\<close> reads, so an execution that ends normally right after a violating one,
  with the violation dropped as above, is taken for a violation as well; with the flag down the same
  execution has no fault.
\<close>

theorem violation_reported_again:
  assumes "fuzz_reach codes requests s" "crash_mode s \<noteq> FAULT_VIOLATION"
    and "ask_monitor arrivals FAULT_NONE s = (FAULT_VIOLATION, s1)"
    and "save_if_interesting codes requests mem FAULT_VIOLATION s1 = Some (keeping, s2)"
    and "runs s2 (run_target_count s2) = r" "o_fork_ok r" "o_status_ok r" "o_status r = Exited 0"
    and "\<not> direct_exec s2" "\<not> (use_snapshot (core s2) \<and> can_snapshot_flag s2)"
  shows "\<exists>s3 s4. run_target t s2 = Some (FAULT_VIOLATION, s3) \<and> \<not> g_last_violation_detected s3 \<and>
    run_target t (s2\<lparr>g_last_violation_detected := False\<rparr>) = Some (FAULT_NONE, s4)"
proof -
  have flag: "g_last_violation_detected s1" "crash_mode s1 = crash_mode s" "books s1 = books s"
    using assms(3) ask_monitor_books [OF assms(3)] by (auto simp: ask_monitor_def Let_def split: if_splits prod.splits)
  have b: "virgin_violations s1 = replicate MAP_SIZE 0" "unique_violations s1 = 0"
    using fuzz_reach_books [OF assms(1)] flag(3) by (auto simp: books_def)
  have sv: "save_violation mem s1 = Some s2"
    using assms(2,4) flag(2) by (auto simp: save_if_interesting_def try_keep_def split: Option.bind_splits)
  then have "\<not> dumb_mode (core s1)" using save_violation_dumb [of s1 mem] b by (auto simp: KEEP_UNIQUE_VIOLATIONS_def)
  then have "g_last_violation_detected s2"
    using save_violation_dropped [OF b(1)] sv flag(1) b(2) by (auto simp: KEEP_UNIQUE_VIOLATIONS_def simplify_def upd_core_def)
  then show ?thesis
    using run_target_plain [OF assms(5-10), of t]
      run_target_plain [of "s2\<lparr>g_last_violation_detected := False\<rparr>" r t] assms(5-10) by auto
qed

theorem violation_reported_again_witness:
  "\<exists>s1 s2 s3. ask_monitor [[''VIOLATION_DETECTED'']] FAULT_NONE (setup_shm False sample_fuzzer) = (FAULT_VIOLATION, s1) \<and>
     save_if_interesting extract_response_codes_dicom extract_requests_dicom ''a'' FAULT_VIOLATION s1 = Some (False, s2) \<and>
     run_target 1000 s2 = Some (FAULT_VIOLATION, s3)"
proof -
  let ?s = "setup_shm False sample_fuzzer"
  have drain: "drain [[''VIOLATION_DETECTED'']] [] [] 0 = (1, [], [])"
    by (simp add: drain.simps [of _ "[]"] arrived_def is_violation_def)
  define s1 where "s1 = ?s\<lparr>g_monitor := Some \<lparr>eval_stdin = Some [''__END_SESSION__''], eval_stdout = Some [], eval_pid = 7,
      violation_detected = 0\<rparr>, monitor_pipe := [], g_last_violation_detected := True\<rparr>"
  have 1: "ask_monitor [[''VIOLATION_DETECTED'']] FAULT_NONE ?s = (FAULT_VIOLATION, s1)"
    by (simp add: s1_def ask_monitor_def monitor_end_session_def monitor_check_violation_def monitor_clear_violation_def
        put_line_def drain setup_shm_def upd_core_def sample_fuzzer_def)
  have "save_violation ''a'' s1 = Some ((simplify s1)\<lparr>total_violations := total_violations s1 + 1\<rparr>)"
    by (rule save_violation_dropped)
       (simp_all add: s1_def setup_shm_def upd_core_def sample_fuzzer_def sample_afl_def KEEP_UNIQUE_VIOLATIONS_def)
  then have 2: "save_if_interesting extract_response_codes_dicom extract_requests_dicom ''a'' FAULT_VIOLATION s1
      = Some (False, (simplify s1)\<lparr>total_violations := total_violations s1 + 1\<rparr>)"
    by (simp add: save_if_interesting_def try_keep_def s1_def setup_sample)
  show ?thesis
    using violation_reported_again [OF sample_reach _ 1 2, where r = sample_outcome and t = 1000] 1 2
    by (simp add: s1_def setup_shm_def simplify_def upd_core_def sample_fuzzer_def sample_outcome_def sample_afl_def) blast
qed

text \<open>
  C21 (termination): calibration ends. As long as the fork server answers, \<open>calibrate_case\<close> returns
  after at least one and at most forty executions, whatever the target does, although the number of
  rounds grows while the loop runs.
\<close>

theorem calibration_ends:
  assumes "\<forall>n. o_fork_ok (runs s n) \<and> o_status_ok (runs s n)"
  shows "\<exists>f s'. calibrate_case q hc from_queue s = Some (f, s') \<and> run_target_count s < run_target_count s' \<and>
    run_target_count s' \<le> run_target_count s + 40"
proof -
  let ?s = "upd_core (upd_entry q (\<lambda>e. e\<lparr>cal_failed := (cal_failed e + 1) mod 256\<rparr>)) s"
  have "\<exists>r. cal_loop q t c (?s\<lparr>clock_calls := n\<rparr>) = Some r" for t c n
    by (rule cal_loop_total) (use assms in \<open>simp add: upd_core_def\<close>)
  then have loop: "cal_loop q t c (?s\<lparr>clock_calls := n\<rparr>) \<noteq> None" for t c n by blast
  have "calibrate_case q hc from_queue s \<noteq> None"
    unfolding calibrate_case_def get_cur_time_us_def Let_def prod.case
    by (split option.split) (use loop in auto)
  then obtain f s' where r: "calibrate_case q hc from_queue s = Some (f, s')" by auto
  then show ?thesis using calibrate_case_frame(2,3) [OF r] by (auto simp: CAL_CYCLES_LONG_def)
qed

theorem calibration_ends_witness:
  "\<exists>f s'. calibrate_case 0 0 True sample_fuzzer = Some (f, s') \<and> run_target_count s' \<le> 40"
  using calibration_ends [of sample_fuzzer 0 0 True] by (auto simp: sample_fuzzer_def sample_outcome_def)


definition crashed_sample :: fuzzer where
  "crashed_sample = sample_fuzzer\<lparr>unique_crashes := 3, core := sample_afl\<lparr>dumb_mode := True\<rparr>\<rparr>"


end
