(* ===== verification/Klist.thy ===== *)
theory Klist
  imports Aflnet_Messages
begin

text \<open>
  The linked list of messages (\<open>klist.h\<close>) as nodes in memory, and the part of \<open>common_fuzz_stuff\<close>
  that exchanges the mutated messages M2 in it: the new messages are pushed at the end, cut off,
  linked in between M1 and M3, and the old ones go back to the memory pool. A node is its address;
  a pointer is an address or \<^const>\<open>None\<close> for \<open>NULL\<close>. Reading through \<open>NULL\<close> has the result
  \<^const>\<open>None\<close>. The last node is the tail, which holds no message.
\<close>

section \<open>Lists in memory\<close>

record klist =
  kl_head :: nat
  kl_tail :: nat
  kl_next :: "nat \<Rightarrow> nat option"
  kl_val :: "nat \<Rightarrow> message_t"
  kl_size :: nat
  mp_buf :: "nat list"
  heap_end :: nat

text \<open>The pool hands out the node it got last; when it has none, memory is new.\<close>

definition kmp_alloc :: "klist \<Rightarrow> nat \<times> klist" where
  "kmp_alloc kl =
     (if mp_buf kl = []
      then (heap_end kl, kl\<lparr>heap_end := Suc (heap_end kl), kl_next := (kl_next kl)(heap_end kl := None)\<rparr>)
      else (last (mp_buf kl), kl\<lparr>mp_buf := butlast (mp_buf kl)\<rparr>))"

definition kmp_free :: "nat \<Rightarrow> klist \<Rightarrow> klist" where
  "kmp_free p kl = kl\<lparr>mp_buf := mp_buf kl @ [p]\<rparr>"

definition kl_pushp :: "message_t \<Rightarrow> klist \<Rightarrow> klist" where
  "kl_pushp m kl =
     (let (p, kl) = kmp_alloc kl; q = kl_tail kl
      in kl\<lparr>kl_next := (kl_next kl)(p := None, q := Some p), kl_tail := p, kl_size := Suc (kl_size kl),
            kl_val := (kl_val kl)(q := m)\<rparr>)"

text \<open>\<open>get_last_message\<close>: on a list without messages it runs past the tail.\<close>

partial_function (option) last_node :: "klist \<Rightarrow> nat \<Rightarrow> nat option" where
  "last_node kl it =
     (case kl_next kl it of
        None \<Rightarrow> None
      | Some n \<Rightarrow> if n = kl_tail kl then Some it else last_node kl n)"

section \<open>Exchanging M2\<close>

text \<open>Pushing the messages; \<open>M2_next\<close> follows the tail when it points to it.\<close>

fun push_messages :: "message_t list \<Rightarrow> nat \<times> klist \<Rightarrow> nat \<times> klist" where
  "push_messages [] c = c"
| "push_messages (m # ms) (M2_next, kl) =
     (let kl = kl_pushp m kl
      in push_messages ms (if kl_next kl M2_next = Some (kl_tail kl) then kl_tail kl else M2_next, kl))"

text \<open>The \<open>do\<close> loop that frees the old messages.\<close>

partial_function (option) free_messages :: "nat \<Rightarrow> nat option \<Rightarrow> nat \<Rightarrow> klist \<Rightarrow> klist option" where
  "free_messages cur_it next_it M2_next kl =
     (let kl = (kmp_free cur_it kl)\<lparr>kl_size := kl_size kl - 1\<rparr>
      in case next_it of
           None \<Rightarrow> None
         | Some it \<Rightarrow> if it \<noteq> M2_next then free_messages it (kl_next kl it) M2_next kl else Some kl)"

definition exchange_M2 :: "message_t list \<Rightarrow> nat option \<Rightarrow> nat \<Rightarrow> klist \<Rightarrow> (nat \<times> klist) option" where
  "exchange_M2 new M2_prev M2_next kl = do {
     prev_last \<leftarrow> last_node kl (kl_head kl);
     let (M2_next, kl) = push_messages new (M2_next, kl);
     cur_last \<leftarrow> last_node kl (kl_head kl);
     first_new \<leftarrow> kl_next kl prev_last;
     (old_M2_start, kl) \<leftarrow> (case M2_prev of
         None \<Rightarrow> Some (kl_head kl, kl\<lparr>kl_head := first_new\<rparr>)
       | Some p \<Rightarrow> do {
           old \<leftarrow> kl_next kl p;
           Some (old, kl\<lparr>kl_next := (kl_next kl)(p := Some first_new)\<rparr>)
         });
     let kl = kl\<lparr>kl_next := (kl_next kl)(cur_last := Some M2_next, prev_last := Some (kl_tail kl))\<rparr>;
     kl \<leftarrow> free_messages old_M2_start (kl_next kl old_M2_start) M2_next kl;
     Some (M2_next, kl)
   }"

section \<open>Abstraction\<close>

primrec chain :: "(nat \<Rightarrow> nat option) \<Rightarrow> nat option \<Rightarrow> nat list \<Rightarrow> nat option \<Rightarrow> bool" where
  "chain h x [] y \<longleftrightarrow> x = y"
| "chain h x (p # ps) y \<longleftrightarrow> x = Some p \<and> chain h (h p) ps y"

text \<open>The list has the nodes \<open>ps\<close> with the messages \<open>ms\<close>; the tail and the pool are apart.\<close>

definition kl_holds :: "klist \<Rightarrow> nat list \<Rightarrow> message_t list \<Rightarrow> bool" where
  "kl_holds kl ps ms \<longleftrightarrow> chain (kl_next kl) (Some (kl_head kl)) ps (Some (kl_tail kl)) \<and> kl_next kl (kl_tail kl) = None \<and>
     distinct (ps @ kl_tail kl # mp_buf kl) \<and> (\<forall>p \<in> set (ps @ kl_tail kl # mp_buf kl). p < heap_end kl) \<and>
     map (kl_val kl) ps = ms \<and> kl_size kl = length ms"

lemma chain_append [simp]: "chain h x (ps @ qs) z \<longleftrightarrow> (\<exists>y. chain h x ps y \<and> chain h y qs z)"
  by (induction ps arbitrary: x) auto

lemma chain_upd [simp]: "p \<notin> set ps \<Longrightarrow> chain (h(p := v)) x ps y = chain h x ps y"
  by (induction ps arbitrary: x) auto

lemma chain_hd: "chain h x ps (Some t) \<Longrightarrow> x = Some (hd (ps @ [t]))"
  by (cases ps) auto

lemma chain_fun: "chain h x ps y \<Longrightarrow> chain h x ps z \<Longrightarrow> y = z"
  by (induction ps arbitrary: x) auto

text \<open>The pointer out of the last node.\<close>

lemma chain_last: "ps \<noteq> [] \<Longrightarrow> chain h x ps y \<Longrightarrow> h (last ps) = y"
  by (induction ps arbitrary: x) (auto split: if_splits)

lemma chain_snoc_upd:
  assumes "chain h x ps y" "ps \<noteq> []" "distinct ps"
  shows "chain (h(last ps := z)) x ps z"
proof -
  obtain qs q where "ps = qs @ [q]" using assms(2) by (metis append_butlast_last_id)
  then show ?thesis using assms by auto
qed

lemma chain_succ: "chain h x ps (Some t) \<Longrightarrow> p \<in> set ps \<Longrightarrow> \<exists>q. h p = Some q \<and> q \<in> set ps \<union> {t}"
proof (induction ps arbitrary: x)
  case (Cons a ps)
  then show ?case by (cases ps) auto
qed simp

section \<open>The operations\<close>

lemma last_node_chain:
  "chain (kl_next kl) (Some it) ps (Some (kl_tail kl)) \<Longrightarrow> ps \<noteq> [] \<Longrightarrow> kl_tail kl \<notin> set ps \<Longrightarrow>
    last_node kl it = Some (last ps)"
proof (induction ps arbitrary: it)
  case (Cons p ps)
  then have it: "it = p" by simp
  show ?case
  proof (cases ps)
    case Nil
    then show ?thesis using Cons.prems it by (subst last_node.simps) simp
  next
    case (Cons q qs)
    then have "kl_next kl p = Some q" "q \<noteq> kl_tail kl" using Cons.prems(1,3) by auto
    moreover have "last_node kl q = Some (last ps)"
      using Cons.IH [of q] Cons.prems \<open>kl_next kl p = Some q\<close> Cons by simp
    ultimately show ?thesis using it Cons by (subst last_node.simps) simp
  qed
qed simp

lemma free_messages_chain:
  "chain (kl_next kl) (Some cur_it) ps (Some M2_next) \<Longrightarrow> ps \<noteq> [] \<Longrightarrow> M2_next \<notin> set ps \<Longrightarrow>
    free_messages cur_it (kl_next kl cur_it) M2_next kl =
      Some (kl\<lparr>mp_buf := mp_buf kl @ ps, kl_size := kl_size kl - length ps\<rparr>)"
proof (induction ps arbitrary: cur_it kl)
  case (Cons p ps)
  then have p: "cur_it = p" by simp
  show ?case
  proof (cases ps)
    case Nil
    then show ?thesis using Cons.prems p by (subst free_messages.simps) (simp add: kmp_free_def)
  next
    case (Cons q qs)
    let ?kl = "(kmp_free p kl)\<lparr>kl_size := kl_size kl - 1\<rparr>"
    have q: "kl_next kl p = Some q" "q \<noteq> M2_next" using Cons.prems(1,3) Cons by auto
    have "free_messages q (kl_next ?kl q) M2_next ?kl =
        Some (?kl\<lparr>mp_buf := mp_buf ?kl @ ps, kl_size := kl_size ?kl - length ps\<rparr>)"
      by (rule Cons.IH) (use Cons.prems q Cons in \<open>auto simp: kmp_free_def\<close>)
    then show ?thesis using q p by (subst free_messages.simps) (simp add: kmp_free_def)
  qed
qed simp

lemma kmp_alloc_fresh:
  assumes "kl_holds kl ps ms" "kmp_alloc kl = (p, kl')"
  shows "p \<notin> set ps" "p \<noteq> kl_tail kl" "p \<notin> set (mp_buf kl')" "set (mp_buf kl') \<subseteq> set (mp_buf kl)" "distinct (mp_buf kl')"
    "p < heap_end kl'" "heap_end kl \<le> heap_end kl'"
    "kl_head kl' = kl_head kl" "kl_tail kl' = kl_tail kl" "kl_val kl' = kl_val kl" "kl_size kl' = kl_size kl"
    "(kl_next kl')(p := None, q := r) = (kl_next kl)(p := None, q := r)"
proof -
  have d: "distinct (ps @ kl_tail kl # mp_buf kl)" "\<forall>p \<in> set (ps @ kl_tail kl # mp_buf kl). p < heap_end kl"
    using assms(1) by (auto simp: kl_holds_def)
  have "p \<notin> set ps \<and> p \<noteq> kl_tail kl \<and> p \<notin> set (mp_buf kl') \<and> set (mp_buf kl') \<subseteq> set (mp_buf kl) \<and> distinct (mp_buf kl') \<and>
      p < heap_end kl' \<and> heap_end kl \<le> heap_end kl'"
  proof (cases "mp_buf kl = []")
    case True
    then show ?thesis using assms(2) d by (auto simp: kmp_alloc_def)
  next
    case False
    then obtain qs q where "mp_buf kl = qs @ [q]" by (metis append_butlast_last_id)
    then show ?thesis using assms(2) d by (auto simp: kmp_alloc_def)
  qed
  then show "p \<notin> set ps" "p \<noteq> kl_tail kl" "p \<notin> set (mp_buf kl')" "set (mp_buf kl') \<subseteq> set (mp_buf kl)" "distinct (mp_buf kl')"
    "p < heap_end kl'" "heap_end kl \<le> heap_end kl'"
    by auto
  show "kl_head kl' = kl_head kl" "kl_tail kl' = kl_tail kl" "kl_val kl' = kl_val kl" "kl_size kl' = kl_size kl"
    "(kl_next kl')(p := None, q := r) = (kl_next kl)(p := None, q := r)"
    using assms(2) by (auto simp: kmp_alloc_def split: if_splits)
qed

lemma kl_pushp_holds:
  assumes "kl_holds kl ps ms"
  shows "kl_holds (kl_pushp m kl) (ps @ [kl_tail kl]) (ms @ [m])"
    and "p \<in> set ps \<Longrightarrow> kl_next (kl_pushp m kl) p \<noteq> Some (kl_tail (kl_pushp m kl))"
    and "kl_next (kl_pushp m kl) (kl_tail kl) = Some (kl_tail (kl_pushp m kl))"
proof -
  obtain a kl1 where al: "kmp_alloc kl = (a, kl1)" by (cases "kmp_alloc kl")
  note f = kmp_alloc_fresh [OF assms al]
  have h: "chain (kl_next kl) (Some (kl_head kl)) ps (Some (kl_tail kl))" "kl_tail kl \<notin> set ps" "distinct ps"
    "\<forall>p \<in> set (ps @ kl_tail kl # mp_buf kl). p < heap_end kl" "kl_tail kl \<notin> set (mp_buf kl)" "set ps \<inter> set (mp_buf kl) = {}"
    "map (kl_val kl) ps = ms" "kl_size kl = length ms"
    using assms by (auto simp: kl_holds_def)
  have e: "kl_pushp m kl = kl1\<lparr>kl_next := (kl_next kl)(a := None, kl_tail kl := Some a), kl_tail := a,
      kl_size := Suc (kl_size kl), kl_val := (kl_val kl)(kl_tail kl := m)\<rparr>"
    using f by (simp add: kl_pushp_def al Let_def)
  show "kl_holds (kl_pushp m kl) (ps @ [kl_tail kl]) (ms @ [m])"
  proof -
    have "p < heap_end kl1" if "p \<in> set (ps @ [kl_tail kl]) \<union> set (mp_buf kl1)" for p
      using h(4) f(4,7) that by (intro less_le_trans [OF _ f(7)]) auto
    then show ?thesis using h f by (auto simp: kl_holds_def e)
  qed
  show "kl_next (kl_pushp m kl) (kl_tail kl) = Some (kl_tail (kl_pushp m kl))" by (simp add: e)
  show "kl_next (kl_pushp m kl) p \<noteq> Some (kl_tail (kl_pushp m kl))" if "p \<in> set ps"
    using chain_succ [OF h(1) that] f(1,2) h(2) that by (auto simp: e)
qed

lemma push_messages_holds:
  "kl_holds kl ps ms \<Longrightarrow> M2_next \<in> set ps \<union> {kl_tail kl} \<Longrightarrow>
    \<exists>qs kl'. push_messages new (M2_next, kl) = (if M2_next = kl_tail kl then kl_tail kl' else M2_next, kl') \<and>
      kl_holds kl' (ps @ qs) (ms @ new) \<and> length qs = length new"
proof (induction new arbitrary: kl ps ms M2_next)
  case (Cons m new)
  let ?kl = "kl_pushp m kl" and ?M = "if M2_next = kl_tail kl then kl_tail (kl_pushp m kl) else M2_next"
  note push = kl_pushp_holds [OF Cons.prems(1)]
  have M: "(if kl_next ?kl M2_next = Some (kl_tail ?kl) then kl_tail ?kl else M2_next) = ?M"
    using push(2) [of M2_next m] push(3) [of m] Cons.prems(2) by auto
  have "?M \<in> set (ps @ [kl_tail kl]) \<union> {kl_tail ?kl}" using Cons.prems(2) by auto
  from Cons.IH [OF push(1) this] obtain qs kl' where
    ih: "push_messages new (?M, ?kl) = (if ?M = kl_tail ?kl then kl_tail kl' else ?M, kl')"
      "kl_holds kl' ((ps @ [kl_tail kl]) @ qs) ((ms @ [m]) @ new)" "length qs = length new"
    by blast
  have "M2_next \<noteq> kl_tail ?kl" if "M2_next \<noteq> kl_tail kl"
    using push(1) [of m] Cons.prems(2) that by (auto simp: kl_holds_def)
  then have "push_messages (m # new) (M2_next, kl) = (if M2_next = kl_tail kl then kl_tail kl' else M2_next, kl')"
    using ih(1) M by (auto simp: Let_def)
  then show ?case using ih(2,3) by (intro exI [of _ "kl_tail kl # qs"] exI [of _ kl']) simp
qed simp

text \<open>The pointers after the exchange, as far as the lists go.\<close>

lemma relink_chains:
  assumes d: "distinct (p1 @ p2 @ p3 @ qs @ [t])" and ne: "p2 \<noteq> []" "qs \<noteq> []"
    and c: "chain h (Some a) (p1 @ p2 @ p3 @ qs) (Some t)"
    and g: "g = (if p1 = [] then h else h(last p1 := Some (hd qs)))"
    and h': "h' = g(last qs := Some (hd (p3 @ [t])), last (p1 @ p2 @ p3) := Some t)"
  shows "chain h' (Some (hd (p1 @ qs))) (p1 @ qs @ p3) (Some t)" and "chain h' (Some (hd p2)) p2 (Some (hd (p3 @ [t])))"
    and "h' t = h t" and "h (last (p1 @ p2 @ p3)) = Some (hd qs)" and "a = hd (p1 @ p2)" and "p1 \<noteq> [] \<Longrightarrow> h (last p1) = Some (hd p2)"
proof -
  have lasts: "last qs \<in> set qs" "last (p2 @ p3) \<in> set (p2 @ p3)" "last (p1 @ p2 @ p3) = last (p2 @ p3)"
    "p1 \<noteq> [] \<Longrightarrow> last p1 \<in> set p1"
    using ne last_in_set [of qs] last_in_set [of "p2 @ p3"] last_in_set [of p1] by simp_all
  obtain x1 x2 x3 where cs: "chain h (Some a) p1 x1" "chain h x1 p2 x2" "chain h x2 p3 x3" "chain h x3 qs (Some t)"
    using c by auto
  have x3: "x3 = Some (hd qs)" using chain_hd [OF cs(4)] ne by simp
  have x2: "x2 = Some (hd (p3 @ [hd qs]))" using chain_hd [OF cs(3) [unfolded x3]] .
  have x1: "x1 = Some (hd p2)" using chain_hd [OF cs(2) [unfolded x2]] ne by simp
  show "a = hd (p1 @ p2)" using chain_hd [OF cs(1) [unfolded x1]] ne by (cases p1) auto
  show lastp1: "h (last p1) = Some (hd p2)" if "p1 \<noteq> []" using chain_last [OF that cs(1)] x1 by simp
  show "h (last (p1 @ p2 @ p3)) = Some (hd qs)"
    using chain_last [of "p1 @ p2 @ p3" h "Some a" "Some (hd qs)"] cs x3 ne by auto
  have "t \<notin> set (p1 @ p2 @ p3 @ qs)" using d by auto
  then show "h' t = h t" using lasts ne by (auto simp: h' g simp del: last_append)
  have one: "chain h' (Some (hd (p1 @ qs))) p1 (Some (hd qs))"
  proof (cases "p1 = []")
    case False
    then have "chain g (Some a) p1 (Some (hd qs))" using chain_snoc_upd [OF cs(1) False] d g by auto
    moreover have "last qs \<notin> set p1" "last (p1 @ p2 @ p3) \<notin> set p1" using d lasts by auto
    ultimately have "chain h' (Some a) p1 (Some (hd qs))" unfolding h' by simp
    moreover have "a = hd p1" using cs(1) False by (cases p1) auto
    ultimately show ?thesis using False by simp
  qed simp
  have gq: "chain g (Some (hd qs)) qs (Some t)" "chain g x2 p3 x3" "chain g x1 p2 x2"
  proof -
    have "last p1 \<notin> set qs \<union> set p3 \<union> set p2" if "p1 \<noteq> []" using lasts(4) [OF that] d by auto
    then show "chain g (Some (hd qs)) qs (Some t)" "chain g x2 p3 x3" "chain g x1 p2 x2" using cs x3 by (auto simp: g)
  qed
  have "last (p1 @ p2 @ p3) \<notin> set qs" using d lasts by (metis Int_iff append_assoc distinct_append emptyE)
  then have two: "chain h' (Some (hd qs)) qs (Some (hd (p3 @ [t])))"
    using chain_snoc_upd [OF gq(1) ne(2)] d by (simp add: h')
  have lq: "last qs \<notin> set p2" "last qs \<notin> set p3" using d lasts(1) by auto
  have three: "chain h' (Some (hd (p3 @ [t]))) p3 (Some t)"
  proof (cases "p3 = []")
    case False
    then have "x2 = Some (hd p3)" "last (p1 @ p2 @ p3) = last p3" using x2 by auto
    moreover have "chain (g(last qs := Some (hd (p3 @ [t])))) x2 p3 x3" using gq(2) lq by simp
    ultimately show ?thesis using chain_snoc_upd False d unfolding h' by fastforce
  qed simp
  show "chain h' (Some (hd (p1 @ qs))) (p1 @ qs @ p3) (Some t)" using one two three by auto
  show "chain h' (Some (hd p2)) p2 (Some (hd (p3 @ [t])))"
  proof (cases "p3 = []")
    case True
    have "chain (g(last qs := Some (hd (p3 @ [t])))) x1 p2 x2" using gq(3) lq by simp
    then show ?thesis using chain_snoc_upd [OF _ ne(1)] True d x1 ne unfolding h' by fastforce
  next
    case False
    then have "last (p1 @ p2 @ p3) \<notin> set p2" using d by auto
    then show ?thesis using gq(3) lq x1 x2 False by (simp add: h')
  qed
qed

section \<open>Properties\<close>

text \<open>
  C4 (refinement): on a list whose nodes hold M1, M2 and M3, with \<open>M2_prev\<close> at the end of M1 and
  \<open>M2_next\<close> at the start of M3 or at the tail, the exchange reads no \<open>NULL\<close> pointer and ends; the
  list then holds M1, the new messages and M3, the nodes of the old M2 are in the pool, and the two
  pointers are right for the next exchange.
\<close>

theorem exchange_M2_refines:
  assumes "kl_holds kl (p1 @ p2 @ p3) (m1 @ m2 @ m3)" "length p1 = length m1" "length p2 = length m2" "m2 \<noteq> []" "new \<noteq> []"
    and "M2_prev = (if p1 = [] then None else Some (last p1))" "M2_next = hd (p3 @ [kl_tail kl])"
  shows "\<exists>kl' qs. exchange_M2 new M2_prev M2_next kl = Some (hd (p3 @ [kl_tail kl']), kl') \<and>
    kl_holds kl' (p1 @ qs @ p3) (m1 @ new @ m3) \<and> length qs = length new \<and> set p2 \<subseteq> set (mp_buf kl')"
proof -
  let ?ps = "p1 @ p2 @ p3"
  have p2: "p2 \<noteq> []" using assms(3,4) by auto
  have h: "chain (kl_next kl) (Some (kl_head kl)) ?ps (Some (kl_tail kl))" "kl_tail kl \<notin> set ?ps"
    using assms(1) by (simp add: kl_holds_def, simp add: kl_holds_def)
  have prev: "last_node kl (kl_head kl) = Some (last ?ps)" by (rule last_node_chain [OF h(1) _ h(2)]) (use p2 in simp)
  have "M2_next \<in> set ?ps \<union> {kl_tail kl}" using assms(7) by (cases p3) auto
  from push_messages_holds [OF assms(1) this, of new] obtain qs kl1 where
    push: "push_messages new (M2_next, kl) = (if M2_next = kl_tail kl then kl_tail kl1 else M2_next, kl1)"
    and h1: "kl_holds kl1 (?ps @ qs) ((m1 @ m2 @ m3) @ new)" and qs: "length qs = length new"
    by blast
  have ne: "qs \<noteq> []" using qs assms(5) by auto
  let ?t = "kl_tail kl1"
  let ?M = "hd (p3 @ [?t])"
  have M: "(if M2_next = kl_tail kl then ?t else M2_next) = ?M" using assms(7) h(2) by (cases p3) auto
  have c1: "chain (kl_next kl1) (Some (kl_head kl1)) (p1 @ p2 @ p3 @ qs) (Some ?t)" "kl_next kl1 ?t = None"
    "distinct (?ps @ qs @ ?t # mp_buf kl1)" "\<forall>p \<in> set (?ps @ qs @ ?t # mp_buf kl1). p < heap_end kl1"
    "map (kl_val kl1) (?ps @ qs) = (m1 @ m2 @ m3) @ new" "kl_size kl1 = length ((m1 @ m2 @ m3) @ new)"
    using h1 by (auto simp: kl_holds_def)
  have d1: "distinct (p1 @ p2 @ p3 @ qs @ [?t])" using c1(3) by auto
  have cur: "last_node kl1 (kl_head kl1) = Some (last qs)"
    using last_node_chain [OF c1(1)] d1 ne by auto
  define g where "g = (if p1 = [] then kl_next kl1 else (kl_next kl1)(last p1 := Some (hd qs)))"
  define h' where "h' = g(last qs := Some ?M, last ?ps := Some ?t)"
  note r = relink_chains [OF d1 p2 ne c1(1) g_def h'_def]
  define kl2 where "kl2 = kl1\<lparr>kl_head := hd (p1 @ qs), kl_next := h'\<rparr>"
  have tp2: "?M \<notin> set p2" using d1 by (cases p3) auto
  have free: "free_messages (hd p2) (kl_next kl2 (hd p2)) ?M kl2 =
      Some (kl2\<lparr>mp_buf := mp_buf kl2 @ p2, kl_size := kl_size kl2 - length p2\<rparr>)"
    by (rule free_messages_chain [OF _ p2 tp2]) (use r(2) in \<open>simp add: kl2_def\<close>)
  have run: "exchange_M2 new M2_prev M2_next kl = Some (?M, kl2\<lparr>mp_buf := mp_buf kl2 @ p2, kl_size := kl_size kl2 - length p2\<rparr>)"
  proof (cases "p1 = []")
    case True
    then have "kl1\<lparr>kl_head := hd qs, kl_next := (kl_next kl1)(last qs := Some ?M, last (p2 @ p3) := Some ?t)\<rparr> = kl2"
      by (simp add: kl2_def h'_def g_def)
    moreover have "(kl_next kl1)(last qs := Some ?M, last (p2 @ p3) := Some ?t) = kl_next kl2"
      using True by (simp add: kl2_def h'_def g_def)
    moreover have "last_node kl1 (hd p2) = Some (last qs)" using cur r(5) True by simp
    ultimately show ?thesis using free r(4,5) True p2 by (simp add: exchange_M2_def prev push M assms(6) del: fun_upd_apply)
  next
    case False
    then have "kl_head kl1 = hd (p1 @ qs)" using r(5) by simp
    then have "kl1\<lparr>kl_next := ((kl_next kl1)(last p1 := Some (hd qs)))(last qs := Some ?M, last (p2 @ p3) := Some ?t)\<rparr> = kl2"
      using False p2 by (simp add: kl2_def h'_def g_def)
    moreover have "((kl_next kl1)(last p1 := Some (hd qs)))(last qs := Some ?M, last (p2 @ p3) := Some ?t) = kl_next kl2"
      using False p2 by (simp add: kl2_def h'_def g_def)
    ultimately show ?thesis using free r(4,6) False p2 by (simp add: exchange_M2_def prev push M cur assms(6) del: fun_upd_apply)
  qed
  have vals: "map (kl_val kl1) p1 = m1" "map (kl_val kl1) p3 = m3" "map (kl_val kl1) qs = new"
  proof -
    let ?f = "map (kl_val kl1)"
    have "?f p1 @ (?f p2 @ ?f p3 @ ?f qs) = m1 @ (m2 @ m3 @ new)" using c1(5) by simp
    then have 1: "?f p1 = m1 \<and> ?f p2 @ ?f p3 @ ?f qs = m2 @ m3 @ new"
      by (rule append_eq_append_conv [THEN iffD1, OF disjI1, rotated]) (use assms(2) in simp)
    then have "?f p2 = m2 \<and> ?f p3 @ ?f qs = m3 @ new"
      by (intro append_eq_append_conv [THEN iffD1, OF disjI1]) (use assms(3) in simp_all)
    then have "?f p3 = m3 \<and> ?f qs = new"
      by (intro append_eq_append_conv [THEN iffD1, OF disjI2]) (use qs in simp_all)
    with 1 show "?f p1 = m1" "?f p3 = m3" "?f qs = new" by blast+
  qed
  have len: "length p1 = length m1" "length p2 = length m2" "length p3 = length m3" using vals assms(2,3) by auto
  let ?kl = "kl2\<lparr>mp_buf := mp_buf kl2 @ p2, kl_size := kl_size kl2 - length p2\<rparr>"
  have "distinct ((p1 @ qs @ p3) @ ?t # mp_buf kl1 @ p2)" "\<forall>p \<in> set ((p1 @ qs @ p3) @ ?t # mp_buf kl1 @ p2). p < heap_end kl1"
    using c1(3,4) by auto
  moreover have "h' ?t = None" using r(3) c1(2) by simp
  moreover have "map (kl_val kl1) (p1 @ qs @ p3) = m1 @ new @ m3" "kl_size kl1 - length p2 = length (m1 @ new @ m3)"
    using vals c1(6) len by simp_all
  ultimately have "kl_holds ?kl (p1 @ qs @ p3) (m1 @ new @ m3)"
    unfolding kl_holds_def kl2_def using r(1) by simp
  moreover have "kl_tail ?kl = ?t" "set p2 \<subseteq> set (mp_buf ?kl)" by (simp_all add: kl2_def)
  ultimately show ?thesis using run qs by (intro exI [of _ ?kl] exI [of _ qs]) simp
qed

text \<open>Three messages in the nodes 0 to 2; the tail is node 3. The middle one is exchanged for two.\<close>

definition sample_klist :: klist where
  "sample_klist = \<lparr>kl_head = 0, kl_tail = 3, kl_next = (\<lambda>p. if p < 3 then Some (Suc p) else None),
     kl_val = (\<lambda>p. mk_message (if p = 0 then ''USER'' else if p = 1 then ''PASS'' else ''QUIT'')), kl_size = 3,
     mp_buf = [], heap_end = 4\<rparr>"

theorem exchange_M2_refines_witness:
  "\<exists>kl' qs. exchange_M2 [mk_message ''a'', mk_message ''b''] (Some 0) 2 sample_klist = Some (2, kl') \<and>
     kl_holds kl' ([0] @ qs @ [2]) [mk_message ''USER'', mk_message ''a'', mk_message ''b'', mk_message ''QUIT'']"
proof -
  have "kl_holds sample_klist ([0] @ [1] @ [2]) ([mk_message ''USER''] @ [mk_message ''PASS''] @ [mk_message ''QUIT''])"
    by (simp add: kl_holds_def sample_klist_def)
  from exchange_M2_refines [OF this, of "[mk_message ''a'', mk_message ''b'']" "Some 0" 2] show ?thesis by auto
qed

end
