(* ===== verification/Afl_M2.thy ===== *)
theory Afl_M2
  imports Afl_Save Klist
begin

text \<open>
  The parts of \<open>fuzz_one\<close> around its mutation stages, and \<open>common_fuzz_stuff\<close>: whether to skip an
  entry, which of its messages are the part M2 that is mutated, the message list and the buffer made
  from it, a test case run with the mutated buffer, and the end of the work on an entry. The list
  of messages is a plain list here; \<open>Klist\<close> shows that exchanging M2 in the linked list does the
  same. \<open>region_favor\<close> is the floating point score of a region.
\<close>

section \<open>Skipping\<close>

text \<open>The result says that the entry is skipped; \<open>queued_paths\<close> is the length of the queue.\<close>

definition skip_entry :: "afl \<Rightarrow> (bool \<times> afl) option" where
  "skip_entry c =
     (let e = queue c ! queue_cur c in
      if state_aware_mode c then Some (False, c)
      else if pending_favored c \<noteq> 0
      then if was_fuzzed e \<or> \<not> favored e
           then map_option (\<lambda>(r, c). (r < 99, c)) (UR 100 c) else Some (False, c)
      else if \<not> dumb_mode c \<and> \<not> favored e \<and> length (queue c) > 10
      then map_option (\<lambda>(r, c). (r < (if queue_cycle c > 1 \<and> \<not> was_fuzzed e then 75 else 95), c)) (UR 100 c)
      else Some (False, c))"

section \<open>Choosing M2\<close>

text \<open>The first region of M2 and the number of its regions, or an early return.\<close>

datatype m2_choice = Skip | M2 nat nat

text \<open>The last state of an annotated region.\<close>

definition reachableStateID :: "region_t \<Rightarrow> u32 option" where
  "reachableStateID r = do {
     seq \<leftarrow> state_sequence r;
     (if 0 < state_count r \<and> state_count r \<le> length seq then Some (seq ! (state_count r - 1)) else None)
   }"

definition same_count :: "region_t list \<Rightarrow> nat \<Rightarrow> nat" where
  "same_count rs a = length (takeWhile (\<lambda>r. state_count r = state_count (rs ! a)) (drop a rs))"

text \<open>AFLNet's own choice: the region after the first one that reaches the target state.\<close>

fun start_loop :: "u32 \<Rightarrow> region_t list \<Rightarrow> nat \<Rightarrow> nat option option" where
  "start_loop target [] a = Some (Some a)"
| "start_loop target (r # rs) a =
     (if state_count r > 0
      then do {
        k \<leftarrow> reachableStateID r;
        (if k = target then Some (Some (Suc a)) else start_loop target rs (Suc a))
      }
      else Some None)"

definition select_plain :: "afl \<Rightarrow> (m2_choice \<times> afl) option" where
  "select_plain c =
     (let rs = regions (queue c ! queue_cur c) in
      if target_state_id c = 0 then Some (M2 0 (same_count rs 0), c)
      else do {
        start \<leftarrow> start_loop (target_state_id c) rs 0;
        Some (case start of
                None \<Rightarrow> (Skip, c)
              | Some a \<Rightarrow> if a \<ge> length rs then (Skip, c) else (M2 a (same_count rs a), c))
      })"

text \<open>
  With snapshots every region that reaches the target state is a candidate. The loop returns the
  candidates, whether any region is annotated, and the scores with their depths.
\<close>

fun candidate_loop ::
  "u32 \<Rightarrow> bool \<Rightarrow> region_t list \<Rightarrow> nat \<Rightarrow> nat list \<times> bool \<times> region_score_t list \<Rightarrow> (nat list \<times> bool \<times> region_score_t list) option" where
  "candidate_loop target smart [] i acc = Some acc"
| "candidate_loop target smart (r # rs) i (prev, annotated, scores) =
     (if state_count r > 0
      then do {
        scores \<leftarrow> (if \<not> smart then Some scores
                   else if i < length scores then Some (scores[i := (scores ! i)\<lparr>rs_message_depth := of_nat i\<rparr>]) else None);
        k \<leftarrow> reachableStateID r;
        candidate_loop target smart rs (Suc i) (if k = target then prev @ [i] else prev, True, scores)
      }
      else candidate_loop target smart rs (Suc i) (prev, annotated, scores))"

definition set_scores :: "region_score_t list \<Rightarrow> afl \<Rightarrow> afl" where
  "set_scores scores c = upd_entry (queue_cur c) (\<lambda>e. e\<lparr>regions_scores := scores\<rparr>) c"

definition count_selected :: "nat \<Rightarrow> afl \<Rightarrow> afl option" where
  "count_selected p c =
     (let scores = regions_scores (queue c ! queue_cur c) in
      if mca_algo c \<noteq> MCA_SMART then Some c
      else if p < length scores
      then Some (set_scores (scores[p := (scores ! p)\<lparr>rs_selected_times := rs_selected_times (scores ! p) + 1\<rparr>]) c)
      else None)"

definition select_snapshot :: "(region_score_t \<Rightarrow> u32) \<Rightarrow> afl \<Rightarrow> (m2_choice \<times> afl) option" where
  "select_snapshot region_favor c =
     (let e = queue c ! queue_cur c; rs = regions e in
      if target_state_id c = 0 then Some (M2 0 (same_count rs 0), c)
      else do {
        (prev, annotated, scores) \<leftarrow> candidate_loop (target_state_id c) (mca_algo c = MCA_SMART) rs 0 ([], False, regions_scores e);
        let c = set_scores scores c;
        (if \<not> annotated \<or> prev = [] then Some (Skip, c)
         else do {
           (p, c) \<leftarrow> message_chain_analysis region_favor prev (mca_algo c) c;
           c \<leftarrow> count_selected p (c\<lparr>current_choose_position := int p\<rparr>);
           Some (if Suc p \<ge> length rs then (Skip, c) else (M2 (Suc p) (same_count rs (Suc p)), c))
         })
      })"

text \<open>Without states M2 is any part of the list.\<close>

definition select_random :: "afl \<Rightarrow> (m2_choice \<times> afl) option" where
  "select_random c =
     (let n = length (regions (queue c ! queue_cur c)) in do {
        (a, c) \<leftarrow> UR n c;
        (k, c) \<leftarrow> UR (n - a) c;
        Some (M2 a (if k = 0 then 1 else k), c)
      })"

definition select_M2 :: "(region_score_t \<Rightarrow> u32) \<Rightarrow> afl \<Rightarrow> (m2_choice \<times> afl) option" where
  "select_M2 region_favor c =
     (let c = c\<lparr>cur_depth := ucast (depth (queue c ! queue_cur c))\<rparr> in
      if regions (queue c ! queue_cur c) = [] then None
      else if \<not> state_aware_mode c then select_random c
      else if use_snapshot c then select_snapshot region_favor c else select_plain c)"

section \<open>The buffer to mutate\<close>

text \<open>
  The messages of the entry's file and the bytes of M2 one after the other. An empty buffer is an
  allocation that fails. The result has the lengths of M1 and M3.
\<close>

definition prepare_M2 :: "nat \<Rightarrow> nat \<Rightarrow> fuzzer \<Rightarrow> (byte list \<times> nat \<times> nat \<times> fuzzer) option" where
  "prepare_M2 a n s = do {
     let e = queue (core s) ! queue_cur (core s);
     content \<leftarrow> files (core s) (fname e);
     ms \<leftarrow> construct_kl_messages content (regions e);
     let in_buf = concat (map message_t.mdata (take n (drop a ms)));
     s \<leftarrow> (if \<not> use_snapshot (core s) then Some s
           else if a = 0 then Some (s\<lparr>is_first_run_of_fuzz_one := True, has_snapshot_flag := False, can_snapshot_flag := False\<rparr>)
           else do {
             _ \<leftarrow> construct_kl_messages_mx ms (a - 1) 1;
             _ \<leftarrow> construct_kl_messages_mx ms (a - 1) 2;
             Some (s\<lparr>is_first_run_of_fuzz_one := True, can_snapshot_flag := True\<rparr>)
           });
     (if in_buf = [] then None
      else Some (in_buf, min a (length ms), length ms - (a + n), upd_core (\<lambda>c. c\<lparr>kl_messages := ms\<rparr>) s))
   }"

section \<open>One test case\<close>

text \<open>A message of \<open>sz\<close> bytes at \<open>start\<close>; both come from regions, and an empty one is fatal.\<close>

definition cut_message :: "byte list \<Rightarrow> int \<Rightarrow> int \<Rightarrow> message_t option" where
  "cut_message out_buf start sz =
     (if sz \<le> 0 \<or> nat sz > MAX_ALLOC \<or> start < 0 \<or> nat (start + sz) > length out_buf then None
      else Some (mk_message (take (nat sz) (drop (nat start) out_buf))))"

text \<open>Message number \<open>max_seed_region_count\<close> takes all that is left.\<close>

function new_messages :: "byte list \<Rightarrow> region_t list \<Rightarrow> nat \<Rightarrow> nat \<Rightarrow> (message_t list) option" where
  "new_messages out_buf rs max_count i =
     (if i < length rs
      then do {
        m \<leftarrow> cut_message out_buf (start_byte (rs ! i))
              ((if i = max_count then end_byte (rs ! (length rs - 1)) else end_byte (rs ! i)) - start_byte (rs ! i) + 1);
        ms \<leftarrow> (if i = max_count then Some [] else new_messages out_buf rs max_count (Suc i));
        Some (m # ms)
      }
      else Some [])"
  by pat_completeness auto
termination by (relation "measure (\<lambda>(out_buf, rs, max_count, i). length rs - i)") auto

declare new_messages.simps [simp del]

definition put_M2 :: "nat \<Rightarrow> nat \<Rightarrow> message_t list \<Rightarrow> message_t list \<Rightarrow> message_t list" where
  "put_M2 m1 m3 new ms = take m1 ms @ new @ drop (length ms - m3) ms"

text \<open>
  \<open>post_handler\<close> is a library that the user may load; without one it returns its argument. \<open>m1\<close> and
  \<open>m3\<close> are the numbers of messages before and after M2. The result says that the entry is abandoned.
\<close>

definition common_fuzz_stuff ::
  "response_codes \<Rightarrow> request_reader \<Rightarrow> (byte list \<Rightarrow> (byte list) option) \<Rightarrow> nat \<Rightarrow> nat \<Rightarrow> byte list \<Rightarrow> fuzzer \<Rightarrow> (bool \<times> fuzzer) option" where
  "common_fuzz_stuff codes requests post_handler m1 m3 out_buf s =
     (case post_handler out_buf of
        None \<Rightarrow> Some (False, s)
      | Some out_buf \<Rightarrow>
          if out_buf = [] then Some (False, s)
          else do {
            rs \<leftarrow> requests out_buf (length out_buf);
            new \<leftarrow> (if rs = [] then None else new_messages out_buf rs (max_seed_region_count (core s)) 0);
            let ms = put_M2 m1 m3 new (kl_messages (core s));
            _ \<leftarrow> (if use_snapshot (core s) \<and> can_snapshot_flag s
                  then do { _ \<leftarrow> construct_kl_messages_mx ms (m1 - 1) 1; construct_kl_messages_mx ms (m1 - 1) 2 }
                  else Some []);
            process_run codes requests out_buf (upd_core (\<lambda>c. c\<lparr>kl_messages := ms\<rparr>) s)
          })"

section \<open>The end of the work on an entry\<close>

definition abandon_entry :: "fuzzer \<Rightarrow> fuzzer option" where
  "abandon_entry s =
     (let c = core s; e = queue c ! queue_cur c; s = s\<lparr>splicing_with := -1\<rparr> in do {
        c \<leftarrow> (if stop_soon s = 0 \<and> cal_failed e = 0 \<and> \<not> was_fuzzed e
              then do {
                let c = upd_entry (queue_cur c) (\<lambda>e. e\<lparr>was_fuzzed := True\<rparr>) c;
                c \<leftarrow> set_map_cell (get_state_index c (target_state_id c)) (index e) 1 c;
                Some (c\<lparr>pending_not_fuzzed := pending_not_fuzzed c - 1,
                        pending_favored := (if favored e then pending_favored c - 1 else pending_favored c)\<rparr>)
              }
              else Some c);
        let c = c\<lparr>kl_messages := []\<rparr>;
        Some (s\<lparr>core := (if state_aware_mode c \<and> use_snapshot c \<and> mca_algo c = MCA_SMART
                          then c\<lparr>current_choose_position := -1\<rparr> else c)\<rparr>)
      })"

section \<open>M2 lies in the list\<close>

lemma same_count_range:
  assumes "a < length rs"
  shows "0 < same_count rs a" "a + same_count rs a \<le> length rs"
proof -
  have "drop a rs = rs ! a # drop (Suc a) rs" using assms by (simp add: Cons_nth_drop_Suc)
  then show "0 < same_count rs a" by (simp add: same_count_def)
  show "a + same_count rs a \<le> length rs"
    using length_takeWhile_le [of "\<lambda>r. state_count r = state_count (rs ! a)" "drop a rs"] assms by (simp add: same_count_def)
qed

lemma start_loop_reaches:
  "start_loop target rs a = Some (Some b) \<Longrightarrow> b < a + length rs \<Longrightarrow> a < b \<and> reachableStateID (rs ! (b - a - 1)) = Some target"
proof (induction rs arbitrary: a)
  case (Cons r rs)
  show ?case
  proof (cases "b = Suc a")
    case True
    then show ?thesis using Cons.prems Cons.IH [of "Suc a"] by (cases rs) (auto split: if_splits Option.bind_splits)
  next
    case False
    then have "start_loop target rs (Suc a) = Some (Some b)" using Cons.prems(1) by (auto split: if_splits Option.bind_splits)
    from Cons.IH [OF this] Cons.prems(2) have "Suc a < b" "reachableStateID (rs ! (b - Suc a - 1)) = Some target" by auto
    moreover have "b - a - 1 = Suc (b - Suc a - 1)" using \<open>Suc a < b\<close> by simp
    ultimately show ?thesis by simp
  qed
qed simp

lemma start_loop_total: "annot_ok rs \<Longrightarrow> \<exists>r. start_loop target rs a = Some r"
  by (induction rs arbitrary: a) (auto simp: annot_ok_def reachableStateID_def split: option.splits)

lemma candidate_loop_sound:
  "candidate_loop target smart rs i (prev, annotated, scores) = Some (prev', annotated', scores') \<Longrightarrow>
    p \<in> set prev' \<Longrightarrow> p \<in> set prev \<or> (i \<le> p \<and> p < i + length rs \<and> reachableStateID (rs ! (p - i)) = Some target)"
proof (induction rs arbitrary: i prev annotated scores)
  case (Cons r rs)
  show ?case
  proof (cases "state_count r > 0")
    case True
    then obtain k sc where k: "reachableStateID r = Some k"
      and rest: "candidate_loop target smart rs (Suc i) (if k = target then prev @ [i] else prev, True, sc) = Some (prev', annotated', scores')"
      using Cons.prems(1) by (auto split: Option.bind_splits)
    from Cons.IH [OF rest Cons.prems(2)] show ?thesis
      using k by (auto split: if_splits simp: nth_Cons')
  next
    case False
    then show ?thesis using Cons.IH [of "Suc i" prev annotated scores] Cons.prems by (auto simp: nth_Cons')
  qed
qed simp

lemma candidate_loop_total:
  "annot_ok rs \<Longrightarrow> \<exists>prev' annotated' scores'. candidate_loop target False rs i acc = Some (prev', annotated', scores')"
proof (induction rs arbitrary: i acc)
  case Nil
  then show ?case by (cases acc) auto
next
  case (Cons r rs)
  then have ok: "annot_ok rs" by (simp add: annot_ok_def)
  obtain x y z where acc: "acc = (x, y, z)" by (rule prod_cases3)
  show ?case
  proof (cases "state_count r > 0")
    case True
    then obtain k where "reachableStateID r = Some k"
      using Cons.prems by (auto simp: annot_ok_def reachableStateID_def split: option.splits)
    then show ?thesis using True acc Cons.IH [OF ok] by simp
  next
    case False
    then show ?thesis using acc Cons.IH [OF ok] by simp
  qed
qed

lemma message_chain_analysis_mem:
  assumes "message_chain_analysis region_favor prev algo c = Some (p, c')" "prev \<noteq> []"
  shows "p \<in> set prev"
  using assms by (auto simp: message_chain_analysis_def Let_def split: mca_mode.splits if_splits Option.bind_splits)

text \<open>What a choice of M2 promises.\<close>

definition in_list :: "afl \<Rightarrow> region_t list \<Rightarrow> m2_choice \<Rightarrow> bool" where
  "in_list c rs m = (case m of Skip \<Rightarrow> True
     | M2 a n \<Rightarrow> 0 < n \<and> a + n \<le> length rs \<and>
         (state_aware_mode c \<longrightarrow> (if target_state_id c = 0 then a = 0
            else 0 < a \<and> reachableStateID (rs ! (a - 1)) = Some (target_state_id c))))"

lemma select_plain_in_list:
  assumes "select_plain c = Some (m, c')" "regions (queue c ! queue_cur c) \<noteq> []"
  shows "in_list c (regions (queue c ! queue_cur c)) m"
proof -
  let ?rs = "regions (queue c ! queue_cur c)"
  have "m = Skip \<or> (target_state_id c = 0 \<and> m = M2 0 (same_count ?rs 0)) \<or>
      (\<exists>a. target_state_id c \<noteq> 0 \<and> start_loop (target_state_id c) ?rs 0 = Some (Some a) \<and> a < length ?rs \<and> m = M2 a (same_count ?rs a))"
    using assms(1) by (auto simp: select_plain_def Let_def split: if_splits Option.bind_splits option.splits)
  then show ?thesis
    using same_count_range [of _ ?rs] same_count_range(2) [of 0 ?rs] start_loop_reaches [of "target_state_id c" ?rs 0] assms(2)
    by (auto simp: in_list_def)
qed

lemma select_snapshot_in_list:
  assumes "select_snapshot region_favor c = Some (m, c')" "regions (queue c ! queue_cur c) \<noteq> []"
  shows "in_list c (regions (queue c ! queue_cur c)) m"
proof -
  let ?rs = "regions (queue c ! queue_cur c)" and ?sc = "regions_scores (queue c ! queue_cur c)"
  consider "m = Skip" | "target_state_id c = 0" "m = M2 0 (same_count ?rs 0)"
    | p prev an sc c1 c2 where "target_state_id c \<noteq> 0" "Suc p < length ?rs" "m = M2 (Suc p) (same_count ?rs (Suc p))"
      "candidate_loop (target_state_id c) (mca_algo c = MCA_SMART) ?rs 0 ([], False, ?sc) = Some (prev, an, sc)"
      "prev \<noteq> []" "message_chain_analysis region_favor prev (mca_algo c1) c1 = Some (p, c2)"
    using assms(1) unfolding select_snapshot_def Let_def by (auto split: if_splits Option.bind_splits)
  then show ?thesis
  proof cases
    case 2
    then show ?thesis using same_count_range [of 0 ?rs] assms(2) by (simp add: in_list_def)
  next
    case (3 p prev an sc c1 c2)
    from candidate_loop_sound [OF 3(4) message_chain_analysis_mem [OF 3(6,5)]]
    show ?thesis using same_count_range [OF 3(2)] 3 by (simp add: in_list_def)
  qed (simp add: in_list_def)
qed

lemma select_random_in_list:
  assumes "select_random c = Some (m, c')" "\<not> state_aware_mode c"
  shows "in_list c (regions (queue c ! queue_cur c)) m"
proof -
  let ?n = "length (regions (queue c ! queue_cur c))"
  obtain a c1 k where a: "UR ?n c = Some (a, c1)" and k: "UR (?n - a) c1 = Some (k, c')" and m: "m = M2 a (if k = 0 then 1 else k)"
    using assms(1) by (auto simp: select_random_def Let_def split: Option.bind_splits)
  have "a < ?n" "k < ?n - a" using a k by (auto simp: UR_def split: if_splits)
  then show ?thesis using m assms(2) by (auto simp: in_list_def)
qed

section \<open>New messages\<close>

lemma tiles_bounds: "tiles a rs e \<Longrightarrow> a \<le> e"
  by (induction rs arbitrary: a) force+

lemma tiles_last: "tiles a rs e \<Longrightarrow> rs \<noteq> [] \<Longrightarrow> end_byte (last rs) = int e - 1"
proof (induction rs arbitrary: a)
  case (Cons r rs)
  show ?case
  proof (cases "rs = []")
    case True
    then show ?thesis using Cons.prems by auto
  next
    case False
    then show ?thesis using Cons by auto
  qed
qed simp

lemma new_messages_tiles:
  assumes "length out_buf \<le> MAX_ALLOC"
  shows "tiles a (drop i rs) (length out_buf) \<Longrightarrow> i \<le> max_count \<Longrightarrow> i \<le> length rs \<Longrightarrow>
    \<exists>ps. new_messages out_buf rs max_count i = Some (map mk_message ps) \<and> concat ps = drop a out_buf \<and> [] \<notin> set ps \<and>
      length ps = min (length rs - i) (Suc max_count - i)"
proof (induction "length rs - i" arbitrary: a i)
  case 0
  then have "i = length rs" "a = length out_buf" by auto
  then show ?case by (subst new_messages.simps) simp
next
  case (Suc n)
  then have i: "i < length rs" by simp
  let ?r = "rs ! i"
  have dr: "drop i rs = ?r # drop (Suc i) rs" using i by (simp add: Cons_nth_drop_Suc)
  have t: "start_byte ?r = int a" "int a \<le> end_byte ?r" "tiles (nat (end_byte ?r) + 1) (drop (Suc i) rs) (length out_buf)"
    using Suc.prems(1) dr by auto
  note b = tiles_bounds [OF t(3)]
  show ?case
  proof (cases "i = max_count")
    case True
    have "end_byte (rs ! (length rs - 1)) = int (length out_buf) - 1"
      using tiles_last [OF Suc.prems(1)] i by (simp add: last_drop last_conv_nth)
    moreover have "cut_message out_buf (int a) (int (length out_buf) - int a) = Some (mk_message (drop a out_buf))"
      using assms b t(2) by (auto simp: cut_message_def nat_diff_distrib)
    ultimately have "new_messages out_buf rs max_count i = Some [mk_message (drop a out_buf)]"
      using i True t(1) by (subst new_messages.simps) simp
    then show ?thesis
      using True i b t(2) by (intro exI [of _ "[drop a out_buf]"]) auto
  next
    case False
    let ?b = "nat (end_byte ?r) + 1"
    obtain ps where ps: "new_messages out_buf rs max_count (Suc i) = Some (map mk_message ps)" "concat ps = drop ?b out_buf"
      "[] \<notin> set ps" "length ps = min (length rs - Suc i) (Suc max_count - Suc i)"
    proof -
      have "n = length rs - Suc i" "Suc i \<le> max_count" "Suc i \<le> length rs" using Suc.hyps(2) Suc.prems(2) False i by auto
      from Suc.hyps(1) [OF this(1) t(3) this(2,3)] show ?thesis using that by blast
    qed
    let ?m = "take (?b - a) (drop a out_buf)"
    have "cut_message out_buf (int a) (end_byte ?r - int a + 1) = Some (mk_message ?m)"
    proof -
      have "nat (end_byte ?r - int a + 1) = ?b - a" "nat (int a + (end_byte ?r - int a + 1)) = ?b" using t(2) by auto
      then show ?thesis using assms b t(2) by (simp add: cut_message_def)
    qed
    then have "new_messages out_buf rs max_count i = Some (map mk_message (?m # ps))"
      using i False t(1) ps(1) by (subst new_messages.simps) simp
    moreover have "?m @ drop ?b out_buf = drop a out_buf"
      using t(2) by (metis append_take_drop_id drop_drop le_add_diff_inverse2 nat_int nat_mono trans_le_add1)
    moreover have "?m \<noteq> []" using t(2) b by auto
    ultimately show ?thesis using ps i False Suc.prems(2) by (intro exI [of _ "?m # ps"]) auto
  qed
qed

section \<open>A position that outlives its entry\<close>

lemma candidate_loop_result:
  "annot_ok rs \<Longrightarrow> i + length rs \<le> length scores \<Longrightarrow>
    \<exists>scores'. candidate_loop target smart rs i (prev, annotated, scores) =
      Some (prev @ filter (\<lambda>j. reachableStateID (rs ! (j - i)) = Some target) [i..<i + length rs],
            annotated \<or> (\<exists>r \<in> set rs. state_count r > 0), scores') \<and> length scores' = length scores"
proof (induction rs arbitrary: i prev annotated scores)
  case (Cons r rs)
  then have ok: "annot_ok rs" and len: "Suc i + length rs \<le> length scores" by (auto simp: annot_ok_def)
  have shift: "filter (\<lambda>j. reachableStateID ((r # rs) ! (j - i)) = Some target) [i..<i + length (r # rs)] =
      (if reachableStateID r = Some target then [i] else []) @ filter (\<lambda>j. reachableStateID (rs ! (j - Suc i)) = Some target) [Suc i..<Suc i + length rs]"
  proof -
    have "filter (\<lambda>j. reachableStateID ((r # rs) ! (j - i)) = Some target) [Suc i..<Suc i + length rs] =
        filter (\<lambda>j. reachableStateID (rs ! (j - Suc i)) = Some target) [Suc i..<Suc i + length rs]"
      by (rule filter_cong) (auto simp: nth_Cons')
    moreover have "[i..<i + length (r # rs)] = i # [Suc i..<Suc i + length rs]"
      by (simp add: upt_conv_Cons del: upt_Suc)
    ultimately show ?thesis by (simp del: upt_Suc)
  qed
  show ?case
  proof (cases "state_count r > 0")
    case True
    then obtain k where "reachableStateID r = Some k"
      using Cons.prems by (auto simp: annot_ok_def reachableStateID_def split: option.splits)
    then show ?thesis
      using True len Cons.IH [OF ok, of "Suc i" scores "if k = target then prev @ [i] else prev" True]
        Cons.IH [OF ok, of "Suc i" "scores[i := (scores ! i)\<lparr>rs_message_depth := of_nat i\<rparr>]" "if k = target then prev @ [i] else prev" True]
      unfolding shift by (auto split: if_splits)
  next
    case False
    then have "reachableStateID r = None" by (simp add: reachableStateID_def split: Option.bind_splits)
    then show ?thesis using False len Cons.IH [OF ok, of "Suc i" scores prev annotated] unfolding shift by auto
  qed
qed simp

lemma each_state_keeps [simp]:
  "queue (each_state f ks seen c) = queue c" "queue_cur (each_state f ks seen c) = queue_cur c"
  "use_snapshot (each_state f ks seen c) = use_snapshot c" "mca_algo (each_state f ks seen c) = mca_algo c"
  "current_choose_position (each_state f ks seen c) = current_choose_position c"
  by (induction f ks seen c rule: each_state.induct) (auto simp: upd_state_def)

lemma count_fuzz_outside:
  assumes "state_aware_mode c" "use_snapshot c" "mca_algo c = MCA_SMART" "current_choose_position c = int p"
    and "length (regions_scores (queue c ! queue_cur c)) \<le> p"
  shows "count_fuzz codes c = None"
  using assms by (auto simp: count_fuzz_def update_fuzzs_def Let_def split: Option.bind_splits)

section \<open>Properties\<close>

text \<open>
  C14 (safety): whatever the mode, the part M2 that is chosen is not empty and lies in the entry's
  list of regions; in state-aware mode it starts at the first region when the target is the initial
  state, and right after a region that reaches the target state otherwise. With annotations as the
  fuzzer makes them, the choice by states never reads outside an annotation.
\<close>

theorem M2_in_range:
  assumes "regions (queue c ! queue_cur c) \<noteq> []"
  shows "(\<forall>m c'. select_M2 region_favor c = Some (m, c') \<longrightarrow> in_list c (regions (queue c ! queue_cur c)) m) \<and>
    (annot_ok (regions (queue c ! queue_cur c)) \<and> state_aware_mode c \<and> (use_snapshot c \<longrightarrow> mca_algo c \<in> {MCA_FIRST, MCA_LAST}) \<longrightarrow>
      select_M2 region_favor c \<noteq> None)"
proof (intro conjI allI impI)
  let ?c = "c\<lparr>cur_depth := ucast (depth (queue c ! queue_cur c))\<rparr>"
  have same: "in_list ?c rs m = in_list c rs m" for rs m by (simp add: in_list_def split: m2_choice.splits)
  fix m c' assume "select_M2 region_favor c = Some (m, c')"
  then show "in_list c (regions (queue c ! queue_cur c)) m"
    using assms select_random_in_list [of ?c m c'] select_plain_in_list [of ?c m c'] select_snapshot_in_list [of region_favor ?c m c'] same
    by (auto simp: select_M2_def Let_def split: if_splits)
next
  assume a: "annot_ok (regions (queue c ! queue_cur c)) \<and> state_aware_mode c \<and> (use_snapshot c \<longrightarrow> mca_algo c \<in> {MCA_FIRST, MCA_LAST})"
  let ?c = "c\<lparr>cur_depth := ucast (depth (queue c ! queue_cur c))\<rparr>" and ?rs = "regions (queue c ! queue_cur c)"
  have "select_plain ?c \<noteq> None"
    using start_loop_total [of ?rs "target_state_id c" 0] a by (auto simp: select_plain_def Let_def)
  moreover have "select_snapshot region_favor ?c \<noteq> None" if mca: "mca_algo c \<in> {MCA_FIRST, MCA_LAST}"
  proof -
    obtain prev an sc where "candidate_loop (target_state_id c) False ?rs 0 ([], False, regions_scores (queue c ! queue_cur c)) = Some (prev, an, sc)"
      using candidate_loop_total a by blast
    moreover have "message_chain_analysis region_favor prev (mca_algo c) x \<noteq> None" for x
      using mca by (auto simp: message_chain_analysis_def)
    ultimately show ?thesis
      using mca by (auto simp: select_snapshot_def Let_def set_scores_def count_selected_def upd_entry_def message_chain_analysis_def split: mca_mode.splits)
  qed
  ultimately show "select_M2 region_favor c \<noteq> None" using a assms by (auto simp: select_M2_def Let_def)
qed

theorem M2_in_range_witness: "\<exists>m c'. select_M2 (\<lambda>r. 1) sample_afl = Some (m, c') \<and> in_list sample_afl (regions sample_entry) m"
proof -
  have e: "queue sample_afl ! queue_cur sample_afl = sample_entry" by (simp add: sample_afl_def)
  have "regions sample_entry \<noteq> []" "annot_ok (regions sample_entry)" "state_aware_mode sample_afl" "\<not> use_snapshot sample_afl"
    by (simp_all add: sample_entry_def sample_afl_def annot_ok_def mk_region_def)
  then show ?thesis using M2_in_range [of sample_afl "\<lambda>r. 1"] by (auto simp: e)
qed

text \<open>
  C35 (roundtrip): when the regions of a mutated buffer lie side by side over the whole buffer, the
  messages made of it are its bytes in order, none of them is empty, and there are at most
  \<open>max_seed_region_count + 1\<close> of them.
\<close>

theorem new_messages_keep_bytes:
  assumes "tiles 0 rs (length out_buf)" "length out_buf \<le> MAX_ALLOC"
  shows "\<exists>ps. new_messages out_buf rs max_count 0 = Some (map mk_message ps) \<and> concat ps = out_buf \<and> [] \<notin> set ps \<and>
    length ps = min (length rs) (Suc max_count)"
  using new_messages_tiles [OF assms(2), of 0 0 rs max_count] assms(1) by simp

theorem new_messages_keep_bytes_witness:
  "\<exists>ps. new_messages ''abcd'' [mk_region 0 0, mk_region 1 1, mk_region 2 3] 1 0 = Some (map mk_message ps) \<and> concat ps = ''abcd''
    \<and> length ps = 2"
  using new_messages_keep_bytes [of "[mk_region 0 0, mk_region 1 1, mk_region 2 3]" "''abcd''" 1]
  by (auto simp: mk_region_def MAX_ALLOC_def)

text \<open>
  C19 (error): with the region scores of \<open>MCA_SMART\<close>, an entry that reaches the target state in its
  last region only is skipped after \<open>current_choose_position\<close> has been set, and nothing resets it.
  When an entry with fewer regions is fuzzed next for the initial state, which does not set the
  position, the counters of a region outside its array are incremented.
\<close>

theorem stale_region_position:
  assumes "state_aware_mode c" "use_snapshot c" "mca_algo c = MCA_SMART" "target_state_id c \<noteq> 0"
    and "queue_cur c < length (queue c)" "rs = regions (queue c ! queue_cur c)" "rs \<noteq> []" "annot_ok rs"
    and "length (regions_scores (queue c ! queue_cur c)) = length rs"
    and "\<forall>i < length rs. reachableStateID (rs ! i) = Some (target_state_id c) \<longleftrightarrow> Suc i = length rs"
  shows "\<exists>c'. select_M2 region_favor c = Some (Skip, c') \<and> Suc (nat (current_choose_position c')) = length rs \<and>
    (\<forall>q codes. length (regions_scores (queue c' ! q)) < length rs \<longrightarrow>
       count_fuzz codes (c'\<lparr>queue_cur := q, target_state_id := 0\<rparr>) = None)"
proof -
  let ?c = "c\<lparr>cur_depth := ucast (depth (queue c ! queue_cur c))\<rparr>" and ?p = "length rs - 1"
  have last: "reachableStateID (rs ! ?p) = Some (target_state_id c)" using assms(7,10) by simp
  then have "state_count (rs ! ?p) > 0" by (auto simp: reachableStateID_def split: Option.bind_splits if_splits)
  then have an: "\<exists>r \<in> set rs. state_count r > 0" using assms(7) by (metis diff_less length_greater_0_conv nth_mem zero_less_one)
  have "filter (\<lambda>j. reachableStateID (rs ! j) = Some (target_state_id c)) [0..<length rs] = [?p]"
  proof -
    have "filter (\<lambda>j. reachableStateID (rs ! j) = Some (target_state_id c)) [0..<length rs] = filter (\<lambda>j. j = ?p) [0..<length rs]"
      by (rule filter_cong) (use assms(10) in auto)
    moreover have "[0..<length rs] = [0..<?p] @ [?p]" using assms(7) by (metis Suc_diff_1 length_greater_0_conv upt_Suc_append zero_le)
    ultimately show ?thesis by simp
  qed
  then obtain sc where loop: "candidate_loop (target_state_id c) True rs 0 ([], False, regions_scores (queue c ! queue_cur c)) = Some ([?p], True, sc)"
    and sc: "length sc = length rs"
    using candidate_loop_result [OF assms(8), of 0 "regions_scores (queue c ! queue_cur c)" "target_state_id c" True "[]" False] an assms(9) by auto
  define c1 where "c1 = (set_scores sc ?c)\<lparr>current_choose_position := int ?p\<rparr>"
  have q1: "regions_scores (queue c1 ! queue_cur c1) = sc" using assms(5) by (simp add: c1_def set_scores_def upd_entry_def)
  define c' where "c' = set_scores (sc[?p := (sc ! ?p)\<lparr>rs_selected_times := rs_selected_times (sc ! ?p) + 1\<rparr>]) c1"
  have "count_selected ?p c1 = Some c'"
    using q1 sc assms(3,7) by (simp add: count_selected_def c'_def) (simp add: c1_def set_scores_def upd_entry_def)
  then have "select_M2 region_favor c = Some (Skip, c')"
    using loop assms(1-4,6,7)
    by (simp add: select_M2_def select_snapshot_def message_chain_analysis_def c1_def) (simp add: set_scores_def upd_entry_def)
  moreover have "current_choose_position c' = int ?p" "state_aware_mode c'" "use_snapshot c'" "mca_algo c' = MCA_SMART"
    using assms(1-3) by (simp_all add: c'_def c1_def set_scores_def upd_entry_def)
  ultimately show ?thesis
    using assms(7) count_fuzz_outside [of "c'\<lparr>queue_cur := q, target_state_id := 0\<rparr>" ?p for q] by (intro exI [of _ c']) auto
qed

definition stale_sample :: afl where
  "stale_sample = sample_afl\<lparr>use_snapshot := True, mca_algo := MCA_SMART, target_state_id := 7,
     queue := [sample_entry\<lparr>regions := [(mk_region 0 0)\<lparr>state_sequence := Some [0, 5], state_count := 2\<rparr>,
                                     (mk_region 1 1)\<lparr>state_sequence := Some [0, 5, 7], state_count := 3\<rparr>],
                         regions_scores := [fresh_score, fresh_score]\<rparr>,
               sample_entry\<lparr>regions := [mk_region 0 0], regions_scores := [fresh_score]\<rparr>]\<rparr>"

theorem stale_region_position_witness:
  "\<exists>c'. select_M2 (\<lambda>r. 1) stale_sample = Some (Skip, c') \<and> Suc (nat (current_choose_position c')) = 2"
proof -
  let ?rs = "[(mk_region 0 0)\<lparr>state_sequence := Some [0, 5], state_count := 2\<rparr>,
      (mk_region 1 1)\<lparr>state_sequence := Some [0, 5, 7], state_count := 3\<rparr>]"
  have t: "target_state_id stale_sample = 7" "state_aware_mode stale_sample" "use_snapshot stale_sample" "mca_algo stale_sample = MCA_SMART"
    "queue_cur stale_sample < length (queue stale_sample)" "?rs = regions (queue stale_sample ! queue_cur stale_sample)"
    "length (regions_scores (queue stale_sample ! queue_cur stale_sample)) = length ?rs"
    by (simp_all add: stale_sample_def sample_afl_def)
  have "\<forall>i < length ?rs. reachableStateID (?rs ! i) = Some (target_state_id stale_sample) \<longleftrightarrow> Suc i = length ?rs"
    by (simp add: t(1) All_less_Suc reachableStateID_def)
  moreover have "annot_ok ?rs" "target_state_id stale_sample \<noteq> 0" by (simp_all add: annot_ok_def t(1))
  ultimately show ?thesis
    using stale_region_position [OF t(2-4) _ t(5,6) _ _ t(7), of "\<lambda>r. 1"] by auto
qed

end
