(* ===== verification/Afl_Mutate.thy ===== *)
theory Afl_Mutate
  imports Afl_M2
begin

text \<open>
  The helpers of the mutation stages of \<open>fuzz_one\<close> (\<open>afl-fuzz.c\<close>): reading and writing numbers in the
  buffer, flipping a bit, the tests that avoid running the same input twice, the length of a block, the
  score of an entry and the place where two inputs are spliced. An access outside the
  buffer is \<^const>\<open>None\<close>.
\<close>

section \<open>Numbers in a buffer\<close>

definition rdn :: "nat \<Rightarrow> u8 list \<Rightarrow> nat \<Rightarrow> 'a::len word option" where
  "rdn n buf pos = (if pos + n \<le> length buf then Some (ld (take n (drop pos buf))) else None)"

definition wrn :: "nat \<Rightarrow> u8 list \<Rightarrow> nat \<Rightarrow> 'a::len word \<Rightarrow> u8 list option" where
  "wrn n buf pos w = (if pos + n \<le> length buf then Some (take pos buf @ st n w @ drop (pos + n) buf) else None)"

text \<open>\<open>memcpy\<close> and \<open>memmove\<close> of bytes that were read before.\<close>

definition putn :: "u8 list \<Rightarrow> nat \<Rightarrow> u8 list \<Rightarrow> u8 list option" where
  "putn buf pos bs = (if pos + length bs \<le> length buf then Some (take pos buf @ bs @ drop (pos + length bs) buf) else None)"

definition getn :: "u8 list \<Rightarrow> nat \<Rightarrow> nat \<Rightarrow> u8 list option" where
  "getn buf pos n = (if pos + n \<le> length buf then Some (take n (drop pos buf)) else None)"

definition FLIP_BIT :: "u8 list \<Rightarrow> nat \<Rightarrow> u8 list option" where
  "FLIP_BIT ar b =
     (if b div 8 < length ar then Some (ar[b div 8 := ar ! (b div 8) XOR drop_bit (b mod 8) 128]) else None)"

section \<open>Constants of config.h\<close>

definition HAVOC_BLK_SMALL :: nat where "HAVOC_BLK_SMALL = 32"
definition HAVOC_BLK_MEDIUM :: nat where "HAVOC_BLK_MEDIUM = 128"
definition HAVOC_BLK_LARGE :: nat where "HAVOC_BLK_LARGE = 1500"
definition HAVOC_BLK_XL :: nat where "HAVOC_BLK_XL = 32768"
definition HAVOC_MAX_MULT :: nat where "HAVOC_MAX_MULT = 16"
definition ARITH_MAX :: nat where "ARITH_MAX = 35"

definition interesting_8 :: "int list" where
  "interesting_8 = [-128, -1, 0, 1, 16, 32, 64, 100, 127]"

definition interesting_16 :: "int list" where
  "interesting_16 = interesting_8 @ [-32768, -129, 128, 255, 256, 512, 1000, 1024, 4096, 32767]"

definition interesting_32 :: "int list" where
  "interesting_32 = interesting_16 @ [-2147483648, -100663046, -32769, 32768, 65535, 65536, 100663045, 2147483647]"

section \<open>Values that earlier stages have tried\<close>

text \<open>The shift to the lowest bit that is set; the caller has excluded 0.\<close>

function strip_zeros :: "u32 \<Rightarrow> nat \<Rightarrow> u32 \<times> nat" where
  "strip_zeros xor_val sh =
     (if xor_val = 0 \<or> xor_val AND 1 \<noteq> 0 then (xor_val, sh) else strip_zeros (drop_bit 1 xor_val) (Suc sh))"
  by pat_completeness auto
termination
proof (relation "measure (\<lambda>(v, sh). unat v)")
  fix v :: u32 and sh :: nat
  assume "\<not> (v = 0 \<or> v AND 1 \<noteq> 0)"
  then have "0 < unat v" by (simp add: unat_gt_0)
  then show "((drop_bit 1 v, Suc sh), (v, sh)) \<in> measure (\<lambda>(v, sh). unat v)"
    by (simp add: drop_bit_Suc unat_div)
qed simp

declare strip_zeros.simps [simp del]

definition could_be_bitflip :: "u32 \<Rightarrow> bool" where
  "could_be_bitflip xor_val =
     (xor_val = 0 \<or>
      (let (v, sh) = strip_zeros xor_val 0 in
       v = 1 \<or> v = 3 \<or> v = 15 \<or>
       sh mod 8 = 0 \<and> (v = 0xff \<or> v = 0xffff \<or> v = 0xffffffff)))"

text \<open>Byte or word number \<open>i\<close> of a value, and the loop that looks for lanes that differ.\<close>

definition lane :: "nat \<Rightarrow> u32 \<Rightarrow> nat \<Rightarrow> u32" where
  "lane w v i = take_bit w (drop_bit (w * i) v)"

primrec diff_loop :: "nat \<Rightarrow> u32 \<Rightarrow> u32 \<Rightarrow> u32 \<times> u32 \<Rightarrow> nat \<Rightarrow> nat \<times> u32 \<times> u32" where
  "diff_loop w old new init 0 = (0, init)"
| "diff_loop w old new init (Suc i) =
     (let (diffs, ov, nv) = diff_loop w old new init i; a = lane w old i; b = lane w new i
      in if a \<noteq> b then (Suc diffs, a, b) else (diffs, ov, nv))"

definition near :: "nat \<Rightarrow> u32 \<Rightarrow> u32 \<Rightarrow> bool" where
  "near w ov nv \<longleftrightarrow> unat (take_bit w (ov - nv)) \<le> ARITH_MAX \<or> unat (take_bit w (nv - ov)) \<le> ARITH_MAX"

definition swap16 :: "u32 \<Rightarrow> u32" where
  "swap16 x = ucast (SWAP16 (ucast x))"

definition could_be_arith :: "u32 \<Rightarrow> u32 \<Rightarrow> nat \<Rightarrow> bool" where
  "could_be_arith old_val new_val blen =
     (if old_val = new_val then True
      else let (diffs, ov, nv) = diff_loop 8 old_val new_val (0, 0) blen in
        if diffs = 1 \<and> near 8 ov nv then True
        else if blen = 1 then False
        else let (diffs, ov, nv) = diff_loop 16 old_val new_val (ov, nv) (blen div 2) in
          if diffs = 1 \<and> (near 16 ov nv \<or> near 16 (swap16 ov) (swap16 nv)) then True
          else blen = 4 \<and> (near 32 old_val new_val \<or> near 32 (SWAP32 old_val) (SWAP32 new_val)))"

text \<open>
  The shifts of signed constants are the compiler's, on 32 bits.
\<close>

definition over :: "u32 \<Rightarrow> u32 \<Rightarrow> u32 \<Rightarrow> nat \<Rightarrow> u32" where
  "over ff old v i = old AND NOT (push_bit (i * 8) ff) OR push_bit (i * 8) v"

definition could_be_interest :: "u32 \<Rightarrow> u32 \<Rightarrow> nat \<Rightarrow> bool \<Rightarrow> bool" where
  "could_be_interest old_val new_val blen check_le =
     (if old_val = new_val then True
      else if list_ex (\<lambda>i. list_ex (\<lambda>x. new_val = over 0xff old_val (ucast (of_int x :: u8)) i) interesting_8) [0..<blen]
      then True
      else if blen = 2 \<and> \<not> check_le then False
      else if list_ex (\<lambda>i. list_ex (\<lambda>x. new_val = over 0xffff old_val (ucast (of_int x :: u16)) i \<or>
             blen > 2 \<and> new_val = over 0xffff old_val (ucast (SWAP16 (of_int x))) i) interesting_16) [0..<blen - 1]
      then True
      else blen = 4 \<and> check_le \<and> list_ex (\<lambda>x. new_val = of_int x) interesting_32)"

section \<open>Block lengths\<close>

text \<open>\<open>run_over10m\<close> is set by the status screen.\<close>

definition block_range :: "nat \<Rightarrow> afl \<Rightarrow> ((nat \<times> nat) \<times> afl) option" where
  "block_range k c =
     (if k = 0 then Some ((1, HAVOC_BLK_SMALL), c)
      else if k = 1 then Some ((HAVOC_BLK_SMALL, HAVOC_BLK_MEDIUM), c)
      else do {
        (r, c) \<leftarrow> UR 10 c;
        Some (if r \<noteq> 0 then (HAVOC_BLK_MEDIUM, HAVOC_BLK_LARGE) else (HAVOC_BLK_LARGE, HAVOC_BLK_XL), c)
      })"

definition choose_block_len :: "bool \<Rightarrow> nat \<Rightarrow> afl \<Rightarrow> (nat \<times> afl) option" where
  "choose_block_len run_over10m limit c = do {
     let rlim = (if run_over10m then min (unat (queue_cycle c)) 3 else 1);
     (k, c) \<leftarrow> UR rlim c;
     ((min_value, max_value), c) \<leftarrow> block_range k c;
     let min_value = (if min_value \<ge> limit then 1 else min_value);
     (r, c) \<leftarrow> UR (min max_value limit + 1 - min_value) c;
     Some (min_value + r, c)
   }"

section \<open>Score of an entry\<close>

text \<open>
  Products with the decimal constants are taken exactly; for counters below 2 to the power of 53 the
  comparisons of rounded products have the same results. Multiplying \<open>perf_score\<close> with a fraction
  cuts off the rest.
\<close>

definition speed_score :: "u64 \<Rightarrow> u32 \<Rightarrow> nat" where
  "speed_score us avg =
     (if unat us > 10 * unat avg then 10 else if unat us > 4 * unat avg then 25 else if unat us > 2 * unat avg then 50
      else if unat us * 3 > 4 * unat avg then 75 else if us * 4 < ucast avg then 300 else if us * 3 < ucast avg then 200
      else if us * 2 < ucast avg then 150 else 100)"

definition bitmap_score :: "u32 \<Rightarrow> u32 \<Rightarrow> nat \<Rightarrow> nat" where
  "bitmap_score bits avg p =
     (if unat bits * 3 > 10 * unat avg then p * 3 else if unat bits > 2 * unat avg then p * 2
      else if unat bits * 3 > 4 * unat avg then p * 3 div 2 else if bits * 3 < avg then p div 4
      else if bits * 2 < avg then p div 2 else if unat bits * 3 < 2 * unat avg then p * 3 div 4 else p)"

definition depth_factor :: "nat \<Rightarrow> nat" where
  "depth_factor d = (if d \<le> 3 then 1 else if d \<le> 7 then 2 else if d \<le> 13 then 3 else if d \<le> 25 then 4 else 5)"

definition calculate_score :: "fuzzer \<Rightarrow> (nat \<times> fuzzer) option" where
  "calculate_score s =
     (if total_cal_cycles s = 0 \<or> total_bitmap_entries s = 0 then None
      else let q = queue (core s) ! queue_cur (core s);
        avg_exec_us = ucast (total_cal_us s div total_cal_cycles s);
        avg_bitmap_size = ucast (total_bitmap_size s div total_bitmap_entries s);
        p = bitmap_score (bitmap_size q) avg_bitmap_size (speed_score (exec_us q) avg_exec_us);
        (p, h) = (if handicap q \<ge> 4 then (p * 4, handicap q - 4)
                  else if handicap q \<noteq> 0 then (p * 2, handicap q - 1) else (p, handicap q));
        p = p * depth_factor (unat (depth q))
      in Some (min p (HAVOC_MAX_MULT * 100), upd_core (upd_entry (queue_cur (core s)) (\<lambda>q. q\<lparr>handicap := h\<rparr>)) s))"

section \<open>Where two inputs differ\<close>

fun diffs_loop :: "nat \<Rightarrow> u8 list \<Rightarrow> u8 list \<Rightarrow> nat \<Rightarrow> int \<times> int \<Rightarrow> int \<times> int" where
  "diffs_loop 0 p1 p2 pos (f, l) = (f, l)"
| "diffs_loop (Suc n) p1 p2 pos (f, l) =
     diffs_loop n p1 p2 (Suc pos)
       (if p1 ! pos \<noteq> p2 ! pos then (if f = -1 then int pos else f, int pos) else (f, l))"

definition locate_diffs :: "u8 list \<Rightarrow> u8 list \<Rightarrow> nat \<Rightarrow> (int \<times> int) option" where
  "locate_diffs ptr1 ptr2 n =
     (if n \<le> length ptr1 \<and> n \<le> length ptr2 then Some (diffs_loop n ptr1 ptr2 0 (-1, -1)) else None)"

section \<open>Buffers\<close>

lemma rdn_Some [simp]: "pos + n \<le> length buf \<Longrightarrow> rdn n buf pos = Some (ld (take n (drop pos buf)))"
  by (simp add: rdn_def)

lemma wrn_Some: "pos + n \<le> length buf \<Longrightarrow> wrn n buf pos w = Some (take pos buf @ st n w @ drop (pos + n) buf)"
  by (simp add: wrn_def)

lemma length_wrn: "wrn n buf pos w = Some buf' \<Longrightarrow> length buf' = length buf"
  by (auto simp: wrn_def split: if_splits)

lemma length_putn: "putn buf pos bs = Some buf' \<Longrightarrow> length buf' = length buf"
  by (auto simp: putn_def split: if_splits)

text \<open>Overwriting forgets what was there, and writing back what was read restores the buffer.\<close>

lemma wrn_wrn: "wrn n buf pos v = Some buf' \<Longrightarrow> wrn n buf' pos w = wrn n buf pos w"
  by (auto simp: wrn_def split: if_splits)

lemma wrn_rdn:
  assumes "rdn n buf pos = Some (w :: 'a::len word)" "LENGTH('a) = 8 * n"
  shows "wrn n buf pos w = Some buf"
proof -
  have le: "pos + n \<le> length buf" and w: "w = ld (take n (drop pos buf))" using assms(1) by (auto simp: rdn_def split: if_splits)
  have "st n w = take n (drop pos buf)"
    using st_ld [of "take n (drop pos buf)", where 'a = 'a] le assms(2) by (simp add: w min_absorb2)
  moreover have "take n (drop pos buf) @ drop (pos + n) buf = drop pos buf"
    by (metis add.commute append_take_drop_id drop_drop)
  ultimately show ?thesis using le by (simp add: wrn_def)
qed

lemma wrn_back:
  assumes "rdn n buf pos = Some (w :: 'a::len word)" "LENGTH('a) = 8 * n" "wrn n buf pos (v :: 'a word) = Some buf'"
  shows "wrn n buf' pos w = Some buf"
  by (rule trans [OF wrn_wrn [OF assms(3)] wrn_rdn [OF assms(1,2)]])

lemma rdn_wrn:
  assumes "wrn n buf pos (v :: 'a::len word) = Some buf'" "LENGTH('a) = 8 * n"
  shows "rdn n buf' pos = Some v"
proof -
  have le: "pos + n \<le> length buf" and b: "buf' = take pos buf @ st n v @ drop (pos + n) buf"
    using assms(1) by (auto simp: wrn_def split: if_splits)
  then have "take n (drop pos buf') = st n v" by simp
  then show ?thesis using le b assms(2) by (simp add: rdn_def)
qed

lemma wrn1: "i < length buf \<Longrightarrow> wrn 1 buf i (v :: u8) = Some (buf[i := v])"
  by (simp add: wrn_def st_def upd_conv_take_nth_drop)

lemma rdn1: "i < length buf \<Longrightarrow> rdn 1 buf i = Some (buf ! i)"
  by (simp add: take_Suc_conv_app_nth hd_drop_conv_nth [symmetric] take_Suc)

section \<open>Flipping bits\<close>

lemma FLIP_BIT_length: "FLIP_BIT ar b = Some ar' \<Longrightarrow> length ar' = length ar"
  by (auto simp: FLIP_BIT_def split: if_splits)

lemma FLIP_BIT_self: "FLIP_BIT ar b = Some ar' \<Longrightarrow> FLIP_BIT ar' b = Some ar"
  by (auto simp: FLIP_BIT_def xor.assoc split: if_splits)

lemma FLIP_BIT_commute: "FLIP_BIT ar a \<bind> (\<lambda>x. FLIP_BIT x b) = FLIP_BIT ar b \<bind> (\<lambda>x. FLIP_BIT x a)"
proof (cases "a div 8 = b div 8")
  case True
  then show ?thesis by (auto simp: FLIP_BIT_def xor.assoc xor.commute xor.left_commute)
next
  case False
  then show ?thesis by (auto simp: FLIP_BIT_def list_update_swap)
qed

section \<open>The tests on bytes are exact\<close>

lemma all_bytes: "(\<forall>n \<in> set [0..<256]. Q (of_nat n :: u8)) \<Longrightarrow> Q r"
proof -
  assume "\<forall>n \<in> set [0..<256]. Q (of_nat n :: u8)"
  moreover have "unat r < 2 ^ LENGTH(8)" by (rule unsigned_less)
  then have "unat r \<in> set [0..<256]" by simp
  ultimately show "Q r" by fastforce
qed

text \<open>What the flip stages change in one byte: one, two or four bits next to each other, or all.\<close>

definition byte_flips :: "u8 list" where
  "byte_flips = map (\<lambda>k. drop_bit k 0x80) [0..<8] @ map (\<lambda>k. drop_bit k 0xC0) [0..<7] @ map (\<lambda>k. drop_bit k 0xF0) [0..<5] @ [0xFF]"

lemma strip_zeros_low:
  "v \<noteq> 0 \<Longrightarrow> \<exists>k c. strip_zeros v sh = (c, sh + k) \<and> v = push_bit k c \<and> c = drop_bit k v \<and> bit c 0"
proof (induction v sh rule: strip_zeros.induct)
  case (1 v sh)
  show ?case
  proof (cases "v AND 1 = 0")
    case True
    then have even: "\<not> bit v 0" by (simp add: bit_0 even_iff_mod_2_eq_zero and_one_eq)
    have v: "v = push_bit 1 (drop_bit 1 v)"
    proof (rule bit_word_eqI)
      fix n assume "n < LENGTH(32)"
      then show "bit v n = bit (push_bit 1 (drop_bit 1 v)) n"
        using even unfolding bit_push_bit_iff bit_drop_bit_eq by (cases n) simp_all
    qed
    then have "drop_bit 1 v \<noteq> 0" using "1.prems" by auto
    moreover have "\<not> (v = 0 \<or> v AND 1 \<noteq> 0)" using True "1.prems" by simp
    ultimately obtain k c where k: "strip_zeros (drop_bit 1 v) (Suc sh) = (c, Suc sh + k)"
      "drop_bit 1 v = push_bit k c" "c = drop_bit k (drop_bit 1 v)" "bit c 0"
      using "1.IH" by blast
    have "strip_zeros v sh = (c, sh + Suc k)" using k(1) True "1.prems" by (simp add: strip_zeros.simps [of v])
    moreover have "v = push_bit (Suc k) c" using v unfolding k(2) push_bit_push_bit by simp
    moreover have "c = drop_bit (Suc k) v" using k(3) by (simp add: drop_bit_drop_bit)
    ultimately show ?thesis using k(4) by blast
  next
    case False
    then show ?thesis by (intro exI [of _ 0] exI [of _ v]) (simp add: strip_zeros.simps [of v] bit_0 even_iff_mod_2_eq_zero and_one_eq)
  qed
qed

lemma byte_flips_set: "set byte_flips = {128, 64, 32, 16, 8, 4, 2, 1, 192, 96, 48, 24, 12, 6, 3, 240, 120, 60, 30, 15, 255}"
  by (simp add: byte_flips_def upt_rec)

lemma byte_flips_pass: "list_all (\<lambda>x. could_be_bitflip (ucast x)) byte_flips"
  by code_simp

lemma ucast_u8 [simp]: "ucast (ucast (x :: u8) :: u32) = x"
  by (rule bit_word_eqI) (simp add: bit_simps)

lemma ucast_u8_inj [simp]: "(ucast (x :: u8) :: u32) = ucast y \<longleftrightarrow> x = y"
  by (metis ucast_u8)

lemma bitflip_byte_shift:
  assumes "could_be_bitflip (ucast (r :: u8))" "r \<noteq> 0"
  obtains k c where "k < 8" "\<not> bit c (8 - k)" "r = ucast (push_bit k c :: u32)"
    "c \<in> {1, 3, 15} \<or> k = 0 \<and> c \<in> {0xff, 0xffff, 0xffffffff}"
proof -
  have v0: "(ucast r :: u32) \<noteq> 0" using assms(2) ucast_u8_inj [of r 0] by simp
  from strip_zeros_low [OF this, of 0, unfolded add_0] obtain k c where
    k: "strip_zeros (ucast r) 0 = (c, k)" "ucast r = push_bit k c" "c = drop_bit k (ucast r)" "bit c 0" by blast
  have c: "c \<in> {1, 3, 15} \<or> k mod 8 = 0 \<and> c \<in> {0xff, 0xffff, 0xffffffff}"
    using assms(1) v0 unfolding could_be_bitflip_def k(1) by simp
  have "bit (drop_bit k (ucast r :: u32)) 0" using k(4) unfolding k(3) [symmetric] .
  then have "bit (ucast r :: u32) k" by (simp add: bit_drop_bit_eq)
  then have "bit r k" by (simp add: bit_simps)
  then have k8: "k < 8" using bit_imp_le_length [of r k] by simp
  have "\<not> bit (ucast r :: u32) 8" using bit_imp_le_length [of r 8] by (auto simp: bit_ucast_iff)
  then have "\<not> bit (drop_bit k (ucast r) :: u32) (8 - k)" using k8 by (simp add: bit_drop_bit_eq)
  then have "\<not> bit c (8 - k)" unfolding k(3) [symmetric] .
  moreover have "r = ucast (push_bit k c :: u32)" unfolding k(2) [symmetric] by simp
  moreover have "c \<in> {1, 3, 15} \<or> k = 0 \<and> c \<in> {0xff, 0xffff, 0xffffffff}" using c k8 by (simp only: mod_less)
  ultimately show ?thesis by (rule that [OF k8])
qed

lemma could_be_bitflip_byte: "could_be_bitflip (ucast (r :: u8)) \<longleftrightarrow> r = 0 \<or> r \<in> set byte_flips"
proof
  have "could_be_bitflip 0" by (simp add: could_be_bitflip_def)
  then show "r = 0 \<or> r \<in> set byte_flips \<Longrightarrow> could_be_bitflip (ucast r)" using byte_flips_pass by (auto simp: list_all_iff)
next
  assume flip: "could_be_bitflip (ucast r)"
  show "r = 0 \<or> r \<in> set byte_flips"
  proof (cases "r = 0")
    case False
    obtain k c where kc: "k < 8" "\<not> bit c (8 - k)" "r = ucast (push_bit k c :: u32)"
      "c \<in> {1, 3, 15} \<or> k = 0 \<and> c \<in> {0xff, 0xffff, 0xffffffff}" by (rule bitflip_byte_shift [OF flip False])
    from kc(1) have "k \<in> {0, 1, 2, 3, 4, 5, 6, 7}" by auto
    then have "r \<in> {128, 64, 32, 16, 8, 4, 2, 1, 192, 96, 48, 24, 12, 6, 3, 240, 120, 60, 30, 15, 255}"
      using kc(2-4) by (elim disjE insertE conjE emptyE; simp)
    then show ?thesis by (simp add: byte_flips_set)
  qed simp
qed

lemma take_bit_diff8: "take_bit 8 (ucast (a :: u8) - ucast b :: u32) = ucast (a - b)"
proof (transfer, goal_cases)
  case (1 a b)
  have "take_bit 8 (take_bit 8 a - take_bit 8 b) = take_bit 8 (a - b)" by (rule take_bit_diff)
  then show ?case by (simp add: take_bit_take_bit min_def)
qed

lemma unat_diff_le: "unat (y - x :: u8) \<le> n \<longleftrightarrow> (\<exists>j \<le> n. y = x + of_nat j)" if "n < 256"
proof
  assume "unat (y - x) \<le> n"
  moreover have "y = x + of_nat (unat (y - x))" by simp
  ultimately show "\<exists>j \<le> n. y = x + of_nat j" by blast
next
  assume "\<exists>j \<le> n. y = x + of_nat j"
  then obtain j where "j \<le> n" "y - x = of_nat j" by auto
  then show "unat (y - x) \<le> n" using that by (simp add: unat_of_nat)
qed

lemma could_be_arith_byte:
  "could_be_arith (ucast (a :: u8)) (ucast b) 1 \<longleftrightarrow> (\<exists>j \<le> ARITH_MAX. b = a + of_nat j \<or> b = a - of_nat j)"
proof -
  have l: "lane 8 (ucast (x :: u8)) 0 = ucast x" for x
    using take_bit_diff8 [of x 0] by (simp add: lane_def)
  have u: "unat (ucast x :: u32) = unat x" for x :: u8
  proof -
    have "unat x < 2 ^ LENGTH(8)" by (rule unsigned_less)
    then show ?thesis by (simp add: unsigned_ucast_eq take_bit_nat_eq_self)
  qed
  have "could_be_arith (ucast a) (ucast b) 1 \<longleftrightarrow> unat (b - a) \<le> ARITH_MAX \<or> unat (a - b) \<le> ARITH_MAX"
    by (auto simp: could_be_arith_def l near_def take_bit_diff8 u ARITH_MAX_def)
  also have "\<dots> \<longleftrightarrow> (\<exists>j \<le> ARITH_MAX. b = a + of_nat j \<or> a = b + of_nat j)"
    using unat_diff_le [of ARITH_MAX] by (auto simp: ARITH_MAX_def)
  also have "\<dots> \<longleftrightarrow> (\<exists>j \<le> ARITH_MAX. b = a + of_nat j \<or> b = a - of_nat j)" by (metis add_diff_cancel diff_add_cancel)
  finally show ?thesis .
qed

section \<open>Block lengths are in range\<close>

lemma UR_Some: "0 < limit \<Longrightarrow> \<exists>r. UR limit c = Some (r, c\<lparr>rnd_calls := Suc (rnd_calls c)\<rparr>) \<and> r < limit"
  by (simp add: UR_def)

lemma block_range_Some:
  "\<exists>lo hi n. block_range k c = Some ((lo, hi), c\<lparr>rnd_calls := n\<rparr>) \<and> 0 < lo \<and> lo < hi \<and> hi \<le> HAVOC_BLK_XL"
proof -
  note defs = HAVOC_BLK_SMALL_def HAVOC_BLK_MEDIUM_def HAVOC_BLK_LARGE_def HAVOC_BLK_XL_def
  have c: "c = c\<lparr>rnd_calls := rnd_calls c\<rparr>" by simp
  consider "k = 0" | "k = 1" | "k \<noteq> 0" "k \<noteq> 1" by blast
  then show ?thesis
  proof cases
    case 1
    then show ?thesis
      by (intro exI [of _ 1] exI [of _ HAVOC_BLK_SMALL] exI [of _ "rnd_calls c"]) (simp add: block_range_def defs)
  next
    case 2
    then show ?thesis
      by (intro exI [of _ HAVOC_BLK_SMALL] exI [of _ HAVOC_BLK_MEDIUM] exI [of _ "rnd_calls c"]) (simp add: block_range_def defs)
  next
    case 3
    obtain r where "UR 10 c = Some (r, c\<lparr>rnd_calls := Suc (rnd_calls c)\<rparr>)" using UR_Some [of 10 c] by auto
    with 3 show ?thesis by (cases "r = 0") (simp_all add: block_range_def defs exI [of _ "Suc (rnd_calls c)"])
  qed
qed

lemma choose_block_len_range:
  assumes "0 < limit" and "run_over10m \<longrightarrow> queue_cycle c \<noteq> 0"
  shows "\<exists>n k. choose_block_len run_over10m limit c = Some (n, c\<lparr>rnd_calls := k\<rparr>) \<and> 0 < n \<and> n \<le> limit \<and> n \<le> HAVOC_BLK_XL"
proof -
  let ?rlim = "if run_over10m then min (unat (queue_cycle c)) 3 else 1"
  have "0 < ?rlim" using assms(2) by (simp add: unat_gt_0)
  then obtain k where k: "UR ?rlim c = Some (k, c\<lparr>rnd_calls := Suc (rnd_calls c)\<rparr>)" using UR_Some by blast
  let ?c1 = "c\<lparr>rnd_calls := Suc (rnd_calls c)\<rparr>"
  obtain lo hi n where sel: "block_range k ?c1 = Some ((lo, hi), ?c1\<lparr>rnd_calls := n\<rparr>)"
    and b: "0 < lo" "lo < hi" "hi \<le> HAVOC_BLK_XL"
    using block_range_Some by blast
  define l where "l = (if lo \<ge> limit then 1 else lo)"
  have l: "0 < l" "l \<le> min hi limit" using b assms(1) by (auto simp: l_def)
  then have "0 < min hi limit + 1 - l" by linarith
  from UR_Some [OF this, of "?c1\<lparr>rnd_calls := n\<rparr>"]
  obtain r where r: "UR (min hi limit + 1 - l) (?c1\<lparr>rnd_calls := n\<rparr>) = Some (r, c\<lparr>rnd_calls := Suc n\<rparr>)" "r < min hi limit + 1 - l"
    by (elim exE conjE) simp
  have "choose_block_len run_over10m limit c = Some (l + r, c\<lparr>rnd_calls := Suc n\<rparr>)"
    by (simp only: choose_block_len_def Let_def k sel bind.bind_lunit prod.case l_def [symmetric] r(1))
  then show ?thesis using l r(2) b(3) by (intro exI [of _ "l + r"] exI [of _ "Suc n"] conjI) auto
qed

section \<open>The score is bounded\<close>

lemma speed_score_range: "10 \<le> speed_score us avg \<and> speed_score us avg \<le> 300"
  by (simp add: speed_score_def)

lemma bitmap_score_range: "p div 4 \<le> bitmap_score bits avg p"
proof -
  have "p div 4 \<le> p * 3" "p div 4 \<le> p * 2" "p div 4 \<le> p * 3 div 2" "p div 4 \<le> p div 2" "p div 4 \<le> p * 3 div 4" "p div 4 \<le> p"
    by linarith+
  then show ?thesis unfolding bitmap_score_def by (auto simp only: order_refl split: if_split)
qed

lemma calculate_score_range:
  assumes "total_cal_cycles s \<noteq> 0" "total_bitmap_entries s \<noteq> 0"
  shows "\<exists>p h. calculate_score s = Some (p, upd_core (upd_entry (queue_cur (core s)) (\<lambda>q. q\<lparr>handicap := h\<rparr>)) s) \<and> 2 \<le> p \<and> p \<le> 1600"
proof -
  let ?q = "queue (core s) ! queue_cur (core s)"
  let ?sp = "speed_score (exec_us ?q) (ucast (total_cal_us s div total_cal_cycles s))"
  let ?p = "bitmap_score (bitmap_size ?q) (ucast (total_bitmap_size s div total_bitmap_entries s)) ?sp"
  let ?ph = "if handicap ?q \<ge> 4 then (?p * 4, handicap ?q - 4) else if handicap ?q \<noteq> 0 then (?p * 2, handicap ?q - 1) else (?p, handicap ?q)"
  let ?d = "depth_factor (unat (depth ?q))"
  have "?sp div 4 \<le> ?p" by (rule bitmap_score_range)
  moreover have "10 \<le> ?sp" using speed_score_range by blast
  ultimately have "2 \<le> ?p" by linarith
  then have "2 \<le> fst ?ph" by (simp split: if_split)
  moreover have "1 \<le> ?d" by (simp add: depth_factor_def)
  ultimately have "2 * 1 \<le> fst ?ph * ?d" by (rule mult_le_mono)
  moreover have "calculate_score s = Some (min (fst ?ph * ?d) 1600, upd_core (upd_entry (queue_cur (core s)) (\<lambda>q. q\<lparr>handicap := snd ?ph\<rparr>)) s)"
    using assms by (simp only: calculate_score_def Let_def HAVOC_MAX_MULT_def case_prod_unfold if_False de_Morgan_disj) simp
  ultimately show ?thesis by (metis min.boundedI min.cobounded2 numeral_le_iff nat_mult_1_right semiring_norm(68,71))
qed

section \<open>Where two inputs differ\<close>

text \<open>The first and the last position where two buffers differ, \<open>-1\<close> when there is none.\<close>

definition diff_at :: "nat \<Rightarrow> u8 list \<Rightarrow> u8 list \<Rightarrow> nat list" where
  "diff_at n p1 p2 = filter (\<lambda>i. p1 ! i \<noteq> p2 ! i) [0..<n]"

lemma diffs_loop_spec:
  "diffs_loop n p1 p2 pos (f, l) =
     (let d = filter (\<lambda>i. p1 ! i \<noteq> p2 ! i) [pos..<pos + n]
      in (if f = -1 \<and> d \<noteq> [] then int (hd d) else f, if d \<noteq> [] then int (last d) else l))"
proof (induction n arbitrary: pos f l)
  case (Suc n)
  have "[pos..<pos + Suc n] = pos # [Suc pos..<Suc pos + n]" by (simp add: upt_rec)
  then show ?case by (simp add: Suc Let_def)
qed simp

lemma locate_diffs_spec:
  "n \<le> length p1 \<Longrightarrow> n \<le> length p2 \<Longrightarrow> locate_diffs p1 p2 n =
     Some (if diff_at n p1 p2 = [] then (-1, -1) else (int (hd (diff_at n p1 p2)), int (last (diff_at n p1 p2))))"
  by (simp add: locate_diffs_def diffs_loop_spec diff_at_def Let_def)

end
