(* ===== verification/Afl_Extras.thy ===== *)
theory Afl_Extras
  imports Afl_Mutate "HOL-Library.Multiset"
begin

text \<open>
  The dictionaries of \<open>afl-fuzz.c\<close>: tokens that the user supplies (\<open>load_extras\<close>) and tokens that the
  fuzzer finds by itself (\<open>maybe_add_auto\<close>), how the latter are saved and loaded again, and the state
  of the mutation stages, which use both. A token is the list of its bytes; \<open>FATAL\<close> and \<open>PFATAL\<close> are
  \<^const>\<open>None\<close>.
\<close>

section \<open>State of the stages\<close>

record extra_data =
  ex_data :: "u8 list"
  hit_cnt :: u32

abbreviation ex_len :: "extra_data \<Rightarrow> nat" where
  "ex_len e \<equiv> length (ex_data e)"

datatype stage =
    STAGE_FLIP1 | STAGE_FLIP2 | STAGE_FLIP4 | STAGE_FLIP8 | STAGE_FLIP16 | STAGE_FLIP32
  | STAGE_ARITH8 | STAGE_ARITH16 | STAGE_ARITH32 | STAGE_INTEREST8 | STAGE_INTEREST16 | STAGE_INTEREST32
  | STAGE_EXTRAS_UO | STAGE_EXTRAS_UI | STAGE_EXTRAS_AO | STAGE_HAVOC | STAGE_SPLICE

text \<open>
  The globals that only the stages and \<open>main\<close> use, around the state of the fuzzer. \<open>stage_cur\<close> and
  \<open>stage_max\<close> are \<open>s32\<close> in the program and unbounded here: as indices of loops they stay
  below eight times the length of an input, which is at most 1 MiB. Elsewhere they only are shown in
  the statistics, where \<open>extras_cnt * len\<close> may wrap around when there are thousands of tokens.
\<close>

record stages =
  fz :: fuzzer
  stage_cur :: int
  stage_max :: int
  stage_finds :: "stage \<Rightarrow> u64"
  stage_cycles :: "stage \<Rightarrow> u64"
  extras :: "extra_data list"
  a_extras :: "extra_data list"
  auto_changed :: bool
  blocks_eff_total :: u64
  blocks_eff_select :: u64
  skip_deterministic :: bool
  no_arith :: bool
  use_splicing :: bool
  region_level_mutation :: bool
  run_over10m :: bool
  master_id :: u32
  master_max :: u32
  havoc_div :: nat
  stage_max_factor :: nat
  MAX_BUF_SIZE :: nat
  in_dir :: string

definition upd_fz :: "(fuzzer \<Rightarrow> fuzzer) \<Rightarrow> stages \<Rightarrow> stages" where
  "upd_fz f s = s\<lparr>fz := f (fz s)\<rparr>"

text \<open>A random number for the stages.\<close>

definition URs :: "nat \<Rightarrow> stages \<Rightarrow> (nat \<times> stages) option" where
  "URs limit s = map_option (\<lambda>(r, c). (r, upd_fz (upd_core (\<lambda>_. c)) s)) (UR limit (core (fz s)))"

section \<open>Sorting\<close>

text \<open>
  \<open>qsort\<close> of the C library leaves the order of equal elements open. The definition fixes one order;
  the lemmas on it state that the result is sorted and has the same elements, and everything below
  rests on these two facts only.
\<close>

fun qinsert :: "('a \<Rightarrow> 'a \<Rightarrow> int) \<Rightarrow> 'a \<Rightarrow> 'a list \<Rightarrow> 'a list" where
  "qinsert cmp x [] = [x]"
| "qinsert cmp x (y # ys) = (if cmp x y \<le> 0 then x # y # ys else y # qinsert cmp x ys)"

definition qsort :: "('a \<Rightarrow> 'a \<Rightarrow> int) \<Rightarrow> 'a list \<Rightarrow> 'a list" where
  "qsort cmp xs = foldr (qinsert cmp) xs []"

text \<open>Both functions subtract numbers of type \<open>u32\<close> and return the difference as an \<open>int\<close>.\<close>

definition compare_extras_len :: "extra_data \<Rightarrow> extra_data \<Rightarrow> int" where
  "compare_extras_len e1 e2 = sint (of_nat (ex_len e1) - of_nat (ex_len e2) :: u32)"

definition compare_extras_use_d :: "extra_data \<Rightarrow> extra_data \<Rightarrow> int" where
  "compare_extras_use_d e1 e2 = sint (hit_cnt e2 - hit_cnt e1)"

section \<open>Dictionary files\<close>

definition MAX_LINE :: nat where "MAX_LINE = 8192"
definition MAX_DICT_FILE :: nat where "MAX_DICT_FILE = 128"

text \<open>\<open>fgets\<close> with a buffer of \<open>MAX_LINE\<close> bytes, until the end of the file.\<close>

function fgets_lines :: "byte list \<Rightarrow> byte list list" where
  "fgets_lines content =
     (if content = [] then []
      else let window = take (MAX_LINE - 1) content;
               n = (if LF \<in> set window then Suc (length (takeWhile (\<lambda>c. c \<noteq> LF) window)) else length window)
           in take n content # fgets_lines (drop n content))"
  by pat_completeness auto
termination
  by (relation "measure length") (auto simp: MAX_LINE_def Let_def)

declare fgets_lines.simps [simp del]

definition isalnum :: "byte \<Rightarrow> bool" where [ctype_defs]:
  "isalnum c \<longleftrightarrow> isalpha c \<or> isdigit c"

definition isxdigit :: "byte \<Rightarrow> bool" where [ctype_defs]:
  "isxdigit c \<longleftrightarrow> isdigit c \<or> 65 \<le> bval c \<and> bval c \<le> 70 \<or> 97 \<le> bval c \<and> bval c \<le> 102"

text \<open>The position of a hexadecimal digit in the string of digits.\<close>

definition hexval :: "byte \<Rightarrow> nat" where
  "hexval c = (if isdigit c then bval c - 48 else bval (tolower c) - 87)"

fun unescape :: "string \<Rightarrow> u8 list option" where
  "unescape [] = Some []"
| "unescape (c # s) =
     (if 0 < bval c \<and> bval c \<le> 31 \<or> 128 \<le> bval c then None
      else if c = CHR 0x5C
      then (case s of
              [] \<Rightarrow> None
            | d # s1 \<Rightarrow>
                if d = CHR 0x5C \<or> d = CHR 0x22 then map_option ((#) (of_nat (bval d))) (unescape s1)
                else case s1 of
                    h # l # s2 \<Rightarrow>
                      if d = CHR ''x'' \<and> isxdigit h \<and> isxdigit l
                      then map_option ((#) (push_bit 4 (of_nat (hexval h)) OR of_nat (hexval l))) (unescape s2)
                      else None
                  | _ \<Rightarrow> None)
      else map_option ((#) (of_nat (bval c))) (unescape s))"

text \<open>
  One line of a dictionary: \<open>Some None\<close> when it holds no token or one of a higher level. The numbers
  are compared as \<open>u32\<close>.
\<close>

definition rtrim :: "string \<Rightarrow> string" where
  "rtrim s = rev (dropWhile isspace (rev s))"

definition extras_line :: "u32 \<Rightarrow> byte list \<Rightarrow> (u8 list option) option" where
  "extras_line dict_level line =
     (let s = rtrim (dropWhile isspace (cstr_of line)) in
      if s = [] \<or> hd s = CHR ''#'' then Some None
      else if last s \<noteq> CHR 0x22 then None
      else let s = dropWhile (\<lambda>c. isalnum c \<or> c = CHR ''_'') (butlast s);
               level = (s \<noteq> [] \<and> hd s = CHR ''@'')
        in if level \<and> of_int (atoi_str (tl s)) > dict_level then Some None
        else let s = (if level then dropWhile isdigit (tl s) else s);
                 s = dropWhile (\<lambda>c. isspace c \<or> c = CHR ''='') s
          in if s = [] \<or> hd s \<noteq> CHR 0x22 \<or> tl s = [] then None
          else do {
            d \<leftarrow> unescape (tl s);
            (if length d > MAX_DICT_FILE then None else Some (Some d))
          })"

definition fresh_extra :: "u8 list \<Rightarrow> extra_data" where
  "fresh_extra d = \<lparr>ex_data = d, hit_cnt = 0\<rparr>"

fun load_lines :: "u32 \<Rightarrow> byte list list \<Rightarrow> stages \<Rightarrow> stages option" where
  "load_lines dict_level [] s = Some s"
| "load_lines dict_level (l # ls) s = do {
     t \<leftarrow> extras_line dict_level l;
     load_lines dict_level ls (case t of None \<Rightarrow> s | Some d \<Rightarrow> s\<lparr>extras := extras s @ [fresh_extra d]\<rparr>)
   }"

definition load_extras_file :: "byte list \<Rightarrow> u32 \<Rightarrow> stages \<Rightarrow> stages option" where
  "load_extras_file content dict_level s = load_lines dict_level (fgets_lines content) s"

text \<open>
  What is found at a path: a file, or a directory with the contents of its regular files in the
  order of \<open>readdir\<close>.
\<close>

datatype node = File "byte list" | Dir "byte list list"

fun load_files :: "byte list list \<Rightarrow> stages \<Rightarrow> stages option" where
  "load_files [] s = Some s"
| "load_files (c # cs) s =
     (if c = [] then load_files cs s
      else if length c > MAX_DICT_FILE then None
      else load_files cs (s\<lparr>extras := extras s @ [fresh_extra (bytes_of c)]\<rparr>))"

definition load_extras :: "(string \<Rightarrow> node option) \<Rightarrow> string \<Rightarrow> stages \<Rightarrow> stages option" where
  "load_extras look dir s = do {
     let path = takeWhile (\<lambda>c. c \<noteq> CHR ''@'') dir;
     let x = (CHR ''@'' \<in> set dir);
     let dict_level = (if x then of_int (atoi_str (drop (Suc (length path)) dir)) else 0);
     nd \<leftarrow> look path;
     s \<leftarrow> (case nd of File content \<Rightarrow> load_extras_file content dict_level s
           | Dir cs \<Rightarrow> if x then None else load_files cs s);
     (if extras s = [] then None else Some (s\<lparr>extras := qsort compare_extras_len (extras s)\<rparr>))
   }"

section \<open>Tokens found by the fuzzer\<close>

definition MIN_AUTO_EXTRA :: nat where "MIN_AUTO_EXTRA = 3"
definition MAX_AUTO_EXTRA :: nat where "MAX_AUTO_EXTRA = 32"
definition USE_AUTO_EXTRAS :: nat where "USE_AUTO_EXTRAS = 50"
definition MAX_AUTO_EXTRAS :: nat where "MAX_AUTO_EXTRAS = USE_AUTO_EXTRAS * 10"

definition lower8 :: "u8 \<Rightarrow> u8" where
  "lower8 x = of_nat (bval (tolower (char_of (unat x))))"

text \<open>True when the texts differ.\<close>

fun memcmp_nocase :: "u8 list \<Rightarrow> u8 list \<Rightarrow> nat \<Rightarrow> bool" where
  "memcmp_nocase m1 m2 0 = False"
| "memcmp_nocase m1 m2 (Suc n) = (if lower8 (hd m1) \<noteq> lower8 (hd m2) then True else memcmp_nocase (tl m1) (tl m2) n)"

text \<open>
  Bytes that are all the same, and the built-in values: an \<open>s16\<close> is compared with a \<open>u16\<close> as
  \<open>int\<close>, an \<open>s32\<close> with a \<open>u32\<close> as \<open>u32\<close>.
\<close>

definition builtin :: "u8 list \<Rightarrow> bool" where
  "builtin mem \<longleftrightarrow> mem \<noteq> [] \<and> list_all (\<lambda>x. x = hd mem) (tl mem)
     \<or> length mem = 2 \<and> list_ex (\<lambda>x. uint (ld mem :: u16) = x \<or> ld mem = SWAP16 (of_int x)) interesting_16
     \<or> length mem = 4 \<and> list_ex (\<lambda>x. ld mem = (of_int x :: u32) \<or> ld mem = SWAP32 (of_int x)) interesting_32"

text \<open>The user's tokens are sorted by size.\<close>

definition in_extras :: "u8 list \<Rightarrow> extra_data list \<Rightarrow> bool" where
  "in_extras mem es =
     list_ex (\<lambda>e. \<not> memcmp_nocase (ex_data e) mem (length mem))
       (takeWhile (\<lambda>e. ex_len e = length mem) (dropWhile (\<lambda>e. ex_len e < length mem) es))"

definition same_token :: "u8 list \<Rightarrow> extra_data \<Rightarrow> bool" where
  "same_token mem e \<longleftrightarrow> ex_len e = length mem \<and> \<not> memcmp_nocase (ex_data e) mem (length mem)"

fun bump :: "u8 list \<Rightarrow> extra_data list \<Rightarrow> extra_data list option" where
  "bump mem [] = None"
| "bump mem (e # es) =
     (if same_token mem e then Some (e\<lparr>hit_cnt := hit_cnt e + 1\<rparr> # es) else map_option ((#) e) (bump mem es))"

definition sort_a_extras :: "extra_data list \<Rightarrow> extra_data list" where
  "sort_a_extras es =
     (let es = qsort compare_extras_use_d es
      in qsort compare_extras_len (take USE_AUTO_EXTRAS es) @ drop USE_AUTO_EXTRAS es)"

definition maybe_add_auto :: "u8 list \<Rightarrow> stages \<Rightarrow> stages option" where
  "maybe_add_auto mem s =
     (if builtin mem \<or> in_extras mem (extras s) then Some s
      else let s = s\<lparr>auto_changed := True\<rparr> in
        case bump mem (a_extras s) of
          Some es \<Rightarrow> Some (s\<lparr>a_extras := sort_a_extras es\<rparr>)
        | None \<Rightarrow>
            if length (a_extras s) < MAX_AUTO_EXTRAS
            then Some (s\<lparr>a_extras := sort_a_extras (a_extras s @ [fresh_extra mem])\<rparr>)
            else do {
              (r, s) \<leftarrow> URs ((MAX_AUTO_EXTRAS + 1) div 2) s;
              Some (s\<lparr>a_extras := sort_a_extras ((a_extras s)[MAX_AUTO_EXTRAS div 2 + r := fresh_extra mem])\<rparr>)
            })"

section \<open>Saving and loading them\<close>

definition auto_name :: "string \<Rightarrow> nat \<Rightarrow> string" where
  "auto_name dir i = dir @ ''/.state/auto_extras/auto_'' @ zpad 6 i"

definition chars_of :: "u8 list \<Rightarrow> byte list" where
  "chars_of = map (\<lambda>x. char_of (unat x))"

text \<open>Files are opened with \<open>O_TRUNC\<close>; older files with higher numbers stay.\<close>

fun save_tokens :: "extra_data list \<Rightarrow> nat \<Rightarrow> fuzzer \<Rightarrow> fuzzer" where
  "save_tokens [] i f = f"
| "save_tokens (e # es) i f = save_tokens es (Suc i) (put_file (auto_name (out_dir (core f) @ ''/queue'') i) (chars_of (ex_data e)) f)"

definition save_auto :: "stages \<Rightarrow> stages" where
  "save_auto s =
     (if \<not> auto_changed s then s
      else upd_fz (save_tokens (take USE_AUTO_EXTRAS (a_extras s)) 0) (s\<lparr>auto_changed := False\<rparr>))"

text \<open>A file that cannot be opened for another reason than that it does not exist is not modelled.\<close>

fun load_tokens :: "nat list \<Rightarrow> stages \<Rightarrow> stages option" where
  "load_tokens [] s = Some s"
| "load_tokens (i # is) s =
     (case files (core (fz s)) (auto_name (in_dir s) i) of
        None \<Rightarrow> Some s
      | Some content \<Rightarrow> do {
          let tmp = bytes_of (take (MAX_AUTO_EXTRA + 1) content);
          s \<leftarrow> (if MIN_AUTO_EXTRA \<le> length tmp \<and> length tmp \<le> MAX_AUTO_EXTRA then maybe_add_auto tmp s else Some s);
          load_tokens is s
        })"

definition load_auto :: "stages \<Rightarrow> stages option" where
  "load_auto = load_tokens [0..<USE_AUTO_EXTRAS]"

section \<open>Sorting by a key\<close>

lemma mset_qinsert [simp]: "mset (qinsert cmp x xs) = add_mset x (mset xs)"
  by (induction xs) auto

lemma mset_qsort [simp]: "mset (qsort cmp xs) = mset xs"
  by (induction xs) (simp_all add: qsort_def)

lemma set_qsort [simp]: "set (qsort cmp xs) = set xs"
  by (metis mset_qsort set_mset_mset)

lemma length_qsort [simp]: "length (qsort cmp xs) = length xs"
  by (metis mset_qsort size_mset)

text \<open>A comparison function that orders the elements of a set by a number.\<close>

locale key_compare =
  fixes cmp :: "'a \<Rightarrow> 'a \<Rightarrow> int" and key :: "'a \<Rightarrow> int" and dom :: "'a set"
  assumes cmp_key: "x \<in> dom \<Longrightarrow> y \<in> dom \<Longrightarrow> cmp x y \<le> 0 \<longleftrightarrow> key x \<le> key y"
begin

lemma qinsert_sorted:
  "x \<in> dom \<Longrightarrow> set xs \<subseteq> dom \<Longrightarrow> sorted (map key xs) \<Longrightarrow> sorted (map key (qinsert cmp x xs))"
proof (induction xs)
  case (Cons y ys)
  have s: "set (qinsert cmp x ys) = insert x (set ys)" by (metis mset_qinsert set_mset_add_mset_insert set_mset_mset)
  show ?case using Cons cmp_key [of x y] by (auto simp: s)
qed simp

lemma qsort_sorted: "set xs \<subseteq> dom \<Longrightarrow> sorted (map key (qsort cmp xs))"
proof (induction xs)
  case (Cons x xs)
  have "qsort cmp (x # xs) = qinsert cmp x (qsort cmp xs)" by (simp add: qsort_def)
  then show ?case using Cons qinsert_sorted [of x "qsort cmp xs"] by simp
qed (simp add: qsort_def)

end

lemma sint_diff_le:
  assumes "a < 2 ^ 31" "b < 2 ^ 31"
  shows "sint (of_nat a - of_nat b :: u32) \<le> 0 \<longleftrightarrow> a \<le> b"
proof -
  have "(of_nat a - of_nat b :: u32) = word_of_int (int a - int b)" by simp
  then have "sint (of_nat a - of_nat b :: u32) = signed_take_bit 31 (int a - int b)" by (simp only: sint_sbintrunc') simp
  also have "\<dots> = int a - int b" using assms by (intro signed_take_bit_int_eq_self) auto
  finally show ?thesis by simp
qed

interpretation by_len: key_compare compare_extras_len "\<lambda>e. int (ex_len e)" "{e. ex_len e < 2 ^ 31}"
  by unfold_locales (simp add: compare_extras_len_def sint_diff_le)

interpretation by_use: key_compare compare_extras_use_d "\<lambda>e. - int (unat (hit_cnt e))" "{e. unat (hit_cnt e) < 2 ^ 31}"
  by unfold_locales (use sint_diff_le [of "unat (hit_cnt y)" "unat (hit_cnt x)" for x y] in \<open>simp add: compare_extras_use_d_def word_le_def [symmetric] word_le_nat_alt [symmetric]\<close>)

section \<open>A printed token is read back\<close>

definition hexchar :: "nat \<Rightarrow> byte" where
  "hexchar n = char_of (if n < 10 then 48 + n else 87 + n)"

definition escape_byte :: "u8 \<Rightarrow> string" where
  "escape_byte b =
     (if b = 0x5C \<or> b = 0x22 then [CHR 0x5C, char_of (unat b)]
      else if 32 \<le> unat b \<and> unat b < 127 then [char_of (unat b)]
      else [CHR 0x5C, CHR ''x'', hexchar (unat b div 16), hexchar (unat b mod 16)])"

definition escape :: "u8 list \<Rightarrow> string" where
  "escape d = concat (map escape_byte d)"

lemma hexchar_val: "n < 16 \<Longrightarrow> isxdigit (hexchar n) \<and> hexval (hexchar n) = n"
  by (auto simp: hexchar_def hexval_def ctype_defs tolower_def)

lemma nibbles: "push_bit 4 (of_nat (unat b div 16)) OR of_nat (unat b mod 16) = (b :: u8)"
proof -
  have "of_nat (unat b div 16) = drop_bit 4 b" "of_nat (unat b mod 16) = take_bit 4 b"
    by (simp_all add: drop_bit_eq_div take_bit_eq_mod of_nat_div unat_div word_arith_nat_div word_arith_nat_mod)
  moreover have "push_bit 4 (drop_bit 4 b) OR take_bit 4 b = b"
    by (rule bit_word_eqI) (auto simp: bit_simps)
  ultimately show ?thesis by simp
qed

lemma unescape_escape_byte: "unescape (escape_byte b @ s) = map_option ((#) b) (unescape s)"
proof -
  have u: "unat b < 256" using unsigned_less [of b, where ?'a = nat] by simp
  have c: "bval (char_of (unat b)) = unat b" using u by simp
  have eq: "b = of_nat n" if "unat b = n" for n using that by auto
  consider "b = 0x5C \<or> b = 0x22" | "b \<noteq> 0x5C" "b \<noteq> 0x22" "32 \<le> unat b" "unat b < 127"
    | "b \<noteq> 0x5C" "b \<noteq> 0x22" "\<not> (32 \<le> unat b \<and> unat b < 127)" by blast
  then show ?thesis
  proof cases
    case 1
    have "char_of (92 :: nat) = CHR 0x5C" "char_of (34 :: nat) = CHR 0x22" by code_simp+
    then have "unescape (escape_byte 0x5C @ s) = map_option ((#) 0x5C) (unescape s)"
      "unescape (escape_byte 0x22 @ s) = map_option ((#) 0x22) (unescape s)"
      by (simp_all add: escape_byte_def bval_def)
    then show ?thesis using 1 by fast
  next
    case 2
    have "char_of (unat b) \<noteq> (CHR 0x5C :: char)"
    proof
      assume "char_of (unat b) = (CHR 0x5C :: char)"
      then have "unat b = bval (CHR 0x5C)" using c by simp
      then show False using eq [of 92] 2(1) by (simp add: bval_def)
    qed
    then show ?thesis using 2 c by (simp add: escape_byte_def)
  next
    case 3
    have "unat b div 16 < 16" "unat b mod 16 < 16" using u by auto
    note h = hexchar_val [OF this(1)] hexchar_val [OF this(2)]
    have "escape_byte b = [CHR 0x5C, CHR ''x'', hexchar (unat b div 16), hexchar (unat b mod 16)]"
      using 3 by (simp add: escape_byte_def)
    then show ?thesis using h nibbles [of b] by (simp add: bval_def)
  qed
qed

lemma unescape_escape: "unescape (escape d) = Some d"
  by (induction d) (simp_all add: escape_def unescape_escape_byte)

lemma escape_byte_chars:
  assumes "c \<in> set (escape_byte b)"
  shows "32 \<le> bval c"
proof -
  have u: "unat b < 256" using unsigned_less [of b, where ?'a = nat] by simp
  have "32 \<le> bval (hexchar n)" if "n < 16" for n using that by (simp add: hexchar_def)
  moreover have "unat b div 16 < 16" "unat b mod 16 < 16" using u by auto
  moreover have "unat (0x5C :: u8) = 92" "unat (0x22 :: u8) = 34" by simp_all
  ultimately show ?thesis using assms u by (auto simp: escape_byte_def bval_def split: if_splits)
qed

lemma escape_chars: "c \<in> set (escape d) \<Longrightarrow> 32 \<le> bval c"
  by (auto simp: escape_def dest: escape_byte_chars)

lemma escape_Nil [simp]: "escape d = [] \<longleftrightarrow> d = []"
  by (cases d) (simp_all add: escape_def escape_byte_def)

lemma dropWhile_label: "list_all Q name \<Longrightarrow> \<not> Q c \<Longrightarrow> dropWhile Q (name @ c # s) = c # s"
  by (induction name) auto

abbreviation label_char :: "byte \<Rightarrow> bool" where
  "label_char c \<equiv> isalnum c \<or> c = CHR ''_''"

lemma label_char_range: "label_char c \<Longrightarrow> \<not> isspace c \<and> c \<noteq> NUL \<and> c \<noteq> CHR ''#''"
  by (auto simp: ctype_defs bval_def)

lemma dict_line:
  assumes "list_all label_char name" "d \<noteq> []" "length d \<le> MAX_DICT_FILE"
  shows "extras_line dict_level (name @ ''='' @ [CHR 0x22] @ escape d @ [CHR 0x22] @ [LF]) = Some (Some d)"
proof -
  let ?q = "CHR 0x22 :: byte" and ?e = "CHR ''='' :: byte"
  let ?b = "name @ ?e # ?q # escape d"
  let ?s = "?b @ [?q]"
  have "NUL \<notin> set (?s @ [LF])"
    using assms(1) escape_chars [of NUL d] label_char_range by (auto simp: list_all_iff bval_def)
  then have c: "cstr_of (?s @ [LF]) = ?s @ [LF]" by (rule cstr_of_id)
  have first: "\<not> isspace (hd (?s @ [LF]))" "hd ?s \<noteq> CHR ''#''"
    using assms(1) label_char_range by (cases name; auto simp: ctype_defs bval_def)+
  then have "dropWhile isspace (?s @ [LF]) = ?s @ [LF]" by (metis append_is_Nil_conv dropWhile_eq_self_iff)
  moreover have "isspace LF" "\<not> isspace ?q" by (simp_all add: isspace_def bval_def)
  then have "rtrim (?s @ [LF]) = ?s" by (simp add: rtrim_def)
  moreover have "dropWhile label_char ?b = ?e # ?q # escape d"
    by (rule dropWhile_label [OF assms(1)]) (simp add: ctype_defs bval_def)
  moreover have "dropWhile (\<lambda>c. isspace c \<or> c = ?e) (?e # ?q # escape d) = ?q # escape d" by (simp add: isspace_def bval_def)
  moreover have "butlast (name @ ?e # ?q # escape d @ [?q]) = ?b" "last (name @ ?e # ?q # escape d @ [?q]) = ?q"
    by (simp_all add: butlast_append)
  moreover have "\<not> isspace ?q" by (simp add: isspace_def bval_def)
  ultimately have "extras_line dict_level (?s @ [LF]) = Some (Some d)"
    using c first(2) assms(2,3) unescape_escape [of d] unfolding extras_line_def Let_def by simp
  then show ?thesis by simp
qed

section \<open>The tokens that were found\<close>

lemma memcmp_nocase_iff: "length a = length b \<Longrightarrow> \<not> memcmp_nocase a b (length b) \<longleftrightarrow> map lower8 a = map lower8 b"
  by (induction a b rule: list_induct2) auto

lemma same_token_iff: "same_token mem e \<longleftrightarrow> map lower8 (ex_data e) = map lower8 mem"
  unfolding same_token_def using memcmp_nocase_iff [of "ex_data e" mem] map_eq_imp_length_eq by blast

definition tokens :: "extra_data list \<Rightarrow> u8 list list" where
  "tokens es = map ex_data es"

lemma bump_None: "bump mem es = None \<longleftrightarrow> map lower8 mem \<notin> set (map (map lower8) (tokens es))"
  by (induction es) (auto simp: tokens_def same_token_iff)

lemma bump_Some: "bump mem es = Some es' \<Longrightarrow> tokens es' = tokens es"
  by (induction es arbitrary: es') (auto simp: tokens_def split: if_splits)

text \<open>
  What holds of the tokens at all times: there are at most 500 of 3 to 32 bytes, none is built in, no
  two are the same up to case, and the ones that the stages use are sorted by size.
\<close>

definition auto_wf :: "extra_data list \<Rightarrow> bool" where
  "auto_wf es \<longleftrightarrow> length es \<le> MAX_AUTO_EXTRAS
     \<and> (\<forall>d \<in> set (tokens es). MIN_AUTO_EXTRA \<le> length d \<and> length d \<le> MAX_AUTO_EXTRA \<and> \<not> builtin d)
     \<and> distinct (map (map lower8) (tokens es))
     \<and> sorted (map ex_len (take USE_AUTO_EXTRAS es))"

text \<open>Everything but the order.\<close>

definition auto_set :: "extra_data list \<Rightarrow> bool" where
  "auto_set es \<longleftrightarrow> length es \<le> MAX_AUTO_EXTRAS
     \<and> (\<forall>d \<in> set (tokens es). MIN_AUTO_EXTRA \<le> length d \<and> length d \<le> MAX_AUTO_EXTRA \<and> \<not> builtin d)
     \<and> distinct (map (map lower8) (tokens es))"

lemma mset_sort_a_extras: "mset (sort_a_extras es) = mset es"
proof -
  have "mset (take n xs) + mset (drop n xs) = mset xs" for n and xs :: "extra_data list"
    by (metis append_take_drop_id mset_append)
  then show ?thesis by (simp add: sort_a_extras_def Let_def)
qed

lemma auto_set_mset:
  assumes "mset xs = mset ys"
  shows "auto_set xs \<longleftrightarrow> auto_set ys"
proof -
  have m: "mset (tokens xs) = mset (tokens ys)" using assms unfolding tokens_def mset_map by simp
  then have "set (tokens xs) = set (tokens ys)" by (rule mset_eq_setD)
  moreover have "distinct (map (map lower8) (tokens xs)) = distinct (map (map lower8) (tokens ys))"
    using m by (intro mset_eq_imp_distinct_iff) simp
  moreover have "length xs = length ys" using assms by (rule mset_eq_length)
  ultimately show ?thesis unfolding auto_set_def by simp
qed

lemma auto_wf_sort:
  assumes "auto_set es"
  shows "auto_wf (sort_a_extras es)"
proof -
  have s: "auto_set (sort_a_extras es)" using assms auto_set_mset [OF mset_sort_a_extras] by blast
  let ?t = "take USE_AUTO_EXTRAS (qsort compare_extras_use_d es)"
  have "set ?t \<subseteq> set es" using set_take_subset [of USE_AUTO_EXTRAS "qsort compare_extras_use_d es"] by simp
  moreover have "ex_len e < 2 ^ 31" if "e \<in> set es" for e
    using assms that by (force simp: auto_set_def tokens_def MAX_AUTO_EXTRA_def)
  ultimately have "sorted (map (\<lambda>e. int (ex_len e)) (qsort compare_extras_len ?t))"
    by (intro by_len.qsort_sorted) auto
  then have "sorted (map ex_len (qsort compare_extras_len ?t))"
    unfolding sorted_map by (simp add: sorted_wrt_iff_nth_less)
  moreover have "take USE_AUTO_EXTRAS (sort_a_extras es) = qsort compare_extras_len ?t"
    using nat_le_linear [of USE_AUTO_EXTRAS "length es"] by (auto simp: sort_a_extras_def Let_def)
  ultimately show ?thesis using s by (simp add: auto_wf_def auto_set_def)
qed

lemma auto_set_wf: "auto_wf es \<Longrightarrow> auto_set es"
  by (simp add: auto_wf_def auto_set_def)

lemma auto_set_append:
  assumes "auto_set es" "bump mem es = None" "\<not> builtin mem" "MIN_AUTO_EXTRA \<le> length mem" "length mem \<le> MAX_AUTO_EXTRA"
    "length es < MAX_AUTO_EXTRAS"
  shows "auto_set (es @ [fresh_extra mem])"
  using assms by (auto simp: auto_set_def tokens_def fresh_extra_def bump_None)

lemma auto_set_update:
  assumes "auto_set es" "bump mem es = None" "\<not> builtin mem" "MIN_AUTO_EXTRA \<le> length mem" "length mem \<le> MAX_AUTO_EXTRA"
  shows "auto_set (es[i := fresh_extra mem])"
proof -
  have t: "tokens (es[i := fresh_extra mem]) = (tokens es)[i := mem]" by (simp add: tokens_def map_update fresh_extra_def)
  have "map lower8 mem \<notin> set (map (map lower8) (tokens es))" using assms(2) by (simp add: bump_None)
  then have "distinct (map (map lower8) (tokens (es[i := fresh_extra mem])))"
    using assms(1) unfolding t map_update auto_set_def by (intro distinct_list_update) auto
  then show ?thesis
    using assms(1,3-5) set_update_subset_insert [of "tokens es" i mem] unfolding auto_set_def t by auto
qed

lemma maybe_add_auto_wf:
  assumes "auto_wf (a_extras s)" "MIN_AUTO_EXTRA \<le> length mem" "length mem \<le> MAX_AUTO_EXTRA"
  shows "\<exists>s'. maybe_add_auto mem s = Some s' \<and> auto_wf (a_extras s') \<and> extras s' = extras s"
proof (cases "builtin mem \<or> in_extras mem (extras s)")
  case True
  then show ?thesis using assms(1) by (simp add: maybe_add_auto_def)
next
  case False
  note set = auto_set_wf [OF assms(1)]
  show ?thesis
  proof (cases "bump mem (a_extras s)")
    case (Some es)
    have "tokens es = tokens (a_extras s)" by (rule bump_Some [OF Some])
    then have "auto_set es" using set unfolding auto_set_def by (metis length_map tokens_def)
    then show ?thesis using False Some auto_wf_sort by (simp add: maybe_add_auto_def)
  next
    case None
    show ?thesis
    proof (cases "length (a_extras s) < MAX_AUTO_EXTRAS")
      case True
      then show ?thesis
        using False None auto_wf_sort [OF auto_set_append [OF set None _ assms(2,3) True]] by (simp add: maybe_add_auto_def)
    next
      case full: False
      obtain r where "UR 250 (core (fz s)) = Some (r, (core (fz s))\<lparr>rnd_calls := Suc (rnd_calls (core (fz s)))\<rparr>)"
        using UR_Some [of 250 "core (fz s)"] by auto
      then show ?thesis
        using False None full auto_wf_sort [OF auto_set_update [OF set None _ assms(2,3)]]
        by (simp add: maybe_add_auto_def URs_def upd_fz_def MAX_AUTO_EXTRAS_def USE_AUTO_EXTRAS_def)
    qed
  qed
qed

section \<open>Saved tokens are loaded again\<close>

definition dval :: "string \<Rightarrow> nat" where
  "dval s = foldl (\<lambda>a c. 10 * a + (bval c - 48)) 0 s"

lemma dval_udec: "dval (udec n) = n"
proof (induction n rule: udec.induct)
  case (1 n)
  then show ?case by (cases "n < 10") (simp_all add: dval_def udec.simps [of n])
qed

lemma dval_zpad: "dval (zpad w n) = n"
proof -
  have "foldl (\<lambda>a c. 10 * a + (bval c - 48)) 0 (replicate k (CHR ''0'') @ s) = foldl (\<lambda>a c. 10 * a + (bval c - 48)) 0 s" for k s
    by (induction k) (simp_all add: bval_def)
  then show ?thesis using dval_udec [of n] by (simp add: dval_def zpad_def)
qed

lemma auto_name_inject [simp]: "auto_name d i = auto_name d j \<longleftrightarrow> i = j"
  unfolding auto_name_def same_append_eq using dval_zpad [of 6 i] dval_zpad [of 6 j] by metis

lemma save_tokens_files:
  "out_dir (core f) @ ''/queue'' = d \<Longrightarrow> files (core (save_tokens es i f)) (auto_name d k) =
     (if i \<le> k \<and> k < i + length es then Some (chars_of (ex_data (es ! (k - i)))) else files (core f) (auto_name d k))"
  by (induction es arbitrary: i f) (auto simp: put_file_def upd_core_def nth_Cons' Suc_le_eq not_less)

lemma bytes_chars: "bytes_of (chars_of d) = d"
proof -
  have "unat (x :: u8) < 256" for x using unsigned_less [of x, where ?'a = nat] by simp
  then show ?thesis by (simp add: bytes_of_def chars_of_def o_def)
qed

text \<open>Adding another token to the tokens that were loaded so far, in whatever order they are kept.\<close>

lemma maybe_add_auto_loaded:
  assumes "extras s = []" "mset (a_extras s) = mset (map fresh_extra ds)" "auto_set (map fresh_extra (ds @ [d]))"
  shows "\<exists>s'. maybe_add_auto d s = Some s' \<and> extras s' = [] \<and> mset (a_extras s') = mset (map fresh_extra (ds @ [d]))
    \<and> fz s' = fz s \<and> in_dir s' = in_dir s"
proof -
  have "set (a_extras s) = fresh_extra ` set ds" using mset_eq_setD [OF assms(2)] by simp
  moreover have "length (a_extras s) = length ds" using mset_eq_length [OF assms(2)] by simp
  ultimately have "length (a_extras s) < MAX_AUTO_EXTRAS" "\<not> builtin d" "bump d (a_extras s) = None"
    using assms(3) by (auto simp: auto_set_def tokens_def fresh_extra_def bump_None o_def image_image)
  then show ?thesis using assms(1,2) by (simp add: maybe_add_auto_def in_extras_def mset_sort_a_extras)
qed

lemma auto_set_take:
  assumes "auto_set es"
  shows "auto_set (map fresh_extra (take n (tokens es)))"
proof -
  have t: "tokens (map fresh_extra (take n (tokens es))) = take n (tokens es)" by (simp add: tokens_def fresh_extra_def o_def)
  have "distinct (map (map lower8) (take n (tokens es)))"
    using assms unfolding take_map [symmetric] auto_set_def by (intro distinct_take) simp
  then show ?thesis using assms set_take_subset [of n "tokens es"] unfolding auto_set_def t by (auto simp: tokens_def)
qed

lemma load_tokens_saved:
  assumes wf: "auto_set es"
    and saved: "\<And>k. k < length es \<Longrightarrow> k < USE_AUTO_EXTRAS \<Longrightarrow> F (auto_name d k) = Some (chars_of (ex_data (es ! k)))"
    and rest: "length es < USE_AUTO_EXTRAS \<Longrightarrow> F (auto_name d (length es)) = None"
  shows "i \<le> USE_AUTO_EXTRAS \<Longrightarrow> i \<le> length es \<Longrightarrow> extras s = [] \<Longrightarrow> mset (a_extras s) = mset (map fresh_extra (take i (tokens es))) \<Longrightarrow>
    files (core (fz s)) = F \<Longrightarrow> in_dir s = d \<Longrightarrow>
    \<exists>s'. load_tokens [i..<USE_AUTO_EXTRAS] s = Some s' \<and> mset (a_extras s') = mset (map fresh_extra (take USE_AUTO_EXTRAS (tokens es)))"
proof (induction "USE_AUTO_EXTRAS - i" arbitrary: i s)
  case 0
  then have "i = USE_AUTO_EXTRAS" by simp
  then show ?case using "0.prems"(4) by simp
next
  case (Suc n)
  then have up: "[i..<USE_AUTO_EXTRAS] = i # [Suc i..<USE_AUTO_EXTRAS]" by (simp add: upt_rec)
  show ?case
  proof (cases "i = length es")
    case True
    then have "length es < USE_AUTO_EXTRAS" using Suc.hyps(2) by simp
    from rest [OF this] have "load_tokens [i..<USE_AUTO_EXTRAS] s = Some s" unfolding up using True Suc.prems(5,6) by simp
    then show ?thesis using True Suc.prems(1,4) by (simp add: tokens_def)
  next
    case False
    then have i: "i < length es" "i < USE_AUTO_EXTRAS" using Suc.hyps(2) Suc.prems by auto
    let ?d = "ex_data (es ! i)"
    have tk: "take (Suc i) (tokens es) = take i (tokens es) @ [?d]" using i by (simp add: tokens_def take_Suc_conv_app_nth)
    have len: "MIN_AUTO_EXTRA \<le> length ?d" "length ?d \<le> MAX_AUTO_EXTRA" using wf i(1) by (auto simp: auto_set_def tokens_def)
    have rdback: "bytes_of (take (MAX_AUTO_EXTRA + 1) (chars_of ?d)) = ?d"
      using len(2) bytes_chars [of ?d] by (simp add: chars_of_def)
    have "auto_set (map fresh_extra (take i (tokens es) @ [?d]))" using auto_set_take [OF wf, of "Suc i"] tk by simp
    then obtain s1 where s1: "maybe_add_auto ?d s = Some s1" "extras s1 = []" "mset (a_extras s1) = mset (map fresh_extra (take (Suc i) (tokens es)))"
      "fz s1 = fz s" "in_dir s1 = in_dir s"
      using maybe_add_auto_loaded [OF Suc.prems(3,4)] unfolding tk by blast
    have "load_tokens [i..<USE_AUTO_EXTRAS] s = load_tokens [Suc i..<USE_AUTO_EXTRAS] s1"
      using saved [OF i] Suc.prems(5,6) s1(1) len by (simp add: up rdback [simplified])
    then show ?thesis using Suc.hyps(1) [of "Suc i" s1] Suc.hyps(2) Suc.prems i s1 by auto
  qed
qed

section \<open>Files of tokens\<close>

definition print_token :: "string \<times> u8 list \<Rightarrow> string" where
  "print_token t = fst t @ ''='' @ [CHR 0x22] @ escape (snd t) @ [CHR 0x22] @ [LF]"

definition printable :: "string \<times> u8 list \<Rightarrow> bool" where
  "printable t \<longleftrightarrow> list_all label_char (fst t) \<and> length (fst t) \<le> 7000 \<and> snd t \<noteq> [] \<and> length (snd t) \<le> MAX_DICT_FILE"

lemma fgets_lines_Cons:
  assumes "LF \<notin> set l" "length l < MAX_LINE - 1"
  shows "fgets_lines (l @ LF # rest) = (l @ [LF]) # fgets_lines rest"
proof -
  have w: "take (MAX_LINE - 1) (l @ LF # rest) = l @ LF # take (MAX_LINE - 2 - length l) rest"
    using assms(2) by (simp add: take_Cons' MAX_LINE_def)
  have tw: "takeWhile (\<lambda>c. c \<noteq> LF) (l @ LF # xs) = l" for xs using assms(1) by (subst takeWhile_append2) auto
  show ?thesis unfolding fgets_lines.simps [of "l @ LF # rest"] Let_def w tw by simp
qed

lemma escape_length: "length (escape d) \<le> 4 * length d"
proof (induction d)
  case (Cons b d)
  have "length (escape_byte b) \<le> 4" by (simp add: escape_byte_def)
  then show ?case using Cons by (simp add: escape_def)
qed (simp add: escape_def)

lemma fgets_print:
  assumes "printable t"
  shows "fgets_lines (print_token t @ rest) = print_token t # fgets_lines rest"
proof -
  let ?l = "fst t @ ''='' @ [CHR 0x22] @ escape (snd t) @ [CHR 0x22]"
  have "LF \<notin> set (fst t)" using assms by (auto simp: printable_def list_all_iff ctype_defs bval_def)
  moreover have "LF \<notin> set (escape (snd t))" using escape_chars [of LF "snd t"] by (auto simp: bval_def)
  ultimately have "LF \<notin> set ?l" by simp
  moreover have "length ?l < MAX_LINE - 1"
    using assms escape_length [of "snd t"] by (simp add: printable_def MAX_LINE_def MAX_DICT_FILE_def)
  ultimately show ?thesis using fgets_lines_Cons [of ?l rest] by (simp add: print_token_def)
qed

text \<open>
  C36 (roundtrip): a dictionary written with the escapes that \<open>load_extras_file\<close> knows is read back
  token by token, whatever bytes the tokens have.
\<close>

theorem dictionary_roundtrip:
  assumes "list_all printable ts"
  shows "load_extras_file (concat (map print_token ts)) dict_level s
    = Some (s\<lparr>extras := extras s @ map (\<lambda>t. fresh_extra (snd t)) ts\<rparr>)"
  using assms
proof (induction ts arbitrary: s)
  case Nil
  then show ?case by (simp add: load_extras_file_def fgets_lines.simps)
next
  case (Cons t ts)
  then have p: "printable t" "list_all printable ts" by simp_all
  have "extras_line dict_level (print_token t) = Some (Some (snd t))"
    using p(1) unfolding print_token_def printable_def by (intro dict_line) auto
  then show ?case
    using Cons.IH [OF p(2), of "s\<lparr>extras := extras s @ [fresh_extra (snd t)]\<rparr>"]
    by (simp add: load_extras_file_def fgets_print [OF p(1)])
qed

definition sample_stages :: stages where
  "sample_stages = \<lparr>fz = sample_fuzzer, stage_cur = 0, stage_max = 0, stage_finds = (\<lambda>_. 0), stage_cycles = (\<lambda>_. 0),
     extras = [], a_extras = [], auto_changed = False, blocks_eff_total = 0, blocks_eff_select = 0,
     skip_deterministic = False, no_arith = False, use_splicing = False, region_level_mutation = False,
     run_over10m = False, master_id = 0, master_max = 0, havoc_div = 1, stage_max_factor = 1, MAX_BUF_SIZE = 0,
     in_dir = ''out/queue''\<rparr>"

theorem dictionary_roundtrip_witness:
  "load_extras_file (concat (map print_token [(''m_1'', [0x22, 0x00, 0xFF])])) 0 sample_stages
    = Some (sample_stages\<lparr>extras := [fresh_extra [0x22, 0x00, 0xFF]]\<rparr>)"
proof -
  have "list_all printable [(''m_1'', [0x22, 0x00, 0xFF])]" by code_simp
  from dictionary_roundtrip [OF this, of 0 sample_stages] show ?thesis by (simp add: sample_stages_def)
qed

lemma load_tokens_wf:
  "auto_wf (a_extras s) \<Longrightarrow> \<exists>s'. load_tokens is s = Some s' \<and> auto_wf (a_extras s')"
proof (induction "is" arbitrary: s)
  case (Cons i "is")
  show ?case
  proof (cases "files (core (fz s)) (auto_name (in_dir s) i)")
    case (Some content)
    let ?t = "bytes_of (take (MAX_AUTO_EXTRA + 1) content)"
    obtain s1 where "(if MIN_AUTO_EXTRA \<le> length ?t \<and> length ?t \<le> MAX_AUTO_EXTRA then maybe_add_auto ?t s else Some s) = Some s1"
      "auto_wf (a_extras s1)"
      using maybe_add_auto_wf [OF Cons.prems, of ?t] Cons.prems
      by (cases "MIN_AUTO_EXTRA \<le> length ?t \<and> length ?t \<le> MAX_AUTO_EXTRA") auto
    then show ?thesis using Cons.IH [of s1] Some by (simp only: load_tokens.simps option.case Let_def bind.bind_lunit)
  qed (use Cons in simp)
qed simp

text \<open>
  C37 (invariant): the tokens the fuzzer finds stay well formed: at most 500, of 3 to 32 bytes each,
  none of them built in, no two equal up to case, and the first 50, which the stages use, sorted by
  size. Collecting a token keeps this and never fails, and so does loading the tokens of an earlier
  run from files of any content.
\<close>

theorem auto_tokens_wf:
  assumes "auto_wf (a_extras s)" "MIN_AUTO_EXTRA \<le> length mem" "length mem \<le> MAX_AUTO_EXTRA"
  shows "(\<exists>s'. maybe_add_auto mem s = Some s' \<and> auto_wf (a_extras s')) \<and> (\<exists>s'. load_auto s = Some s' \<and> auto_wf (a_extras s'))"
  using maybe_add_auto_wf [OF assms] load_tokens_wf [OF assms(1), of "[0..<USE_AUTO_EXTRAS]"] by (auto simp: load_auto_def)

theorem auto_tokens_wf_witness: "\<exists>s'. maybe_add_auto [0x47, 0x45, 0x54] sample_stages = Some s' \<and> auto_wf (a_extras s')"
proof -
  have "auto_wf (a_extras sample_stages)" by (simp add: sample_stages_def auto_wf_def tokens_def)
  from auto_tokens_wf [OF this, of "[0x47, 0x45, 0x54]"] show ?thesis by (simp add: MIN_AUTO_EXTRA_def MAX_AUTO_EXTRA_def)
qed

text \<open>
  C38 (roundtrip): the tokens that \<open>save_auto\<close> writes, the first 50, are the tokens that \<open>load_auto\<close>
  has in the next run, each as often and unused so far, when that run starts from the directory of
  this one without tokens and no older file follows the last one. They are well formed, so sorted by
  size; the order among tokens of the same size is that of \<open>qsort\<close>, which is not specified.
\<close>

theorem auto_tokens_reloaded:
  assumes "auto_wf (a_extras s)" "auto_changed s" "extras s0 = []" "a_extras s0 = []"
    "in_dir s0 = out_dir (core (fz s)) @ ''/queue''" "files (core (fz s0)) = files (core (fz (save_auto s)))"
    "length (a_extras s) < USE_AUTO_EXTRAS \<Longrightarrow> files (core (fz s)) (auto_name (in_dir s0) (length (a_extras s))) = None"
  shows "\<exists>s'. load_auto s0 = Some s' \<and> auto_wf (a_extras s') \<and>
    mset (a_extras s') = mset (map fresh_extra (take USE_AUTO_EXTRAS (tokens (a_extras s))))"
proof -
  let ?es = "take USE_AUTO_EXTRAS (a_extras s)"
  have f: "files (core (fz s0)) (auto_name (in_dir s0) k) =
      (if k < length ?es then Some (chars_of (ex_data (?es ! k))) else files (core (fz s)) (auto_name (in_dir s0) k))" for k
    unfolding assms(6) using assms(2) save_tokens_files [OF assms(5) [symmetric], of ?es 0 k] by (simp add: save_auto_def upd_fz_def)
  have "\<exists>s'. load_tokens [0..<USE_AUTO_EXTRAS] s0 = Some s' \<and> mset (a_extras s') = mset (map fresh_extra (take USE_AUTO_EXTRAS (tokens (a_extras s))))"
  proof (rule load_tokens_saved [OF auto_set_wf [OF assms(1)]])
    show "files (core (fz s0)) (auto_name (in_dir s0) k) = Some (chars_of (ex_data (a_extras s ! k)))"
      if "k < length (a_extras s)" "k < USE_AUTO_EXTRAS" for k using f [of k] that by simp
    show "files (core (fz s0)) (auto_name (in_dir s0) (length (a_extras s))) = None" if "length (a_extras s) < USE_AUTO_EXTRAS"
      using f [of "length (a_extras s)"] assms(7) [OF that] by simp
  qed (simp_all add: assms(3,4))
  moreover have "auto_wf (a_extras s0)" by (simp add: assms(4) auto_wf_def tokens_def)
  ultimately show ?thesis using load_tokens_wf [of s0 "[0..<USE_AUTO_EXTRAS]"] by (auto simp: load_auto_def)
qed

theorem auto_tokens_reloaded_witness:
  "\<exists>s'. load_auto ((save_auto (sample_stages\<lparr>a_extras := [fresh_extra [0x47, 0x45, 0x54]], auto_changed := True\<rparr>))\<lparr>a_extras := []\<rparr>) = Some s'
    \<and> mset (a_extras s') = {#fresh_extra [0x47, 0x45, 0x54]#}"
proof -
  let ?s = "sample_stages\<lparr>a_extras := [fresh_extra [0x47, 0x45, 0x54]], auto_changed := True\<rparr>"
  have wf: "auto_wf (a_extras ?s)"
    by (simp add: auto_wf_def tokens_def fresh_extra_def MAX_AUTO_EXTRAS_def USE_AUTO_EXTRAS_def MIN_AUTO_EXTRA_def MAX_AUTO_EXTRA_def builtin_def)
  have o: "out_dir (core (fz ?s)) = ''out''" "in_dir ?s = ''out/queue''" by (simp_all add: sample_stages_def sample_fuzzer_def sample_afl_def)
  have n: "files (core (fz ?s)) (auto_name (in_dir ?s) 1) = None"
    by (simp add: sample_stages_def sample_fuzzer_def sample_afl_def auto_name_def)
  have same: "in_dir (save_auto ?s) = in_dir ?s" "extras (save_auto ?s) = []" by (simp_all add: save_auto_def upd_fz_def sample_stages_def)
  show ?thesis
    using auto_tokens_reloaded [OF wf, of "(save_auto ?s)\<lparr>a_extras := []\<rparr>"] o n same
    by (simp add: tokens_def fresh_extra_def USE_AUTO_EXTRAS_def) blast
qed

end
