(* ===== verification/Afl_Det.thy ===== *)
theory Afl_Det
  imports Afl_Extras
begin

text \<open>
  The deterministic stages of \<open>fuzz_one\<close> (\<open>afl-fuzz.c\<close>): walking bit and byte flips with the collection of
  tokens and the effector map, arithmetic, interesting values and dictionaries. A stage calls
  \<open>common_fuzz_stuff\<close> for every test case; here that call is the argument \<open>run\<close>. A stage works on the buffer and the state; its result says whether the
  entry is abandoned.
\<close>

section \<open>Running test cases\<close>

type_synonym tester = "u8 list \<Rightarrow> fuzzer \<Rightarrow> (bool \<times> fuzzer) option"

definition try_case :: "tester \<Rightarrow> u8 list \<Rightarrow> stages \<Rightarrow> (bool \<times> stages) option" where
  "try_case run buf s = map_option (\<lambda>(a, f). (a, s\<lparr>fz := f\<rparr>)) (run buf (fz s))"

text \<open>A loop that is left as soon as the entry is abandoned.\<close>

fun until_abandoned :: "('i \<Rightarrow> 'x \<Rightarrow> (bool \<times> 'x) option) \<Rightarrow> 'i list \<Rightarrow> 'x \<Rightarrow> (bool \<times> 'x) option" where
  "until_abandoned body [] x = Some (False, x)"
| "until_abandoned body (i # is) x =
     (case body i x of
        None \<Rightarrow> None
      | Some (a, x) \<Rightarrow> if a then Some (True, x) else until_abandoned body is x)"

definition hits :: "stages \<Rightarrow> u64" where
  "hits s = of_nat (length (queue (core (fz s)))) + unique_crashes (fz s)"

definition begin_stage :: "string \<Rightarrow> int \<Rightarrow> stages \<Rightarrow> stages" where
  "begin_stage short n s = upd_fz (\<lambda>f. f\<lparr>stage_short := short\<rparr>) (s\<lparr>stage_cur := 0, stage_max := n\<rparr>)"

definition end_stage :: "stage \<Rightarrow> u64 \<Rightarrow> stages \<Rightarrow> stages" where
  "end_stage k orig_hit_cnt s =
     s\<lparr>stage_finds := (stage_finds s)(k := stage_finds s k + (hits s - orig_hit_cnt)),
       stage_cycles := (stage_cycles s)(k := stage_cycles s k + of_int (stage_max s))\<rparr>"

definition set_byte :: "nat \<Rightarrow> stages \<Rightarrow> stages" where
  "set_byte i = upd_fz (\<lambda>f. f\<lparr>stage_cur_byte := int i\<rparr>)"

definition set_type :: "stage_val \<Rightarrow> stages \<Rightarrow> stages" where
  "set_type t = upd_fz (\<lambda>f. f\<lparr>stage_val_type := t\<rparr>)"

definition set_val :: "int \<Rightarrow> stages \<Rightarrow> stages" where
  "set_val v = upd_fz (\<lambda>f. f\<lparr>stage_cur_val := v\<rparr>)"

definition one_more :: "stages \<Rightarrow> stages" where
  "one_more s = s\<lparr>stage_cur := stage_cur s + 1\<rparr>"

definition fewer :: "int \<Rightarrow> stages \<Rightarrow> stages" where
  "fewer n s = s\<lparr>stage_max := stage_max s - n\<rparr>"

definition cur_cksum :: "stages \<Rightarrow> u32" where
  "cur_cksum s = exec_cksum (queue (core (fz s)) ! queue_cur (core (fz s)))"

section \<open>Walking bits\<close>

primrec flip_bits :: "u8 list \<Rightarrow> nat \<Rightarrow> nat \<Rightarrow> u8 list option" where
  "flip_bits buf b 0 = Some buf"
| "flip_bits buf b (Suc n) = do { buf \<leftarrow> FLIP_BIT buf b; flip_bits buf (Suc b) n }"

text \<open>The string that is being collected, its length, and the last checksum.\<close>

record collector =
  a_collect :: "u8 list"
  a_len :: nat
  prev_cksum :: u32

definition collect :: "u8 \<Rightarrow> collector \<Rightarrow> collector" where
  "collect b c =
     c\<lparr>a_collect := (if a_len c < MAX_AUTO_EXTRA then a_collect c @ [b] else a_collect c), a_len := Suc (a_len c)\<rparr>"

definition emit_token :: "collector \<Rightarrow> stages \<Rightarrow> stages option" where
  "emit_token c s =
     (if MIN_AUTO_EXTRA \<le> a_len c \<and> a_len c \<le> MAX_AUTO_EXTRA then maybe_add_auto (a_collect c) s else Some s)"

definition note_token :: "nat \<Rightarrow> u8 list \<Rightarrow> stages \<times> collector \<Rightarrow> (stages \<times> collector) option" where
  "note_token i buf = (\<lambda>(s, c).
     if dumb_mode (core (fz s)) \<or> i mod 8 \<noteq> 7 then Some (s, c)
     else let cksum = checksum (fz s); b = buf ! (i div 8) in do {
       (s, c) \<leftarrow>
         (if int i = stage_max s - 1 \<and> cksum = prev_cksum c
          then let c = collect b c in map_option (\<lambda>s. (s, c)) (emit_token c s)
          else if cksum \<noteq> prev_cksum c
          then map_option (\<lambda>s. (s, c\<lparr>a_collect := [], a_len := 0, prev_cksum := cksum\<rparr>)) (emit_token c s)
          else Some (s, c));
       Some (s, if cksum \<noteq> cur_cksum s then collect b c else c)
     })"

definition flip1_at :: "tester \<Rightarrow> nat \<Rightarrow> u8 list \<times> stages \<times> collector \<Rightarrow> (bool \<times> u8 list \<times> stages \<times> collector) option" where
  "flip1_at run i = (\<lambda>(buf, s, c). do {
     let s = set_byte (i div 8) (s\<lparr>stage_cur := int i\<rparr>);
     buf \<leftarrow> FLIP_BIT buf i;
     (a, s) \<leftarrow> try_case run buf s;
     (if a then Some (True, buf, s, c)
      else do {
        buf \<leftarrow> FLIP_BIT buf i;
        (s, c) \<leftarrow> note_token i buf (s, c);
        Some (False, buf, s, c)
      })
   })"

definition flip1_start :: "u8 list \<Rightarrow> stages \<Rightarrow> stages \<times> collector" where
  "flip1_start buf s =
     (let s = set_type STAGE_VAL_NONE (begin_stage ''flip1'' (8 * int (length buf)) s)
      in (s, \<lparr>a_collect = [], a_len = 0, prev_cksum = cur_cksum s\<rparr>))"

definition flip1_stage :: "tester \<Rightarrow> u8 list \<times> stages \<Rightarrow> (bool \<times> u8 list \<times> stages) option" where
  "flip1_stage run = (\<lambda>(buf, s). do {
     (a, buf, s1, c) \<leftarrow> until_abandoned (flip1_at run) [0..<8 * length buf] (buf, flip1_start buf s);
     Some (a, buf, if a then s1 else end_stage STAGE_FLIP1 (hits s) s1)
   })"

definition walk_bits :: "nat \<Rightarrow> tester \<Rightarrow> nat \<Rightarrow> u8 list \<times> stages \<Rightarrow> (bool \<times> u8 list \<times> stages) option" where
  "walk_bits n run i = (\<lambda>(buf, s). do {
     let s = set_byte (i div 8) (s\<lparr>stage_cur := int i\<rparr>);
     buf \<leftarrow> flip_bits buf i n;
     (a, s) \<leftarrow> try_case run buf s;
     (if a then Some (True, buf, s) else do { buf \<leftarrow> flip_bits buf i n; Some (False, buf, s) })
   })"

text \<open>A stage with its name, the number of its steps, its body and its positions.\<close>

definition run_stage ::
  "stage \<Rightarrow> string \<Rightarrow> int \<Rightarrow> (nat \<Rightarrow> u8 list \<times> stages \<Rightarrow> (bool \<times> u8 list \<times> stages) option) \<Rightarrow> nat list \<Rightarrow>
    u8 list \<times> stages \<Rightarrow> (bool \<times> u8 list \<times> stages) option" where
  "run_stage k short n body is = (\<lambda>(buf, s). do {
     (a, buf, s1) \<leftarrow> until_abandoned body is (buf, begin_stage short n s);
     Some (a, buf, if a then s1 else end_stage k (hits s) s1)
   })"

definition flip2_stage :: "tester \<Rightarrow> u8 list \<times> stages \<Rightarrow> (bool \<times> u8 list \<times> stages) option" where
  "flip2_stage run = (\<lambda>(buf, s).
     run_stage STAGE_FLIP2 ''flip2'' (8 * int (length buf) - 1) (walk_bits 2 run) [0..<8 * length buf - 1] (buf, s))"

definition flip4_stage :: "tester \<Rightarrow> u8 list \<times> stages \<Rightarrow> (bool \<times> u8 list \<times> stages) option" where
  "flip4_stage run = (\<lambda>(buf, s).
     run_stage STAGE_FLIP4 ''flip4'' (8 * int (length buf) - 3) (walk_bits 4 run) [0..<8 * length buf - 3] (buf, s))"

section \<open>Walking bytes and the effector map\<close>

definition EFF_MIN_LEN :: nat where "EFF_MIN_LEN = 128"
definition EFF_MAX_PERC :: nat where "EFF_MAX_PERC = 90"

definition EFF_APOS :: "nat \<Rightarrow> nat" where "EFF_APOS p = p div 8"
definition EFF_ALEN :: "nat \<Rightarrow> nat" where "EFF_ALEN l = EFF_APOS l + (if l mod 8 \<noteq> 0 then 1 else 0)"
definition EFF_SPAN_ALEN :: "nat \<Rightarrow> nat \<Rightarrow> nat" where "EFF_SPAN_ALEN p l = EFF_APOS (p + l - 1) - EFF_APOS p + 1"

definition mark_eff :: "nat \<Rightarrow> u8 list \<Rightarrow> stages \<Rightarrow> bool list \<times> nat \<Rightarrow> (bool list \<times> nat) option" where
  "mark_eff i buf s = (\<lambda>(eff_map, eff_cnt).
     if EFF_APOS i \<ge> length eff_map then None
     else if eff_map ! EFF_APOS i then Some (eff_map, eff_cnt)
     else let cksum = (if \<not> dumb_mode (core (fz s)) \<and> length buf \<ge> EFF_MIN_LEN then checksum (fz s) else NOT (cur_cksum s))
       in Some (if cksum \<noteq> cur_cksum s then (eff_map[EFF_APOS i := True], Suc eff_cnt) else (eff_map, eff_cnt)))"

definition flip8_at ::
  "tester \<Rightarrow> nat \<Rightarrow> u8 list \<times> stages \<times> bool list \<times> nat \<Rightarrow> (bool \<times> u8 list \<times> stages \<times> bool list \<times> nat) option" where
  "flip8_at run i = (\<lambda>(buf, s, eff). do {
     let s = set_byte i (s\<lparr>stage_cur := int i\<rparr>);
     b \<leftarrow> rdn 1 buf i;
     buf \<leftarrow> wrn 1 buf i (b XOR 0xFF :: u8);
     (a, s) \<leftarrow> try_case run buf s;
     (if a then Some (True, buf, s, eff)
      else do {
        eff \<leftarrow> mark_eff i buf s eff;
        b \<leftarrow> rdn 1 buf i;
        buf \<leftarrow> wrn 1 buf i (b XOR 0xFF :: u8);
        Some (False, buf, s, eff)
      })
   })"

text \<open>The first and the last byte always count. The map of an empty buffer is a null pointer.\<close>

definition first_eff :: "nat \<Rightarrow> bool list \<times> nat" where
  "first_eff n =
     (let m = (replicate (EFF_ALEN n) False)[0 := True]
      in if EFF_APOS (n - 1) \<noteq> 0 then (m[EFF_APOS (n - 1) := True], 2) else (m, 1))"

definition flip8_stage :: "tester \<Rightarrow> u8 list \<times> stages \<Rightarrow> (bool \<times> u8 list \<times> stages \<times> bool list) option" where
  "flip8_stage run = (\<lambda>(buf, s).
     if buf = [] then None
     else do {
       (a, buf, s1, eff_map, eff_cnt) \<leftarrow> until_abandoned (flip8_at run) [0..<length buf]
          (buf, begin_stage ''flip8'' (int (length buf)) s, first_eff (length buf));
       let alen = EFF_ALEN (length buf);
       let dense = (eff_cnt \<noteq> alen \<and> eff_cnt * 100 div alen > EFF_MAX_PERC);
       let s2 = s1\<lparr>blocks_eff_select := blocks_eff_select s1 + of_nat (if dense then alen else eff_cnt),
                   blocks_eff_total := blocks_eff_total s1 + of_nat alen\<rparr>;
       Some (if a then (True, buf, s1, eff_map)
             else (False, buf, end_stage STAGE_FLIP8 (hits s) s2, if dense then replicate alen True else eff_map))
     })"

text \<open>Whether one of some bytes has an effect.\<close>

definition effs :: "bool list \<Rightarrow> nat list \<Rightarrow> bool option" where
  "effs eff_map ps =
     (if list_all (\<lambda>p. EFF_APOS p < length eff_map) ps then Some (list_ex (\<lambda>p. eff_map ! EFF_APOS p) ps) else None)"

definition flip_word ::
  "'a::len itself \<Rightarrow> nat \<Rightarrow> bool list \<Rightarrow> tester \<Rightarrow> nat \<Rightarrow> u8 list \<times> stages \<Rightarrow> (bool \<times> u8 list \<times> stages) option" where
  "flip_word T n eff_map run i = (\<lambda>(buf, s). do {
     e \<leftarrow> effs eff_map [i..<i + n];
     (if \<not> e then Some (False, buf, fewer 1 s)
      else do {
        w \<leftarrow> rdn n buf i;
        buf \<leftarrow> wrn n buf i (w XOR -1 :: 'a word);
        (a, s) \<leftarrow> try_case run buf (set_byte i s);
        (if a then Some (True, buf, s)
         else do {
           w \<leftarrow> rdn n buf i;
           buf \<leftarrow> wrn n buf i (w XOR -1 :: 'a word);
           Some (False, buf, one_more s)
         })
      })
   })"

definition flip16_stage :: "bool list \<Rightarrow> tester \<Rightarrow> u8 list \<times> stages \<Rightarrow> (bool \<times> u8 list \<times> stages) option" where
  "flip16_stage eff_map run = (\<lambda>(buf, s).
     if length buf < 2 then Some (False, buf, s)
     else run_stage STAGE_FLIP16 ''flip16'' (int (length buf) - 1) (flip_word TYPE(16) 2 eff_map run) [0..<length buf - 1] (buf, s))"

definition flip32_stage :: "bool list \<Rightarrow> tester \<Rightarrow> u8 list \<times> stages \<Rightarrow> (bool \<times> u8 list \<times> stages) option" where
  "flip32_stage eff_map run = (\<lambda>(buf, s).
     if length buf < 4 then Some (False, buf, s)
     else run_stage STAGE_FLIP32 ''flip32'' (int (length buf) - 3) (flip_word TYPE(32) 4 eff_map run) [0..<length buf - 3] (buf, s))"

section \<open>Arithmetic\<close>

text \<open>One value at one place: it is written and run when \<open>cond\<close> holds, else the stage gets shorter.\<close>

definition poke ::
  "nat \<Rightarrow> tester \<Rightarrow> nat \<Rightarrow> bool \<Rightarrow> (stages \<Rightarrow> stages) \<Rightarrow> 'a::len word \<Rightarrow> u8 list \<times> stages \<Rightarrow> (bool \<times> u8 list \<times> stages) option" where
  "poke n run i cond upd w = (\<lambda>(buf, s).
     if \<not> cond then Some (False, buf, fewer 1 s)
     else do {
       buf \<leftarrow> wrn n buf i w;
       (a, s) \<leftarrow> try_case run buf (upd s);
       Some (a, buf, if a then s else one_more s)
     })"

text \<open>Several values at one place; afterwards the old one is written back.\<close>

definition poke_all ::
  "nat \<Rightarrow> tester \<Rightarrow> nat \<Rightarrow> 'a::len word \<Rightarrow> (bool \<times> (stages \<Rightarrow> stages) \<times> 'a word) list \<Rightarrow> u8 list \<times> stages \<Rightarrow>
    (bool \<times> u8 list \<times> stages) option" where
  "poke_all n run i orig ps x = do {
     (a, buf, s) \<leftarrow> until_abandoned (\<lambda>(cond, upd, w). poke n run i cond upd w) ps x;
     (if a then Some (True, buf, s) else do { buf \<leftarrow> wrn n buf i orig; Some (False, buf, s) })
   }"

definition arith8_pokes :: "u8 \<Rightarrow> nat \<Rightarrow> (bool \<times> (stages \<Rightarrow> stages) \<times> u8) list" where
  "arith8_pokes orig j =
     [(\<not> could_be_bitflip (ucast (orig XOR (orig + of_nat j))), set_val (int j), orig + of_nat j),
      (\<not> could_be_bitflip (ucast (orig XOR (orig - of_nat j))), set_val (- int j), orig - of_nat j)]"

definition arith16_pokes :: "u16 \<Rightarrow> nat \<Rightarrow> (bool \<times> (stages \<Rightarrow> stages) \<times> u16) list" where
  "arith16_pokes orig j =
     (let le1 = orig + of_nat j; le2 = orig - of_nat j;
          be1 = SWAP16 (SWAP16 orig + of_nat j); be2 = SWAP16 (SWAP16 orig - of_nat j)
      in [(unat (orig AND 0xff) + j > 0xff \<and> \<not> could_be_bitflip (ucast (orig XOR le1)), set_val (int j) \<circ> set_type STAGE_VAL_LE, le1),
          (unat (orig AND 0xff) < j \<and> \<not> could_be_bitflip (ucast (orig XOR le2)), set_val (- int j) \<circ> set_type STAGE_VAL_LE, le2),
          (unat (drop_bit 8 orig) + j > 0xff \<and> \<not> could_be_bitflip (ucast (orig XOR be1)), set_val (int j) \<circ> set_type STAGE_VAL_BE, be1),
          (unat (drop_bit 8 orig) < j \<and> \<not> could_be_bitflip (ucast (orig XOR be2)), set_val (- int j) \<circ> set_type STAGE_VAL_BE, be2)])"

definition arith32_pokes :: "u32 \<Rightarrow> nat \<Rightarrow> (bool \<times> (stages \<Rightarrow> stages) \<times> u32) list" where
  "arith32_pokes orig j =
     (let le1 = orig + of_nat j; le2 = orig - of_nat j;
          be1 = SWAP32 (SWAP32 orig + of_nat j); be2 = SWAP32 (SWAP32 orig - of_nat j)
      in [(unat (orig AND 0xffff) + j > 0xffff \<and> \<not> could_be_bitflip (orig XOR le1), set_val (int j) \<circ> set_type STAGE_VAL_LE, le1),
          (unat (orig AND 0xffff) < j \<and> \<not> could_be_bitflip (orig XOR le2), set_val (- int j) \<circ> set_type STAGE_VAL_LE, le2),
          (unat (SWAP32 orig AND 0xffff) + j > 0xffff \<and> \<not> could_be_bitflip (orig XOR be1), set_val (int j) \<circ> set_type STAGE_VAL_BE, be1),
          (unat (SWAP32 orig AND 0xffff) < j \<and> \<not> could_be_bitflip (orig XOR be2), set_val (- int j) \<circ> set_type STAGE_VAL_BE, be2)])"

text \<open>
  One position of an arithmetic stage: nothing when the effector map says so, else all values of
  \<open>j\<close>. \<open>skip\<close> is what the stage gets shorter by in the first case.
\<close>

definition arith_at ::
  "nat \<Rightarrow> ('a::len word \<Rightarrow> nat \<Rightarrow> (bool \<times> (stages \<Rightarrow> stages) \<times> 'a word) list) \<Rightarrow> int \<Rightarrow> bool list \<Rightarrow> tester \<Rightarrow> nat \<Rightarrow>
    u8 list \<times> stages \<Rightarrow> (bool \<times> u8 list \<times> stages) option" where
  "arith_at n pokes skip eff_map run i = (\<lambda>(buf, s). do {
     orig \<leftarrow> rdn n buf i;
     e \<leftarrow> effs eff_map [i..<i + n];
     (if \<not> e then Some (False, buf, fewer skip s)
      else until_abandoned (\<lambda>j. poke_all n run i orig (pokes orig j)) [1..<Suc ARITH_MAX] (buf, set_byte i s))
   })"

definition arith8_stage :: "bool list \<Rightarrow> tester \<Rightarrow> u8 list \<times> stages \<Rightarrow> (bool \<times> u8 list \<times> stages) option" where
  "arith8_stage eff_map run = (\<lambda>(buf, s).
     run_stage STAGE_ARITH8 ''arith8'' (2 * int (length buf) * int ARITH_MAX)
       (arith_at 1 arith8_pokes (2 * int ARITH_MAX) eff_map run) [0..<length buf] (buf, set_type STAGE_VAL_LE s))"

definition arith16_stage :: "bool list \<Rightarrow> tester \<Rightarrow> u8 list \<times> stages \<Rightarrow> (bool \<times> u8 list \<times> stages) option" where
  "arith16_stage eff_map run = (\<lambda>(buf, s).
     if length buf < 2 then Some (False, buf, s)
     else run_stage STAGE_ARITH16 ''arith16'' (4 * (int (length buf) - 1) * int ARITH_MAX)
       (arith_at 2 arith16_pokes (4 * int ARITH_MAX) eff_map run) [0..<length buf - 1] (buf, s))"

definition arith32_stage :: "bool list \<Rightarrow> tester \<Rightarrow> u8 list \<times> stages \<Rightarrow> (bool \<times> u8 list \<times> stages) option" where
  "arith32_stage eff_map run = (\<lambda>(buf, s).
     if length buf < 4 then Some (False, buf, s)
     else run_stage STAGE_ARITH32 ''arith32'' (4 * (int (length buf) - 3) * int ARITH_MAX)
       (arith_at 4 arith32_pokes (4 * int ARITH_MAX) eff_map run) [0..<length buf - 3] (buf, s))"

section \<open>Interesting values\<close>

definition interest8_val :: "tester \<Rightarrow> nat \<Rightarrow> u8 \<Rightarrow> int \<Rightarrow> u8 list \<times> stages \<Rightarrow> (bool \<times> u8 list \<times> stages) option" where
  "interest8_val run i orig x = (\<lambda>(buf, s).
     if could_be_bitflip (ucast (orig XOR of_int x)) \<or> could_be_arith (ucast orig) (ucast (of_int x :: u8)) 1
     then Some (False, buf, fewer 1 s)
     else poke_all 1 run i orig [(True, set_val x, of_int x)] (buf, s))"

definition interest8_at :: "bool list \<Rightarrow> tester \<Rightarrow> nat \<Rightarrow> u8 list \<times> stages \<Rightarrow> (bool \<times> u8 list \<times> stages) option" where
  "interest8_at eff_map run i = (\<lambda>(buf, s). do {
     orig \<leftarrow> rdn 1 buf i;
     e \<leftarrow> effs eff_map [i];
     (if \<not> e then Some (False, buf, fewer (int (length interesting_8)) s)
      else until_abandoned (interest8_val run i orig) interesting_8 (buf, set_byte i s))
   })"

text \<open>Little and big endian, each unless an earlier stage has tried the value.\<close>

definition interest16_pokes :: "u16 \<Rightarrow> int \<Rightarrow> (bool \<times> (stages \<Rightarrow> stages) \<times> u16) list" where
  "interest16_pokes orig x =
     (let le = of_int x; be = SWAP16 (of_int x)
      in [(\<not> could_be_bitflip (ucast (orig XOR le)) \<and> \<not> could_be_arith (ucast orig) (ucast le) 2 \<and>
            \<not> could_be_interest (ucast orig) (ucast le) 2 False, set_type STAGE_VAL_LE \<circ> set_val x, le),
          (le \<noteq> be \<and> \<not> could_be_bitflip (ucast (orig XOR be)) \<and> \<not> could_be_arith (ucast orig) (ucast be) 2 \<and>
            \<not> could_be_interest (ucast orig) (ucast be) 2 True, set_type STAGE_VAL_BE \<circ> set_val x, be)])"

definition interest32_pokes :: "u32 \<Rightarrow> int \<Rightarrow> (bool \<times> (stages \<Rightarrow> stages) \<times> u32) list" where
  "interest32_pokes orig x =
     (let le = of_int x; be = SWAP32 (of_int x)
      in [(\<not> could_be_bitflip (orig XOR le) \<and> \<not> could_be_arith orig le 4 \<and>
            \<not> could_be_interest orig le 4 False, set_type STAGE_VAL_LE \<circ> set_val x, le),
          (le \<noteq> be \<and> \<not> could_be_bitflip (orig XOR be) \<and> \<not> could_be_arith orig be 4 \<and>
            \<not> could_be_interest orig be 4 True, set_type STAGE_VAL_BE \<circ> set_val x, be)])"

definition interest_at ::
  "nat \<Rightarrow> ('a::len word \<Rightarrow> int \<Rightarrow> (bool \<times> (stages \<Rightarrow> stages) \<times> 'a word) list) \<Rightarrow> int list \<Rightarrow> bool list \<Rightarrow> tester \<Rightarrow> nat \<Rightarrow>
    u8 list \<times> stages \<Rightarrow> (bool \<times> u8 list \<times> stages) option" where
  "interest_at n pokes table eff_map run i = (\<lambda>(buf, s). do {
     orig \<leftarrow> rdn n buf i;
     e \<leftarrow> effs eff_map [i..<i + n];
     (if \<not> e then Some (False, buf, fewer (2 * int (length table)) s)
      else poke_all n run i orig (concat (map (pokes orig) table)) (buf, set_byte i s))
   })"

definition interest8_stage :: "bool list \<Rightarrow> tester \<Rightarrow> u8 list \<times> stages \<Rightarrow> (bool \<times> u8 list \<times> stages) option" where
  "interest8_stage eff_map run = (\<lambda>(buf, s).
     run_stage STAGE_INTEREST8 ''int8'' (int (length buf * length interesting_8)) (interest8_at eff_map run) [0..<length buf]
       (buf, set_type STAGE_VAL_LE s))"

definition interest16_stage :: "bool list \<Rightarrow> tester \<Rightarrow> u8 list \<times> stages \<Rightarrow> (bool \<times> u8 list \<times> stages) option" where
  "interest16_stage eff_map run = (\<lambda>(buf, s).
     if no_arith s \<or> length buf < 2 then Some (False, buf, s)
     else run_stage STAGE_INTEREST16 ''int16'' (2 * (int (length buf) - 1) * int (length interesting_16))
       (interest_at 2 interest16_pokes interesting_16 eff_map run) [0..<length buf - 1] (buf, s))"

definition interest32_stage :: "bool list \<Rightarrow> tester \<Rightarrow> u8 list \<times> stages \<Rightarrow> (bool \<times> u8 list \<times> stages) option" where
  "interest32_stage eff_map run = (\<lambda>(buf, s).
     if no_arith s \<or> length buf < 4 then Some (False, buf, s)
     else run_stage STAGE_INTEREST32 ''int32'' (2 * (int (length buf) - 3) * int (length interesting_32))
       (interest_at 4 interest32_pokes interesting_32 eff_map run) [0..<length buf - 3] (buf, s))"

section \<open>Dictionaries\<close>

definition MAX_DET_EXTRAS :: nat where "MAX_DET_EXTRAS = 200"

text \<open>\<open>memchr\<close> over the span of a token in the effector map.\<close>

definition span_eff :: "bool list \<Rightarrow> nat \<Rightarrow> nat \<Rightarrow> bool option" where
  "span_eff eff_map i n =
     (if EFF_APOS i + EFF_SPAN_ALEN i n \<le> length eff_map
      then Some (True \<in> set (take (EFF_SPAN_ALEN i n) (drop (EFF_APOS i) eff_map))) else None)"

text \<open>A token at a position; \<open>dice\<close> says that it was left out by chance.\<close>

definition over_token ::
  "bool list \<Rightarrow> tester \<Rightarrow> nat \<Rightarrow> bool \<Rightarrow> u8 list \<Rightarrow> u8 list \<times> stages \<times> nat \<Rightarrow> (bool \<times> u8 list \<times> stages \<times> nat) option" where
  "over_token eff_map run i dice d = (\<lambda>(buf, s, last_len).
     if dice \<or> length d > length buf - i then Some (False, buf, fewer 1 s, last_len)
     else do {
       old \<leftarrow> getn buf i (length d);
       e \<leftarrow> span_eff eff_map i (length d);
       (if old = d \<or> \<not> e then Some (False, buf, fewer 1 s, last_len)
        else do {
          buf \<leftarrow> putn buf i d;
          (a, s) \<leftarrow> try_case run buf s;
          Some (a, buf, if a then s else one_more s, length d)
        })
     })"

definition user_token ::
  "bool list \<Rightarrow> tester \<Rightarrow> nat \<Rightarrow> extra_data \<Rightarrow> u8 list \<times> stages \<times> nat \<Rightarrow> (bool \<times> u8 list \<times> stages \<times> nat) option" where
  "user_token eff_map run i e = (\<lambda>(buf, s, last_len). do {
     let n = length (extras s);
     (dice, s) \<leftarrow> (if n > MAX_DET_EXTRAS then map_option (\<lambda>(r, s). (r \<ge> MAX_DET_EXTRAS, s)) (URs n s) else Some (False, s));
     over_token eff_map run i dice (ex_data e) (buf, s, last_len)
   })"

text \<open>All tokens at a position, then the bytes of \<open>in_buf\<close> again.\<close>

definition tokens_at ::
  "(extra_data \<Rightarrow> u8 list \<times> stages \<times> nat \<Rightarrow> (bool \<times> u8 list \<times> stages \<times> nat) option) \<Rightarrow> extra_data list \<Rightarrow> u8 list \<Rightarrow> nat \<Rightarrow>
    u8 list \<times> stages \<Rightarrow> (bool \<times> u8 list \<times> stages) option" where
  "tokens_at step es in_buf i = (\<lambda>(buf, s). do {
     (a, buf, s, last_len) \<leftarrow> until_abandoned step es (buf, set_byte i s, 0);
     (if a then Some (True, buf, s)
      else do { old \<leftarrow> getn in_buf i last_len; buf \<leftarrow> putn buf i old; Some (False, buf, s) })
   })"

definition extras_over_stage :: "u8 list \<Rightarrow> bool list \<Rightarrow> tester \<Rightarrow> u8 list \<times> stages \<Rightarrow> (bool \<times> u8 list \<times> stages) option" where
  "extras_over_stage in_buf eff_map run = (\<lambda>(buf, s).
     run_stage STAGE_EXTRAS_UO ''ext_UO'' (int (length (extras s) * length buf))
       (\<lambda>i. tokens_at (user_token eff_map run i) (extras s) in_buf i) [0..<length buf] (buf, set_type STAGE_VAL_NONE s))"

text \<open>
  Insertion works in a second buffer, whose head grows with the position. The copy of the head does not
  stop at the last byte: at the last position \<open>out_buf[len]\<close> is read, which is behind the buffer but still
  in the block that \<open>ck_alloc_nozero\<close> has got for it. \<open>ck_block\<close> is this block from the first byte of the
  buffer on, which ends with the allocator's mark.
\<close>

definition C2_MARK :: u8 where "C2_MARK = 0xF0"

definition ck_block :: "u8 list \<Rightarrow> u8 list" where
  "ck_block buf = buf @ [C2_MARK]"

definition insert_token ::
  "tester \<Rightarrow> nat \<Rightarrow> u8 list \<Rightarrow> extra_data \<Rightarrow> u8 list \<times> stages \<Rightarrow> (bool \<times> u8 list \<times> stages) option" where
  "insert_token run i buf e = (\<lambda>(ex_tmp, s).
     if length buf + ex_len e > MAX_FILE then Some (False, ex_tmp, fewer 1 s)
     else do {
       ex_tmp \<leftarrow> putn ex_tmp i (ex_data e);
       ex_tmp \<leftarrow> putn ex_tmp (i + ex_len e) (drop i buf);
       (a, s) \<leftarrow> try_case run (take (length buf + ex_len e) ex_tmp) s;
       Some (a, ex_tmp, if a then s else one_more s)
     })"

definition insert_at :: "tester \<Rightarrow> u8 list \<Rightarrow> nat \<Rightarrow> u8 list \<times> stages \<Rightarrow> (bool \<times> u8 list \<times> stages) option" where
  "insert_at run buf i = (\<lambda>(ex_tmp, s). do {
     (a, ex_tmp, s) \<leftarrow> until_abandoned (insert_token run i buf) (extras s) (ex_tmp, set_byte i s);
     (if a then Some (True, ex_tmp, s)
      else do {
        c \<leftarrow> getn (ck_block buf) i 1;
        ex_tmp \<leftarrow> putn ex_tmp i c;
        Some (False, ex_tmp, s)
      })
   })"

definition extras_insert_stage :: "tester \<Rightarrow> u8 list \<times> stages \<Rightarrow> (bool \<times> u8 list \<times> stages) option" where
  "extras_insert_stage run = (\<lambda>(buf, s). do {
     (a, ex_tmp, s) \<leftarrow> run_stage STAGE_EXTRAS_UI ''ext_UI'' (int (length (extras s) * length buf)) (insert_at run buf) [0..<Suc (length buf)]
        (replicate (length buf + MAX_DICT_FILE) 0, s);
     Some (a, buf, s)
   })"

definition auto_over_stage :: "u8 list \<Rightarrow> bool list \<Rightarrow> tester \<Rightarrow> u8 list \<times> stages \<Rightarrow> (bool \<times> u8 list \<times> stages) option" where
  "auto_over_stage in_buf eff_map run = (\<lambda>(buf, s).
     let es = take USE_AUTO_EXTRAS (a_extras s) in
     run_stage STAGE_EXTRAS_AO ''ext_AO'' (int (length es * length buf))
       (\<lambda>i. tokens_at (\<lambda>e. over_token eff_map run i False (ex_data e)) es in_buf i) [0..<length buf] (buf, set_type STAGE_VAL_NONE s))"

section \<open>All of them\<close>

text \<open>The name behind the last slash.\<close>

definition base_name :: "string \<Rightarrow> string option" where
  "base_name f = (if CHR 0x2F \<in> set f then Some (rev (takeWhile (\<lambda>c. c \<noteq> CHR 0x2F) (rev f))) else None)"

definition mark_as_det_done :: "nat \<Rightarrow> fuzzer \<Rightarrow> fuzzer option" where
  "mark_as_det_done q f = do {
     b \<leftarrow> base_name (fname (queue (core f) ! q));
     let (fn, f) = alloc_printf (out_dir (core f) @ ''/queue/.state/deterministic_done/'' @ b) f;
     f \<leftarrow> create_excl True fn [] f;
     f \<leftarrow> ck_free_name fn f;
     Some (upd_core (upd_entry q (\<lambda>e. e\<lparr>passed_det := True\<rparr>)) f)
   }"

definition if_stage :: "(stages \<Rightarrow> bool) \<Rightarrow> (u8 list \<times> stages \<Rightarrow> (bool \<times> u8 list \<times> stages) option) \<Rightarrow>
    u8 list \<times> stages \<Rightarrow> (bool \<times> u8 list \<times> stages) option" where
  "if_stage c f = (\<lambda>(buf, s). if c s then f (buf, s) else Some (False, buf, s))"

text \<open>The stages before and after the effector map is there.\<close>

definition early_stages :: "tester \<Rightarrow> (u8 list \<times> stages \<Rightarrow> (bool \<times> u8 list \<times> stages) option) list" where
  "early_stages run = [flip1_stage run, flip2_stage run, flip4_stage run]"

definition late_stages :: "u8 list \<Rightarrow> bool list \<Rightarrow> tester \<Rightarrow> (u8 list \<times> stages \<Rightarrow> (bool \<times> u8 list \<times> stages) option) list" where
  "late_stages in_buf eff_map run =
     [flip16_stage eff_map run, flip32_stage eff_map run,
      if_stage (\<lambda>s. \<not> no_arith s) (arith8_stage eff_map run), if_stage (\<lambda>s. \<not> no_arith s) (arith16_stage eff_map run),
      if_stage (\<lambda>s. \<not> no_arith s) (arith32_stage eff_map run),
      interest8_stage eff_map run, interest16_stage eff_map run, interest32_stage eff_map run,
      if_stage (\<lambda>s. extras s \<noteq> []) (extras_over_stage in_buf eff_map run),
      if_stage (\<lambda>s. extras s \<noteq> []) (extras_insert_stage run),
      if_stage (\<lambda>s. a_extras s \<noteq> []) (auto_over_stage in_buf eff_map run)]"

definition det_run :: "tester \<Rightarrow> u8 list \<Rightarrow> stages \<Rightarrow> (bool \<times> u8 list \<times> stages) option" where
  "det_run run in_buf s = do {
     (a, buf, s) \<leftarrow> until_abandoned (\<lambda>f. f) (early_stages run) (in_buf, s);
     (if a then Some (True, buf, s)
      else do {
        (a, buf, s, eff_map) \<leftarrow> flip8_stage run (buf, s);
        (if a then Some (True, buf, s) else until_abandoned (\<lambda>f. f) (late_stages in_buf eff_map run) (buf, s))
      })
   }"

definition det_stages :: "tester \<Rightarrow> u8 list \<Rightarrow> stages \<Rightarrow> (bool \<times> u8 list \<times> stages) option" where
  "det_stages run in_buf s = do {
     (a, buf, s) \<leftarrow> det_run run in_buf s;
     (if a then Some (True, buf, s)
      else let q = queue_cur (core (fz s)) in
        if passed_det (queue (core (fz s)) ! q) then Some (False, buf, s)
        else map_option (\<lambda>f. (False, buf, s\<lparr>fz := f\<rparr>)) (mark_as_det_done q (fz s)))
   }"

end
