(* ===== verification/Afl_Stages.thy ===== *)
theory Afl_Stages
  imports Afl_Det
begin

text \<open>
  The contract of the deterministic stages and that every stage of \<open>Afl_Det\<close> keeps it: it returns when
  its test cases are answered, it leaves the buffer as it found it, and it runs the test cases it is for.
\<close>

section \<open>What a stage promises\<close>

text \<open>
  A test case is answered when running it always returns, and tested when it was run in some state
  without abandoning the entry. As the theorems hold of every \<open>run\<close>, a test case that
  must be tested is really run, and one that need not be answered is not.
\<close>

definition answers :: "tester \<Rightarrow> u8 list \<Rightarrow> bool" where
  "answers run t \<longleftrightarrow> (\<forall>f. \<exists>a f'. run t f = Some (a, f'))"

definition tested :: "tester \<Rightarrow> u8 list \<Rightarrow> bool" where
  "tested run t \<longleftrightarrow> (\<exists>f f'. run t f = Some (False, f'))"

text \<open>
  The contract of a part of a stage that starts from the buffer \<open>buf\<close>: it returns if the test cases
  in \<open>A\<close> are answered, and unless it abandons the entry, it leaves the buffer as it was, keeps \<open>I\<close> and
  has tested all of \<open>T\<close>.
\<close>

definition stage_ok ::
  "tester \<Rightarrow> ('r \<Rightarrow> bool) \<Rightarrow> u8 list \<Rightarrow> u8 list set \<Rightarrow> u8 list set \<Rightarrow> (u8 list \<times> 'r \<Rightarrow> (bool \<times> u8 list \<times> 'r) option) \<Rightarrow> bool" where
  "stage_ok run I buf A T f \<longleftrightarrow>
     (\<forall>r. I r \<longrightarrow> ((\<forall>t \<in> A. answers run t) \<longrightarrow> f (buf, r) \<noteq> None) \<and>
       (\<forall>buf' r'. f (buf, r) = Some (False, buf', r') \<longrightarrow> buf' = buf \<and> I r' \<and> (\<forall>t \<in> T. tested run t)))"

lemma stage_okI:
  assumes "\<And>r. I r \<Longrightarrow> \<forall>t \<in> A. answers run t \<Longrightarrow> f (buf, r) \<noteq> None"
    and "\<And>r buf' r'. I r \<Longrightarrow> f (buf, r) = Some (False, buf', r') \<Longrightarrow> buf' = buf \<and> I r' \<and> (\<forall>t \<in> T. tested run t)"
  shows "stage_ok run I buf A T f"
  using assms by (auto simp: stage_ok_def)

lemma stage_ok_total: "stage_ok run I buf A T f \<Longrightarrow> I r \<Longrightarrow> \<forall>t \<in> A. answers run t \<Longrightarrow> f (buf, r) \<noteq> None"
  by (auto simp: stage_ok_def)

lemma stage_okD:
  "stage_ok run I buf A T f \<Longrightarrow> I r \<Longrightarrow> f (buf, r) = Some (False, buf', r') \<Longrightarrow>
     buf' = buf \<and> I r' \<and> (\<forall>t \<in> T. tested run t)"
  unfolding stage_ok_def by blast

lemma stage_ok_weaken: "stage_ok run I buf A T f \<Longrightarrow> A \<subseteq> A' \<Longrightarrow> T' \<subseteq> T \<Longrightarrow> stage_ok run I buf A' T' f"
  unfolding stage_ok_def by blast

lemma stage_ok_skip: "(\<And>r. I r \<Longrightarrow> I (g r)) \<Longrightarrow> stage_ok run I buf A {} (\<lambda>(buf, r). Some (False, buf, g r))"
  by (auto simp: stage_ok_def)

lemma stage_ok_loop:
  assumes "\<And>i. i \<in> set is \<Longrightarrow> stage_ok run I buf (A i) (T i) (body i)"
  shows "stage_ok run I buf (\<Union>i \<in> set is. A i) (\<Union>i \<in> set is. T i) (until_abandoned body is)"
  using assms
proof (induction "is")
  case (Cons i "is")
  have hd: "stage_ok run I buf (A i) (T i) (body i)" and tl: "stage_ok run I buf (\<Union>i \<in> set is. A i) (\<Union>i \<in> set is. T i) (until_abandoned body is)"
    using Cons by simp_all
  show ?case
  proof (rule stage_okI)
    fix r assume "I r" and A: "\<forall>t \<in> \<Union>i \<in> set (i # is). A i. answers run t"
    then obtain a buf' r' where b: "body i (buf, r) = Some (a, buf', r')" using stage_ok_total [OF hd] by fastforce
    show "until_abandoned body (i # is) (buf, r) \<noteq> None"
      using b stage_okD [OF hd \<open>I r\<close>, of buf' r'] stage_ok_total [OF tl, of r'] A by (cases a) auto
  next
    fix r buf' r' assume "I r" "until_abandoned body (i # is) (buf, r) = Some (False, buf', r')"
    then obtain buf1 r1 where "body i (buf, r) = Some (False, buf1, r1)" "until_abandoned body is (buf1, r1) = Some (False, buf', r')"
      by (auto split: option.splits prod.splits if_splits)
    then show "buf' = buf \<and> I r' \<and> (\<forall>t \<in> \<Union>i \<in> set (i # is). T i. tested run t)"
      using stage_okD [OF hd \<open>I r\<close>] stage_okD [OF tl] by fastforce
  qed
qed (simp add: stage_ok_def)

text \<open>
  The invariant of the stages: the dictionaries are in order, and the switch for arithmetic and the
  user's tokens, the pair \<open>na\<close>, do not change.
\<close>

definition extras_wf :: "extra_data list \<Rightarrow> bool" where
  "extras_wf es \<longleftrightarrow> sorted (map ex_len es) \<and> (\<forall>e \<in> set es. 0 < ex_len e \<and> ex_len e \<le> MAX_DICT_FILE)"

definition sinv :: "bool \<times> extra_data list \<Rightarrow> stages \<Rightarrow> bool" where
  "sinv na s \<longleftrightarrow> (no_arith s, extras s) = na \<and> auto_wf (a_extras s) \<and> extras_wf (extras s)"

lemma sinv_simps [simp]:
  "sinv na (s\<lparr>fz := f\<rparr>) = sinv na s" "sinv na (s\<lparr>stage_cur := i\<rparr>) = sinv na s" "sinv na (upd_fz g s) = sinv na s"
  "sinv na (set_byte k s) = sinv na s" "sinv na (set_type ty s) = sinv na s" "sinv na (set_val v s) = sinv na s"
  "sinv na (one_more s) = sinv na s" "sinv na (fewer j s) = sinv na s" "sinv na (begin_stage sh n s) = sinv na s"
  "sinv na (end_stage kd h s) = sinv na s"
  by (simp_all add: sinv_def upd_fz_def set_byte_def set_type_def set_val_def one_more_def fewer_def begin_stage_def end_stage_def)

lemma try_case_Some: "try_case run t s = Some (a, s') \<longleftrightarrow> (\<exists>f. run t (fz s) = Some (a, f) \<and> s' = s\<lparr>fz := f\<rparr>)"
  by (auto simp: try_case_def)

lemma try_case_None: "answers run t \<Longrightarrow> try_case run t s \<noteq> None"
  by (auto simp: try_case_def answers_def)

lemma try_case_tested: "try_case run t s = Some (False, s') \<Longrightarrow> tested run t"
  unfolding try_case_Some tested_def by blast

lemma run_stage_ok:
  assumes "stage_ok run (sinv na) buf A T (until_abandoned body is)"
  shows "stage_ok run (sinv na) buf A T (run_stage k short n body is)"
proof (rule stage_okI)
  fix s assume "sinv na s" "\<forall>t \<in> A. answers run t"
  then show "run_stage k short n body is (buf, s) \<noteq> None"
    using stage_ok_total [OF assms, of "begin_stage short n s"] by (auto simp: run_stage_def split: option.splits)
next
  fix s buf' s' assume "sinv na s" "run_stage k short n body is (buf, s) = Some (False, buf', s')"
  then show "buf' = buf \<and> sinv na s' \<and> (\<forall>t \<in> T. tested run t)"
    using stage_okD [OF assms, of "begin_stage short n s"]
    by (auto simp: run_stage_def split: Option.bind_splits if_splits)
qed

section \<open>Flips\<close>

lemma flip_bits_commute: "FLIP_BIT ar a \<bind> (\<lambda>x. flip_bits x b n) = flip_bits ar b n \<bind> (\<lambda>x. FLIP_BIT x a)"
proof (induction n arbitrary: ar b)
  case (Suc n)
  have "FLIP_BIT ar a \<bind> (\<lambda>x. flip_bits x b (Suc n)) = (FLIP_BIT ar a \<bind> (\<lambda>x. FLIP_BIT x b)) \<bind> (\<lambda>y. flip_bits y (Suc b) n)"
    by (simp add: bind_assoc)
  also have "\<dots> = FLIP_BIT ar b \<bind> (\<lambda>x. FLIP_BIT x a \<bind> (\<lambda>y. flip_bits y (Suc b) n))"
    by (simp only: FLIP_BIT_commute [of ar a b] bind_assoc)
  finally show ?case unfolding Suc by (simp add: bind_assoc)
qed simp

lemma flip_bits_back: "flip_bits buf b n = Some t \<Longrightarrow> flip_bits t b n = Some buf"
proof (induction n arbitrary: buf b t)
  case (Suc n)
  from Suc.prems obtain x where x: "FLIP_BIT buf b = Some x" "flip_bits x (Suc b) n = Some t" by (auto split: Option.bind_splits)
  from FLIP_BIT_self [OF x(1)] have "FLIP_BIT x b = Some buf" .
  moreover have "flip_bits t (Suc b) n = Some x" by (rule Suc.IH [OF x(2)])
  ultimately show ?case by (simp only: flip_bits.simps flip_bits_commute bind.bind_lunit)
qed simp

lemma flip_bits_length: "flip_bits buf b n = Some t \<Longrightarrow> length t = length buf"
  by (induction n arbitrary: buf b) (auto simp: FLIP_BIT_length split: Option.bind_splits dest: FLIP_BIT_length)

lemma flip_bits_Some: "b + n \<le> 8 * length buf \<Longrightarrow> \<exists>t. flip_bits buf b n = Some t"
proof (induction n arbitrary: buf b)
  case (Suc n)
  then have "b div 8 < length buf" by auto
  then obtain x where x: "FLIP_BIT buf b = Some x" by (simp add: FLIP_BIT_def)
  then show ?case using Suc.IH [of "Suc b" x] Suc.prems FLIP_BIT_length [OF x] by simp
qed simp

lemma walk_bits_ok:
  assumes "flip_bits buf i n = Some t"
  shows "stage_ok run (sinv na) buf {t} {t} (walk_bits n run i)"
proof (rule stage_okI)
  fix s assume "sinv na s" "\<forall>t \<in> {t}. answers run t"
  then show "walk_bits n run i (buf, s) \<noteq> None"
    using assms flip_bits_back [OF assms] try_case_None [of run t "set_byte (i div 8) (s\<lparr>stage_cur := int i\<rparr>)"]
    by (auto simp: walk_bits_def split: Option.bind_splits)
next
  fix s buf' s' assume "sinv na s" "walk_bits n run i (buf, s) = Some (False, buf', s')"
  then show "buf' = buf \<and> sinv na s' \<and> (\<forall>t \<in> {t}. tested run t)"
    using assms flip_bits_back [OF assms]
    by (auto simp: walk_bits_def split: Option.bind_splits if_splits dest: try_case_tested) (auto simp: try_case_Some)
qed

text \<open>The test cases of the stages that flip bits.\<close>

definition bit_cases :: "nat \<Rightarrow> u8 list \<Rightarrow> u8 list set" where
  "bit_cases n buf = {t. \<exists>i. i + n \<le> 8 * length buf \<and> flip_bits buf i n = Some t}"

lemma flip_bits_the: "b + n \<le> 8 * length buf \<Longrightarrow> flip_bits buf b n = Some (the (flip_bits buf b n))"
  using flip_bits_Some [of b n buf] by auto

lemma bit_cases_union: "0 < n \<Longrightarrow> (\<Union>i \<in> set [0..<8 * length buf - (n - 1)]. {the (flip_bits buf i n)}) = bit_cases n buf"
proof (intro set_eqI iffI)
  fix t assume "0 < n" "t \<in> (\<Union>i \<in> set [0..<8 * length buf - (n - 1)]. {the (flip_bits buf i n)})"
  then obtain i where i: "i < 8 * length buf - (n - 1)" "t = the (flip_bits buf i n)" by auto
  then have "i + n \<le> 8 * length buf" using \<open>0 < n\<close> by arith
  with i(2) show "t \<in> bit_cases n buf" unfolding bit_cases_def using flip_bits_the by blast
next
  fix t assume "0 < n" "t \<in> bit_cases n buf"
  then obtain i where "i + n \<le> 8 * length buf" "flip_bits buf i n = Some t" unfolding bit_cases_def by blast
  then show "t \<in> (\<Union>i \<in> set [0..<8 * length buf - (n - 1)]. {the (flip_bits buf i n)})"
    using \<open>0 < n\<close> by (intro UN_I [of i]) auto
qed

lemma walk_bits_stage_ok:
  assumes "0 < n"
  shows "stage_ok run (sinv na) buf (bit_cases n buf) (bit_cases n buf) (until_abandoned (walk_bits n run) [0..<8 * length buf - (n - 1)])"
  unfolding bit_cases_union [OF assms, symmetric]
  by (rule stage_ok_loop, rule walk_bits_ok, rule flip_bits_the) (use assms in auto)

lemma flip2_ok: "stage_ok run (sinv na) buf (bit_cases 2 buf) (bit_cases 2 buf) (flip2_stage run)"
  using run_stage_ok [OF walk_bits_stage_ok [of 2 run na buf]] by (simp add: flip2_stage_def stage_ok_def)

lemma flip4_ok: "stage_ok run (sinv na) buf (bit_cases 4 buf) (bit_cases 4 buf) (flip4_stage run)"
  using run_stage_ok [OF walk_bits_stage_ok [of 4 run na buf]] by (simp add: flip4_stage_def stage_ok_def)

text \<open>With the tokens that are collected on the way.\<close>

definition cinv :: "bool \<times> extra_data list \<Rightarrow> stages \<times> collector \<Rightarrow> bool" where
  "cinv na = (\<lambda>(s, c). sinv na s \<and> length (a_collect c) = min (a_len c) MAX_AUTO_EXTRA)"

lemma collect_length:
  "length (a_collect c) = min (a_len c) MAX_AUTO_EXTRA \<Longrightarrow> length (a_collect (collect b c)) = min (a_len (collect b c)) MAX_AUTO_EXTRA"
  by (simp add: collect_def min_def)

lemma emit_token_ok:
  assumes "sinv na s" "length (a_collect c) = min (a_len c) MAX_AUTO_EXTRA"
  shows "\<exists>s'. emit_token c s = Some s' \<and> sinv na s'"
proof (cases "MIN_AUTO_EXTRA \<le> a_len c \<and> a_len c \<le> MAX_AUTO_EXTRA")
  case True
  then obtain s' where "maybe_add_auto (a_collect c) s = Some s'" "auto_wf (a_extras s')" "extras s' = extras s"
    using maybe_add_auto_wf [of s "a_collect c"] assms by (auto simp: sinv_def)
  moreover from this have "no_arith s' = no_arith s"
    by (auto simp: maybe_add_auto_def URs_def UR_def upd_fz_def Let_def split: if_splits option.splits Option.bind_splits)
  ultimately show ?thesis using True assms(1) by (auto simp: emit_token_def sinv_def)
qed (use assms in \<open>auto simp: emit_token_def\<close>)

lemma note_token_ok:
  assumes "cinv na (s, c)"
  shows "\<exists>x. note_token i buf (s, c) = Some x \<and> cinv na x"
proof (cases "dumb_mode (core (fz s)) \<or> i mod 8 \<noteq> 7")
  case True
  then show ?thesis using assms by (simp add: note_token_def)
next
  case False
  let ?b = "buf ! (i div 8)" and ?ck = "checksum (fz s)"
  have inv: "sinv na s" "length (a_collect c) = min (a_len c) MAX_AUTO_EXTRA" using assms by (simp_all add: cinv_def)
  obtain s1 where s1: "emit_token c s = Some s1" "sinv na s1" using emit_token_ok [OF inv] by blast
  obtain s2 where s2: "emit_token (collect ?b c) s = Some s2" "sinv na s2"
    using emit_token_ok [OF inv(1) collect_length [OF inv(2)]] by blast
  have last: "cinv na (s', if d then collect ?b c' else c')" if "cinv na (s', c')" for s' c' d
    using that collect_length [of c' ?b] by (simp add: cinv_def)
  show ?thesis
    using False s1 s2 inv last collect_length [OF inv(2), of ?b]
    by (auto simp: note_token_def Let_def cinv_def)
qed

lemma flip1_at_ok:
  assumes "i < 8 * length buf"
  shows "stage_ok run (cinv na) buf {the (FLIP_BIT buf i)} {the (FLIP_BIT buf i)} (flip1_at run i)"
proof -
  have "i div 8 < length buf" using assms by auto
  then obtain t where t: "FLIP_BIT buf i = Some t" by (simp add: FLIP_BIT_def)
  note undo = FLIP_BIT_self [OF t]
  show ?thesis
  proof (rule stage_okI)
    fix r assume inv: "cinv na r" and "\<forall>t \<in> {the (FLIP_BIT buf i)}. answers run t"
    obtain s c where r: "r = (s, c)" by (cases r)
    have "answers run t" using \<open>\<forall>t \<in> {the (FLIP_BIT buf i)}. answers run t\<close> t by simp
    then obtain a s1 where s1: "try_case run t (set_byte (i div 8) (s\<lparr>stage_cur := int i\<rparr>)) = Some (a, s1)"
      using try_case_None by fast
    then have "cinv na (s1, c)" using inv r by (auto simp: cinv_def try_case_Some)
    from note_token_ok [OF this, of i buf] show "flip1_at run i (buf, r) \<noteq> None"
      using r t undo s1 by (cases a) (auto simp: flip1_at_def)
  next
    fix r buf' r' assume inv: "cinv na r" and run: "flip1_at run i (buf, r) = Some (False, buf', r')"
    obtain s c where r: "r = (s, c)" by (cases r)
    from run obtain s1 where s1: "try_case run t (set_byte (i div 8) (s\<lparr>stage_cur := int i\<rparr>)) = Some (False, s1)"
      and n: "note_token i buf (s1, c) = Some r'" "buf' = buf"
      using t undo by (auto simp: flip1_at_def r split: Option.bind_splits if_splits)
    have "cinv na (s1, c)" using inv r s1 by (auto simp: cinv_def try_case_Some)
    from note_token_ok [OF this, of i buf] n try_case_tested [OF s1] t
    show "buf' = buf \<and> cinv na r' \<and> (\<forall>t \<in> {the (FLIP_BIT buf i)}. tested run t)" by auto
  qed
qed

lemma flip1_ok: "stage_ok run (sinv na) buf (bit_cases 1 buf) (bit_cases 1 buf) (flip1_stage run)"
proof -
  have "flip_bits buf i 1 = FLIP_BIT buf i" for i by (cases "FLIP_BIT buf i") simp_all
  then have u: "(\<Union>i \<in> set [0..<8 * length buf]. {the (FLIP_BIT buf i)}) = bit_cases 1 buf"
    using bit_cases_union [OF zero_less_one, of buf] by (simp only: diff_self_eq_0 diff_zero)
  have loop: "stage_ok run (cinv na) buf (bit_cases 1 buf) (bit_cases 1 buf) (until_abandoned (flip1_at run) [0..<8 * length buf])"
    unfolding u [symmetric] by (rule stage_ok_loop, rule flip1_at_ok) simp
  have start: "cinv na (flip1_start buf s)" if "sinv na s" for s using that by (simp add: cinv_def flip1_start_def Let_def)
  show ?thesis
  proof (rule stage_okI)
    fix s assume s: "sinv na s" and A: "\<forall>t \<in> bit_cases 1 buf. answers run t"
    show "flip1_stage run (buf, s) \<noteq> None"
      using stage_ok_total [OF loop start [OF s] A] by (auto simp: flip1_stage_def)
  next
    fix s buf' s' assume s: "sinv na s" and "flip1_stage run (buf, s) = Some (False, buf', s')"
    then obtain s1 c where g: "until_abandoned (flip1_at run) [0..<8 * length buf] (buf, flip1_start buf s) = Some (False, buf', s1, c)"
      "s' = end_stage STAGE_FLIP1 (hits s) s1"
      by (auto simp: flip1_stage_def split: Option.bind_splits)
    show "buf' = buf \<and> sinv na s' \<and> (\<forall>t \<in> bit_cases 1 buf. tested run t)"
      using stage_okD [OF loop start [OF s] g(1)] g(2) by (simp add: cinv_def)
  qed
qed

definition byte_cases :: "u8 list \<Rightarrow> u8 list set" where
  "byte_cases buf = (\<Union>i \<in> set [0..<length buf]. {buf[i := buf ! i XOR 0xFF]})"

definition einv :: "bool \<times> extra_data list \<Rightarrow> nat \<Rightarrow> stages \<times> bool list \<times> nat \<Rightarrow> bool" where
  "einv na n = (\<lambda>(s, eff_map, eff_cnt). sinv na s \<and> length eff_map = EFF_ALEN n)"

lemma EFF_pos: "i < n \<Longrightarrow> EFF_APOS i < EFF_ALEN n"
proof (cases "n mod 8 = 0")
  case True
  assume "i < n"
  then have "i < n div 8 * 8" using True by presburger
  then show ?thesis using True by (simp add: EFF_APOS_def EFF_ALEN_def less_mult_imp_div_less)
next
  case False
  assume "i < n"
  then show ?thesis using False div_le_mono [of i n 8] by (simp add: EFF_APOS_def EFF_ALEN_def)
qed

lemma mark_eff_Some: "EFF_APOS i < length eff \<Longrightarrow> \<exists>eff' cnt'. mark_eff i buf s (eff, cnt) = Some (eff', cnt') \<and> length eff' = length eff"
  by (simp add: mark_eff_def Let_def)

lemma xor_ff_self: "(b XOR 0xFF) XOR 0xFF = (b :: u8)"
  by (simp add: xor.assoc)

lemma flip8_at_eq:
  assumes "i < length buf"
  shows "flip8_at run i (buf, s, eff) = do {
     (a, s) \<leftarrow> try_case run (buf[i := buf ! i XOR 0xFF]) (set_byte i (s\<lparr>stage_cur := int i\<rparr>));
     (if a then Some (True, buf[i := buf ! i XOR 0xFF], s, eff)
      else do { eff \<leftarrow> mark_eff i (buf[i := buf ! i XOR 0xFF]) s eff; Some (False, buf, s, eff) }) }"
proof (cases "try_case run (buf[i := buf ! i XOR 0xFF]) (set_byte i (s\<lparr>stage_cur := int i\<rparr>))")
  case None
  then show ?thesis using assms by (simp add: flip8_at_def rdn1 wrn1 del: rdn_Some One_nat_def)
next
  case (Some x)
  then show ?thesis using assms
    by (cases x; cases "fst x") (simp_all add: flip8_at_def rdn1 wrn1 xor_ff_self del: rdn_Some One_nat_def)
qed

lemma flip8_at_ok:
  assumes "i < length buf"
  shows "stage_ok run (einv na (length buf)) buf {buf[i := buf ! i XOR 0xFF]} {buf[i := buf ! i XOR 0xFF]} (flip8_at run i)"
proof -
  define t where "t = buf[i := buf ! i XOR 0xFF]"
  note eq = flip8_at_eq [OF assms, folded t_def]
  show ?thesis unfolding t_def [symmetric]
  proof (rule stage_okI)
    fix r assume inv: "einv na (length buf) r" and A: "\<forall>t \<in> {t}. answers run t"
    obtain s eff cnt where r: "r = (s, eff, cnt)" by (rule prod_cases3)
    from A have "answers run t" by simp
    then obtain a s1 where s1: "try_case run t (set_byte i (s\<lparr>stage_cur := int i\<rparr>)) = Some (a, s1)" using try_case_None by fast
    have "EFF_APOS i < length eff" using inv r EFF_pos [OF assms] by (simp add: einv_def)
    from mark_eff_Some [OF this, of t s1 cnt] show "flip8_at run i (buf, r) \<noteq> None"
      unfolding r eq s1 by (cases a) auto
  next
    fix r buf' r' assume inv: "einv na (length buf) r" and run: "flip8_at run i (buf, r) = Some (False, buf', r')"
    obtain s eff cnt where r: "r = (s, eff, cnt)" by (rule prod_cases3)
    obtain a s1 where s1: "try_case run t (set_byte i (s\<lparr>stage_cur := int i\<rparr>)) = Some (a, s1)"
      using run unfolding r eq by (cases "try_case run t (set_byte i (s\<lparr>stage_cur := int i\<rparr>))") auto
    obtain eff' where a: "\<not> a" and e: "mark_eff i t s1 (eff, cnt) = Some eff'" "r' = (s1, eff')" "buf' = buf"
      using run unfolding r eq s1 by (cases a; cases "mark_eff i t s1 (eff, cnt)") auto
    have "length (fst eff') = length eff" using e(1) by (auto simp: mark_eff_def Let_def split: if_splits)
    moreover have "sinv na s1" using inv r s1 by (auto simp: einv_def try_case_Some)
    moreover have "tested run t" using s1 a try_case_tested by simp
    ultimately show "buf' = buf \<and> einv na (length buf) r' \<and> (\<forall>t \<in> {t}. tested run t)"
      using inv r e(2,3) by (cases eff') (simp add: einv_def)
  qed
qed

text \<open>On a short input every byte that was flipped counts as effective.\<close>

lemma not_self: "NOT x \<noteq> (x :: 'a::len word)"
proof
  assume "NOT x = x"
  then have "bit (NOT x) 0 = bit x 0" by simp
  then show False by (simp add: bit_not_iff)
qed

lemma mark_eff_short:
  assumes "mark_eff i buf s (eff, cnt) = Some (eff', cnt')" "length buf < EFF_MIN_LEN"
  shows "length eff' = length eff \<and> eff' ! EFF_APOS i \<and> (\<forall>k. eff ! k \<longrightarrow> k < length eff \<longrightarrow> eff' ! k)"
  using assms not_self [of "cur_cksum s"] by (auto simp: mark_eff_def Let_def nth_list_update split: if_splits)

lemma flip8_marks:
  assumes "length buf < EFF_MIN_LEN" "\<forall>i \<in> set is. i < length buf"
  shows "until_abandoned (flip8_at run) is (buf, s, eff, cnt) = Some (False, buf', s', eff', cnt') \<Longrightarrow>
    \<forall>i \<in> set is. EFF_APOS i < length eff \<Longrightarrow>
    length eff' = length eff \<and> (\<forall>i \<in> set is. eff' ! EFF_APOS i) \<and> (\<forall>k. eff ! k \<longrightarrow> k < length eff \<longrightarrow> eff' ! k)"
  using assms(2)
proof (induction "is" arbitrary: s eff cnt)
  case (Cons i "is")
  let ?t = "buf[i := buf ! i XOR 0xFF]"
  have i: "i < length buf" using Cons.prems(3) by simp
  obtain s1 e1 c1 where m: "mark_eff i ?t s1 (eff, cnt) = Some (e1, c1)"
    and rest: "until_abandoned (flip8_at run) is (buf, s1, e1, c1) = Some (False, buf', s', eff', cnt')"
    using Cons.prems(1) by (auto simp: flip8_at_eq [OF i] split: option.splits prod.splits if_splits Option.bind_splits)
  have "length ?t < EFF_MIN_LEN" using assms(1) by simp
  note me = mark_eff_short [OF m this]
  note ih = Cons.IH [OF rest]
  have ih: "length eff' = length e1 \<and> (\<forall>i \<in> set is. eff' ! EFF_APOS i) \<and> (\<forall>k. e1 ! k \<longrightarrow> k < length e1 \<longrightarrow> eff' ! k)"
    using ih Cons.prems(2,3) me by simp
  then show ?case using me Cons.prems(2) by auto
qed simp

lemma flip8_loop_ok:
  "stage_ok run (einv na (length buf)) buf (byte_cases buf) (byte_cases buf) (until_abandoned (flip8_at run) [0..<length buf])"
  unfolding byte_cases_def by (rule stage_ok_loop, rule flip8_at_ok) simp

lemma first_eff_length: "length (fst (first_eff n)) = EFF_ALEN n"
  by (simp add: first_eff_def Let_def)

text \<open>What the later stages know of the effector map.\<close>

definition eff_ok :: "u8 list \<Rightarrow> bool list \<Rightarrow> bool" where
  "eff_ok buf eff_map \<longleftrightarrow> length eff_map = EFF_ALEN (length buf) \<and>
     (length buf < EFF_MIN_LEN \<longrightarrow> (\<forall>i < length buf. eff_map ! EFF_APOS i))"

lemma flip8_total:
  assumes "sinv na s" "\<forall>t \<in> byte_cases buf. answers run t" "buf \<noteq> []"
  shows "flip8_stage run (buf, s) \<noteq> None"
proof -
  have "einv na (length buf) (begin_stage ''flip8'' (int (length buf)) s, first_eff (length buf))"
    using assms(1) first_eff_length [of "length buf"] by (cases "first_eff (length buf)") (simp add: einv_def)
  from stage_ok_total [OF flip8_loop_ok this assms(2)] show ?thesis using assms(3) by (auto simp: flip8_stage_def Let_def)
qed

lemma flip8_done:
  assumes "sinv na s" "flip8_stage run (buf, s) = Some (False, buf', s', eff_map)"
  shows "buf' = buf \<and> sinv na s' \<and> (\<forall>t \<in> byte_cases buf. tested run t) \<and> eff_ok buf eff_map"
proof -
  let ?n = "length buf"
  obtain e0 c0 where fe: "first_eff ?n = (e0, c0)" by fastforce
  have e0: "length e0 = EFF_ALEN ?n" using first_eff_length [of ?n] fe by simp
  have inv: "einv na ?n (begin_stage ''flip8'' (int ?n) s, e0, c0)" using assms(1) e0 by (simp add: einv_def)
  obtain s1 e c where loop: "until_abandoned (flip8_at run) [0..<?n] (buf, begin_stage ''flip8'' (int ?n) s, e0, c0) = Some (False, buf', s1, e, c)"
    and s': "sinv na s1 \<longrightarrow> sinv na s'" and em: "eff_map = e \<or> eff_map = replicate (EFF_ALEN (length buf')) True"
  proof -
    obtain a b s1 e c where l: "until_abandoned (flip8_at run) [0..<?n] (buf, begin_stage ''flip8'' (int ?n) s, e0, c0) = Some (a, b, s1, e, c)"
      using assms(2) fe by (auto simp: flip8_stage_def split: Option.bind_splits if_splits)
    show ?thesis
    proof (rule that)
      show "until_abandoned (flip8_at run) [0..<?n] (buf, begin_stage ''flip8'' (int ?n) s, e0, c0) = Some (False, buf', s1, e, c)"
        using assms(2) fe l by (auto simp: flip8_stage_def Let_def split: if_splits)
      show "sinv na s1 \<longrightarrow> sinv na s'" "eff_map = e \<or> eff_map = replicate (EFF_ALEN (length buf')) True"
        using assms(2) fe l by (auto simp: flip8_stage_def Let_def sinv_def end_stage_def split: if_splits)
    qed
  qed
  note d = stage_okD [OF flip8_loop_ok inv loop]
  have "\<forall>i < ?n. eff_map ! EFF_APOS i" if "?n < EFF_MIN_LEN"
    using em d flip8_marks [OF that _ loop] EFF_pos [of _ ?n] e0 by auto
  then show ?thesis using d s' em by (auto simp: eff_ok_def einv_def)
qed

section \<open>Words, arithmetic and interesting values\<close>

lemma effs_Some:
  assumes "eff_ok buf eff_map" "i + n \<le> length buf"
  shows "\<exists>e. effs eff_map [i..<i + n] = Some e \<and> (length buf < EFF_MIN_LEN \<longrightarrow> 0 < n \<longrightarrow> e)"
proof -
  have "list_all (\<lambda>p. EFF_APOS p < length eff_map) [i..<i + n]"
    using assms EFF_pos [of _ "length buf"] by (auto simp: eff_ok_def list_all_iff)
  moreover have "list_ex (\<lambda>p. eff_map ! EFF_APOS p) [i..<i + n]" if "length buf < EFF_MIN_LEN" "0 < n"
    using assms that unfolding eff_ok_def list_ex_iff by (intro bexI [of _ i]) auto
  ultimately show ?thesis by (auto simp: effs_def)
qed

definition word_flip :: "'a::len itself \<Rightarrow> nat \<Rightarrow> u8 list \<Rightarrow> nat \<Rightarrow> u8 list" where
  "word_flip T n buf i = the (wrn n buf i (the (rdn n buf i) XOR -1 :: 'a word))"

lemma flip_word_ok:
  fixes T :: "'a::len itself"
  assumes e: "eff_ok buf eff_map" and i: "i + n \<le> length buf" and len: "LENGTH('a) = 8 * n"
  shows "stage_ok run (sinv na) buf {word_flip T n buf i} {} (flip_word T n eff_map run i)"
proof -
  obtain ee where ee: "effs eff_map [i..<i + n] = Some ee" using effs_Some [OF e i] by blast
  obtain w :: "'a word" where w: "rdn n buf i = Some w" using i by simp
  define t where "t = word_flip T n buf i"
  have t: "wrn n buf i (w XOR -1 :: 'a word) = Some t" using i unfolding t_def word_flip_def w by (simp add: wrn_def)
  have rt: "rdn n t i = Some (w XOR -1 :: 'a word)" by (rule rdn_wrn [OF t len])
  have bk: "wrn n t i ((w XOR -1) XOR -1 :: 'a word) = Some buf" using wrn_back [OF w len t] by (simp add: xor.assoc)
  have eq: "flip_word T n eff_map run i (buf, s) =
      (if ee then do { (a, s) \<leftarrow> try_case run t (set_byte i s); (if a then Some (True, t, s) else Some (False, buf, one_more s)) }
       else Some (False, buf, fewer 1 s))" for s
    by (cases "try_case run t (set_byte i s)") (auto simp: flip_word_def ee w t [simplified] rt [simplified] bk [simplified] simp del: rdn_Some)
  show ?thesis unfolding t_def [symmetric]
  proof (rule stage_okI)
    fix s assume "\<forall>t \<in> {t}. answers run t"
    then show "flip_word T n eff_map run i (buf, s) \<noteq> None"
      using try_case_None [of run t "set_byte i s"] unfolding eq by auto
  next
    fix s buf' s' assume "sinv na s" "flip_word T n eff_map run i (buf, s) = Some (False, buf', s')"
    then show "buf' = buf \<and> sinv na s' \<and> (\<forall>t \<in> {}. tested run t)"
      unfolding eq by (auto simp: try_case_Some split: if_splits Option.bind_splits)
  qed
qed

text \<open>
  Values that are tried at one place: the buffer between two tries differs from the start only there,
  so writing the old value restores it.
\<close>

definition poke_cases :: "nat \<Rightarrow> u8 list \<Rightarrow> nat \<Rightarrow> (bool \<times> (stages \<Rightarrow> stages) \<times> 'a::len word) list \<Rightarrow> u8 list set" where
  "poke_cases n buf i ps = {t. \<exists>(c, u, w) \<in> set ps. c \<and> wrn n buf i w = Some t}"

definition keeps :: "(bool \<times> (stages \<Rightarrow> stages) \<times> 'a::len word) list \<Rightarrow> bool" where
  "keeps ps \<longleftrightarrow> (\<forall>(c, u, w) \<in> set ps. \<forall>na s. sinv na s \<longrightarrow> sinv na (u s))"

lemma poke_total:
  assumes "\<And>w :: 'a word. wrn n b i w = wrn n buf i w" "i + n \<le> length buf" "\<forall>t \<in> poke_cases n buf i ps. answers run t" "(c, u, w) \<in> set ps"
  shows "\<exists>a b' s'. poke n run i c u (w :: 'a::len word) (b, s) = Some (a, b', s') \<and> (\<forall>v :: 'a word. wrn n b' i v = wrn n buf i v)"
proof (cases c)
  case True
  obtain t where t: "wrn n buf i w = Some t" using assms(2) by (simp add: wrn_def)
  have "answers run t" using assms(3,4) t True by (auto simp: poke_cases_def)
  then obtain a s1 where "try_case run t (u s) = Some (a, s1)" using try_case_None by fast
  then show ?thesis using True t assms(1) wrn_wrn [OF t] by (auto simp: poke_def)
next
  case False
  then show ?thesis using assms(1) by (auto simp: poke_def)
qed

lemma pokes_total:
  assumes "\<And>w :: 'a word. wrn n b i w = wrn n buf i w" "i + n \<le> length buf" "\<forall>t \<in> poke_cases n buf i ps. answers run t"
  shows "\<exists>a b' s'. until_abandoned (\<lambda>(c, u, w :: 'a::len word). poke n run i c u w) ps (b, s) = Some (a, b', s') \<and>
    (\<forall>v :: 'a word. wrn n b' i v = wrn n buf i v)"
  using assms
proof (induction ps arbitrary: b s)
  case (Cons p ps)
  obtain c u w where p: "p = (c, u, w)" by (rule prod_cases3)
  obtain a b1 s1 where 1: "poke n run i c u w (b, s) = Some (a, b1, s1)" "\<forall>v :: 'a word. wrn n b1 i v = wrn n buf i v"
    using poke_total [OF Cons.prems(1,2,3), of c u w s] p by auto
  have "\<forall>t \<in> poke_cases n buf i ps. answers run t" using Cons.prems(3) by (auto simp: poke_cases_def)
  then show ?case using Cons.IH [of b1 s1] Cons.prems(2) 1 p by (cases a) auto
qed auto

lemma pokes_done:
  assumes "\<And>w :: 'a word. wrn n b i w = wrn n buf i w" "keeps ps" "sinv na s"
    "until_abandoned (\<lambda>(c, u, w :: 'a::len word). poke n run i c u w) ps (b, s) = Some (False, b', s')"
  shows "(\<forall>v :: 'a word. wrn n b' i v = wrn n buf i v) \<and> sinv na s' \<and> (\<forall>t \<in> poke_cases n buf i ps. tested run t)"
  using assms
proof (induction ps arbitrary: b s)
  case (Cons p ps)
  obtain c u w where p: "p = (c, u, w)" by (rule prod_cases3)
  have k: "keeps ps" "sinv na (u s)" using Cons.prems(2,3) p by (auto simp: keeps_def simp del: split_paired_All)
  obtain b1 s1 where 1: "poke n run i c u w (b, s) = Some (False, b1, s1)"
    and rest: "until_abandoned (\<lambda>(c, u, w). poke n run i c u w) ps (b1, s1) = Some (False, b', s')"
    using Cons.prems(4) p by (auto split: option.splits prod.splits if_splits)
  have 2: "(\<forall>v :: 'a word. wrn n b1 i v = wrn n buf i v) \<and> sinv na s1 \<and> (c \<longrightarrow> (\<forall>t. wrn n buf i w = Some t \<longrightarrow> tested run t))"
  proof (cases c)
    case True
    then obtain s2 where "wrn n buf i w = Some b1" "try_case run b1 (u s) = Some (False, s2)" "s1 = one_more s2"
      using 1 Cons.prems(1) by (auto simp: poke_def split: Option.bind_splits)
    then show ?thesis using k(2) wrn_wrn [of n buf i w b1] try_case_tested by (auto simp: try_case_Some)
  next
    case False
    then show ?thesis using 1 Cons.prems(1,3) by (auto simp: poke_def)
  qed
  have 3: "(\<forall>v :: 'a word. wrn n b' i v = wrn n buf i v) \<and> sinv na s' \<and> (\<forall>t \<in> poke_cases n buf i ps. tested run t)"
    by (rule Cons.IH [OF _ k(1) _ rest]) (use 2 in auto)
  then show ?case using 2 p by (auto simp: poke_cases_def)
qed (simp add: poke_cases_def)

lemma poke_all_ok:
  fixes orig :: "'a::len word"
  assumes "rdn n buf i = Some orig" "i + n \<le> length buf" "LENGTH('a) = 8 * n" "keeps ps"
  shows "stage_ok run (sinv na) buf (poke_cases n buf i ps) (poke_cases n buf i ps) (poke_all n run i orig ps)"
proof (rule stage_okI)
  have bk: "wrn n buf i orig = Some buf" by (rule wrn_rdn [OF assms(1,3)])
  fix s assume "\<forall>t \<in> poke_cases n buf i ps. answers run t"
  from pokes_total [OF refl assms(2) this, of s] bk show "poke_all n run i orig ps (buf, s) \<noteq> None"
    by (auto simp: poke_all_def)
next
  have bk: "wrn n buf i orig = Some buf" by (rule wrn_rdn [OF assms(1,3)])
  fix s buf' s' assume s: "sinv na s" and "poke_all n run i orig ps (buf, s) = Some (False, buf', s')"
  then obtain b where b: "until_abandoned (\<lambda>(c, u, w). poke n run i c u w) ps (buf, s) = Some (False, b, s')" "wrn n b i orig = Some buf'"
    by (auto simp: poke_all_def split: Option.bind_splits if_splits)
  from pokes_done [OF refl assms(4) s b(1)] b(2) bk
  show "buf' = buf \<and> sinv na s' \<and> (\<forall>t \<in> poke_cases n buf i ps. tested run t)" by auto
qed

text \<open>A position that the effector map may leave out.\<close>

lemma guarded_ok:
  assumes loop: "stage_ok run (sinv na) buf ts ts g"
    and eq: "\<And>s. f (buf, s) = (if e then g (buf, set_byte i s) else Some (False, buf, fewer k s))"
    and short: "length buf < EFF_MIN_LEN \<longrightarrow> e"
  shows "stage_ok run (sinv na) buf ts (if length buf < EFF_MIN_LEN then ts else {}) f"
proof (rule stage_okI)
  fix s assume "sinv na s" "\<forall>t \<in> ts. answers run t"
  then show "f (buf, s) \<noteq> None" using stage_ok_total [OF loop, of "set_byte i s"] by (cases e) (auto simp: eq)
next
  fix s buf' s' assume "sinv na s" "f (buf, s) = Some (False, buf', s')"
  then show "buf' = buf \<and> sinv na s' \<and> (\<forall>t \<in> if length buf < EFF_MIN_LEN then ts else {}. tested run t)"
    using stage_okD [OF loop, of "set_byte i s" buf' s'] short by (auto simp: eq split: if_splits)
qed

lemma arith_at_ok:
  fixes pokes :: "'a::len word \<Rightarrow> nat \<Rightarrow> (bool \<times> (stages \<Rightarrow> stages) \<times> 'a word) list"
  assumes e: "eff_ok buf eff_map" and i: "i + n \<le> length buf" and len: "LENGTH('a) = 8 * n" and k: "\<And>orig j. keeps (pokes orig j)"
  defines "ts \<equiv> (\<Union>j \<in> set [1..<Suc ARITH_MAX]. poke_cases n buf i (pokes (the (rdn n buf i)) j))"
  shows "stage_ok run (sinv na) buf ts (if length buf < EFF_MIN_LEN then ts else {}) (arith_at n pokes skip eff_map run i)"
proof -
  have n: "0 < n" using len len_gt_0 [where 'a = 'a] by (cases n) auto
  obtain orig :: "'a word" where o: "rdn n buf i = Some orig" using i by simp
  obtain ee where ee: "effs eff_map [i..<i + n] = Some ee" "length buf < EFF_MIN_LEN \<longrightarrow> ee" using effs_Some [OF e i] n by blast
  have loop: "stage_ok run (sinv na) buf ts ts (until_abandoned (\<lambda>j. poke_all n run i orig (pokes orig j)) [1..<Suc ARITH_MAX])"
    unfolding ts_def o option.sel by (rule stage_ok_loop) (rule poke_all_ok [OF o i len k])
  have eq: "arith_at n pokes skip eff_map run i (buf, s) =
      (if ee then until_abandoned (\<lambda>j. poke_all n run i orig (pokes orig j)) [1..<Suc ARITH_MAX] (buf, set_byte i s)
       else Some (False, buf, fewer skip s))" for s
    by (simp add: arith_at_def o ee del: rdn_Some upt_Suc)
  show ?thesis using loop eq ee(2) by (rule guarded_ok)
qed

lemma interest_at_ok:
  fixes pokes :: "'a::len word \<Rightarrow> int \<Rightarrow> (bool \<times> (stages \<Rightarrow> stages) \<times> 'a word) list" and table :: "int list"
  assumes e: "eff_ok buf eff_map" and i: "i + n \<le> length buf" and len: "LENGTH('a) = 8 * n" and k: "\<And>orig j. keeps (pokes orig j)"
  defines "ts \<equiv> poke_cases n buf i (concat (map (pokes (the (rdn n buf i))) table))"
  shows "stage_ok run (sinv na) buf ts (if length buf < EFF_MIN_LEN then ts else {}) (interest_at n pokes table eff_map run i)"
proof -
  have n: "0 < n" using len len_gt_0 [where 'a = 'a] by (cases n) auto
  obtain orig :: "'a word" where o: "rdn n buf i = Some orig" using i by simp
  obtain ee where ee: "effs eff_map [i..<i + n] = Some ee" "length buf < EFF_MIN_LEN \<longrightarrow> ee" using effs_Some [OF e i] n by blast
  have "keeps (concat (map (pokes orig) table))" using k by (auto simp: keeps_def)
  then have loop: "stage_ok run (sinv na) buf ts ts (poke_all n run i orig (concat (map (pokes orig) table)))"
    unfolding ts_def o option.sel by (rule poke_all_ok [OF o i len])
  have eq: "interest_at n pokes table eff_map run i (buf, s) =
      (if ee then poke_all n run i orig (concat (map (pokes orig) table)) (buf, set_byte i s)
       else Some (False, buf, fewer (2 * int (length table)) s))" for s
    by (simp add: interest_at_def o ee del: rdn_Some)
  show ?thesis using loop eq ee(2) by (rule guarded_ok)
qed

text \<open>One interesting byte: the test cases are the values that the tests for duplicates let through.\<close>

definition int8_cases :: "u8 list \<Rightarrow> nat \<Rightarrow> int \<Rightarrow> u8 list set" where
  "int8_cases buf i x =
     (if could_be_bitflip (ucast (buf ! i XOR of_int x)) \<or> could_be_arith (ucast (buf ! i)) (ucast (of_int x :: u8)) 1
      then {} else {buf[i := of_int x]})"

lemma interest8_val_ok:
  assumes "i < length buf"
  shows "stage_ok run (sinv na) buf (int8_cases buf i x) (int8_cases buf i x) (interest8_val run i (buf ! i) x)"
proof (cases "could_be_bitflip (ucast (buf ! i XOR of_int x)) \<or> could_be_arith (ucast (buf ! i)) (ucast (of_int x :: u8)) 1")
  case True
  then show ?thesis by (auto simp: stage_ok_def interest8_val_def int8_cases_def)
next
  case False
  have "keeps [(True, set_val x, of_int x :: u8)]" by (simp add: keeps_def)
  moreover have "poke_cases 1 buf i [(True, set_val x, of_int x :: u8)] = {buf[i := of_int x]}"
    unfolding poke_cases_def using wrn1 [OF assms] by auto
  ultimately have "stage_ok run (sinv na) buf {buf[i := of_int x]} {buf[i := of_int x]} (poke_all 1 run i (buf ! i) [(True, set_val x, of_int x)])"
    using poke_all_ok [OF rdn1 [OF assms], of "[(True, set_val x, of_int x)]" run na] assms by simp
  then show ?thesis using False by (simp add: stage_ok_def interest8_val_def int8_cases_def)
qed

lemma interest8_at_ok:
  assumes e: "eff_ok buf eff_map" and i: "i < length buf"
  defines "ts \<equiv> (\<Union>x \<in> set interesting_8. int8_cases buf i x)"
  shows "stage_ok run (sinv na) buf ts (if length buf < EFF_MIN_LEN then ts else {}) (interest8_at eff_map run i)"
proof -
  have one: "[i..<i + 1] = [i]" by simp
  obtain ee where ee: "effs eff_map [i] = Some ee" "length buf < EFF_MIN_LEN \<longrightarrow> ee"
    using effs_Some [OF e, of i 1] i unfolding one by auto
  have loop: "stage_ok run (sinv na) buf ts ts (until_abandoned (interest8_val run i (buf ! i)) interesting_8)"
    unfolding ts_def by (rule stage_ok_loop) (rule interest8_val_ok [OF i])
  have eq: "interest8_at eff_map run i (buf, s) =
      (if ee then until_abandoned (interest8_val run i (buf ! i)) interesting_8 (buf, set_byte i s)
       else Some (False, buf, fewer (int (length interesting_8)) s))" for s
    using ee(1) rdn1 [OF i] by (simp add: interest8_at_def del: rdn_Some One_nat_def)
  show ?thesis using loop eq ee(2) by (rule guarded_ok)
qed

text \<open>The test cases of the later stages on a buffer.\<close>

definition arith8_cases_at :: "u8 list \<Rightarrow> nat \<Rightarrow> u8 list set" where
  "arith8_cases_at buf i = (\<Union>j \<in> set [1..<Suc ARITH_MAX]. poke_cases 1 buf i (arith8_pokes (the (rdn 1 buf i)) j))"

definition arith8_cases :: "u8 list \<Rightarrow> u8 list set" where
  "arith8_cases buf = (\<Union>i \<in> set [0..<length buf]. arith8_cases_at buf i)"

definition interest8_cases_at :: "u8 list \<Rightarrow> nat \<Rightarrow> u8 list set" where
  "interest8_cases_at buf i = (\<Union>x \<in> set interesting_8. int8_cases buf i x)"

definition interest8_cases :: "u8 list \<Rightarrow> u8 list set" where
  "interest8_cases buf = (\<Union>i \<in> set [0..<length buf]. interest8_cases_at buf i)"

definition same_length :: "u8 list \<Rightarrow> u8 list set" where
  "same_length buf = {t. length t = length buf}"

lemma keeps_pokes:
  "keeps (arith8_pokes a j)" "keeps (arith16_pokes b j)" "keeps (arith32_pokes c j)" "keeps (interest16_pokes b x)" "keeps (interest32_pokes c x)"
  by (simp_all add: keeps_def arith8_pokes_def arith16_pokes_def arith32_pokes_def interest16_pokes_def interest32_pokes_def Let_def)

lemma poke_cases_length: "poke_cases n buf i ps \<subseteq> same_length buf"
  by (auto simp: poke_cases_def same_length_def dest: length_wrn)

lemma run_stage_loop:
  assumes "\<And>i. i \<in> set is \<Longrightarrow> stage_ok run (sinv na) buf (A i) (T i) (body i)"
  shows "stage_ok run (sinv na) buf (\<Union>i \<in> set is. A i) (\<Union>i \<in> set is. T i) (run_stage k short n body is)"
  by (rule run_stage_ok, rule stage_ok_loop, rule assms)

lemma stage_ok_pair: "stage_ok run I buf A T f \<Longrightarrow> (\<And>r. I r \<Longrightarrow> g (buf, r) = f (buf, h r)) \<Longrightarrow> (\<And>r. I r \<Longrightarrow> I (h r)) \<Longrightarrow> stage_ok run I buf A T g"
proof (rule stage_okI)
  fix r assume ok: "stage_ok run I buf A T f" and g: "\<And>r. I r \<Longrightarrow> g (buf, r) = f (buf, h r)" and h: "\<And>r. I r \<Longrightarrow> I (h r)"
    and "I r" "\<forall>t \<in> A. answers run t"
  from stage_ok_total [OF ok h [OF this(4)] this(5)] show "g (buf, r) \<noteq> None" unfolding g [OF \<open>I r\<close>] .
next
  fix r buf' r' assume ok: "stage_ok run I buf A T f" and g: "\<And>r. I r \<Longrightarrow> g (buf, r) = f (buf, h r)" and h: "\<And>r. I r \<Longrightarrow> I (h r)"
    and "I r" "g (buf, r) = Some (False, buf', r')"
  from stage_okD [OF ok h [OF this(4)]] this(5) show "buf' = buf \<and> I r' \<and> (\<forall>t \<in> T. tested run t)" unfolding g [OF \<open>I r\<close>] by blast
qed

lemma if_empty: "(\<Union>i \<in> S. if c then A i else {}) = (if c then \<Union>i \<in> S. A i else {})"
  by simp

lemma arith8_at_ok:
  assumes "eff_ok buf eff_map" "i < length buf"
  shows "stage_ok run (sinv na) buf (arith8_cases_at buf i) (if length buf < EFF_MIN_LEN then arith8_cases_at buf i else {})
      (arith_at 1 arith8_pokes (2 * int ARITH_MAX) eff_map run i)"
proof -
  have "i + 1 \<le> length buf" "LENGTH(8) = 8 * 1" using assms(2) by simp_all
  from arith_at_ok [where pokes = arith8_pokes and n = 1, OF assms(1) this] show ?thesis
    unfolding arith8_cases_at_def using keeps_pokes(1) by blast
qed

lemma arith8_ok:
  assumes "eff_ok buf eff_map"
  shows "stage_ok run (sinv na) buf (arith8_cases buf) (if length buf < EFF_MIN_LEN then arith8_cases buf else {}) (arith8_stage eff_map run)"
proof -
  have 1: "stage_ok run (sinv na) buf (arith8_cases_at buf i) (if length buf < EFF_MIN_LEN then arith8_cases_at buf i else {})
      (arith_at 1 arith8_pokes (2 * int ARITH_MAX) eff_map run i)" if "i \<in> set [0..<length buf]" for i
    using arith8_at_ok [OF assms] that by simp
  let ?g = "run_stage STAGE_ARITH8 ''arith8'' (2 * int (length buf) * int ARITH_MAX) (arith_at 1 arith8_pokes (2 * int ARITH_MAX) eff_map run) [0..<length buf]"
  have "stage_ok run (sinv na) buf (arith8_cases buf) (if length buf < EFF_MIN_LEN then arith8_cases buf else {}) ?g"
    unfolding arith8_cases_def if_empty [symmetric] by (rule run_stage_loop [OF 1])
  then show ?thesis
    by (rule stage_ok_pair [where h = "set_type STAGE_VAL_LE"]) (simp_all only: arith8_stage_def prod.case sinv_simps)
qed

lemma interest8_ok:
  assumes "eff_ok buf eff_map"
  shows "stage_ok run (sinv na) buf (interest8_cases buf) (if length buf < EFF_MIN_LEN then interest8_cases buf else {}) (interest8_stage eff_map run)"
proof -
  have 1: "stage_ok run (sinv na) buf (interest8_cases_at buf i) (if length buf < EFF_MIN_LEN then interest8_cases_at buf i else {}) (interest8_at eff_map run i)"
    if "i \<in> set [0..<length buf]" for i
    unfolding interest8_cases_at_def by (rule interest8_at_ok [OF assms]) (use that in simp)
  show ?thesis unfolding interest8_cases_def if_empty [symmetric]
    by (rule stage_ok_pair [OF run_stage_loop [OF 1], where h = "set_type STAGE_VAL_LE"]) (simp_all add: interest8_stage_def)
qed

text \<open>Of the stages on words it is enough that they run inputs of the same length.\<close>

lemma wide_loop:
  assumes "\<And>i. i \<in> set is \<Longrightarrow> \<exists>A T. A \<subseteq> same_length buf \<and> stage_ok run (sinv na) buf A T (body i)"
  shows "stage_ok run (sinv na) buf (same_length buf) {} (run_stage k short n body is)"
proof -
  have "stage_ok run (sinv na) buf (same_length buf) {} (body i)" if "i \<in> set is" for i
    using assms [OF that] stage_ok_weaken by blast
  from run_stage_loop [of "is" run na buf "\<lambda>_. same_length buf" "\<lambda>_. {}" body, OF this] show ?thesis
    by (rule stage_ok_weaken) auto
qed

lemma word_flip_length: "i + n \<le> length buf \<Longrightarrow> {word_flip T n buf i} \<subseteq> same_length buf"
  by (auto simp: word_flip_def same_length_def wrn_def)

lemma wide_flip_at:
  "eff_ok buf eff_map \<Longrightarrow> i + n \<le> length buf \<Longrightarrow> LENGTH('a::len) = 8 * n \<Longrightarrow>
    \<exists>A T. A \<subseteq> same_length buf \<and> stage_ok run (sinv na) buf A T (flip_word TYPE('a) n eff_map run i)"
  by (rule exI, rule exI, rule conjI [rotated], rule flip_word_ok, assumption+, rule word_flip_length)

lemma wide_arith_at:
  assumes "eff_ok buf eff_map" "i + n \<le> length buf" "LENGTH('a::len) = 8 * n" "\<And>orig j. keeps (p (orig :: 'a word) j)"
  shows "\<exists>A T. A \<subseteq> same_length buf \<and> stage_ok run (sinv na) buf A T (arith_at n p skip eff_map run i)"
  by (rule exI, rule exI, rule conjI [rotated], rule arith_at_ok [OF assms], rule UN_least, rule poke_cases_length)

lemma wide_interest_at:
  assumes "eff_ok buf eff_map" "i + n \<le> length buf" "LENGTH('a::len) = 8 * n" "\<And>orig x. keeps (p (orig :: 'a word) x)"
  shows "\<exists>A T. A \<subseteq> same_length buf \<and> stage_ok run (sinv na) buf A T (interest_at n p tab eff_map run i)"
  by (rule exI, rule exI, rule conjI [rotated], rule interest_at_ok [OF assms], rule poke_cases_length)

lemma cond_stage:
  "(\<And>s. f (buf, s) = (if C s then Some (False, buf, s) else g (buf, s))) \<Longrightarrow> stage_ok run I buf A {} g \<Longrightarrow> stage_ok run I buf A {} f"
proof (rule stage_okI)
  fix r assume f: "\<And>s. f (buf, s) = (if C s then Some (False, buf, s) else g (buf, s))" and ok: "stage_ok run I buf A {} g" and "I r" "\<forall>t \<in> A. answers run t"
  from stage_ok_total [OF ok this(3,4)] show "f (buf, r) \<noteq> None" by (simp add: f del: split_paired_Ex)
next
  fix r buf' r' assume f: "\<And>s. f (buf, s) = (if C s then Some (False, buf, s) else g (buf, s))" and ok: "stage_ok run I buf A {} g"
    and "I r" "f (buf, r) = Some (False, buf', r')"
  then show "buf' = buf \<and> I r' \<and> (\<forall>t \<in> {}. tested run t)" using stage_okD [OF ok \<open>I r\<close>, of buf' r'] by (cases "C r") (simp_all add: f)
qed

lemma flip16_ok: "eff_ok buf eff_map \<Longrightarrow> stage_ok run (sinv na) buf (same_length buf) {} (flip16_stage eff_map run)"
proof (rule cond_stage)
  show "flip16_stage eff_map run (buf, s) = (if length buf < 2 then Some (False, buf, s) else run_stage STAGE_FLIP16 ''flip16'' (int (length buf) - 1) (flip_word TYPE(16) 2 eff_map run) [0..<length buf - 1] (buf, s))" for s
    by (simp add: flip16_stage_def)
qed (rule wide_loop, erule wide_flip_at, auto simp: keeps_pokes)

lemma flip32_ok: "eff_ok buf eff_map \<Longrightarrow> stage_ok run (sinv na) buf (same_length buf) {} (flip32_stage eff_map run)"
proof (rule cond_stage)
  show "flip32_stage eff_map run (buf, s) = (if length buf < 4 then Some (False, buf, s) else run_stage STAGE_FLIP32 ''flip32'' (int (length buf) - 3) (flip_word TYPE(32) 4 eff_map run) [0..<length buf - 3] (buf, s))" for s
    by (simp add: flip32_stage_def)
qed (rule wide_loop, erule wide_flip_at, auto simp: keeps_pokes)

lemma arith16_ok: "eff_ok buf eff_map \<Longrightarrow> stage_ok run (sinv na) buf (same_length buf) {} (arith16_stage eff_map run)"
proof (rule cond_stage)
  show "arith16_stage eff_map run (buf, s) = (if length buf < 2 then Some (False, buf, s) else run_stage STAGE_ARITH16 ''arith16'' (4 * (int (length buf) - 1) * int ARITH_MAX)
        (arith_at 2 arith16_pokes (4 * int ARITH_MAX) eff_map run) [0..<length buf - 1] (buf, s))" for s
    by (simp add: arith16_stage_def)
qed (rule wide_loop, erule wide_arith_at, auto simp: keeps_pokes)

lemma arith32_ok: "eff_ok buf eff_map \<Longrightarrow> stage_ok run (sinv na) buf (same_length buf) {} (arith32_stage eff_map run)"
proof (rule cond_stage)
  show "arith32_stage eff_map run (buf, s) = (if length buf < 4 then Some (False, buf, s) else run_stage STAGE_ARITH32 ''arith32'' (4 * (int (length buf) - 3) * int ARITH_MAX)
        (arith_at 4 arith32_pokes (4 * int ARITH_MAX) eff_map run) [0..<length buf - 3] (buf, s))" for s
    by (simp add: arith32_stage_def)
qed (rule wide_loop, erule wide_arith_at, auto simp: keeps_pokes)

lemma interest16_ok: "eff_ok buf eff_map \<Longrightarrow> stage_ok run (sinv na) buf (same_length buf) {} (interest16_stage eff_map run)"
proof (rule cond_stage)
  show "interest16_stage eff_map run (buf, s) = (if no_arith s \<or> length buf < 2 then Some (False, buf, s) else run_stage STAGE_INTEREST16 ''int16'' (2 * (int (length buf) - 1) * int (length interesting_16))
        (interest_at 2 interest16_pokes interesting_16 eff_map run) [0..<length buf - 1] (buf, s))" for s
    by (simp add: interest16_stage_def)
qed (rule wide_loop, erule wide_interest_at, auto simp: keeps_pokes)

lemma interest32_ok: "eff_ok buf eff_map \<Longrightarrow> stage_ok run (sinv na) buf (same_length buf) {} (interest32_stage eff_map run)"
proof (rule cond_stage)
  show "interest32_stage eff_map run (buf, s) = (if no_arith s \<or> length buf < 4 then Some (False, buf, s) else run_stage STAGE_INTEREST32 ''int32'' (2 * (int (length buf) - 3) * int (length interesting_32))
        (interest_at 4 interest32_pokes interesting_32 eff_map run) [0..<length buf - 3] (buf, s))" for s
    by (simp add: interest32_stage_def)
qed (rule wide_loop, erule wide_interest_at, auto simp: keeps_pokes)

section \<open>Tokens over a buffer\<close>

text \<open>A buffer that differs from another one in \<open>n\<close> bytes at \<open>i\<close> only.\<close>

definition differs_in :: "nat \<Rightarrow> nat \<Rightarrow> u8 list \<Rightarrow> u8 list \<Rightarrow> bool" where
  "differs_in i n buf b \<longleftrightarrow> length b = length buf \<and> i + n \<le> length buf \<and> take i b = take i buf \<and> drop (i + n) b = drop (i + n) buf"

lemma differs_put:
  assumes "differs_in i n buf b" "n \<le> length d" "i + length d \<le> length buf"
  shows "\<exists>b'. putn b i d = Some b' \<and> differs_in i (length d) buf b'"
proof -
  have "drop (i + length d) b = drop (i + length d) buf"
    using assms(1,2) unfolding differs_in_def by (metis add_le_cancel_left drop_drop le_add_diff_inverse2)
  then show ?thesis using assms by (auto simp: differs_in_def putn_def min_absorb2)
qed

lemma differs_restore:
  assumes "differs_in i n buf b"
  shows "\<exists>old. getn buf i n = Some old \<and> putn b i old = Some buf"
proof -
  have "take i buf @ take n (drop i buf) @ drop (i + n) buf = buf"
    by (metis add.commute append_take_drop_id drop_drop)
  then show ?thesis using assms by (auto simp: differs_in_def getn_def putn_def min_def)
qed

lemma span_eff_Some:
  assumes "eff_ok buf eff_map" "i + n \<le> length buf" "0 < n"
  shows "\<exists>e. span_eff eff_map i n = Some e"
proof -
  have "EFF_APOS (i + n - 1) < EFF_ALEN (length buf)" using assms(2,3) by (intro EFF_pos) simp
  moreover have "EFF_APOS i \<le> EFF_APOS (i + n - 1)" unfolding EFF_APOS_def using assms(3) by (intro div_le_mono) simp
  ultimately show ?thesis using assms(1) by (simp add: span_eff_def EFF_SPAN_ALEN_def eff_ok_def)
qed

lemma over_token_eq:
  assumes "eff_ok buf eff_map" "differs_in i m buf b" "0 < length d"
  obtains "over_token eff_map run i dice d (b, s, l) = Some (False, b, fewer 1 s, l)"
  | b' where "m \<le> length d \<Longrightarrow> differs_in i (length d) buf b'"
    "over_token eff_map run i dice d (b, s, l) =
       do { (a, s) \<leftarrow> try_case run b' s; Some (a, b', if a then s else one_more s, length d) }"
proof (cases "dice \<or> length d > length b - i")
  case True
  then show ?thesis by (intro that(1)) (auto simp: over_token_def)
next
  case False
  have b: "length b = length buf" "i \<le> length buf" using assms(2) by (auto simp: differs_in_def)
  then have l: "i + length d \<le> length buf" using False by auto
  obtain e where e: "span_eff eff_map i (length d) = Some e" using span_eff_Some [OF assms(1) l assms(3)] by blast
  have g: "getn b i (length d) = Some (take (length d) (drop i b))" using l b(1) by (simp add: getn_def)
  obtain b' where b': "putn b i d = Some b'" using l b(1) by (simp add: putn_def)
  show ?thesis
  proof (cases "take (length d) (drop i b) = d \<or> \<not> e")
    case True
    then show ?thesis using False e g by (intro that(1)) (auto simp: over_token_def)
  next
    case run: False
    have "differs_in i (length d) buf b'" if "m \<le> length d" using differs_put [OF assms(2) that l] b' by auto
    moreover have "over_token eff_map run i dice d (b, s, l) = do { (a, s) \<leftarrow> try_case run b' s; Some (a, b', if a then s else one_more s, length d) }" for l
      using False e g b' run by (auto simp: over_token_def)
    ultimately show ?thesis by (rule that(2))
  qed
qed

text \<open>One token after the other, each at least as long as the one before.\<close>

definition token_step :: "u8 list \<Rightarrow> nat \<Rightarrow> tester \<Rightarrow> (extra_data \<Rightarrow> u8 list \<times> stages \<times> nat \<Rightarrow> (bool \<times> u8 list \<times> stages \<times> nat) option) \<Rightarrow> bool" where
  "token_step buf i run step \<longleftrightarrow>
     (\<forall>e b s n na. differs_in i n buf b \<longrightarrow> n \<le> ex_len e \<longrightarrow> 0 < ex_len e \<longrightarrow> sinv na s \<longrightarrow>
        ((\<forall>t \<in> same_length buf. answers run t) \<longrightarrow> step e (b, s, n) \<noteq> None) \<and>
        (\<forall>b' s' n'. step e (b, s, n) = Some (False, b', s', n') \<longrightarrow> differs_in i n' buf b' \<and> n' \<le> ex_len e \<and> sinv na s'))"

lemma over_token_step:
  assumes "eff_ok buf eff_map"
  shows "token_step buf i run (\<lambda>e. over_token eff_map run i dice (ex_data e))"
  unfolding token_step_def
proof (intro allI impI)
  fix e b s n na
  assume d: "differs_in i n buf b" and n: "n \<le> ex_len e" "0 < ex_len e" and s: "sinv na s"
  show "((\<forall>t \<in> same_length buf. answers run t) \<longrightarrow> over_token eff_map run i dice (ex_data e) (b, s, n) \<noteq> None) \<and>
        (\<forall>b' s' n'. over_token eff_map run i dice (ex_data e) (b, s, n) = Some (False, b', s', n') \<longrightarrow> differs_in i n' buf b' \<and> n' \<le> ex_len e \<and> sinv na s')"
  proof (rule over_token_eq [OF assms d n(2), of run dice s n])
    assume "over_token eff_map run i dice (ex_data e) (b, s, n) = Some (False, b, fewer 1 s, n)"
    then show ?thesis using d n(1) s by simp
  next
    fix b' assume b': "n \<le> ex_len e \<Longrightarrow> differs_in i (ex_len e) buf b'"
      and eq: "over_token eff_map run i dice (ex_data e) (b, s, n) = do { (a, s) \<leftarrow> try_case run b' s; Some (a, b', if a then s else one_more s, ex_len e) }"
    have b: "b' \<in> same_length buf" using b' [OF n(1)] by (simp add: differs_in_def same_length_def)
    show ?thesis unfolding eq
    proof (intro conjI allI impI)
      assume "\<forall>t \<in> same_length buf. answers run t"
      then obtain a s1 where "try_case run b' s = Some (a, s1)" using b try_case_None by fast
      then show "do { (a, s) \<leftarrow> try_case run b' s; Some (a, b', if a then s else one_more s, ex_len e) } \<noteq> None" by simp
    qed (use b' [OF n(1)] s in \<open>auto simp: try_case_Some split: Option.bind_splits\<close>)
  qed
qed

lemma user_token_step:
  assumes "eff_ok buf eff_map"
  shows "token_step buf i run (user_token eff_map run i)"
proof -
  have "\<exists>dice f. user_token eff_map run i e (b, s, n) = over_token eff_map run i dice (ex_data e) (b, s\<lparr>fz := f\<rparr>, n)" for e b s n
  proof (cases "length (extras s) > MAX_DET_EXTRAS")
    case True
    then have "0 < length (extras s)" by linarith
    then obtain r c where "UR (length (extras s)) (core (fz s)) = Some (r, c)" using UR_Some by blast
    then show ?thesis using True by (auto simp: user_token_def URs_def upd_fz_def)
  next
    case False
    then show ?thesis by (intro exI [of _ False] exI [of _ "fz s"]) (simp add: user_token_def)
  qed
  then show ?thesis using over_token_step [OF assms, of i run] unfolding token_step_def by (metis sinv_simps(1))
qed

lemma token_loop:
  assumes "token_step buf i run step"
  shows "sorted (map ex_len es) \<Longrightarrow> \<forall>e \<in> set es. 0 < ex_len e \<and> n \<le> ex_len e \<Longrightarrow> differs_in i n buf b \<Longrightarrow> sinv na s \<Longrightarrow>
    ((\<forall>t \<in> same_length buf. answers run t) \<longrightarrow> until_abandoned step es (b, s, n) \<noteq> None) \<and>
    (\<forall>b' s' n'. until_abandoned step es (b, s, n) = Some (False, b', s', n') \<longrightarrow> differs_in i n' buf b' \<and> sinv na s')"
proof (induction es arbitrary: b s n)
  case (Cons e es)
  have n: "n \<le> ex_len e" "0 < ex_len e" using Cons.prems(2) by auto
  have st: "(\<forall>t \<in> same_length buf. answers run t) \<longrightarrow> step e (b, s, n) \<noteq> None"
    "\<And>b' s' n'. step e (b, s, n) = Some (False, b', s', n') \<Longrightarrow> differs_in i n' buf b' \<and> n' \<le> ex_len e \<and> sinv na s'"
    using assms Cons.prems(3,4) n unfolding token_step_def by blast+
  have ih: "((\<forall>t \<in> same_length buf. answers run t) \<longrightarrow> until_abandoned step es (b', s', n') \<noteq> None) \<and>
      (\<forall>b'' s'' n''. until_abandoned step es (b', s', n') = Some (False, b'', s'', n'') \<longrightarrow> differs_in i n'' buf b'' \<and> sinv na s'')"
    if "step e (b, s, n) = Some (False, b', s', n')" for b' s' n'
  proof (rule Cons.IH)
    show "\<forall>e \<in> set es. 0 < ex_len e \<and> n' \<le> ex_len e" using Cons.prems(1,2) st(2) [OF that] by fastforce
  qed (use Cons.prems(1) st(2) [OF that] in auto)
  show ?case
  proof (cases "step e (b, s, n)")
    case None
    then show ?thesis using st(1) by simp
  next
    case (Some x)
    obtain a b' s' n' where x: "x = (a, b', s', n')" by (metis prod_cases4)
    show ?thesis using ih [of b' s' n'] Some x by (cases a) simp_all
  qed
qed simp

lemma tokens_at_ok:
  assumes "token_step buf i run step" "extras_wf es" "i \<le> length buf"
  shows "stage_ok run (sinv na) buf (same_length buf) {} (tokens_at step es buf i)"
proof -
  have d0: "differs_in i 0 buf buf" using assms(3) by (simp add: differs_in_def)
  have loop: "((\<forall>t \<in> same_length buf. answers run t) \<longrightarrow> until_abandoned step es (buf, set_byte i s, 0) \<noteq> None) \<and>
      (\<forall>b' s' n'. until_abandoned step es (buf, set_byte i s, 0) = Some (False, b', s', n') \<longrightarrow> differs_in i n' buf b' \<and> sinv na s')"
    if "sinv na s" for s
    by (rule token_loop [OF assms(1) _ _ d0]) (use assms(2) that in \<open>auto simp: extras_wf_def\<close>)
  show ?thesis
  proof (rule stage_okI)
    fix s assume s: "sinv na s" and "\<forall>t \<in> same_length buf. answers run t"
    then obtain a b' s' n' where u: "until_abandoned step es (buf, set_byte i s, 0) = Some (a, b', s', n')" using loop [OF s] by auto
    show "tokens_at step es buf i (buf, s) \<noteq> None"
      using u loop [OF s] differs_restore [of i n' buf b'] by (cases a) (auto simp: tokens_at_def)
  next
    fix s buf' s' assume s: "sinv na s" and "tokens_at step es buf i (buf, s) = Some (False, buf', s')"
    then obtain b n' old where u: "until_abandoned step es (buf, set_byte i s, 0) = Some (False, b, s', n')"
      "getn buf i n' = Some old" "putn b i old = Some buf'"
      by (auto simp: tokens_at_def split: Option.bind_splits if_splits)
    then show "buf' = buf \<and> sinv na s' \<and> (\<forall>t \<in> {}. tested run t)"
      using loop [OF s] differs_restore [of i n' buf b] by auto
  qed
qed

lemma auto_extras_wf: "auto_wf es \<Longrightarrow> extras_wf (take USE_AUTO_EXTRAS es)"
proof -
  assume wf: "auto_wf es"
  have "0 < ex_len e \<and> ex_len e \<le> MAX_DICT_FILE" if "e \<in> set (take USE_AUTO_EXTRAS es)" for e
  proof -
    have "ex_data e \<in> set (tokens es)" using in_set_takeD [OF that] by (simp add: tokens_def)
    then show ?thesis using wf by (auto simp: auto_wf_def MIN_AUTO_EXTRA_def MAX_AUTO_EXTRA_def MAX_DICT_FILE_def)
  qed
  then show ?thesis using wf by (simp add: extras_wf_def auto_wf_def)
qed

lemma over_stage_ok:
  assumes "\<And>i. token_step buf i run (step i)" "extras_wf es"
  shows "stage_ok run (sinv na) buf (same_length buf) {} (run_stage k short n (\<lambda>i. tokens_at (step i) es buf i) [0..<length buf])"
proof (rule wide_loop, intro exI conjI)
  show "stage_ok run (sinv na) buf (same_length buf) {} (tokens_at (step i) es buf i)" if "i \<in> set [0..<length buf]" for i
    by (rule tokens_at_ok [OF assms]) (use that in simp)
qed simp

text \<open>A stage that depends on the state only through what the invariant keeps.\<close>

lemma stage_ok_state:
  assumes "\<And>s. I s \<Longrightarrow> stage_ok run I buf A T (g s)" "\<And>s. I s \<Longrightarrow> f (buf, s) = g s (buf, h s)" "\<And>s. I s \<Longrightarrow> I (h s)"
  shows "stage_ok run I buf A T f"
proof (rule stage_okI)
  fix s assume s: "I s" "\<forall>t \<in> A. answers run t"
  from stage_ok_total [OF assms(1) [OF s(1)] assms(3) [OF s(1)] s(2)] show "f (buf, s) \<noteq> None" unfolding assms(2) [OF s(1)] .
next
  fix s buf' s' assume s: "I s" "f (buf, s) = Some (False, buf', s')"
  from stage_okD [OF assms(1) [OF s(1)] assms(3) [OF s(1)] s(2) [unfolded assms(2) [OF s(1)]]]
  show "buf' = buf \<and> I s' \<and> (\<forall>t \<in> T. tested run t)" .
qed

lemma extras_over_ok:
  assumes "eff_ok buf eff_map"
  shows "stage_ok run (sinv na) buf (same_length buf) {} (extras_over_stage buf eff_map run)"
proof (rule stage_ok_state)
  fix s assume "sinv na s"
  then have "extras_wf (extras s)" by (simp add: sinv_def)
  from over_stage_ok [OF user_token_step [OF assms] this]
  show "stage_ok run (sinv na) buf (same_length buf) {} (run_stage STAGE_EXTRAS_UO ''ext_UO'' (int (length (extras s) * length buf))
       (\<lambda>i. tokens_at (user_token eff_map run i) (extras s) buf i) [0..<length buf])" .
  show "extras_over_stage buf eff_map run (buf, s) = run_stage STAGE_EXTRAS_UO ''ext_UO'' (int (length (extras s) * length buf))
       (\<lambda>i. tokens_at (user_token eff_map run i) (extras s) buf i) [0..<length buf] (buf, set_type STAGE_VAL_NONE s)"
    by (simp only: extras_over_stage_def prod.case)
qed simp

lemma auto_over_ok:
  assumes "eff_ok buf eff_map"
  shows "stage_ok run (sinv na) buf (same_length buf) {} (auto_over_stage buf eff_map run)"
proof (rule stage_ok_state)
  fix s assume "sinv na s"
  then have "extras_wf (take USE_AUTO_EXTRAS (a_extras s))" by (simp add: sinv_def auto_extras_wf)
  from over_stage_ok [OF over_token_step [OF assms] this]
  show "stage_ok run (sinv na) buf (same_length buf) {} (run_stage STAGE_EXTRAS_AO ''ext_AO'' (int (length (take USE_AUTO_EXTRAS (a_extras s)) * length buf))
       (\<lambda>i. tokens_at (\<lambda>e. over_token eff_map run i False (ex_data e)) (take USE_AUTO_EXTRAS (a_extras s)) buf i) [0..<length buf])" .
  show "auto_over_stage buf eff_map run (buf, s) = run_stage STAGE_EXTRAS_AO ''ext_AO'' (int (length (take USE_AUTO_EXTRAS (a_extras s)) * length buf))
       (\<lambda>i. tokens_at (\<lambda>e. over_token eff_map run i False (ex_data e)) (take USE_AUTO_EXTRAS (a_extras s)) buf i) [0..<length buf] (buf, set_type STAGE_VAL_NONE s)"
    by (simp only: auto_over_stage_def prod.case Let_def)
qed simp

section \<open>Tokens between bytes\<close>

definition insert_cases :: "u8 list \<Rightarrow> u8 list set" where
  "insert_cases buf = {t. \<exists>i d. i \<le> length buf \<and> 0 < length d \<and> length d \<le> MAX_DICT_FILE \<and> t = take i buf @ d @ drop i buf}"

text \<open>The second buffer is large enough and its head is the head of the first.\<close>

definition headed :: "u8 list \<Rightarrow> nat \<Rightarrow> u8 list \<Rightarrow> bool" where
  "headed buf i x \<longleftrightarrow> length x = length buf + MAX_DICT_FILE \<and> take i x = take i buf"

lemma insert_token_ok:
  assumes "headed buf i x" "i \<le> length buf" "0 < ex_len e" "ex_len e \<le> MAX_DICT_FILE" "sinv na s"
  shows "((\<forall>t \<in> insert_cases buf. answers run t) \<longrightarrow> insert_token run i buf e (x, s) \<noteq> None) \<and>
    (\<forall>x' s'. insert_token run i buf e (x, s) = Some (False, x', s') \<longrightarrow> headed buf i x' \<and> sinv na s' \<and> extras s' = extras s)"
proof (cases "length buf + ex_len e > MAX_FILE")
  case True
  then show ?thesis using assms(1,5) by (simp add: insert_token_def fewer_def [of _ s] sinv_def)
next
  case False
  let ?d = "ex_data e"
  let ?x1 = "take i x @ ?d @ drop (i + length ?d) x"
  let ?x2 = "take (i + length ?d) ?x1 @ drop i buf @ drop (length buf + length ?d) ?x1"
  have lx: "length x = length buf + MAX_DICT_FILE" "take i x = take i buf" using assms(1) by (auto simp: headed_def)
  have p1: "putn x i ?d = Some ?x1" using lx assms(2,4) by (simp add: putn_def)
  have l1: "length ?x1 = length x" using lx(1) assms(2,4) by simp
  have p2: "putn ?x1 (i + length ?d) (drop i buf) = Some ?x2" using lx l1 assms(2,4) by (simp add: putn_def)
  have t: "take (length buf + length ?d) ?x2 = take i buf @ ?d @ drop i buf" using lx assms(2,4) by simp
  have c: "take i buf @ ?d @ drop i buf \<in> insert_cases buf" using assms(2-4) by (auto simp: insert_cases_def)
  have h: "headed buf i ?x2" using lx assms(2,4) by (simp add: headed_def min_def)
  have eq: "insert_token run i buf e (x, s) = do { (a, s) \<leftarrow> try_case run (take i buf @ ?d @ drop i buf) s; Some (a, ?x2, if a then s else one_more s) }"
    using False by (simp only: insert_token_def prod.case p1 p2 t bind.bind_lunit if_False)
  show ?thesis unfolding eq
  proof (intro conjI impI)
    assume "\<forall>t \<in> insert_cases buf. answers run t"
    then obtain a s1 where "try_case run (take i buf @ ?d @ drop i buf) s = Some (a, s1)" using c try_case_None by fast
    then show "do { (a, s) \<leftarrow> try_case run (take i buf @ ?d @ drop i buf) s; Some (a, ?x2, if a then s else one_more s) } \<noteq> None" by simp
  qed (use h assms(5) in \<open>auto simp: try_case_Some one_more_def sinv_def split: Option.bind_splits\<close>)
qed

lemma insert_tokens_ok:
  assumes "i \<le> length buf"
  shows "headed buf i x \<Longrightarrow> \<forall>e \<in> set es. 0 < ex_len e \<and> ex_len e \<le> MAX_DICT_FILE \<Longrightarrow> sinv na s \<Longrightarrow>
    ((\<forall>t \<in> insert_cases buf. answers run t) \<longrightarrow> until_abandoned (insert_token run i buf) es (x, s) \<noteq> None) \<and>
    (\<forall>x' s'. until_abandoned (insert_token run i buf) es (x, s) = Some (False, x', s') \<longrightarrow> headed buf i x' \<and> sinv na s')"
proof (induction es arbitrary: x s)
  case (Cons e es)
  have e: "0 < ex_len e" "ex_len e \<le> MAX_DICT_FILE" using Cons.prems(2) by auto
  note ok = insert_token_ok [OF Cons.prems(1) assms e Cons.prems(3), of run]
  show ?case
  proof (cases "insert_token run i buf e (x, s)")
    case None
    then show ?thesis using ok by simp
  next
    case (Some y)
    obtain a x1 s1 where y: "y = (a, x1, s1)" by (rule prod_cases3)
    show ?thesis
    proof (cases a)
      case False
      then have "headed buf i x1" "sinv na s1" using ok Some y by auto
      then show ?thesis using Cons.IH [of x1 s1] Cons.prems(2) Some y False by simp
    qed (use Some y in simp)
  qed
qed simp

lemma insert_head:
  assumes "headed buf i x" "i \<le> length buf"
  shows "\<exists>x'. getn (ck_block buf) i 1 \<bind> putn x i = Some x' \<and> (i < length buf \<longrightarrow> headed buf (Suc i) x')"
proof -
  have g: "getn (ck_block buf) i 1 = Some [(buf @ [C2_MARK]) ! i]"
    using assms(2) Cons_nth_drop_Suc [of i "buf @ [C2_MARK]"] by (cases "drop i (buf @ [C2_MARK])") (auto simp: getn_def ck_block_def)
  have l: "length x = length buf + MAX_DICT_FILE" "take i x = take i buf" using assms(1) by (auto simp: headed_def)
  have "putn x i [(buf @ [C2_MARK]) ! i] = Some (take i x @ (buf @ [C2_MARK]) ! i # drop (Suc i) x)"
    using l assms(2) by (simp add: putn_def MAX_DICT_FILE_def)
  moreover have "headed buf (Suc i) (take i x @ (buf @ [C2_MARK]) ! i # drop (Suc i) x)" if "i < length buf"
    using l that by (simp add: headed_def nth_append take_Suc_conv_app_nth MAX_DICT_FILE_def)
  ultimately show ?thesis unfolding g by simp
qed

lemma insert_loop_ok:
  "i \<le> Suc (length buf) \<Longrightarrow> i \<le> length buf \<longrightarrow> headed buf i x \<Longrightarrow> sinv na s \<Longrightarrow>
    ((\<forall>t \<in> insert_cases buf. answers run t) \<longrightarrow> until_abandoned (insert_at run buf) [i..<Suc (length buf)] (x, s) \<noteq> None) \<and>
    (\<forall>x' s'. until_abandoned (insert_at run buf) [i..<Suc (length buf)] (x, s) = Some (False, x', s') \<longrightarrow> sinv na s')"
proof (induction "Suc (length buf) - i" arbitrary: i x s)
  case (Suc n)
  then have i: "i \<le> length buf" by simp
  then have up: "[i..<Suc (length buf)] = i # [Suc i..<Suc (length buf)]" by (simp add: upt_conv_Cons)
  have wf: "\<forall>e \<in> set (extras s). 0 < ex_len e \<and> ex_len e \<le> MAX_DICT_FILE" using Suc.prems(3) by (simp add: sinv_def extras_wf_def)
  have hd: "headed buf i x" using Suc.prems(2) i by simp
  note ok = insert_tokens_ok [OF i hd wf, of na "set_byte i s" run, simplified, OF Suc.prems(3)]
  show ?case
  proof (cases "until_abandoned (insert_token run i buf) (extras s) (x, set_byte i s)")
    case None
    then show ?thesis using ok by (simp add: up insert_at_def del: upt_Suc)
  next
    case (Some y)
    obtain a x1 s1 where y: "y = (a, x1, s1)" by (rule prod_cases3)
    show ?thesis
    proof (cases a)
      case True
      then show ?thesis using Some y by (simp add: up insert_at_def del: upt_Suc)
    next
      case False
      then have h: "headed buf i x1" "sinv na s1" using ok Some y by auto
      obtain x2 where x2: "getn (ck_block buf) i 1 \<bind> putn x1 i = Some x2" "i < length buf \<longrightarrow> headed buf (Suc i) x2"
        using insert_head [OF h(1) i] by blast
      have "insert_at run buf i (x, s) = Some (False, x2, s1)" using Some y False x2(1) by (auto simp: insert_at_def bind_eq_Some_conv)
      moreover have "n = Suc (length buf) - Suc i" using Suc.hyps(2) by simp
      ultimately show ?thesis using Suc.hyps(1) [of "Suc i" x2 s1] h(2) x2(2) i by (simp add: up del: upt_Suc)
    qed
  qed
qed simp

lemma extras_insert_ok: "stage_ok run (sinv na) buf (insert_cases buf) {} (extras_insert_stage run)"
proof -
  let ?x = "replicate (length buf + MAX_DICT_FILE) 0"
  let ?g = "\<lambda>s. run_stage STAGE_EXTRAS_UI ''ext_UI'' (int (length (extras s) * length buf)) (insert_at run buf) [0..<Suc (length buf)] (?x, s)"
  let ?u = "\<lambda>s. until_abandoned (insert_at run buf) [0..<Suc (length buf)] (?x, begin_stage ''ext_UI'' (int (length (extras s) * length buf)) s)"
  have h: "headed buf 0 ?x" by (simp add: headed_def)
  have loop: "((\<forall>t \<in> insert_cases buf. answers run t) \<longrightarrow> ?u s \<noteq> None) \<and> (\<forall>x' s'. ?u s = Some (False, x', s') \<longrightarrow> sinv na s')" if "sinv na s" for s
    by (rule insert_loop_ok) (use h that in simp_all)
  show ?thesis
  proof (rule stage_okI)
    fix s assume "sinv na s" "\<forall>t \<in> insert_cases buf. answers run t"
    then have "?u s \<noteq> None" using loop by blast
    then obtain a x' s' where "?u s = Some (a, x', s')" by (metis not_None_eq prod_cases3)
    then show "extras_insert_stage run (buf, s) \<noteq> None"
      by (simp only: extras_insert_stage_def run_stage_def prod.case bind.bind_lunit option.distinct not_False_eq_True)
  next
    fix s buf' s' assume s: "sinv na s" and "extras_insert_stage run (buf, s) = Some (False, buf', s')"
    then obtain x' s1 where "?u s = Some (False, x', s1)" "s' = end_stage STAGE_EXTRAS_UI (hits s) s1" "buf' = buf"
      by (auto simp: extras_insert_stage_def run_stage_def simp del: upt_Suc split: Option.bind_splits)
    then show "buf' = buf \<and> sinv na s' \<and> (\<forall>t \<in> {}. tested run t)" using loop [OF s] by (simp del: upt_Suc)
  qed
qed

end
