(* ===== verification/Afl_Det_Run.thy ===== *)
theory Afl_Det_Run
  imports Afl_Stages
begin

text \<open>
  All deterministic stages together: they return, they leave the buffer as it was, and on short inputs
  the values that a stage leaves out because an earlier stage has tried them have really been tried,
  unless arithmetic is switched off.
\<close>

section \<open>One stage after the other\<close>

lemma stages_ok_Nil: "stage_ok run I buf A {} (until_abandoned (\<lambda>f. f) [])"
  by (simp add: stage_ok_def)

lemma stages_ok_Cons:
  assumes f: "stage_ok run I buf A T f" and fs: "stage_ok run I buf A T' (until_abandoned (\<lambda>f. f) fs)"
  shows "stage_ok run I buf A (T \<union> T') (until_abandoned (\<lambda>f. f) (f # fs))"
proof (rule stage_okI)
  fix r assume r: "I r" and A: "\<forall>t \<in> A. answers run t"
  then obtain a buf' r' where b: "f (buf, r) = Some (a, buf', r')" using stage_ok_total [OF f] by fastforce
  show "until_abandoned (\<lambda>f. f) (f # fs) (buf, r) \<noteq> None"
    using b stage_okD [OF f r, of buf' r'] stage_ok_total [OF fs, of r'] A by (cases a) auto
next
  fix r buf' r' assume r: "I r" and u: "until_abandoned (\<lambda>f. f) (f # fs) (buf, r) = Some (False, buf', r')"
  then obtain buf1 r1 where "f (buf, r) = Some (False, buf1, r1)" "until_abandoned (\<lambda>f. f) fs (buf1, r1) = Some (False, buf', r')"
    by (auto split: option.splits prod.splits if_splits)
  then show "buf' = buf \<and> I r' \<and> (\<forall>t \<in> T \<union> T'. tested run t)"
    using stage_okD [OF f r] stage_okD [OF fs] by blast
qed

lemma if_stage_ok:
  assumes "stage_ok run I buf A T f" "\<And>s. I s \<Longrightarrow> c s \<Longrightarrow> b"  "\<And>s. I s \<Longrightarrow> \<not> c s \<Longrightarrow> \<not> b"
  shows "stage_ok run I buf A (if b then T else {}) (if_stage c f)"
  using assms unfolding stage_ok_def if_stage_def by (cases b) auto

lemma if_stage_ok_any:
  assumes "stage_ok run I buf A T f"
  shows "stage_ok run I buf A {} (if_stage c f)"
  using assms unfolding stage_ok_def if_stage_def by auto

definition all_cases :: "u8 list \<Rightarrow> u8 list set" where
  "all_cases buf = same_length buf \<union> insert_cases buf"

lemma flips_length: "bit_cases n buf \<subseteq> same_length buf" "byte_cases buf \<subseteq> same_length buf"
  by (auto simp: bit_cases_def byte_cases_def same_length_def flip_bits_length)

lemma arith8_cases_length: "arith8_cases buf \<subseteq> same_length buf"
  using poke_cases_length by (fastforce simp: arith8_cases_def arith8_cases_at_def)

lemma interest8_cases_length: "interest8_cases buf \<subseteq> same_length buf"
  by (auto simp: interest8_cases_def interest8_cases_at_def int8_cases_def same_length_def split: if_splits)

lemma early_ok:
  "stage_ok run (sinv na) buf (all_cases buf) (bit_cases 1 buf \<union> (bit_cases 2 buf \<union> (bit_cases 4 buf \<union> {})))
     (until_abandoned (\<lambda>f. f) (early_stages run))"
  unfolding early_stages_def
  by (intro stages_ok_Cons stages_ok_Nil; rule stage_ok_weaken [OF _ _ subset_refl]; (rule flip1_ok flip2_ok flip4_ok)?)
    (use flips_length in \<open>auto simp: all_cases_def\<close>)

text \<open>The single bytes that the stages after the effector map try on a short input.\<close>

definition short_cases :: "bool \<Rightarrow> u8 list \<Rightarrow> u8 list set" where
  "short_cases off buf = (if length buf < EFF_MIN_LEN then (if off then {} else arith8_cases buf) \<union> interest8_cases buf else {})"

lemma late_ok:
  assumes "eff_ok buf eff_map"
  shows "stage_ok run (sinv na) buf (all_cases buf) (short_cases (fst na) buf) (until_abandoned (\<lambda>f. f) (late_stages buf eff_map run))"
proof -
  note w = stage_ok_weaken [OF _ _ subset_refl, where A' = "all_cases buf"]
  have sl: "same_length buf \<subseteq> all_cases buf" and ins: "insert_cases buf \<subseteq> all_cases buf" by (auto simp: all_cases_def)
  note wide = flip16_ok [OF assms, THEN w, OF sl] flip32_ok [OF assms, THEN w, OF sl]
    interest16_ok [OF assms, THEN w, OF sl] interest32_ok [OF assms, THEN w, OF sl]
  note a8 = arith8_ok [OF assms, THEN w, OF subset_trans [OF arith8_cases_length sl]]
  note i8 = interest8_ok [OF assms, THEN w, OF subset_trans [OF interest8_cases_length sl]]
  note a16 = arith16_ok [OF assms, THEN w, OF sl, THEN if_stage_ok_any]
    and a32 = arith32_ok [OF assms, THEN w, OF sl, THEN if_stage_ok_any]
    and eo = extras_over_ok [OF assms, THEN w, OF sl, THEN if_stage_ok_any]
    and ao = auto_over_ok [OF assms, THEN w, OF sl, THEN if_stage_ok_any]
    and ei = extras_insert_ok [THEN w, OF ins, THEN if_stage_ok_any]
  have a8': "stage_ok run (sinv na) buf (all_cases buf)
      (if \<not> fst na then (if length buf < EFF_MIN_LEN then arith8_cases buf else {}) else {}) (if_stage (\<lambda>s. \<not> no_arith s) (arith8_stage eff_map run))"
    by (rule if_stage_ok [OF a8]) (auto simp: sinv_def)
  note all = stages_ok_Cons [OF wide(1) stages_ok_Cons [OF wide(2) stages_ok_Cons [OF a8' stages_ok_Cons [OF a16 stages_ok_Cons [OF a32
    stages_ok_Cons [OF i8 stages_ok_Cons [OF wide(3) stages_ok_Cons [OF wide(4) stages_ok_Cons [OF eo stages_ok_Cons [OF ei
      stages_ok_Cons [OF ao stages_ok_Nil]]]]]]]]]]]
  show ?thesis unfolding late_stages_def by (rule stage_ok_weaken [OF all subset_refl]) (auto simp: short_cases_def)
qed

definition flip_cases :: "u8 list \<Rightarrow> u8 list set" where
  "flip_cases buf = bit_cases 1 buf \<union> bit_cases 2 buf \<union> bit_cases 4 buf \<union> byte_cases buf"

lemma det_run_returns:
  assumes early: "stage_ok run (sinv na) buf A T (until_abandoned (\<lambda>f. f) (early_stages run))"
    and late: "\<And>e. eff_ok buf e \<Longrightarrow> stage_ok run (sinv na) buf A T' (until_abandoned (\<lambda>f. f) (late_stages buf e run))"
    and "byte_cases buf \<subseteq> A" "buf \<noteq> []" "sinv na s" "\<forall>t \<in> A. answers run t"
  shows "det_run run buf s \<noteq> None"
proof -
  obtain a b1 s1 where 1: "until_abandoned (\<lambda>f. f) (early_stages run) (buf, s) = Some (a, b1, s1)"
    using stage_ok_total [OF early assms(5,6)] by auto
  show ?thesis
  proof (cases a)
    case False
    then have 1: "until_abandoned (\<lambda>f. f) (early_stages run) (buf, s) = Some (False, b1, s1)" using 1 by simp
    then have b1: "b1 = buf" "sinv na s1" using stage_okD [OF early assms(5)] by blast+
    have "\<forall>t \<in> byte_cases buf. answers run t" using assms(3,6) by blast
    then obtain a2 b2 s2 e where 2: "flip8_stage run (buf, s1) = Some (a2, b2, s2, e)" using flip8_total [OF b1(2) _ assms(4)] by fastforce
    show ?thesis
    proof (cases a2)
      case True
      then show ?thesis using 1 2 b1 by (simp add: det_run_def)
    next
      case ok: False
      then have 2: "flip8_stage run (buf, s1) = Some (False, b2, s2, e)" using 2 by simp
      then have d: "b2 = buf" "sinv na s2" "eff_ok buf e" using flip8_done [OF b1(2)] by blast+
      show ?thesis using stage_ok_total [OF late [OF d(3)] d(2) assms(6)] 1 2 b1 d by (simp add: det_run_def)
    qed
  qed (use 1 in \<open>simp add: det_run_def\<close>)
qed

lemma det_run_total:
  assumes "buf \<noteq> []" "sinv na s" "\<forall>t \<in> all_cases buf. answers run t"
  shows "det_run run buf s \<noteq> None"
  by (rule det_run_returns [OF early_ok late_ok _ assms]) (use flips_length(2) [of buf] in \<open>auto simp: all_cases_def\<close>)

lemma det_run_done:
  assumes "sinv na s" "det_run run buf s = Some (False, buf', s')"
  shows "buf' = buf \<and> sinv na s' \<and> (\<forall>t \<in> flip_cases buf \<union> short_cases (fst na) buf. tested run t)"
proof -
  from assms(2) obtain b1 s1 b2 s2 e where
    1: "until_abandoned (\<lambda>f. f) (early_stages run) (buf, s) = Some (False, b1, s1)" and
    2: "flip8_stage run (b1, s1) = Some (False, b2, s2, e)" and
    3: "until_abandoned (\<lambda>f. f) (late_stages buf e run) (b2, s2) = Some (False, buf', s')"
    by (auto simp: det_run_def split: Option.bind_splits if_splits)
  note d1 = stage_okD [OF early_ok assms(1) 1]
  then have "flip8_stage run (buf, s1) = Some (False, b2, s2, e)" using 2 by simp
  note d2 = flip8_done [OF conjunct1 [OF conjunct2 [OF d1]] this]
  then have "until_abandoned (\<lambda>f. f) (late_stages buf e run) (buf, s2) = Some (False, buf', s')" using 3 by simp
  note d3 = stage_okD [OF late_ok _ this]
  show ?thesis using d1 d2 d3 unfolding flip_cases_def by blast
qed

section \<open>What the stages leave out\<close>

lemma flip_in_byte: "k < 8 \<Longrightarrow> i < length buf \<Longrightarrow> FLIP_BIT buf (8 * i + k) = Some (buf[i := buf ! i XOR drop_bit k 0x80])"
  by (simp add: FLIP_BIT_def)

lemma bit_runs:
  "drop_bit k 0x80 XOR drop_bit (k + 1) 0x80 = (drop_bit k 0xC0 :: u8)"
  "drop_bit k 0x80 XOR drop_bit (k + 1) 0x80 XOR drop_bit (k + 2) 0x80 XOR drop_bit (k + 3) 0x80 = (drop_bit k 0xF0 :: u8)"
proof -
  have shift: "drop_bit (k + m) 0x80 = drop_bit k (drop_bit m 0x80 :: u8)" for m by (simp only: drop_bit_drop_bit)
  show "drop_bit k 0x80 XOR drop_bit (k + 1) 0x80 = (drop_bit k 0xC0 :: u8)"
    "drop_bit k 0x80 XOR drop_bit (k + 1) 0x80 XOR drop_bit (k + 2) 0x80 XOR drop_bit (k + 3) 0x80 = (drop_bit k 0xF0 :: u8)"
    by (simp_all only: shift flip: drop_bit_xor) simp_all
qed

lemma flips_in_byte:
  assumes "i < length buf"
  shows "k < 8 \<Longrightarrow> flip_bits buf (8 * i + k) 1 = Some (buf[i := buf ! i XOR drop_bit k 0x80])"
    and "k < 7 \<Longrightarrow> flip_bits buf (8 * i + k) 2 = Some (buf[i := buf ! i XOR drop_bit k 0xC0])"
    and "k < 5 \<Longrightarrow> flip_bits buf (8 * i + k) 4 = Some (buf[i := buf ! i XOR drop_bit k 0xF0])"
  unfolding bit_runs [of k, symmetric]
  using assms flip_in_byte [of k i buf] flip_in_byte [of "k + 1" i] flip_in_byte [of "k + 2" i] flip_in_byte [of "k + 3" i]
  by (simp_all add: numeral_eq_Suc xor.assoc)

lemma byte_flip_tried:
  assumes "r \<in> set byte_flips" "i < length buf"
  shows "buf[i := buf ! i XOR r] \<in> flip_cases buf"
proof -
  have in_bits: "buf[i := buf ! i XOR m] \<in> bit_cases n buf" if "flip_bits buf (8 * i + k) n = Some (buf[i := buf ! i XOR m])" "k + n \<le> 8" for k n m
    unfolding bit_cases_def using that assms(2) by (intro CollectI exI [of _ "8 * i + k"]) simp
  consider k where "k < 8" "r = drop_bit k 0x80" | k where "k < 7" "r = drop_bit k 0xC0" | k where "k < 5" "r = drop_bit k 0xF0" | "r = 0xFF"
    using assms(1) by (auto simp: byte_flips_def)
  then show ?thesis
  proof cases
    case (1 k)
    then show ?thesis using in_bits [OF flips_in_byte(1) [OF assms(2), of k]] by (simp add: flip_cases_def)
  next
    case (2 k)
    then show ?thesis using 2 in_bits [OF flips_in_byte(2) [OF assms(2) 2(1)]] by (simp add: flip_cases_def)
  next
    case (3 k)
    then show ?thesis using 3 in_bits [OF flips_in_byte(3) [OF assms(2) 3(1)]] by (simp add: flip_cases_def)
  next
    case 4
    then show ?thesis using assms(2) by (auto simp: flip_cases_def byte_cases_def)
  qed
qed

lemma arith8_tried:
  assumes "i < length buf" "1 \<le> j" "j \<le> ARITH_MAX" "v = buf ! i + of_nat j \<or> v = buf ! i - of_nat j" "\<not> could_be_bitflip (ucast (buf ! i XOR v))"
  shows "buf[i := v] \<in> arith8_cases buf"
proof -
  have "rdn 1 buf i = Some (buf ! i)" "wrn 1 buf i v = Some (buf[i := v])" using assms(1) rdn1 wrn1 by simp_all
  then have t: "buf[i := v] \<in> poke_cases 1 buf i (arith8_pokes (the (rdn 1 buf i)) j)"
    using assms(4,5) by (auto simp: poke_cases_def arith8_pokes_def simp del: One_nat_def)
  have "i \<in> set [0..<length buf]" "j \<in> set [1..<Suc ARITH_MAX]" using assms(1-3) by (simp_all del: upt_Suc)
  then show ?thesis using t unfolding arith8_cases_def arith8_cases_at_def by blast
qed

lemma byte_tried:
  assumes "i < length buf" "length buf < EFF_MIN_LEN"
    and "(\<exists>j \<le> ARITH_MAX. v = buf ! i + of_nat j \<or> v = buf ! i - of_nat j) \<or> (\<exists>x \<in> set interesting_8. v = of_int x)"
  shows "buf[i := v] = buf \<or> buf[i := v] \<in> flip_cases buf \<union> short_cases False buf"
proof (cases "could_be_bitflip (ucast (buf ! i XOR v))")
  case True
  then consider "buf ! i XOR v = 0" | "buf ! i XOR v \<in> set byte_flips" by (auto simp: could_be_bitflip_byte)
  then show ?thesis
  proof cases
    case 2
    then show ?thesis using byte_flip_tried [OF 2 assms(1)] by (simp flip: xor.assoc)
  qed (metis list_update_id xor_self_eq xor.assoc xor.right_neutral xor.left_neutral)
next
  case flip: False
  show ?thesis
  proof (cases "\<exists>j \<le> ARITH_MAX. v = buf ! i + of_nat j \<or> v = buf ! i - of_nat j")
    case True
    then obtain j where j: "j \<le> ARITH_MAX" "v = buf ! i + of_nat j \<or> v = buf ! i - of_nat j" by blast
    show ?thesis
    proof (cases "j = 0")
      case False
      then show ?thesis using arith8_tried [OF assms(1) _ j flip] assms(2) by (simp add: short_cases_def)
    qed (use j in auto)
  next
    case False
    then obtain x where x: "x \<in> set interesting_8" "v = of_int x" using assms(3) by blast
    then have "\<not> could_be_arith (ucast (buf ! i)) (ucast v) 1" using False by (simp only: could_be_arith_byte) blast
    then have "buf[i := v] \<in> int8_cases buf i x" using flip x(2) by (simp add: int8_cases_def)
    then show ?thesis using x(1) assms(1,2) by (auto simp: short_cases_def interest8_cases_def interest8_cases_at_def)
  qed
qed

section \<open>Testers that never abandon\<close>

definition calm :: "tester \<Rightarrow> bool" where
  "calm run \<longleftrightarrow> (\<forall>t f f'. run t f \<noteq> Some (True, f'))"

definition never :: "('x \<Rightarrow> (bool \<times> 'y) option) \<Rightarrow> bool" where
  "never f \<longleftrightarrow> (\<forall>x y. f x \<noteq> Some (True, y))"

lemma never_until:
  assumes "\<And>i. i \<in> set is \<Longrightarrow> never (body i)"
  shows "never (until_abandoned body is)"
  using assms
proof (induction "is")
  case (Cons i "is")
  then have "never (body i)" "never (until_abandoned body is)" by simp_all
  then show ?case unfolding never_def by (auto split: option.splits if_splits)
qed (simp add: never_def)

lemma neverI: "(\<And>x y. f x = Some (True, y) \<Longrightarrow> False) \<Longrightarrow> never f"
  by (auto simp: never_def)

lemma neverD: "never f \<Longrightarrow> f x = Some (True, y) \<Longrightarrow> False"
  by (simp add: never_def)

lemma calm_try: "calm run \<Longrightarrow> try_case run t s \<noteq> Some (True, s')"
  by (auto simp: calm_def try_case_Some)

lemma never_run_stage: "(\<And>i. never (body i)) \<Longrightarrow> run_stage k sh n body is x \<noteq> Some (True, y)"
  using never_until [of "is" body] unfolding never_def run_stage_def by (auto split: Option.bind_splits prod.splits)

lemma never_steps:
  assumes "calm run"
  shows "never (flip1_at run i)" "never (walk_bits n run i)" "never (flip8_at run i)" "never (flip_word T m eff_map run i)"
    "never (poke m run i c u w)" "never (over_token eff_map run i dice d)" "never (insert_token run i buf e)"
  using calm_try [OF assms] unfolding never_def
  by (auto simp: flip1_at_def walk_bits_def flip8_at_def flip_word_def poke_def over_token_def insert_token_def Let_def
      split: Option.bind_splits if_splits)

lemma never_poke_all: "calm run \<Longrightarrow> never (poke_all m run i orig ps)"
  using never_until [of ps "\<lambda>(c, u, w). poke m run i c u w"] never_steps(5) [of run m i]
  unfolding never_def poke_all_def by (fastforce split: Option.bind_splits if_splits)

lemma never_tokens_at: "(\<And>e. never (step e)) \<Longrightarrow> never (tokens_at step es in_buf i)"
  using never_until [of es step] unfolding never_def tokens_at_def by (auto split: Option.bind_splits if_splits)

lemma never_at:
  assumes "calm run"
  shows "never (arith_at m pokes skip eff_map run i)" "never (interest8_val run i orig x)" "never (interest_at m pokes' table eff_map run i)"
    "never (user_token eff_map run i e)" "never (insert_at run buf i)"
proof -
  have "never (until_abandoned (\<lambda>j. poke_all m run i orig (pokes orig j)) [1..<Suc ARITH_MAX])" for orig
    by (rule never_until) (rule never_poke_all [OF assms])
  note n = neverD [OF this]
  show "never (arith_at m pokes skip eff_map run i)"
    by (rule neverI) (auto simp: arith_at_def simp del: upt_Suc One_nat_def dest: n split: Option.bind_splits if_splits)
  show "never (interest8_val run i orig x)" "never (interest_at m pokes' table eff_map run i)"
    by (rule neverI; auto simp: interest8_val_def interest_at_def dest: neverD [OF never_poke_all [OF assms]] split: Option.bind_splits if_splits)+
  show "never (user_token eff_map run i e)"
    using never_steps(6) [OF assms] unfolding never_def user_token_def Let_def by (auto split: Option.bind_splits if_splits)
  show "never (insert_at run buf i)"
    using never_until [of _ "insert_token run i buf"] never_steps(7) [OF assms]
    unfolding never_def insert_at_def by (auto split: Option.bind_splits if_splits)
qed

lemma never_interest8_at: "calm run \<Longrightarrow> never (interest8_at eff_map run i)"
  using never_until [of interesting_8 "interest8_val run i orig" for orig] never_at(2)
  unfolding never_def interest8_at_def by (auto split: Option.bind_splits if_splits)

lemma never_stages:
  assumes "calm run"
  shows "never (flip1_stage run)" "never (flip2_stage run)" "never (flip4_stage run)" "never (flip8_stage run)"
    "never (flip16_stage eff_map run)" "never (flip32_stage eff_map run)"
    "never (arith8_stage eff_map run)" "never (arith16_stage eff_map run)" "never (arith32_stage eff_map run)"
    "never (interest8_stage eff_map run)" "never (interest16_stage eff_map run)" "never (interest32_stage eff_map run)"
    "never (extras_over_stage buf eff_map run)" "never (extras_insert_stage run)" "never (auto_over_stage buf eff_map run)"
proof -
  note steps = never_steps [OF assms] never_at [OF assms] never_interest8_at [OF assms] never_tokens_at
  show "never (flip1_stage run)"
    by (rule neverI) (auto simp: flip1_stage_def dest: neverD [OF never_until, OF steps(1)] split: Option.bind_splits if_splits)
  have "never (until_abandoned (flip8_at run) is)" for "is" by (rule never_until) (rule steps)
  note n = neverD [OF this]
  show "never (flip8_stage run)"
    by (rule neverI) (auto simp: flip8_stage_def Let_def dest!: n split: Option.bind_splits if_splits)
  show "never (flip2_stage run)" "never (flip4_stage run)"
    by (rule neverI; simp add: flip2_stage_def flip4_stage_def Let_def never_run_stage [OF steps(2)] split: if_splits prod.splits)+
  show "never (flip16_stage eff_map run)" "never (flip32_stage eff_map run)"
    by (rule neverI; simp add: flip16_stage_def flip32_stage_def Let_def never_run_stage [OF steps(4)] split: if_splits prod.splits)+
  show "never (arith8_stage eff_map run)" "never (arith16_stage eff_map run)" "never (arith32_stage eff_map run)"
    by (rule neverI; simp add: arith8_stage_def arith16_stage_def arith32_stage_def Let_def never_run_stage [OF steps(8)] split: if_splits prod.splits)+
  show "never (interest8_stage eff_map run)"
    by (rule neverI; simp add: interest8_stage_def Let_def never_run_stage [OF steps(13)] split: if_splits prod.splits)+
  show "never (interest16_stage eff_map run)" "never (interest32_stage eff_map run)"
    by (rule neverI; simp add: interest16_stage_def interest32_stage_def Let_def never_run_stage [OF steps(10)] split: if_splits prod.splits)+
  show "never (extras_over_stage buf eff_map run)"
    by (rule neverI; simp add: extras_over_stage_def Let_def never_run_stage [OF never_tokens_at [OF steps(11)]] split: if_splits prod.splits)+
  show "never (auto_over_stage buf eff_map run)"
    by (rule neverI; simp add: auto_over_stage_def Let_def never_run_stage [OF never_tokens_at [OF steps(6)]] split: if_splits prod.splits)+
  show "never (extras_insert_stage run)"
    by (rule neverI) (auto simp: extras_insert_stage_def dest!: never_run_stage [OF steps(12), THEN notE] simp del: upt_Suc split: Option.bind_splits)
qed

lemma never_if: "never f \<Longrightarrow> never (if_stage c f)"
  by (auto simp: never_def if_stage_def)

lemma det_run_never:
  assumes "calm run"
  shows "det_run run buf s \<noteq> Some (True, x)"
proof -
  have e: "never (until_abandoned (\<lambda>f. f) (early_stages run))"
    by (rule never_until) (auto simp: early_stages_def intro: never_stages [OF assms])
  have "never (until_abandoned (\<lambda>f. f) (late_stages buf eff_map run))" for eff_map
    by (rule never_until) (auto simp: late_stages_def intro: never_if never_stages [OF assms])
  note l = neverD [OF this]
  show ?thesis
    by (auto simp: det_run_def dest: neverD [OF e] neverD [OF never_stages(4) [OF assms]] l split: Option.bind_splits if_splits)
qed

section \<open>One byte and no arithmetic\<close>

lemma stage_ok_nop: "(\<And>s. I s \<Longrightarrow> f (buf, s) = Some (False, buf, s)) \<Longrightarrow> stage_ok run I buf A {} f"
  by (auto simp: stage_ok_def)

lemma long_tokens:
  "\<forall>e \<in> set es. length buf - i < ex_len e \<Longrightarrow> sinv na s \<Longrightarrow>
    \<exists>s'. until_abandoned (\<lambda>e. over_token eff_map run i False (ex_data e)) es (buf, s, l) = Some (False, buf, s', l) \<and> sinv na s'"
proof (induction es arbitrary: s)
  case (Cons e es)
  then show ?case using Cons.IH [of "fewer 1 s"] by (simp add: over_token_def)
qed simp

lemma auto_over_short:
  assumes "length buf < MIN_AUTO_EXTRA"
  shows "stage_ok run (sinv na) buf A {} (auto_over_stage buf eff_map run)"
proof (rule stage_ok_state)
  fix s assume s: "sinv na s"
  let ?es = "take USE_AUTO_EXTRAS (a_extras s)"
  have long: "\<forall>e \<in> set ?es. length buf - i < ex_len e" for i
  proof
    fix e assume "e \<in> set ?es"
    then have "ex_data e \<in> set (tokens (a_extras s))" by (auto simp: tokens_def dest: in_set_takeD)
    then show "length buf - i < ex_len e" using s assms by (auto simp: sinv_def auto_wf_def)
  qed
  have "stage_ok run (sinv na) buf A {} (tokens_at (\<lambda>e. over_token eff_map run i False (ex_data e)) ?es buf i)" if i: "i < length buf" for i
  proof -
    have "\<exists>s'. tokens_at (\<lambda>e. over_token eff_map run i False (ex_data e)) ?es buf i (buf, r) = Some (False, buf, s') \<and> sinv na s'" if "sinv na r" for r
      using long_tokens [OF long [of i], of na "set_byte i r" eff_map run 0] that i by (auto simp: tokens_at_def getn_def putn_def)
    then show ?thesis by (intro stage_okI) fastforce+
  qed
  then have "stage_ok run (sinv na) buf (\<Union>i \<in> set [0..<length buf]. A) (\<Union>i \<in> set [0..<length buf]. {})
      (run_stage STAGE_EXTRAS_AO ''ext_AO'' (int (length ?es * length buf)) (\<lambda>i. tokens_at (\<lambda>e. over_token eff_map run i False (ex_data e)) ?es buf i) [0..<length buf])"
    by (intro run_stage_loop) simp
  then show "stage_ok run (sinv na) buf A {}
      (run_stage STAGE_EXTRAS_AO ''ext_AO'' (int (length ?es * length buf)) (\<lambda>i. tokens_at (\<lambda>e. over_token eff_map run i False (ex_data e)) ?es buf i) [0..<length buf])"
    by (rule stage_ok_weaken) auto
  show "auto_over_stage buf eff_map run (buf, s) = run_stage STAGE_EXTRAS_AO ''ext_AO'' (int (length ?es * length buf))
       (\<lambda>i. tokens_at (\<lambda>e. over_token eff_map run i False (ex_data e)) ?es buf i) [0..<length buf] (buf, set_type STAGE_VAL_NONE s)"
    by (simp only: auto_over_stage_def prod.case Let_def)
qed simp

lemma late_one_byte:
  assumes "eff_ok [b] eff_map"
  shows "stage_ok run (sinv (True, [])) [b] (interest8_cases [b]) {} (until_abandoned (\<lambda>f. f) (late_stages [b] eff_map run))"
proof -
  let ?A = "interest8_cases [b]" and ?I = "sinv (True, [])"
  have nop: "stage_ok run ?I [b] ?A {} (flip16_stage eff_map run)" "stage_ok run ?I [b] ?A {} (flip32_stage eff_map run)"
    "stage_ok run ?I [b] ?A {} (if_stage (\<lambda>s. \<not> no_arith s) g)" "stage_ok run ?I [b] ?A {} (interest16_stage eff_map run)"
    "stage_ok run ?I [b] ?A {} (interest32_stage eff_map run)" "stage_ok run ?I [b] ?A {} (if_stage (\<lambda>s. extras s \<noteq> []) g)" for g
    by (rule stage_ok_nop, simp add: sinv_def flip16_stage_def flip32_stage_def if_stage_def interest16_stage_def interest32_stage_def)+
  have i8: "stage_ok run ?I [b] ?A {} (interest8_stage eff_map run)"
    by (rule stage_ok_weaken [OF interest8_ok [OF assms]]) simp_all
  have ao: "stage_ok run ?I [b] ?A {} (if_stage (\<lambda>s. a_extras s \<noteq> []) (auto_over_stage [b] eff_map run))"
    by (rule if_stage_ok_any, rule auto_over_short) (simp add: MIN_AUTO_EXTRA_def)
  note all = stages_ok_Cons [OF nop(1) stages_ok_Cons [OF nop(2) stages_ok_Cons [OF nop(3) stages_ok_Cons [OF nop(3) stages_ok_Cons [OF nop(3)
    stages_ok_Cons [OF i8 stages_ok_Cons [OF nop(4) stages_ok_Cons [OF nop(5) stages_ok_Cons [OF nop(6) stages_ok_Cons [OF nop(6)
      stages_ok_Cons [OF ao stages_ok_Nil]]]]]]]]]]]
  show ?thesis unfolding late_stages_def by (rule stage_ok_weaken [OF all]) auto
qed

lemma early_flips: "stage_ok run (sinv na) buf (flip_cases buf) {} (until_abandoned (\<lambda>f. f) (early_stages run))"
proof -
  note w = stage_ok_weaken [OF _ _ empty_subsetI, where A' = "flip_cases buf"]
  have "bit_cases 1 buf \<subseteq> flip_cases buf" "bit_cases 2 buf \<subseteq> flip_cases buf" "bit_cases 4 buf \<subseteq> flip_cases buf"
    by (auto simp: flip_cases_def)
  note f = flip1_ok [THEN w, OF this(1)] flip2_ok [THEN w, OF this(2)] flip4_ok [THEN w, OF this(3)]
  from stages_ok_Cons [OF f(1) stages_ok_Cons [OF f(2) stages_ok_Cons [OF f(3) stages_ok_Nil]]]
  show ?thesis by (simp add: early_stages_def)
qed

lemma det_run_one_byte:
  assumes "sinv (True, []) s" "\<forall>t \<in> flip_cases [b] \<union> interest8_cases [b]. answers run t"
  shows "det_run run [b] s \<noteq> None"
proof -
  let ?A = "flip_cases [b] \<union> interest8_cases [b]"
  have e: "stage_ok run (sinv (True, [])) [b] ?A {} (until_abandoned (\<lambda>f. f) (early_stages run))"
    by (rule stage_ok_weaken [OF early_flips]) auto
  have l: "stage_ok run (sinv (True, [])) [b] ?A {} (until_abandoned (\<lambda>f. f) (late_stages [b] e run))" if "eff_ok [b] e" for e
    by (rule stage_ok_weaken [OF late_one_byte [OF that]]) auto
  show ?thesis by (rule det_run_returns [OF e l _ _ assms]) (auto simp: flip_cases_def)
qed

lemma flip_cases_byte:
  assumes "t \<in> flip_cases [b]"
  shows "\<exists>r \<in> set byte_flips. t = [b XOR r]"
proof -
  consider k where "k \<le> 7" "flip_bits [b] k 1 = Some t" | k where "k \<le> 6" "flip_bits [b] k 2 = Some t"
    | k where "k \<le> 4" "flip_bits [b] k 4 = Some t" | "t = [b XOR 0xFF]"
    using assms by (auto simp: flip_cases_def bit_cases_def byte_cases_def)
  then show ?thesis
  proof cases
    case (1 k)
    then show ?thesis using flips_in_byte(1) [of 0 "[b]" k] by (auto simp: byte_flips_def)
  next
    case (2 k)
    then show ?thesis using flips_in_byte(2) [of 0 "[b]" k] by (auto simp: byte_flips_def)
  next
    case (3 k)
    then show ?thesis using flips_in_byte(3) [of 0 "[b]" k] by (auto simp: byte_flips_def)
  qed (auto simp: byte_flips_def)
qed

lemma untested_byte:
  assumes "\<not> could_be_bitflip (ucast (b XOR v))" "could_be_arith (ucast b) (ucast v) 1"
  shows "[v] \<notin> flip_cases [b] \<union> interest8_cases [b]"
proof
  assume "[v] \<in> flip_cases [b] \<union> interest8_cases [b]"
  then consider "[v] \<in> flip_cases [b]" | x where "[v] \<in> int8_cases [b] 0 x" by (auto simp: interest8_cases_def interest8_cases_at_def)
  then show False
  proof cases
    case 1
    then obtain r where "r \<in> set byte_flips" "v = b XOR r" using flip_cases_byte by blast
    then show False using assms(1) by (simp add: could_be_bitflip_byte flip: xor.assoc)
  next
    case (2 x)
    then show False using assms by (auto simp: int8_cases_def split: if_splits)
  qed
qed

section \<open>Properties\<close>

lemma sinv_start: "auto_wf (a_extras s) \<Longrightarrow> extras_wf (extras s) \<Longrightarrow> sinv (no_arith s, extras s) s"
  by (simp add: sinv_def)

lemma sample_stages_wf: "auto_wf (a_extras sample_stages)" "extras_wf (extras sample_stages)" "extras sample_stages = []"
  by (simp_all add: sample_stages_def auto_wf_def extras_wf_def tokens_def)

text \<open>A tester that passes every test case and leaves the state alone.\<close>

definition pass :: tester where
  "pass t f = Some (False, f)"

lemma pass_ok: "calm pass" "answers pass t"
  by (auto simp: calm_def answers_def pass_def)

lemma pass_returns:
  assumes "buf \<noteq> []" "auto_wf (a_extras s)" "extras_wf (extras s)"
  obtains buf' s' where "det_run pass buf s = Some (False, buf', s')"
proof -
  have "det_run pass buf s \<noteq> None" by (rule det_run_total [OF assms(1) sinv_start [OF assms(2,3)]]) (simp add: pass_ok)
  then obtain a buf' s' where "det_run pass buf s = Some (a, buf', s')" by auto
  moreover have "\<not> a" using calculation det_run_never [OF pass_ok(1)] by (cases a) auto
  ultimately show ?thesis using that by simp
qed

text \<open>
  C9 (safety): on every input that is not empty the deterministic stages return, for every tester that
  answers the inputs of the same length and those with a token inserted. Their accesses stay within the
  buffers, the effector map and the dictionaries, with one exception, which stays within the block of
  memory of the buffer: when the user has given tokens, the allocator's mark behind the buffer is read
  after the last insertion and not used. Unless the entry is abandoned, the stages leave the buffer byte
  for byte as it was, and the dictionaries well formed.
\<close>

theorem det_run_restores:
  assumes "in_buf \<noteq> []" "auto_wf (a_extras s)" "extras_wf (extras s)"
    and "\<forall>t. length t = length in_buf \<or> t \<in> insert_cases in_buf \<longrightarrow> answers run t"
  shows "\<exists>abandoned buf s'. det_run run in_buf s = Some (abandoned, buf, s') \<and>
    (\<not> abandoned \<longrightarrow> buf = in_buf \<and> extras s' = extras s \<and> no_arith s' = no_arith s \<and> auto_wf (a_extras s'))"
proof -
  note inv = sinv_start [OF assms(2,3)]
  have "det_run run in_buf s \<noteq> None"
    by (rule det_run_total [OF assms(1) inv]) (use assms(4) in \<open>auto simp: all_cases_def same_length_def\<close>)
  then obtain a buf s' where r: "det_run run in_buf s = Some (a, buf, s')" by auto
  then show ?thesis using det_run_done [OF inv, of run in_buf buf s'] by (cases a) (auto simp: sinv_def)
qed

theorem det_run_restores_witness:
  "\<exists>buf s'. det_run pass [0x50, 0x51] sample_stages = Some (False, buf, s') \<and> buf = [0x50, 0x51]"
proof -
  have "\<forall>t. length t = length [0x50, 0x51 :: u8] \<or> t \<in> insert_cases [0x50, 0x51] \<longrightarrow> answers pass t" by (simp add: pass_ok)
  from det_run_restores [OF _ sample_stages_wf(1,2) this] show ?thesis
    using det_run_never [OF pass_ok(1), of "[0x50, 0x51]" sample_stages] by (metis (full_types) list.distinct(1))
qed

text \<open>
  C10 (functional): on inputs of less than 128 bytes nothing is lost by the checks that leave out
  what an earlier stage has done: once the deterministic stages are through, every byte has been tried
  with every value at most 35 away and with every value of \<open>interesting_8\<close>, by whichever stage.
  (The statement holds of every tester, so a test case it names is one that is run.)
\<close>

theorem det_short_bytes:
  assumes "auto_wf (a_extras s)" "extras_wf (extras s)" "\<not> no_arith s" "length in_buf < 128" "i < length in_buf"
    and "det_run run in_buf s = Some (False, buf, s')"
    and "(\<exists>j \<le> 35. v = in_buf ! i + of_nat j \<or> v = in_buf ! i - of_nat j) \<or> v \<in> of_int ` set interesting_8"
  shows "v = in_buf ! i \<or> tested run (in_buf[i := v])"
proof -
  have "in_buf[i := v] = in_buf \<or> in_buf[i := v] \<in> flip_cases in_buf \<union> short_cases False in_buf"
    by (rule byte_tried [OF assms(5)]) (use assms(4,7) in \<open>auto simp: EFF_MIN_LEN_def ARITH_MAX_def\<close>)
  moreover have "\<forall>t \<in> flip_cases in_buf \<union> short_cases False in_buf. tested run t"
    using det_run_done [OF sinv_start [OF assms(1,2)] assms(6)] assms(3) by simp
  ultimately show ?thesis using assms(5) by (metis nth_list_update_eq)
qed

theorem det_short_bytes_witness:
  "\<exists>buf s'. det_run pass [5] sample_stages = Some (False, buf, s') \<and> tested pass [32]"
proof -
  obtain buf s' where r: "det_run pass [5] sample_stages = Some (False, buf, s')"
    by (rule pass_returns [OF _ sample_stages_wf(1,2), of "[5]"]) simp_all
  have "(32 :: u8) \<in> of_int ` set interesting_8" by (auto simp: interesting_8_def image_iff)
  then show ?thesis
    using det_short_bytes [OF sample_stages_wf(1,2) _ _ _ r, of 0 32] r by (auto simp: sample_stages_def)
qed

text \<open>
  C40 (error): with arithmetic switched off by \<open>AFL_NO_ARITH\<close> this does not hold: the checks still leave out
  what the arithmetic stages would have done. For an input of one byte, a value at most 35 away that is no bit
  flip is never run, interesting or not: the stages return whatever the tester does on it.
\<close>

theorem no_arith_gap:
  assumes "auto_wf (a_extras s)" "extras s = []" "no_arith s" "\<forall>t. t \<noteq> [v] \<longrightarrow> answers run t"
    and "j \<le> 35" "v = b + of_nat j \<or> v = b - of_nat j" "\<not> could_be_bitflip (ucast (b XOR v))"
  shows "det_run run [b] s \<noteq> None"
proof (rule det_run_one_byte)
  show "sinv (True, []) s" using sinv_start [OF assms(1)] assms(2,3) by (simp add: extras_wf_def)
  have "could_be_arith (ucast b) (ucast v) 1" unfolding could_be_arith_byte ARITH_MAX_def using assms(5,6) by blast
  from untested_byte [OF assms(7) this] show "\<forall>t \<in> flip_cases [b] \<union> interest8_cases [b]. answers run t" using assms(4) by metis
qed

theorem no_arith_gap_witness:
  "det_run (\<lambda>t f. if t = [32] then None else pass t f) [5] (sample_stages\<lparr>no_arith := True\<rparr>) \<noteq> None
    \<and> (32 :: int) \<in> set interesting_8"
proof -
  have "\<not> could_be_bitflip (ucast (5 XOR 32 :: u8))" by code_simp
  from no_arith_gap [of "sample_stages\<lparr>no_arith := True\<rparr>" 32 "\<lambda>t f. if t = [32] then None else pass t f" 27 5, OF _ _ _ _ _ _ this]
  show ?thesis using sample_stages_wf(1,3) pass_ok(2) by (auto simp: answers_def interesting_8_def)
qed

end
