(* ===== verification/Afl_Havoc.thy ===== *)
theory Afl_Havoc
  imports Afl_Det_Run
begin

text \<open>
  The havoc stage of \<open>fuzz_one\<close> (\<open>afl-fuzz.c\<close>): its 21 tweaks, their stacking, and the rounds of the
  stage. The lemmas show that every tweak stays within its buffer and that a stage runs as many test
  cases as its start says, all of 1 to \<open>MAX_FILE\<close> bytes. The buffer is kept as it is allocated, with the number \<open>temp_len\<close> of bytes in use beside it, so a tweak may leave unused bytes behind them. Every copy
  is checked against the allocation. Where the C code leaves the order of two random draws open,
  the one that is written first is drawn first.
\<close>

section \<open>Constants of config.h\<close>

definition HAVOC_CYCLES :: nat where "HAVOC_CYCLES = 256"
definition HAVOC_CYCLES_INIT :: nat where "HAVOC_CYCLES_INIT = 1024"
definition HAVOC_MIN :: nat where "HAVOC_MIN = 16"
definition HAVOC_STACK_POW2 :: nat where "HAVOC_STACK_POW2 = 7"
definition SPLICE_CYCLES :: nat where "SPLICE_CYCLES = 15"
definition SPLICE_HAVOC :: nat where "SPLICE_HAVOC = 32"

section \<open>Tweaks\<close>

type_synonym work = "u8 list \<times> nat \<times> stages"

text \<open>The draws that leave the fuzzer but for the random numbers alone.\<close>

definition with_core :: "(afl \<Rightarrow> ('r \<times> afl) option) \<Rightarrow> stages \<Rightarrow> ('r \<times> stages) option" where
  "with_core f s = map_option (\<lambda>(r, c). (r, upd_fz (upd_core (\<lambda>_. c)) s)) (f (core (fz s)))"

definition block_len :: "nat \<Rightarrow> stages \<Rightarrow> (nat \<times> stages) option" where
  "block_len limit s = with_core (choose_block_len (run_over10m s) limit) s"

definition tweak_bit :: "work \<Rightarrow> work option" where
  "tweak_bit = (\<lambda>(buf, temp_len, s). do {
     (b, s) \<leftarrow> URs (8 * temp_len) s;
     buf \<leftarrow> FLIP_BIT buf b;
     Some (buf, temp_len, s)
   })"

definition tweak_interest8 :: "work \<Rightarrow> work option" where
  "tweak_interest8 = (\<lambda>(buf, temp_len, s). do {
     (pos, s) \<leftarrow> URs temp_len s;
     (k, s) \<leftarrow> URs (length interesting_8) s;
     buf \<leftarrow> wrn 1 buf pos (of_int (interesting_8 ! k) :: u8);
     Some (buf, temp_len, s)
   })"

text \<open>Words of \<open>n\<close> bytes, in either byte order; \<open>swap\<close> is \<open>SWAP16\<close> or \<open>SWAP32\<close>.\<close>

definition tweak_interest :: "nat \<Rightarrow> ('a::len word \<Rightarrow> 'a word) \<Rightarrow> int list \<Rightarrow> work \<Rightarrow> work option" where
  "tweak_interest n swap table = (\<lambda>(buf, temp_len, s).
     if temp_len < n then Some (buf, temp_len, s)
     else do {
       (le, s) \<leftarrow> URs 2 s;
       (pos, s) \<leftarrow> URs (temp_len - (n - 1)) s;
       (k, s) \<leftarrow> URs (length table) s;
       buf \<leftarrow> wrn n buf pos (if le \<noteq> 0 then of_int (table ! k) else swap (of_int (table ! k)));
       Some (buf, temp_len, s)
     })"

definition tweak_byte :: "nat \<Rightarrow> (u8 \<Rightarrow> u8 \<Rightarrow> u8) \<Rightarrow> work \<Rightarrow> work option" where
  "tweak_byte limit f = (\<lambda>(buf, temp_len, s). do {
     (pos, s) \<leftarrow> URs temp_len s;
     (d, s) \<leftarrow> URs limit s;
     b \<leftarrow> rdn 1 buf pos;
     buf \<leftarrow> wrn 1 buf pos (f b (1 + of_nat d));
     Some (buf, temp_len, s)
   })"

definition tweak_arith :: "nat \<Rightarrow> ('a::len word \<Rightarrow> 'a word) \<Rightarrow> ('a word \<Rightarrow> 'a word \<Rightarrow> 'a word) \<Rightarrow> work \<Rightarrow> work option" where
  "tweak_arith n swap f = (\<lambda>(buf, temp_len, s).
     if temp_len < n then Some (buf, temp_len, s)
     else do {
       (le, s) \<leftarrow> URs 2 s;
       (pos, s) \<leftarrow> URs (temp_len - (n - 1)) s;
       (d, s) \<leftarrow> URs ARITH_MAX s;
       w \<leftarrow> rdn n buf pos;
       buf \<leftarrow> wrn n buf pos (if le \<noteq> 0 then f w (1 + of_nat d) else swap (f (swap w) (1 + of_nat d)));
       Some (buf, temp_len, s)
     })"

definition tweak_delete :: "work \<Rightarrow> work option" where
  "tweak_delete = (\<lambda>(buf, temp_len, s).
     if temp_len < 2 then Some (buf, temp_len, s)
     else do {
       (del_len, s) \<leftarrow> block_len (temp_len - 1) s;
       (del_from, s) \<leftarrow> URs (temp_len - del_len + 1) s;
       d \<leftarrow> getn buf (del_from + del_len) (temp_len - del_from - del_len);
       buf \<leftarrow> putn buf del_from d;
       Some (buf, temp_len - del_len, s)
     })"

text \<open>A random byte or one of the buffer.\<close>

definition fill_byte :: "u8 list \<Rightarrow> nat \<Rightarrow> stages \<Rightarrow> (u8 \<times> stages) option" where
  "fill_byte buf temp_len s = do {
     (any, s) \<leftarrow> URs 2 s;
     (if any \<noteq> 0 then map_option (\<lambda>(r, s). (of_nat r, s)) (URs 256 s)
      else do { (pos, s) \<leftarrow> URs temp_len s; b \<leftarrow> rdn 1 buf pos; Some (b, s) })
   }"

text \<open>A new buffer with some bytes inserted.\<close>

definition splice_in :: "u8 list \<Rightarrow> nat \<Rightarrow> nat \<Rightarrow> u8 list \<Rightarrow> (u8 list) option" where
  "splice_in buf temp_len pos mid = do {
     head \<leftarrow> getn buf 0 pos;
     rest \<leftarrow> getn buf pos (temp_len - pos);
     Some (head @ mid @ rest)
   }"

definition tweak_clone :: "work \<Rightarrow> work option" where
  "tweak_clone = (\<lambda>(buf, temp_len, s).
     if temp_len + HAVOC_BLK_XL < MAX_FILE
     then do {
       (actually_clone, s) \<leftarrow> URs 4 s;
       ((clone_len, clone_from), s) \<leftarrow>
         (if actually_clone \<noteq> 0
          then do { (n, s) \<leftarrow> block_len temp_len s; (f, s) \<leftarrow> URs (temp_len - n + 1) s; Some ((n, f), s) }
          else do { (n, s) \<leftarrow> block_len HAVOC_BLK_XL s; Some ((n, 0), s) });
       (clone_to, s) \<leftarrow> URs temp_len s;
       (mid, s) \<leftarrow>
         (if actually_clone \<noteq> 0 then map_option (\<lambda>d. (d, s)) (getn buf clone_from clone_len)
          else map_option (\<lambda>(b, s). (replicate clone_len b, s)) (fill_byte buf temp_len s));
       new_buf \<leftarrow> splice_in buf temp_len clone_to mid;
       Some (new_buf, temp_len + clone_len, s)
     }
     else Some (buf, temp_len, s))"

definition tweak_copy :: "work \<Rightarrow> work option" where
  "tweak_copy = (\<lambda>(buf, temp_len, s).
     if temp_len < 2 then Some (buf, temp_len, s)
     else do {
       (copy_len, s) \<leftarrow> block_len (temp_len - 1) s;
       (copy_from, s) \<leftarrow> URs (temp_len - copy_len + 1) s;
       (copy_to, s) \<leftarrow> URs (temp_len - copy_len + 1) s;
       (chunk, s) \<leftarrow> URs 4 s;
       (d, s) \<leftarrow>
         (if chunk \<noteq> 0 then map_option (\<lambda>d. (d, s)) (getn buf copy_from copy_len)
          else map_option (\<lambda>(b, s). (replicate copy_len b, s)) (fill_byte buf temp_len s));
       buf \<leftarrow> (if chunk \<noteq> 0 \<and> copy_from = copy_to then Some buf else putn buf copy_to d);
       Some (buf, temp_len, s)
     })"

text \<open>A token of the user's or of the fuzzer's own; one of the dictionaries is not empty.\<close>

definition any_extra :: "stages \<Rightarrow> (u8 list \<times> stages) option" where
  "any_extra s = do {
     (own, s) \<leftarrow> (if extras s = [] then Some (True, s)
                  else if a_extras s = [] then Some (False, s)
                  else map_option (\<lambda>(r, s). (r \<noteq> 0, s)) (URs 2 s));
     let es = (if own then a_extras s else extras s);
     (use_extra, s) \<leftarrow> URs (length es) s;
     Some (ex_data (es ! use_extra), s)
   }"

definition tweak_extra_over :: "work \<Rightarrow> work option" where
  "tweak_extra_over = (\<lambda>(buf, temp_len, s).
     if extras s = [] \<and> a_extras s = [] then Some (buf, temp_len, s)
     else do {
       (d, s) \<leftarrow> any_extra s;
       (if length d > temp_len then Some (buf, temp_len, s)
        else do {
          (pos, s) \<leftarrow> URs (temp_len - length d + 1) s;
          buf \<leftarrow> putn buf pos d;
          Some (buf, temp_len, s)
        })
     })"

definition tweak_extra_insert :: "work \<Rightarrow> work option" where
  "tweak_extra_insert = (\<lambda>(buf, temp_len, s).
     if extras s = [] \<and> a_extras s = [] then Some (buf, temp_len, s)
     else do {
       (pos, s) \<leftarrow> URs (temp_len + 1) s;
       (d, s) \<leftarrow> any_extra s;
       (if temp_len + length d \<ge> MAX_FILE then Some (buf, temp_len, s)
        else do {
          buf \<leftarrow> splice_in buf temp_len pos d;
          Some (buf, temp_len + length d, s)
        })
     })"

text \<open>The tweaks with whole regions; \<open>place\<close> makes a new buffer of the region and the old one.\<close>

definition tweak_region_replace :: "work \<Rightarrow> work option" where
  "tweak_region_replace = (\<lambda>(buf, temp_len, s). do {
     (r, s) \<leftarrow> with_core choose_source_region s;
     Some (case r of None \<Rightarrow> (buf, temp_len, s) | Some new_buf \<Rightarrow> (new_buf, length new_buf, s))
   })"

definition tweak_region_add :: "(u8 list \<Rightarrow> u8 list \<Rightarrow> u8 list) \<Rightarrow> work \<Rightarrow> work option" where
  "tweak_region_add place = (\<lambda>(buf, temp_len, s). do {
     (r, s) \<leftarrow> with_core choose_source_region s;
     (case r of
        None \<Rightarrow> Some (buf, temp_len, s)
      | Some src \<Rightarrow>
          if temp_len + length src \<ge> MAX_FILE then Some (buf, temp_len, s)
          else do { old \<leftarrow> getn buf 0 temp_len; Some (place src old, temp_len + length src, s) })
   })"

definition tweak_double :: "work \<Rightarrow> work option" where
  "tweak_double = (\<lambda>(buf, temp_len, s).
     if temp_len * 2 \<ge> MAX_FILE then Some (buf, temp_len, s)
     else do { old \<leftarrow> getn buf 0 temp_len; Some (old @ old, temp_len + temp_len, s) })"

text \<open>The \<open>switch\<close>.\<close>

definition tweak :: "nat \<Rightarrow> work \<Rightarrow> work option" where
  "tweak k =
     (if k = 0 then tweak_bit
      else if k = 1 then tweak_interest8
      else if k = 2 then tweak_interest 2 SWAP16 interesting_16
      else if k = 3 then tweak_interest 4 SWAP32 interesting_32
      else if k = 4 then tweak_byte ARITH_MAX (-)
      else if k = 5 then tweak_byte ARITH_MAX (+)
      else if k = 6 then tweak_arith 2 SWAP16 (-)
      else if k = 7 then tweak_arith 2 SWAP16 (+)
      else if k = 8 then tweak_arith 4 SWAP32 (-)
      else if k = 9 then tweak_arith 4 SWAP32 (+)
      else if k = 10 then tweak_byte 255 (XOR)
      else if k = 11 \<or> k = 12 then tweak_delete
      else if k = 13 then tweak_clone
      else if k = 14 then tweak_copy
      else if k = 15 then tweak_extra_over
      else if k = 16 then tweak_extra_insert
      else if k = 17 then tweak_region_replace
      else if k = 18 then tweak_region_add (@)
      else if k = 19 then tweak_region_add (\<lambda>src old. old @ src)
      else if k = 20 then tweak_double
      else Some)"

primrec tweaks :: "nat \<Rightarrow> work \<Rightarrow> work option" where
  "tweaks 0 w = Some w"
| "tweaks (Suc n) w = do {
     let (buf, temp_len, s) = w;
     (k, s) \<leftarrow> URs (15 + 2 + (if region_level_mutation s then 4 else 0)) s;
     w \<leftarrow> tweak k (buf, temp_len, s);
     tweaks n w
   }"

section \<open>The havoc stage\<close>

definition stacked :: "work \<Rightarrow> work option" where
  "stacked = (\<lambda>(buf, temp_len, s). do {
     (r, s) \<leftarrow> URs HAVOC_STACK_POW2 s;
     tweaks (2 ^ (1 + r)) (buf, temp_len, set_val (2 ^ (1 + r)) s)
   })"

text \<open>With snapshots the buffer may be limited; its last byte is then a terminator.\<close>

definition limit_buf :: "work \<Rightarrow> work" where
  "limit_buf = (\<lambda>(buf, temp_len, s).
     let n = MAX_BUF_SIZE s in
     if use_snapshot (core (fz s)) \<and> n \<noteq> 0 \<and> temp_len > n
     then ((take n buf)[n - 1 := 0], n, s)
     else (buf, temp_len, s))"

definition restore_buf :: "u8 list \<Rightarrow> u8 list \<Rightarrow> nat \<Rightarrow> (u8 list) option" where
  "restore_buf in_buf buf temp_len =
     (let len = length in_buf in
      putn (if temp_len < len then take len (buf @ replicate (len - length buf) 0) else buf) 0 in_buf)"

text \<open>The number of entries the stage knows of, and the score.\<close>

definition keep_going :: "stages \<times> nat \<times> nat \<Rightarrow> stages \<times> nat \<times> nat" where
  "keep_going = (\<lambda>(s, havoc_queued, perf_score).
     if length (queue (core (fz s))) \<noteq> havoc_queued
     then if perf_score \<le> HAVOC_MAX_MULT * 100
          then (s\<lparr>stage_max := stage_max s * 2\<rparr>, length (queue (core (fz s))), perf_score * 2)
          else (s, length (queue (core (fz s))), perf_score)
     else (s, havoc_queued, perf_score))"

definition havoc_round ::
  "tester \<Rightarrow> u8 list \<Rightarrow> nat \<Rightarrow> u8 list \<times> stages \<times> nat \<times> nat \<Rightarrow> (bool \<times> u8 list \<times> stages \<times> nat \<times> nat) option" where
  "havoc_round run in_buf i = (\<lambda>(buf, s, havoc_queued, perf_score). do {
     w \<leftarrow> stacked (buf, length in_buf, s\<lparr>stage_cur := int i\<rparr>);
     let (buf, temp_len, s) = limit_buf w;
     t \<leftarrow> getn buf 0 temp_len;
     (a, s) \<leftarrow> try_case run t s;
     (if a then Some (True, buf, s, havoc_queued, perf_score)
      else do {
        buf \<leftarrow> restore_buf in_buf buf temp_len;
        Some (False, buf, keep_going (s, havoc_queued, perf_score))
      })
   })"

definition havoc_cycles :: "bool \<Rightarrow> nat \<Rightarrow> nat \<Rightarrow> nat \<Rightarrow> nat" where
  "havoc_cycles doing_det splice_cycle perf_score hdiv =
     max HAVOC_MIN ((if splice_cycle \<noteq> 0 then SPLICE_HAVOC else if doing_det then HAVOC_CYCLES_INIT else HAVOC_CYCLES)
       * perf_score div hdiv div 100)"

definition havoc_start :: "bool \<Rightarrow> nat \<Rightarrow> nat \<Rightarrow> stages \<Rightarrow> stages" where
  "havoc_start doing_det splice_cycle perf_score s =
     upd_fz (\<lambda>f. f\<lparr>stage_cur_byte := -1, stage_short := (if splice_cycle = 0 then ''havoc'' else ''splice'')\<rparr>)
       (s\<lparr>stage_max := int (havoc_cycles doing_det splice_cycle perf_score (havoc_div s))\<rparr>)"

definition MAX_STAGE_CUR :: "stages \<Rightarrow> nat" where
  "MAX_STAGE_CUR s =
     (if use_snapshot (core (fz s)) \<and> can_snapshot_flag (fz s)
      then unat (of_nat (stage_max_factor s) * of_int (stage_max s) :: u32) else nat (stage_max s))"

definition havoc_stage ::
  "tester \<Rightarrow> bool \<Rightarrow> nat \<Rightarrow> nat \<Rightarrow> u8 list \<Rightarrow> u8 list \<times> stages \<Rightarrow> (bool \<times> u8 list \<times> stages \<times> nat) option" where
  "havoc_stage run doing_det splice_cycle perf_score in_buf = (\<lambda>(buf, s).
     if havoc_div s = 0 then None
     else let s0 = havoc_start doing_det splice_cycle perf_score s in do {
       (a, buf, s1, _, perf_score) \<leftarrow> until_abandoned (havoc_round run in_buf) [0..<MAX_STAGE_CUR s0]
          (buf, s0, length (queue (core (fz s))), perf_score);
       Some (a, buf, if a then s1 else end_stage (if splice_cycle = 0 then STAGE_HAVOC else STAGE_SPLICE) (hits s) s1, perf_score)
     })"

section \<open>Weakest preconditions\<close>

text \<open>A computation is defined and its result has a property.\<close>

definition ok :: "'a option \<Rightarrow> ('a \<Rightarrow> bool) \<Rightarrow> bool" where
  "ok m Q \<longleftrightarrow> (case m of None \<Rightarrow> False | Some x \<Rightarrow> Q x)"

lemma ok_simps [simp]:
  "ok (Some x) Q = Q x" "ok (m \<bind> f) Q = ok m (\<lambda>x. ok (f x) Q)" "ok (map_option g m) Q = ok m (\<lambda>x. Q (g x))"
  by (auto simp: ok_def split: option.splits Option.bind_splits)

lemma ok_if: "(c \<Longrightarrow> ok m Q) \<Longrightarrow> (\<not> c \<Longrightarrow> ok m' Q) \<Longrightarrow> ok (if c then m else m') Q"
  by simp

lemma ok_conseq: "ok m Q \<Longrightarrow> (\<And>x. m = Some x \<Longrightarrow> Q x \<Longrightarrow> R x) \<Longrightarrow> ok m R"
  by (cases m) (auto simp: ok_def)

lemma ok_ex: "ok m Q \<longleftrightarrow> (\<exists>x. m = Some x \<and> Q x)"
  by (cases m) (auto simp: ok_def)

text \<open>
  The state without the random numbers and the descriptions of the current test case; while only these
  change, it is the same as before.
\<close>

definition rest :: "stages \<Rightarrow> stages" where
  "rest s = upd_fz (\<lambda>f. f\<lparr>core := (core f)\<lparr>rnd_calls := 0\<rparr>, stage_cur_val := 0\<rparr>) (s\<lparr>stage_cur := 0\<rparr>)"

lemma rest_draw [simp]: "rest (upd_fz (upd_core (\<lambda>_. (core (fz s))\<lparr>rnd_calls := k\<rparr>)) s) = rest s"
  by (simp add: rest_def upd_fz_def upd_core_def)

lemma rest_set [simp]: "rest (set_val v s) = rest s" "rest (s\<lparr>stage_cur := i\<rparr>) = rest s"
  by (simp_all add: rest_def set_val_def upd_fz_def)

lemma rest_same:
  assumes "rest s' = rest s"
  shows "extras s' = extras s" "a_extras s' = a_extras s" "run_over10m s' = run_over10m s"
    "queue (core (fz s')) = queue (core (fz s))" "files (core (fz s')) = files (core (fz s))"
    "queue_cycle (core (fz s')) = queue_cycle (core (fz s))" "total_execs (fz s') = total_execs (fz s)"
    "region_level_mutation s' = region_level_mutation s" "stage_max s' = stage_max s" "havoc_div s' = havoc_div s"
proof -
  have "extras (rest s') = extras (rest s)" "a_extras (rest s') = a_extras (rest s)" "run_over10m (rest s') = run_over10m (rest s)"
    "queue (core (fz (rest s'))) = queue (core (fz (rest s)))" "files (core (fz (rest s'))) = files (core (fz (rest s)))"
    "queue_cycle (core (fz (rest s'))) = queue_cycle (core (fz (rest s)))" "total_execs (fz (rest s')) = total_execs (fz (rest s))"
    "region_level_mutation (rest s') = region_level_mutation (rest s)" "stage_max (rest s') = stage_max (rest s)"
    "havoc_div (rest s') = havoc_div (rest s)"
    using assms by simp_all
  then show "extras s' = extras s" "a_extras s' = a_extras s" "run_over10m s' = run_over10m s"
    "queue (core (fz s')) = queue (core (fz s))" "files (core (fz s')) = files (core (fz s))"
    "queue_cycle (core (fz s')) = queue_cycle (core (fz s))" "total_execs (fz s') = total_execs (fz s)"
    "region_level_mutation s' = region_level_mutation s" "stage_max s' = stage_max s" "havoc_div s' = havoc_div s"
    by (simp_all add: rest_def upd_fz_def upd_core_def)
qed

definition region_wf :: "region_t \<Rightarrow> bool" where
  "region_wf r \<longleftrightarrow> 0 \<le> start_byte r \<and> start_byte r \<le> end_byte r \<and> end_byte r < 2 ^ 31"

text \<open>What the tweaks rely on: seeds that can be read, a cycle that has begun, a divisor that is not 0.\<close>

definition seeds_wf :: "afl \<Rightarrow> bool" where
  "seeds_wf c \<longleftrightarrow> queue c \<noteq> [] \<and> (\<forall>q \<in> set (queue c). files c (fname q) \<noteq> None \<and> (\<forall>r \<in> set (regions q). region_wf r))"

definition sane :: "stages \<Rightarrow> bool" where
  "sane s \<longleftrightarrow> seeds_wf (core (fz s)) \<and> (run_over10m s \<longrightarrow> queue_cycle (core (fz s)) \<noteq> 0) \<and> havoc_div s \<noteq> 0"

lemma rest_sane:
  assumes "rest s' = rest s" "sane s"
  shows "sane s'"
  using assms(2) by (simp add: sane_def seeds_wf_def rest_same [OF assms(1)])

lemma ok_URs: "0 < limit \<Longrightarrow> (\<And>r s'. r < limit \<Longrightarrow> rest s' = rest s \<Longrightarrow> Q (r, s')) \<Longrightarrow> ok (URs limit s) Q"
  by (simp add: URs_def UR_def)

lemma ok_rdn: "pos + n \<le> length buf \<Longrightarrow> (\<And>w. Q w) \<Longrightarrow> ok (rdn n buf pos) Q"
  by simp

lemma ok_wrn: "pos + n \<le> length buf \<Longrightarrow> (\<And>b. length b = length buf \<Longrightarrow> Q b) \<Longrightarrow> ok (wrn n buf pos w) Q"
  by (simp add: wrn_def)

lemma ok_getn: "pos + n \<le> length buf \<Longrightarrow> (\<And>d. length d = n \<Longrightarrow> Q d) \<Longrightarrow> ok (getn buf pos n) Q"
  by (simp add: getn_def)

lemma ok_putn: "pos + length d \<le> length buf \<Longrightarrow> (\<And>b. length b = length buf \<Longrightarrow> Q b) \<Longrightarrow> ok (putn buf pos d) Q"
  by (simp add: putn_def)

lemma ok_FLIP_BIT: "b div 8 < length buf \<Longrightarrow> (\<And>b. length b = length buf \<Longrightarrow> Q b) \<Longrightarrow> ok (FLIP_BIT buf b) Q"
  by (simp add: FLIP_BIT_def)

lemma ok_block_len:
  assumes "0 < limit" "sane s" "\<And>r s'. 0 < r \<Longrightarrow> r \<le> limit \<Longrightarrow> r \<le> HAVOC_BLK_XL \<Longrightarrow> rest s' = rest s \<Longrightarrow> Q (r, s')"
  shows "ok (block_len limit s) Q"
proof -
  have "run_over10m s \<longrightarrow> queue_cycle (core (fz s)) \<noteq> 0" using assms(2) by (simp add: sane_def)
  from choose_block_len_range [OF assms(1) this] assms(3) show ?thesis by (auto simp: block_len_def with_core_def)
qed

lemma length_read_region [simp]: "length (read_region content start n) = n"
  by (simp add: read_region_def bytes_of_def Let_def)

lemma ok_source_region:
  assumes "sane s" "\<And>s'. rest s' = rest s \<Longrightarrow> Q (None, s')"
    and "\<And>d s'. 0 < length d \<Longrightarrow> length d \<le> MAX_FILE \<Longrightarrow> rest s' = rest s \<Longrightarrow> Q (Some d, s')"
  shows "ok (with_core choose_source_region s) Q"
proof -
  let ?c = "core (fz s)"
  have q: "queue ?c \<noteq> []" using assms(1) by (simp add: sane_def seeds_wf_def)
  define e where "e = queue ?c ! (rnd ?c (rnd_calls ?c) mod length (queue ?c))"
  have "e \<in> set (queue ?c)" using q by (simp add: e_def)
  then obtain content where c: "files ?c (fname e) = Some content" and rs: "\<forall>r \<in> set (regions e). region_wf r"
    using assms(1) by (auto simp: sane_def seeds_wf_def)
  show ?thesis
  proof (cases "regions e = []")
    case True
    then show ?thesis using q assms(2) [OF rest_draw] by (simp add: with_core_def choose_source_region_def UR_def e_def [symmetric])
  next
    case False
    define r where "r = regions e ! (rnd ?c (Suc (rnd_calls ?c)) mod length (regions e))"
    have r: "region_wf r" using rs False by (simp add: r_def)
    let ?n = "of_int (end_byte r) - of_int (start_byte r) + 1 :: u32"
    have "?n = of_int (end_byte r - start_byte r + 1)" by simp
    then have "unat ?n = nat ((end_byte r - start_byte r + 1) mod 2 ^ 32)" by (simp only: unat_eq_nat_uint uint_word_of_int) simp
    also have "(end_byte r - start_byte r + 1) mod 2 ^ 32 = end_byte r - start_byte r + 1"
      using r by (intro mod_pos_pos_trivial) (simp_all add: region_wf_def)
    finally have n: "0 < unat ?n" using r by (simp add: region_wf_def)
    then have "?n \<noteq> 0" by auto
    moreover have "\<not> start_byte r < 0" using r by (simp add: region_wf_def)
    ultimately show ?thesis
      using q c False n assms(2) [OF rest_draw] assms(3) [OF _ _ rest_draw, of "read_region content (nat (start_byte r)) (unat ?n)"]
      by (simp add: with_core_def choose_source_region_def UR_def e_def [symmetric] r_def [symmetric] Let_def)
  qed
qed

lemma splice_in_ok:
  "pos \<le> temp_len \<Longrightarrow> temp_len \<le> length buf \<Longrightarrow> (\<And>b. length b = temp_len + length mid \<Longrightarrow> Q b) \<Longrightarrow> ok (splice_in buf temp_len pos mid) Q"
  by (simp add: splice_in_def getn_def)

lemmas ok_rules = ok_if ok_URs ok_rdn ok_wrn ok_getn ok_putn ok_FLIP_BIT ok_block_len splice_in_ok

section \<open>Every tweak is safe\<close>

text \<open>
  A tweak of a buffer with at least one and at most \<open>MAX_FILE\<close> bytes in use is defined, its result is such a
  buffer again, and but for random numbers the state is the old one.
\<close>

definition good_buf :: "u8 list \<Rightarrow> nat \<Rightarrow> bool" where
  "good_buf buf n \<longleftrightarrow> 0 < n \<and> n \<le> MAX_FILE \<and> n \<le> length buf"

definition safe :: "(work \<Rightarrow> work option) \<Rightarrow> bool" where
  "safe f \<longleftrightarrow> (\<forall>buf n s. good_buf buf n \<longrightarrow> sane s \<longrightarrow>
     ok (f (buf, n, s)) (\<lambda>(buf', n', s'). good_buf buf' n' \<and> rest s' = rest s))"

lemma safeI: "(\<And>buf n s. good_buf buf n \<Longrightarrow> sane s \<Longrightarrow> ok (f (buf, n, s)) (\<lambda>(buf', n', s'). good_buf buf' n' \<and> rest s' = rest s)) \<Longrightarrow> safe f"
  by (auto simp: safe_def)

lemma safe_small: "safe tweak_bit" "safe tweak_interest8" "0 < m \<Longrightarrow> safe (tweak_byte m f)"
proof -
  show "safe tweak_bit" "safe tweak_interest8"
    by (rule safeI, auto simp: tweak_bit_def tweak_interest8_def good_buf_def interesting_8_def intro!: ok_rules)+
  show "0 < m \<Longrightarrow> safe (tweak_byte m f)"
    by (rule safeI, auto simp: tweak_byte_def good_buf_def simp del: rdn_Some intro!: ok_rules)
qed

lemma safe_words:
  assumes "0 < m"
  shows "table \<noteq> [] \<Longrightarrow> safe (tweak_interest m swap table)" "safe (tweak_arith m swap f)"
proof -
  show "table \<noteq> [] \<Longrightarrow> safe (tweak_interest m swap table)"
    using assms by (intro safeI) (auto simp: tweak_interest_def good_buf_def intro!: ok_rules; linarith)
  show "safe (tweak_arith m swap f)"
    using assms by (intro safeI) (auto simp: tweak_arith_def good_buf_def ARITH_MAX_def simp del: rdn_Some intro!: ok_rules; linarith)
qed

lemma safe_delete: "safe tweak_delete"
  by (rule safeI) (auto simp: tweak_delete_def good_buf_def intro!: ok_rules; linarith)

lemma ok_fill_byte:
  "0 < n \<Longrightarrow> n \<le> length buf \<Longrightarrow> (\<And>b s'. rest s' = rest s \<Longrightarrow> Q (b, s')) \<Longrightarrow> ok (fill_byte buf n s) Q"
  by (auto simp: fill_byte_def simp del: rdn_Some intro!: ok_rules)

lemma safe_clone: "safe tweak_clone"
  by (rule safeI) (auto simp: tweak_clone_def good_buf_def HAVOC_BLK_XL_def intro!: ok_rules ok_fill_byte; (linarith | erule rest_sane, assumption))

lemma safe_copy: "safe tweak_copy"
  by (rule safeI) (auto simp: tweak_copy_def good_buf_def intro!: ok_rules ok_fill_byte; (linarith | erule rest_sane, assumption))

lemma ok_any_extra:
  assumes "extras s \<noteq> [] \<or> a_extras s \<noteq> []" "\<And>d s'. rest s' = rest s \<Longrightarrow> Q (d, s')"
  shows "ok (any_extra s) Q"
proof -
  have pick: "ok (URs (length es) s1) (\<lambda>x. Q (ex_data (es ! fst x), snd x))" if "es \<noteq> []" "rest s1 = rest s" for es s1
    using that assms(2) by (intro ok_URs) auto
  consider "extras s = []" | "extras s \<noteq> []" "a_extras s = []" | "extras s \<noteq> []" "a_extras s \<noteq> []" by blast
  then show ?thesis
  proof cases
    case 1
    then show ?thesis using pick [of "a_extras s" s] assms(1) by (simp add: any_extra_def split_beta Let_def)
  next
    case 2
    then show ?thesis using pick [of "extras s" s] by (simp add: any_extra_def split_beta Let_def)
  next
    case 3
    have "ok (URs 2 s) (\<lambda>x. ok (URs (length (if fst x \<noteq> 0 then a_extras (snd x) else extras (snd x))) (snd x))
        (\<lambda>y. Q (ex_data ((if fst x \<noteq> 0 then a_extras (snd x) else extras (snd x)) ! fst y), snd y)))"
    proof (rule ok_URs)
      fix r s1 assume "rest s1 = rest s"
      with rest_same(1,2) [OF this] 3 pick [of "a_extras s1" s1] pick [of "extras s1" s1]
      show "ok (URs (length (if fst (r, s1) \<noteq> 0 then a_extras (snd (r, s1)) else extras (snd (r, s1)))) (snd (r, s1)))
          (\<lambda>y. Q (ex_data ((if fst (r, s1) \<noteq> 0 then a_extras (snd (r, s1)) else extras (snd (r, s1))) ! fst y), snd y))" by simp
    qed simp
    then show ?thesis using 3 by (auto simp: any_extra_def split_beta Let_def elim!: ok_conseq split: if_splits)
  qed
qed

lemma safe_extras: "safe tweak_extra_over" "safe tweak_extra_insert"
proof -
  show "safe tweak_extra_over"
    by (rule safeI) (auto simp: tweak_extra_over_def good_buf_def intro!: ok_rules ok_any_extra; linarith)
  show "safe tweak_extra_insert"
  proof (rule safeI)
    fix buf n s assume g: "good_buf buf n"
    have "ok (tweak_extra_insert (buf, n, s)) (\<lambda>(buf', n', s'). good_buf buf' n' \<and> rest s' = rest s)" if e: "extras s \<noteq> [] \<or> a_extras s \<noteq> []"
    proof -
      have ex: "extras s1 \<noteq> [] \<or> a_extras s1 \<noteq> []" if "rest s1 = rest s" for s1 using e rest_same(1,2) [OF that] by simp
      show ?thesis using e g by (auto simp: tweak_extra_insert_def good_buf_def ex intro!: ok_rules ok_any_extra [OF ex])
    qed
    then show "ok (tweak_extra_insert (buf, n, s)) (\<lambda>(buf', n', s'). good_buf buf' n' \<and> rest s' = rest s)"
      using g by (cases "extras s = [] \<and> a_extras s = []") (simp_all add: tweak_extra_insert_def)
  qed
qed

lemma safe_regions: "safe tweak_region_replace" "safe tweak_double"
  "(\<And>a b. length (place a b) = length a + length b) \<Longrightarrow> safe (tweak_region_add place)"
proof -
  show "safe tweak_region_replace"
    by (rule safeI) (auto simp: tweak_region_replace_def good_buf_def intro!: ok_source_region)
  show "safe tweak_double"
    by (rule safeI) (auto simp: tweak_double_def good_buf_def intro!: ok_rules)
  show "safe (tweak_region_add place)" if "\<And>a b. length (place a b) = length a + length b"
    by (rule safeI) (auto simp: tweak_region_add_def good_buf_def that intro!: ok_source_region ok_rules)
qed

lemma safe_tweak: "safe (tweak k)"
proof -
  have "safe Some" by (simp add: safe_def)
  then show ?thesis unfolding tweak_def
    by (simp add: safe_small safe_words safe_delete safe_clone safe_copy safe_extras safe_regions ARITH_MAX_def
        interesting_8_def interesting_16_def interesting_32_def)
qed

lemma safe_tweaks: "safe (tweaks n)"
proof (induction n)
  case (Suc n)
  show ?case
  proof (rule safeI)
    fix buf k s assume g: "good_buf buf k" and s: "sane s"
    have "ok (tweak j (buf, k, s1)) (\<lambda>w. ok (tweaks n w) (\<lambda>(buf', n', s'). good_buf buf' n' \<and> rest s' = rest s))" if "rest s1 = rest s" for j s1
    proof -
      have "ok (tweak j (buf, k, s1)) (\<lambda>(buf', n', s'). good_buf buf' n' \<and> rest s' = rest s1)"
        using safe_tweak g rest_sane [OF that s] by (simp add: safe_def)
      then show ?thesis
      proof (rule ok_conseq)
        fix w assume "case w of (buf', n', s') \<Rightarrow> good_buf buf' n' \<and> rest s' = rest s1"
        then obtain buf' n' s' where w: "w = (buf', n', s')" "good_buf buf' n'" "rest s' = rest s" using \<open>rest s1 = rest s\<close> by auto
        from Suc.IH w(2) rest_sane [OF w(3) s] have "ok (tweaks n w) (\<lambda>(buf'', n'', s''). good_buf buf'' n'' \<and> rest s'' = rest s')"
          by (simp add: safe_def w(1))
        then show "ok (tweaks n w) (\<lambda>(buf', n', s'). good_buf buf' n' \<and> rest s' = rest s)" using w(3) by simp
      qed
    qed
    then show "ok (tweaks (Suc n) (buf, k, s)) (\<lambda>(buf', n', s'). good_buf buf' n' \<and> rest s' = rest s)"
      by (auto intro!: ok_URs)
  qed
qed (simp add: safe_def)

section \<open>Rounds of the stage\<close>

text \<open>What the tester must keep.\<close>

definition keeps_seeds :: "tester \<Rightarrow> bool" where
  "keeps_seeds run \<longleftrightarrow> (\<forall>t f a f'. run t f = Some (a, f') \<longrightarrow> seeds_wf (core f) \<longrightarrow>
     seeds_wf (core f') \<and> queue_cycle (core f') = queue_cycle (core f))"

lemma stacked_ok:
  assumes g: "good_buf buf n" and s: "sane s"
  shows "ok (stacked (buf, n, s)) (\<lambda>(buf', n', s'). good_buf buf' n' \<and> rest s' = rest s)"
proof -
  have "ok (tweaks k (buf, n, set_val v s1)) (\<lambda>(buf', n', s'). good_buf buf' n' \<and> rest s' = rest s)" if "rest s1 = rest s" for k v s1
  proof -
    have r: "rest (set_val v s1) = rest s" using that by simp
    from safe_tweaks g rest_sane [OF r s] have "ok (tweaks k (buf, n, set_val v s1)) (\<lambda>(buf', n', s'). good_buf buf' n' \<and> rest s' = rest (set_val v s1))"
      unfolding safe_def by blast
    then show ?thesis using r by simp
  qed
  then show ?thesis by (auto simp: stacked_def HAVOC_STACK_POW2_def intro!: ok_URs)
qed

lemma limit_buf_ok:
  assumes "good_buf buf n"
  shows "\<exists>buf' n'. limit_buf (buf, n, s) = (buf', n', s) \<and> good_buf buf' n'"
  using assms by (auto simp: limit_buf_def good_buf_def Let_def)

lemma restore_buf_ok:
  assumes "good_buf buf n"
  shows "ok (restore_buf in_buf buf n) (\<lambda>buf'. length in_buf \<le> length buf' \<and> take (length in_buf) buf' = in_buf)"
  using assms by (auto simp: restore_buf_def good_buf_def Let_def putn_def)

lemma keep_going_ok: "\<exists>m k p. keep_going (s, h, p0) = (s\<lparr>stage_max := m\<rparr>, k, p)"
proof -
  have "s = s\<lparr>stage_max := stage_max s\<rparr>" by simp
  then have "\<exists>m. s = s\<lparr>stage_max := m\<rparr>" ..
  then show ?thesis unfolding keep_going_def by (simp add: split_beta) blast
qed

lemma sane_upd [simp]: "sane (s\<lparr>stage_max := m\<rparr>) = sane s" "sane (s\<lparr>stage_cur := i\<rparr>) = sane s"
  by (simp_all add: sane_def)

lemma try_case_sane: "keeps_seeds run \<Longrightarrow> sane s \<Longrightarrow> try_case run t s = Some (a, s') \<Longrightarrow> sane s'"
  by (auto simp: try_case_Some keeps_seeds_def sane_def)

text \<open>
  A round returns if the tester answers the inputs of at most \<open>MAX_FILE\<close> bytes, restores the buffer,
  and runs the target once.
\<close>

definition sizes_answered :: "tester \<Rightarrow> bool" where
  "sizes_answered run \<longleftrightarrow> (\<forall>t. 0 < length t \<and> length t \<le> MAX_FILE \<longrightarrow> answers run t)"

definition counts :: "tester \<Rightarrow> bool" where
  "counts run \<longleftrightarrow> (\<forall>t f a f'. run t f = Some (a, f') \<longrightarrow> total_execs f' = total_execs f + 1)"

text \<open>A further invariant \<open>P\<close> that drawing random numbers and the tester keep.\<close>

definition steady :: "(afl \<Rightarrow> bool) \<Rightarrow> tester \<Rightarrow> bool" where
  "steady P run \<longleftrightarrow> (\<forall>c k. P (c\<lparr>rnd_calls := k\<rparr>) = P c) \<and> (\<forall>t f a f'. run t f = Some (a, f') \<longrightarrow> P (core f) \<longrightarrow> P (core f'))"

lemma rest_steady:
  assumes "rest s' = rest s" "steady P run"
  shows "P (core (fz s')) = P (core (fz s))"
proof -
  have "(core (fz s'))\<lparr>rnd_calls := 0\<rparr> = (core (fz s))\<lparr>rnd_calls := 0\<rparr>"
    using arg_cong [OF assms(1), of "\<lambda>s. core (fz s)"] by (simp add: rest_def upd_fz_def)
  then show ?thesis using assms(2) unfolding steady_def by metis
qed

definition round_inv :: "(afl \<Rightarrow> bool) \<Rightarrow> u8 list \<Rightarrow> u8 list \<times> stages \<times> nat \<times> nat \<Rightarrow> bool" where
  "round_inv P in_buf = (\<lambda>(buf, s, h, p).
     length in_buf \<le> length buf \<and> take (length in_buf) buf = in_buf \<and> sane s \<and> P (core (fz s)))"

definition execs :: "u8 list \<times> stages \<times> nat \<times> nat \<Rightarrow> u64" where
  "execs = (\<lambda>(buf, s, h, p). total_execs (fz s))"

lemma havoc_round_ok:
  assumes len: "0 < length in_buf" "length in_buf \<le> MAX_FILE" and inv: "round_inv P in_buf x" and run: "keeps_seeds run" "sizes_answered run" "steady P run"
  shows "ok (havoc_round run in_buf i x) (\<lambda>(a, x'). \<not> a \<longrightarrow> round_inv P in_buf x' \<and> (counts run \<longrightarrow> execs x' = execs x + 1))"
proof -
  obtain buf s h p where x: "x = (buf, s, h, p)" by (cases x) auto
  have "good_buf buf (length in_buf)" "sane (s\<lparr>stage_cur := int i\<rparr>)" using len inv x by (auto simp: round_inv_def good_buf_def)
  from stacked_ok [OF this] show ?thesis unfolding x havoc_round_def prod.case ok_simps
  proof (rule ok_conseq)
    fix w assume "case w of (buf', n', s') \<Rightarrow> good_buf buf' n' \<and> rest s' = rest (s\<lparr>stage_cur := int i\<rparr>)"
    then obtain b1 n1 s1 where w: "w = (b1, n1, s1)" "good_buf b1 n1" "rest s1 = rest s" by auto
    obtain b2 n2 where l: "limit_buf w = (b2, n2, s1)" "good_buf b2 n2" using limit_buf_ok [OF w(2)] w(1) by blast
    have s1: "sane s1" using rest_sane [OF w(3)] inv x by (simp add: round_inv_def)
    have g: "getn b2 0 n2 = Some (take n2 b2)" using l(2) by (simp add: getn_def good_buf_def)
    have "0 < length (take n2 b2)" "length (take n2 b2) \<le> MAX_FILE" using l(2) by (auto simp: good_buf_def)
    then have "answers run (take n2 b2)" using run(2) unfolding sizes_answered_def by blast
    then obtain a s2 where t: "try_case run (take n2 b2) s1 = Some (a, s2)" using try_case_None by fast
    have e: "total_execs (fz s2) = total_execs (fz s) + 1" if "counts run"
      using that t rest_same(7) [OF w(3)] by (auto simp: counts_def try_case_Some)
    have s2: "sane s2" by (rule try_case_sane [OF run(1) s1 t])
    have P: "P (core (fz s2))"
      using t run(3) inv x rest_steady [OF w(3) run(3)] by (auto simp: round_inv_def try_case_Some steady_def)
    obtain b3 where b3: "restore_buf in_buf b2 n2 = Some b3" "length in_buf \<le> length b3" "take (length in_buf) b3 = in_buf"
      using restore_buf_ok [OF l(2), of in_buf] by (auto simp: ok_ex)
    obtain m k q where kg: "keep_going (s2, h, p) = (s2\<lparr>stage_max := m\<rparr>, k, q)" using keep_going_ok by blast
    show "ok (let (buf, temp_len, s) = limit_buf w in
        getn buf 0 temp_len \<bind> (\<lambda>t. try_case run t s \<bind> (\<lambda>(a, s). if a then Some (True, buf, s, h, p)
          else restore_buf in_buf buf temp_len \<bind> (\<lambda>buf. Some (False, buf, keep_going (s, h, p))))))
        (\<lambda>(a, x'). \<not> a \<longrightarrow> round_inv P in_buf x' \<and> (counts run \<longrightarrow> execs x' = execs (buf, s, h, p) + 1))"
      using l g t b3 kg s2 e P by (simp add: round_inv_def execs_def)
  qed
qed

lemma havoc_rounds_ok:
  assumes "0 < length in_buf" "length in_buf \<le> MAX_FILE" "keeps_seeds run" "sizes_answered run" "steady P run"
  shows "round_inv P in_buf x \<Longrightarrow> ok (until_abandoned (havoc_round run in_buf) is x)
    (\<lambda>(a, x'). \<not> a \<longrightarrow> round_inv P in_buf x' \<and> (counts run \<longrightarrow> execs x' = execs x + of_nat (length is)))"
proof (induction "is" arbitrary: x)
  case (Cons i "is")
  from havoc_round_ok [OF assms(1,2) Cons.prems assms(3-5), of i] obtain a x1 where
    "havoc_round run in_buf i x = Some (a, x1)" "\<not> a \<longrightarrow> round_inv P in_buf x1 \<and> (counts run \<longrightarrow> execs x1 = execs x + 1)" by (auto simp: ok_ex)
  then show ?case
  proof (cases a)
    case False
    then have 1: "havoc_round run in_buf i x = Some (False, x1)" "round_inv P in_buf x1" "counts run \<longrightarrow> execs x1 = execs x + 1"
      using \<open>havoc_round run in_buf i x = Some (a, x1)\<close> \<open>\<not> a \<longrightarrow> _\<close> by simp_all
    from Cons.IH [OF 1(2)] have "ok (until_abandoned (havoc_round run in_buf) is x1)
      (\<lambda>(a, x'). \<not> a \<longrightarrow> round_inv P in_buf x' \<and> (counts run \<longrightarrow> execs x' = execs x + of_nat (length (i # is))))"
      by (rule ok_conseq) (use 1(3) in \<open>simp add: split_beta\<close>)
    then show ?thesis using 1(1) by simp
  qed simp
qed simp

lemma havoc_stage_ok:
  assumes "0 < length in_buf" "length in_buf \<le> MAX_FILE" "keeps_seeds run" "sizes_answered run" "steady P run"
    and "length in_buf \<le> length buf" "take (length in_buf) buf = in_buf" "sane s" "P (core (fz s))"
  shows "ok (havoc_stage run det sc p in_buf (buf, s)) (\<lambda>(a, buf', s', p'). \<not> a \<longrightarrow>
    length in_buf \<le> length buf' \<and> take (length in_buf) buf' = in_buf \<and> sane s' \<and> P (core (fz s')) \<and>
    (counts run \<longrightarrow> total_execs (fz s') = total_execs (fz s) + of_nat (MAX_STAGE_CUR (havoc_start det sc p s))))"
proof -
  let ?s0 = "havoc_start det sc p s"
  have s0: "sane ?s0" "total_execs (fz ?s0) = total_execs (fz s)" using assms(8) by (simp_all add: sane_def havoc_start_def upd_fz_def)
  then have "round_inv P in_buf (buf, ?s0, length (queue (core (fz s))), p)" using assms(6,7,9) by (simp add: round_inv_def havoc_start_def upd_fz_def)
  from havoc_rounds_ok [OF assms(1-5) this, of "[0..<MAX_STAGE_CUR ?s0]"] obtain a buf' s' h' p' where
    "until_abandoned (havoc_round run in_buf) [0..<MAX_STAGE_CUR ?s0] (buf, ?s0, length (queue (core (fz s))), p) = Some (a, buf', s', h', p')"
    "\<not> a \<longrightarrow> round_inv P in_buf (buf', s', h', p') \<and> (counts run \<longrightarrow> total_execs (fz s') = total_execs (fz s) + of_nat (MAX_STAGE_CUR ?s0))"
    using s0(2) by (auto simp: ok_ex execs_def)
  then show ?thesis using assms(8) by (simp add: havoc_stage_def Let_def round_inv_def sane_def end_stage_def)
qed

end
