(* ===== verification/Afl_Fuzz_One.thy ===== *)
theory Afl_Fuzz_One
  imports Afl_Havoc
begin

text \<open>
  Splicing, the sequence of the random stages, and \<open>fuzz_one\<close> as a whole (\<open>afl-fuzz.c\<close>): an entry is
  skipped or its part M2 is mutated by the deterministic stages, by the havoc stage and, spliced with other
  entries, by more havoc stages, with \<open>common_fuzz_stuff\<close> for every test case. The resets of the protocol
  adapters and of counters for log files at the start of \<open>fuzz_one\<close> are left out. The lemmas show where the
  seek along the queue ends, what a spliced input is, and that the random stages return.
\<close>

section \<open>Splicing\<close>

text \<open>A draw is repeated until it is not the entry itself; this need not end.\<close>

partial_function (option) other_entry :: "nat \<Rightarrow> stages \<Rightarrow> (nat \<times> stages) option" where [code]:
  "other_entry cur s = do {
     (tid, s) \<leftarrow> URs (length (queue (core (fz s)))) s;
     (if tid = cur then other_entry cur s else Some (tid, s))
   }"

text \<open>Seeking along \<open>next_100\<close> and \<open>next\<close>; the length of the queue is the null pointer at its end.\<close>

function seek :: "queue_entry list \<Rightarrow> nat \<Rightarrow> nat \<Rightarrow> nat option" where
  "seek q target tid =
     (if tid \<ge> 100
      then if target < length q
           then case next_100 (q ! target) of None \<Rightarrow> None | Some target \<Rightarrow> seek q target (tid - 100)
           else None
      else if target + tid \<le> length q then Some (target + tid) else None)"
  by pat_completeness auto
termination by (relation "measure (\<lambda>(q, target, tid). tid)") auto

declare seek.simps [simp del]

definition long_enough :: "queue_entry list \<Rightarrow> nat \<Rightarrow> nat \<Rightarrow> nat" where
  "long_enough q cur target =
     target + length (takeWhile (\<lambda>j. unat (len (q ! j)) < 2 \<or> j = cur) [target..<length q])"

text \<open>Another input is found, spliced at a random place between the first and the last difference.\<close>

definition splice_with :: "u8 list \<Rightarrow> u8 list \<Rightarrow> stages \<Rightarrow> (u8 list option \<times> stages) option" where
  "splice_with in_buf new_buf s = do {
     (f_diff, l_diff) \<leftarrow> locate_diffs in_buf new_buf (min (length in_buf) (length new_buf));
     (if f_diff < 0 \<or> l_diff < 2 \<or> f_diff = l_diff then Some (None, s)
      else do {
        (r, s) \<leftarrow> URs (nat (l_diff - f_diff)) s;
        let split_at = nat f_diff + r;
        head \<leftarrow> getn in_buf 0 split_at;
        new_buf \<leftarrow> putn new_buf 0 head;
        Some (Some new_buf, s)
      })
   }"

definition read_target :: "afl \<Rightarrow> nat \<Rightarrow> (u8 list) option" where
  "read_target c target = do {
     let e = queue c ! target;
     content \<leftarrow> files c (fname e);
     (if unat (len e) \<le> length content then Some (bytes_of (take (unat (len e)) content)) else None)
   }"

text \<open>One attempt, from the buffer \<open>orig_in\<close>; without a result the next attempt follows.\<close>

definition try_splice :: "u8 list \<Rightarrow> stages \<Rightarrow> (u8 list option \<times> stages) option" where
  "try_splice orig_in s = do {
     (tid, s) \<leftarrow> other_entry (unat (current_entry (fz s))) s;
     let q = queue (core (fz s));
     start \<leftarrow> seek q 0 tid;
     let target = long_enough q (queue_cur (core (fz s))) start;
     let s = upd_fz (\<lambda>f. f\<lparr>splicing_with := int (tid + (target - start))\<rparr>) s;
     (if target < length q
      then do { new_buf \<leftarrow> read_target (core (fz s)) target; splice_with orig_in new_buf s }
      else Some (None, s))
   }"

definition may_splice :: "u8 list \<Rightarrow> stages \<Rightarrow> bool" where
  "may_splice orig_in s \<longleftrightarrow> use_splicing s \<and> length (queue (core (fz s))) > 1 \<and> length orig_in > 1"

function retry_splicing :: "u8 list \<Rightarrow> nat \<Rightarrow> stages \<Rightarrow> ((nat \<times> u8 list) option \<times> stages) option" where
  "retry_splicing orig_in splice_cycle s =
     (if may_splice orig_in s \<and> splice_cycle < SPLICE_CYCLES
      then do {
        (new_buf, s) \<leftarrow> try_splice orig_in s;
        (case new_buf of
           None \<Rightarrow> retry_splicing orig_in (Suc splice_cycle) s
         | Some in_buf \<Rightarrow> Some (Some (Suc splice_cycle, in_buf), s))
      }
      else Some (None, s))"
  by pat_completeness auto
termination by (relation "measure (\<lambda>(orig_in, splice_cycle, s). SPLICE_CYCLES - splice_cycle)") auto

declare retry_splicing.simps [simp del]

lemma retry_splicing_cycle:
  "retry_splicing orig_in splice_cycle s = Some (Some (n, in_buf), s') \<Longrightarrow> splice_cycle < n \<and> n \<le> SPLICE_CYCLES"
proof (induction orig_in splice_cycle s rule: retry_splicing.induct)
  case (1 orig_in splice_cycle s)
  show ?case
  proof (cases "may_splice orig_in s \<and> splice_cycle < SPLICE_CYCLES")
    case True
    then obtain r s1 where r: "try_splice orig_in s = Some (r, s1)" using "1.prems" retry_splicing.simps [of orig_in splice_cycle s]
      by (auto split: Option.bind_splits)
    show ?thesis
    proof (cases r)
      case None
      then have "retry_splicing orig_in (Suc splice_cycle) s1 = Some (Some (n, in_buf), s')"
        using "1.prems" True r retry_splicing.simps [of orig_in splice_cycle s] by simp
      then show ?thesis using "1.IH" True r None by fastforce
    next
      case (Some b)
      then show ?thesis using "1.prems" True r retry_splicing.simps [of orig_in splice_cycle s] by simp
    qed
  qed (use "1.prems" retry_splicing.simps [of orig_in splice_cycle s] in auto)
qed

section \<open>The random stages\<close>

text \<open>
  A havoc stage on \<open>in_buf\<close>, then on spliced inputs as long as there are some; with the first score
  \<open>orig_perf\<close> again.
\<close>

function random_stages ::
  "tester \<Rightarrow> bool \<Rightarrow> nat \<Rightarrow> u8 list \<Rightarrow> nat \<Rightarrow> u8 list \<Rightarrow> u8 list \<times> stages \<Rightarrow> (bool \<times> stages) option" where
  "random_stages run doing_det orig_perf orig_in splice_cycle in_buf x =
     (case havoc_stage run doing_det splice_cycle orig_perf in_buf x of
        None \<Rightarrow> None
      | Some (a, buf, s, _) \<Rightarrow>
          if a then Some (True, s)
          else (case retry_splicing orig_in splice_cycle s of
                  None \<Rightarrow> None
                | Some (None, s) \<Rightarrow> Some (False, s)
                | Some (Some (n, new_buf), s) \<Rightarrow> random_stages run doing_det orig_perf orig_in n new_buf (new_buf, s)))"
  by pat_completeness auto
termination
proof (relation "measure (\<lambda>(run, doing_det, orig_perf, orig_in, splice_cycle, in_buf, x). SPLICE_CYCLES - splice_cycle)")
qed (use retry_splicing_cycle in fastforce)+

declare random_stages.simps [simp del]

section \<open>fuzz_one\<close>

definition skips_det :: "stages \<Rightarrow> bool" where
  "skips_det s =
     (let e = queue (core (fz s)) ! queue_cur (core (fz s)) in
      skip_deterministic s \<or> was_fuzzed e \<or> passed_det e \<or>
      (master_max s \<noteq> 0 \<and> exec_cksum e mod master_max s \<noteq> master_id s - 1))"

definition mutate :: "tester \<Rightarrow> u8 list \<Rightarrow> stages \<Rightarrow> (bool \<times> stages) option" where
  "mutate run in_buf s = do {
     (perf_score, f) \<leftarrow> calculate_score (fz s);
     let s = s\<lparr>fz := f\<rparr>;
     let det = \<not> skips_det s;
     (a, buf, s) \<leftarrow> (if det then det_stages run in_buf s else Some (False, in_buf, s));
     (if a then Some (True, s) else random_stages run det perf_score in_buf 0 in_buf (buf, s))
   }"

text \<open>The result is 0 unless the entry was skipped or abandoned.\<close>

definition fuzz_one ::
  "response_codes \<Rightarrow> request_reader \<Rightarrow> (byte list \<Rightarrow> (byte list) option) \<Rightarrow> (region_score_t \<Rightarrow> u32) \<Rightarrow> stages \<Rightarrow> (bool \<times> stages) option" where
  "fuzz_one codes requests post_handler region_favor s = do {
     let s = upd_fz (\<lambda>f. f\<lparr>backstep_count := 0, serious_err_count := 0\<rparr>) s;
     (skipped, s) \<leftarrow> with_core skip_entry s;
     (if skipped then Some (True, s)
      else do {
        (m2, s) \<leftarrow> with_core (select_M2 region_favor) (upd_fz (\<lambda>f. f\<lparr>subseq_tmouts := 0\<rparr>) s);
        (case m2 of
           Skip \<Rightarrow> Some (True, s)
         | M2 a n \<Rightarrow> do {
             (in_buf, m1, m3, f) \<leftarrow> prepare_M2 a n (fz s);
             (bailed_out, s) \<leftarrow> mutate (\<lambda>t. common_fuzz_stuff codes requests post_handler m1 m3 (chars_of t)) (bytes_of in_buf) (s\<lparr>fz := f\<rparr>);
             f \<leftarrow> abandon_entry (fz s);
             Some (bailed_out, s\<lparr>fz := f\<rparr>)
           })
      })
   }"

section \<open>Seeking\<close>

text \<open>
  The pointers that \<open>link_entry\<close> sets: the first leads 99 entries ahead, the others 100.
\<close>

definition links :: "afl \<Rightarrow> bool" where
  "links c \<longleftrightarrow> q_prev100 c = 100 * (length (queue c) div 100) - 1 \<and>
     (\<forall>k. 100 * Suc k \<le> length (queue c) \<longrightarrow> next_100 (queue c ! (100 * k - 1)) = Some (100 * k + 99))"

lemma seek_linked:
  "links c \<Longrightarrow> 100 * k + tid \<le> length (queue c) \<Longrightarrow> 0 < k \<Longrightarrow> seek (queue c) (100 * k - 1) tid = Some (100 * k - 1 + tid)"
proof (induction tid arbitrary: k rule: less_induct)
  case (less tid)
  show ?case
  proof (cases "tid \<ge> 100")
    case True
    then have "next_100 (queue c ! (100 * k - 1)) = Some (100 * k + 99)" using less.prems by (simp add: links_def)
    moreover have "seek (queue c) (100 * Suc k - 1) (tid - 100) = Some (100 * Suc k - 1 + (tid - 100))"
      by (rule less.IH) (use True less.prems in auto)
    moreover have "100 * Suc k - 1 = 100 * k + 99" "100 * Suc k - 1 + (tid - 100) = 100 * k - 1 + tid" "100 * k - 1 < length (queue c)"
      using True less.prems(2,3) by simp_all
    ultimately show ?thesis using True by (subst seek.simps) (simp only: if_True option.case)
  next
    case False
    then show ?thesis using less.prems by (subst seek.simps) simp
  qed
qed

lemma seek_queue:
  assumes "links c" "tid < length (queue c)"
  shows "seek (queue c) 0 tid = Some (if tid < 100 then tid else tid - 1)"
proof (cases "tid < 100")
  case True
  then show ?thesis using assms(2) by (subst seek.simps) simp
next
  case False
  have "100 * Suc 0 \<le> length (queue c)" using False assms(2) by simp
  then have n: "next_100 (queue c ! 0) = Some 99" using assms(1) unfolding links_def by fastforce
  have "seek (queue c) (100 * 1 - 1) (tid - 100) = Some (100 * 1 - 1 + (tid - 100))"
    by (rule seek_linked [OF assms(1)]) (use False assms(2) in auto)
  moreover have "queue c \<noteq> []" using assms(2) by auto
  ultimately show ?thesis using False n by (subst seek.simps) simp
qed

lemma link_entry_links:
  assumes "links c"
  shows "links (link_entry e c)"
proof -
  let ?n = "length (queue c)" and ?p = "100 * (length (queue c) div 100) - 1"
  have prev: "(if queue c = [] then ?n else q_prev100 c) = ?p" using assms by (auto simp: links_def)
  have nx: "next_100 (queue c ! (100 * k - 1)) = Some (100 * k + 99)" if "100 * Suc k \<le> ?n" for k
    using assms that unfolding links_def by blast
  show ?thesis
  proof (cases "Suc ?n mod 100 = 0")
    case True
    have m: "Suc ?n = 100 * Suc (?n div 100)" using True by (simp add: div_Suc) presburger
    define m where "m = ?n div 100"
    note m = m [folded m_def]
    have q: "queue (link_entry e c) = (queue c @ [e])[?p := ((queue c @ [e]) ! ?p)\<lparr>next_100 := Some ?n\<rparr>]" "q_prev100 (link_entry e c) = ?n"
      using True prev by (simp_all add: link_entry_def upd_entry_def Let_def)
    have d: "?n div 100 = m" "?n = 100 * m + 99" "Suc ?n div 100 = Suc m" using m by simp_all
    have "next_100 (queue (link_entry e c) ! (100 * k - 1)) = Some (100 * k + 99)" if "100 * Suc k \<le> Suc ?n" for k
    proof (cases "k = m")
      case True
      then show ?thesis using q d by simp
    next
      case False
      then have "100 * Suc k \<le> ?n" "100 * k - 1 \<noteq> 100 * m - 1" "100 * k - 1 < 100 * m + 99" using that m by auto
      then show ?thesis using q d nx [of k] by (simp add: nth_append)
    qed
    then show ?thesis using q d by (simp add: links_def)
  next
    case False
    have q: "queue (link_entry e c) = queue c @ [e]" "q_prev100 (link_entry e c) = ?p"
      using False prev by (simp_all add: link_entry_def Let_def)
    have "Suc ?n div 100 = ?n div 100" using False by (simp add: div_Suc)
    moreover have "next_100 ((queue c @ [e]) ! (100 * k - 1)) = Some (100 * k + 99)" if "100 * Suc k \<le> Suc ?n" for k
    proof -
      have "100 * Suc k \<noteq> Suc ?n" using False by (metis mod_mult_self1_is_0)
      then have "100 * Suc k \<le> ?n" "100 * k - 1 < ?n" using that by simp_all
      then show ?thesis using nx [of k] by (simp add: nth_append)
    qed
    ultimately show ?thesis using q by (simp add: links_def)
  qed
qed

section \<open>Splicing two inputs\<close>

lemma diff_at_mem: "i \<in> set (diff_at n p q) \<longleftrightarrow> i < n \<and> p ! i \<noteq> q ! i"
  by (auto simp: diff_at_def)

text \<open>
  The result has the length of the other input, starts like the entry and goes on like the other
  one from a place between the first and the last difference.
\<close>

lemma splice_with_spec:
  assumes "splice_with in_buf new_buf s = Some (Some res, s')"
  shows "\<exists>p q l. p \<le> q \<and> q < l \<and> l < length in_buf \<and> l < length new_buf \<and> in_buf ! p \<noteq> new_buf ! p \<and> in_buf ! l \<noteq> new_buf ! l \<and>
    take p in_buf = take p new_buf \<and> res = take q in_buf @ drop q new_buf"
proof -
  let ?n = "min (length in_buf) (length new_buf)"
  let ?d = "diff_at ?n in_buf new_buf"
  have loc: "locate_diffs in_buf new_buf ?n = Some (if ?d = [] then (-1, -1) else (int (hd ?d), int (last ?d)))"
    by (rule locate_diffs_spec) simp_all
  have ne: "?d \<noteq> []" using assms loc by (auto simp: splice_with_def)
  have sd: "sorted ?d" by (simp add: diff_at_def sorted_wrt_filter)
  define p l where "p = hd ?d" and "l = last ?d"
  have mem: "p \<in> set ?d" "l \<in> set ?d" using ne by (simp_all add: p_def l_def)
  have first: "p \<le> i" if "i \<in> set ?d" for i using sd that ne unfolding p_def by (cases ?d) auto
  have loc': "locate_diffs in_buf new_buf ?n = Some (int p, int l)" using loc ne by (simp add: p_def l_def)
  then have pl: "p \<noteq> l" using assms by (auto simp: splice_with_def)
  then have lt: "p < l" using first [OF mem(2)] by simp
  have nd: "nat (int l - int p) = l - p" by arith
  obtain r s1 where r: "URs (l - p) s = Some (r, s1)" and g: "getn in_buf 0 (p + r) \<bind> putn new_buf 0 = Some res"
    using assms loc' pl by (auto simp: splice_with_def nd split: if_splits Option.bind_splits)
  have "r < l - p" using r lt by (auto simp: URs_def UR_def split: if_splits)
  moreover have b: "l < length in_buf" "l < length new_buf" using mem(2) by (simp_all add: diff_at_mem)
  ultimately have "p + r \<le> length in_buf" "p + r \<le> length new_buf" by simp_all
  then have "res = take (p + r) in_buf @ drop (p + r) new_buf" using g by (simp add: getn_def putn_def)
  moreover have "take p in_buf = take p new_buf"
  proof (rule nth_equalityI)
    show "length (take p in_buf) = length (take p new_buf)" using lt b by simp
    fix i assume "i < length (take p in_buf)"
    then have "i < p" "i < ?n" using lt b by simp_all
    then show "take p in_buf ! i = take p new_buf ! i" using first [of i] by (auto simp: diff_at_mem)
  qed
  ultimately show ?thesis using mem b \<open>r < l - p\<close> by (intro exI [of _ p] exI [of _ "p + r"] exI [of _ l]) (simp add: diff_at_mem)
qed

section \<open>The random stages return\<close>

text \<open>
  The loop that looks for another entry ends only when the random numbers help: from no point on do all
  of them have the same remainder.
\<close>

definition fair :: "afl \<Rightarrow> bool" where
  "fair c \<longleftrightarrow> (\<forall>n > 1. \<forall>v i. \<exists>j \<ge> i. rnd c j mod n \<noteq> v)"

lemma fair_counter: "fair (c\<lparr>rnd := (\<lambda>j. j)\<rparr>)"
  unfolding fair_def
proof (intro allI impI)
  fix n v i :: nat assume n: "1 < n"
  then have "i mod n \<noteq> Suc i mod n" by (simp add: mod_Suc)
  then consider "i mod n \<noteq> v" | "Suc i mod n \<noteq> v" by fastforce
  then show "\<exists>j \<ge> i. rnd (c\<lparr>rnd := (\<lambda>j. j)\<rparr>) j mod n \<noteq> v"
    by cases (auto intro: exI [of _ i] exI [of _ "Suc i"])
qed

lemma URs_eq: "0 < n \<Longrightarrow> URs n s = Some (rnd (core (fz s)) (rnd_calls (core (fz s))) mod n,
    upd_fz (upd_core (\<lambda>_. (core (fz s))\<lparr>rnd_calls := Suc (rnd_calls (core (fz s)))\<rparr>)) s)"
  by (simp add: URs_def UR_def)

lemma ok_other_entry:
  assumes "fair (core (fz s))" "1 < length (queue (core (fz s)))"
    and Q: "\<And>tid s'. tid < length (queue (core (fz s))) \<Longrightarrow> rest s' = rest s \<Longrightarrow> Q (tid, s')"
  shows "ok (other_entry cur s) Q"
proof -
  let ?c = "core (fz s)" and ?n = "length (queue (core (fz s)))"
  have ne: "queue ?c \<noteq> []" using assms(2) by auto
  obtain j where j: "j \<ge> rnd_calls ?c" "rnd ?c j mod ?n \<noteq> cur" using assms(1,2) unfolding fair_def by blast
  have "ok (other_entry cur s1) Q" if "rest s1 = rest s" "rnd (core (fz s1)) = rnd ?c" "rnd_calls (core (fz s1)) \<le> j" "j - rnd_calls (core (fz s1)) = d" for s1 d
    using that
  proof (induction d arbitrary: s1 rule: less_induct)
    case (less d)
    let ?r = "rnd ?c (rnd_calls (core (fz s1))) mod ?n"
    let ?s2 = "upd_fz (upd_core (\<lambda>_. (core (fz s1))\<lparr>rnd_calls := Suc (rnd_calls (core (fz s1)))\<rparr>)) s1"
    have q: "length (queue (core (fz s1))) = ?n" using rest_same(4) [OF less.prems(1)] by simp
    have u: "URs ?n s1 = Some (?r, ?s2)" using less.prems(2) ne by (simp add: URs_eq)
    have r2: "rest ?s2 = rest s" using less.prems(1) by simp
    show ?case
    proof (cases "?r = cur")
      case True
      then have "rnd_calls (core (fz s1)) \<noteq> j" using j(2) by auto
      then have "ok (other_entry cur ?s2) Q"
        by (intro less.IH [OF _ r2]) (use less.prems in \<open>auto simp: upd_fz_def upd_core_def\<close>)
      then show ?thesis using True by (subst other_entry.simps) (simp add: q u)
    next
      case False
      have "?r < ?n" using assms(2) by (intro mod_less_divisor) linarith
      then have "Q (?r, ?s2)" by (rule Q [OF _ r2])
      then show ?thesis using False by (subst other_entry.simps) (simp add: q u)
    qed
  qed
  from this [of s] j(1) show ?thesis by simp
qed

text \<open>What splicing relies on: pointers in order and files as long as the entries say.\<close>

definition pool_wf :: "afl \<Rightarrow> bool" where
  "pool_wf c \<longleftrightarrow> links c \<and> fair c \<and>
     (\<forall>q \<in> set (queue c). unat (len q) \<le> MAX_FILE \<and> (\<exists>content. files c (fname q) = Some content \<and> unat (len q) \<le> length content))"

lemma pool_wf_rnd [simp]: "pool_wf (c\<lparr>rnd_calls := k\<rparr>) = pool_wf c"
  by (simp add: pool_wf_def links_def fair_def)

lemma rest_pool:
  assumes "rest s' = rest s"
  shows "pool_wf (core (fz s')) = pool_wf (core (fz s))"
  by (rule rest_steady [OF assms, of pool_wf "\<lambda>t f. None"]) (simp add: steady_def)

lemma long_enough_range:
  assumes "start \<le> length q"
  shows "start \<le> long_enough q cur start \<and> long_enough q cur start \<le> length q \<and>
    (long_enough q cur start < length q \<longrightarrow> 2 \<le> unat (len (q ! long_enough q cur start)) \<and> long_enough q cur start \<noteq> cur)"
proof -
  let ?P = "\<lambda>j. unat (len (q ! j)) < 2 \<or> j = cur" and ?xs = "[start..<length q]"
  have "length (takeWhile ?P ?xs) \<le> length ?xs" by (rule length_takeWhile_le)
  moreover have "\<not> ?P (?xs ! length (takeWhile ?P ?xs))" if "length (takeWhile ?P ?xs) < length ?xs"
    using that by (rule nth_length_takeWhile)
  ultimately show ?thesis using assms unfolding long_enough_def by (auto simp: nth_upt not_less)
qed

lemma ok_splice_with:
  assumes "\<And>s'. rest s' = rest s \<Longrightarrow> Q (None, s')" "\<And>b s'. length b = length new_buf \<Longrightarrow> rest s' = rest s \<Longrightarrow> Q (Some b, s')"
  shows "ok (splice_with in_buf new_buf s) Q"
proof -
  let ?n = "min (length in_buf) (length new_buf)"
  let ?d = "diff_at ?n in_buf new_buf"
  have loc: "locate_diffs in_buf new_buf ?n = Some (if ?d = [] then (-1, -1) else (int (hd ?d), int (last ?d)))"
    by (rule locate_diffs_spec) simp_all
  show ?thesis
  proof (cases "?d = [] \<or> hd ?d = last ?d \<or> last ?d < 2")
    case True
    then show ?thesis using loc assms(1) by (auto simp: splice_with_def)
  next
    case False
    then have ne: "?d \<noteq> []" by simp
    have "sorted ?d" by (simp add: diff_at_def sorted_wrt_filter)
    then have "hd ?d \<le> last ?d" using ne by (cases ?d) auto
    moreover have "last ?d < ?n" using last_in_set [OF ne] unfolding diff_at_mem ..
    ultimately have le: "hd ?d \<le> last ?d" "last ?d < ?n" .
    then have lt: "hd ?d < last ?d" using False by simp
    have nd: "nat (int (last ?d) - int (hd ?d)) = last ?d - hd ?d" by arith
    have "ok (URs (last ?d - hd ?d) s) (\<lambda>x. ok (getn in_buf 0 (hd ?d + fst x)) (\<lambda>h. ok (putn new_buf 0 h) (\<lambda>b. Q (Some b, snd x))))"
      using lt le(2) assms(2) by (intro ok_URs) (auto intro!: ok_getn ok_putn)
    then show ?thesis using False by (simp add: splice_with_def loc nd split_beta Let_def)
  qed
qed

definition ready :: "stages \<Rightarrow> bool" where
  "ready s \<longleftrightarrow> sane s \<and> pool_wf (core (fz s))"

lemma rest_ready: "rest s' = rest s \<Longrightarrow> ready s \<Longrightarrow> ready s'"
  using rest_sane [of s' s] rest_pool [of s' s] unfolding ready_def by blast

lemma ready_splicing [simp]: "ready (upd_fz (\<lambda>f. f\<lparr>splicing_with := i\<rparr>) s) = ready s"
  by (simp add: ready_def sane_def upd_fz_def)

lemma try_splice_ok:
  assumes "ready s" "1 < length (queue (core (fz s)))"
  shows "ok (try_splice orig_in s) (\<lambda>(r, s'). ready s' \<and> (\<forall>b. r = Some b \<longrightarrow> 0 < length b \<and> length b \<le> MAX_FILE))"
  unfolding try_splice_def ok_simps
proof (rule ok_other_entry)
  show "fair (core (fz s))" "1 < length (queue (core (fz s)))" using assms by (simp_all add: ready_def pool_wf_def)
  fix tid s1 assume tid: "tid < length (queue (core (fz s)))" and r: "rest s1 = rest s"
  let ?q = "queue (core (fz s1))" and ?t = "long_enough (queue (core (fz s1))) (queue_cur (core (fz s1)))"
  have s1: "ready s1" by (rule rest_ready [OF r assms(1)])
  have "tid < length ?q" using tid rest_same(4) [OF r] by simp
  moreover have "links (core (fz s1))" using s1 by (simp add: ready_def pool_wf_def)
  ultimately obtain i where i: "seek ?q 0 tid = Some i" "i \<le> length ?q" using seek_queue [of "core (fz s1)" tid] by (cases "tid < 100") auto
  note le = long_enough_range [OF i(2), of "queue_cur (core (fz s1))"]
  let ?s2 = "upd_fz (\<lambda>f. f\<lparr>splicing_with := int (tid + (?t i - i))\<rparr>) s1"
  have "core (fz ?s2) = core (fz s1)" by (simp add: upd_fz_def)
  moreover have "ready ?s2" using s1 by simp
  ultimately have s2: "ready ?s2" "core (fz ?s2) = core (fz s1)" by simp_all
  have "ok (read_target (core (fz s1)) (?t i) \<bind> (\<lambda>b. splice_with orig_in b ?s2))
    (\<lambda>(r, s'). ready s' \<and> (\<forall>b. r = Some b \<longrightarrow> 0 < length b \<and> length b \<le> MAX_FILE))" if "?t i < length ?q"
  proof -
    have "?q ! ?t i \<in> set ?q" using that by simp
    then obtain content where c: "files (core (fz s1)) (fname (?q ! ?t i)) = Some content"
      "unat (len (?q ! ?t i)) \<le> length content" "unat (len (?q ! ?t i)) \<le> MAX_FILE"
      using s1 unfolding ready_def pool_wf_def by blast
    then have b: "read_target (core (fz s1)) (?t i) = Some (bytes_of (take (unat (len (?q ! ?t i))) content))"
      by (simp add: read_target_def)
    show ?thesis unfolding b ok_simps
      by (rule ok_splice_with) (use c(2,3) le that rest_ready [OF _ s2(1)] in \<open>auto simp: bytes_of_def\<close>)
  qed
  then show "ok (case (tid, s1) of (tid, s) \<Rightarrow>
      let q = queue (core (fz s)) in seek q 0 tid \<bind> (\<lambda>start.
        let target = long_enough q (queue_cur (core (fz s))) start; s = upd_fz (\<lambda>f. f\<lparr>splicing_with := int (tid + (target - start))\<rparr>) s
        in if target < length q then read_target (core (fz s)) target \<bind> (\<lambda>new_buf. splice_with orig_in new_buf s) else Some (None, s)))
      (\<lambda>(r, s'). ready s' \<and> (\<forall>b. r = Some b \<longrightarrow> 0 < length b \<and> length b \<le> MAX_FILE))"
    using i(1) s2 by (simp add: Let_def)
qed

lemma retry_splicing_ok:
  "ready s \<Longrightarrow> ok (retry_splicing orig_in splice_cycle s)
     (\<lambda>(r, s'). ready s' \<and> (\<forall>n b. r = Some (n, b) \<longrightarrow> 0 < length b \<and> length b \<le> MAX_FILE))"
proof (induction orig_in splice_cycle s rule: retry_splicing.induct)
  case (1 orig_in splice_cycle s)
  show ?case
  proof (cases "may_splice orig_in s \<and> splice_cycle < SPLICE_CYCLES")
    case True
    then have "1 < length (queue (core (fz s)))" by (simp add: may_splice_def)
    from try_splice_ok [OF "1.prems" this, of orig_in] obtain r s1 where r: "try_splice orig_in s = Some (r, s1)" "ready s1"
      "\<And>b. r = Some b \<Longrightarrow> 0 < length b \<and> length b \<le> MAX_FILE" by (auto simp: ok_ex)
    show ?thesis
      using True r "1.IH" [OF True r(1) refl] by (subst retry_splicing.simps) (cases r; simp)
  qed (use "1.prems" in \<open>subst retry_splicing.simps, auto\<close>)
qed

text \<open>
  The havoc stage and the stages on spliced inputs return, whatever the random numbers are, for every
  tester that answers inputs of 1 to \<open>MAX_FILE\<close> bytes and keeps the seeds readable and the pointers of the
  queue in order. In particular no access is out of bounds and no input is empty or longer.
\<close>

lemma random_stages_ok:
  assumes run: "keeps_seeds run" "sizes_answered run" "steady pool_wf run"
  shows "0 < length in_buf \<Longrightarrow> length in_buf \<le> MAX_FILE \<Longrightarrow> length in_buf \<le> length (fst x) \<Longrightarrow> take (length in_buf) (fst x) = in_buf \<Longrightarrow>
    ready (snd x) \<Longrightarrow> ok (random_stages run det orig_perf orig_in splice_cycle in_buf x) (\<lambda>(a, s'). \<not> a \<longrightarrow> ready s')"
proof (induction "SPLICE_CYCLES - splice_cycle" arbitrary: splice_cycle in_buf x rule: less_induct)
  case less
  obtain buf s where x: "x = (buf, s)" by (cases x)
  have "sane s" "pool_wf (core (fz s))" using less.prems(5) x by (simp_all add: ready_def)
  from havoc_stage_ok [OF less.prems(1,2) run _ _ this, of buf det splice_cycle orig_perf] less.prems(3,4) x
  obtain a buf' s1 p where h: "havoc_stage run det splice_cycle orig_perf in_buf x = Some (a, buf', s1, p)" "\<not> a \<longrightarrow> ready s1"
    by (auto simp: ok_ex ready_def)
  show ?case
  proof (cases a)
    case False
    then have "ready s1" using h(2) by simp
    from retry_splicing_ok [OF this, of orig_in splice_cycle] obtain r s2 where r: "retry_splicing orig_in splice_cycle s1 = Some (r, s2)" "ready s2"
      "\<And>n b. r = Some (n, b) \<Longrightarrow> 0 < length b \<and> length b \<le> MAX_FILE" by (auto simp: ok_ex)
    show ?thesis
    proof (cases r)
      case None
      then show ?thesis using h(1) r(1,2) False by (subst random_stages.simps) simp
    next
      case (Some nb)
      obtain n b where nb: "nb = (n, b)" by (cases nb)
      have "splice_cycle < n \<and> n \<le> SPLICE_CYCLES" using retry_splicing_cycle r(1) Some nb by blast
      then have "ok (random_stages run det orig_perf orig_in n b (b, s2)) (\<lambda>(a, s'). \<not> a \<longrightarrow> ready s')"
        using less.hyps [of n b "(b, s2)"] r(2,3) Some nb by auto
      then show ?thesis using h(1) r(1) False Some nb by (subst random_stages.simps) simp
    qed
  qed (use h(1) in \<open>subst random_stages.simps, simp\<close>)
qed

end
