(* ===== verification/Spec2Isabelle.thy ===== *)
theory Spec2Isabelle
  imports Ftp_Adapter Ssh_Adapter Dns_Adapter Dtls_Adapter Rtsp_Adapter Sip_Adapter Ftp_Replay
    Aflnet_Regions Aflnet_Packets Aflnet_Datagrams Aflnet_Responses Aflnet_Codes Aflnet_Messages Aflnet_Util
    Bit_Vector Ltl_Spec Ltl_Evaluator Ltl_Types Monitor_Main Monitor_Bridge
    Monitor_Session Afl_Fuzz_One
begin

text \<open>
  \<^bold>\<open>The program.\<close> SNPSFuzzer (\<open>src/SNPSFuzzer\<close>) fuzzes network servers and checks, while it runs, that the
  conversation with the server obeys a specification in past-time linear temporal logic. A seed
  file is cut into messages (\<open>aflnet.c\<close>), the messages are sent one by one (\<open>afl-fuzz.c\<close>), and from
  the bytes of every message and every reply a predicate adapter (\<open>monitor-src\<close>) prints one line of
  \<open>key=value\<close> pairs. The bridge (\<open>monitor_bridge.c\<close>) writes the lines into a pipe; the evaluator
  (\<open>evaluator-src\<close>) reads them, keeps one bit per node of every formula, and writes a line
  for every violation, which the bridge turns into a flag that the fuzzer asks for at the end of the
  session. Before a snapshot of the server is taken, the evaluator is told to save its bits, and to
  restore them when the snapshot is used again. Around this stands the fuzzer itself (\<open>afl-fuzz.c\<close>): it
  learns a state machine from the response codes, chooses a state, a seed that reaches it and a part
  M2 of the seed's messages, mutates M2, runs the target, compares the coverage bitmap with what it
  has seen, and keeps what is new in its queue, or as a crash or a hang.

  \<^bold>\<open>Conventions.\<close> \<^const>\<open>None\<close> is undefined behaviour, an abort (\<open>PFATAL\<close>, \<open>assert\<close>, an uncaught exception) or
  a loop without end; theorems that something returns say so with \<^const>\<open>Some\<close>. A buffer is the list of
  bytes from a pointer to the end of its object, with its length apart. \<open>unsigned int\<close> is \<open>32 word\<close>
  where the code relies on wrap-around. Loops are functions with termination proofs or, where
  they may not end, partial functions; there is no fuel.
  Buffers of the splitters are bounded by 32 MiB (\<open>small_buf\<close>), below which no sum of the code
  overflows and no allocation reaches \<open>MAX_ALLOC\<close>; the fuzzer caps its inputs at 1 MiB. What the
  environment decides is an argument or a field that is consumed: bytes behind a buffer, what the peer
  sends, which system calls fail, when lines arrive in a pipe, the numbers of \<open>random()\<close>, what an
  execution of the target leaves in the bitmap. The functions chosen by protocol
  (\<open>extract_requests\<close>, \<open>extract_response_codes\<close>), the floating-point scores of \<open>FAVOR\<close>
  selection and the post-processing library are arguments of the definitions that call them.

  \<^bold>\<open>Theories and sources.\<close>

  \<^item> \<open>C_Prelude\<close>: bytes, character classes, \<open>atoi\<close>, \<open>strtol\<close>-like scanners, big-endian reads, shared lemmas.
  \<^item> \<open>Pred_Line\<close>: \<open>snprintf\<close> of pairs, \<open>append_packet_trace\<close>, and \<open>parse_kv_line\<close> of \<open>main.cpp\<close>; reading a
    printed line gives back its pairs.
  \<^item> \<open>Adapter\<close>: the function pointers through which \<open>afl-fuzz.c\<close> calls an adapter, as the locales
    \<open>pred_lines\<close>, \<open>pred_adapter\<close> and \<open>traced_adapter\<close>, and \<open>send_over_network_m1\<close> as their client.
  \<^item> \<open>Ftp_Adapter\<close>, \<open>Ssh_Adapter\<close>, \<open>Dns_Adapter\<close>, \<open>Dtls_Adapter\<close>, \<open>Rtsp_Adapter\<close>, \<open>Sip_Adapter\<close>: the six files
    \<open>monitor-src/*_predicate_adapter.c\<close>, function by function. A session's static variables are a
    record; a \<open>step\<close> is the part of a builder that reads the buffer and changes the state, and the
    builder prints its pairs. Each interprets the locales; the lemmas show totality, the shape of the
    lines, invariants of reachable sessions, and what parsers read from well-formed messages.
  \<^item> \<open>Ftp_Replay\<close>: \<open>ftp_trace_replay.c\<close>; replaying a recorded packet gives its pairs.
  \<^item> \<open>Aflnet_Alloc\<close>, \<open>Aflnet_Regions\<close>, \<open>Aflnet_Packets\<close>, \<open>Aflnet_Datagrams\<close>: the allocator of \<open>alloc-inl.h\<close> and the
    eleven \<open>extract_requests\<close> functions; they are compared with reference definitions that cut a
    buffer, through the locales \<open>splitter\<close> and \<open>framed\<close>.
  \<^item> \<open>Aflnet_Responses\<close>, \<open>Aflnet_Codes\<close>: the eleven \<open>extract_response_codes\<close> functions; the locale
    \<open>status_lines\<close> covers the text protocols.
  \<^item> \<open>Aflnet_Messages\<close>: message lists, seed files and the packet loop of \<open>aflnet-replay.c\<close>; round trips.
  \<^item> \<open>Aflnet_Util\<close>: \<open>net_send\<close>, \<open>net_recv\<close>, \<open>str_split\<close>, \<open>parse_net_config\<close>, \<open>state_sequence_to_string\<close>; a received
    response ends with the NUL the adapters rely on.
  \<^item> \<open>Bit_Vector\<close>: \<open>bitvector.cpp\<close>, which implements sets (locale \<open>bit_store\<close>).
  \<^item> \<open>Ltl_Spec\<close>: \<open>ast.h\<close>, the shape of formulas in \<open>parser.y\<close>, \<open>preprocess.cpp\<close>, \<open>typechecker.cpp\<close>, \<open>state.cpp\<close>.
  \<^item> \<open>Ltl_Evaluator\<close>: \<open>evaluator.cpp\<close>; its verdicts are the truth of the formulas on the whole trace.
  \<^item> \<open>Ltl_Types\<close>: type-checked formulas on sane labels do not fail, but for constants and \<open>Y\<close> over comparisons.
  \<^item> \<open>Monitor_Main\<close>: the loop of \<open>main.cpp\<close>; snapshots, and which violations are reported.
  \<^item> \<open>Monitor_Bridge\<close>: \<open>monitor_bridge.c\<close>, with the pipe and the buffer of the stream.
  \<^item> \<open>Monitor_Session\<close>: evaluator and bridge together; why SIP violations are never reported.
  \<^item> \<open>Afl_Types\<close>, \<open>Afl_Popcount\<close>, \<open>Afl_Bitmap\<close>: \<open>types.h\<close>, memory read as words, and the coverage bitmap of
    \<open>afl-fuzz.c\<close> (\<open>has_new_bits\<close>, \<open>count_bits\<close>, \<open>count_bytes\<close>, \<open>simplify_trace\<close>, \<open>classify_counts\<close>,
    \<open>minimize_bits\<close>); the word loops agree with what is meant for bytes and bits (locale \<open>word_loop\<close>).
  \<^item> \<open>Afl_Core\<close>: queue entries, state tables and the other globals that the parts of the fuzzer share,
    as the record \<open>afl\<close>.
  \<^item> \<open>Afl_States\<close>: the state machine learnt from responses (\<open>update_state_aware_variables\<close>,
    \<open>update_region_annotations\<close>, \<open>hash32\<close>); its tables stay consistent.
  \<^item> \<open>Afl_Choice\<close>: \<open>choose_target_state\<close>, \<open>choose_seed\<close> and the choice of a region; the locale
    \<open>cyclic_pick\<close> covers round robin.
  \<^item> \<open>Afl_Queue\<close>: \<open>add_to_queue\<close>, \<open>update_bitmap_score\<close>, \<open>cull_queue\<close>; the favored entries cover the bitmap.
  \<^item> \<open>Afl_Run\<close>: the whole state of the fuzzer (record \<open>fuzzer\<close>), \<open>run_target\<close> with its decisions about
    snapshots, and \<open>calibrate_case\<close>.
  \<^item> \<open>Afl_Save\<close>: \<open>describe_op\<close>, \<open>save_if_interesting\<close> and the code around it; which results are kept.
  \<^item> \<open>Klist\<close>: the linked list of \<open>klist.h\<close> as nodes in memory, where a walk may never end
    (\<^theory_text>\<open>partial_function (option)\<close>); exchanging M2 in it is replacing a part of a list.
  \<^item> \<open>Afl_M2\<close>: \<open>fuzz_one\<close> around its mutations, and \<open>common_fuzz_stuff\<close>.
  \<^item> \<open>Afl_Mutate\<close>: helpers of the mutation stages: \<open>could_be_bitflip\<close>, \<open>could_be_arith\<close>, \<open>could_be_interest\<close>,
    \<open>calculate_score\<close>, \<open>locate_diffs\<close>, \<open>choose_block_len\<close>; the tests for duplicates are compared
    with what the stages do.
  \<^item> \<open>Afl_Extras\<close>: dictionaries, \<open>load_extras\<close>, \<open>maybe_add_auto\<close>, \<open>save_auto\<close>, \<open>load_auto\<close>, and the record \<open>stages\<close>
    around \<open>fuzzer\<close>; the locale \<open>key_compare\<close> covers the comparison functions of \<open>qsort\<close>.
  \<^item> \<open>Afl_Det\<close>, \<open>Afl_Stages\<close>, \<open>Afl_Det_Run\<close>: the deterministic stages from walking bits to dictionaries, for any
    function that runs a test case; they restore their buffer, and what their checks for duplicates
    leave out and what not.
  \<^item> \<open>Afl_Havoc\<close>, \<open>Afl_Fuzz_One\<close>: the havoc stage, splicing, and \<open>fuzz_one\<close> as a whole; every tweak stays in its
    buffer, and the random stages return.
  \<^item> this theory: one session from the lines of its events to the result of the execution.

  \<^bold>\<open>Not modelled.\<close> Sockets, signals, process control and the CRIU snapshots of \<open>afl-fuzz.c\<close> (what they
  leave behind is an input of \<open>run_target\<close>); its dry run, synchronisation and status screen; log files and diagnostics; the generated lexer and parser (a
  parsed specification is an input); the AFL tools, the benchmark copies under \<open>src/profuzzbench\<close> and
  third-party code.

  \<^bold>\<open>Plan.\<close> Next are the dry run and synchronisation of the fuzzer, then the remaining senders, and the second
  copies of the adapters' replay tools under \<open>evaluator-src\<close>.
\<close>

section \<open>From the lines of a session to the result of an execution\<close>

text \<open>
  C1 (refinement): one session, from the emitted lines to the result the fuzzer works with. The
  evaluator processes the lines of a session that starts at the start of a trace; its output is in
  the pipe when the fuzzer ends the session, and what earlier sessions left in the stream buffer are
  violation lines. Then an execution without fault becomes a violation exactly when at some event a
  formula is false of the events so far and the protocol's filter accepts the event, and the handle is
  ready for the next session.
\<close>

theorem session_violation_flag:
  assumes "\<forall>f \<in> set fs. prev_recorded f \<and> length (nodes f) < 2 ^ 31" and "eval m = fresh_Evaluator fs"
    and "events tc ls kvs labs" and "\<forall>l \<in> set labs. \<forall>f \<in> set fs. evaluable l f" and "length ls < 2 ^ 31"
    and "g_monitor s = Some h" and "use_net s"
    and "eval_stdin h = Some sent" and "eval_stdout h = Some buf" and "list_all is_violation buf" and "violation_detected h = 0"
  shows "\<exists>m' out r s' h' buf'. process_lines p tc m ls = Some (m', out)
    \<and> ask_monitor [] FAULT_NONE (s\<lparr>monitor_pipe := out\<rparr>) = (r, s')
    \<and> r = (if \<exists>i < length ls. reported p (\<lambda>k. labs ! k) fs i (kvs ! i) then FAULT_VIOLATION else FAULT_NONE)
    \<and> g_monitor s' = Some h' \<and> eval_stdout h' = Some buf' \<and> list_all is_violation buf' \<and> violation_detected h' = 0"
proof -
  from session_flag [OF assms(1-5,8-11), of p] obtain m' out h' buf' where
    run: "process_lines p tc m ls = Some (m', out)" "monitor_end_session [] (Some h) out = (Some h', [])"
    and flag: "monitor_check_violation (Some h') = (if \<exists>i < length ls. reported p (\<lambda>k. labs ! k) fs i (kvs ! i) then 1 else 0)"
    and buf: "eval_stdout h' = Some buf'" "list_all is_violation buf'"
    by blast
  have g: "g_monitor (s\<lparr>monitor_pipe := out\<rparr>) = Some h" "use_net (s\<lparr>monitor_pipe := out\<rparr>)" using assms(6,7) by simp_all
  show ?thesis
  proof (cases "\<exists>i < length ls. reported p (\<lambda>k. labs ! k) fs i (kvs ! i)")
    case True
    with run flag buf g show ?thesis
      by (simp add: ask_monitor_def monitor_clear_violation_def)
  next
    case False
    then have "violation_detected h' = 0" using flag by (simp add: monitor_check_violation_def split: if_splits)
    with False run flag buf g show ?thesis by (auto simp: ask_monitor_def)
  qed
qed

theorem session_violation_flag_witness:
  "\<exists>m' out s'. process_lines ''generic'' \<lparr>TypeContext = [''epoch'' \<mapsto> (''INT'', [])], constant_list = []\<rparr>
       (new_Monitor [AST_H 0 (AST_LT 0 (AST_ID 0 ''epoch'') (AST_INT 0 3))]) [''epoch=3''] = Some (m', out)
     \<and> ask_monitor [] FAULT_NONE (sample_fuzzer\<lparr>monitor_pipe := out\<rparr>) = (FAULT_VIOLATION, s')"
proof -
  have h: "g_monitor sample_fuzzer = Some \<lparr>eval_stdin = Some [], eval_stdout = Some [], eval_pid = 7, violation_detected = 0\<rparr>"
    "use_net sample_fuzzer"
    by (simp_all add: sample_fuzzer_def)
  show ?thesis
    using session_violation_flag [OF epoch_session(1,2) epoch_event epoch_session(3,4) h, of "[]" "[]" "''generic''"] epoch_session(5) by auto
qed

end
